(* ===== verification/Prelude.thy ===== *)
theory Prelude
  imports Main "HOL-Library.Word" "HOL-Library.List_Lexorder" "HOL-Library.Sublist"
begin

text \<open>
  Shared vocabulary of the development: the machine integers and byte strings of the
  Rust code, the big-endian conversions of the standard library, the lexicographic order
  of byte strings (the order the storage engine iterates in), and generic lemmas on lists
  and words that the component theories use.
\<close>

unbundle bit_operations_syntax

named_theorems key_simps \<open>closed forms of the physical keys the code composes\<close>
named_theorems byte_simps \<open>numeric values of byte strings and words\<close>

type_synonym u8 = "8 word"
type_synonym u16 = "16 word"
type_synonym u32 = "32 word"
type_synonym u64 = "64 word"
type_synonym bytes = "u8 list"

text \<open>\<open>std::ops::Bound\<close>.\<close>

datatype 'a bound = Included 'a | Excluded 'a | Unbounded

section \<open>Big-endian byte strings\<close>

text \<open>\<open>bval\<close> reads a byte string as a big-endian number; \<open>be_bytes k n\<close> writes the
  low \<open>8 k\<close> bits of \<open>n\<close>.\<close>

definition bval :: "bytes \<Rightarrow> nat" where
  "bval bs = foldl (\<lambda>a b. a * 256 + unat b) 0 bs"

fun be_bytes :: "nat \<Rightarrow> nat \<Rightarrow> bytes" where
  "be_bytes 0 n = []"
| "be_bytes (Suc k) n = be_bytes k (n div 256) @ [word_of_nat n]"

text \<open>\<open>u64::to_be_bytes\<close>, \<open>u64::from_be_bytes\<close> and their 16-bit counterparts.\<close>

definition to_be64 :: "u64 \<Rightarrow> bytes" where
  "to_be64 v = be_bytes 8 (unat v)"

definition from_be64 :: "bytes \<Rightarrow> u64" where
  "from_be64 bs = word_of_nat (bval bs)"

definition to_be16 :: "u16 \<Rightarrow> bytes" where
  "to_be16 v = be_bytes 2 (unat v)"

lemma bval_Nil [simp]: "bval [] = 0"
  by (simp add: bval_def)

lemma bval_snoc [simp]: "bval (bs @ [b]) = bval bs * 256 + unat b"
  by (simp add: bval_def)

lemma unat_u8_less [simp]: "unat (b :: u8) < 256"
  using unsigned_less [of b, where ?'a = nat] by simp

lemma unat_u8_less_ge [simp]: "256 \<le> n \<Longrightarrow> unat (b :: u8) < n"
  by (rule less_le_trans [OF unat_u8_less])

lemma u8_ge_255: "0xFF \<le> b \<Longrightarrow> b = (0xFF :: u8)"
  using unat_u8_less [of b]
  by (simp add: word_le_nat_alt word_unat_eq_iff del: unat_u8_less unat_u8_less_ge)

lemma bval_append: "bval (xs @ ys) = bval xs * 256 ^ length ys + bval ys"
proof (induction ys rule: rev_induct)
  case (snoc y ys)
  have "bval (xs @ ys @ [y]) = bval ((xs @ ys) @ [y])"
    by simp
  also have "\<dots> = bval (xs @ ys) * 256 + unat y"
    by (rule bval_snoc)
  finally show ?case
    using snoc by (simp add: algebra_simps)
qed simp

lemma bval_Cons: "bval (x # xs) = unat x * 256 ^ length xs + bval xs"
  using bval_append [of "[x]" xs] bval_snoc [of "[]" x] by simp

lemma bval_less: "bval bs < 256 ^ length bs"
proof (induction bs)
  case (Cons b bs)
  have "unat b * 256 ^ length bs + bval bs < (unat b + 1) * 256 ^ length bs"
    using Cons by (simp add: algebra_simps)
  also have "\<dots> \<le> 256 * 256 ^ length bs"
    using unat_u8_less [of b] by (intro mult_le_mono) linarith+
  finally show ?case by (simp add: bval_Cons)
qed simp

lemma length_be_bytes [simp]: "length (be_bytes k n) = k"
  by (induction k arbitrary: n) simp_all

lemma unat_of_nat8 [simp]: "unat (word_of_nat n :: u8) = n mod 256"
  by (simp add: unat_of_nat)

lemma bval_be_bytes: "bval (be_bytes k n) = n mod 256 ^ k"
proof (induction k arbitrary: n)
  case (Suc k)
  have "bval (be_bytes (Suc k) n) = (n div 256) mod 256 ^ k * 256 + n mod 256"
    by (simp add: Suc)
  also have "\<dots> = n mod (256 * 256 ^ k)"
    by (simp add: mod_mult2_eq mult.commute)
  finally show ?case by simp
qed simp

lemma bval_inject: "length xs = length ys \<Longrightarrow> bval xs = bval ys \<Longrightarrow> xs = ys"
proof (induction xs ys rule: list_induct2)
  case (Cons x xs y ys)
  let ?m = "256 ^ length ys :: nat"
  have v: "unat x * ?m + bval xs = unat y * ?m + bval ys"
    using Cons.prems Cons.hyps by (simp add: bval_Cons)
  have lt: "bval xs < ?m" "bval ys < ?m"
    using bval_less [of xs] bval_less [of ys] Cons.hyps by simp_all
  have "(unat x * ?m + bval xs) div ?m = (unat y * ?m + bval ys) div ?m"
    using v by simp
  then have "unat x = unat y" using lt by simp
  with v have "x = y" and "bval xs = bval ys" by (simp_all add: word_unat_eq_iff)
  with Cons.IH show ?case by simp
qed simp

lemma be_bytes_bval [simp]: "be_bytes (length bs) (bval bs) = bs"
  by (rule bval_inject) (simp_all add: bval_be_bytes bval_less)

lemma be_bytes_inject:
  "n < 256 ^ k \<Longrightarrow> m < 256 ^ k \<Longrightarrow> be_bytes k n = be_bytes k m \<longleftrightarrow> n = m"
  by (metis bval_be_bytes mod_less)

subsection \<open>The byte conversions of 64-bit words\<close>

lemma unat_u64_less [simp]: "unat (v :: u64) < 18446744073709551616"
  using unsigned_less [of v, where ?'a = nat] by simp

lemma length_to_be64 [simp]: "length (to_be64 v) = 8"
  by (simp add: to_be64_def)

lemma bval_to_be64 [simp]: "bval (to_be64 v) = unat v"
  by (simp add: to_be64_def bval_be_bytes)

lemma from_to_be64 [simp]: "from_be64 (to_be64 v) = v"
  by (simp add: from_be64_def)

lemma to_from_be64 [simp]: "length bs = 8 \<Longrightarrow> to_be64 (from_be64 bs) = bs"
  using bval_less [of bs] be_bytes_bval [of bs]
  by (simp add: to_be64_def from_be64_def unat_of_nat)

lemma to_be64_inject [simp]: "to_be64 v = to_be64 w \<longleftrightarrow> v = w"
  by (metis from_to_be64)

lemma length_to_be16 [simp]: "length (to_be16 v) = 2"
  by (simp add: to_be16_def)

lemma bval_to_be16 [simp]: "bval (to_be16 v) = unat v"
  using unsigned_less [of v, where ?'a = nat] by (simp add: to_be16_def bval_be_bytes)

lemma to_be16_inject [simp]: "to_be16 v = to_be16 w \<longleftrightarrow> v = w"
  by (metis bval_to_be16 word_unat_eq_iff)

section \<open>The lexicographic order of byte strings\<close>

lemma list_less_Cons: "(x # xs :: 'a::linorder list) < y # ys \<longleftrightarrow> x < y \<or> x = y \<and> xs < ys"
  by (simp add: list_less_def)

lemma list_less_append_same: "(p @ xs :: 'a::linorder list) < p @ ys \<longleftrightarrow> xs < ys"
  by (induction p) (simp_all add: list_less_Cons)

lemma list_le_append_same: "(p @ xs :: 'a::linorder list) \<le> p @ ys \<longleftrightarrow> xs \<le> ys"
  by (simp add: list_le_def list_less_append_same)

text \<open>Everything between two strings that share a prefix has that prefix: the reason why
  a range scan between two subkeys of one user key never leaves that key.\<close>

lemma between_prefix:
  fixes k :: "'a::linorder list"
  assumes "p @ xs \<le> k" and "k \<le> p @ ys"
  shows "prefix p k"
  using assms
proof (induction p arbitrary: k)
  case (Cons a p)
  then obtain b k' where k: "k = b # k'"
    by (cases k) simp_all
  with Cons.prems have "a = b" and "p @ xs \<le> k'" and "k' \<le> p @ ys"
    by (auto simp: list_le_def list_less_Cons)
  with Cons.IH k show ?case by simp
qed simp

lemma bytes_less_bval:
  "length xs = length ys \<Longrightarrow> xs < ys \<longleftrightarrow> bval xs < bval ys"
proof (induction xs ys rule: list_induct2)
  case (Cons x xs y ys)
  let ?m = "256 ^ length ys :: nat"
  have lt: "bval xs < ?m" "bval ys < ?m"
    using bval_less [of xs] bval_less [of ys] Cons.hyps by simp_all
  have *: "a < b \<Longrightarrow> a * ?m + bval xs < b * ?m + bval ys" for a b
  proof -
    assume "a < b"
    then have "(a + 1) * ?m \<le> b * ?m" by (intro mult_le_mono) simp_all
    with lt show ?thesis by (simp add: algebra_simps)
  qed
  have **: "b < a \<Longrightarrow> \<not> a * ?m + bval xs < b * ?m + bval ys" for a b
  proof -
    assume "b < a"
    then have "(b + 1) * ?m \<le> a * ?m" by (intro mult_le_mono) simp_all
    with lt show ?thesis by (simp add: algebra_simps)
  qed
  show ?case
  proof (cases "unat x" "unat y" rule: linorder_cases)
    case less
    then show ?thesis using * [OF less] Cons.hyps
      by (simp add: list_less_Cons bval_Cons word_less_nat_alt)
  next
    case equal
    then have "x = y" by (simp add: word_unat_eq_iff)
    then show ?thesis using Cons.IH Cons.hyps by (simp add: list_less_Cons bval_Cons)
  next
    case greater
    then have "\<not> x < y" "x \<noteq> y" by (auto simp: word_less_nat_alt)
    then show ?thesis using ** [OF greater] Cons.hyps
      by (simp add: list_less_Cons bval_Cons)
  qed
qed simp

lemma to_be64_less [simp]: "to_be64 v < to_be64 w \<longleftrightarrow> v < w"
  by (simp add: bytes_less_bval word_less_nat_alt)

lemma to_be64_le [simp]: "to_be64 v \<le> to_be64 w \<longleftrightarrow> v \<le> w"
  by (auto simp: list_le_def order.order_iff_strict)

section \<open>Words\<close>

lemmas unat_bit_ops [byte_simps] =
  unsigned_or_eq unsigned_and_eq unsigned_drop_bit_eq unsigned_push_bit_eq unsigned_ucast_eq

lemma sint_small:
  assumes "unat (n :: u64) < 2 ^ 63"
  shows "sint n = int (unat n)"
proof -
  have "uint n < 2 ^ 63" unfolding uint_nat using assms by (metis of_nat_less_iff of_nat_numeral of_nat_power)
  then have "signed_take_bit 63 (uint n) = uint n" by (intro signed_take_bit_int_eq_self order_trans [OF _ uint_ge_0]) simp_all
  then show ?thesis unfolding sint_uint by simp
qed

text \<open>\<open>u64::MAX\<close> and the saturating operations.\<close>

definition U64_MAX :: u64 where
  "U64_MAX = 0xFFFFFFFFFFFFFFFF"

definition saturating_add :: "u64 \<Rightarrow> u64 \<Rightarrow> u64" where
  "saturating_add a b = (if unat a + unat b < 2 ^ 64 then a + b else U64_MAX)"

definition saturating_sub :: "u64 \<Rightarrow> u64 \<Rightarrow> u64" where
  "saturating_sub a b = (if b \<le> a then a - b else 0)"

definition saturating_mul_u64 :: "u64 \<Rightarrow> u64 \<Rightarrow> u64" where
  "saturating_mul_u64 a b = (if unat a * unat b < 2 ^ 64 then a * b else U64_MAX)"

lemma unat_U64_MAX [simp]: "unat U64_MAX = 18446744073709551615"
  by (simp add: U64_MAX_def)

lemma U64_MAX_top [simp]: "n \<le> U64_MAX" "U64_MAX \<le> n \<longleftrightarrow> n = U64_MAX" "\<not> U64_MAX < n"
  by (simp_all add: U64_MAX_def word_le_nat_alt word_less_nat_alt word_unat_eq_iff)
    (use unat_u64_less [of n] in linarith)+

lemma saturating_sub_unat: "unat (saturating_sub a b) = unat a - unat b"
  by (simp add: saturating_sub_def unat_sub word_le_nat_alt not_le)

lemma saturating_add_unat: "unat (saturating_add a b) = min (unat a + unat b) (2 ^ 64 - 1)"
  by (auto simp: saturating_add_def unat_word_ariths)

text \<open>Splitting a number into its high part and its low \<open>n\<close> bits.\<close>

lemma bit_nat_less: "bit (b :: nat) k \<Longrightarrow> b < 2 ^ n \<Longrightarrow> k < n"
  by (metis bit_take_bit_iff take_bit_nat_eq_self)

lemma or_eq_plus_nat:
  fixes a b :: nat
  assumes "b < 2 ^ n"
  shows "push_bit n a OR b = a * 2 ^ n + b"
proof -
  have "push_bit n a AND b = 0"
    using assms
    by (intro bit_eqI)
      (auto simp: bit_and_iff bit_push_bit_iff dest: bit_nat_less [OF _ assms])
  then have "push_bit n a OR b = push_bit n a + b"
    by (simp add: disjunctive_add_eq_or)
  then show ?thesis by (simp add: push_bit_eq_mult)
qed

end
