(* ===== verification/Errors.thy ===== *)
theory Errors
  imports Prelude
begin

text \<open>
  \<^verbatim>\<open>embed/src/error.rs\<close>: the error type. A fallible operation returns
  \<open>error + 'a\<close>, \<open>Inl\<close> for \<open>Err\<close>. The payloads that come from other crates (an I/O
  error, a parse error of \<open>strum\<close>, an error of the storage engine) are kept as their
  messages.
\<close>

datatype error =
  Engine string | Storage string | Config string | Internal string | Io string | Strum string
  | Serialization string | Redis string | WrongType string | InvalidData string
  | NotFound string | Fjall string

definition ERR_WRONG_TYPE :: string where
  "ERR_WRONG_TYPE = ''WRONGTYPE Operation against a key holding the wrong kind of value''"

definition ERR_NO_SUCH_KEY :: string where
  "ERR_NO_SUCH_KEY = ''ERR no such key''"

definition wrong_type_default :: error where
  "wrong_type_default = WrongType ERR_WRONG_TYPE"

fun is_wrong_type :: "error \<Rightarrow> bool" where
  "is_wrong_type (WrongType _) = True"
| "is_wrong_type _ = False"

text \<open>The question mark operator.\<close>

definition try_op :: "error + 'a \<Rightarrow> ('a \<Rightarrow> error + 'b) \<Rightarrow> error + 'b" where
  "try_op r f = (case r of Inl e \<Rightarrow> Inl e | Inr a \<Rightarrow> f a)"

lemma try_op_simps [simp]: "try_op (Inl e) f = Inl e" "try_op (Inr a) f = f a"
  by (simp_all add: try_op_def)

lemma try_op_Inr: "try_op r f = Inr b \<longleftrightarrow> (\<exists>a. r = Inr a \<and> f a = Inr b)"
  by (cases r) simp_all

lemma is_wrong_type_default [simp]: "is_wrong_type wrong_type_default"
  by (simp add: wrong_type_default_def)

end
