(* ===== verification/Oppv.thy ===== *)
theory Oppv
  imports Prelude
begin

text \<open>
  \<^verbatim>\<open>embed/src/key_composer/oppv.rs\<close>: the order-preserving prefix varint. A \<open>u64\<close> is
  written in 1, 2, 3, 4 or 9 bytes; the high bits of the first byte give the length, so
  that comparing encodings byte by byte compares the numbers, and no encoding is a prefix
  of another.
\<close>

definition oppv_len_u64 :: "u64 \<Rightarrow> nat" where
  "oppv_len_u64 val =
     (if val < 0x80 then 1
      else if val < 0x4000 then 2
      else if val < 0x200000 then 3
      else if val < 0x10000000 then 4
      else 9)"

text \<open>The bytes the branches of \<open>encode_oppv_u64_slice\<close> store, in buffer order.\<close>

definition oppv_bytes :: "u64 \<Rightarrow> bytes" where
  "oppv_bytes val =
     (if val < 0x80 then [ucast val]
      else if val < 0x4000 then
        [0x80 OR ucast (drop_bit 8 val), ucast (val AND 0xFF)]
      else if val < 0x200000 then
        [0xC0 OR ucast (drop_bit 16 val), ucast (drop_bit 8 val AND 0xFF), ucast (val AND 0xFF)]
      else if val < 0x10000000 then
        [0xE0 OR ucast (drop_bit 24 val), ucast (drop_bit 16 val AND 0xFF),
         ucast (drop_bit 8 val AND 0xFF), ucast (val AND 0xFF)]
      else 0xF8 # to_be64 val)"

text \<open>Writing at the start of a buffer; \<open>None\<close> is the panic on a buffer that is too short.\<close>

definition encode_oppv_u64_slice :: "u64 \<Rightarrow> bytes \<Rightarrow> (bytes \<times> nat) option" where
  "encode_oppv_u64_slice val buf =
     (let bs = oppv_bytes val; n = length bs
      in if length buf < n then None else Some (bs @ drop n buf, n))"

definition encode_oppv_u64_fixed :: "u64 \<Rightarrow> bytes \<Rightarrow> (bytes \<times> nat) option" where
  "encode_oppv_u64_fixed val buf = encode_oppv_u64_slice val buf"

definition encode_oppv_u64 :: "u64 \<Rightarrow> bytes \<Rightarrow> bytes" where
  "encode_oppv_u64 val buf =
     (case encode_oppv_u64_fixed val (replicate 9 0) of
        None \<Rightarrow> buf
      | Some (fixed, n) \<Rightarrow> buf @ take n fixed)"

definition decode_oppv_u64 :: "bytes \<Rightarrow> (u64 \<times> nat) option" where
  "decode_oppv_u64 sl =
     (case sl of
        [] \<Rightarrow> None
      | first # _ \<Rightarrow>
          if first < 0x80 then Some (ucast first, 1)
          else if first < 0xC0 then
            if length sl < 2 then None
            else Some (push_bit 8 (ucast (first AND 0x3F)) OR ucast (sl ! 1), 2)
          else if first < 0xE0 then
            if length sl < 3 then None
            else Some (push_bit 16 (ucast (first AND 0x1F)) OR push_bit 8 (ucast (sl ! 1))
                       OR ucast (sl ! 2), 3)
          else if first < 0xF0 then
            if length sl < 4 then None
            else Some (push_bit 24 (ucast (first AND 0x0F)) OR push_bit 16 (ucast (sl ! 1))
                       OR push_bit 8 (ucast (sl ! 2)) OR ucast (sl ! 3), 4)
          else if first = 0xF8 then
            if length sl < 9 then None
            else Some (from_be64 (take 8 (drop 1 sl)), 9)
          else None)"

section \<open>Lengths and closed forms\<close>

lemma length_oppv_bytes [simp]: "length (oppv_bytes v) = oppv_len_u64 v"
  by (simp add: oppv_bytes_def oppv_len_u64_def)

lemma oppv_len_bounds: "1 \<le> oppv_len_u64 v" "oppv_len_u64 v \<le> 9"
  by (simp_all add: oppv_len_u64_def)

lemma oppv_bytes_nonempty [simp]: "oppv_bytes v \<noteq> []"
  by (simp add: oppv_bytes_def)

lemma encode_oppv_u64_eq [simp]: "encode_oppv_u64 v buf = buf @ oppv_bytes v"
  using oppv_len_bounds [of v]
  by (simp add: encode_oppv_u64_def encode_oppv_u64_fixed_def encode_oppv_u64_slice_def Let_def)

lemma or_tag: "b < 2 ^ n \<Longrightarrow> a * 2 ^ n OR b = a * 2 ^ n + (b :: nat)"
  using or_eq_plus_nat [of b n a] by (simp add: push_bit_eq_mult)

lemmas or_tags = or_tag [of _ 7 1, simplified] or_tag [of _ 6 3, simplified]
  or_tag [of _ 5 7, simplified]

text \<open>The numeric value of each encoding: the tag bits on top of the number.\<close>

definition oppv_tag :: "u64 \<Rightarrow> nat" where
  "oppv_tag v =
     (if v < 0x80 then 0
      else if v < 0x4000 then 0x8000
      else if v < 0x200000 then 0xC00000
      else if v < 0x10000000 then 0xE0000000
      else 0xF8 * 256 ^ 8)"

lemma unat_u64_and_FF: "unat (v AND 0xFF :: u64) = unat v mod 256"
proof -
  have "v AND 0xFF = take_bit 8 v"
    by (simp add: take_bit_eq_mask mask_eq_exp_minus_1)
  then show ?thesis
    by (simp add: unsigned_take_bit_eq take_bit_nat_def)
qed

lemma unat_ucast_u8 [byte_simps]: "unat (ucast (v :: u64) :: u8) = unat v mod 256"
  by (simp add: unsigned_ucast_eq take_bit_nat_def)

lemma unat_ucast_u64 [byte_simps]: "unat (ucast (b :: u8) :: u64) = unat b"
proof -
  have "unat b < 2 ^ 64"
    using unat_u8_less [of b] by (rule less_trans) simp
  then show ?thesis by (simp add: unsigned_ucast_eq take_bit_nat_eq_self)
qed

lemma unat_drop_bit_u64 [byte_simps]: "unat (drop_bit n v :: u64) = unat v div 2 ^ n"
  by (simp add: unat_drop_bit_eq drop_bit_nat_def)

lemma unat_tagged_u8:
  "unat v < 128 \<Longrightarrow> unat (0x80 OR ucast (v :: u64) :: u8) = 0x80 + unat v"
  "unat v < 64 \<Longrightarrow> unat (0xC0 OR ucast (v :: u64) :: u8) = 0xC0 + unat v"
  "unat v < 32 \<Longrightarrow> unat (0xE0 OR ucast (v :: u64) :: u8) = 0xE0 + unat v"
  by (simp_all add: unsigned_or_eq unat_ucast_u8 or_tags)

lemmas oppv_arith = unat_tagged_u8 unat_u64_and_FF unat_ucast_u8 unat_drop_bit_u64
  word_less_nat_alt word_le_nat_alt

lemma div_mod_256:
  fixes n :: nat
  shows "n div 65536 * 65536 + (n div 256 mod 256 * 256 + n mod 256) = n"
    and "n div 256 * 256 + n mod 256 = n"
    and "n div 16777216 * 16777216 + (n div 65536 mod 256 * 65536 +
           (n div 256 mod 256 * 256 + n mod 256)) = n"
proof -
  have two: "m div 256 * 256 + m mod 256 = m" for m :: nat by simp
  have d: "n div 65536 = n div 256 div 256" "n div 16777216 = n div 65536 div 256"
    by (simp_all add: div_mult2_eq [symmetric])
  show "n div 256 * 256 + n mod 256 = n" by (rule two)
  show three: "n div 65536 * 65536 + (n div 256 mod 256 * 256 + n mod 256) = n"
    using two [of n] two [of "n div 256"] d by linarith
  show "n div 16777216 * 16777216 + (n div 65536 mod 256 * 65536 +
           (n div 256 mod 256 * 256 + n mod 256)) = n"
    using three two [of "n div 65536"] d by linarith
qed

lemma oppv_cases [case_names one two three four nine]:
  fixes v :: u64
  assumes "v < 0x80 \<Longrightarrow> P" "0x80 \<le> v \<Longrightarrow> v < 0x4000 \<Longrightarrow> P"
    "0x4000 \<le> v \<Longrightarrow> v < 0x200000 \<Longrightarrow> P" "0x200000 \<le> v \<Longrightarrow> v < 0x10000000 \<Longrightarrow> P"
    "0x10000000 \<le> v \<Longrightarrow> P"
  shows P
  using assms not_le by blast

lemma bval_oppv_bytes: "bval (oppv_bytes v) = oppv_tag v + unat v"
proof (cases v rule: oppv_cases)
  case one
  then show ?thesis
    by (simp add: oppv_bytes_def oppv_tag_def bval_Cons oppv_arith)
next
  case two
  then have "\<not> v < 0x80" "unat (drop_bit 8 v) < 128"
    by (simp_all add: oppv_arith)
  with two div_mod_256(2) [of "unat v"] show ?thesis
    by (simp add: oppv_bytes_def oppv_tag_def bval_Cons unat_tagged_u8)
       (simp add: oppv_arith)
next
  case three
  then have "\<not> v < 0x80" "\<not> v < 0x4000" "unat (drop_bit 16 v) < 64"
    by (simp_all add: oppv_arith)
  with three div_mod_256(1) [of "unat v"] show ?thesis
    by (simp add: oppv_bytes_def oppv_tag_def bval_Cons unat_tagged_u8)
       (simp add: oppv_arith)
next
  case four
  then have "\<not> v < 0x80" "\<not> v < 0x4000" "\<not> v < 0x200000" "unat (drop_bit 24 v) < 32"
    by (simp_all add: oppv_arith)
  with four div_mod_256(3) [of "unat v"] show ?thesis
    by (simp add: oppv_bytes_def oppv_tag_def bval_Cons unat_tagged_u8)
       (simp add: oppv_arith)
next
  case nine
  then have "\<not> v < 0x80" "\<not> v < 0x4000" "\<not> v < 0x200000" "\<not> v < 0x10000000"
    by (simp_all add: not_less word_le_nat_alt)
  then show ?thesis
    by (simp add: oppv_bytes_def oppv_tag_def bval_Cons)
qed

lemma oppv_bytes_be: "oppv_bytes v = be_bytes (oppv_len_u64 v) (oppv_tag v + unat v)"
  by (metis be_bytes_bval bval_oppv_bytes length_oppv_bytes)

section \<open>Order preservation and prefix freedom\<close>

text \<open>The first byte decides the length, and longer encodings have larger first bytes.\<close>

lemma unat_hd_oppv_bytes:
  "unat (hd (oppv_bytes v)) =
     (if v < 0x80 then unat v
      else if v < 0x4000 then 0x80 + unat v div 256
      else if v < 0x200000 then 0xC0 + unat v div 65536
      else if v < 0x10000000 then 0xE0 + unat v div 16777216
      else 0xF8)"
proof (cases v rule: oppv_cases)
  case two
  then have "\<not> v < 0x80" "unat (drop_bit 8 v) < 128" by (simp_all add: oppv_arith)
  with two show ?thesis by (simp add: oppv_bytes_def unat_tagged_u8 unat_drop_bit_u64)
next
  case three
  then have "\<not> v < 0x80" "\<not> v < 0x4000" "unat (drop_bit 16 v) < 64"
    by (simp_all add: oppv_arith)
  with three show ?thesis by (simp add: oppv_bytes_def unat_tagged_u8 unat_drop_bit_u64)
next
  case four
  then have "\<not> v < 0x80" "\<not> v < 0x4000" "\<not> v < 0x200000" "unat (drop_bit 24 v) < 32"
    by (simp_all add: oppv_arith)
  with four show ?thesis by (simp add: oppv_bytes_def unat_tagged_u8 unat_drop_bit_u64)
qed (simp_all add: oppv_bytes_def oppv_arith)

lemma oppv_hd_less:
  assumes "oppv_len_u64 v < oppv_len_u64 w"
  shows "hd (oppv_bytes v) < hd (oppv_bytes w)"
proof -
  have "unat (hd (oppv_bytes v)) < unat (hd (oppv_bytes w))"
    using assms
    by (simp add: unat_hd_oppv_bytes oppv_len_u64_def word_less_nat_alt split: if_splits)
       linarith?
  then show ?thesis by (simp add: word_less_nat_alt)
qed

lemma oppv_len_mono: "v \<le> w \<Longrightarrow> oppv_len_u64 v \<le> oppv_len_u64 w"
  by (auto simp: oppv_len_u64_def)

lemma oppv_tag_eq: "oppv_len_u64 v = oppv_len_u64 w \<Longrightarrow> oppv_tag v = oppv_tag w"
  by (auto simp: oppv_len_u64_def oppv_tag_def split: if_splits)

lemma hd_less_imp_less:
  fixes xs ys :: "'a::linorder list"
  shows "xs \<noteq> [] \<Longrightarrow> ys \<noteq> [] \<Longrightarrow> hd xs < hd ys \<Longrightarrow> xs @ zs < ys @ us"
  by (cases xs; cases ys) (simp_all add: list_less_Cons)

text \<open>The order is decided before either encoding ends, whatever follows it.\<close>

lemma oppv_less_append:
  assumes "v < w"
  shows "oppv_bytes v @ xs < oppv_bytes w @ ys"
proof (cases "oppv_len_u64 v = oppv_len_u64 w")
  case True
  then have "oppv_bytes v < oppv_bytes w"
    using assms oppv_tag_eq [OF True]
    by (simp add: bytes_less_bval bval_oppv_bytes word_less_nat_alt)
  with True show ?thesis
    by (simp add: list_less_def lexord_sufI)
next
  case False
  then have "oppv_len_u64 v < oppv_len_u64 w"
    using oppv_len_mono [OF less_imp_le [OF assms]] by simp
  then show ?thesis
    by (intro hd_less_imp_less oppv_hd_less) simp_all
qed

lemma oppv_append_inject [simp]:
  "oppv_bytes v @ xs = oppv_bytes w @ ys \<longleftrightarrow> v = w \<and> xs = ys"
proof
  assume eq: "oppv_bytes v @ xs = oppv_bytes w @ ys"
  have "\<not> v < w"
    using oppv_less_append [of v w xs ys] unfolding eq by blast
  moreover have "\<not> w < v"
    using oppv_less_append [of w v ys xs] unfolding eq by blast
  ultimately have "v = w" by simp
  with eq show "v = w \<and> xs = ys" by simp
qed simp

lemma oppv_bytes_inject [simp]: "oppv_bytes v = oppv_bytes w \<longleftrightarrow> v = w"
  using oppv_append_inject [of v "[]" w "[]"] by simp

lemma prefix_oppv_append:
  "prefix (oppv_bytes v @ xs) (oppv_bytes w @ ys) \<longleftrightarrow> v = w \<and> prefix xs ys"
  by (auto simp: prefix_def)

lemma oppv_prefix_free: "prefix (oppv_bytes v) (oppv_bytes w @ ys) \<longleftrightarrow> v = w"
  using prefix_oppv_append [of v "[]" w ys] by simp

section \<open>Decoding\<close>

text \<open>Numeric reading of the decoder, one fact per branch.\<close>

lemma unat_u8_masks:
  "unat (b AND 0x3F :: u8) = unat b mod 64" "unat (b AND 0x1F :: u8) = unat b mod 32"
  "unat (b AND 0x0F :: u8) = unat b mod 16"
proof -
  have "b AND 0x3F = take_bit 6 b" "b AND 0x1F = take_bit 5 b" "b AND 0x0F = take_bit 4 b"
    by (simp_all add: take_bit_eq_mask mask_eq_exp_minus_1)
  then show "unat (b AND 0x3F) = unat b mod 64" "unat (b AND 0x1F) = unat b mod 32"
    "unat (b AND 0x0F) = unat b mod 16"
    by (simp_all add: unsigned_take_bit_eq take_bit_nat_def)
qed

lemma push_or_nat: "b < 2 ^ n \<Longrightarrow> push_bit n a OR b = a * 2 ^ n + (b :: nat)"
  by (rule or_eq_plus_nat)

lemma unat_push_bit_u64:
  fixes a :: u64
  assumes "unat a * 2 ^ n < 2 ^ 64"
  shows "unat (push_bit n a) = unat a * 2 ^ n"
proof -
  have "unat (push_bit n a) = take_bit 64 (push_bit n (unat a))"
    by (simp only: unsigned_push_bit_eq) simp
  also have "\<dots> = unat a * 2 ^ n"
    using assms by (subst take_bit_nat_eq_self) (simp_all add: push_bit_eq_mult)
  finally show ?thesis .
qed

lemma unat_push_or:
  fixes a b :: u64
  assumes "unat b < 2 ^ n" and "unat a * 2 ^ n < 2 ^ 64"
  shows "unat (push_bit n a OR b) = unat a * 2 ^ n + unat b"
  using or_tag [OF assms(1)] unat_push_bit_u64 [OF assms(2)] by (simp add: unsigned_or_eq)

lemma unat_two_bytes: "unat (push_bit 8 (ucast (c :: u8)) OR ucast (d :: u8) :: u64) = unat c * 256 + unat d"
  by (subst unat_push_or) (simp_all add: unat_ucast_u64)

lemma two_bytes_less: "unat (c :: u8) * 256 + unat (d :: u8) < 65536"
  using unat_u8_less [of c] unat_u8_less [of d] by linarith

lemma unat_three_bytes:
  "unat (push_bit 16 (ucast (b :: u8)) OR push_bit 8 (ucast (c :: u8)) OR ucast (d :: u8) :: u64) =
     unat b * 65536 + (unat c * 256 + unat d)"
  using two_bytes_less [of c d]
  by (subst unat_push_or) (simp_all add: unat_two_bytes unat_ucast_u64)

lemma unat_four_bytes:
  "unat (push_bit 24 (ucast (a :: u8)) OR push_bit 16 (ucast (b :: u8)) OR push_bit 8 (ucast (c :: u8))
     OR ucast (d :: u8) :: u64) =
     unat a * 16777216 + (unat b * 65536 + (unat c * 256 + unat d))"
proof -
  have "unat b * 65536 + (unat c * 256 + unat d) < 2 ^ 24"
    using unat_u8_less [of b] two_bytes_less [of c d] by (simp del: unat_u8_less unat_u8_less_ge)
  moreover have "unat (ucast a :: u64) * 2 ^ 24 < 2 ^ 64"
    by (simp add: unat_ucast_u64)
  ultimately show ?thesis
    by (subst unat_push_or) (simp_all add: unat_three_bytes unat_ucast_u64)
qed

lemma u64_eqI: "unat x = n \<Longrightarrow> x = (word_of_nat n :: u64)"
  by auto

lemma decode_oppv_two:
  assumes "0x80 \<le> b" "b < 0xC0"
  shows "decode_oppv_u64 (b # c # r) = Some (word_of_nat (unat b mod 64 * 256 + unat c), 2)"
  using assms unat_two_bytes [of "b AND 0x3F" c, THEN u64_eqI]
  by (simp add: decode_oppv_u64_def not_less unat_u8_masks)

lemma decode_oppv_three:
  assumes "0xC0 \<le> b" "b < 0xE0"
  shows "decode_oppv_u64 (b # c # d # r) =
    Some (word_of_nat (unat b mod 32 * 65536 + (unat c * 256 + unat d)), 3)"
  using assms unat_three_bytes [of "b AND 0x1F" c d, THEN u64_eqI]
  by (simp add: decode_oppv_u64_def not_less unat_u8_masks word_le_nat_alt)

lemma decode_oppv_four:
  assumes "0xE0 \<le> b" "b < 0xF0"
  shows "decode_oppv_u64 (b # c # d # e # r) =
    Some (word_of_nat (unat b mod 16 * 16777216 + (unat c * 65536 + (unat d * 256 + unat e))), 4)"
  using assms unat_four_bytes [of "b AND 0x0F" c d e, THEN u64_eqI]
  by (simp add: decode_oppv_u64_def not_less unat_u8_masks word_le_nat_alt)

lemma add_multiple_mod:
  "x < 64 \<Longrightarrow> (128 + x) mod 64 = (x :: nat)" "x < 32 \<Longrightarrow> (192 + x) mod 32 = (x :: nat)"
  "x < 16 \<Longrightarrow> (224 + x) mod 16 = (x :: nat)"
  using mod_add_left_eq [of 128 64 x] mod_add_left_eq [of 192 32 x] mod_add_left_eq [of 224 16 x]
  by simp_all

text \<open>Decoding what was encoded, with anything behind it.\<close>

lemma decode_oppv_append: "decode_oppv_u64 (oppv_bytes v @ rest) = Some (v, oppv_len_u64 v)"
proof (cases v rule: oppv_cases)
  case one
  then have "(ucast (ucast v :: u8) :: u64) = v" "(ucast v :: u8) < 0x80"
    by (simp_all add: word_unat_eq_iff oppv_arith unat_ucast_u64)
  with one show ?thesis
    by (simp add: oppv_bytes_def oppv_len_u64_def decode_oppv_u64_def)
next
  case two
  let ?b = "0x80 OR ucast (drop_bit 8 v) :: u8" and ?c = "ucast (v AND 0xFF) :: u8"
  from two have n: "\<not> v < 0x80" and "unat (drop_bit 8 v) < 64" by (simp_all add: oppv_arith)
  then have b: "unat ?b = 0x80 + unat v div 256" and l: "unat v div 256 < 64"
    by (simp_all add: unat_tagged_u8 unat_drop_bit_u64)
  have "unat ?b mod 64 * 256 + unat ?c = unat v"
    using l div_mod_256(2) [of "unat v"] by (simp add: b unat_ucast_u8 unat_u64_and_FF add_multiple_mod)
  then have "decode_oppv_u64 (?b # ?c # rest) = Some (v, 2)"
    using decode_oppv_two [of ?b ?c rest] b l
    by (simp add: word_le_nat_alt word_less_nat_alt del: of_nat_add of_nat_mult)
  then show ?thesis
    using two n by (simp add: oppv_bytes_def oppv_len_u64_def)
next
  case three
  let ?b = "0xC0 OR ucast (drop_bit 16 v) :: u8" and ?c = "ucast (drop_bit 8 v AND 0xFF) :: u8"
    and ?d = "ucast (v AND 0xFF) :: u8"
  from three have n: "\<not> v < 0x80" "\<not> v < 0x4000" and "unat (drop_bit 16 v) < 32"
    by (simp_all add: oppv_arith)
  then have b: "unat ?b = 0xC0 + unat v div 65536" and l: "unat v div 65536 < 32"
    by (simp_all add: unat_tagged_u8 unat_drop_bit_u64)
  have "unat ?b mod 32 * 65536 + (unat ?c * 256 + unat ?d) = unat v"
    using l div_mod_256(1) [of "unat v"]
    by (simp add: b unat_ucast_u8 unat_u64_and_FF unat_drop_bit_u64 add_multiple_mod)
  then have "decode_oppv_u64 (?b # ?c # ?d # rest) = Some (v, 3)"
    using decode_oppv_three [of ?b ?c ?d rest] b l
    by (simp add: word_le_nat_alt word_less_nat_alt del: of_nat_add of_nat_mult)
  then show ?thesis
    using three n by (simp add: oppv_bytes_def oppv_len_u64_def)
next
  case four
  let ?b = "0xE0 OR ucast (drop_bit 24 v) :: u8" and ?c = "ucast (drop_bit 16 v AND 0xFF) :: u8"
    and ?d = "ucast (drop_bit 8 v AND 0xFF) :: u8" and ?e = "ucast (v AND 0xFF) :: u8"
  from four have n: "\<not> v < 0x80" "\<not> v < 0x4000" "\<not> v < 0x200000"
    and "unat (drop_bit 24 v) < 16"
    by (simp_all add: oppv_arith)
  then have b: "unat ?b = 0xE0 + unat v div 16777216" and l: "unat v div 16777216 < 16"
    by (simp_all add: unat_tagged_u8 unat_drop_bit_u64)
  have "unat ?b mod 16 * 16777216 + (unat ?c * 65536 + (unat ?d * 256 + unat ?e)) = unat v"
    using l div_mod_256(3) [of "unat v"]
    by (simp add: b unat_ucast_u8 unat_u64_and_FF unat_drop_bit_u64 add_multiple_mod)
  then have "decode_oppv_u64 (?b # ?c # ?d # ?e # rest) = Some (v, 4)"
    using decode_oppv_four [of ?b ?c ?d ?e rest] b l
    by (simp add: word_le_nat_alt word_less_nat_alt del: of_nat_add of_nat_mult)
  then show ?thesis
    using four n by (simp add: oppv_bytes_def oppv_len_u64_def)
next
  case nine
  then have "\<not> v < 0x80" "\<not> v < 0x4000" "\<not> v < 0x200000" "\<not> v < 0x10000000"
    by (simp_all add: not_less word_le_nat_alt)
  then show ?thesis
    by (simp add: oppv_bytes_def oppv_len_u64_def decode_oppv_u64_def)
qed

text \<open>What the decoder consumes lies inside its input.\<close>

lemma decode_oppv_consumed:
  "decode_oppv_u64 bs = Some (v, n) \<Longrightarrow> 1 \<le> n \<and> n \<le> length bs"
  by (auto simp: decode_oppv_u64_def Suc_le_eq split: list.splits if_splits)

section \<open>Properties\<close>

text \<open>C16: the varint is an order embedding: comparing two encodings byte by byte compares
  the numbers, and an encoding is a prefix of a string that starts with another encoding only
  when both encode the same number.\<close>

theorem oppv_order_embedding:
  "(encode_oppv_u64 v buf < encode_oppv_u64 w buf \<longleftrightarrow> v < w)
     \<and> (prefix (encode_oppv_u64 v buf) (encode_oppv_u64 w buf @ rest) \<longleftrightarrow> v = w)"
proof
  have "oppv_bytes v < oppv_bytes w" if "v < w" for v w
    using oppv_less_append [OF that, of "[]" "[]"] by simp
  then have "oppv_bytes v < oppv_bytes w \<longleftrightarrow> v < w"
    by (metis less_asym' not_less_iff_gr_or_eq)
  then show "encode_oppv_u64 v buf < encode_oppv_u64 w buf \<longleftrightarrow> v < w"
    by (simp add: list_less_append_same)
  show "prefix (encode_oppv_u64 v buf) (encode_oppv_u64 w buf @ rest) \<longleftrightarrow> v = w"
    by (simp add: oppv_prefix_free)
qed

text \<open>C17: decoding reads back the number that was encoded, with any bytes behind it, and
  reports the number of bytes the encoder wrote.\<close>

theorem oppv_roundtrip:
  "decode_oppv_u64 (encode_oppv_u64 v [] @ rest) = Some (v, oppv_len_u64 v)
     \<and> length (encode_oppv_u64 v []) = oppv_len_u64 v"
  by (simp add: decode_oppv_append)

end
