(* ===== verification/Meta.thy ===== *)
theory Meta
  imports Errors Oppv
begin

text \<open>
  \<^verbatim>\<open>embed/src/meta.rs\<close>: the metadata record every composite structure stores under its
  metadata key, its binary formats, expiry and time-to-live, the version generator (here as
  one uncontended call; \<^verbatim>\<open>Version_Gen\<close> has the interleaved one), index ranges, the
  order-preserving image of doubles and the hexadecimal tools. A double is modelled by its bit
  pattern (\<open>f64::to_bits\<close>), a signed index as \<open>int\<close>.
\<close>

section \<open>Types\<close>

datatype redis_type =
  RNone | RString | RHash | RList | RSet | RZSet | RBitmap | RSortedInt | RStream | RBloom
  | RJson | RHyperLogLog | RTDigest | RTimeSeries | RCuckooFilter

fun rtype_u8 :: "redis_type \<Rightarrow> u8" where
  "rtype_u8 RNone = 0"
| "rtype_u8 RString = 1"
| "rtype_u8 RHash = 2"
| "rtype_u8 RList = 3"
| "rtype_u8 RSet = 4"
| "rtype_u8 RZSet = 5"
| "rtype_u8 RBitmap = 6"
| "rtype_u8 RSortedInt = 7"
| "rtype_u8 RStream = 8"
| "rtype_u8 RBloom = 9"
| "rtype_u8 RJson = 10"
| "rtype_u8 RHyperLogLog = 11"
| "rtype_u8 RTDigest = 12"
| "rtype_u8 RTimeSeries = 13"
| "rtype_u8 RCuckooFilter = 14"

definition all_redis_types :: "redis_type list" where
  "all_redis_types =
    [RNone, RString, RHash, RList, RSet, RZSet, RBitmap, RSortedInt, RStream, RBloom, RJson,
     RHyperLogLog, RTDigest, RTimeSeries, RCuckooFilter]"

fun rtype_name :: "redis_type \<Rightarrow> string" where
  "rtype_name RNone = ''none''"
| "rtype_name RString = ''string''"
| "rtype_name RHash = ''hash''"
| "rtype_name RList = ''list''"
| "rtype_name RSet = ''set''"
| "rtype_name RZSet = ''zset''"
| "rtype_name RBitmap = ''bitmap''"
| "rtype_name RSortedInt = ''sortedint''"
| "rtype_name RStream = ''stream''"
| "rtype_name RBloom = ''MBbloom--''"
| "rtype_name RJson = ''ReJSON-RL''"
| "rtype_name RHyperLogLog = ''hyperloglog''"
| "rtype_name RTDigest = ''TDIS-TYPE''"
| "rtype_name RTimeSeries = ''timeseries''"
| "rtype_name RCuckooFilter = ''MBbloomCF''"

definition rtype_from_u8 :: "u8 \<Rightarrow> redis_type" where
  "rtype_from_u8 val =
     (case find (\<lambda>t. rtype_u8 t = val) all_redis_types of Some t \<Rightarrow> t | None \<Rightarrow> RNone)"

definition rtype_is_single_kv :: "redis_type \<Rightarrow> bool" where
  "rtype_is_single_kv t \<longleftrightarrow> t \<in> {RString, RJson}"

definition rtype_is_emptyable :: "redis_type \<Rightarrow> bool" where
  "rtype_is_emptyable t \<longleftrightarrow>
     t \<in> {RString, RJson, RStream, RBloom, RHyperLogLog, RTDigest, RTimeSeries, RCuckooFilter}"

section \<open>Versions\<close>

definition VERSION_COUNTER_BITS :: nat where
  "VERSION_COUNTER_BITS = 11"

definition VERSION_COUNTER_MASK :: u64 where
  "VERSION_COUNTER_MASK = push_bit VERSION_COUNTER_BITS 1 - 1"

record version_state =
  vs_counter :: u64
  vs_last :: u64

definition version_candidate :: "u64 \<Rightarrow> u64 \<Rightarrow> u64" where
  "version_candidate ts_us counter =
     push_bit VERSION_COUNTER_BITS ts_us OR (counter AND VERSION_COUNTER_MASK)"

text \<open>\<open>generate_version\<close> when nobody else changes the two counters during the call: the
  compare-and-swap succeeds with the value that was loaded.\<close>

definition generate_version :: "u64 \<Rightarrow> version_state \<Rightarrow> u64 \<times> version_state" where
  "generate_version ts_us vs =
     (let counter = vs_counter vs;
          candidate = version_candidate ts_us counter;
          last = vs_last vs;
          candidate' = (if candidate \<le> last then last + 1 else candidate)
      in (candidate', \<lparr>vs_counter = counter + 1, vs_last = candidate'\<rparr>))"

definition version_to_time :: "u64 \<Rightarrow> u64 \<times> u32" where
  "version_to_time version =
     (let ts_us = drop_bit VERSION_COUNTER_BITS version
      in (ts_us div 1000000, ucast (ts_us mod 1000000)))"

section \<open>Metadata\<close>

record key_meta =
  km_rtype :: redis_type
  km_flags :: u8
  km_expire_at :: u64
  km_version :: u64
  km_size :: u64

definition META_64BIT_ENCODING_MASK :: u8 where
  "META_64BIT_ENCODING_MASK = 0x80"

definition META_TYPE_MASK :: u8 where
  "META_TYPE_MASK = 0x0F"

definition km_new :: "redis_type \<Rightarrow> u64 \<Rightarrow> u64 \<Rightarrow> u64 \<Rightarrow> key_meta" where
  "km_new rtype expire_at version sz =
     \<lparr>km_rtype = rtype, km_flags = 0, km_expire_at = expire_at, km_version = version,
      km_size = sz\<rparr>"

definition km_new_with_version ::
    "redis_type \<Rightarrow> u64 \<Rightarrow> u64 \<Rightarrow> u64 \<Rightarrow> version_state \<Rightarrow> key_meta \<times> version_state" where
  "km_new_with_version rtype expire_at sz ts_us vs =
     (let (v, vs') = generate_version ts_us vs in (km_new rtype expire_at v sz, vs'))"

definition km_is_expired :: "key_meta \<Rightarrow> u64 \<Rightarrow> bool" where
  "km_is_expired m now_ms =
     (if \<not> rtype_is_emptyable (km_rtype m) \<and> km_size m = 0 then True
      else km_expire_at m > 0 \<and> km_expire_at m \<le> now_ms)"

text \<open>The last branch casts a \<open>u64\<close> difference to \<open>i64\<close>; the sum of \<open>ttl_sec\<close> wraps at that width.\<close>

definition km_ttl_ms :: "key_meta \<Rightarrow> u64 \<Rightarrow> int" where
  "km_ttl_ms m now_ms =
     (if km_expire_at m = 0 then -1
      else if km_expire_at m \<le> now_ms then -2
      else sint (km_expire_at m - now_ms))"

definition km_ttl :: "key_meta \<Rightarrow> u64 \<Rightarrow> int" where
  "km_ttl m now_ms = km_ttl_ms m now_ms"

definition km_ttl_sec :: "key_meta \<Rightarrow> u64 \<Rightarrow> int" where
  "km_ttl_sec m now_ms =
     (let ms = km_ttl_ms m now_ms
      in if ms < 0 then ms
         else (let sum = signed_take_bit 63 (ms + 999) in sgn sum * (\<bar>sum\<bar> div 1000)))"

definition expire_at_ms_to_sec :: "u64 \<Rightarrow> u64" where
  "expire_at_ms_to_sec ms =
     (if ms = 0 then 0 else if ms < 1000 then 1 else (ms + 499) div 1000)"

definition is_64bit_encoded_flags :: "u8 \<Rightarrow> bool" where
  "is_64bit_encoded_flags flags \<longleftrightarrow> flags AND META_64BIT_ENCODING_MASK \<noteq> 0"

definition common_encoded_size :: "key_meta \<Rightarrow> nat" where
  "common_encoded_size m = (if is_64bit_encoded_flags (km_flags m) then 8 else 4)"

definition get_offset_after_expire :: "u8 \<Rightarrow> nat" where
  "get_offset_after_expire flags = (if is_64bit_encoded_flags flags then 1 + 8 else 1 + 4)"

definition get_offset_after_size :: "u8 \<Rightarrow> nat" where
  "get_offset_after_size flags =
     (if is_64bit_encoded_flags flags then 1 + 8 + 8 + 8 else 1 + 4 + 8 + 4)"

definition km_encode :: "key_meta \<Rightarrow> bytes" where
  "km_encode m =
     [rtype_u8 (km_rtype m), km_flags m] @ to_be64 (km_expire_at m) @ to_be64 (km_version m)
       @ to_be64 (km_size m)"

definition km_encode_kvrocks :: "key_meta \<Rightarrow> bytes" where
  "km_encode_kvrocks m =
     (let flags = META_64BIT_ENCODING_MASK OR (rtype_u8 (km_rtype m) AND META_TYPE_MASK)
      in if rtype_is_single_kv (km_rtype m) then flags # to_be64 (km_expire_at m)
         else flags # to_be64 (km_expire_at m) @ to_be64 (km_version m) @ to_be64 (km_size m))"

text \<open>\<open>u64_at bs i\<close> is \<open>u64::from_be_bytes\<close> of the eight bytes from \<open>i\<close> on.\<close>

definition u64_at :: "bytes \<Rightarrow> nat \<Rightarrow> u64" where
  "u64_at bs i = from_be64 (take 8 (drop i bs))"

definition km_decode :: "bytes \<Rightarrow> key_meta option" where
  "km_decode bs =
     (if bs = [] then None
      else
        let first = hd bs in
        if 26 \<le> length bs \<and> first \<le> 14 then
          Some \<lparr>km_rtype = rtype_from_u8 first, km_flags = bs ! 1, km_expire_at = u64_at bs 2,
                km_version = u64_at bs 10, km_size = u64_at bs 18\<rparr>
        else if first AND META_64BIT_ENCODING_MASK \<noteq> 0 then
          (let rtype = rtype_from_u8 (first AND META_TYPE_MASK)
           in if rtype_is_single_kv rtype then
                if length bs < 9 then None
                else Some \<lparr>km_rtype = rtype, km_flags = first, km_expire_at = u64_at bs 1,
                           km_version = 0, km_size = 0\<rparr>
              else if 25 \<le> length bs then
                Some \<lparr>km_rtype = rtype, km_flags = first, km_expire_at = u64_at bs 1,
                      km_version = u64_at bs 9, km_size = u64_at bs 17\<rparr>
              else None)
        else None)"

text \<open>The decoder of the metadata types that \<open>impl_simple_meta!\<close> wraps around one Redis type.\<close>

definition simple_meta_decode :: "redis_type \<Rightarrow> bytes \<Rightarrow> key_meta option" where
  "simple_meta_decode rtype bs =
     (case km_decode bs of
        None \<Rightarrow> None
      | Some m \<Rightarrow> if km_rtype m = rtype then Some m else None)"

section \<open>Index ranges\<close>

definition normalize_range :: "int \<Rightarrow> int \<Rightarrow> int \<Rightarrow> int \<times> int" where
  "normalize_range start stop len =
     (if len \<le> 0 then (0, -1)
      else
        let s = (if start < 0 then len + start else start);
            e = (if stop < 0 then len + stop else stop);
            s = (if s < 0 then 0 else s);
            e = (if e \<ge> len then len - 1 else e)
        in (s, e))"

definition normalize_bitmap_range :: "int \<Rightarrow> int \<Rightarrow> int \<Rightarrow> int \<times> int" where
  "normalize_bitmap_range origin_start origin_end len =
     (if len \<le> 0 then (0, -1)
      else
        let start = (if origin_start < 0 then origin_start + len else origin_start);
            end' = (if origin_end < 0 then origin_end + len else origin_end);
            start = (if start < 0 then 0 else start);
            end' = (if end' < 0 then 0 else end');
            end' = (if end' \<ge> len then len - 1 else end')
        in (start, end'))"

definition I64_MAX :: int where
  "I64_MAX = 9223372036854775807"

definition I64_MIN :: int where
  "I64_MIN = -9223372036854775808"

definition saturating_sub_i64 :: "int \<Rightarrow> int \<Rightarrow> int" where
  "saturating_sub_i64 a b = max I64_MIN (min I64_MAX (a - b))"

definition saturating_add_i64 :: "int \<Rightarrow> int \<Rightarrow> int" where
  "saturating_add_i64 a b = max I64_MIN (min I64_MAX (a + b))"

text \<open>The Rust range types that \<open>IntoIndexRange\<close> is implemented for.\<close>

datatype index_range =
  RangeFull | RangePair int int | Range int int | RangeInclusive int int | RangeFrom int
  | RangeTo int | RangeToInclusive int | RangeBounds "int bound" "int bound"

fun into_index_range :: "index_range \<Rightarrow> int \<times> int" where
  "into_index_range RangeFull = (0, -1)"
| "into_index_range (RangePair a b) = (a, b)"
| "into_index_range (Range a b) = (a, saturating_sub_i64 b 1)"
| "into_index_range (RangeInclusive a b) = (a, b)"
| "into_index_range (RangeFrom a) = (a, -1)"
| "into_index_range (RangeTo b) = (0, saturating_sub_i64 b 1)"
| "into_index_range (RangeToInclusive b) = (0, b)"
| "into_index_range (RangeBounds l u) =
    ((case l of Included v \<Rightarrow> v | Excluded v \<Rightarrow> saturating_add_i64 v 1 | Unbounded \<Rightarrow> 0),
     (case u of Included v \<Rightarrow> v | Excluded v \<Rightarrow> saturating_sub_i64 v 1 | Unbounded \<Rightarrow> -1))"

section \<open>Sortable doubles\<close>

definition SIGN_MASK :: u64 where
  "SIGN_MASK = push_bit 63 1"

definition encode_sortable_f64_u64 :: "u64 \<Rightarrow> u64" where
  "encode_sortable_f64_u64 bits =
     (if bits AND SIGN_MASK \<noteq> 0 then NOT bits else bits XOR SIGN_MASK)"

definition decode_sortable_f64_u64 :: "u64 \<Rightarrow> u64" where
  "decode_sortable_f64_u64 sortable =
     (if sortable AND SIGN_MASK \<noteq> 0 then sortable XOR SIGN_MASK else NOT sortable)"

definition encode_sortable_f64 :: "u64 \<Rightarrow> bytes" where
  "encode_sortable_f64 bits = to_be64 (encode_sortable_f64_u64 bits)"

definition decode_sortable_f64 :: "bytes \<Rightarrow> u64" where
  "decode_sortable_f64 bs = decode_sortable_f64_u64 (from_be64 bs)"

section \<open>Hexadecimal\<close>

definition HEX_CHARS :: bytes where
  "HEX_CHARS = [48, 49, 50, 51, 52, 53, 54, 55, 56, 57, 97, 98, 99, 100, 101, 102]"

text \<open>The table that the \<open>const\<close> block builds: digits, then both cases of the letters.\<close>

definition HEX_DECODE_LUT :: bytes where
  "HEX_DECODE_LUT =
     (let t0 = replicate 256 0xFF;
          t1 = foldl (\<lambda>t i. t[48 + i := word_of_nat i]) t0 [0..<10]
      in foldl (\<lambda>t i. t[97 + i := word_of_nat (10 + i), 65 + i := word_of_nat (10 + i)])
           t1 [0..<6])"

definition bytes_to_hex_16 :: "bytes \<Rightarrow> bytes" where
  "bytes_to_hex_16 bs =
     concat (map (\<lambda>b. [HEX_CHARS ! unat (drop_bit 4 b), HEX_CHARS ! unat (b AND 0x0F)]) bs)"

definition u64_to_hex_16 :: "u64 \<Rightarrow> bytes" where
  "u64_to_hex_16 val = bytes_to_hex_16 (to_be64 val)"

fun decode_hex_loop :: "bytes \<Rightarrow> u64 \<Rightarrow> u64 option" where
  "decode_hex_loop [] val = Some val"
| "decode_hex_loop (h # hs) val =
    (let digit = HEX_DECODE_LUT ! unat h
     in if digit = 0xFF then None else decode_hex_loop hs (push_bit 4 val OR ucast digit))"

definition decode_hex_u64 :: "bytes \<Rightarrow> u64 option" where
  "decode_hex_u64 hex = (if length hex \<noteq> 16 then None else decode_hex_loop hex 0)"

section \<open>Numbers as text\<close>

definition is_ascii_whitespace :: "u8 \<Rightarrow> bool" where
  "is_ascii_whitespace b \<longleftrightarrow> b \<in> {0x20, 0x09, 0x0A, 0x0C, 0x0D}"

definition validate_redis_number_slice :: "bytes \<Rightarrow> string \<Rightarrow> error + bytes" where
  "validate_redis_number_slice v err_msg =
     (if v = [] \<or> is_ascii_whitespace (hd v) \<or> is_ascii_whitespace (last v)
      then Inl (InvalidData err_msg) else Inr v)"

text \<open>\<open>parse_i64_fast\<close> belongs to another crate: it is the first argument.\<close>

definition parse_redis_integer ::
    "(bytes \<Rightarrow> int option) \<Rightarrow> bytes \<Rightarrow> string \<Rightarrow> error + int" where
  "parse_redis_integer parse_i64_fast v err_msg =
     try_op (validate_redis_number_slice v err_msg)
       (\<lambda>v. case parse_i64_fast v of None \<Rightarrow> Inl (InvalidData err_msg) | Some i \<Rightarrow> Inr i)"

section \<open>Round trips of the metadata formats\<close>

lemma rtype_from_u8_u8 [simp]: "rtype_from_u8 (rtype_u8 t) = t"
  by (cases t) (simp_all add: rtype_from_u8_def all_redis_types_def)

lemma rtype_u8_inject [simp]: "rtype_u8 t = rtype_u8 u \<longleftrightarrow> t = u"
  by (metis rtype_from_u8_u8)

lemma rtype_u8_le [simp]: "rtype_u8 t \<le> 14"
  by (cases t) simp_all

lemma u64_at_append: "length xs = i \<Longrightarrow> u64_at (xs @ to_be64 v @ ys) i = v"
  by (simp add: u64_at_def)

lemma length_km_encode [simp]: "length (km_encode m) = 26"
  by (simp add: km_encode_def)

lemma km_encode_nonempty [simp]: "km_encode m \<noteq> []"
  by (simp add: km_encode_def)

text \<open>The 26-byte header is read back whatever follows it (structures append their own fields).\<close>

lemma km_decode_encode_append [simp]: "km_decode (km_encode m @ r) = Some m"
proof -
  let ?b = "km_encode m @ r"
  let ?t = "rtype_u8 (km_rtype m)" and ?f = "km_flags m"
  have e: "?b = [?t, ?f] @ to_be64 (km_expire_at m) @ (to_be64 (km_version m) @ to_be64 (km_size m) @ r)"
    "?b = ([?t, ?f] @ to_be64 (km_expire_at m)) @ to_be64 (km_version m) @ (to_be64 (km_size m) @ r)"
    "?b = ([?t, ?f] @ to_be64 (km_expire_at m) @ to_be64 (km_version m)) @ to_be64 (km_size m) @ r"
    by (simp_all add: km_encode_def)
  have "u64_at ?b 2 = km_expire_at m" unfolding e(1) by (rule u64_at_append) simp
  moreover have "u64_at ?b 10 = km_version m" unfolding e(2) by (rule u64_at_append) simp
  moreover have "u64_at ?b 18 = km_size m" unfolding e(3) by (rule u64_at_append) simp
  moreover have "hd ?b = ?t" "?b ! 1 = ?f" "?b \<noteq> []" "26 \<le> length ?b"
    by (simp_all add: km_encode_def)
  ultimately show ?thesis
    unfolding km_decode_def Let_def by simp
qed

lemma km_decode_encode [simp]: "km_decode (km_encode m) = Some m"
  using km_decode_encode_append [of m "[]"] by simp

lemma km_encode_inject [simp]: "km_encode m = km_encode n \<longleftrightarrow> m = n"
  by (metis km_decode_encode option.inject)

lemma simple_meta_decode_encode [simp]:
  "simple_meta_decode t (km_encode m) = (if km_rtype m = t then Some m else None)"
  by (simp add: simple_meta_decode_def)

lemma simple_meta_decode_Some:
  "simple_meta_decode t bs = Some m \<longleftrightarrow> km_decode bs = Some m \<and> km_rtype m = t"
  by (auto simp: simple_meta_decode_def split: option.splits)

definition kvrocks_flags :: "redis_type \<Rightarrow> u8" where
  "kvrocks_flags t = META_64BIT_ENCODING_MASK OR (rtype_u8 t AND META_TYPE_MASK)"

lemma kvrocks_flags_facts:
  "\<not> kvrocks_flags t \<le> 14" "kvrocks_flags t AND META_64BIT_ENCODING_MASK \<noteq> 0"
  "rtype_from_u8 (kvrocks_flags t AND META_TYPE_MASK) = t"
  by (cases t; simp add: kvrocks_flags_def META_64BIT_ENCODING_MASK_def META_TYPE_MASK_def
      rtype_from_u8_def all_redis_types_def)+

text \<open>What the Kvrocks format keeps of a record.\<close>

definition kvrocks_view :: "key_meta \<Rightarrow> key_meta" where
  "kvrocks_view m = (let single = km_rtype m = RString \<or> km_rtype m = RJson in
     \<lparr>km_rtype = km_rtype m, km_flags = 0x80 + rtype_u8 (km_rtype m), km_expire_at = km_expire_at m,
      km_version = (if single then 0 else km_version m), km_size = (if single then 0 else km_size m)\<rparr>)"

lemma kvrocks_flags_eq: "kvrocks_flags t = 0x80 + rtype_u8 t"
  by (cases t) (simp_all add: kvrocks_flags_def META_64BIT_ENCODING_MASK_def META_TYPE_MASK_def)

lemma km_decode_encode_kvrocks_append:
  "km_decode (km_encode_kvrocks m @ r) = Some (kvrocks_view m)"
proof -
  let ?f = "kvrocks_flags (km_rtype m)" and ?x = "to_be64 (km_expire_at m)"
    and ?v = "to_be64 (km_version m)" and ?s = "to_be64 (km_size m)"
  have u: "u64_at (?f # ?x @ r) 1 = km_expire_at m"
    "u64_at (?f # ?x @ ?v @ r) 9 = km_version m" "u64_at (?f # ?x @ ?v @ ?s @ r) 17 = km_size m" for r
    using u64_at_append [of "[?f]" 1 "km_expire_at m" r]
      u64_at_append [of "?f # ?x" 9 "km_version m" r]
      u64_at_append [of "?f # ?x @ ?v" 17 "km_size m" r]
    by simp_all
  show ?thesis
  proof (cases "rtype_is_single_kv (km_rtype m)")
    case True
    then have "km_encode_kvrocks m @ r = ?f # ?x @ r"
      by (simp add: km_encode_kvrocks_def kvrocks_flags_def)
    then show ?thesis
      using True u(1) [of r]
      by (auto simp: km_decode_def kvrocks_flags_facts Let_def kvrocks_view_def kvrocks_flags_eq [symmetric]
          rtype_is_single_kv_def)
  next
    case False
    then have "km_encode_kvrocks m @ r = ?f # ?x @ ?v @ ?s @ r"
      by (simp add: km_encode_kvrocks_def kvrocks_flags_def)
    then show ?thesis
      using False u(1) [of "?v @ ?s @ r"] u(2) [of "?s @ r"] u(3) [of r]
      by (auto simp: km_decode_def kvrocks_flags_facts Let_def kvrocks_view_def kvrocks_flags_eq [symmetric]
          rtype_is_single_kv_def)
  qed
qed

lemma km_decode_encode_kvrocks: "km_decode (km_encode_kvrocks m) = Some (kvrocks_view m)"
  using km_decode_encode_kvrocks_append [of m "[]"] by simp

lemma take_header: "n < length xs \<Longrightarrow> n \<noteq> 0 \<Longrightarrow> hd (take n xs) = hd xs \<and> length (take n xs) = n \<and> take n xs \<noteq> []"
  by (cases xs; cases n) auto

lemma rtype_no_high: "rtype_u8 t AND META_64BIT_ENCODING_MASK = 0"
  by (cases t) (simp_all add: META_64BIT_ENCODING_MASK_def)

lemma km_decode_short: "n < 26 \<Longrightarrow> km_decode (take n (km_encode m)) = None"
proof (cases "n = 0")
  case False
  moreover assume "n < 26"
  moreover have "hd (km_encode m) = rtype_u8 (km_rtype m)" by (simp add: km_encode_def)
  ultimately show ?thesis
    using take_header [of n "km_encode m"] by (simp add: km_decode_def rtype_no_high Let_def)
qed (simp add: km_decode_def)

lemma km_decode_short_kvrocks: "n < length (km_encode_kvrocks m) \<Longrightarrow> km_decode (take n (km_encode_kvrocks m)) = None"
proof (cases "n = 0")
  case False
  moreover assume n: "n < length (km_encode_kvrocks m)"
  moreover have "hd (km_encode_kvrocks m) = kvrocks_flags (km_rtype m)"
    "length (km_encode_kvrocks m) = (if rtype_is_single_kv (km_rtype m) then 9 else 25)"
    by (simp_all add: km_encode_kvrocks_def kvrocks_flags_def Let_def)
  ultimately show ?thesis
    using take_header [of n "km_encode_kvrocks m"]
    by (auto simp: km_decode_def kvrocks_flags_facts Let_def split: if_splits)
qed (simp add: km_decode_def)

section \<open>Versions grow\<close>

lemma generate_version_last: "vs_last (snd (generate_version ts vs)) = fst (generate_version ts vs)"
  by (simp add: generate_version_def Let_def)

lemma word_less_plus_one: "x \<noteq> - 1 \<Longrightarrow> x < (x :: 'a::len word) + 1"
  by (simp add: word_less_nat_alt unatSuc eq_neg_iff_add_eq_0 add.commute)

lemma generate_version_grows:
  "vs_last vs \<noteq> - 1 \<Longrightarrow> vs_last vs < fst (generate_version ts vs)"
  by (simp add: generate_version_def Let_def word_less_plus_one not_le)

section \<open>Index ranges\<close>

text \<open>A normalised range selects exactly the existing positions that the two indices,
  counted from the end when negative, enclose.\<close>

lemma normalize_range_spec:
  assumes "normalize_range start stop len = (s, e)"
  shows "{s..e} = {i. 0 \<le> i \<and> i < len
     \<and> (if start < 0 then len + start else start) \<le> i
     \<and> i \<le> (if stop < 0 then len + stop else stop)}"
  using assms by (auto simp: normalize_range_def Let_def split: if_splits)

lemma normalize_range_bounds:
  "normalize_range start stop len = (s, e) \<Longrightarrow> 0 \<le> s \<and> e < len \<or> len \<le> 0 \<and> s = 0 \<and> e = -1"
  by (auto simp: normalize_range_def Let_def split: if_splits)

lemma normalize_bitmap_range_bounds:
  "0 < len \<Longrightarrow> normalize_bitmap_range start stop len = (s, e) \<Longrightarrow> 0 \<le> s \<and> 0 \<le> e \<and> e < len"
  by (auto simp: normalize_bitmap_range_def Let_def split: if_splits)

text \<open>The part of a list that a range selects; a negative index counts from the end.\<close>

definition from_end :: "'a list \<Rightarrow> int \<Rightarrow> int" where
  "from_end xs i = (if i < 0 then int (length xs) + i else i)"

definition redis_slice :: "int \<Rightarrow> int \<Rightarrow> 'a list \<Rightarrow> 'a list" where
  "redis_slice start stop xs = nths xs {i. from_end xs start \<le> int i \<and> int i \<le> from_end xs stop}"

definition redis_index :: "'a list \<Rightarrow> int \<Rightarrow> nat option" where
  "redis_index xs i =
     (if 0 \<le> from_end xs i \<and> from_end xs i < int (length xs) then Some (nat (from_end xs i)) else None)"

lemma nths_interval: "nths xs {i. a \<le> i \<and> i < b} = take (b - a) (drop a xs)"
proof (induction xs arbitrary: a b)
  case (Cons x xs)
  have "{j. Suc j \<in> {i. a \<le> i \<and> i < b}} = {i. a - 1 \<le> i \<and> i < b - 1}" by auto
  then have "nths (x # xs) {i. a \<le> i \<and> i < b}
      = (if a = 0 \<and> 0 < b then [x] else []) @ take ((b - 1) - (a - 1)) (drop (a - 1) xs)"
    by (simp add: nths_Cons Cons.IH)
  then show ?case by (cases a; cases b) auto
qed simp

lemma redis_slice_normalize:
  assumes "normalize_range start stop (int (length xs)) = (s, e)"
  shows "redis_slice start stop xs = (if s > e then [] else take (nat (e - s + 1)) (drop (nat s) xs))"
proof -
  have eq: "i < length xs \<and> from_end xs start \<le> int i \<and> int i \<le> from_end xs stop
      \<longleftrightarrow> i < length xs \<and> s \<le> int i \<and> int i \<le> e" for i
    using assms normalize_range_spec [OF assms] unfolding from_end_def set_eq_iff
    by (auto dest!: spec [of _ "int i"])
  have "redis_slice start stop xs = nths xs {i. i < length xs \<and> s \<le> int i \<and> int i \<le> e}"
    unfolding redis_slice_def eq [symmetric] by (simp add: nths_def cong: filter_cong)
      (auto intro!: arg_cong [of _ _ "map fst"] filter_cong simp: set_zip)
  also have "\<dots> = (if s > e then [] else take (nat (e - s + 1)) (drop (nat s) xs))"
  proof (cases "s > e")
    case True
    then have "{i. i < length xs \<and> s \<le> int i \<and> int i \<le> e} = {}" by auto
    then show ?thesis using True by (simp only: nths_empty if_True)
  next
    case False
    have b: "length xs \<noteq> 0 \<Longrightarrow> 0 \<le> s \<and> e < int (length xs)"
      using normalize_range_bounds [OF assms] False by auto
    have "{i. i < length xs \<and> s \<le> int i \<and> int i \<le> e} = {i. nat s \<le> i \<and> i < nat (e + 1)}" if "length xs \<noteq> 0"
      using b [OF that] by auto
    moreover have "nat (e + 1) - nat s = nat (e - s + 1)" if "length xs \<noteq> 0"
      using b [OF that] False by auto
    ultimately show ?thesis
      using False by (cases "xs = []") (simp_all add: nths_interval)
  qed
  finally show ?thesis .
qed

section \<open>Sortable doubles keep the order\<close>

text \<open>The IEEE 754 reading of a bit pattern: the value times \<open>2 ^ 1074\<close>, an integer. The
  infinities get a value beyond every finite one.\<close>

definition f64_mag :: "nat \<Rightarrow> nat" where
  "f64_mag k =
     (let e = k div 2 ^ 52; m = k mod 2 ^ 52
      in if e = 0 then m else (2 ^ 52 + m) * 2 ^ (e - 1))"

definition f64_scaled :: "u64 \<Rightarrow> int" where
  "f64_scaled bits =
     (if unat bits < 2 ^ 63 then int (f64_mag (unat bits)) else - int (f64_mag (unat bits - 2 ^ 63)))"

definition f64_is_nan :: "u64 \<Rightarrow> bool" where
  "f64_is_nan bits \<longleftrightarrow> unat bits mod 2 ^ 63 > 0x7FF0000000000000"

text \<open>\<open>a < b\<close> on \<open>f64\<close>: false as soon as one side is not a number.\<close>

definition f64_less :: "u64 \<Rightarrow> u64 \<Rightarrow> bool" where
  "f64_less a b \<longleftrightarrow> \<not> f64_is_nan a \<and> \<not> f64_is_nan b \<and> f64_scaled a < f64_scaled b"

lemma f64_mag_Suc: "f64_mag k < f64_mag (Suc k)"
proof (cases "Suc (k mod 2 ^ 52) = 2 ^ 52")
  case True
  then have "Suc k div 2 ^ 52 = Suc (k div 2 ^ 52)" "Suc k mod 2 ^ 52 = 0" "k mod 2 ^ 52 = 2 ^ 52 - 1"
    by (simp_all add: div_Suc mod_Suc)
  then show ?thesis
    by (cases "k div 2 ^ 52") (simp_all add: f64_mag_def Let_def)
next
  case False
  then have "Suc k div 2 ^ 52 = k div 2 ^ 52" "Suc k mod 2 ^ 52 = Suc (k mod 2 ^ 52)"
    by (simp_all add: div_Suc mod_Suc)
  then show ?thesis
    by (simp add: f64_mag_def Let_def)
qed

lemma f64_mag_less: "f64_mag j < f64_mag k \<longleftrightarrow> j < k"
  using strict_mono_Suc_iff [of f64_mag] f64_mag_Suc strict_mono_less by blast

lemma sign_bit_iff: "bits AND SIGN_MASK \<noteq> 0 \<longleftrightarrow> 2 ^ 63 \<le> unat (bits :: u64)"
proof -
  have "unat bits div 2 ^ 63 < 2"
    by (rule less_mult_imp_div_less) simp
  then have "odd (unat bits div 2 ^ 63) \<longleftrightarrow> 2 ^ 63 \<le> unat bits"
    by (cases "unat bits div 2 ^ 63") (auto simp: div_eq_0_iff)
  moreover have "bit bits 63 \<longleftrightarrow> bit (unat bits) 63"
    by (simp add: bit_unsigned_iff)
  then have "bit bits 63 \<longleftrightarrow> odd (unat bits div 2 ^ 63)"
    by (simp only: bit_iff_odd)
  moreover have "bits AND SIGN_MASK = 0 \<longleftrightarrow> \<not> bit bits 63"
    unfolding SIGN_MASK_def push_bit_of_1 by (rule and_exp_eq_0_iff_not_bit)
  ultimately show ?thesis by simp
qed

lemma SIGN_MASK_value: "SIGN_MASK = 0x8000000000000000"
  by (simp add: SIGN_MASK_def)

lemma unat_SIGN_MASK: "unat SIGN_MASK = 2 ^ 63"
  by (simp add: SIGN_MASK_def)

lemma unat_not: "unat (NOT (x :: u64)) = 2 ^ 64 - 1 - unat x"
proof -
  have "NOT x = - 1 - x" by (simp add: not_eq_complement)
  moreover have "unat (- 1 - x) = unat (- 1 :: u64) - unat x"
    by (rule unat_sub) simp
  moreover have "unat (- 1 :: u64) = 2 ^ 64 - 1"
    by (simp add: unsigned_minus_1_eq_mask mask_eq_exp_minus_1)
  ultimately show ?thesis by simp
qed

lemma unat_xor_sign:
  "\<not> 2 ^ 63 \<le> unat (x :: u64) \<Longrightarrow> unat (x XOR SIGN_MASK) = unat x + 2 ^ 63"
proof -
  assume *: "\<not> 2 ^ 63 \<le> unat x"
  then have d: "x AND SIGN_MASK = 0" using sign_bit_iff by blast
  then have "x XOR SIGN_MASK = x OR SIGN_MASK"
    by (simp add: disjunctive_xor_eq_or)
  also have "\<dots> = x + SIGN_MASK" using d by (simp add: disjunctive_add_eq_or)
  finally show ?thesis using * by (simp add: unat_word_ariths unat_SIGN_MASK)
qed

lemma unat_encode_sortable:
  "unat (encode_sortable_f64_u64 bits) =
     (if 2 ^ 63 \<le> unat bits then 2 ^ 64 - 1 - unat bits else unat bits + 2 ^ 63)"
  unfolding encode_sortable_f64_u64_def sign_bit_iff by (simp add: unat_not unat_xor_sign del: power_numeral)

lemma encode_sortable_mono:
  assumes "f64_scaled a < f64_scaled b"
  shows "encode_sortable_f64_u64 a < encode_sortable_f64_u64 b"
proof -
  have ab: "unat a < 18446744073709551616" "unat b < 18446744073709551616" by (rule unat_u64_less)+
  have "unat (encode_sortable_f64_u64 a) < unat (encode_sortable_f64_u64 b)"
    using assms f64_mag_less [of "unat a" "unat b"]
      f64_mag_less [of "unat b - 2 ^ 63" "unat a - 2 ^ 63"]
    unfolding unat_encode_sortable f64_scaled_def
    by (simp split: if_splits) (use ab in arith)
  then show ?thesis by (simp add: word_less_nat_alt)
qed

lemma f64_mag_0: "f64_mag 0 = 0"
  by (simp add: f64_mag_def)

text \<open>Different bit patterns of one value are the two zeros.\<close>

lemma f64_scaled_eq:
  assumes "f64_scaled a = f64_scaled b"
  shows "a = b \<or> {a, b} = {0, SIGN_MASK}"
proof -
  have eq: "f64_mag j = f64_mag k \<longleftrightarrow> j = k" for j k using f64_mag_less [of j k] f64_mag_less [of k j] by auto
  have z: "f64_mag j = 0 \<longleftrightarrow> j = 0" for j using eq [of j 0] by (simp add: f64_mag_0)
  have r: "unat a < 18446744073709551616" "unat b < 18446744073709551616" by (rule unat_u64_less)+
  have "unat a = unat b \<or> {unat a, unat b} = {0, 2 ^ 63}"
  proof (cases "(unat a < 2 ^ 63) = (unat b < 2 ^ 63)")
    case True
    then show ?thesis
      using assms eq [of "unat a" "unat b"] eq [of "unat a - 2 ^ 63" "unat b - 2 ^ 63"]
        eq_diff_iff [of "2 ^ 63" "unat a" "unat b"]
      by (simp add: f64_scaled_def split: if_splits)
  next
    case False
    then show ?thesis
      using assms z [of "unat a"] z [of "unat b"] z [of "unat a - 2 ^ 63"] z [of "unat b - 2 ^ 63"]
      by (auto simp: f64_scaled_def insert_commute split: if_splits)
  qed
  then show ?thesis
    by (auto simp: doubleton_eq_iff word_unat_eq_iff unat_SIGN_MASK)
qed

lemma encode_zeros: "encode_sortable_f64_u64 SIGN_MASK < encode_sortable_f64_u64 0"
  by (simp add: word_less_nat_alt unat_encode_sortable unat_SIGN_MASK)

lemma encode_sortable_iff:
  "encode_sortable_f64_u64 a < encode_sortable_f64_u64 b
     \<longleftrightarrow> f64_scaled a < f64_scaled b \<or> a = SIGN_MASK \<and> b = 0"
proof (cases "f64_scaled a" "f64_scaled b" rule: linorder_cases)
  case equal
  have "SIGN_MASK \<noteq> 0" by (simp add: word_unat_eq_iff unat_SIGN_MASK)
  then show ?thesis
    using f64_scaled_eq [OF equal] equal encode_zeros by (auto simp: doubleton_eq_iff not_less dest: less_not_sym)
next
  case greater
  then have "encode_sortable_f64_u64 b < encode_sortable_f64_u64 a" by (rule encode_sortable_mono)
  moreover have "f64_scaled SIGN_MASK = f64_scaled 0" by (simp add: f64_scaled_def unat_SIGN_MASK f64_mag_0)
  ultimately show ?thesis using greater by auto
qed (simp add: encode_sortable_mono)

lemma decode_encode_sortable: "decode_sortable_f64_u64 (encode_sortable_f64_u64 bits) = bits"
proof (cases "2 ^ 63 \<le> unat bits")
  case True
  then have "\<not> 2 ^ 63 \<le> unat (encode_sortable_f64_u64 bits)"
    by (simp add: unat_encode_sortable)
  then show ?thesis
    using True unfolding decode_sortable_f64_u64_def sign_bit_iff
    by (simp add: encode_sortable_f64_u64_def sign_bit_iff)
next
  case False
  then have "2 ^ 63 \<le> unat (encode_sortable_f64_u64 bits)"
    by (simp add: unat_encode_sortable)
  then show ?thesis
    using False unfolding decode_sortable_f64_u64_def sign_bit_iff
    by (simp add: encode_sortable_f64_u64_def sign_bit_iff xor.assoc)
qed

section \<open>Hexadecimal round trip\<close>

lemma hex_digit_lut:
  "n < 16 \<Longrightarrow> HEX_DECODE_LUT ! unat (HEX_CHARS ! n) = word_of_nat n"
proof -
  have "\<forall>n\<in>set [0..<16]. HEX_DECODE_LUT ! unat (HEX_CHARS ! n) = word_of_nat n"
    by code_simp
  then show "n < 16 \<Longrightarrow> ?thesis" by simp
qed

lemma hex_byte:
  fixes b :: u8 and v :: u64
  shows "(push_bit 8 v OR push_bit 4 (ucast (drop_bit 4 b))) OR ucast (b AND 0x0F)
    = push_bit 8 v OR ucast b"
proof -
  have m: "(0x0F :: u8) = mask 4" by (simp add: mask_eq_exp_minus_1)
  show ?thesis
    unfolding m by (intro bit_eqI) (auto simp: bit_simps not_less)
qed

lemma hex_digits_of_byte:
  fixes b :: u8
  shows "HEX_DECODE_LUT ! unat (HEX_CHARS ! unat (drop_bit 4 b)) = drop_bit 4 b"
    and "HEX_DECODE_LUT ! unat (HEX_CHARS ! unat (b AND 0x0F)) = b AND 0x0F"
    and "drop_bit 4 b \<noteq> 0xFF" and "b AND 0x0F \<noteq> 0xFF"
proof -
  have h: "unat (drop_bit 4 b) < 16"
    using unat_u8_less [of b] less_mult_imp_div_less [of "unat b" 16 16]
    by (simp add: unat_drop_bit_eq drop_bit_nat_def)
  have l: "unat (b AND 0x0F) < 16"
    by (simp add: unat_u8_masks)
  show "HEX_DECODE_LUT ! unat (HEX_CHARS ! unat (drop_bit 4 b)) = drop_bit 4 b"
    using hex_digit_lut [OF h] by simp
  show "HEX_DECODE_LUT ! unat (HEX_CHARS ! unat (b AND 0x0F)) = b AND 0x0F"
    using hex_digit_lut [OF l] by simp
  show "drop_bit 4 b \<noteq> 0xFF" "b AND 0x0F \<noteq> 0xFF"
    using h l by auto
qed

lemma decode_hex_loop_bytes:
  "decode_hex_loop (bytes_to_hex_16 bs) v
     = Some (foldl (\<lambda>v b. push_bit 8 v OR ucast b) v bs)"
proof (induction bs arbitrary: v)
  case (Cons b bs)
  have "bytes_to_hex_16 (b # bs)
      = [HEX_CHARS ! unat (drop_bit 4 b), HEX_CHARS ! unat (b AND 0x0F)] @ bytes_to_hex_16 bs"
    by (simp add: bytes_to_hex_16_def)
  then show ?case
    using Cons.IH by (simp add: hex_digits_of_byte Let_def hex_byte)
qed (simp add: bytes_to_hex_16_def)

lemma unat_fold_bytes:
  "length bs \<le> 8 \<Longrightarrow> unat (foldl (\<lambda>v b. push_bit 8 v OR ucast b) (0 :: u64) bs) = bval bs"
proof (induction bs rule: rev_induct)
  case (snoc b bs)
  have "bval bs < 256 ^ length bs" by (rule bval_less)
  also have "\<dots> \<le> 256 ^ 7" using snoc.prems by (intro power_increasing) simp_all
  finally have l: "bval bs < 256 ^ 7" .
  have u: "unat (foldl (\<lambda>v b. push_bit 8 v OR ucast b) (0 :: u64) bs) = bval bs"
    using snoc by simp
  show ?case
    using l by (simp add: unat_push_or unat_ucast_u64 u)
qed simp

lemma length_bytes_to_hex: "length (bytes_to_hex_16 bs) = 2 * length bs"
  by (induction bs) (simp_all add: bytes_to_hex_16_def)

lemma decode_hex_roundtrip: "decode_hex_u64 (u64_to_hex_16 v) = Some v"
  using unat_fold_bytes [of "to_be64 v"]
  by (simp add: decode_hex_u64_def u64_to_hex_16_def length_bytes_to_hex decode_hex_loop_bytes
      word_unat_eq_iff)

section \<open>Properties\<close>

text \<open>C11: what the two binary formats of a metadata record keep. The 26-byte header is read back
  exactly, whatever follows it. The compact Kvrocks header keeps the type and the expiry, and version
  and size of every type but strings and JSON, for which they read as 0; the flags are not kept but
  read as \<open>0x80\<close> plus the type. A header of either format cut short is refused.\<close>

theorem key_meta_formats:
  "km_decode (km_encode m @ rest) = Some m
     \<and> km_decode (km_encode_kvrocks m @ rest) = Some
         \<lparr>km_rtype = km_rtype m, km_flags = 0x80 + rtype_u8 (km_rtype m), km_expire_at = km_expire_at m,
          km_version = (if km_rtype m \<in> {RString, RJson} then 0 else km_version m),
          km_size = (if km_rtype m \<in> {RString, RJson} then 0 else km_size m)\<rparr>
     \<and> (n < 26 \<longrightarrow> km_decode (take n (km_encode m)) = None)
     \<and> (n < (if km_rtype m \<in> {RString, RJson} then 9 else 25) \<longrightarrow> km_decode (take n (km_encode_kvrocks m)) = None)"
proof -
  have "length (km_encode_kvrocks m) = (if km_rtype m \<in> {RString, RJson} then 9 else 25)"
    by (auto simp: km_encode_kvrocks_def rtype_is_single_kv_def Let_def)
  then show ?thesis
    using km_decode_short [of n m] km_decode_short_kvrocks [of n m]
    by (simp add: km_decode_encode_kvrocks_append kvrocks_view_def Let_def)
qed

theorem key_meta_formats_witness:
  "km_decode (take 25 (km_encode (km_new RList 7 8 9))) = None
     \<and> km_decode (take 8 (km_encode_kvrocks (km_new RString 7 0 0))) = None"
  using key_meta_formats [of "km_new RList 7 8 9" "[]" 25] key_meta_formats [of "km_new RString 7 0 0" "[]" 8]
  by (simp add: km_new_def)

text \<open>C12: the eight stored bytes of a score decode to the same bit pattern, for every double,
  infinities and NaN included. Between numbers the byte order of the storage engine is the order of
  the doubles, in both directions, except that it tells the two zeros apart and puts -0 first.\<close>

theorem sortable_f64_order:
  "decode_sortable_f64 (encode_sortable_f64 a) = a
    \<and> (\<not> f64_is_nan a \<and> \<not> f64_is_nan b \<longrightarrow>
        (encode_sortable_f64 a < encode_sortable_f64 b
          \<longleftrightarrow> f64_less a b \<or> a = 0x8000000000000000 \<and> b = 0))"
  using encode_sortable_iff [of a b] SIGN_MASK_value
  by (auto simp: f64_less_def encode_sortable_f64_def decode_sortable_f64_def decode_encode_sortable)

text \<open>The bit patterns of \<open>-2.0\<close>, \<open>1.5\<close> and infinity.\<close>

theorem sortable_f64_order_witness:
  "encode_sortable_f64 0xC000000000000000 < encode_sortable_f64 0x3FF8000000000000
     \<and> \<not> encode_sortable_f64 0x7FF0000000000000 < encode_sortable_f64 0x3FF8000000000000"
  using sortable_f64_order [of "0xC000000000000000" "0x3FF8000000000000"]
    sortable_f64_order [of "0x7FF0000000000000" "0x3FF8000000000000"]
  by (simp add: f64_less_def f64_is_nan_def f64_scaled_def f64_mag_def Let_def)

end
