(* ===== verification/Version_Gen.thy ===== *)
theory Version_Gen
  imports Meta
begin

text \<open>
  \<^verbatim>\<open>generate_version\<close> of \<^verbatim>\<open>embed/src/meta.rs\<close> under contention. Any number of threads run
  the function on the two shared atomics; a step is one atomic access of one thread (the clock
  may return anything, the weak compare-and-swap may fail without reason). The list
  \<open>vg_issued\<close> records the returned versions in the order in which they were issued.
\<close>

datatype vg_pc =
  Ready
| HasCandidate u64  \<comment> \<open>after \<open>fetch_add\<close>\<close>
| Looping u64 u64   \<comment> \<open>the candidate and the last value read, at the head of the loop\<close>
| Returned u64

record vg_state =
  vg_shared :: version_state
  vg_pcs :: "nat \<Rightarrow> vg_pc"
  vg_issued :: "u64 list"

text \<open>\<open>if candidate <= last { candidate = last + 1 }\<close>; in a release build the addition wraps.\<close>

definition bump :: "u64 \<Rightarrow> u64 \<Rightarrow> u64" where
  "bump candidate lst = (if candidate \<le> lst then lst + 1 else candidate)"

inductive vg_step :: "vg_state \<Rightarrow> vg_state \<Rightarrow> bool" where
  fetch_counter:
    "vg_pcs s t = Ready \<Longrightarrow>
     vg_step s (s\<lparr>vg_shared := (vg_shared s)\<lparr>vs_counter := vs_counter (vg_shared s) + 1\<rparr>,
                  vg_pcs := (vg_pcs s)(t := HasCandidate (version_candidate ts (vs_counter (vg_shared s))))\<rparr>)"
| load_last:
    "vg_pcs s t = HasCandidate c \<Longrightarrow>
     vg_step s (s\<lparr>vg_pcs := (vg_pcs s)(t := Looping c (vs_last (vg_shared s)))\<rparr>)"
| cas_ok:
    "vg_pcs s t = Looping c lst \<Longrightarrow> vs_last (vg_shared s) = lst \<Longrightarrow>
     vg_step s (s\<lparr>vg_shared := (vg_shared s)\<lparr>vs_last := bump c lst\<rparr>,
                  vg_pcs := (vg_pcs s)(t := Returned (bump c lst)),
                  vg_issued := vg_issued s @ [bump c lst]\<rparr>)"
| cas_fail:
    "vg_pcs s t = Looping c lst \<Longrightarrow>
     vg_step s (s\<lparr>vg_pcs := (vg_pcs s)(t := Looping (bump c lst) (vs_last (vg_shared s)))\<rparr>)"
| call_again:
    "vg_pcs s t = Returned v \<Longrightarrow> vg_step s (s\<lparr>vg_pcs := (vg_pcs s)(t := Ready)\<rparr>)"

inductive vg_reachable :: "version_state \<Rightarrow> vg_state \<Rightarrow> bool" for vs where
  start: "vg_reachable vs \<lparr>vg_shared = vs, vg_pcs = (\<lambda>_. Ready), vg_issued = []\<rparr>"
| step: "vg_reachable vs s \<Longrightarrow> vg_step s s' \<Longrightarrow> vg_reachable vs s'"

text \<open>As long as the largest word has not been handed out, the issued versions grow strictly
  from the initial value on, the shared word is the last one issued, and what a thread returns
  has been issued.\<close>

definition vg_inv :: "u64 \<Rightarrow> vg_state \<Rightarrow> bool" where
  "vg_inv v0 s \<longleftrightarrow>
     (- 1 \<notin> set (vg_issued s) \<longrightarrow>
        sorted_wrt (<) (v0 # vg_issued s) \<and> vs_last (vg_shared s) = last (v0 # vg_issued s))
   \<and> (\<forall>t v. vg_pcs s t = Returned v \<longrightarrow> v \<in> set (vg_issued s))"

lemma bump_greater: "x \<noteq> - 1 \<Longrightarrow> x < bump c x"
  by (simp add: bump_def word_less_plus_one not_le)

lemma sorted_snoc:
  "sorted_wrt (<) (xs @ [x :: u64]) \<longleftrightarrow> sorted_wrt (<) xs \<and> (\<forall>y\<in>set xs. y < x)"
  by (simp add: sorted_wrt_append)

lemma sorted_last_max: "sorted_wrt (<) xs \<Longrightarrow> y \<in> set xs \<Longrightarrow> y \<le> last (xs :: u64 list)"
  by (induction xs) (auto simp: order.strict_implies_order)

lemma vg_inv_step:
  assumes "vg_step s s'" and inv: "vg_inv v0 s" and "v0 \<noteq> - 1"
  shows "vg_inv v0 s'"
  using assms(1)
proof (cases rule: vg_step.cases)
  case (cas_ok t c l)
  show ?thesis
    unfolding vg_inv_def
  proof (intro conjI impI allI)
    assume n: "- 1 \<notin> set (vg_issued s')"
    then have "- 1 \<notin> set (vg_issued s)" using cas_ok by simp
    with inv have so: "sorted_wrt (<) (v0 # vg_issued s)"
      and la: "vs_last (vg_shared s) = last (v0 # vg_issued s)"
      by (simp_all add: vg_inv_def)
    have "l \<in> set (v0 # vg_issued s)"
      using la cas_ok last_in_set [of "v0 # vg_issued s"] by simp
    with \<open>- 1 \<notin> set (vg_issued s)\<close> assms(3) have "l \<noteq> - 1" by auto
    then have "\<forall>y\<in>set (v0 # vg_issued s). y < bump c l"
      using sorted_last_max [OF so] la cas_ok bump_greater [of l c] by (metis le_less_trans)
    then show "sorted_wrt (<) (v0 # vg_issued s')"
      using so cas_ok by (simp add: sorted_wrt_append)
    show "vs_last (vg_shared s') = last (v0 # vg_issued s')"
      using cas_ok by simp
  next
    fix u v
    assume "vg_pcs s' u = Returned v"
    with cas_ok inv show "v \<in> set (vg_issued s')"
      by (auto simp: vg_inv_def split: if_splits)
  qed
qed (use inv in \<open>auto simp: vg_inv_def split: if_splits\<close>)

lemma vg_inv_reachable:
  assumes "vg_reachable vs s" and "vs_last vs \<noteq> - 1"
  shows "vg_inv (vs_last vs) s"
  using assms(1)
proof induction
  case start
  show ?case by (simp add: vg_inv_def)
next
  case (step s s')
  then show ?case using vg_inv_step assms(2) by blast
qed

text \<open>One thread on its own does what \<open>generate_version\<close> says.\<close>

lemma uncontended:
  assumes "vg_pcs s t = Ready"
  shows "\<exists>s'. vg_step\<^sup>*\<^sup>* s s'
    \<and> vg_pcs s' t = Returned (fst (generate_version ts (vg_shared s)))
    \<and> vg_shared s' = snd (generate_version ts (vg_shared s))"
proof -
  let ?vs = "vg_shared s"
  let ?c = "version_candidate ts (vs_counter ?vs)"
  let ?a = "s\<lparr>vg_shared := ?vs\<lparr>vs_counter := vs_counter ?vs + 1\<rparr>, vg_pcs := (vg_pcs s)(t := HasCandidate ?c)\<rparr>"
  let ?b = "?a\<lparr>vg_pcs := (vg_pcs ?a)(t := Looping ?c (vs_last ?vs))\<rparr>"
  let ?d = "?b\<lparr>vg_shared := (vg_shared ?b)\<lparr>vs_last := bump ?c (vs_last ?vs)\<rparr>,
              vg_pcs := (vg_pcs ?b)(t := Returned (bump ?c (vs_last ?vs))),
              vg_issued := vg_issued ?b @ [bump ?c (vs_last ?vs)]\<rparr>"
  have "vg_step s ?a" using assms by (rule fetch_counter)
  moreover have "vg_step ?a ?b" using load_last [of ?a t ?c] by simp
  moreover have "vg_step ?b ?d" by (rule cas_ok [where t = t]) simp_all
  ultimately have "vg_step\<^sup>*\<^sup>* s ?d" by (meson converse_rtranclp_into_rtranclp rtranclp.rtrancl_refl)
  moreover have "vg_pcs ?d t = Returned (fst (generate_version ts ?vs))"
    "vg_shared ?d = snd (generate_version ts ?vs)"
    by (cases ?vs; simp add: generate_version_def Let_def bump_def)+
  ultimately show ?thesis by blast
qed

section \<open>Properties\<close>

text \<open>C18: however many threads run \<open>generate_version\<close> and however their atomic accesses
  interleave, the versions are handed out in strictly increasing order, so no two calls get the
  same one, and all are above the value the generator started from (as long as the 64-bit range
  is not exhausted).\<close>

theorem versions_strictly_increase:
  assumes "vg_reachable vs s" and "vs_last vs \<noteq> - 1" and "- 1 \<notin> set (vg_issued s)"
  shows "sorted_wrt (<) (vs_last vs # vg_issued s) \<and> distinct (vg_issued s)
    \<and> (\<forall>t v. vg_pcs s t = Returned v \<longrightarrow> v \<in> set (vg_issued s))"
  using vg_inv_reachable [OF assms(1,2)] assms(3)
  by (auto simp: vg_inv_def strict_sorted_iff simp del: sorted_wrt.simps)

theorem versions_strictly_increase_witness:
  "\<exists>s. vg_reachable \<lparr>vs_counter = 0, vs_last = 0\<rparr> s \<and> vg_issued s = [2048]
     \<and> sorted_wrt (<) (0 # vg_issued s)"
proof -
  let ?vs = "\<lparr>vs_counter = 0, vs_last = 0\<rparr>"
  let ?a = "\<lparr>vg_shared = ?vs, vg_pcs = (\<lambda>_. Ready), vg_issued = []\<rparr>"
  let ?b = "\<lparr>vg_shared = \<lparr>vs_counter = 1, vs_last = 0\<rparr>, vg_pcs = (\<lambda>_. Ready)(0 := HasCandidate 2048), vg_issued = []\<rparr>"
  let ?c = "\<lparr>vg_shared = \<lparr>vs_counter = 1, vs_last = 0\<rparr>, vg_pcs = (\<lambda>_. Ready)(0 := Looping 2048 0), vg_issued = []\<rparr>"
  let ?d = "\<lparr>vg_shared = \<lparr>vs_counter = 1, vs_last = 2048\<rparr>, vg_pcs = (\<lambda>_. Ready)(0 := Returned 2048), vg_issued = [2048]\<rparr>"
  have "vg_step ?a ?b"
    using fetch_counter [of ?a 0 1]
    by (simp add: version_candidate_def VERSION_COUNTER_BITS_def VERSION_COUNTER_MASK_def)
  moreover have "vg_step ?b ?c" using load_last [of ?b 0 2048] by simp
  moreover have "vg_step ?c ?d" using cas_ok [of ?c 0 2048 0] by (simp add: bump_def)
  ultimately have r: "vg_reachable ?vs ?d" by (blast intro: vg_reachable.intros)
  then show ?thesis using versions_strictly_increase [OF r] by auto
qed

end
