(* ===== verification/Key_Tags.thy ===== *)
theory Key_Tags
  imports Prelude
begin

text \<open>
  \<^verbatim>\<open>embed/src/key_composer/tag.rs\<close>: the one-byte tags that separate the data
  structures inside a database, and the tags of the system domain behind a leading
  \<^verbatim>\<open>0xFF\<close>.
\<close>

datatype key_tag =
  RawString | HashMeta | HashData | ListMeta | ListData | SetMeta | SetData
  | ZSetMeta | ZSetScore | ZSetData | BloomMeta | BloomData | CuckooMeta | CuckooData
  | BitmapMeta | BitmapData | HllMeta | HllRaw | JsonMeta | JsonData | SortedIntMeta
  | SortedIntData | StreamMeta | StreamData | StreamGroup | StreamConsumer | StreamPel
  | TDigestMeta | TDigestData | TimeSeriesMeta | TimeSeriesData | FtSchema | FtAlias | FtIndex
  | FtData

fun tag_u8 :: "key_tag \<Rightarrow> u8" where
  "tag_u8 RawString = 0"
| "tag_u8 HashMeta = 1"
| "tag_u8 HashData = 2"
| "tag_u8 ListMeta = 3"
| "tag_u8 ListData = 4"
| "tag_u8 SetMeta = 5"
| "tag_u8 SetData = 6"
| "tag_u8 ZSetMeta = 7"
| "tag_u8 ZSetScore = 8"
| "tag_u8 ZSetData = 9"
| "tag_u8 BloomMeta = 10"
| "tag_u8 BloomData = 11"
| "tag_u8 CuckooMeta = 12"
| "tag_u8 CuckooData = 13"
| "tag_u8 BitmapMeta = 14"
| "tag_u8 BitmapData = 15"
| "tag_u8 HllMeta = 16"
| "tag_u8 HllRaw = 17"
| "tag_u8 JsonMeta = 18"
| "tag_u8 JsonData = 19"
| "tag_u8 SortedIntMeta = 20"
| "tag_u8 SortedIntData = 21"
| "tag_u8 StreamMeta = 22"
| "tag_u8 StreamData = 23"
| "tag_u8 StreamGroup = 24"
| "tag_u8 StreamConsumer = 25"
| "tag_u8 StreamPel = 26"
| "tag_u8 TDigestMeta = 27"
| "tag_u8 TDigestData = 28"
| "tag_u8 TimeSeriesMeta = 29"
| "tag_u8 TimeSeriesData = 30"
| "tag_u8 FtSchema = 31"
| "tag_u8 FtAlias = 32"
| "tag_u8 FtIndex = 33"
| "tag_u8 FtData = 34"

definition all_key_tags :: "key_tag list" where
  "all_key_tags =
    [RawString, HashMeta, HashData, ListMeta, ListData, SetMeta, SetData, ZSetMeta, ZSetScore,
     ZSetData, BloomMeta, BloomData, CuckooMeta, CuckooData, BitmapMeta, BitmapData, HllMeta,
     HllRaw, JsonMeta, JsonData, SortedIntMeta, SortedIntData, StreamMeta, StreamData,
     StreamGroup, StreamConsumer, StreamPel, TDigestMeta, TDigestData, TimeSeriesMeta,
     TimeSeriesData, FtSchema, FtAlias, FtIndex, FtData]"

text \<open>\<open>KeyTag::as_slice\<close>, and \<open>from_u8\<close> (the derived \<open>from_repr\<close>) with
  \<open>from_slice\<close>.\<close>

definition tag_slice :: "key_tag \<Rightarrow> bytes" where
  "tag_slice t = [tag_u8 t]"

definition tag_from_u8 :: "u8 \<Rightarrow> key_tag option" where
  "tag_from_u8 b = find (\<lambda>t. tag_u8 t = b) all_key_tags"

definition tag_from_slice :: "bytes \<Rightarrow> key_tag option" where
  "tag_from_slice s = (case s of [b] \<Rightarrow> tag_from_u8 b | _ \<Rightarrow> None)"

fun tag_type_name :: "key_tag \<Rightarrow> string" where
  "tag_type_name RawString = ''string''"
| "tag_type_name HashMeta = ''hash''"
| "tag_type_name HashData = ''hash''"
| "tag_type_name ListMeta = ''list''"
| "tag_type_name ListData = ''list''"
| "tag_type_name SetMeta = ''set''"
| "tag_type_name SetData = ''set''"
| "tag_type_name ZSetMeta = ''zset''"
| "tag_type_name ZSetScore = ''zset''"
| "tag_type_name ZSetData = ''zset''"
| "tag_type_name BloomMeta = ''MBbloom--''"
| "tag_type_name BloomData = ''MBbloom--''"
| "tag_type_name CuckooMeta = ''MBbloomCF''"
| "tag_type_name CuckooData = ''MBbloomCF''"
| "tag_type_name BitmapMeta = ''bitmap''"
| "tag_type_name BitmapData = ''bitmap''"
| "tag_type_name HllMeta = ''hyperloglog''"
| "tag_type_name HllRaw = ''hyperloglog''"
| "tag_type_name JsonMeta = ''ReJSON-RL''"
| "tag_type_name JsonData = ''ReJSON-RL''"
| "tag_type_name SortedIntMeta = ''sortedint''"
| "tag_type_name SortedIntData = ''sortedint''"
| "tag_type_name StreamMeta = ''stream''"
| "tag_type_name StreamData = ''stream''"
| "tag_type_name StreamGroup = ''stream''"
| "tag_type_name StreamConsumer = ''stream''"
| "tag_type_name StreamPel = ''stream''"
| "tag_type_name TDigestMeta = ''TDIS-TYPE''"
| "tag_type_name TDigestData = ''TDIS-TYPE''"
| "tag_type_name TimeSeriesMeta = ''timeseries''"
| "tag_type_name TimeSeriesData = ''timeseries''"
| "tag_type_name FtSchema = ''ft''"
| "tag_type_name FtAlias = ''ft''"
| "tag_type_name FtIndex = ''ft''"
| "tag_type_name FtData = ''ft''"

definition is_meta :: "key_tag \<Rightarrow> bool" where
  "is_meta t \<longleftrightarrow> t \<in> {HashMeta, ListMeta, SetMeta, ZSetMeta, BloomMeta, CuckooMeta, BitmapMeta, HllMeta, JsonMeta,
     SortedIntMeta, StreamMeta, TDigestMeta, TimeSeriesMeta, FtSchema, FtAlias}"

definition is_data :: "key_tag \<Rightarrow> bool" where
  "is_data t \<longleftrightarrow> t \<in> {HashData, ListData, SetData, ZSetScore, ZSetData, BloomData, CuckooData, BitmapData, HllRaw,
     JsonData, SortedIntData, StreamData, StreamGroup, StreamConsumer, StreamPel, TDigestData,
     TimeSeriesData, FtIndex, FtData}"

text \<open>\<open>ALL_COMPOSITE_META_TAGS\<close>: the order in which the key layer probes them.\<close>

definition composite_meta_tags :: "key_tag list" where
  "composite_meta_tags =
    [HashMeta, ListMeta, SetMeta, ZSetMeta, BloomMeta, CuckooMeta, BitmapMeta, HllMeta, JsonMeta,
     SortedIntMeta, StreamMeta, TDigestMeta, TimeSeriesMeta]"

datatype system_domain_tag = SysMeta | Catalog | TtlIndex | RaftState | Cluster

fun system_domain_u8 :: "system_domain_tag \<Rightarrow> u8" where
  "system_domain_u8 SysMeta = 1"
| "system_domain_u8 Catalog = 2"
| "system_domain_u8 TtlIndex = 3"
| "system_domain_u8 RaftState = 4"
| "system_domain_u8 Cluster = 5"

datatype sys_meta_tag = NsName | NsId | NsNextId | NsToken | DbNextId

fun sys_meta_u8 :: "sys_meta_tag \<Rightarrow> u8" where
  "sys_meta_u8 NsName = 1"
| "sys_meta_u8 NsId = 2"
| "sys_meta_u8 NsNextId = 3"
| "sys_meta_u8 NsToken = 4"
| "sys_meta_u8 DbNextId = 5"

section \<open>Tags and bytes\<close>

lemma tag_from_u8_tag [simp]: "tag_from_u8 (tag_u8 t) = Some t"
  by (cases t) (simp_all add: tag_from_u8_def all_key_tags_def)

lemma tag_from_u8_Some: "tag_from_u8 b = Some t \<longleftrightarrow> b = tag_u8 t"
proof
  assume "tag_from_u8 b = Some t"
  then show "b = tag_u8 t"
    by (auto simp: tag_from_u8_def find_Some_iff)
qed simp

lemma tag_u8_inject [simp]: "tag_u8 t = tag_u8 u \<longleftrightarrow> t = u"
  by (metis option.inject tag_from_u8_tag)

lemma length_tag_slice [simp]: "length (tag_slice t) = 1"
  by (simp add: tag_slice_def)

lemma tag_slice_inject [simp]: "tag_slice t = tag_slice u \<longleftrightarrow> t = u"
  by (simp add: tag_slice_def)

lemma tag_from_slice_slice [simp]: "tag_from_slice (tag_slice t) = Some t"
  by (simp add: tag_from_slice_def tag_slice_def)

text \<open>The code derives the order of tags from their discriminants.\<close>

instantiation key_tag :: linorder
begin

definition less_eq_key_tag :: "key_tag \<Rightarrow> key_tag \<Rightarrow> bool" where
  "less_eq_key_tag t u \<longleftrightarrow> tag_u8 t \<le> tag_u8 u"

definition less_key_tag :: "key_tag \<Rightarrow> key_tag \<Rightarrow> bool" where
  "less_key_tag t u \<longleftrightarrow> tag_u8 t < tag_u8 u"

instance
  by standard (auto simp: less_eq_key_tag_def less_key_tag_def order.strict_iff_order)

end

text \<open>Every tag is the raw string tag, a metadata tag or a data tag, and only one of them.\<close>

lemma tag_partition:
  "(t = RawString \<and> \<not> is_meta t \<and> \<not> is_data t) \<or>
   (t \<noteq> RawString \<and> (is_meta t \<longleftrightarrow> \<not> is_data t))"
  by (cases t) (simp_all add: is_meta_def is_data_def)

lemma composite_meta_is_meta: "t \<in> set composite_meta_tags \<Longrightarrow> is_meta t"
  by (auto simp: composite_meta_tags_def is_meta_def)

end
