(* ===== verification/Small_Key.thy ===== *)
theory Small_Key
  imports Prelude
begin

text \<open>
  \<^verbatim>\<open>embed/src/key_composer/small_key.rs\<close>: a key of at most 55 bytes is kept in a fixed
  buffer, a longer one in a vector. \<open>put\<close> is the slice assignment
  \<^verbatim>\<open>buf[i..i+n].copy_from_slice(bs)\<close>; where the code would panic, on a write past the end of
  the buffer, the bytes past the end are lost, so a builder that writes out of range does not
  write the key it is meant to write.
\<close>

definition INLINE_CAP :: nat where
  "INLINE_CAP = 55"

definition put :: "bytes \<Rightarrow> nat \<Rightarrow> bytes \<Rightarrow> bytes" where
  "put buf i bs = take (length buf) (take i buf @ bs @ drop (i + length bs) buf)"

datatype small_key = Inline (sk_buf: bytes) (sk_len: u8) | Heap bytes

definition sk_default :: small_key where
  "sk_default = Inline (replicate INLINE_CAP 0) 0"

definition sk_from_slice :: "bytes \<Rightarrow> small_key" where
  "sk_from_slice s =
     (if length s \<le> INLINE_CAP
      then Inline (put (replicate INLINE_CAP 0) 0 s) (word_of_nat (length s))
      else Heap s)"

fun sk_push :: "small_key \<Rightarrow> u8 \<Rightarrow> small_key" where
  "sk_push (Inline buf len) b =
     (let cur_len = unat len
      in if cur_len < INLINE_CAP then Inline (put buf cur_len [b]) (len + 1)
         else Heap (take cur_len buf @ [b]))"
| "sk_push (Heap v) b = Heap (v @ [b])"

fun sk_extend_from_slice :: "small_key \<Rightarrow> bytes \<Rightarrow> small_key" where
  "sk_extend_from_slice (Inline buf len) s =
     (let cur_len = unat len
      in if cur_len + length s \<le> INLINE_CAP
         then Inline (put buf cur_len s) (len + word_of_nat (length s))
         else Heap (take cur_len buf @ s))"
| "sk_extend_from_slice (Heap v) s = Heap (v @ s)"

fun sk_length :: "small_key \<Rightarrow> nat" where
  "sk_length (Inline buf len) = unat len"
| "sk_length (Heap v) = length v"

definition sk_is_empty :: "small_key \<Rightarrow> bool" where
  "sk_is_empty k \<longleftrightarrow> sk_length k = 0"

fun sk_clear :: "small_key \<Rightarrow> small_key" where
  "sk_clear (Inline buf len) = Inline buf 0"
| "sk_clear (Heap v) = Heap []"

fun as_bytes :: "small_key \<Rightarrow> bytes" where
  "as_bytes (Inline buf len) = take (unat len) buf"
| "as_bytes (Heap v) = v"

fun sk_into_vec :: "small_key \<Rightarrow> bytes" where
  "sk_into_vec (Inline buf len) = take (unat len) buf"
| "sk_into_vec (Heap v) = v"

definition sk_from_vec :: "bytes \<Rightarrow> small_key" where
  "sk_from_vec v = (if length v \<le> INLINE_CAP then sk_from_slice v else Heap v)"

definition sk_eq :: "small_key \<Rightarrow> small_key \<Rightarrow> bool" where
  "sk_eq a b \<longleftrightarrow> as_bytes a = as_bytes b"

definition sk_less_eq :: "small_key \<Rightarrow> small_key \<Rightarrow> bool" where
  "sk_less_eq a b \<longleftrightarrow> as_bytes a \<le> as_bytes b"

section \<open>The representation invariant and the byte string a key stands for\<close>

fun sk_ok :: "small_key \<Rightarrow> bool" where
  "sk_ok (Inline buf len) \<longleftrightarrow> length buf = INLINE_CAP \<and> unat len \<le> INLINE_CAP"
| "sk_ok (Heap v) \<longleftrightarrow> True"

lemma length_put [simp]: "length (put buf i bs) = length buf"
  by (simp add: put_def)

lemma take_put: "i + length bs \<le> length buf \<Longrightarrow> take (i + length bs) (put buf i bs) = take i buf @ bs"
  by (simp add: put_def)

lemma mod_256_inline: "n \<le> INLINE_CAP \<Longrightarrow> n mod 256 = n"
  by (simp add: INLINE_CAP_def)

lemma unat_plus_of_nat_u8:
  "unat (l :: u8) + n \<le> INLINE_CAP \<Longrightarrow> unat (l + word_of_nat n) = unat l + n"
  by (simp add: INLINE_CAP_def unat_word_ariths)

lemma unat_plus_one_u8: "unat (l :: u8) < INLINE_CAP \<Longrightarrow> unat (l + 1) = unat l + 1"
  using unat_plus_of_nat_u8 [of l 1] by (simp add: Suc_le_eq)

lemma sk_ok_default [simp]: "sk_ok sk_default"
  by (simp add: sk_default_def)

lemma as_bytes_default [simp]: "as_bytes sk_default = []"
  by (simp add: sk_default_def)

lemma sk_ok_from_slice [simp]: "sk_ok (sk_from_slice s)"
  by (simp add: sk_from_slice_def mod_256_inline)

lemma as_bytes_from_slice [simp]: "as_bytes (sk_from_slice s) = s"
  using take_put [of 0 s "replicate INLINE_CAP 0"]
  by (simp add: sk_from_slice_def mod_256_inline)

lemma sk_ok_push [simp]: "sk_ok k \<Longrightarrow> sk_ok (sk_push k b)"
  by (cases k) (simp_all add: Let_def unat_plus_one_u8)

lemma as_bytes_push [simp]: "sk_ok k \<Longrightarrow> as_bytes (sk_push k b) = as_bytes k @ [b]"
proof (cases k)
  case (Inline buf len)
  assume "sk_ok k"
  with Inline show ?thesis
    using take_put [of "unat len" "[b]" buf] by (simp add: Let_def unat_plus_one_u8)
qed simp

lemma sk_ok_extend [simp]: "sk_ok k \<Longrightarrow> sk_ok (sk_extend_from_slice k s)"
  by (cases k) (simp_all add: Let_def unat_plus_of_nat_u8)

lemma as_bytes_extend [simp]:
  "sk_ok k \<Longrightarrow> as_bytes (sk_extend_from_slice k s) = as_bytes k @ s"
proof (cases k)
  case (Inline buf len)
  assume "sk_ok k"
  with Inline show ?thesis
    using take_put [of "unat len" s buf] by (simp add: Let_def unat_plus_of_nat_u8)
qed simp

lemma sk_length_as_bytes: "sk_ok k \<Longrightarrow> sk_length k = length (as_bytes k)"
  by (cases k) simp_all

lemma sk_ok_clear [simp]: "sk_ok k \<Longrightarrow> sk_ok (sk_clear k)"
  by (cases k) simp_all

lemma as_bytes_clear [simp]: "as_bytes (sk_clear k) = []"
  by (cases k) simp_all

lemma sk_into_vec_as_bytes [simp]: "sk_into_vec k = as_bytes k"
  by (cases k) simp_all

lemma as_bytes_from_vec [simp]: "as_bytes (sk_from_vec v) = v"
  by (simp add: sk_from_vec_def)

end
