(* ===== verification/Key_Composer.thy ===== *)
theory Key_Composer
  imports Oppv Key_Tags Small_Key
begin

text \<open>
  \<^verbatim>\<open>embed/src/key_composer/composer.rs\<close>, \<^verbatim>\<open>ns.rs\<close> and the key builders of
  \<^verbatim>\<open>slot.rs\<close>: how a user key of a database of a namespace becomes a physical key.
  The buffers are filled the way the code fills them (stack array when the key fits, vector
  otherwise); the lemmas collected in \<open>key_simps\<close> show that every builder writes the plain
  concatenation of the parts, and the rest of the theory that physical keys of different
  user keys never meet.
\<close>

record key_composer =
  kc_ns :: u64
  kc_db :: u64

definition is_default :: "key_composer \<Rightarrow> bool" where
  "is_default kc \<longleftrightarrow> kc_ns kc = 0 \<and> kc_db kc = 0"

text \<open>\<open>encode_oppv_u64_slice(v, &mut buf[i..])\<close>: the buffer and the number of bytes written.\<close>

definition oppv_at :: "u64 \<Rightarrow> bytes \<Rightarrow> nat \<Rightarrow> bytes \<times> nat" where
  "oppv_at v buf i = (put buf i (oppv_bytes v), length (oppv_bytes v))"

section \<open>The subkey composer\<close>

record subkey_composer =
  sc_buf :: bytes
  sc_prefix_len :: nat

definition sc_from_slice :: "bytes \<Rightarrow> subkey_composer" where
  "sc_from_slice p = \<lparr>sc_buf = p, sc_prefix_len = length p\<rparr>"

text \<open>\<open>compose_sub\<close> truncates the buffer to the prefix and appends the subkey; it returns the
  whole buffer, which the composer keeps.\<close>

definition compose_sub :: "subkey_composer \<Rightarrow> bytes \<Rightarrow> subkey_composer \<times> bytes" where
  "compose_sub c subkey =
     (let b = take (sc_prefix_len c) (sc_buf c) @ subkey in (c\<lparr>sc_buf := b\<rparr>, b))"

definition compose_sub_u64_be :: "subkey_composer \<Rightarrow> u64 \<Rightarrow> subkey_composer \<times> bytes" where
  "compose_sub_u64_be c val =
     (let b = take (sc_prefix_len c) (sc_buf c) @ to_be64 val in (c\<lparr>sc_buf := b\<rparr>, b))"

definition sc_prefix :: "subkey_composer \<Rightarrow> bytes" where
  "sc_prefix c = take (sc_prefix_len c) (sc_buf c)"

text \<open>A composer made from a prefix answers \<open>prefix @ subkey\<close> however often it was used.\<close>

definition sc_for :: "bytes \<Rightarrow> subkey_composer \<Rightarrow> bool" where
  "sc_for p c \<longleftrightarrow> sc_prefix_len c = length p \<and> prefix p (sc_buf c)"

lemma sc_for_from_slice: "sc_for p (sc_from_slice p)"
  by (simp add: sc_for_def sc_from_slice_def)

lemma sc_for_compose:
  "sc_for p c \<Longrightarrow> sc_for p (fst (compose_sub c s)) \<and> snd (compose_sub c s) = p @ s"
  "sc_for p c \<Longrightarrow> sc_for p (fst (compose_sub_u64_be c v)) \<and> snd (compose_sub_u64_be c v) = p @ to_be64 v"
  by (auto simp: sc_for_def compose_sub_def compose_sub_u64_be_def Let_def prefix_def)

section \<open>Scoped prefixes and keys\<close>

definition scope_prefix_len :: "key_composer \<Rightarrow> nat" where
  "scope_prefix_len kc = 1 + oppv_len_u64 (kc_ns kc) + oppv_len_u64 (kc_db kc)"

definition encode_scope_prefix_fixed :: "key_composer \<Rightarrow> bytes \<Rightarrow> bytes \<times> nat" where
  "encode_scope_prefix_fixed kc buf =
     (let b0 = put buf 0 [0];
          (b1, len1) = oppv_at (kc_ns kc) b0 1;
          (b2, len2) = oppv_at (kc_db kc) b1 (1 + len1)
      in (b2, 1 + len1 + len2))"

definition encode_scope_prefix :: "key_composer \<Rightarrow> bytes \<Rightarrow> bytes" where
  "encode_scope_prefix kc buf =
     (let (tmp, len) = encode_scope_prefix_fixed kc (replicate 19 0) in buf @ take len tmp)"

definition encode_scope_prefix_small :: "key_composer \<Rightarrow> small_key \<Rightarrow> small_key" where
  "encode_scope_prefix_small kc sk =
     (let (buf, len) = encode_scope_prefix_fixed kc (replicate 19 0)
      in sk_extend_from_slice sk (take len buf))"

definition compose_meta_key_into :: "key_composer \<Rightarrow> bytes \<Rightarrow> bytes \<Rightarrow> bytes" where
  "compose_meta_key_into kc tag key =
     (if is_default kc \<and> length tag = 1 then [0, 0, 0, tag ! 0] @ key
      else encode_scope_prefix kc [] @ tag @ key)"

definition compose_meta_key_stack :: "key_composer \<Rightarrow> bytes \<Rightarrow> bytes \<Rightarrow> small_key" where
  "compose_meta_key_stack kc tag key =
     (if is_default kc \<and> length tag = 1 \<and> 4 + length key \<le> INLINE_CAP then
        (let b0 = put (replicate INLINE_CAP 0) 0 [0]; b1 = put b0 1 [0]; b2 = put b1 2 [0];
             b3 = put b2 3 [tag ! 0]; b4 = put b3 4 key
         in Inline b4 (word_of_nat (4 + length key)))
      else
        (let prefix_len = scope_prefix_len kc;
             total_len = prefix_len + length tag + length key
         in if total_len \<le> INLINE_CAP then
              (let b0 = put (replicate INLINE_CAP 0) 0 [0];
                   (b1, len1) = oppv_at (kc_ns kc) b0 1;
                   (b2, _) = oppv_at (kc_db kc) b1 (1 + len1);
                   tag_end = prefix_len + length tag;
                   b3 = put b2 prefix_len tag;
                   b4 = put b3 tag_end key
               in Inline b4 (word_of_nat total_len))
            else Heap (encode_scope_prefix kc [] @ tag @ key)))"

definition compose_prefix_into_with_extra :: "key_composer \<Rightarrow> bytes \<Rightarrow> bytes \<Rightarrow> bytes" where
  "compose_prefix_into_with_extra kc tag key =
     (if is_default kc \<and> length tag = 1 \<and> length key < 128
      then [0, 0, 0, tag ! 0, word_of_nat (length key)] @ key
      else encode_oppv_u64 (word_of_nat (length key)) (encode_scope_prefix kc [] @ tag) @ key)"

definition compose_prefix :: "key_composer \<Rightarrow> bytes \<Rightarrow> bytes \<Rightarrow> bytes" where
  "compose_prefix kc tag key = compose_prefix_into_with_extra kc tag key"

text \<open>Copying a list of slices one behind the other, from a cursor on.\<close>

fun put_slices :: "bytes \<Rightarrow> nat \<Rightarrow> bytes list \<Rightarrow> bytes" where
  "put_slices buf cursor [] = buf"
| "put_slices buf cursor (s # ss) = put_slices (put buf cursor s) (cursor + length s) ss"

definition try_compose_stack_key :: "key_composer \<Rightarrow> bytes \<Rightarrow> bytes \<Rightarrow> bytes list \<Rightarrow> small_key" where
  "try_compose_stack_key kc tag key extra_slices =
     (let extra = sum_list (map length extra_slices);
          key_len_oppv = oppv_len_u64 (word_of_nat (length key));
          heap = Heap (encode_oppv_u64 (word_of_nat (length key)) (encode_scope_prefix kc [] @ tag)
                       @ key @ concat extra_slices)
      in if is_default kc \<and> length tag = 1 \<and> length key < 128 then
           (let total_len = 5 + length key + extra
            in if total_len \<le> INLINE_CAP then
                 (let b0 = put (replicate INLINE_CAP 0) 0 [0]; b1 = put b0 1 [0]; b2 = put b1 2 [0];
                      b3 = put b2 3 [tag ! 0]; b4 = put b3 4 [word_of_nat (length key)];
                      b5 = put b4 5 key
                  in Inline (put_slices b5 (5 + length key) extra_slices) (word_of_nat total_len))
               else heap)
         else
           (let total_len = scope_prefix_len kc + length tag + key_len_oppv + length key + extra
            in if total_len \<le> INLINE_CAP then
                 (let (tmp, n) = encode_scope_prefix_fixed kc (replicate 19 0);
                      b0 = put (replicate INLINE_CAP 0) 0 (take n tmp);
                      b1 = put b0 n tag;
                      (b2, oppv_n) = oppv_at (word_of_nat (length key)) b1 (n + length tag);
                      c = n + length tag + oppv_n;
                      b3 = put b2 c key
                  in Inline (put_slices b3 (c + length key) extra_slices) (word_of_nat total_len))
               else heap))"

definition compose_prefix_stack :: "key_composer \<Rightarrow> bytes \<Rightarrow> bytes \<Rightarrow> small_key" where
  "compose_prefix_stack kc tag key = try_compose_stack_key kc tag key []"

definition compose_subkey_stack :: "key_composer \<Rightarrow> bytes \<Rightarrow> bytes \<Rightarrow> bytes \<Rightarrow> small_key" where
  "compose_subkey_stack kc tag key subkey = try_compose_stack_key kc tag key [subkey]"

definition compose_subkey2_stack ::
    "key_composer \<Rightarrow> bytes \<Rightarrow> bytes \<Rightarrow> bytes \<Rightarrow> bytes \<Rightarrow> small_key" where
  "compose_subkey2_stack kc tag key sub1 sub2 = try_compose_stack_key kc tag key [sub1, sub2]"

definition compose_oppv_subkey_stack ::
    "key_composer \<Rightarrow> bytes \<Rightarrow> bytes \<Rightarrow> bytes \<Rightarrow> bytes \<Rightarrow> small_key" where
  "compose_oppv_subkey_stack kc tag key mid sub =
     (let klen = word_of_nat (length key); mlen = word_of_nat (length mid);
          total_len = scope_prefix_len kc + length tag + oppv_len_u64 klen + length key
                      + oppv_len_u64 mlen + length mid + length sub
      in if total_len \<le> INLINE_CAP then
           (let (tmp, p_len) = encode_scope_prefix_fixed kc (replicate 19 0);
                b0 = put (replicate INLINE_CAP 0) 0 (take p_len tmp);
                b1 = put b0 p_len tag;
                c1 = p_len + length tag;
                (b2, n1) = oppv_at klen b1 c1;
                c2 = c1 + n1;
                b3 = put b2 c2 key;
                c3 = c2 + length key;
                (b4, n2) = oppv_at mlen b3 c3;
                c4 = c3 + n2;
                b5 = put b4 c4 mid;
                b6 = put b5 (c4 + length mid) sub
            in Inline b6 (word_of_nat total_len))
         else Heap (encode_oppv_u64 mlen
                      (encode_oppv_u64 klen (encode_scope_prefix kc [] @ tag) @ key) @ mid @ sub))"

definition compose_meta_prefix_stack :: "key_composer \<Rightarrow> bytes \<Rightarrow> small_key" where
  "compose_meta_prefix_stack kc tag =
     (if is_default kc \<and> length tag = 1 then
        (let b0 = put (replicate INLINE_CAP 0) 0 [0]; b1 = put b0 1 [0]; b2 = put b1 2 [0];
             b3 = put b2 3 [tag ! 0]
         in Inline b3 4)
      else
        (let (buf, prefix_len) = encode_scope_prefix_fixed kc (replicate 19 0)
         in sk_extend_from_slice (sk_extend_from_slice sk_default (take prefix_len buf)) tag))"

definition compose_meta_prefix :: "key_composer \<Rightarrow> bytes \<Rightarrow> bytes" where
  "compose_meta_prefix kc tag =
     (if is_default kc \<and> length tag = 1 then [0, 0, 0, tag ! 0]
      else encode_scope_prefix kc [] @ tag)"

definition namespace_prefix :: "key_composer \<Rightarrow> bytes" where
  "namespace_prefix kc = encode_scope_prefix kc []"

definition namespace_prefix_stack :: "key_composer \<Rightarrow> small_key" where
  "namespace_prefix_stack kc =
     (let (tmp, n) = encode_scope_prefix_fixed kc (replicate 19 0)
      in Inline (put (replicate INLINE_CAP 0) 0 (take n tmp)) (word_of_nat n))"

definition encode_ns_prefix_fixed :: "u64 \<Rightarrow> bytes \<Rightarrow> bytes \<times> nat" where
  "encode_ns_prefix_fixed ns_id buf =
     (let (b, n) = oppv_at ns_id (put buf 0 [0]) 1 in (b, 1 + n))"

definition ns_prefix :: "u64 \<Rightarrow> bytes" where
  "ns_prefix ns_id = encode_oppv_u64 ns_id [0]"

text \<open>Reading physical keys back.\<close>

definition parse_scoped_prefix :: "bytes \<Rightarrow> (key_composer \<times> nat \<times> bytes) option" where
  "parse_scoped_prefix full_key =
     (if length full_key < 3 \<or> full_key ! 0 \<noteq> 0 then None
      else case decode_oppv_u64 (drop 1 full_key) of
        None \<Rightarrow> None
      | Some (ns_id, c1) \<Rightarrow>
          if length full_key < 1 + c1 then None
          else case decode_oppv_u64 (drop (1 + c1) full_key) of
            None \<Rightarrow> None
          | Some (db, c2) \<Rightarrow>
              let prefix_len = 1 + c1 + c2
              in if length full_key > prefix_len
                 then Some (\<lparr>kc_ns = ns_id, kc_db = db\<rparr>, prefix_len, drop prefix_len full_key)
                 else None)"

definition is_key_in_ns :: "key_composer \<Rightarrow> bytes \<Rightarrow> bool" where
  "is_key_in_ns kc full_key =
     (let (buf, len) = encode_scope_prefix_fixed kc (replicate 19 0); p = take len buf
      in prefix p full_key \<and> length full_key > length p
         \<and> tag_from_u8 (full_key ! length p) \<noteq> None)"

definition whole_key_tags :: "key_tag list" where
  "whole_key_tags =
    [RawString, HashMeta, ListMeta, SetMeta, ZSetMeta, BloomMeta, CuckooMeta, BitmapMeta, HllMeta,
     HllRaw, JsonMeta, SortedIntMeta, StreamMeta, TDigestMeta, TimeSeriesMeta, FtSchema, FtAlias]"

definition extract_user_key :: "key_composer \<Rightarrow> bytes \<Rightarrow> bytes option" where
  "extract_user_key kc full_key =
     (let (buf, len) = encode_scope_prefix_fixed kc (replicate 19 0); p = take len buf
      in if \<not> prefix p full_key then None
         else let remain = drop len full_key
         in if remain = [] then None
            else case tag_from_u8 (remain ! 0) of
              None \<Rightarrow> None
            | Some tag \<Rightarrow>
                if tag \<in> set whole_key_tags then Some (drop 1 remain)
                else case decode_oppv_u64 (drop 1 remain) of
                  None \<Rightarrow> None
                | Some (key_len, consumed) \<Rightarrow>
                    let start = 1 + consumed; e = start + unat key_len
                    in if e < 2 ^ 64 \<and> e \<le> length remain
                       then Some (take (unat key_len) (drop start remain)) else None)"

definition transform_key_to_target_bytes :: "key_composer \<Rightarrow> bytes \<Rightarrow> key_composer \<Rightarrow> bytes option" where
  "transform_key_to_target_bytes kc full_key target_kc =
     (let (buf, len) = encode_scope_prefix_fixed kc (replicate 19 0); p = take len buf
      in if \<not> prefix p full_key then None
         else let rem = drop len full_key
         in if rem = [] \<or> tag_from_u8 (rem ! 0) = None then None
            else Some (encode_scope_prefix target_kc [] @ rem))"


section \<open>System-domain keys (\<^verbatim>\<open>ns.rs\<close>)\<close>

definition DEFAULT_NAMESPACE :: u64 where
  "DEFAULT_NAMESPACE = 0"

definition NS_NEXT_ID_KEY :: bytes where
  "NS_NEXT_ID_KEY = [0xFF, system_domain_u8 SysMeta, sys_meta_u8 NsNextId]"

definition CATALOG_PREFIX :: bytes where
  "CATALOG_PREFIX = [0xFF, system_domain_u8 Catalog]"

definition DB_NEXT_ID_PREFIX :: bytes where
  "DB_NEXT_ID_PREFIX = [0xFF, system_domain_u8 SysMeta, sys_meta_u8 DbNextId]"

definition encode_catalog_ns_prefix_fixed :: "u64 \<Rightarrow> bytes \<Rightarrow> bytes \<times> nat" where
  "encode_catalog_ns_prefix_fixed ns_id buf =
     (let b0 = put buf 0 [CATALOG_PREFIX ! 0]; b1 = put b0 1 [CATALOG_PREFIX ! 1];
          (b2, n) = oppv_at ns_id b1 2
      in (b2, 2 + n))"

definition catalog_ns_prefix :: "u64 \<Rightarrow> bytes" where
  "catalog_ns_prefix ns_id = encode_oppv_u64 ns_id CATALOG_PREFIX"

definition encode_catalog_db_key_fixed :: "u64 \<Rightarrow> u64 \<Rightarrow> bytes \<Rightarrow> bytes \<times> nat" where
  "encode_catalog_db_key_fixed ns_id db_id buf =
     (let b0 = put buf 0 [CATALOG_PREFIX ! 0]; b1 = put b0 1 [CATALOG_PREFIX ! 1];
          (b2, n1) = oppv_at ns_id b1 2;
          (b3, n2) = oppv_at db_id b2 (2 + n1)
      in (b3, 2 + n1 + n2))"

definition catalog_db_key :: "u64 \<Rightarrow> u64 \<Rightarrow> bytes" where
  "catalog_db_key ns_id db_id = encode_oppv_u64 db_id (encode_oppv_u64 ns_id CATALOG_PREFIX)"

definition encode_db_next_id_key_fixed :: "u64 \<Rightarrow> bytes \<Rightarrow> bytes \<times> nat" where
  "encode_db_next_id_key_fixed ns_id buf =
     (let b0 = put buf 0 [DB_NEXT_ID_PREFIX ! 0]; b1 = put b0 1 [DB_NEXT_ID_PREFIX ! 1];
          b2 = put b1 2 [DB_NEXT_ID_PREFIX ! 2];
          (b3, n) = oppv_at ns_id b2 3
      in (b3, 3 + n))"

definition db_next_id_key :: "u64 \<Rightarrow> bytes" where
  "db_next_id_key ns_id = encode_oppv_u64 ns_id DB_NEXT_ID_PREFIX"

definition is_default_namespace :: "u64 \<Rightarrow> bool" where
  "is_default_namespace ns_id \<longleftrightarrow> ns_id = DEFAULT_NAMESPACE"

section \<open>Closed forms\<close>

text \<open>What the buffers hold: the plain concatenation of the parts.\<close>

definition scope :: "key_composer \<Rightarrow> bytes" where
  "scope kc = 0 # oppv_bytes (kc_ns kc) @ oppv_bytes (kc_db kc)"

definition framed :: "bytes \<Rightarrow> bytes" where
  "framed b = oppv_bytes (word_of_nat (length b)) @ b"

lemma put_0: "length bs \<le> length buf \<Longrightarrow> put buf 0 bs = bs @ drop (length bs) buf"
  by (simp add: put_def)

lemma put_append: "length xs \<le> i \<Longrightarrow> put (xs @ buf) i bs = xs @ put buf (i - length xs) bs"
  by (simp add: put_def)

lemma put_Cons: "0 < i \<Longrightarrow> put (x # buf) i bs = x # put buf (i - 1) bs"
  by (cases i) (simp_all add: put_def)

lemmas put_simps = put_0 put_append put_Cons

lemma put_slices_eq:
  "sum_list (map length ss) \<le> length buf \<Longrightarrow> put_slices (xs @ buf) (length xs) ss
     = xs @ concat ss @ drop (sum_list (map length ss)) buf"
proof (induction ss arbitrary: xs buf)
  case (Cons s ss)
  have "put_slices (xs @ buf) (length xs) (s # ss)
          = put_slices ((xs @ s) @ drop (length s) buf) (length (xs @ s)) ss"
    using Cons.prems by (simp add: put_simps)
  also have "\<dots> = (xs @ s) @ concat ss @ drop (sum_list (map length ss)) (drop (length s) buf)"
    by (rule Cons.IH) (use Cons.prems in \<open>simp\<close>)
  finally show ?case by (simp add: add.commute)
qed simp

lemma length_scope: "length (scope kc) = scope_prefix_len kc"
  by (simp add: scope_def scope_prefix_len_def)

lemma scope_prefix_len_le: "scope_prefix_len kc \<le> 19"
  using oppv_len_bounds(2) [of "kc_ns kc"] oppv_len_bounds(2) [of "kc_db kc"]
  by (simp add: scope_prefix_len_def)

lemma scope_default: "is_default kc \<Longrightarrow> scope kc = [0, 0, 0]"
  by (simp add: scope_def is_default_def oppv_bytes_def)

lemma length_concat_slices: "length (concat ss) = sum_list (map length ss)"
  by (simp add: length_concat)

lemma encode_scope_prefix_fixed_eq:
  "19 \<le> length buf \<Longrightarrow> encode_scope_prefix_fixed kc buf
     = (scope kc @ drop (scope_prefix_len kc) buf, scope_prefix_len kc)"
  using scope_prefix_len_le [of kc] by (simp add: encode_scope_prefix_fixed_def oppv_at_def put_simps scope_def
      scope_prefix_len_def Let_def drop_Cons' ac_simps)

lemma scope_prefix_fixed_19:
  "encode_scope_prefix_fixed kc (replicate 19 0)
     = (scope kc @ replicate (19 - scope_prefix_len kc) 0, scope_prefix_len kc)"
  by (simp add: encode_scope_prefix_fixed_eq drop_replicate)

lemma encode_scope_prefix_eq [key_simps]: "encode_scope_prefix kc buf = buf @ scope kc"
  by (simp add: encode_scope_prefix_def scope_prefix_fixed_19 length_scope Let_def)

lemma encode_scope_prefix_small_eq [key_simps]:
  "sk_ok sk \<Longrightarrow> as_bytes (encode_scope_prefix_small kc sk) = as_bytes sk @ scope kc"
  by (simp add: encode_scope_prefix_small_def scope_prefix_fixed_19 length_scope)

text \<open>A tag of one byte is the list of its first byte.\<close>

lemma single_tag: "length tag = Suc 0 \<Longrightarrow> [tag ! 0] = tag" "length tag = Suc 0 \<Longrightarrow> tag ! 0 # xs = tag @ xs"
  by (cases tag; simp)+

text \<open>The inline representation of a byte string of the right length.\<close>

lemma inline_of:
  "buf = bs @ replicate (INLINE_CAP - length bs) 0 \<Longrightarrow> length bs \<le> INLINE_CAP \<Longrightarrow> n = length bs
    \<Longrightarrow> as_bytes (Inline buf (word_of_nat n)) = bs \<and> sk_ok (Inline buf (word_of_nat n))"
  by (simp add: mod_256_inline)

lemma compose_meta_key_into_eq [key_simps]: "compose_meta_key_into kc tag key = scope kc @ tag @ key"
  by (auto simp: compose_meta_key_into_def scope_default encode_scope_prefix_eq single_tag)

lemma compose_meta_key_stack_ok:
  "as_bytes (compose_meta_key_stack kc tag key) = scope kc @ tag @ key
     \<and> sk_ok (compose_meta_key_stack kc tag key)"
proof -
  let ?L = "scope_prefix_len kc + length tag + length key"
  consider (fast) "is_default kc \<and> length tag = 1 \<and> 4 + length key \<le> INLINE_CAP"
    | (inl) "\<not> (is_default kc \<and> length tag = 1 \<and> 4 + length key \<le> INLINE_CAP)" "?L \<le> INLINE_CAP"
    | (heap) "\<not> (is_default kc \<and> length tag = 1 \<and> 4 + length key \<le> INLINE_CAP)" "\<not> ?L \<le> INLINE_CAP"
    by blast
  then show ?thesis
  proof cases
    case fast
    then show ?thesis
      unfolding compose_meta_key_stack_def Let_def if_P [OF fast]
      using fast
      by (intro inline_of) (simp_all add: scope_default put_simps single_tag drop_replicate INLINE_CAP_def)
  next
    case inl
    then show ?thesis
      unfolding compose_meta_key_stack_def Let_def if_not_P [OF inl(1)] if_P [OF inl(2)] oppv_at_def
        prod.case
      using inl(2)
      by (intro inline_of)
        (simp_all add: put_simps drop_replicate scope_def scope_prefix_len_def)
  next
    case heap
    then show ?thesis
      unfolding compose_meta_key_stack_def Let_def if_not_P [OF heap(1)] if_not_P [OF heap(2)]
      by (simp add: encode_scope_prefix_eq)
  qed
qed

lemmas compose_meta_key_stack_simps [key_simps, simp] =
  compose_meta_key_stack_ok [THEN conjunct1] compose_meta_key_stack_ok [THEN conjunct2]

lemma framed_append: "framed b @ xs = oppv_bytes (word_of_nat (length b)) @ b @ xs"
  by (simp add: framed_def)

lemma short_key_frame:
  assumes "length key < 128"
  shows "framed key = word_of_nat (length key) # key"
    and "oppv_len_u64 (word_of_nat (length key)) = 1"
proof -
  have u: "unat (word_of_nat (length key) :: u64) = length key"
    using assms by (simp add: unat_of_nat)
  then have "(word_of_nat (length key) :: u64) < 0x80"
    using assms by (simp add: word_less_nat_alt)
  moreover have "(ucast (word_of_nat (length key) :: u64) :: u8) = word_of_nat (length key)"
    using assms by (simp add: word_unat_eq_iff unat_ucast_u8 u)
  ultimately show "framed key = word_of_nat (length key) # key"
    "oppv_len_u64 (word_of_nat (length key)) = 1"
    by (simp_all add: framed_def oppv_bytes_def oppv_len_u64_def)
qed

lemma compose_prefix_eq [key_simps]: "compose_prefix kc tag key = scope kc @ tag @ framed key"
  by (auto simp: compose_prefix_def compose_prefix_into_with_extra_def scope_default
      encode_scope_prefix_eq single_tag short_key_frame) (simp_all add: framed_def)

lemma try_compose_stack_key_ok:
  "as_bytes (try_compose_stack_key kc tag key ss) = scope kc @ tag @ framed key @ concat ss
     \<and> sk_ok (try_compose_stack_key kc tag key ss)"
proof -
  let ?fast = "is_default kc \<and> length tag = 1 \<and> length key < 128"
  let ?e = "sum_list (map length ss)"
  let ?F = "5 + length key + ?e"
  let ?L = "scope_prefix_len kc + length tag + oppv_len_u64 (word_of_nat (length key))
      + length key + ?e"
  consider (fast) ?fast "?F \<le> INLINE_CAP" | (fast_heap) ?fast "\<not> ?F \<le> INLINE_CAP"
    | (inl) "\<not> ?fast" "?L \<le> INLINE_CAP" | (heap) "\<not> ?fast" "\<not> ?L \<le> INLINE_CAP"
    by blast
  then show ?thesis
  proof cases
    case fast
    let ?B = "[0, 0, 0, tag ! 0, word_of_nat (length key)] @ key"
    have b: "put (put (put (put (put (put (replicate INLINE_CAP 0) 0 [0]) 1 [0]) 2 [0]) 3 [tag ! 0])
        4 [word_of_nat (length key)]) 5 key = ?B @ replicate (INLINE_CAP - 5 - length key) 0"
      using fast(2) by (simp add: put_simps drop_replicate)
    have p: "put_slices (?B @ replicate (INLINE_CAP - 5 - length key) 0) (5 + length key) ss
        = ?B @ concat ss @ replicate (INLINE_CAP - 5 - length key - ?e) 0"
    proof -
      have l: "length ?B = 5 + length key" by simp
      show ?thesis
        using put_slices_eq [of ss "replicate (INLINE_CAP - 5 - length key) 0" ?B]
        fast(2) unfolding l by (simp add: drop_replicate)
    qed
    show ?thesis
      unfolding try_compose_stack_key_def Let_def if_P [OF fast(1)] if_P [OF fast(2)] b p
      using fast
      by (intro inline_of) (simp_all add: scope_default single_tag short_key_frame length_concat_slices)
  next
    case fast_heap
    then show ?thesis
      unfolding try_compose_stack_key_def Let_def if_P [OF fast_heap(1)] if_not_P [OF fast_heap(2)]
      by (simp add: encode_scope_prefix_eq framed_def)
  next
    case inl
    let ?B = "scope kc @ tag @ framed key"
    let ?n = "scope_prefix_len kc" and ?o = "oppv_len_u64 (word_of_nat (length key))"
    have lB: "length ?B = ?n + length tag + ?o + length key"
      by (simp add: framed_def length_scope)
    have b: "put (put (put (put (replicate INLINE_CAP 0) 0 (scope kc)) ?n tag) (?n + length tag)
        (oppv_bytes (word_of_nat (length key)))) (?n + length tag + ?o) key
        = ?B @ replicate (INLINE_CAP - length ?B) 0"
      using inl(2) by (simp add: put_simps drop_replicate framed_append length_scope lB)
         (simp add: framed_def)
    have p: "put_slices (?B @ replicate (INLINE_CAP - length ?B) 0) (length ?B) ss
        = ?B @ concat ss @ replicate (INLINE_CAP - length ?B - ?e) 0"
      using put_slices_eq [of ss "replicate (INLINE_CAP - length ?B) 0" ?B] inl(2)
      unfolding lB by (simp add: drop_replicate)
    have t: "take ?n (scope kc @ xs) = scope kc" for xs
      by (simp add: length_scope)
    have L: "length ?B + ?e \<le> INLINE_CAP"
      unfolding lB by (rule inl(2))
    show ?thesis
      unfolding try_compose_stack_key_def Let_def if_not_P [OF inl(1)]
        scope_prefix_fixed_19 oppv_at_def prod.case t length_oppv_bytes b lB [symmetric] p
        if_P [OF L]
      using L
      by (intro inline_of) (simp_all add: length_concat_slices)
  next
    case heap
    then show ?thesis
      unfolding try_compose_stack_key_def Let_def if_not_P [OF heap(1)] if_not_P [OF heap(2)]
      by (simp add: encode_scope_prefix_eq framed_def)
  qed
qed

lemmas try_compose_stack_key_simps [key_simps, simp] =
  try_compose_stack_key_ok [THEN conjunct1] try_compose_stack_key_ok [THEN conjunct2]

lemma compose_stack_eq [key_simps, simp]:
  "as_bytes (compose_prefix_stack kc tag key) = scope kc @ tag @ framed key"
  "as_bytes (compose_subkey_stack kc tag key s) = scope kc @ tag @ framed key @ s"
  "as_bytes (compose_subkey2_stack kc tag key s t) = scope kc @ tag @ framed key @ s @ t"
  by (simp_all add: compose_prefix_stack_def compose_subkey_stack_def compose_subkey2_stack_def)

lemma compose_stack_ok [simp]:
  "sk_ok (compose_prefix_stack kc tag key)" "sk_ok (compose_subkey_stack kc tag key s)"
  "sk_ok (compose_subkey2_stack kc tag key s t)"
  by (simp_all add: compose_prefix_stack_def compose_subkey_stack_def compose_subkey2_stack_def)

lemma compose_oppv_subkey_stack_ok:
  "as_bytes (compose_oppv_subkey_stack kc tag key mid sub)
      = scope kc @ tag @ framed key @ framed mid @ sub
     \<and> sk_ok (compose_oppv_subkey_stack kc tag key mid sub)"
proof -
  let ?k = "word_of_nat (length key) :: u64" and ?m = "word_of_nat (length mid) :: u64"
  let ?L = "scope_prefix_len kc + length tag + oppv_len_u64 ?k + length key + oppv_len_u64 ?m
      + length mid + length sub"
  show ?thesis
  proof (cases "?L \<le> INLINE_CAP")
    case True
    have t: "take (scope_prefix_len kc) (scope kc @ xs) = scope kc" for xs
      by (simp add: length_scope)
    show ?thesis
      unfolding compose_oppv_subkey_stack_def Let_def if_P [OF True] scope_prefix_fixed_19
        oppv_at_def prod.case t length_oppv_bytes
      using True
      by (intro inline_of)
        (simp_all add: put_simps drop_replicate framed_def length_scope)
  next
    case False
    then show ?thesis
      unfolding compose_oppv_subkey_stack_def Let_def if_not_P [OF False]
      by (simp add: encode_scope_prefix_eq framed_append)
  qed
qed

lemmas compose_oppv_subkey_stack_simps [key_simps, simp] =
  compose_oppv_subkey_stack_ok [THEN conjunct1] compose_oppv_subkey_stack_ok [THEN conjunct2]

lemma compose_meta_prefix_stack_ok [simp]:
  "as_bytes (compose_meta_prefix_stack kc tag) = scope kc @ tag \<and> sk_ok (compose_meta_prefix_stack kc tag)"
proof (cases "is_default kc \<and> length tag = 1")
  case True
  then show ?thesis
    using inline_of [of _ "[0, 0, 0, tag ! 0]" 4]
    by (simp add: compose_meta_prefix_stack_def scope_default put_simps single_tag drop_replicate
        INLINE_CAP_def)
next
  case False
  then show ?thesis
    unfolding compose_meta_prefix_stack_def if_not_P [OF False]
    by (simp add: scope_prefix_fixed_19 length_scope)
qed

lemma compose_meta_prefix_eq [key_simps]: "compose_meta_prefix kc tag = scope kc @ tag"
  by (auto simp: compose_meta_prefix_def scope_default encode_scope_prefix_eq single_tag)

lemma namespace_prefix_eq [key_simps]: "namespace_prefix kc = scope kc"
  by (simp add: namespace_prefix_def encode_scope_prefix_eq)

lemma namespace_prefix_stack_ok [simp]:
  "as_bytes (namespace_prefix_stack kc) = scope kc \<and> sk_ok (namespace_prefix_stack kc)"
proof -
  have t: "take (scope_prefix_len kc) (scope kc @ xs) = scope kc" for xs
    by (simp add: length_scope)
  show ?thesis
    unfolding namespace_prefix_stack_def scope_prefix_fixed_19 prod.case Let_def t
    using scope_prefix_len_le [of kc]
    by (intro inline_of) (simp_all add: put_simps drop_replicate length_scope INLINE_CAP_def)
qed

lemma ns_prefix_eq [key_simps]: "ns_prefix n = 0 # oppv_bytes n"
  by (simp add: ns_prefix_def)

lemma encode_ns_prefix_fixed_eq:
  "length buf = 10 \<Longrightarrow>
     take (snd (encode_ns_prefix_fixed n buf)) (fst (encode_ns_prefix_fixed n buf)) = ns_prefix n"
  using oppv_len_bounds(2) [of n] by (simp add: encode_ns_prefix_fixed_def oppv_at_def put_simps ns_prefix_eq)

lemma catalog_keys_eq [key_simps]:
  "catalog_ns_prefix n = CATALOG_PREFIX @ oppv_bytes n"
  "catalog_db_key n d = CATALOG_PREFIX @ oppv_bytes n @ oppv_bytes d"
  "db_next_id_key n = DB_NEXT_ID_PREFIX @ oppv_bytes n"
  by (simp_all add: catalog_ns_prefix_def catalog_db_key_def db_next_id_key_def)

lemma catalog_fixed_eq:
  "11 \<le> length buf \<Longrightarrow>
     take (snd (encode_catalog_ns_prefix_fixed n buf)) (fst (encode_catalog_ns_prefix_fixed n buf))
     = catalog_ns_prefix n"
  "20 \<le> length buf \<Longrightarrow>
     take (snd (encode_catalog_db_key_fixed n d buf)) (fst (encode_catalog_db_key_fixed n d buf))
     = catalog_db_key n d"
  "12 \<le> length buf \<Longrightarrow>
     take (snd (encode_db_next_id_key_fixed n buf)) (fst (encode_db_next_id_key_fixed n buf))
     = db_next_id_key n"
  using oppv_len_bounds(2) [of n] oppv_len_bounds(2) [of d]
  by (simp_all add: encode_catalog_ns_prefix_fixed_def encode_catalog_db_key_fixed_def
      encode_db_next_id_key_fixed_def oppv_at_def put_simps catalog_keys_eq CATALOG_PREFIX_def
      DB_NEXT_ID_PREFIX_def take_Cons')

section \<open>Physical keys never meet by accident\<close>

lemma scope_append_inject [simp]: "scope a @ xs = scope b @ ys \<longleftrightarrow> a = b \<and> xs = ys"
  by (cases a; cases b) (auto simp: scope_def)

lemma scope_inject [simp]: "scope a = scope b \<longleftrightarrow> a = b"
  using scope_append_inject [of a "[]" b "[]"] by simp

lemma prefix_scope_append [simp]:
  "prefix (scope a @ xs) (scope b @ ys) \<longleftrightarrow> a = b \<and> prefix xs ys"
  by (auto simp: prefix_def)

lemma prefix_scope [simp]: "prefix (scope a) (scope b @ ys) \<longleftrightarrow> a = b"
  using prefix_scope_append [of a "[]" b ys] by simp

text \<open>A user key shorter than \<open>2\<^sup>6\<^sup>4\<close> bytes, as every key in memory is.\<close>

abbreviation key_fits :: "bytes \<Rightarrow> bool" where
  "key_fits key \<equiv> length key < 18446744073709551616"

lemma unat_key_fits: "key_fits key \<Longrightarrow> unat (word_of_nat (length key) :: u64) = length key"
  by (simp add: unat_of_nat)

lemma framed_append_inject [simp]:
  assumes "key_fits a" and "key_fits b"
  shows "framed a @ xs = framed b @ ys \<longleftrightarrow> a = b \<and> xs = ys"
proof
  assume "framed a @ xs = framed b @ ys"
  then have w: "(word_of_nat (length a) :: u64) = word_of_nat (length b)" and e: "a @ xs = b @ ys"
    unfolding framed_append oppv_append_inject by blast+
  from w have "unat (word_of_nat (length a) :: u64) = unat (word_of_nat (length b) :: u64)"
    by (rule arg_cong)
  with assms have "length a = length b" by (simp only: unat_key_fits)
  with e show "a = b \<and> xs = ys" by simp
qed simp

lemma prefix_framed_append:
  "key_fits a \<Longrightarrow> key_fits b \<Longrightarrow> prefix (framed a @ xs) (framed b @ ys) \<longleftrightarrow> a = b \<and> prefix xs ys"
  by (auto simp: prefix_def)

text \<open>The prefix of the subkeys of one user key, of one structure, in one database.\<close>

definition subkey_prefix :: "key_composer \<Rightarrow> key_tag \<Rightarrow> bytes \<Rightarrow> bytes" where
  "subkey_prefix kc t key = scope kc @ tag_slice t @ framed key"

definition meta_key :: "key_composer \<Rightarrow> key_tag \<Rightarrow> bytes \<Rightarrow> bytes" where
  "meta_key kc t key = scope kc @ tag_slice t @ key"

lemma meta_key_inject [simp]: "meta_key a t k = meta_key b u l \<longleftrightarrow> a = b \<and> t = u \<and> k = l"
  by (auto simp: meta_key_def tag_slice_def)

lemma prefix_subkey_prefix:
  "key_fits k \<Longrightarrow> key_fits l \<Longrightarrow>
     prefix (subkey_prefix a t k) (subkey_prefix b u l @ xs) \<longleftrightarrow> a = b \<and> t = u \<and> k = l"
  using prefix_framed_append [of k l "[]" xs] by (auto simp: subkey_prefix_def tag_slice_def)

lemma subkey_inject [simp]:
  "key_fits k \<Longrightarrow> key_fits l \<Longrightarrow>
     subkey_prefix a t k @ xs = subkey_prefix b u l @ ys \<longleftrightarrow> a = b \<and> t = u \<and> k = l \<and> xs = ys"
  by (auto simp: subkey_prefix_def tag_slice_def)

lemma meta_not_subkey:
  "t \<noteq> u \<Longrightarrow> meta_key a t k \<noteq> subkey_prefix b u l @ xs"
  by (auto simp: meta_key_def subkey_prefix_def tag_slice_def)

lemma prefix_meta_key: "prefix (subkey_prefix a t k) (meta_key b u l) \<Longrightarrow> a = b \<and> t = u"
  by (auto simp: meta_key_def subkey_prefix_def tag_slice_def)

text \<open>User keys start with a zero byte, system keys with \<open>0xFF\<close>.\<close>

lemma scope_not_system [simp]:
  "scope kc @ xs \<noteq> CATALOG_PREFIX @ ys" "scope kc @ xs \<noteq> DB_NEXT_ID_PREFIX @ ys"
  "CATALOG_PREFIX @ ys \<noteq> scope kc @ xs" "DB_NEXT_ID_PREFIX @ ys \<noteq> scope kc @ xs"
  "CATALOG_PREFIX @ ys \<noteq> DB_NEXT_ID_PREFIX @ zs" "DB_NEXT_ID_PREFIX @ ys \<noteq> CATALOG_PREFIX @ zs"
  by (simp_all add: scope_def CATALOG_PREFIX_def DB_NEXT_ID_PREFIX_def)

lemma catalog_db_key_inject [simp]: "catalog_db_key n d = catalog_db_key m e \<longleftrightarrow> n = m \<and> d = e"
  by (simp add: catalog_keys_eq)

section \<open>Reading keys back\<close>

lemma length_scope_append: "length (scope kc @ xs) = scope_prefix_len kc + length xs"
  by (simp add: length_scope)

lemma scope_prefix_len_ge: "3 \<le> scope_prefix_len kc"
  using oppv_len_bounds(1) [of "kc_ns kc"] oppv_len_bounds(1) [of "kc_db kc"]
  by (simp add: scope_prefix_len_def)

lemma parse_scoped_prefix_scope:
  assumes "r \<noteq> []"
  shows "parse_scoped_prefix (scope kc @ r) = Some (kc, scope_prefix_len kc, r)"
proof -
  let ?n = "oppv_bytes (kc_ns kc)" and ?d = "oppv_bytes (kc_db kc)"
  have 0: "scope kc @ r = 0 # ?n @ ?d @ r" by (simp add: scope_def)
  have 1: "drop 1 (scope kc @ r) = ?n @ ?d @ r" by (simp add: 0)
  have 2: "drop (1 + oppv_len_u64 (kc_ns kc)) (scope kc @ r) = ?d @ r" by (simp add: 0)
  have 3: "drop (1 + oppv_len_u64 (kc_ns kc) + oppv_len_u64 (kc_db kc)) (scope kc @ r) = r"
    by (simp add: 0)
  have l: "\<not> length (scope kc @ r) < 3"
    using scope_prefix_len_ge [of kc] by (simp add: length_scope)
  have h: "(scope kc @ r) ! 0 = 0" by (simp add: 0)
  have c: "\<not> length (scope kc @ r) < 1 + oppv_len_u64 (kc_ns kc)" by (simp add: 0)
  have e: "1 + oppv_len_u64 (kc_ns kc) + oppv_len_u64 (kc_db kc) < length (scope kc @ r)"
    using assms by (simp add: 0)
  show ?thesis
    unfolding parse_scoped_prefix_def 1 decode_oppv_append option.case prod.case 2 Let_def 3 h
    using l c e by (simp add: scope_prefix_len_def)
qed

text \<open>The functions that look behind their own scope prefix.\<close>

lemma extract_user_key_scope:
  "extract_user_key kc (scope kc @ r) =
     (if r = [] then None
      else case tag_from_u8 (r ! 0) of
        None \<Rightarrow> None
      | Some tag \<Rightarrow>
          if tag \<in> set whole_key_tags then Some (drop 1 r)
          else case decode_oppv_u64 (drop 1 r) of
            None \<Rightarrow> None
          | Some (key_len, consumed) \<Rightarrow>
              if 1 + consumed + unat key_len < 2 ^ 64 \<and> 1 + consumed + unat key_len \<le> length r
              then Some (take (unat key_len) (drop (1 + consumed) r)) else None)"
proof -
  have t: "take (scope_prefix_len kc) (scope kc @ xs) = scope kc" for xs
    by (simp add: length_scope)
  have d: "drop (scope_prefix_len kc) (scope kc @ r) = r" by (simp add: length_scope)
  show ?thesis
    unfolding extract_user_key_def scope_prefix_fixed_19 prod.case Let_def t d by simp
qed

lemma extract_user_key_other: "\<not> prefix (scope kc) k \<Longrightarrow> extract_user_key kc k = None"
  by (simp add: extract_user_key_def scope_prefix_fixed_19 length_scope Let_def)

lemma extract_meta_key:
  "t \<in> set whole_key_tags \<Longrightarrow> extract_user_key kc (meta_key kc t key) = Some key"
  by (simp add: meta_key_def extract_user_key_scope tag_slice_def)

lemma extract_subkey:
  assumes "t \<notin> set whole_key_tags" and "1 + 9 + length key < 2 ^ 64"
  shows "extract_user_key kc (subkey_prefix kc t key @ sub) = Some key"
proof -
  let ?w = "word_of_nat (length key) :: u64"
  have u: "unat ?w = length key" using assms by (simp add: unat_of_nat)
  have "1 + oppv_len_u64 ?w + length key < 2 ^ 64"
    using assms(2) oppv_len_bounds(2) [of ?w] by linarith
  then show ?thesis
    using assms(1)
    by (simp add: subkey_prefix_def extract_user_key_scope tag_slice_def framed_append
        decode_oppv_append u)
qed

lemma transform_key_scope:
  "transform_key_to_target_bytes kc (scope kc @ r) target
     = (if r = [] \<or> tag_from_u8 (r ! 0) = None then None else Some (scope target @ r))"
proof -
  have t: "take (scope_prefix_len kc) (scope kc @ xs) = scope kc" for xs
    by (simp add: length_scope)
  have d: "drop (scope_prefix_len kc) (scope kc @ r) = r" by (simp add: length_scope)
  show ?thesis
    unfolding transform_key_to_target_bytes_def scope_prefix_fixed_19 prod.case Let_def t d
    by (simp add: encode_scope_prefix_eq)
qed

lemma is_key_in_ns_iff:
  "is_key_in_ns kc k \<longleftrightarrow> (\<exists>t r. k = scope kc @ tag_slice t @ r)"
proof -
  have t: "take (scope_prefix_len kc) (scope kc @ xs) = scope kc" for xs
    by (simp add: length_scope)
  show ?thesis
    unfolding is_key_in_ns_def scope_prefix_fixed_19 prod.case Let_def t
  proof (intro iffI conjI)
    assume *: "prefix (scope kc) k \<and> length (scope kc) < length k \<and> tag_from_u8 (k ! length (scope kc)) \<noteq> None"
    then obtain r where k: "k = scope kc @ r" by (auto simp: prefix_def)
    with * obtain b s where "r = b # s" by (cases r) auto
    with * k show "\<exists>t r. k = scope kc @ tag_slice t @ r"
      by (auto simp: tag_from_u8_Some tag_slice_def nth_append)
  qed (auto simp: tag_slice_def nth_append)
qed

section \<open>Properties\<close>

text \<open>C13: the stack builders and the vector builders write the same key: whichever of the
  inline buffer, the default-database shortcut or the heap vector is taken, the result is the
  concatenation of the parts. Every stack builder keeps the inline buffer at its 55 bytes and its
  length within them; bytes written past the end of the buffer would be lost (\<open>put\<close>), so the
  equalities also show that no write is out of range, nor one of the 19-byte scope buffer.\<close>

theorem stack_keys_agree:
  "as_bytes (compose_meta_key_stack kc tag key) = compose_meta_key_into kc tag key
     \<and> as_bytes (compose_prefix_stack kc tag key) = compose_prefix kc tag key
     \<and> as_bytes (compose_subkey_stack kc tag key sub) = compose_prefix kc tag key @ sub
     \<and> as_bytes (compose_subkey2_stack kc tag key sub sub2) = compose_prefix kc tag key @ sub @ sub2
     \<and> as_bytes (compose_oppv_subkey_stack kc tag key mid sub)
         = compose_prefix kc tag key @ oppv_bytes (word_of_nat (length mid)) @ mid @ sub
     \<and> as_bytes (compose_meta_prefix_stack kc tag) = compose_meta_prefix kc tag
     \<and> as_bytes (namespace_prefix_stack kc) = namespace_prefix kc
     \<and> sk_ok (compose_meta_key_stack kc tag key) \<and> sk_ok (compose_prefix_stack kc tag key)
     \<and> sk_ok (compose_subkey_stack kc tag key sub) \<and> sk_ok (compose_subkey2_stack kc tag key sub sub2)
     \<and> sk_ok (compose_oppv_subkey_stack kc tag key mid sub)
     \<and> sk_ok (compose_meta_prefix_stack kc tag) \<and> sk_ok (namespace_prefix_stack kc)"
  by (simp add: key_simps framed_append)

text \<open>C14: a range scan over the subkeys of one user key sees no subkey of another user key,
  another structure, another database or another namespace.\<close>

theorem subkey_isolation:
  assumes "length key < 2 ^ 64" and "length key' < 2 ^ 64"
  shows "prefix (compose_prefix kc (tag_slice t) key)
             (as_bytes (compose_subkey_stack kc' (tag_slice t') key' sub))
           \<longleftrightarrow> kc = kc' \<and> t = t' \<and> key = key'"
  using assms prefix_subkey_prefix [of key key' kc t kc' t' sub]
  by (simp add: key_simps subkey_prefix_def)

theorem subkey_isolation_witness:
  "\<not> prefix (compose_prefix \<lparr>kc_ns = 0, kc_db = 0\<rparr> (tag_slice ListData) [1])
       (as_bytes (compose_subkey_stack \<lparr>kc_ns = 0, kc_db = 0\<rparr> (tag_slice ListData) [1, 2] [3]))"
  using subkey_isolation [of "[1]" "[1, 2]" "\<lparr>kc_ns = 0, kc_db = 0\<rparr>" ListData
      "\<lparr>kc_ns = 0, kc_db = 0\<rparr>" ListData "[3]"]
  by simp

text \<open>C15: the user key can be read back from every physical key of its database: from the
  unframed metadata and string keys, and from the length-framed data keys with whatever subkey
  follows. From the keys of another database, unframed and framed alike, nothing is read.\<close>

theorem extract_user_key_roundtrip:
  assumes "10 + length key < 2 ^ 64"
  shows "(t \<in> set whole_key_tags \<longrightarrow>
            extract_user_key kc (as_bytes (compose_meta_key_stack kc (tag_slice t) key)) = Some key)
       \<and> (t \<notin> set whole_key_tags \<longrightarrow>
            extract_user_key kc (as_bytes (compose_subkey_stack kc (tag_slice t) key sub)) = Some key)
       \<and> (kc \<noteq> kc' \<longrightarrow>
            extract_user_key kc' (as_bytes (compose_meta_key_stack kc (tag_slice t) key)) = None
          \<and> extract_user_key kc' (as_bytes (compose_subkey_stack kc (tag_slice t) key sub)) = None)"
  using assms extract_meta_key [of t kc key] extract_subkey [of t key kc sub]
    extract_user_key_other [of kc' "subkey_prefix kc t key @ sub"]
    extract_user_key_other [of kc' "meta_key kc t key"]
  by (auto simp: key_simps meta_key_def subkey_prefix_def)

theorem extract_user_key_roundtrip_witness:
  "extract_user_key \<lparr>kc_ns = 300, kc_db = 1\<rparr>
     (as_bytes (compose_subkey_stack \<lparr>kc_ns = 300, kc_db = 1\<rparr> (tag_slice SetData) [7, 8] [9])) = Some [7, 8]
   \<and> extract_user_key \<lparr>kc_ns = 300, kc_db = 2\<rparr>
     (as_bytes (compose_meta_key_stack \<lparr>kc_ns = 300, kc_db = 1\<rparr> (tag_slice SetData) [7, 8])) = None"
  using extract_user_key_roundtrip [of "[7, 8]" SetData "\<lparr>kc_ns = 300, kc_db = 1\<rparr>" "[9]"
      "\<lparr>kc_ns = 300, kc_db = 2\<rparr>"]
  by (simp add: whole_key_tags_def)

end
