(* ===== verification/Slot.thy ===== *)
theory Slot
  imports Key_Composer
begin

text \<open>
  \<^verbatim>\<open>embed/src/key_composer/slot.rs\<close>: the cluster slot of a key (table-driven CRC16 of its
  hash tag), the slot prefixes, and the glob matcher of SCAN and KEYS.
\<close>

section \<open>CRC16\<close>

definition HASH_SLOTS_MASK :: u16 where
  "HASH_SLOTS_MASK = 0x3FFF"

definition HASH_SLOTS_SIZE :: u16 where
  "HASH_SLOTS_SIZE = HASH_SLOTS_MASK + 1"

definition CRC16_TAB :: "u16 list" where
  "CRC16_TAB = [
     0x0000, 0x1021, 0x2042, 0x3063, 0x4084, 0x50A5, 0x60C6, 0x70E7, 0x8108, 0x9129, 0xA14A, 0xB16B,
     0xC18C, 0xD1AD, 0xE1CE, 0xF1EF, 0x1231, 0x0210, 0x3273, 0x2252, 0x52B5, 0x4294, 0x72F7, 0x62D6,
     0x9339, 0x8318, 0xB37B, 0xA35A, 0xD3BD, 0xC39C, 0xF3FF, 0xE3DE, 0x2462, 0x3443, 0x0420, 0x1401,
     0x64E6, 0x74C7, 0x44A4, 0x5485, 0xA56A, 0xB54B, 0x8528, 0x9509, 0xE5EE, 0xF5CF, 0xC5AC, 0xD58D,
     0x3653, 0x2672, 0x1611, 0x0630, 0x76D7, 0x66F6, 0x5695, 0x46B4, 0xB75B, 0xA77A, 0x9719, 0x8738,
     0xF7DF, 0xE7FE, 0xD79D, 0xC7BC, 0x48C4, 0x58E5, 0x6886, 0x78A7, 0x0840, 0x1861, 0x2802, 0x3823,
     0xC9CC, 0xD9ED, 0xE98E, 0xF9AF, 0x8948, 0x9969, 0xA90A, 0xB92B, 0x5AF5, 0x4AD4, 0x7AB7, 0x6A96,
     0x1A71, 0x0A50, 0x3A33, 0x2A12, 0xDBFD, 0xCBDC, 0xFBBF, 0xEB9E, 0x9B79, 0x8B58, 0xBB3B, 0xAB1A,
     0x6CA6, 0x7C87, 0x4CE4, 0x5CC5, 0x2C22, 0x3C03, 0x0C60, 0x1C41, 0xEDAE, 0xFD8F, 0xCDEC, 0xDDCD,
     0xAD2A, 0xBD0B, 0x8D68, 0x9D49, 0x7E97, 0x6EB6, 0x5ED5, 0x4EF4, 0x3E13, 0x2E32, 0x1E51, 0x0E70,
     0xFF9F, 0xEFBE, 0xDFDD, 0xCFFC, 0xBF1B, 0xAF3A, 0x9F59, 0x8F78, 0x9188, 0x81A9, 0xB1CA, 0xA1EB,
     0xD10C, 0xC12D, 0xF14E, 0xE16F, 0x1080, 0x00A1, 0x30C2, 0x20E3, 0x5004, 0x4025, 0x7046, 0x6067,
     0x83B9, 0x9398, 0xA3FB, 0xB3DA, 0xC33D, 0xD31C, 0xE37F, 0xF35E, 0x02B1, 0x1290, 0x22F3, 0x32D2,
     0x4235, 0x5214, 0x6277, 0x7256, 0xB5EA, 0xA5CB, 0x95A8, 0x8589, 0xF56E, 0xE54F, 0xD52C, 0xC50D,
     0x34E2, 0x24C3, 0x14A0, 0x0481, 0x7466, 0x6447, 0x5424, 0x4405, 0xA7DB, 0xB7FA, 0x8799, 0x97B8,
     0xE75F, 0xF77E, 0xC71D, 0xD73C, 0x26D3, 0x36F2, 0x0691, 0x16B0, 0x6657, 0x7676, 0x4615, 0x5634,
     0xD94C, 0xC96D, 0xF90E, 0xE92F, 0x99C8, 0x89E9, 0xB98A, 0xA9AB, 0x5844, 0x4865, 0x7806, 0x6827,
     0x18C0, 0x08E1, 0x3882, 0x28A3, 0xCB7D, 0xDB5C, 0xEB3F, 0xFB1E, 0x8BF9, 0x9BD8, 0xABBB, 0xBB9A,
     0x4A75, 0x5A54, 0x6A37, 0x7A16, 0x0AF1, 0x1AD0, 0x2AB3, 0x3A92, 0xFD2E, 0xED0F, 0xDD6C, 0xCD4D,
     0xBDAA, 0xAD8B, 0x9DE8, 0x8DC9, 0x7C26, 0x6C07, 0x5C64, 0x4C45, 0x3CA2, 0x2C83, 0x1CE0, 0x0CC1,
     0xEF1F, 0xFF3E, 0xCF5D, 0xDF7C, 0xAF9B, 0xBFBA, 0x8FD9, 0x9FF8, 0x6E17, 0x7E36, 0x4E55, 0x5E74,
     0x2E93, 0x3EB2, 0x0ED1, 0x1EF0]"

definition crc16 :: "bytes \<Rightarrow> u16" where
  "crc16 buf =
     foldl (\<lambda>crc b. push_bit 8 crc XOR CRC16_TAB ! unat ((ucast (drop_bit 8 crc) :: u8) XOR b)) 0 buf"

text \<open>\<open>memchr\<close>: the first position of a byte.\<close>

fun memchr :: "u8 \<Rightarrow> bytes \<Rightarrow> nat option" where
  "memchr c [] = None"
| "memchr c (b # bs) = (if b = c then Some 0 else map_option Suc (memchr c bs))"

definition get_tag_from_key :: "bytes \<Rightarrow> bytes" where
  "get_tag_from_key key =
     (case memchr 123 key of
        None \<Rightarrow> []
      | Some left_pos \<Rightarrow>
          (case memchr 125 (drop (left_pos + 1) key) of
             None \<Rightarrow> []
           | Some right_pos \<Rightarrow>
               if right_pos > 0 then take right_pos (drop (left_pos + 1) key) else []))"

definition get_slot_id_from_key :: "bytes \<Rightarrow> u16" where
  "get_slot_id_from_key key =
     (let tag = get_tag_from_key key; target = (if tag = [] then key else tag)
      in crc16 target AND HASH_SLOTS_MASK)"

definition encode_slot_key_prefix_fixed :: "u64 \<Rightarrow> u16 \<Rightarrow> bytes \<Rightarrow> bytes \<times> nat" where
  "encode_slot_key_prefix_fixed ns_id slot_id buf =
     (let (b, n) = oppv_at ns_id (put buf 0 [0]) 1
      in (put b (1 + n) (to_be16 slot_id), 1 + n + 2))"

definition compose_slot_key_prefix :: "u64 \<Rightarrow> u16 \<Rightarrow> bytes" where
  "compose_slot_key_prefix ns_id slot_id = encode_oppv_u64 ns_id [0] @ to_be16 slot_id"

definition compose_slot_key_upper_bound :: "u64 \<Rightarrow> u16 \<Rightarrow> bytes" where
  "compose_slot_key_upper_bound ns_id slot_id =
     compose_slot_key_prefix ns_id (if slot_id = 0xFFFF then 0xFFFF else slot_id + 1)"

section \<open>Glob patterns\<close>

text \<open>The loop inside a bracket: the pattern behind the closing bracket and whether the byte
  was found, \<open>None\<close> when the pattern ends before the bracket closes.\<close>

function glob_class :: "bytes \<Rightarrow> u8 \<Rightarrow> bool \<Rightarrow> (bytes \<times> bool) option" where
  "glob_class [] c found = None"
| "glob_class (p # ps) c found =
    (if p = 92 \<and> ps \<noteq> [] then glob_class (tl ps) c (if hd ps = c then True else found)
     else if p = 93 then Some (ps, found)
     else if length ps \<ge> 2 \<and> ps ! 0 = 45 \<and> ps ! 1 \<noteq> 93 then
       glob_class (drop 2 ps) c
         (if p \<le> c \<and> c \<le> ps ! 1 \<or> ps ! 1 \<le> c \<and> c \<le> p then True else found)
     else glob_class ps c (if p = c then True else found))"
  by pat_completeness auto
termination by (relation "measure (\<lambda>(p, _). length p)") (auto simp: length_tl)

lemma glob_class_length: "glob_class p c f = Some (r, g) \<Longrightarrow> length r < length p"
proof (induction p c f rule: glob_class.induct)
  case (2 p ps c found)
  then show ?case
    by (auto split: if_splits simp: length_tl)
qed simp

definition glob_neg :: "bytes \<Rightarrow> bool \<times> bytes" where
  "glob_neg ps = (if ps \<noteq> [] \<and> (hd ps = 94 \<or> hd ps = 33) then (True, tl ps) else (False, ps))"

lemma glob_neg_length: "glob_neg ps = (n, r) \<Longrightarrow> length r \<le> length ps"
  by (auto simp: glob_neg_def split: if_splits)

function (sequential) matches_glob_bytes :: "bytes \<Rightarrow> bytes \<Rightarrow> bool"
  and glob_star :: "bytes \<Rightarrow> bytes \<Rightarrow> bool" where
  "matches_glob_bytes [] text = (text = [])"
| "matches_glob_bytes (p # ps) text =
    (if p = 42 then
       (let rest = dropWhile (\<lambda>b. b = 42) ps in if rest = [] then True else glob_star rest text)
     else if p = 63 then (if text = [] then False else matches_glob_bytes ps (tl text))
     else if p = 91 then
       (if text = [] then False
        else case glob_neg ps of
          (neg, pat) \<Rightarrow>
            (case glob_class pat (hd text) False of
               None \<Rightarrow> False
             | Some (rest, found) \<Rightarrow>
                 if (if neg then \<not> found else found) then matches_glob_bytes rest (tl text) else False))
     else if p = 92 then
       (let pat = (if ps \<noteq> [] then ps else p # ps)
        in if text = [] \<or> hd pat \<noteq> hd text then False else matches_glob_bytes (tl pat) (tl text))
     else if text = [] \<or> hd text \<noteq> p then False
     else matches_glob_bytes ps (tl text))"
| "glob_star rest [] = matches_glob_bytes rest []"
| "glob_star rest (t # ts) = (if matches_glob_bytes rest (t # ts) then True else glob_star rest ts)"
  by pat_completeness auto
termination
  by (relation "measures [\<lambda>x. case x of Inl (p, t) \<Rightarrow> length p | Inr (p, t) \<Rightarrow> length p,
        \<lambda>x. case x of Inl (p, t) \<Rightarrow> length t | Inr (p, t) \<Rightarrow> length t,
        \<lambda>x. case x of Inl _ \<Rightarrow> 0 | Inr _ \<Rightarrow> 1]")
    (auto simp: length_dropWhile_le less_Suc_eq_le length_tl
      dest!: glob_class_length glob_neg_length [OF sym] split: if_splits)

section \<open>The table is the polynomial\<close>

text \<open>CRC-16/XMODEM bit by bit: shift left, and subtract the polynomial \<open>0x1021\<close> when a one
  falls out.\<close>

definition crc_bit :: "u16 \<Rightarrow> u16" where
  "crc_bit c = (if bit c 15 then push_bit 1 c XOR 0x1021 else push_bit 1 c)"

definition crc_byte :: "u16 \<Rightarrow> u8 \<Rightarrow> u16" where
  "crc_byte c b = (crc_bit ^^ 8) (c XOR push_bit 8 (ucast b))"

definition crc16_spec :: "bytes \<Rightarrow> u16" where
  "crc16_spec bs = foldl crc_byte 0 bs"

lemma crc_bit_xor: "crc_bit (x XOR y) = crc_bit x XOR crc_bit y"
  by (simp add: crc_bit_def bit_xor_iff push_bit_xor ac_simps)

lemma crc_bits_xor: "(crc_bit ^^ n) (x XOR y) = (crc_bit ^^ n) x XOR (crc_bit ^^ n) y"
  by (induction n) (simp_all add: crc_bit_xor)

lemma crc_bits_low:
  assumes "\<forall>i. bit x i \<longrightarrow> i + n \<le> 15"
  shows "(crc_bit ^^ n) x = push_bit n x"
  using assms
proof (induction n)
  case (Suc n)
  then have IH: "(crc_bit ^^ n) x = push_bit n x" by fastforce
  have "\<not> bit (push_bit n x) 15"
    using Suc.prems by (auto simp: bit_push_bit_iff)
  then have "crc_bit (push_bit n x) = push_bit 1 (push_bit n x)"
    unfolding crc_bit_def by (simp only: if_False)
  also have "\<dots> = push_bit (Suc n) x" by (simp only: push_bit_push_bit) simp
  finally show ?case by (simp only: funpow.simps o_apply IH)
qed simp

text \<open>The table is linear, so the entries of the eight powers of two determine it.\<close>

definition xor_table :: "u16 list \<Rightarrow> u16 list" where
  "xor_table gs = foldl (\<lambda>t g. t @ map (\<lambda>x. x XOR g) t) [0] gs"

lemma xor_table_snoc: "xor_table (gs @ [g]) = xor_table gs @ map (\<lambda>x. x XOR g) (xor_table gs)"
  by (simp add: xor_table_def)

lemma xor_table_length: "length (xor_table gs) = 2 ^ length gs"
  by (induction gs rule: rev_induct) (simp_all add: xor_table_snoc, simp add: xor_table_def)

lemma word_of_nat_low_high:
  assumes "j < 2 ^ n" and "n < 16"
  shows "(word_of_nat (2 ^ n + j) :: u16) = word_of_nat j XOR 2 ^ n"
proof -
  have "word_of_nat j AND (2 ^ n :: u16) = 0"
    using assms by (intro bit_eqI) (auto simp: bit_simps bit_iff_odd [of j])
  then have "word_of_nat j + (2 ^ n :: u16) = word_of_nat j XOR 2 ^ n"
    by (rule disjunctive_add_eq_xor)
  then show ?thesis by (simp add: ac_simps)
qed

lemma xor_table_nth:
  assumes "n \<le> 16" and "i < 2 ^ n"
  shows "xor_table (map (\<lambda>k. (crc_bit ^^ 8) (push_bit 8 (2 ^ k))) [0..<n]) ! i
    = (crc_bit ^^ 8) (push_bit 8 (word_of_nat i))"
  using assms
proof (induction n arbitrary: i)
  case 0
  then show ?case by (simp add: xor_table_def crc_bit_def numeral_eq_Suc)
next
  case (Suc n)
  let ?g = "\<lambda>n. map (\<lambda>k. (crc_bit ^^ 8) (push_bit 8 (2 ^ k))) [0..<n]"
  show ?case
  proof (cases "i < 2 ^ n")
    case True
    with Suc show ?thesis by (simp add: xor_table_snoc nth_append xor_table_length)
  next
    case False
    then obtain j where j: "i = 2 ^ n + j" "j < 2 ^ n"
      using Suc.prems by (auto simp: not_less le_iff_add)
    then show ?thesis
      using Suc.IH [of j] Suc.prems word_of_nat_low_high [of j n]
      by (simp add: xor_table_snoc nth_append xor_table_length push_bit_xor crc_bits_xor del: of_nat_add)
  qed
qed

lemma crc_generators:
  "map (\<lambda>k. (crc_bit ^^ 8) (push_bit 8 (2 ^ k))) [0..<8]
    = [0x1021, 0x2042, 0x4084, 0x8108, 0x1231, 0x2462, 0x48C4, 0x9188]"
  by code_simp

lemma crc_table_generated:
  "xor_table [0x1021, 0x2042, 0x4084, 0x8108, 0x1231, 0x2462, 0x48C4, 0x9188] = CRC16_TAB"
  by (simp add: xor_table_def CRC16_TAB_def)

lemma crc_table_entries:
  assumes "i < 256"
  shows "CRC16_TAB ! i = (crc_bit ^^ 8) (push_bit 8 (word_of_nat i))"
  using xor_table_nth [of 8 i] assms by (simp only: crc_generators crc_table_generated) simp

lemma crc_step:
  "push_bit 8 crc XOR CRC16_TAB ! unat ((ucast (drop_bit 8 crc) :: u8) XOR b) = crc_byte crc b"
proof -
  let ?i = "(ucast (drop_bit 8 crc) :: u8) XOR b"
  let ?lo = "crc AND 0xFF :: u16"
  have m: "(0xFF :: u16) = mask 8" by (simp add: mask_eq_exp_minus_1)
  have split: "crc XOR push_bit 8 (ucast b) = push_bit 8 (word_of_nat (unat ?i)) XOR ?lo"
    unfolding m by (rule bit_eqI) (auto simp: bit_simps not_less)
  have "(crc_bit ^^ 8) ?lo = push_bit 8 ?lo"
    unfolding m by (rule crc_bits_low) (auto simp: bit_simps)
  also have "\<dots> = push_bit 8 crc"
    unfolding m by (rule bit_eqI) (auto simp: bit_simps)
  finally have "crc_byte crc b = (crc_bit ^^ 8) (push_bit 8 (word_of_nat (unat ?i))) XOR push_bit 8 crc"
    unfolding crc_byte_def split crc_bits_xor by simp
  then show ?thesis
    using crc_table_entries [of "unat ?i"] by (simp add: ac_simps del: of_nat_unat)
qed

text \<open>C20: the table-driven checksum of the slot computation is the bitwise CRC-16/XMODEM of the
  polynomial 0x1021, on every byte string: each entry of the table is the right one.\<close>

theorem crc16_is_xmodem: "crc16 buf = crc16_spec buf"
  by (simp add: crc16_def crc16_spec_def crc_step)

section \<open>Hash tags\<close>

lemma memchr_append: "c \<notin> set xs \<Longrightarrow> memchr c (xs @ c # ys) = Some (length xs)"
  by (induction xs) auto

lemma get_tag_eq:
  assumes "123 \<notin> set a" and "125 \<notin> set tag" and "tag \<noteq> []"
  shows "get_tag_from_key (a @ 123 # tag @ 125 # rest) = tag"
  using memchr_append [OF assms(1), of "tag @ 125 # rest"] memchr_append [OF assms(2), of rest] assms(3)
  by (simp add: get_tag_from_key_def)

lemma slot_in_range: "get_slot_id_from_key key < HASH_SLOTS_SIZE"
proof -
  have "get_slot_id_from_key key \<le> HASH_SLOTS_MASK"
    by (simp add: get_slot_id_from_key_def Let_def word_and_le1)
  then show ?thesis
    by (rule order.strict_trans1) (simp add: HASH_SLOTS_SIZE_def HASH_SLOTS_MASK_def)
qed

text \<open>C21: the slot of every key is below 16384, and two keys with the same hash tag (the bytes
  between the first opening brace and the next closing one, not empty) share their slot whatever
  surrounds the tag.\<close>

theorem hash_tag_shares_slot:
  assumes "123 \<notin> set a" and "123 \<notin> set b" and "125 \<notin> set tag" and "tag \<noteq> []"
  shows "get_slot_id_from_key (a @ 123 # tag @ 125 # rest) = get_slot_id_from_key (b @ 123 # tag @ 125 # rest')
    \<and> get_slot_id_from_key (a @ 123 # tag @ 125 # rest) < HASH_SLOTS_SIZE"
  using assms slot_in_range [of "a @ 123 # tag @ 125 # rest"] by (simp add: get_slot_id_from_key_def get_tag_eq)

theorem hash_tag_shares_slot_witness:
  "get_slot_id_from_key ([97] @ 123 # [117, 49] @ 125 # [98]) = get_slot_id_from_key ([] @ 123 # [117, 49] @ 125 # [])
    \<and> get_slot_id_from_key ([97] @ 123 # [117, 49] @ 125 # [98]) < HASH_SLOTS_SIZE"
  by (rule hash_tag_shares_slot) simp_all

section \<open>What a glob pattern means\<close>

text \<open>A pattern is a list of tokens; each token accepts some strings, and the pattern matches
  the texts that are a concatenation of strings its tokens accept, one after the other.\<close>

datatype glob_item = Byte u8 | Between u8 u8

datatype glob_token = Star | Any | Literal u8 | Class bool "glob_item list" | Unclosed

fun item_has :: "u8 \<Rightarrow> glob_item \<Rightarrow> bool" where
  "item_has c (Byte b) = (c = b)"
| "item_has c (Between a b) = (min a b \<le> c \<and> c \<le> max a b)"

fun one_accepts :: "glob_token \<Rightarrow> u8 \<Rightarrow> bool" where
  "one_accepts Any c = True"
| "one_accepts (Literal b) c = (c = b)"
| "one_accepts (Class neg items) c = ((\<exists>i \<in> set items. item_has c i) \<noteq> neg)"
| "one_accepts t c = False"

definition token_accepts :: "glob_token \<Rightarrow> bytes \<Rightarrow> bool" where
  "token_accepts t part = (t = Star \<or> (\<exists>c. part = [c] \<and> one_accepts t c))"

definition tokens_match :: "glob_token list \<Rightarrow> bytes \<Rightarrow> bool" where
  "tokens_match ts text = (\<exists>parts. text = concat parts \<and> list_all2 token_accepts ts parts)"

function class_items :: "bytes \<Rightarrow> (glob_item list \<times> bytes) option" where
  "class_items [] = None"
| "class_items (p # ps) =
    (if p = 92 \<and> ps \<noteq> [] then map_option (apfst (Cons (Byte (hd ps)))) (class_items (tl ps))
     else if p = 93 then Some ([], ps)
     else if length ps \<ge> 2 \<and> ps ! 0 = 45 \<and> ps ! 1 \<noteq> 93 then
       map_option (apfst (Cons (Between p (ps ! 1)))) (class_items (drop 2 ps))
     else map_option (apfst (Cons (Byte p))) (class_items ps))"
  by pat_completeness auto
termination by (relation "measure length") (auto simp: length_tl)

lemma glob_class_items:
  "glob_class p c found =
    map_option (\<lambda>(items, rest). (rest, found \<or> (\<exists>i \<in> set items. item_has c i))) (class_items p)"
proof (induction p c found rule: glob_class.induct)
  case (2 p ps c found)
  have "(p \<le> c \<and> c \<le> ps ! 1 \<or> ps ! 1 \<le> c \<and> c \<le> p) = item_has c (Between p (ps ! 1))"
    by (auto simp: min_def max_def)
  then show ?case
    using 2 by (auto simp: option.map_comp comp_def case_prod_unfold intro!: option.map_cong0)
qed simp

lemma class_items_length: "class_items p = Some (i, r) \<Longrightarrow> length r < length p"
  using glob_class_length [of p 0 False r] by (simp add: glob_class_items)

function glob_tokens :: "bytes \<Rightarrow> glob_token list" where
  "glob_tokens [] = []"
| "glob_tokens (p # ps) =
    (if p = 42 then Star # glob_tokens ps
     else if p = 63 then Any # glob_tokens ps
     else if p = 91 then
       (case glob_neg ps of (neg, pat) \<Rightarrow>
          (case class_items pat of
             None \<Rightarrow> [Unclosed]
           | Some (items, rest) \<Rightarrow> Class neg items # glob_tokens rest))
     else if p = 92 \<and> ps \<noteq> [] then Literal (hd ps) # glob_tokens (tl ps)
     else Literal p # glob_tokens ps)"
  by pat_completeness auto
termination
  by (relation "measure length")
    (auto simp: length_tl dest!: class_items_length glob_neg_length [OF sym])

lemma tokens_match_Nil [simp]: "tokens_match [] text = (text = [])"
  by (auto simp: tokens_match_def)

lemma tokens_match_Cons:
  "tokens_match (t # ts) s = (\<exists>part rest. s = part @ rest \<and> token_accepts t part \<and> tokens_match ts rest)"
proof
  assume "tokens_match (t # ts) s"
  then obtain part parts where "s = concat (part # parts)" "token_accepts t part" "list_all2 token_accepts ts parts"
    unfolding tokens_match_def list_all2_Cons1 by blast
  then show "\<exists>part rest. s = part @ rest \<and> token_accepts t part \<and> tokens_match ts rest"
    unfolding tokens_match_def by (intro exI [of _ part] exI [of _ "concat parts"]) auto
next
  assume "\<exists>part rest. s = part @ rest \<and> token_accepts t part \<and> tokens_match ts rest"
  then obtain part parts where "s = part @ concat parts" "token_accepts t part" "list_all2 token_accepts ts parts"
    unfolding tokens_match_def by blast
  then show "tokens_match (t # ts) s"
    unfolding tokens_match_def by (intro exI [of _ "part # parts"]) simp
qed

lemma tokens_match_one:
  assumes "t \<noteq> Star"
  shows "tokens_match (t # ts) s = (s \<noteq> [] \<and> one_accepts t (hd s) \<and> tokens_match ts (tl s))"
proof -
  have "tokens_match (t # ts) s = (\<exists>c rest. s = [c] @ rest \<and> one_accepts t c \<and> tokens_match ts rest)"
    unfolding tokens_match_Cons token_accepts_def using assms by blast
  then show ?thesis by (cases s) auto
qed

lemma tokens_match_Star_Cons:
  "tokens_match (Star # ts) (c # text) = (tokens_match ts (c # text) \<or> tokens_match (Star # ts) text)"
  by (simp add: tokens_match_Cons token_accepts_def) (metis append_Cons append_Nil list.exhaust list.inject)

lemma tokens_match_Star_Nil: "tokens_match (Star # ts) [] = tokens_match ts []"
  by (simp add: tokens_match_Cons token_accepts_def)

lemma tokens_match_Star_all: "tokens_match [Star] s"
  by (simp add: tokens_match_Cons token_accepts_def)

lemma tokens_match_Star_Star: "tokens_match (Star # Star # ts) = tokens_match (Star # ts)"
proof
  show "tokens_match (Star # Star # ts) s = tokens_match (Star # ts) s" for s
    by (induction s) (auto simp: tokens_match_Star_Cons tokens_match_Star_Nil)
qed

lemma tokens_match_Star_drop:
  "tokens_match (Star # glob_tokens (dropWhile (\<lambda>b. b = 42) ps)) = tokens_match (Star # glob_tokens ps)"
  by (induction ps) (auto simp: tokens_match_Star_Star)

lemma glob_matches_tokens:
  "matches_glob_bytes pat text = tokens_match (glob_tokens pat) text"
  "glob_star rest text = tokens_match (Star # glob_tokens rest) text"
proof (induction pat "text" and rest "text" rule: matches_glob_bytes_glob_star.induct)
  case (2 p ps s)
  consider "p = 42" | "p = 63" | "p = 91" | "p = 92" | "p \<notin> {42, 63, 91, 92}" by blast
  then show ?case
  proof cases
    case 1
    let ?r = "dropWhile (\<lambda>b. b = 42) ps"
    have "matches_glob_bytes (p # ps) s = tokens_match (Star # glob_tokens ?r) s"
      using 1 2 by (cases "?r = []") (simp_all add: Let_def tokens_match_Star_all del: dropWhile_eq_Nil_conv)
    with 1 show ?thesis by (simp only: glob_tokens.simps tokens_match_Star_drop if_True simp_thms)
  next
    case 3
    with 2 show ?thesis
      by (auto simp: tokens_match_one glob_class_items split: prod.splits option.splits)
  next
    case 4
    with 2 show ?thesis by (auto simp: tokens_match_one Let_def)
  qed (use 2 in \<open>auto simp: tokens_match_one\<close>)
qed (simp_all add: tokens_match_Star_Cons tokens_match_Star_Nil)

text \<open>C19: the backtracking matcher of SCAN and KEYS decides the language of the pattern: the text
  matches exactly when it splits into parts accepted by the pattern's tokens one after the other
  (a star, any byte, a byte, a bracket class with ranges and negation; an unclosed bracket accepts
  nothing).\<close>

theorem glob_matches_language:
  "matches_glob_bytes pat s
    = (\<exists>parts. s = concat parts \<and> list_all2 token_accepts (glob_tokens pat) parts)"
  by (simp add: glob_matches_tokens flip: tokens_match_def)

end
