(* ===== verification/Engine.thy ===== *)
theory Engine
  imports Errors "HOL-Library.RBT"
begin

text \<open>
  \<^verbatim>\<open>engine/src\<close>: the storage engine behind the database. The engine itself is another
  crate's business, so it is a parameter: a record of the operations of the traits
  \<open>Partition\<close> and \<open>Batch\<close> that the database calls, over an abstract partition state, and a
  locale with the documented laws of those traits. \<open>mem_engine\<close> is the repository's own
  implementation (\<^verbatim>\<open>engine/tests/main.rs\<close>) over ordered maps; it satisfies the locale.
  I/O errors of the engine are not modelled: every engine call returns.
\<close>

section \<open>The interface\<close>

datatype part = PData | PMeta

datatype batch_op = BInsert part bytes bytes | BRm part bytes | BRmWeak part bytes

record 'p engine =
  e_get :: "'p \<Rightarrow> bytes \<Rightarrow> bytes option"
  e_insert :: "'p \<Rightarrow> bytes \<Rightarrow> bytes \<Rightarrow> 'p"
  e_rm :: "'p \<Rightarrow> bytes \<Rightarrow> 'p"
  e_rm_weak :: "'p \<Rightarrow> bytes \<Rightarrow> 'p"
  e_prefix :: "'p \<Rightarrow> bytes \<Rightarrow> (bytes \<times> bytes) list"
  e_range :: "'p \<Rightarrow> bytes bound \<Rightarrow> bytes bound \<Rightarrow> (bytes \<times> bytes) list"
  e_commit :: "'p \<times> 'p \<Rightarrow> batch_op list \<Rightarrow> 'p \<times> 'p"

text \<open>The default methods of the trait \<open>Partition\<close>.\<close>

definition e_contains_key :: "'p engine \<Rightarrow> 'p \<Rightarrow> bytes \<Rightarrow> bool" where
  "e_contains_key E p key \<longleftrightarrow> e_get E p key \<noteq> None"

definition e_size_of :: "'p engine \<Rightarrow> 'p \<Rightarrow> bytes \<Rightarrow> nat option" where
  "e_size_of E p key = map_option length (e_get E p key)"

definition e_iter :: "'p engine \<Rightarrow> 'p \<Rightarrow> (bytes \<times> bytes) list" where
  "e_iter E p = e_range E p Unbounded Unbounded"

definition e_insert_batch :: "'p engine \<Rightarrow> 'p \<Rightarrow> (bytes \<times> bytes) list \<Rightarrow> 'p" where
  "e_insert_batch E p entries = foldl (\<lambda>p (k, v). e_insert E p k v) p entries"

definition e_rm_batch :: "'p engine \<Rightarrow> 'p \<Rightarrow> bytes list \<Rightarrow> 'p" where
  "e_rm_batch E p keys = foldl (e_rm E) p keys"

definition e_clear :: "'p engine \<Rightarrow> 'p \<Rightarrow> 'p" where
  "e_clear E p = foldl (\<lambda>p (k, _). e_rm E p k) p (e_iter E p)"

definition e_is_empty :: "'p engine \<Rightarrow> 'p \<Rightarrow> bool" where
  "e_is_empty E p \<longleftrightarrow> e_iter E p = []"

section \<open>The laws\<close>

text \<open>What a partition stores, seen as a map, and the effect of a write batch on such maps:
  the queued operations one after the other.\<close>

type_synonym kv_map = "bytes \<rightharpoonup> bytes"

fun in_lower :: "bytes bound \<Rightarrow> bytes \<Rightarrow> bool" where
  "in_lower (Included b) k \<longleftrightarrow> b \<le> k"
| "in_lower (Excluded b) k \<longleftrightarrow> b < k"
| "in_lower Unbounded k \<longleftrightarrow> True"

fun in_upper :: "bytes bound \<Rightarrow> bytes \<Rightarrow> bool" where
  "in_upper (Included b) k \<longleftrightarrow> k \<le> b"
| "in_upper (Excluded b) k \<longleftrightarrow> k < b"
| "in_upper Unbounded k \<longleftrightarrow> True"

fun apply_op :: "part \<Rightarrow> kv_map \<Rightarrow> batch_op \<Rightarrow> kv_map" where
  "apply_op p m (BInsert q k v) = (if p = q then m(k \<mapsto> v) else m)"
| "apply_op p m (BRm q k) = (if p = q then m(k := None) else m)"
| "apply_op p m (BRmWeak q k) = (if p = q then m(k := None) else m)"

definition apply_ops :: "part \<Rightarrow> batch_op list \<Rightarrow> kv_map \<Rightarrow> kv_map" where
  "apply_ops p ops m = foldl (apply_op p) m ops"

lemma apply_ops_simps [simp]:
  "apply_ops p [] m = m"
  "apply_ops p (op # ops) m = apply_ops p ops (apply_op p m op)"
  "apply_ops p (ops @ ops') m = apply_ops p ops' (apply_ops p ops m)"
  by (simp_all add: apply_ops_def)

definition sorted_entries :: "(bytes \<times> bytes) list \<Rightarrow> bool" where
  "sorted_entries xs \<longleftrightarrow> sorted_wrt (\<lambda>a b. fst a < fst b) xs"

locale kv_engine =
  fixes E :: "'p engine"
  assumes get_insert [simp]: "e_get E (e_insert E p k v) = (e_get E p)(k \<mapsto> v)"
    and get_rm [simp]: "e_get E (e_rm E p k) = (e_get E p)(k := None)"
    and get_rm_weak [simp]: "e_get E (e_rm_weak E p k) = (e_get E p)(k := None)"
    and prefix_sorted: "sorted_entries (e_prefix E p q)"
    and prefix_entries:
      "(k, v) \<in> set (e_prefix E p q) \<longleftrightarrow> e_get E p k = Some v \<and> prefix q k"
    and range_sorted: "sorted_entries (e_range E p lo hi)"
    and range_entries:
      "(k, v) \<in> set (e_range E p lo hi) \<longleftrightarrow> e_get E p k = Some v \<and> in_lower lo k \<and> in_upper hi k"
    and commit_data [simp]: "e_get E (fst (e_commit E ps ops)) = apply_ops PData ops (e_get E (fst ps))"
    and commit_meta [simp]: "e_get E (snd (e_commit E ps ops)) = apply_ops PMeta ops (e_get E (snd ps))"

section \<open>Sorted entry lists\<close>

lemma sorted_entries_Nil [simp]: "sorted_entries []"
  by (simp add: sorted_entries_def)

lemma sorted_entries_Cons:
  "sorted_entries (x # xs) \<longleftrightarrow> (\<forall>y\<in>set xs. fst x < fst y) \<and> sorted_entries xs"
  by (simp add: sorted_entries_def)

lemma sorted_entries_distinct: "sorted_entries xs \<Longrightarrow> distinct (map fst xs)"
  by (induction xs) (auto simp: sorted_entries_Cons)

text \<open>A sorted entry list is determined by its set of entries.\<close>

lemma sorted_entries_unique:
  "sorted_entries xs \<Longrightarrow> sorted_entries ys \<Longrightarrow> set xs = set ys \<Longrightarrow> xs = ys"
proof (induction xs arbitrary: ys)
  case (Cons x xs)
  obtain y ys' where ys: "ys = y # ys'" using Cons.prems(3) by (cases ys) auto
  have "x = y"
  proof (rule ccontr)
    assume ne: "x \<noteq> y"
    with Cons.prems ys have "y \<in> set xs" "x \<in> set ys'" by auto
    with Cons.prems ys have "fst x < fst y" "fst y < fst x" by (simp_all add: sorted_entries_Cons)
    then show False by simp
  qed
  moreover have "x \<notin> set xs" "y \<notin> set ys'"
    using Cons.prems ys by (auto simp: sorted_entries_Cons)
  ultimately have "set xs = set ys'" using Cons.prems(3) ys by auto
  with Cons.IH [of ys'] Cons.prems ys \<open>x = y\<close> show ?case by (simp add: sorted_entries_Cons)
qed simp

lemma in_fst_image: "k \<in> fst ` S \<longleftrightarrow> (\<exists>v. (k, v) \<in> S)"
  by force

section \<open>Consequences of the laws\<close>

context kv_engine
begin

lemma contains_key_iff [simp]: "e_contains_key E p k \<longleftrightarrow> k \<in> dom (e_get E p)"
  by (auto simp: e_contains_key_def)

lemma prefix_distinct: "distinct (map fst (e_prefix E p q))"
  by (rule sorted_entries_distinct [OF prefix_sorted])

lemma range_distinct: "distinct (map fst (e_range E p lo hi))"
  by (rule sorted_entries_distinct [OF range_sorted])

lemma prefix_keys: "set (map fst (e_prefix E p q)) = {k \<in> dom (e_get E p). prefix q k}"
  by (auto simp: set_eq_iff in_fst_image prefix_entries dom_def)

lemma prefix_keysD: "kv \<in> set (e_prefix E p q) \<Longrightarrow> prefix q (fst kv)"
  by (cases kv) (simp add: prefix_entries)

lemma prefix_Nil_iff: "e_prefix E p q = [] \<longleftrightarrow> (\<forall>k. prefix q k \<longrightarrow> e_get E p k = None)"
proof -
  have "e_prefix E p q = [] \<longleftrightarrow> (\<forall>k v. (k, v) \<notin> set (e_prefix E p q))"
    by (metis list.set_intros(1) neq_Nil_conv surj_pair empty_iff list.set(1))
  then show ?thesis by (auto simp: prefix_entries)
qed

lemma range_eqI:
  "sorted_entries xs \<Longrightarrow>
   (\<And>k v. (k, v) \<in> set xs \<longleftrightarrow> e_get E p k = Some v \<and> in_lower lo k \<and> in_upper hi k) \<Longrightarrow>
   e_range E p lo hi = xs"
  by (rule sorted_entries_unique [OF range_sorted]) (auto simp: range_entries)

lemma prefix_eqI:
  "sorted_entries xs \<Longrightarrow>
   (\<And>k v. (k, v) \<in> set xs \<longleftrightarrow> e_get E p k = Some v \<and> prefix q k) \<Longrightarrow>
   e_prefix E p q = xs"
  by (rule sorted_entries_unique [OF prefix_sorted]) (auto simp: prefix_entries)

text \<open>Iterators only see the contents of a partition.\<close>

lemma prefix_cong: "e_get E p = e_get E p' \<Longrightarrow> e_prefix E p q = e_prefix E p' q"
  by (rule prefix_eqI [OF prefix_sorted]) (simp add: prefix_entries)

lemma range_cong: "e_get E p = e_get E p' \<Longrightarrow> e_range E p lo hi = e_range E p' lo hi"
  by (rule range_eqI [OF range_sorted]) (simp add: range_entries)

lemma get_insert_batch:
  "e_get E (e_insert_batch E p entries) = foldl (\<lambda>m (k, v). m(k \<mapsto> v)) (e_get E p) entries"
proof (induction entries arbitrary: p)
  case (Cons kv entries)
  then show ?case by (cases kv) (simp add: e_insert_batch_def)
qed (simp add: e_insert_batch_def)

lemma get_rm_batch: "e_get E (e_rm_batch E p keys) = (e_get E p) |` (- set keys)"
  by (induction keys arbitrary: p) (auto simp: e_rm_batch_def fun_eq_iff restrict_map_def)

lemma get_clear: "e_get E (e_clear E p) = Map.empty"
proof -
  have f: "e_get E (foldl (\<lambda>p (k, _). e_rm E p k) p xs) = (e_get E p) |` (- fst ` set xs)"
    for xs :: "(bytes \<times> bytes) list" and p
    by (induction xs arbitrary: p) (auto simp: fun_eq_iff restrict_map_def split: prod.splits)
  have "fst ` set (e_iter E p) = dom (e_get E p)"
    by (auto simp: set_eq_iff in_fst_image e_iter_def range_entries dom_def)
  then show ?thesis
    by (auto simp: e_clear_def f restrict_map_def)
qed

end

text \<open>Removing a list of keys with one batch.\<close>

lemma apply_ops_rm_map:
  "apply_ops p (map (BRm p) ks) m = m |` (- set ks)"
  "apply_ops p (map (BRmWeak p) ks) m = m |` (- set ks)"
  by (induction ks arbitrary: m; auto simp: fun_eq_iff restrict_map_def)+

lemma apply_ops_other:
  "p \<noteq> q \<Longrightarrow> apply_ops p (map (BRm q) ks) m = m"
  "p \<noteq> q \<Longrightarrow> apply_ops p (map (BRmWeak q) ks) m = m"
  "p \<noteq> q \<Longrightarrow> apply_ops p (map (\<lambda>(k, v). BInsert q k v) kvs) m = m"
  by (induction ks arbitrary: m; simp)+ (induction kvs arbitrary: m; auto)

text \<open>What a batch cannot touch.\<close>

fun op_key :: "batch_op \<Rightarrow> part \<times> bytes" where
  "op_key (BInsert p k v) = (p, k)"
| "op_key (BRm p k) = (p, k)"
| "op_key (BRmWeak p k) = (p, k)"

lemma apply_ops_frame: "(p, k) \<notin> op_key ` set ops \<Longrightarrow> apply_ops p ops m k = m k"
proof (induction ops arbitrary: m)
  case (Cons op ops)
  then show ?case by (cases op) auto
qed simp

section \<open>The in-memory engine of the repository\<close>

type_synonym mem_part = "(bytes, bytes) rbt"

definition mem_range :: "mem_part \<Rightarrow> bytes bound \<Rightarrow> bytes bound \<Rightarrow> (bytes \<times> bytes) list" where
  "mem_range p lo hi = filter (\<lambda>(k, _). in_lower lo k \<and> in_upper hi k) (RBT.entries p)"

definition mem_prefix :: "mem_part \<Rightarrow> bytes \<Rightarrow> (bytes \<times> bytes) list" where
  "mem_prefix p q = takeWhile (\<lambda>(k, _). prefix q k) (mem_range p (Included q) Unbounded)"

fun mem_apply :: "mem_part \<times> mem_part \<Rightarrow> batch_op \<Rightarrow> mem_part \<times> mem_part" where
  "mem_apply (d, m) (BInsert PData k v) = (RBT.insert k v d, m)"
| "mem_apply (d, m) (BInsert PMeta k v) = (d, RBT.insert k v m)"
| "mem_apply (d, m) (BRm PData k) = (RBT.delete k d, m)"
| "mem_apply (d, m) (BRm PMeta k) = (d, RBT.delete k m)"
| "mem_apply (d, m) (BRmWeak PData k) = (RBT.delete k d, m)"
| "mem_apply (d, m) (BRmWeak PMeta k) = (d, RBT.delete k m)"

definition mem_engine :: "mem_part engine" where
  "mem_engine =
     \<lparr>e_get = RBT.lookup, e_insert = (\<lambda>p k v. RBT.insert k v p), e_rm = (\<lambda>p k. RBT.delete k p),
      e_rm_weak = (\<lambda>p k. RBT.delete k p), e_prefix = mem_prefix, e_range = mem_range,
      e_commit = foldl mem_apply\<rparr>"

lemma mem_entries: "(k, v) \<in> set (RBT.entries p) \<longleftrightarrow> RBT.lookup p k = Some v"
  by (metis RBT.lookup_in_tree)

lemma mem_entries_sorted: "sorted_entries (RBT.entries p)"
proof -
  have "sorted_wrt (<) (map fst (RBT.entries p))"
    unfolding strict_sorted_iff by (intro conjI RBT.sorted_entries RBT.distinct_entries)
  then show ?thesis
    unfolding sorted_entries_def sorted_wrt_map .
qed

lemma mem_range_sorted: "sorted_entries (mem_range p lo hi)"
  using mem_entries_sorted [of p] by (simp add: sorted_entries_def mem_range_def sorted_wrt_filter)

lemma mem_range_entries:
  "(k, v) \<in> set (mem_range p lo hi) \<longleftrightarrow> RBT.lookup p k = Some v \<and> in_lower lo k \<and> in_upper hi k"
  by (auto simp: mem_range_def mem_entries)

text \<open>Behind the prefix in the order, the strings with the prefix come first.\<close>

lemma takeWhile_prefix:
  assumes "sorted_entries xs" and "\<forall>kv\<in>set xs. q \<le> fst kv"
  shows "takeWhile (\<lambda>(k, _). prefix q k) xs = filter (\<lambda>(k, _). prefix q k) xs"
  using assms
proof (induction xs)
  case (Cons x xs)
  have "filter (\<lambda>(k, _). prefix q k) xs = []" if n: "\<not> prefix q (fst x)"
  proof -
    have "\<not> prefix q k" if "(k, v) \<in> set xs" for k v
    proof
      assume "prefix q k"
      then obtain r where "k = q @ r" by (auto simp: prefix_def)
      moreover have "fst x < k" "q \<le> fst x"
        using Cons.prems that by (auto simp: sorted_entries_Cons)
      ultimately show False
        using between_prefix [of q "[]" "fst x" r, OF _ less_imp_le] n by simp
    qed
    then show ?thesis by (auto simp: filter_empty_conv)
  qed
  with Cons show ?case by (auto simp: sorted_entries_Cons split: prod.splits)
qed simp

lemma mem_prefix_eq: "mem_prefix p q = filter (\<lambda>(k, _). prefix q k) (mem_range p (Included q) Unbounded)"
  unfolding mem_prefix_def
  by (rule takeWhile_prefix [OF mem_range_sorted]) (auto simp: mem_range_entries)

lemma prefix_imp_le: "prefix q k \<Longrightarrow> q \<le> (k :: bytes)"
proof -
  assume "prefix q k"
  then obtain r where "k = q @ r" by (auto simp: prefix_def)
  then show ?thesis using list_le_append_same [of q "[]" r] by simp
qed

lemma mem_apply_fold:
  "RBT.lookup (fst (foldl mem_apply ps ops)) = apply_ops PData ops (RBT.lookup (fst ps))
   \<and> RBT.lookup (snd (foldl mem_apply ps ops)) = apply_ops PMeta ops (RBT.lookup (snd ps))"
proof (induction ops arbitrary: ps)
  case (Cons op ops)
  have "RBT.lookup (fst (mem_apply ps op)) = apply_op PData (RBT.lookup (fst ps)) op
      \<and> RBT.lookup (snd (mem_apply ps op)) = apply_op PMeta (RBT.lookup (snd ps)) op"
    by (cases "(ps, op)" rule: mem_apply.cases) (simp_all add: restrict_complement_singleton_eq)
  with Cons show ?case by simp
qed simp

interpretation mem: kv_engine mem_engine
proof
  fix p k v q lo hi ps ops
  show "sorted_entries (e_prefix mem_engine p q)"
    using mem_range_sorted
    by (simp add: mem_engine_def mem_prefix_eq sorted_entries_def sorted_wrt_filter)
  show "(k, v) \<in> set (e_prefix mem_engine p q) \<longleftrightarrow> e_get mem_engine p k = Some v \<and> prefix q k"
    by (auto simp: mem_engine_def mem_prefix_eq mem_range_entries prefix_imp_le)
qed (auto simp: mem_engine_def mem_range_sorted mem_range_entries mem_apply_fold
    restrict_complement_singleton_eq)

lemma kv_engine_mem: "kv_engine mem_engine"
  by (rule mem.kv_engine_axioms)

end
