(* ===== verification/Db_State.thy ===== *)
theory Db_State
  imports Engine Meta Key_Composer
begin

text \<open>
  The state behind the handles \<open>WeDb\<close>, \<open>Namespace\<close> and \<open>Db\<close>
  (\<^verbatim>\<open>embed/src/wedb/core.rs\<close>, \<^verbatim>\<open>batch.rs\<close>): two partitions of the engine, the counters
  of the version generator and the sweep cursors. A \<open>Db\<close> handle is its \<open>key_composer\<close>
  together with this state; an operation takes both and, when it writes, returns the new state.
  A write batch is the list of the operations queued so far; committing it hands the list to the
  engine. Clock readings are arguments (\<open>now\<close> in milliseconds, \<open>ts\<close> in microseconds).
\<close>

record 'p wedb =
  w_data :: 'p
  w_meta :: 'p
  w_ver :: version_state
  w_data_cursor :: "bytes option"
  w_meta_cursor :: "bytes option"

type_synonym batch = "batch_op list"

section \<open>Write batches\<close>

definition insert_data :: "bytes \<Rightarrow> bytes \<Rightarrow> batch \<Rightarrow> batch" where
  "insert_data key val batch = batch @ [BInsert PData key val]"

definition insert_meta :: "bytes \<Rightarrow> bytes \<Rightarrow> batch \<Rightarrow> batch" where
  "insert_meta key val batch = batch @ [BInsert PMeta key val]"

definition rm_data :: "bytes \<Rightarrow> batch \<Rightarrow> batch" where
  "rm_data key batch = batch @ [BRm PData key]"

definition rm_meta :: "bytes \<Rightarrow> batch \<Rightarrow> batch" where
  "rm_meta key batch = batch @ [BRm PMeta key]"

definition rm_weak_data :: "bytes \<Rightarrow> batch \<Rightarrow> batch" where
  "rm_weak_data key batch = batch @ [BRmWeak PData key]"

definition rm_weak_meta :: "bytes \<Rightarrow> batch \<Rightarrow> batch" where
  "rm_weak_meta key batch = batch @ [BRmWeak PMeta key]"

definition insert_data_batch :: "(bytes \<times> bytes) list \<Rightarrow> batch \<Rightarrow> batch" where
  "insert_data_batch entries batch = foldl (\<lambda>b (k, v). insert_data k v b) batch entries"

definition rm_data_batch :: "bytes list \<Rightarrow> batch \<Rightarrow> batch" where
  "rm_data_batch keys batch = foldl (\<lambda>b k. rm_data k b) batch keys"

definition commit :: "'p engine \<Rightarrow> batch \<Rightarrow> 'p wedb \<Rightarrow> 'p wedb" where
  "commit E batch s =
     (let (d, m) = e_commit E (w_data s, w_meta s) batch in s\<lparr>w_data := d, w_meta := m\<rparr>)"

definition put_data :: "'p engine \<Rightarrow> bytes \<Rightarrow> bytes \<Rightarrow> 'p wedb \<Rightarrow> 'p wedb" where
  "put_data E key val s = s\<lparr>w_data := e_insert E (w_data s) key val\<rparr>"

definition put_meta :: "'p engine \<Rightarrow> bytes \<Rightarrow> bytes \<Rightarrow> 'p wedb \<Rightarrow> 'p wedb" where
  "put_meta E key val s = s\<lparr>w_meta := e_insert E (w_meta s) key val\<rparr>"

definition del_data :: "'p engine \<Rightarrow> bytes \<Rightarrow> 'p wedb \<Rightarrow> 'p wedb" where
  "del_data E key s = s\<lparr>w_data := e_rm E (w_data s) key\<rparr>"

text \<open>Generating a version steps the counters of the state.\<close>

definition next_version :: "u64 \<Rightarrow> 'p wedb \<Rightarrow> u64 \<times> 'p wedb" where
  "next_version ts s =
     (let (v, vs) = generate_version ts (w_ver s) in (v, s\<lparr>w_ver := vs\<rparr>))"

text \<open>\<open>api::key::clear_prefix_in_batch\<close>: queue the removal of everything under a prefix.\<close>

definition part_of :: "part \<Rightarrow> 'p wedb \<Rightarrow> 'p" where
  "part_of p s = (case p of PData \<Rightarrow> w_data s | PMeta \<Rightarrow> w_meta s)"

definition clear_prefix_in_batch :: "'p engine \<Rightarrow> part \<Rightarrow> 'p wedb \<Rightarrow> bytes \<Rightarrow> batch \<Rightarrow> batch" where
  "clear_prefix_in_batch E p s q batch =
     batch @ map (BRm p) (takeWhile (prefix q) (map fst (e_prefix E (part_of p s) q)))"

section \<open>What the partitions store\<close>

definition dat :: "'p engine \<Rightarrow> 'p wedb \<Rightarrow> kv_map" where
  "dat E s = e_get E (w_data s)"

definition met :: "'p engine \<Rightarrow> 'p wedb \<Rightarrow> kv_map" where
  "met E s = e_get E (w_meta s)"

lemmas batch_defs = insert_data_def insert_meta_def rm_data_def rm_meta_def rm_weak_data_def
  rm_weak_meta_def

lemma insert_data_batch_eq:
  "insert_data_batch entries batch = batch @ map (\<lambda>(k, v). BInsert PData k v) entries"
  by (induction entries arbitrary: batch)
    (auto simp: insert_data_batch_def insert_data_def)

lemma rm_data_batch_eq: "rm_data_batch keys batch = batch @ map (BRm PData) keys"
  by (induction keys arbitrary: batch) (simp_all add: rm_data_batch_def rm_data_def)

lemma commit_frame [simp]:
  "w_ver (commit E batch s) = w_ver s" "w_data_cursor (commit E batch s) = w_data_cursor s"
  "w_meta_cursor (commit E batch s) = w_meta_cursor s"
  by (simp_all add: commit_def split: prod.split)

lemma next_version_dat [simp]:
  "dat E (snd (next_version ts s)) = dat E s" "met E (snd (next_version ts s)) = met E s"
  "w_data (snd (next_version ts s)) = w_data s" "w_meta (snd (next_version ts s)) = w_meta s"
  by (simp_all add: next_version_def dat_def met_def split: prod.split)

lemma part_of_simps [simp]: "part_of PData s = w_data s" "part_of PMeta s = w_meta s"
  by (simp_all add: part_of_def)

context kv_engine
begin

lemma dat_commit [simp]: "dat E (commit E batch s) = apply_ops PData batch (dat E s)"
  by (simp add: dat_def commit_def split_beta)

lemma met_commit [simp]: "met E (commit E batch s) = apply_ops PMeta batch (met E s)"
  by (simp add: met_def commit_def split_beta)

lemma put_simps [simp]:
  "dat E (put_data E k v s) = (dat E s)(k \<mapsto> v)" "met E (put_data E k v s) = met E s"
  "dat E (put_meta E k v s) = dat E s" "met E (put_meta E k v s) = (met E s)(k \<mapsto> v)"
  "dat E (del_data E k s) = (dat E s)(k := None)" "met E (del_data E k s) = met E s"
  by (simp_all add: dat_def met_def put_data_def put_meta_def del_data_def)

lemma e_get_dat: "e_get E (w_data s) = dat E s"
  by (simp add: dat_def)

lemma e_get_met: "e_get E (w_meta s) = met E s"
  by (simp add: met_def)

lemma takeWhile_prefix_all:
  "takeWhile (prefix q) (map fst (e_prefix E p q)) = map fst (e_prefix E p q)"
  by (rule takeWhile_eq_all_conv [THEN iffD2]) (auto dest: prefix_keysD)

lemma clear_prefix_eq:
  "clear_prefix_in_batch E p s q batch = batch @ map (BRm p) (map fst (e_prefix E (part_of p s) q))"
  by (simp add: clear_prefix_in_batch_def takeWhile_prefix_all)

text \<open>Queuing the removal of a prefix removes exactly the keys with that prefix.\<close>

lemma apply_clear_prefix:
  "apply_ops PData (clear_prefix_in_batch E PData s q batch) m
     = (apply_ops PData batch m) |` (- {k \<in> dom (dat E s). prefix q k})"
  "apply_ops PMeta (clear_prefix_in_batch E PMeta s q batch) m
     = (apply_ops PMeta batch m) |` (- {k \<in> dom (met E s). prefix q k})"
  "apply_ops PMeta (clear_prefix_in_batch E PData s q batch) m = apply_ops PMeta batch m"
  "apply_ops PData (clear_prefix_in_batch E PMeta s q batch) m = apply_ops PData batch m"
  using prefix_keys [of "w_data s" q] prefix_keys [of "w_meta s" q]
  by (simp_all add: clear_prefix_eq apply_ops_rm_map apply_ops_other dat_def met_def
      del: map_map)

lemma clear_prefix_dat:
  "apply_ops PData (clear_prefix_in_batch E PData s q []) (dat E s)
     = (\<lambda>k. if prefix q k then None else dat E s k)"
  by (auto simp: apply_clear_prefix restrict_map_def fun_eq_iff dom_def)

end

section \<open>The empty in-memory database\<close>

definition mem_db :: "mem_part wedb" where
  "mem_db = \<lparr>w_data = RBT.empty, w_meta = RBT.empty, w_ver = \<lparr>vs_counter = 0, vs_last = 0\<rparr>,
             w_data_cursor = None, w_meta_cursor = None\<rparr>"

lemma mem_db_empty [simp]: "dat mem_engine mem_db = Map.empty" "met mem_engine mem_db = Map.empty"
  by (simp_all add: dat_def met_def mem_db_def mem_engine_def)

end
