(* ===== verification/Key_Space.thy ===== *)
theory Key_Space
  imports Db_State
begin

text \<open>
  \<^verbatim>\<open>embed/src/api/key\<close> and the value format of \<^verbatim>\<open>embed/src/api/string/meta.rs\<close>:
  the layer every data type goes through. A user key may own a raw string in the data partition
  and one metadata record per structure in the metadata partition; the functions here decide
  which of them is live, refuse a command of another type, and delete, copy or expire a key
  with all its subkeys.
\<close>

section \<open>String values\<close>

definition STRING_HDR_SIZE :: nat where
  "STRING_HDR_SIZE = 9"

definition STRING_HEADER_FLAG :: u8 where
  "STRING_HEADER_FLAG = META_64BIT_ENCODING_MASK OR rtype_u8 RString"

definition encode_string_header :: "u64 \<Rightarrow> bytes" where
  "encode_string_header expire_at_ms =
     (META_64BIT_ENCODING_MASK OR rtype_u8 RString) # to_be64 expire_at_ms"

definition STRING_NO_EXPIRY_HEADER :: bytes where
  "STRING_NO_EXPIRY_HEADER = encode_string_header 0"

definition encode_string_value_into :: "bytes \<Rightarrow> u64 \<Rightarrow> bytes \<Rightarrow> bytes" where
  "encode_string_value_into val expire_at_ms out =
     out @ (if expire_at_ms = 0 then STRING_NO_EXPIRY_HEADER else encode_string_header expire_at_ms)
         @ val"

definition encode_string_value :: "bytes \<Rightarrow> u64 \<Rightarrow> bytes" where
  "encode_string_value val expire_at_ms =
     (if expire_at_ms = 0 then STRING_NO_EXPIRY_HEADER else encode_string_header expire_at_ms) @ val"

definition decode_string_value :: "bytes \<Rightarrow> u64 \<times> bytes" where
  "decode_string_value raw =
     (if length raw \<ge> STRING_HDR_SIZE \<and> raw ! 0 = STRING_HEADER_FLAG
      then (u64_at raw 1, drop STRING_HDR_SIZE raw)
      else (0, raw))"

definition is_string_expired :: "u64 \<Rightarrow> u64 \<Rightarrow> bool" where
  "is_string_expired expire_at_ms now_ms \<longleftrightarrow> expire_at_ms > 0 \<and> expire_at_ms \<le> now_ms"

definition decode_live_string_value :: "bytes \<Rightarrow> u64 \<Rightarrow> bytes option" where
  "decode_live_string_value raw now_ms =
     (let (expire_at, payload) = decode_string_value raw
      in if is_string_expired expire_at now_ms then None else Some payload)"

text \<open>The bytes that \<open>with_encoded_string_value\<close> hands to its continuation: a 64-byte stack
  buffer for payloads of at most 55 bytes, the caller's vector otherwise.\<close>

definition encoded_string_value :: "bytes \<Rightarrow> u64 \<Rightarrow> bytes" where
  "encoded_string_value val expire_at_ms =
     (if length val \<le> 55 then
        (let header = (if expire_at_ms = 0 then STRING_NO_EXPIRY_HEADER
                       else encode_string_header expire_at_ms);
             b0 = put (replicate 64 0) 0 header;
             total = STRING_HDR_SIZE + length val;
             b1 = put b0 STRING_HDR_SIZE val
         in take total b1)
      else encode_string_value_into val expire_at_ms [])"

definition raw_key :: "key_composer \<Rightarrow> bytes \<Rightarrow> small_key" where
  "raw_key kc key =
     (if is_default kc \<and> 4 + length key \<le> INLINE_CAP then
        (let b0 = put (replicate INLINE_CAP 0) 0 [0]; b1 = put b0 1 [0]; b2 = put b1 2 [0];
             b3 = put b2 3 [0]; b4 = put b3 4 key
         in Inline b4 (word_of_nat (4 + length key)))
      else compose_meta_key_stack kc (tag_slice RawString) key)"

definition raw_bytes :: "key_composer \<Rightarrow> bytes \<Rightarrow> bytes" where
  "raw_bytes kc key = compose_meta_key_into kc (tag_slice RawString) key"

subsection \<open>Their round trip\<close>

lemma length_encode_string_header [simp]: "length (encode_string_header e) = 9"
  by (simp add: encode_string_header_def)

lemma encode_string_value_eq: "encode_string_value val e = encode_string_header e @ val"
  by (simp add: encode_string_value_def STRING_NO_EXPIRY_HEADER_def)

lemma encoded_string_value_eq [simp]: "encoded_string_value val e = encode_string_value val e"
  by (simp add: encoded_string_value_def encode_string_value_eq encode_string_value_into_def
      STRING_NO_EXPIRY_HEADER_def STRING_HDR_SIZE_def put_simps Let_def)

lemma decode_encode_string_value [simp]: "decode_string_value (encode_string_value val e) = (e, val)"
  using u64_at_append [of "[STRING_HEADER_FLAG]" 1 e val]
  by (simp add: decode_string_value_def encode_string_value_eq encode_string_header_def
      STRING_HDR_SIZE_def STRING_HEADER_FLAG_def)

lemma decode_live_encode [simp]:
  "decode_live_string_value (encode_string_value val e) now
     = (if is_string_expired e now then None else Some val)"
  by (simp add: decode_live_string_value_def)

lemma not_expired_0 [simp]: "\<not> is_string_expired 0 now"
  by (simp add: is_string_expired_def)

lemma raw_key_ok [simp]: "as_bytes (raw_key kc key) = meta_key kc RawString key \<and> sk_ok (raw_key kc key)"
proof (cases "is_default kc \<and> 4 + length key \<le> INLINE_CAP")
  case True
  have "as_bytes (Inline buf (word_of_nat n)) = [0, 0, 0, 0] @ key \<and> sk_ok (Inline buf (word_of_nat n))"
    if "buf = ([0, 0, 0, 0] @ key) @ replicate (INLINE_CAP - length ([0, 0, 0, 0] @ key)) 0"
      and "n = 4 + length key" for buf n
    using that True by (intro inline_of) simp_all
  with True show ?thesis
    by (simp add: raw_key_def meta_key_def tag_slice_def scope_default put_simps drop_replicate Let_def
        INLINE_CAP_def)
next
  case False
  then show ?thesis
    unfolding raw_key_def if_not_P [OF False] by (simp add: meta_key_def)
qed

lemma raw_bytes_eq [simp]: "raw_bytes kc key = meta_key kc RawString key"
  by (simp add: raw_bytes_def compose_meta_key_into_eq meta_key_def)

section \<open>Cleaning up structures\<close>

text \<open>The loop pops the last byte until it can be increased; the argument is the buffer
  reversed.\<close>

fun prefix_upper_loop :: "bytes \<Rightarrow> bytes bound" where
  "prefix_upper_loop [] = Unbounded"
| "prefix_upper_loop (b # rest) =
    (if b < 0xFF then Excluded (rev rest @ [b + 1]) else prefix_upper_loop rest)"

definition prefix_upper_bound :: "bytes \<Rightarrow> bytes bound" where
  "prefix_upper_bound p = prefix_upper_loop (rev p)"

text \<open>One removal by prefix, with the prefix composed from a data tag.\<close>

definition clear_tag :: "'p engine \<Rightarrow> part \<Rightarrow> key_composer \<Rightarrow> 'p wedb \<Rightarrow> bytes \<Rightarrow> key_tag \<Rightarrow> batch \<Rightarrow> batch" where
  "clear_tag E p kc s key tag batch =
     clear_prefix_in_batch E p s (compose_prefix kc (tag_slice tag) key) batch"

definition cleanup_composite_data_raw ::
    "'p engine \<Rightarrow> 'p wedb \<Rightarrow> key_composer \<Rightarrow> u8 \<Rightarrow> bytes \<Rightarrow> batch \<Rightarrow> batch" where
  "cleanup_composite_data_raw E s kc meta_tag k_bytes batch =
     (case tag_from_u8 meta_tag of
        None \<Rightarrow> batch
      | Some tag \<Rightarrow>
          (let data = \<lambda>t b. clear_tag E PData kc s k_bytes t b;
               meta = \<lambda>t b. clear_tag E PMeta kc s k_bytes t b
           in case tag of
                HashMeta \<Rightarrow> data HashData batch
              | ListMeta \<Rightarrow> data ListData batch
              | SetMeta \<Rightarrow> data SetData batch
              | ZSetMeta \<Rightarrow> data ZSetScore (data ZSetData batch)
              | BitmapMeta \<Rightarrow> data BitmapData batch
              | BloomMeta \<Rightarrow> data BloomData batch
              | CuckooMeta \<Rightarrow> data CuckooData batch
              | SortedIntMeta \<Rightarrow> data SortedIntData batch
              | TimeSeriesMeta \<Rightarrow> meta TimeSeriesData (data TimeSeriesData batch)
              | StreamMeta \<Rightarrow>
                  data StreamPel (data StreamConsumer (data StreamGroup (data StreamData batch)))
              | HllMeta \<Rightarrow> rm_data (compose_meta_key_into kc (tag_slice HllRaw) k_bytes) batch
              | JsonMeta \<Rightarrow> data JsonData batch
              | TDigestMeta \<Rightarrow> data TDigestData batch
              | FtSchema \<Rightarrow> meta FtData (data FtData (meta FtIndex (data FtIndex batch)))
              | FtAlias \<Rightarrow> meta FtData (data FtData (meta FtIndex (data FtIndex batch)))
              | _ \<Rightarrow> batch))"

definition cleanup_composite_data ::
    "'p engine \<Rightarrow> 'p wedb \<Rightarrow> key_composer \<Rightarrow> bytes \<Rightarrow> bytes \<Rightarrow> batch \<Rightarrow> batch" where
  "cleanup_composite_data E s kc meta_tag k_bytes batch =
     (case meta_tag of
        [] \<Rightarrow> batch
      | tg # _ \<Rightarrow> cleanup_composite_data_raw E s kc tg k_bytes batch)"

definition cleanup_all_composite_data ::
    "'p engine \<Rightarrow> 'p wedb \<Rightarrow> key_composer \<Rightarrow> bytes \<Rightarrow> batch \<Rightarrow> batch" where
  "cleanup_all_composite_data E s kc k_bytes batch =
     (if e_is_empty E (w_meta s) then batch
      else foldl (\<lambda>b t.
             let mk = compose_meta_key_into kc (tag_slice t) k_bytes
             in if e_contains_key E (w_meta s) mk
                then cleanup_composite_data E s kc (tag_slice t) k_bytes (rm_meta mk b)
                else b)
           batch composite_meta_tags)"

text \<open>\<open>write_string_val\<close> of \<^verbatim>\<open>api/string/meta.rs\<close>.\<close>

definition write_string_val ::
    "'p engine \<Rightarrow> key_composer \<Rightarrow> bytes \<Rightarrow> bytes \<Rightarrow> bytes \<Rightarrow> bool \<Rightarrow> 'p wedb \<Rightarrow> 'p wedb" where
  "write_string_val E kc raw_k key_bytes enc_val old_is_none s =
     (if old_is_none \<and> \<not> e_is_empty E (w_meta s)
      then commit E (cleanup_all_composite_data E s kc key_bytes (insert_data raw_k enc_val [])) s
      else put_data E raw_k enc_val s)"

section \<open>Type checks\<close>

fun check_tags :: "'p engine \<Rightarrow> 'p \<Rightarrow> key_composer \<Rightarrow> bytes \<Rightarrow> bytes \<Rightarrow> u64 \<Rightarrow> key_tag list \<Rightarrow> error + unit" where
  "check_tags E meta_ks kc k_bytes current_meta_tag now_ms [] = Inr ()"
| "check_tags E meta_ks kc k_bytes current_meta_tag now_ms (t # ts) =
    (if tag_slice t = current_meta_tag then
       check_tags E meta_ks kc k_bytes current_meta_tag now_ms ts
     else
       case e_get E meta_ks (compose_meta_key_into kc (tag_slice t) k_bytes) of
         None \<Rightarrow> check_tags E meta_ks kc k_bytes current_meta_tag now_ms ts
       | Some m_bytes \<Rightarrow>
           (case km_decode m_bytes of
              None \<Rightarrow> check_tags E meta_ks kc k_bytes current_meta_tag now_ms ts
            | Some base_meta \<Rightarrow>
                if \<not> km_is_expired base_meta now_ms then Inl (WrongType ERR_WRONG_TYPE)
                else check_tags E meta_ks kc k_bytes current_meta_tag now_ms ts))"

definition check_composite_meta_not_other_type_with_buf ::
    "'p engine \<Rightarrow> 'p \<Rightarrow> key_composer \<Rightarrow> bytes \<Rightarrow> bytes \<Rightarrow> u64 \<Rightarrow> error + unit" where
  "check_composite_meta_not_other_type_with_buf E meta_ks kc k_bytes current_meta_tag now_ms =
     check_tags E meta_ks kc k_bytes current_meta_tag now_ms composite_meta_tags"

definition check_composite_meta_not_other_type ::
    "'p engine \<Rightarrow> key_composer \<Rightarrow> 'p wedb \<Rightarrow> bytes \<Rightarrow> bytes \<Rightarrow> u64 \<Rightarrow> error + unit" where
  "check_composite_meta_not_other_type E kc s k_bytes current_meta_tag now_ms =
     (if e_is_empty E (w_meta s) then Inr ()
      else check_composite_meta_not_other_type_with_buf E (w_meta s) kc k_bytes current_meta_tag now_ms)"

definition check_key_not_other_type ::
    "'p engine \<Rightarrow> key_composer \<Rightarrow> 'p wedb \<Rightarrow> bytes \<Rightarrow> bytes \<Rightarrow> u64 \<Rightarrow> error + unit" where
  "check_key_not_other_type E kc s k_bytes current_meta_tag now_ms =
     (let rest = check_composite_meta_not_other_type E kc s k_bytes current_meta_tag now_ms
      in case e_get E (w_data s) (as_bytes (raw_key kc k_bytes)) of
           None \<Rightarrow> rest
         | Some raw \<Rightarrow>
             (if \<not> is_string_expired (fst (decode_string_value raw)) now_ms
              then Inl (WrongType ERR_WRONG_TYPE) else rest))"

fun find_active_tags ::
    "'p engine \<Rightarrow> 'p \<Rightarrow> key_composer \<Rightarrow> bytes \<Rightarrow> u64 \<Rightarrow> key_tag list \<Rightarrow> (u8 \<times> key_meta \<times> bytes) option" where
  "find_active_tags E meta_ks kc key now_ms [] = None"
| "find_active_tags E meta_ks kc key now_ms (t # ts) =
    (case e_get E meta_ks (compose_meta_key_into kc (tag_slice t) key) of
       None \<Rightarrow> find_active_tags E meta_ks kc key now_ms ts
     | Some guard \<Rightarrow>
         (case km_decode guard of
            None \<Rightarrow> find_active_tags E meta_ks kc key now_ms ts
          | Some base_meta \<Rightarrow>
              if \<not> km_is_expired base_meta now_ms then Some (tag_u8 t, base_meta, guard)
              else find_active_tags E meta_ks kc key now_ms ts))"

definition find_active_composite_meta ::
    "'p engine \<Rightarrow> key_composer \<Rightarrow> 'p wedb \<Rightarrow> bytes \<Rightarrow> u64 \<Rightarrow> (u8 \<times> key_meta \<times> bytes) option" where
  "find_active_composite_meta E kc s key now_ms =
     (if e_is_empty E (w_meta s) then None
      else find_active_tags E (w_meta s) kc key now_ms composite_meta_tags)"

text \<open>The trait \<open>MetaOps\<close>: what a metadata type brings.\<close>

record 'm meta_ops =
  mo_tag :: key_tag
  mo_decode :: "bytes \<Rightarrow> 'm option"
  mo_encode :: "'m \<Rightarrow> bytes"
  mo_base :: "'m \<Rightarrow> key_meta"

definition mo_is_expired :: "'m meta_ops \<Rightarrow> 'm \<Rightarrow> u64 \<Rightarrow> bool" where
  "mo_is_expired M m now_ms = km_is_expired (mo_base M m) now_ms"

text \<open>The instances that \<open>impl_simple_meta!\<close> generates.\<close>

definition simple_meta :: "redis_type \<Rightarrow> key_tag \<Rightarrow> key_meta meta_ops" where
  "simple_meta rtype tag =
     \<lparr>mo_tag = tag, mo_decode = simple_meta_decode rtype, mo_encode = km_encode, mo_base = (\<lambda>m. m)\<rparr>"

definition get_meta_checked ::
    "'p engine \<Rightarrow> 'm meta_ops \<Rightarrow> key_composer \<Rightarrow> 'p wedb \<Rightarrow> bytes \<Rightarrow> bytes \<Rightarrow> u64 \<Rightarrow> error + 'm option" where
  "get_meta_checked E M kc s k_bytes meta_k now_ms =
     (let string_live =
        (case e_get E (w_data s) (as_bytes (raw_key kc k_bytes)) of
           None \<Rightarrow> False
         | Some raw \<Rightarrow> \<not> is_string_expired (fst (decode_string_value raw)) now_ms);
          own =
        (case e_get E (w_meta s) meta_k of
           None \<Rightarrow> None
         | Some m_bytes \<Rightarrow>
             (case mo_decode M m_bytes of
                None \<Rightarrow> None
              | Some m \<Rightarrow> if \<not> mo_is_expired M m now_ms then Some m else None))
      in if string_live then Inl (WrongType ERR_WRONG_TYPE)
         else case own of
           Some m \<Rightarrow> Inr (Some m)
         | None \<Rightarrow>
             try_op (check_composite_meta_not_other_type E kc s k_bytes (tag_slice (mo_tag M)) now_ms)
               (\<lambda>_. Inr None))"

section \<open>Deleting, probing and expiring keys\<close>

datatype expire_condition = ExNone | ExNX | ExXX | ExGT | ExLT

fun should_update :: "expire_condition \<Rightarrow> u64 \<Rightarrow> u64 \<Rightarrow> bool" where
  "should_update ExNone current_exp new_exp = True"
| "should_update ExNX current_exp new_exp = (current_exp = 0)"
| "should_update ExXX current_exp new_exp = (current_exp > 0)"
| "should_update ExGT current_exp new_exp = (current_exp > 0 \<and> new_exp > current_exp)"
| "should_update ExLT current_exp new_exp = (current_exp = 0 \<or> new_exp < current_exp)"

fun del_tags ::
    "'p engine \<Rightarrow> key_composer \<Rightarrow> 'p wedb \<Rightarrow> u64 \<Rightarrow> bytes \<Rightarrow> key_tag list \<Rightarrow> batch \<Rightarrow> batch \<times> bool" where
  "del_tags E kc s now_ms k [] batch = (batch, False)"
| "del_tags E kc s now_ms k (t # ts) batch =
    (let mk = compose_meta_key_into kc (tag_slice t) k
     in case e_get E (w_meta s) mk of
          None \<Rightarrow> del_tags E kc s now_ms k ts batch
        | Some m_bytes \<Rightarrow>
            (cleanup_composite_data E s kc (tag_slice t) k (rm_meta mk batch),
             (case km_decode m_bytes of
                None \<Rightarrow> False | Some m \<Rightarrow> \<not> km_is_expired m now_ms)))"

definition del_key ::
    "'p engine \<Rightarrow> key_composer \<Rightarrow> 'p wedb \<Rightarrow> u64 \<Rightarrow> batch \<times> nat \<Rightarrow> bytes \<Rightarrow> batch \<times> nat" where
  "del_key E kc s now_ms acc k =
     (let (batch, deleted) = acc;
          raw_k = as_bytes (raw_key kc k);
          (batch, hit) =
            (case e_get E (w_data s) raw_k of
               None \<Rightarrow> (batch, False)
             | Some raw \<Rightarrow>
                 (rm_data raw_k batch, \<not> is_string_expired (fst (decode_string_value raw)) now_ms));
          (batch, hit) =
            (if \<not> hit \<and> \<not> e_is_empty E (w_meta s)
             then del_tags E kc s now_ms k composite_meta_tags batch
             else (batch, hit))
      in (batch, if hit then deleted + 1 else deleted))"

definition del_impl ::
    "'p engine \<Rightarrow> key_composer \<Rightarrow> u64 \<Rightarrow> bytes list \<Rightarrow> 'p wedb \<Rightarrow> nat \<times> 'p wedb" where
  "del_impl E kc now_ms keys s =
     (let (batch, deleted) = foldl (del_key E kc s now_ms) ([], 0) keys
      in (deleted, commit E batch s))"

definition del_one :: "'p engine \<Rightarrow> key_composer \<Rightarrow> u64 \<Rightarrow> bytes \<Rightarrow> 'p wedb \<Rightarrow> bool \<times> 'p wedb" where
  "del_one E kc now_ms key s = (let (n, s') = del_impl E kc now_ms [key] s in (n > 0, s'))"

definition exists_one :: "'p engine \<Rightarrow> key_composer \<Rightarrow> 'p wedb \<Rightarrow> u64 \<Rightarrow> bytes \<Rightarrow> bool" where
  "exists_one E kc s now_ms k =
     (case e_get E (w_data s) (as_bytes (raw_key kc k)) of
        None \<Rightarrow> find_active_composite_meta E kc s k now_ms \<noteq> None
      | Some raw \<Rightarrow>
          (if \<not> is_string_expired (fst (decode_string_value raw)) now_ms then True
           else find_active_composite_meta E kc s k now_ms \<noteq> None))"

definition exists_impl :: "'p engine \<Rightarrow> key_composer \<Rightarrow> 'p wedb \<Rightarrow> u64 \<Rightarrow> bytes list \<Rightarrow> nat" where
  "exists_impl E kc s now_ms keys =
     foldl (\<lambda>count k. if exists_one E kc s now_ms k then count + 1 else count) 0 keys"

definition key_type_impl :: "'p engine \<Rightarrow> key_composer \<Rightarrow> 'p wedb \<Rightarrow> u64 \<Rightarrow> bytes \<Rightarrow> string" where
  "key_type_impl E kc s now_ms key =
     (let rest = (case find_active_composite_meta E kc s key now_ms of
                    Some (_, base_meta, _) \<Rightarrow> rtype_name (km_rtype base_meta)
                  | None \<Rightarrow> ''none'')
      in case e_get E (w_data s) (as_bytes (raw_key kc key)) of
           None \<Rightarrow> rest
         | Some raw \<Rightarrow>
             (if \<not> is_string_expired (fst (decode_string_value raw)) now_ms then ''string'' else rest))"

definition get_key_expire_at_impl ::
    "'p engine \<Rightarrow> key_composer \<Rightarrow> 'p wedb \<Rightarrow> u64 \<Rightarrow> bytes \<Rightarrow> u64 option" where
  "get_key_expire_at_impl E kc s now_ms key =
     (let rest = (case find_active_composite_meta E kc s key now_ms of
                    Some (_, meta, _) \<Rightarrow> Some (km_expire_at meta)
                  | None \<Rightarrow> None)
      in case e_get E (w_data s) (as_bytes (raw_key kc key)) of
           None \<Rightarrow> rest
         | Some raw \<Rightarrow>
             (let exp = fst (decode_string_value raw)
              in if \<not> is_string_expired exp now_ms then Some exp else rest))"

definition set_key_expire_at_impl_with_condition ::
    "'p engine \<Rightarrow> key_composer \<Rightarrow> u64 \<Rightarrow> bytes \<Rightarrow> u64 \<Rightarrow> expire_condition \<Rightarrow> 'p wedb \<Rightarrow> bool \<times> 'p wedb" where
  "set_key_expire_at_impl_with_condition E kc now_ms key expire_at_ms cond s =
     (let raw_k = as_bytes (raw_key kc key);
          composite =
            (case find_active_composite_meta E kc s key now_ms of
               None \<Rightarrow> (False, s)
             | Some (tg, base_meta, m_bytes) \<Rightarrow>
                 if expire_at_ms = 0 \<and> km_expire_at base_meta = 0 then (False, s)
                 else if \<not> should_update cond (km_expire_at base_meta) expire_at_ms then (False, s)
                 else
                   (let is_kvrocks = m_bytes ! 0 AND META_64BIT_ENCODING_MASK \<noteq> 0
                          \<or> length m_bytes \<ge> 25 \<and> m_bytes ! 0 > 14;
                        exp_offset = (if is_kvrocks then 1 else 2)
                    in if length m_bytes \<ge> exp_offset + 8 then
                         (True, commit E (insert_meta (compose_meta_key_into kc [tg] key)
                                    (put m_bytes exp_offset (to_be64 expire_at_ms)) []) s)
                       else (False, s)))
      in case e_get E (w_data s) raw_k of
           None \<Rightarrow> composite
         | Some raw \<Rightarrow>
             (let (exp, payload) = decode_string_value raw
              in if \<not> is_string_expired exp now_ms then
                   (if expire_at_ms = 0 \<and> exp = 0 then (False, s)
                    else if \<not> should_update cond exp expire_at_ms then (False, s)
                    else (True, commit E (insert_data raw_k (encode_string_value payload expire_at_ms) []) s))
                 else composite))"

definition set_key_expire_at_impl ::
    "'p engine \<Rightarrow> key_composer \<Rightarrow> u64 \<Rightarrow> bytes \<Rightarrow> u64 \<Rightarrow> 'p wedb \<Rightarrow> bool \<times> 'p wedb" where
  "set_key_expire_at_impl E kc now_ms key expire_at_ms s =
     set_key_expire_at_impl_with_condition E kc now_ms key expire_at_ms ExNone s"

definition persist :: "'p engine \<Rightarrow> key_composer \<Rightarrow> u64 \<Rightarrow> bytes \<Rightarrow> 'p wedb \<Rightarrow> bool \<times> 'p wedb" where
  "persist E kc now_ms key s = set_key_expire_at_impl E kc now_ms key 0 s"

definition expire_key :: "'p engine \<Rightarrow> key_composer \<Rightarrow> u64 \<Rightarrow> bytes \<Rightarrow> u64 \<Rightarrow> 'p wedb \<Rightarrow> bool \<times> 'p wedb" where
  "expire_key E kc now_ms key ttl_sec s =
     set_key_expire_at_impl E kc now_ms key (now_ms + ttl_sec * 1000) s"

definition pexpire :: "'p engine \<Rightarrow> key_composer \<Rightarrow> u64 \<Rightarrow> bytes \<Rightarrow> u64 \<Rightarrow> 'p wedb \<Rightarrow> bool \<times> 'p wedb" where
  "pexpire E kc now_ms key ttl_ms s = set_key_expire_at_impl E kc now_ms key (now_ms + ttl_ms) s"

definition pexpireat :: "'p engine \<Rightarrow> key_composer \<Rightarrow> u64 \<Rightarrow> bytes \<Rightarrow> u64 \<Rightarrow> 'p wedb \<Rightarrow> bool \<times> 'p wedb" where
  "pexpireat E kc now_ms key unix_ms s = set_key_expire_at_impl E kc now_ms key unix_ms s"

definition query_key_expire_info ::
    "'p engine \<Rightarrow> key_composer \<Rightarrow> 'p wedb \<Rightarrow> u64 \<Rightarrow> bytes \<Rightarrow> (u64 \<Rightarrow> u64 \<Rightarrow> int) \<Rightarrow> int" where
  "query_key_expire_info E kc s now_ms key map_live_ttl =
     (case get_key_expire_at_impl E kc s now_ms key of
        None \<Rightarrow> -2
      | Some exp \<Rightarrow> if exp = 0 then -1 else if now_ms \<ge> exp then -2 else map_live_ttl exp now_ms)"

text \<open>\<open>u64::div_ceil\<close>; the casts to \<open>i64\<close> are \<open>sint\<close>.\<close>

definition div_ceil :: "u64 \<Rightarrow> u64 \<Rightarrow> u64" where
  "div_ceil a b = (if a mod b > 0 then a div b + 1 else a div b)"

definition ttl :: "'p engine \<Rightarrow> key_composer \<Rightarrow> 'p wedb \<Rightarrow> u64 \<Rightarrow> bytes \<Rightarrow> int" where
  "ttl E kc s now_ms key =
     query_key_expire_info E kc s now_ms key (\<lambda>exp now. sint (div_ceil (exp - now) 1000))"

definition pttl :: "'p engine \<Rightarrow> key_composer \<Rightarrow> 'p wedb \<Rightarrow> u64 \<Rightarrow> bytes \<Rightarrow> int" where
  "pttl E kc s now_ms key = query_key_expire_info E kc s now_ms key (\<lambda>exp now. sint (exp - now))"

definition expiretime :: "'p engine \<Rightarrow> key_composer \<Rightarrow> 'p wedb \<Rightarrow> u64 \<Rightarrow> bytes \<Rightarrow> int" where
  "expiretime E kc s now_ms key = query_key_expire_info E kc s now_ms key (\<lambda>exp now. sint (exp div 1000))"

definition pexpiretime :: "'p engine \<Rightarrow> key_composer \<Rightarrow> 'p wedb \<Rightarrow> u64 \<Rightarrow> bytes \<Rightarrow> int" where
  "pexpiretime E kc s now_ms key = query_key_expire_info E kc s now_ms key (\<lambda>exp now. sint exp)"

section \<open>Copying and renaming\<close>

fun copy_data_tags :: "key_tag \<Rightarrow> key_tag list" where
  "copy_data_tags HashMeta = [HashData]"
| "copy_data_tags ListMeta = [ListData]"
| "copy_data_tags SetMeta = [SetData]"
| "copy_data_tags ZSetMeta = [ZSetData, ZSetScore]"
| "copy_data_tags BitmapMeta = [BitmapData]"
| "copy_data_tags BloomMeta = [BloomData]"
| "copy_data_tags CuckooMeta = [CuckooData]"
| "copy_data_tags SortedIntMeta = [SortedIntData]"
| "copy_data_tags TimeSeriesMeta = [TimeSeriesData]"
| "copy_data_tags StreamMeta = [StreamData, StreamGroup, StreamConsumer, StreamPel]"
| "copy_data_tags JsonMeta = [JsonData]"
| "copy_data_tags TDigestMeta = [TDigestData]"
| "copy_data_tags HllMeta = [HllRaw]"
| "copy_data_tags _ = []"

definition copy_tag ::
    "'p engine \<Rightarrow> key_composer \<Rightarrow> 'p wedb \<Rightarrow> bytes \<Rightarrow> bytes \<Rightarrow> bool \<Rightarrow> batch \<Rightarrow> key_tag \<Rightarrow> batch" where
  "copy_tag E kc s src dst delete_old batch dtag =
     (if dtag = HllRaw then
        (let src_k = compose_meta_key_into kc (tag_slice dtag) src;
             dst_k = compose_meta_key_into kc (tag_slice dtag) dst
         in case e_get E (w_data s) src_k of
              None \<Rightarrow> batch
            | Some val \<Rightarrow>
                (let batch = insert_data dst_k val batch
                 in if delete_old then rm_data src_k batch else batch))
      else
        (let src_prefix = compose_prefix kc (tag_slice dtag) src;
             dst_prefix = compose_prefix kc (tag_slice dtag) dst
         in foldl (\<lambda>batch (k, v).
                let batch = insert_data (dst_prefix @ drop (length src_prefix) k) v batch
                in if delete_old then rm_data k batch else batch)
              batch (takeWhile (\<lambda>(k, _). prefix src_prefix k) (e_prefix E (w_data s) src_prefix))))"

definition copy_impl ::
    "'p engine \<Rightarrow> key_composer \<Rightarrow> u64 \<Rightarrow> u64 \<Rightarrow> bytes \<Rightarrow> bytes \<Rightarrow> bool \<Rightarrow> bool \<Rightarrow> 'p wedb \<Rightarrow> bool \<times> 'p wedb" where
  "copy_impl E kc now_ms ts src dst nx delete_old s =
     (if src = dst then
        (if \<not> exists_impl E kc s now_ms [src] > 0 then (False, s) else (\<not> nx, s))
      else if nx \<and> exists_impl E kc s now_ms [dst] > 0 then (False, s)
      else
        let src_raw_k = as_bytes (raw_key kc src);
            dst_raw_k = as_bytes (raw_key kc dst);
            wipe = (if \<not> nx then cleanup_all_composite_data E s kc dst (rm_data dst_raw_k []) else []);
            composite =
              (if e_is_empty E (w_meta s) then (False, s)
               else case find_active_composite_meta E kc s src now_ms of
                 None \<Rightarrow> (False, s)
               | Some (tg, _, raw_guard) \<Rightarrow>
                   (let (new_version, s1) = next_version ts s;
                        is_kvrocks = raw_guard ! 0 AND META_64BIT_ENCODING_MASK \<noteq> 0
                          \<or> length raw_guard \<ge> 25 \<and> raw_guard ! 0 > 14;
                        ver_offset = (if is_kvrocks then 9 else 10);
                        dst_meta_val = (if length raw_guard \<ge> ver_offset + 8
                                        then put raw_guard ver_offset (to_be64 new_version)
                                        else raw_guard);
                        batch = insert_meta (compose_meta_key_into kc [tg] dst) dst_meta_val wipe
                    in case tag_from_u8 tg of
                         None \<Rightarrow> (False, s1)
                       | Some key_tag \<Rightarrow>
                           (let batch = foldl (copy_tag E kc s src dst delete_old) batch
                                          (copy_data_tags key_tag);
                                batch = (if delete_old
                                         then rm_meta (compose_meta_key_into kc [tg] src) batch
                                         else batch)
                            in (True, commit E batch s1))))
        in case e_get E (w_data s) src_raw_k of
             None \<Rightarrow> composite
           | Some src_val \<Rightarrow>
               (if \<not> is_string_expired (fst (decode_string_value src_val)) now_ms then
                  (let batch = insert_data dst_raw_k src_val wipe;
                       batch = (if delete_old then rm_data src_raw_k batch else batch)
                   in (True, commit E batch s))
                else composite))"


definition renamenx ::
    "'p engine \<Rightarrow> key_composer \<Rightarrow> u64 \<Rightarrow> u64 \<Rightarrow> bytes \<Rightarrow> bytes \<Rightarrow> 'p wedb \<Rightarrow> error + (bool \<times> 'p wedb)" where
  "renamenx E kc now_ms ts src dst s =
     (if \<not> exists_one E kc s now_ms src then Inl (NotFound ERR_NO_SUCH_KEY)
      else if src = dst then Inr (False, s)
      else Inr (copy_impl E kc now_ms ts src dst True True s))"

section \<open>Live strings and live metadata\<close>

definition live_string :: "kv_map \<Rightarrow> key_composer \<Rightarrow> bytes \<Rightarrow> u64 \<Rightarrow> bytes option" where
  "live_string d kc k now =
     (case d (meta_key kc RawString k) of
        None \<Rightarrow> None | Some raw \<Rightarrow> decode_live_string_value raw now)"

definition live_meta :: "kv_map \<Rightarrow> key_composer \<Rightarrow> bytes \<Rightarrow> u64 \<Rightarrow> key_tag \<Rightarrow> key_meta option" where
  "live_meta m kc k now t =
     (case m (meta_key kc t k) of
        None \<Rightarrow> None
      | Some b \<Rightarrow>
          (case km_decode b of
             None \<Rightarrow> None | Some km \<Rightarrow> if km_is_expired km now then None else Some km))"

text \<open>A live structure of another type than \<open>t\<close>.\<close>

definition other_live :: "kv_map \<Rightarrow> key_composer \<Rightarrow> bytes \<Rightarrow> u64 \<Rightarrow> key_tag \<Rightarrow> bool" where
  "other_live m kc k now t \<longleftrightarrow>
     (\<exists>u\<in>set composite_meta_tags. u \<noteq> t \<and> live_meta m kc k now u \<noteq> None)"

lemma compose_meta_key_tag [simp]: "compose_meta_key_into kc (tag_slice t) k = meta_key kc t k"
  by (simp add: compose_meta_key_into_eq meta_key_def)

lemma compose_meta_key_tag_u8 [simp]: "compose_meta_key_into kc [tag_u8 t] k = meta_key kc t k"
  using compose_meta_key_tag [of kc t k] by (simp add: tag_slice_def)

lemma compose_meta_key_stack_tag [simp]:
  "as_bytes (compose_meta_key_stack kc (tag_slice t) k) = meta_key kc t k"
  by (simp add: meta_key_def)

lemma compose_prefix_tag [simp]: "compose_prefix kc (tag_slice t) k = subkey_prefix kc t k"
  by (simp add: compose_prefix_eq subkey_prefix_def)

lemma live_string_iff:
  "live_string d kc k now \<noteq> None \<longleftrightarrow>
     (\<exists>raw. d (meta_key kc RawString k) = Some raw
        \<and> \<not> is_string_expired (fst (decode_string_value raw)) now)"
  by (auto simp: live_string_def decode_live_string_value_def split: option.splits prod.splits)

lemma check_tags_spec:
  "check_tags E p kc k (tag_slice t) now ts =
     (if \<exists>u\<in>set ts. u \<noteq> t \<and> live_meta (e_get E p) kc k now u \<noteq> None
      then Inl wrong_type_default else Inr ())"
  by (induction ts) (auto simp: live_meta_def wrong_type_default_def split: option.splits)

lemma find_active_tags_spec:
  "find_active_tags E p kc k now ts =
     (case find (\<lambda>t. live_meta (e_get E p) kc k now t \<noteq> None) ts of
        None \<Rightarrow> None
      | Some t \<Rightarrow> Some (tag_u8 t, the (live_meta (e_get E p) kc k now t), the (e_get E p (meta_key kc t k))))"
  by (induction ts) (auto simp: live_meta_def split: option.splits)

lemma find_None_iff_all: "find P xs = None \<longleftrightarrow> (\<forall>x\<in>set xs. \<not> P x)"
  by (auto simp: find_None_iff)

text \<open>Exactly one live structure is the one that is found.\<close>

lemma find_unique: "x \<in> set xs \<Longrightarrow> P x \<Longrightarrow> (\<And>y. y \<in> set xs \<Longrightarrow> P y \<Longrightarrow> y = x) \<Longrightarrow> find P xs = Some x"
proof (induction xs)
  case (Cons a xs)
  show ?case
  proof (cases "P a")
    case True
    with Cons.prems(3) have "a = x" by simp
    with True show ?thesis by simp
  next
    case False
    with Cons show ?thesis by (metis find.simps(2) list.set_intros(2) set_ConsD)
  qed
qed simp

text \<open>The outcome of the generic metadata lookup, in the order the code decides it.\<close>

definition live_own :: "'m meta_ops \<Rightarrow> kv_map \<Rightarrow> key_composer \<Rightarrow> bytes \<Rightarrow> u64 \<Rightarrow> 'm option" where
  "live_own M m kc k now =
     (case m (meta_key kc (mo_tag M) k) of
        None \<Rightarrow> None
      | Some b \<Rightarrow>
          (case mo_decode M b of
             None \<Rightarrow> None | Some x \<Rightarrow> if mo_is_expired M x now then None else Some x))"

context kv_engine
begin

lemmas [simp] = e_get_dat e_get_met

lemma e_is_empty_iff: "e_is_empty E p \<longleftrightarrow> e_get E p = Map.empty"
proof -
  have "e_iter E p = [] \<longleftrightarrow> (\<forall>k v. (k, v) \<notin> set (e_iter E p))"
    by (metis list.set_intros(1) neq_Nil_conv surj_pair empty_iff list.set(1))
  moreover have "(\<forall>k v. e_get E p k \<noteq> Some v) \<longleftrightarrow> e_get E p = Map.empty"
    using not_None_eq by fastforce
  ultimately show ?thesis
    by (simp add: e_is_empty_def e_iter_def range_entries)
qed

lemma live_meta_empty: "live_meta Map.empty kc k now t = None"
  by (simp add: live_meta_def)

lemma check_composite_spec:
  "check_composite_meta_not_other_type E kc s k (tag_slice t) now
     = (if other_live (met E s) kc k now t then Inl wrong_type_default else Inr ())"
  by (simp add: check_composite_meta_not_other_type_def e_is_empty_iff check_tags_spec
      check_composite_meta_not_other_type_with_buf_def other_live_def live_meta_empty)

lemma check_key_not_other_type_spec:
  "check_key_not_other_type E kc s k (tag_slice t) now
     = (if live_string (dat E s) kc k now \<noteq> None \<or> other_live (met E s) kc k now t
        then Inl wrong_type_default else Inr ())"
  unfolding live_string_iff
  by (auto simp: check_key_not_other_type_def check_composite_spec wrong_type_default_def Let_def
      split: option.splits)

lemma find_active_spec:
  "find_active_composite_meta E kc s k now =
     (case find (\<lambda>t. live_meta (met E s) kc k now t \<noteq> None) composite_meta_tags of
        None \<Rightarrow> None
      | Some t \<Rightarrow> Some (tag_u8 t, the (live_meta (met E s) kc k now t), the (met E s (meta_key kc t k))))"
proof -
  have "find (\<lambda>t. live_meta Map.empty kc k now t \<noteq> None) composite_meta_tags = None"
    by (simp add: live_meta_empty find_None_iff_all)
  then show ?thesis
    by (simp add: find_active_composite_meta_def e_is_empty_iff find_active_tags_spec
        cong: option.case_cong)
qed

lemma find_active_None_iff:
  "find_active_composite_meta E kc s k now = None
     \<longleftrightarrow> (\<forall>t\<in>set composite_meta_tags. live_meta (met E s) kc k now t = None)"
  by (auto simp: find_active_spec find_None_iff_all find_Some_iff split: option.splits)

lemma exists_one_spec:
  "exists_one E kc s now k \<longleftrightarrow>
     live_string (dat E s) kc k now \<noteq> None
       \<or> (\<exists>t\<in>set composite_meta_tags. live_meta (met E s) kc k now t \<noteq> None)"
  unfolding live_string_iff
  using find_active_None_iff [of kc s k now]
  by (auto simp: exists_one_def split: option.splits)

lemma get_meta_checked_spec:
  "get_meta_checked E M kc s k (meta_key kc (mo_tag M) k) now =
     (if live_string (dat E s) kc k now \<noteq> None then Inl wrong_type_default
      else case live_own M (met E s) kc k now of
        Some x \<Rightarrow> Inr (Some x)
      | None \<Rightarrow>
          if other_live (met E s) kc k now (mo_tag M) then Inl wrong_type_default else Inr None)"
  unfolding live_string_iff
  by (auto simp: get_meta_checked_def live_own_def check_composite_spec wrong_type_default_def Let_def
      split: option.splits if_splits)

end

section \<open>The physical keys of a user key\<close>

text \<open>A key that stores a whole value or a metadata record ends with the user key; a subkey
  has the user key framed in the middle. \<open>owns\<close> collects both for one user key.\<close>

definition owns :: "key_composer \<Rightarrow> bytes \<Rightarrow> bytes \<Rightarrow> bool" where
  "owns kc k x \<longleftrightarrow>
     (\<exists>t\<in>set whole_key_tags. x = meta_key kc t k)
   \<or> (\<exists>t sub. t \<notin> set whole_key_tags \<and> x = subkey_prefix kc t k @ sub)"

lemma owns_meta: "t \<in> set whole_key_tags \<Longrightarrow> owns kc k (meta_key kc t k)"
  by (auto simp: owns_def)

lemma owns_sub: "t \<notin> set whole_key_tags \<Longrightarrow> owns kc k (subkey_prefix kc t k @ sub)"
  by (auto simp: owns_def)

lemma meta_key_subkey_iff:
  "meta_key a t k = subkey_prefix b u l @ xs \<longleftrightarrow> a = b \<and> t = u \<and> k = framed l @ xs"
  by (auto simp: meta_key_def subkey_prefix_def tag_slice_def)

text \<open>Different user keys, databases or namespaces have no physical key in common.\<close>

lemma owns_unique:
  assumes "owns a k x" and "owns b l x" and "key_fits k" and "key_fits l"
  shows "a = b \<and> k = l"
  using assms
  by (auto simp: owns_def meta_key_subkey_iff meta_key_subkey_iff [symmetric, THEN eq_commute [THEN iffD1]]
      dest: sym)

section \<open>Batches of removals\<close>

definition only_rm :: "batch \<Rightarrow> bool" where
  "only_rm ops \<longleftrightarrow> (\<forall>op\<in>set ops. \<exists>p x. op = BRm p x)"

lemma only_rm_simps [simp]:
  "only_rm []" "only_rm (a @ b) \<longleftrightarrow> only_rm a \<and> only_rm b" "only_rm (map (BRm p) ks)"
  "only_rm (BRm p x # ops) \<longleftrightarrow> only_rm ops"
  by (auto simp: only_rm_def)

lemma apply_only_rm:
  "only_rm ops \<Longrightarrow> apply_ops p ops m x = (if BRm p x \<in> set ops then None else m x)"
proof (induction ops arbitrary: m)
  case (Cons op ops)
  then obtain q y where "op = BRm q y" by (auto simp: only_rm_def)
  with Cons show ?case by (auto simp: only_rm_def)
qed simp

context kv_engine
begin

lemma clear_tag_eq:
  "clear_tag E p kc s k t batch
     = batch @ map (BRm p) (map fst (e_prefix E (part_of p s) (subkey_prefix kc t k)))"
  by (simp add: clear_tag_def clear_prefix_eq del: map_map)

lemma clear_tag_set:
  "BRm q x \<in> set (clear_tag E p kc s k t batch) \<longleftrightarrow>
     BRm q x \<in> set batch
     \<or> q = p \<and> prefix (subkey_prefix kc t k) x \<and> x \<in> dom (e_get E (part_of p s))"
  using prefix_keys [of "part_of p s" "subkey_prefix kc t k"]
  by (auto simp: clear_tag_eq simp del: map_map)

text \<open>Cleaning a structure only queues removals, whatever was queued before.\<close>

lemma cleanup_unfold:
  "cleanup_composite_data E s kc (tag_slice t) k batch =
     (let data = \<lambda>t b. clear_tag E PData kc s k t b;
          meta = \<lambda>t b. clear_tag E PMeta kc s k t b
      in case t of
           HashMeta \<Rightarrow> data HashData batch
         | ListMeta \<Rightarrow> data ListData batch
         | SetMeta \<Rightarrow> data SetData batch
         | ZSetMeta \<Rightarrow> data ZSetScore (data ZSetData batch)
         | BitmapMeta \<Rightarrow> data BitmapData batch
         | BloomMeta \<Rightarrow> data BloomData batch
         | CuckooMeta \<Rightarrow> data CuckooData batch
         | SortedIntMeta \<Rightarrow> data SortedIntData batch
         | TimeSeriesMeta \<Rightarrow> meta TimeSeriesData (data TimeSeriesData batch)
         | StreamMeta \<Rightarrow>
             data StreamPel (data StreamConsumer (data StreamGroup (data StreamData batch)))
         | HllMeta \<Rightarrow> rm_data (meta_key kc HllRaw k) batch
         | JsonMeta \<Rightarrow> data JsonData batch
         | TDigestMeta \<Rightarrow> data TDigestData batch
         | FtSchema \<Rightarrow> meta FtData (data FtData (meta FtIndex (data FtIndex batch)))
         | FtAlias \<Rightarrow> meta FtData (data FtData (meta FtIndex (data FtIndex batch)))
         | _ \<Rightarrow> batch)"
  by (simp add: cleanup_composite_data_def cleanup_composite_data_raw_def tag_slice_def [of t]
      cong: key_tag.case_cong)

lemma cleanup_append:
  "cleanup_composite_data E s kc (tag_slice t) k batch
     = batch @ cleanup_composite_data E s kc (tag_slice t) k []"
  by (cases t) (simp_all add: cleanup_unfold Let_def clear_tag_eq rm_data_def del: map_map)

lemma cleanup_only_rm: "only_rm (cleanup_composite_data E s kc (tag_slice t) k [])"
  by (cases t) (simp_all add: cleanup_unfold Let_def clear_tag_eq rm_data_def del: map_map)

lemma clear_tag_owns:
  assumes "BRm q x \<in> set (clear_tag E p kc s k t batch)" and "t \<notin> set whole_key_tags"
  shows "BRm q x \<in> set batch \<or> owns kc k x"
  using assms by (auto simp: clear_tag_set prefix_def owns_sub)

lemma cleanup_owns:
  "BRm q x \<in> set (cleanup_composite_data E s kc (tag_slice t) k []) \<Longrightarrow> owns kc k x"
  by (cases t)
    (auto simp: cleanup_unfold Let_def rm_data_def owns_meta whole_key_tags_def dest!: clear_tag_owns)

end

section \<open>Where a structure keeps its data\<close>

text \<open>The data tags of a structure are those with its type name. The HyperLogLog registers lie
  under one key of their own, all other data under subkeys.\<close>

definition data_of :: "key_tag \<Rightarrow> key_tag set" where
  "data_of t = {u. is_data u \<and> tag_type_name u = tag_type_name t}"

definition sub_at :: "key_composer \<Rightarrow> key_tag \<Rightarrow> bytes \<Rightarrow> bytes \<Rightarrow> bytes" where
  "sub_at kc u k sub = (if u = HllRaw then meta_key kc u k else subkey_prefix kc u k @ sub)"

lemma data_of_simps:
  "data_of HashMeta = {HashData}" "data_of ListMeta = {ListData}" "data_of SetMeta = {SetData}"
  "data_of ZSetMeta = {ZSetScore, ZSetData}" "data_of BloomMeta = {BloomData}"
  "data_of CuckooMeta = {CuckooData}" "data_of BitmapMeta = {BitmapData}" "data_of HllMeta = {HllRaw}"
  "data_of JsonMeta = {JsonData}" "data_of SortedIntMeta = {SortedIntData}"
  "data_of StreamMeta = {StreamData, StreamGroup, StreamConsumer, StreamPel}"
  "data_of TDigestMeta = {TDigestData}" "data_of TimeSeriesMeta = {TimeSeriesData}"
  "data_of FtSchema = {FtIndex, FtData}" "data_of FtAlias = {FtIndex, FtData}"
  by (auto simp: data_of_def is_data_def)

lemma data_of_copy: "t \<in> set composite_meta_tags \<Longrightarrow> set (copy_data_tags t) = data_of t"
  by (cases t) (auto simp: composite_meta_tags_def data_of_def is_data_def)

lemma data_not_whole: "u \<in> data_of t \<Longrightarrow> u \<noteq> HllRaw \<Longrightarrow> u \<notin> set whole_key_tags"
  by (auto simp: data_of_def is_data_def whole_key_tags_def)

lemma sub_at_owns: "u \<in> data_of t \<Longrightarrow> owns kc k (sub_at kc u k sub)"
  using data_not_whole [of u t]
  by (auto simp: sub_at_def owns_sub whole_key_tags_def intro: owns_meta)

lemma sub_at_inject:
  assumes "sub_at kc u k sub = sub_at kc v l sub'" and "key_fits k" and "key_fits l"
  shows "u = v \<and> k = l \<and> (u \<noteq> HllRaw \<longrightarrow> sub = sub')"
  using assms meta_not_subkey [of u v kc k kc l sub'] meta_not_subkey [of v u kc l kc k sub]
  by (auto simp: sub_at_def split: if_splits)

text \<open>Cleaning up a structure removes all its data, and the subkeys a time series keeps in the
  metadata partition.\<close>

context kv_engine
begin

lemma cleanup_complete:
  assumes "t \<in> set composite_meta_tags" and "u \<in> data_of t" and "dat E s (sub_at kc u k sub) \<noteq> None"
  shows "BRm PData (sub_at kc u k sub) \<in> set (cleanup_composite_data E s kc (tag_slice t) k [])"
  using assms unfolding data_of_copy [OF assms(1), symmetric]
  by (cases t)
    (auto simp: cleanup_unfold Let_def rm_data_def clear_tag_set composite_meta_tags_def sub_at_def)

lemma cleanup_rules:
  assumes "met E s (subkey_prefix kc TimeSeriesData k @ sub) \<noteq> None"
  shows "BRm PMeta (subkey_prefix kc TimeSeriesData k @ sub)
    \<in> set (cleanup_composite_data E s kc (tag_slice TimeSeriesMeta) k [])"
  using assms by (auto simp: cleanup_unfold Let_def clear_tag_set)

lemma cleanup_meta_rules:
  assumes "BRm PMeta x \<in> set (cleanup_composite_data E s kc (tag_slice t) k [])" and "t \<in> set composite_meta_tags"
  shows "t = TimeSeriesMeta \<and> (\<exists>sub. x = subkey_prefix kc TimeSeriesData k @ sub)"
  using assms
  by (cases t) (auto simp: cleanup_unfold Let_def rm_data_def clear_tag_set composite_meta_tags_def prefix_def)

text \<open>The subkeys kept in the metadata partition: the rules of a time series and the index of a
  full-text schema.\<close>

lemma cleanup_data_iff:
  assumes "is_meta t" and "dat E s x \<noteq> None"
  shows "BRm PData x \<in> set (cleanup_composite_data E s kc (tag_slice t) k [])
    \<longleftrightarrow> (\<exists>u\<in>data_of t. \<exists>sub. x = sub_at kc u k sub)"
  using assms
  by (cases t)
    (auto simp: cleanup_unfold Let_def rm_data_def clear_tag_set is_meta_def data_of_simps sub_at_def prefix_def)

lemma cleanup_meta_iff:
  assumes "is_meta t" and "met E s x \<noteq> None"
  shows "BRm PMeta x \<in> set (cleanup_composite_data E s kc (tag_slice t) k [])
    \<longleftrightarrow> t \<in> {TimeSeriesMeta, FtSchema, FtAlias} \<and> (\<exists>u\<in>data_of t. \<exists>sub. x = sub_at kc u k sub)"
  using assms
  by (cases t)
    (auto simp: cleanup_unfold Let_def rm_data_def clear_tag_set is_meta_def data_of_simps sub_at_def prefix_def)

end

section \<open>DEL\<close>

text \<open>The first metadata record that is stored for a key, live or not.\<close>

definition first_record :: "kv_map \<Rightarrow> key_composer \<Rightarrow> bytes \<Rightarrow> key_tag option" where
  "first_record m kc k = find (\<lambda>t. m (meta_key kc t k) \<noteq> None) composite_meta_tags"

lemma first_recordD: "first_record m kc k = Some t \<Longrightarrow> t \<in> set composite_meta_tags \<and> m (meta_key kc t k) \<noteq> None"
  by (auto simp: first_record_def find_Some_iff)

text \<open>What one round of DEL queues: the raw string if there is one, and, when no live string
  was hit, the first metadata record that is stored, with its subkeys.\<close>

definition del_ops :: "'p engine \<Rightarrow> key_composer \<Rightarrow> 'p wedb \<Rightarrow> u64 \<Rightarrow> bytes \<Rightarrow> batch" where
  "del_ops E kc s now k =
     (if dat E s (meta_key kc RawString k) \<noteq> None then [BRm PData (meta_key kc RawString k)] else [])
   @ (if live_string (dat E s) kc k now \<noteq> None then []
      else case first_record (met E s) kc k of
        None \<Rightarrow> []
      | Some t \<Rightarrow> BRm PMeta (meta_key kc t k) # cleanup_composite_data E s kc (tag_slice t) k [])"

definition del_hit :: "'p engine \<Rightarrow> key_composer \<Rightarrow> 'p wedb \<Rightarrow> u64 \<Rightarrow> bytes \<Rightarrow> bool" where
  "del_hit E kc s now k \<longleftrightarrow>
     live_string (dat E s) kc k now \<noteq> None
   \<or> (case first_record (met E s) kc k of
        None \<Rightarrow> False | Some t \<Rightarrow> live_meta (met E s) kc k now t \<noteq> None)"

context kv_engine
begin

lemma del_tags_spec:
  "del_tags E kc s now k ts batch =
     (case find (\<lambda>t. met E s (meta_key kc t k) \<noteq> None) ts of
        None \<Rightarrow> (batch, False)
      | Some t \<Rightarrow>
          (batch @ BRm PMeta (meta_key kc t k) # cleanup_composite_data E s kc (tag_slice t) k [],
           live_meta (met E s) kc k now t \<noteq> None))"
proof (induction ts)
  case (Cons t ts)
  then show ?case
    using cleanup_append [of s kc t k "rm_meta (meta_key kc t k) batch"]
    by (auto simp: rm_meta_def live_meta_def split: option.splits)
qed simp

lemma live_meta_present: "live_meta m kc k now t \<noteq> None \<Longrightarrow> m (meta_key kc t k) \<noteq> None"
  by (auto simp: live_meta_def split: option.splits)

lemma composite_whole: "t \<in> set composite_meta_tags \<Longrightarrow> t \<in> set whole_key_tags"
  by (auto simp: composite_meta_tags_def whole_key_tags_def)

lemma find_met_empty: "met E s = Map.empty \<Longrightarrow> find (\<lambda>t. met E s (meta_key kc t k) \<noteq> None) ts = None"
  by (simp add: find_None_iff_all)

lemma del_key_spec:
  "del_key E kc s now (batch, n) k
     = (batch @ del_ops E kc s now k, if del_hit E kc s now k then n + 1 else n)"
proof (cases "dat E s (meta_key kc RawString k)")
  case None
  then have "live_string (dat E s) kc k now = None" by (simp add: live_string_def)
  then show ?thesis
    using None find_met_empty [of s kc k composite_meta_tags]
    by (auto simp: del_key_def del_ops_def del_hit_def first_record_def del_tags_spec e_is_empty_iff Let_def
        split: option.splits)
next
  case (Some raw)
  show ?thesis
  proof (cases "is_string_expired (fst (decode_string_value raw)) now")
    case True
    then have "live_string (dat E s) kc k now = None"
      using Some live_string_iff [of "dat E s" kc k now] by auto
    then show ?thesis
      using Some True find_met_empty [of s kc k composite_meta_tags]
      by (auto simp: del_key_def del_ops_def del_hit_def first_record_def del_tags_spec e_is_empty_iff Let_def rm_data_def
          split: option.splits)
  next
    case False
    then have "live_string (dat E s) kc k now \<noteq> None"
      using Some live_string_iff [of "dat E s" kc k now] by auto
    then show ?thesis
      using Some False
      by (simp add: del_key_def del_ops_def del_hit_def first_record_def rm_data_def)
  qed
qed

lemma del_ops_only_rm: "only_rm (del_ops E kc s now k)"
  by (auto simp: del_ops_def cleanup_only_rm split: option.splits)

lemma del_ops_owns: "BRm p x \<in> set (del_ops E kc s now k) \<Longrightarrow> owns kc k x"
  by (auto simp: del_ops_def whole_key_tags_def intro!: owns_meta
      dest: cleanup_owns composite_whole [OF conjunct1 [OF first_recordD]] split: option.splits if_splits)

lemma del_fold:
  "foldl (del_key E kc s now) (batch, n) keys
     = (batch @ concat (map (del_ops E kc s now) keys),
        n + length (filter (del_hit E kc s now) keys))"
  by (induction keys arbitrary: batch n) (simp_all add: del_key_spec)

lemma del_impl_eq:
  "del_impl E kc now keys s
     = (length (filter (del_hit E kc s now) keys), commit E (concat (map (del_ops E kc s now) keys)) s)"
  by (simp add: del_impl_def del_fold)

lemma only_rm_concat: "(\<And>b. b \<in> set bs \<Longrightarrow> only_rm b) \<Longrightarrow> only_rm (concat bs)"
  by (auto simp: only_rm_def)

lemma del_frame:
  assumes "\<forall>k\<in>set keys. \<not> owns kc k x"
  shows "dat E (snd (del_impl E kc now keys s)) x = dat E s x"
    and "met E (snd (del_impl E kc now keys s)) x = met E s x"
proof -
  have "only_rm (concat (map (del_ops E kc s now) keys))"
    by (rule only_rm_concat) (auto simp: del_ops_only_rm)
  moreover have "BRm p x \<notin> set (concat (map (del_ops E kc s now) keys))" for p
    using assms del_ops_owns by fastforce
  ultimately show "dat E (snd (del_impl E kc now keys s)) x = dat E s x"
    "met E (snd (del_impl E kc now keys s)) x = met E s x"
    by (simp_all add: del_impl_eq apply_only_rm)
qed

end

context kv_engine
begin

lemma live_meta_cong: "m (meta_key kc t k) = m' (meta_key kc t k) \<Longrightarrow> live_meta m kc k now t = live_meta m' kc k now t"
  by (simp add: live_meta_def)

text \<open>What DEL of one key leaves.\<close>

lemma del_state:
  "dat E (snd (del_impl E kc now [k] s)) x = (if BRm PData x \<in> set (del_ops E kc s now k) then None else dat E s x)"
  "met E (snd (del_impl E kc now [k] s)) x = (if BRm PMeta x \<in> set (del_ops E kc s now k) then None else met E s x)"
  by (simp_all add: del_impl_eq apply_only_rm del_ops_only_rm)

lemma del_ops_meta:
  assumes "u \<in> set composite_meta_tags"
  shows "BRm PMeta (meta_key kc u k) \<in> set (del_ops E kc s now k)
    \<longleftrightarrow> live_string (dat E s) kc k now = None \<and> first_record (met E s) kc k = Some u"
proof -
  have "BRm PMeta (meta_key kc u k) \<notin> set (cleanup_composite_data E s kc (tag_slice t) k [])"
    if "t \<in> set composite_meta_tags" for t
  proof
    assume "BRm PMeta (meta_key kc u k) \<in> set (cleanup_composite_data E s kc (tag_slice t) k [])"
    from cleanup_meta_rules [OF this that] obtain sub where "meta_key kc u k = subkey_prefix kc TimeSeriesData k @ sub"
      by blast
    then show False using assms meta_not_subkey [of u TimeSeriesData kc k kc k sub] by (auto simp: composite_meta_tags_def)
  qed
  then show ?thesis
    using first_recordD [of "met E s" kc k]
    by (cases "first_record (met E s) kc k") (auto simp: del_ops_def simp del: not_None_eq)
qed

lemma del_records:
  "dat E (snd (del_impl E kc now [k] s)) (meta_key kc RawString k) = None"
  "u \<in> set composite_meta_tags \<Longrightarrow> met E (snd (del_impl E kc now [k] s)) (meta_key kc u k)
     = (if live_string (dat E s) kc k now = None \<and> first_record (met E s) kc k = Some u then None
        else met E s (meta_key kc u k))"
  unfolding del_state using del_ops_meta [of u kc k s now] by (auto simp: del_ops_def)

lemma del_data:
  assumes "live_string (dat E s) kc k now = None" and "first_record (met E s) kc k = Some t"
  shows "u \<in> data_of t \<Longrightarrow> dat E (snd (del_impl E kc now [k] s)) (sub_at kc u k sub) = None"
    and "t = TimeSeriesMeta \<Longrightarrow> met E (snd (del_impl E kc now [k] s)) (subkey_prefix kc TimeSeriesData k @ sub) = None"
proof -
  have t: "t \<in> set composite_meta_tags" using first_recordD [OF assms(2)] by simp
  have ops: "set (cleanup_composite_data E s kc (tag_slice t) k []) \<subseteq> set (del_ops E kc s now k)"
    using assms by (auto simp: del_ops_def)
  show "dat E (snd (del_impl E kc now [k] s)) (sub_at kc u k sub) = None" if "u \<in> data_of t"
    using cleanup_complete [OF t that, of s kc k sub] ops by (cases "dat E s (sub_at kc u k sub)") (auto simp: del_state)
  show "met E (snd (del_impl E kc now [k] s)) (subkey_prefix kc TimeSeriesData k @ sub) = None" if "t = TimeSeriesMeta"
    using cleanup_rules [of s kc k sub] ops that
    by (cases "met E s (subkey_prefix kc TimeSeriesData k @ sub)") (auto simp: del_state)
qed

lemma del_exists:
  "exists_one E kc (snd (del_impl E kc now [k] s)) now k \<longleftrightarrow>
     (\<exists>u\<in>set composite_meta_tags. live_meta (met E s) kc k now u \<noteq> None
        \<and> (live_string (dat E s) kc k now \<noteq> None \<or> first_record (met E s) kc k \<noteq> Some u))"
proof -
  have "live_string (dat E (snd (del_impl E kc now [k] s))) kc k now = None"
    by (simp add: live_string_def del_records)
  moreover have "live_meta (met E (snd (del_impl E kc now [k] s))) kc k now u
      = (if live_string (dat E s) kc k now = None \<and> first_record (met E s) kc k = Some u then None
         else live_meta (met E s) kc k now u)" if "u \<in> set composite_meta_tags" for u
    using del_records(2) [OF that, of kc now k s] by (simp add: live_meta_def)
  ultimately show ?thesis unfolding exists_one_spec by auto
qed

end

section \<open>COPY and RENAME\<close>

text \<open>The last operation on a key decides; when all operations on it agree, any of them does.\<close>

fun op_val :: "batch_op \<Rightarrow> bytes option" where
  "op_val (BInsert p k v) = Some v"
| "op_val (BRm p k) = None"
| "op_val (BRmWeak p k) = None"

lemma apply_op_val: "op_key op = (p, x) \<Longrightarrow> apply_op p m op x = op_val op"
  by (cases op) auto

lemma apply_ops_agree:
  assumes "\<forall>op\<in>set ops. op_key op = (p, x) \<longrightarrow> op_val op = r" and "(p, x) \<in> op_key ` set ops"
  shows "apply_ops p ops m x = r"
  using assms
proof (induction ops rule: rev_induct)
  case (snoc op ops)
  show ?case
  proof (cases "op_key op = (p, x)")
    case True
    with snoc.prems(1) show ?thesis by (simp add: apply_op_val)
  next
    case False
    then have "apply_ops p [op] m' x = m' x" for m'
      by (intro apply_ops_frame) auto
    with False snoc show ?thesis by auto
  qed
qed simp

definition cleanup_all_ops :: "'p engine \<Rightarrow> key_composer \<Rightarrow> 'p wedb \<Rightarrow> bytes \<Rightarrow> batch" where
  "cleanup_all_ops E kc s k =
     concat (map (\<lambda>t. if met E s (meta_key kc t k) \<noteq> None
                     then BRm PMeta (meta_key kc t k) # cleanup_composite_data E s kc (tag_slice t) k []
                     else []) composite_meta_tags)"

context kv_engine
begin

lemma cleanup_all_fold:
  "foldl (\<lambda>b t. let mk = compose_meta_key_into kc (tag_slice t) k
             in if e_contains_key E (w_meta s) mk
                then cleanup_composite_data E s kc (tag_slice t) k (rm_meta mk b) else b) batch ts
   = batch @ concat (map (\<lambda>t. if met E s (meta_key kc t k) \<noteq> None
                     then BRm PMeta (meta_key kc t k) # cleanup_composite_data E s kc (tag_slice t) k []
                     else []) ts)"
proof (induction ts arbitrary: batch)
  case (Cons t ts)
  have "cleanup_composite_data E s kc (tag_slice t) k (rm_meta mk batch)
      = batch @ BRm PMeta mk # cleanup_composite_data E s kc (tag_slice t) k []" for mk
    using cleanup_append [of s kc t k "rm_meta mk batch"] by (simp add: rm_meta_def)
  then show ?case
    using Cons by (auto simp: Let_def dom_def)
qed simp

lemma cleanup_all_eq: "cleanup_all_composite_data E s kc k batch = batch @ cleanup_all_ops E kc s k"
proof (cases "e_is_empty E (w_meta s)")
  case True
  then have "met E s = Map.empty" by (simp add: e_is_empty_iff)
  with True show ?thesis by (simp add: cleanup_all_composite_data_def cleanup_all_ops_def)
next
  case False
  show ?thesis
    unfolding cleanup_all_composite_data_def if_not_P [OF False] cleanup_all_fold cleanup_all_ops_def ..
qed

lemma cleanup_all_only_rm: "only_rm (cleanup_all_ops E kc s k)"
  by (auto simp: cleanup_all_ops_def cleanup_only_rm intro!: only_rm_concat)

lemma cleanup_all_owns: "BRm p x \<in> set (cleanup_all_ops E kc s k) \<Longrightarrow> owns kc k x"
  by (auto simp: cleanup_all_ops_def composite_whole intro: owns_meta dest: cleanup_owns split: if_splits)

lemma cleanup_all_meta:
  "t \<in> set composite_meta_tags \<Longrightarrow> met E s (meta_key kc t k) \<noteq> None \<Longrightarrow>
     BRm PMeta (meta_key kc t k) \<in> set (cleanup_all_ops E kc s k)"
  by (auto simp: cleanup_all_ops_def)

lemma cleanup_all_sub:
  assumes "t \<in> set composite_meta_tags" and "met E s (meta_key kc t k) \<noteq> None"
    and "u \<in> data_of t" and "dat E s (sub_at kc u k sub) \<noteq> None"
  shows "BRm PData (sub_at kc u k sub) \<in> set (cleanup_all_ops E kc s k)"
  using cleanup_complete [OF assms(1,3,4)] assms(1,2) by (auto simp: cleanup_all_ops_def)

lemma prefix_takeWhile_all:
  "takeWhile (\<lambda>(k, _). prefix q k) (e_prefix E p q) = e_prefix E p q"
  by (rule takeWhile_eq_all_conv [THEN iffD2]) (auto dest: prefix_keysD)

lemma copy_fold:
  "foldl (\<lambda>batch (k, v).
        let batch = insert_data (dp @ drop n k) v batch
        in if del then rm_data k batch else batch) b xs
   = b @ concat (map (\<lambda>(k, v). BInsert PData (dp @ drop n k) v # (if del then [BRm PData k] else [])) xs)"
  by (induction xs arbitrary: b) (auto simp: insert_data_def rm_data_def Let_def)

lemma copy_tag_append:
  "copy_tag E kc s src dst del b u = b @ copy_tag E kc s src dst del [] u"
proof -
  have *: "copy_tag E kc s src dst del b u = b @ copy_tag E kc s src dst del [] u" if "u = HllRaw"
    using that by (simp add: copy_tag_def insert_data_def rm_data_def Let_def split: option.splits)
  have "copy_tag E kc s src dst del b u = b @ copy_tag E kc s src dst del [] u" if "u \<noteq> HllRaw"
    unfolding copy_tag_def if_not_P [OF that] Let_def [of "compose_prefix kc (tag_slice u) src"]
      Let_def [of "compose_prefix kc (tag_slice u) dst"] copy_fold by simp
  with * show ?thesis by blast
qed

lemma copy_tag_set:
  "op \<in> set (copy_tag E kc s src dst del [] u) \<longleftrightarrow>
     (\<exists>sub v. dat E s (sub_at kc u src sub) = Some v
        \<and> (op = BInsert PData (sub_at kc u dst sub) v \<or> del \<and> op = BRm PData (sub_at kc u src sub)))"
proof (cases "u = HllRaw")
  case True
  then show ?thesis
    by (auto simp: copy_tag_def sub_at_def insert_data_def rm_data_def Let_def split: option.splits)
next
  case False
  let ?sp = "subkey_prefix kc u src" and ?dp = "subkey_prefix kc u dst"
  have c: "copy_tag E kc s src dst del [] u = concat (map (\<lambda>(k, v).
      BInsert PData (?dp @ drop (length ?sp) k) v # (if del then [BRm PData k] else []))
        (e_prefix E (w_data s) ?sp))"
    unfolding copy_tag_def if_not_P [OF False] Let_def [of "compose_prefix kc (tag_slice u) src"]
      Let_def [of "compose_prefix kc (tag_slice u) dst"] copy_fold
    by (simp add: prefix_takeWhile_all)
  have e: "(k, v) \<in> set (e_prefix E (w_data s) ?sp) \<longleftrightarrow> (\<exists>sub. k = ?sp @ sub \<and> dat E s (?sp @ sub) = Some v)"
    for k v by (auto simp: prefix_entries prefix_def)
  show ?thesis
    unfolding c using False
    by (auto simp: sub_at_def e split: prod.splits if_splits)
      (force simp: e)+
qed

end

text \<open>Every data key of a structure that is stored belongs to a metadata record.\<close>

definition no_orphans :: "kv_map \<Rightarrow> kv_map \<Rightarrow> key_composer \<Rightarrow> bytes \<Rightarrow> key_tag \<Rightarrow> bool" where
  "no_orphans d m kc k t \<longleftrightarrow>
     (\<forall>u\<in>data_of t. \<forall>sub. d (sub_at kc u k sub) \<noteq> None \<longrightarrow> m (meta_key kc t k) \<noteq> None)"

lemma put_version:
  "put (km_encode km @ rest) 10 (to_be64 v) = km_encode (km\<lparr>km_version := v\<rparr>) @ rest"
  by (simp add: km_encode_def put_def)

lemma standard_header:
  "(km_encode km @ rest) ! 0 = rtype_u8 (km_rtype km)"
  "rtype_u8 t AND META_64BIT_ENCODING_MASK = 0" "\<not> 14 < rtype_u8 t"
proof -
  show "rtype_u8 t AND META_64BIT_ENCODING_MASK = 0"
    by (cases t) (simp_all add: META_64BIT_ENCODING_MASK_def)
qed (simp_all add: km_encode_def not_less)

definition copies :: "'p engine \<Rightarrow> key_composer \<Rightarrow> 'p wedb \<Rightarrow> bytes \<Rightarrow> bytes \<Rightarrow> bool \<Rightarrow> key_tag \<Rightarrow> batch" where
  "copies E kc s src dst del t = concat (map (copy_tag E kc s src dst del []) (copy_data_tags t))"

lemma foldl_append_concat:
  assumes "\<And>b u. f b u = b @ f [] u"
  shows "foldl f b us = b @ concat (map (f []) us)"
proof (induction us arbitrary: b)
  case (Cons u us)
  have "foldl f b (u # us) = foldl f (b @ f [] u) us"
    by (simp flip: assms)
  also have "\<dots> = (b @ f [] u) @ concat (map (f []) us)"
    by (rule Cons.IH)
  finally show ?case by simp
qed simp

context kv_engine
begin

lemma copies_set:
  assumes "t \<in> set composite_meta_tags"
  shows "op \<in> set (copies E kc s src dst del t) \<longleftrightarrow>
     (\<exists>u\<in>data_of t. \<exists>sub v. dat E s (sub_at kc u src sub) = Some v
        \<and> (op = BInsert PData (sub_at kc u dst sub) v \<or> del \<and> op = BRm PData (sub_at kc u src sub)))"
  by (auto simp: copies_def copy_tag_set data_of_copy [OF assms])

text \<open>The batch of a composite copy, and the state it leaves.\<close>

lemma copy_composite_eq:
  assumes "src \<noteq> dst" and "live_string (dat E s) kc src now = None"
    and t: "t \<in> set composite_meta_tags" and live: "live_meta (met E s) kc src now t = Some km"
    and "\<not> other_live (met E s) kc src now t"
    and raw: "met E s (meta_key kc t src) = Some (km_encode km @ rest)"
  shows "copy_impl E kc now ts src dst False del s =
     (True, commit E ((BRm PData (meta_key kc RawString dst) # cleanup_all_ops E kc s dst)
        @ [BInsert PMeta (meta_key kc t dst)
             (km_encode (km\<lparr>km_version := fst (next_version ts s)\<rparr>) @ rest)]
        @ copies E kc s src dst del t
        @ (if del then [BRm PMeta (meta_key kc t src)] else [])) (snd (next_version ts s)))"
proof -
  have f: "find_active_composite_meta E kc s src now
      = Some (tag_u8 t, km, km_encode km @ rest)"
  proof -
    have "find (\<lambda>t. live_meta (met E s) kc src now t \<noteq> None) composite_meta_tags = Some t"
      using assms(5) live t unfolding other_live_def by (intro find_unique) auto
    then show ?thesis by (simp add: find_active_spec live raw)
  qed
  have ne: "\<not> e_is_empty E (w_meta s)"
    using raw by (auto simp: e_is_empty_iff)
  have str: "case dat E s (meta_key kc RawString src) of None \<Rightarrow> True
      | Some v \<Rightarrow> is_string_expired (fst (decode_string_value v)) now"
    using assms(2) live_string_iff [of "dat E s" kc src now] by (auto split: option.splits)
  have cp: "foldl (copy_tag E kc s src dst del) b us
      = b @ concat (map (copy_tag E kc s src dst del []) us)" for b us
    by (rule foldl_append_concat) (rule copy_tag_append)
  show ?thesis
    unfolding copy_impl_def if_not_P [OF assms(1)] f
    using str ne assms(1)
    by (auto simp: Let_def standard_header split_beta cp put_version copies_def insert_meta_def
        rm_data_def rm_meta_def cleanup_all_eq split: option.splits)
qed

end

context kv_engine
begin

text \<open>What the copied data looks like on any data \<open>m\<close>.\<close>

lemma copied_dst:
  assumes "src \<noteq> dst" "key_fits src" "key_fits dst" "t \<in> set composite_meta_tags" and u: "u \<in> data_of t"
  shows "apply_ops PData (copies E kc s src dst del t) m (sub_at kc u dst sub)
    = (case dat E s (sub_at kc u src sub) of Some v \<Rightarrow> Some v | None \<Rightarrow> m (sub_at kc u dst sub))"
proof (cases "dat E s (sub_at kc u src sub)")
  case None
  have "op_key op \<noteq> (PData, sub_at kc u dst sub)" if "op \<in> set (copies E kc s src dst del t)" for op
    using that None assms
    by (auto simp: copies_set dest!: sub_at_inject) (metis None option.distinct(1) sub_at_def)
  then show ?thesis using None by (subst apply_ops_frame) force+
next
  case (Some v)
  have "\<forall>op\<in>set (copies E kc s src dst del t). op_key op = (PData, sub_at kc u dst sub) \<longrightarrow> op_val op = Some v"
    using Some assms by (auto simp: copies_set dest!: sub_at_inject) (metis option.inject sub_at_def)
  moreover have "BInsert PData (sub_at kc u dst sub) v \<in> set (copies E kc s src dst del t)"
    using assms Some by (auto simp: copies_set)
  then have "(PData, sub_at kc u dst sub) \<in> op_key ` set (copies E kc s src dst del t)" by force
  ultimately show ?thesis unfolding Some option.case by (rule apply_ops_agree)
qed

lemma copied_src:
  assumes "src \<noteq> dst" "key_fits src" "key_fits dst" "t \<in> set composite_meta_tags" and u: "u \<in> data_of t"
  shows "apply_ops PData (copies E kc s src dst True t) m (sub_at kc u src sub)
    = (if dat E s (sub_at kc u src sub) = None then m (sub_at kc u src sub) else None)"
proof (cases "dat E s (sub_at kc u src sub)")
  case None
  have "op_key op \<noteq> (PData, sub_at kc u src sub)" if "op \<in> set (copies E kc s src dst True t)" for op
    using that None assms by (auto simp: copies_set dest!: sub_at_inject)
  then show ?thesis using None by (subst apply_ops_frame) force+
next
  case (Some v)
  have "\<forall>op\<in>set (copies E kc s src dst True t). op_key op = (PData, sub_at kc u src sub) \<longrightarrow> op_val op = None"
    using assms by (auto simp: copies_set dest!: sub_at_inject)
  moreover have "BRm PData (sub_at kc u src sub) \<in> set (copies E kc s src dst True t)"
    using assms Some by (auto simp: copies_set)
  then have "(PData, sub_at kc u src sub) \<in> op_key ` set (copies E kc s src dst True t)" by force
  ultimately show ?thesis using apply_ops_agree [of _ PData "sub_at kc u src sub" None m] Some by simp
qed

lemma copied_other:
  assumes "t \<in> set composite_meta_tags"
    and "\<forall>u\<in>data_of t. \<forall>sub. x \<noteq> sub_at kc u src sub \<and> x \<noteq> sub_at kc u dst sub"
  shows "apply_ops PData (copies E kc s src dst del t) m x = m x"
  using assms by (intro apply_ops_frame) (auto simp: copies_set)

lemma copied_meta: "t \<in> set composite_meta_tags \<Longrightarrow> apply_ops PMeta (copies E kc s src dst del t) m = m"
  by (rule ext, rule apply_ops_frame) (auto simp: copies_set)

end

text \<open>The state after a move: what was under the destination is wiped first.\<close>

definition wipe_ops :: "'p engine \<Rightarrow> key_composer \<Rightarrow> 'p wedb \<Rightarrow> bytes \<Rightarrow> batch" where
  "wipe_ops E kc s dst = BRm PData (meta_key kc RawString dst) # cleanup_all_ops E kc s dst"

definition move_ops :: "'p engine \<Rightarrow> key_composer \<Rightarrow> 'p wedb \<Rightarrow> bytes \<Rightarrow> bytes \<Rightarrow> key_tag \<Rightarrow> bytes \<Rightarrow> batch" where
  "move_ops E kc s src dst t b = wipe_ops E kc s dst @ [BInsert PMeta (meta_key kc t dst) b]
     @ copies E kc s src dst True t @ [BRm PMeta (meta_key kc t src)]"

context kv_engine
begin

lemma wipe_apply: "apply_ops p (wipe_ops E kc s dst) m x = (if BRm p x \<in> set (wipe_ops E kc s dst) then None else m x)"
  by (rule apply_only_rm) (simp add: wipe_ops_def cleanup_all_only_rm)

lemma wipe_owns: "BRm p x \<in> set (wipe_ops E kc s dst) \<Longrightarrow> owns kc dst x"
  using cleanup_all_owns [of p x kc s dst] by (auto simp: wipe_ops_def whole_key_tags_def intro: owns_meta)

lemma move_dat:
  "t \<in> set composite_meta_tags \<Longrightarrow> apply_ops PData (move_ops E kc s src dst t b) m
     = apply_ops PData (copies E kc s src dst True t) (apply_ops PData (wipe_ops E kc s dst) m)"
  by (simp add: move_ops_def)

lemma move_met:
  "t \<in> set composite_meta_tags \<Longrightarrow> apply_ops PMeta (move_ops E kc s src dst t b) m
     = (apply_ops PMeta (wipe_ops E kc s dst) m)(meta_key kc t dst \<mapsto> b, meta_key kc t src := None)"
  by (simp add: move_ops_def copied_meta)

lemma move_data:
  fixes b :: bytes
  assumes fit: "src \<noteq> dst" "key_fits src" "key_fits dst" and t: "t \<in> set composite_meta_tags"
    and orph: "no_orphans (dat E s) (met E s) kc dst t" and u: "u \<in> data_of t"
  defines "d' \<equiv> apply_ops PData (move_ops E kc s src dst t b) (dat E s)"
  shows "d' (sub_at kc u dst sub) = dat E s (sub_at kc u src sub)" and "d' (sub_at kc u src sub) = None"
proof -
  have src: "BRm PData (sub_at kc u src sub) \<notin> set (wipe_ops E kc s dst)"
    using wipe_owns sub_at_owns [OF u] owns_unique fit by blast
  have "apply_ops PData (wipe_ops E kc s dst) (dat E s) (sub_at kc u dst sub) = None"
  proof (cases "dat E s (sub_at kc u dst sub)")
    case (Some v)
    then have "met E s (meta_key kc t dst) \<noteq> None" using orph u unfolding no_orphans_def by blast
    then have "BRm PData (sub_at kc u dst sub) \<in> set (wipe_ops E kc s dst)"
      using cleanup_all_sub [OF t _ u] Some by (simp add: wipe_ops_def)
    then show ?thesis by (simp add: wipe_apply)
  qed (simp add: wipe_apply)
  then show "d' (sub_at kc u dst sub) = dat E s (sub_at kc u src sub)"
    unfolding d'_def move_dat [OF t] copied_dst [OF fit t u] by (simp split: option.split)
  show "d' (sub_at kc u src sub) = None"
    unfolding d'_def move_dat [OF t] copied_src [OF fit t u] wipe_apply using src by simp
qed

lemma move_frame:
  assumes fit: "src \<noteq> dst" "key_fits src" "key_fits dst" and t: "t \<in> set composite_meta_tags"
    and x: "\<not> owns kc dst x"
  shows "\<forall>u\<in>data_of t. \<forall>sub. x \<noteq> sub_at kc u src sub \<Longrightarrow> apply_ops PData (move_ops E kc s src dst t b) m x = m x"
    and "x \<noteq> meta_key kc t src \<Longrightarrow> apply_ops PMeta (move_ops E kc s src dst t b) m x = m x"
proof -
  have w: "apply_ops p (wipe_ops E kc s dst) m x = m x" for p
    using x wipe_owns [of p x kc s dst] by (auto simp: wipe_apply)
  have "x \<noteq> sub_at kc u dst sub" if "u \<in> data_of t" for u sub using x sub_at_owns [OF that] by blast
  then show "apply_ops PData (move_ops E kc s src dst t b) m x = m x" if "\<forall>u\<in>data_of t. \<forall>sub. x \<noteq> sub_at kc u src sub"
    unfolding move_dat [OF t] using that by (subst copied_other [OF t]) (simp_all add: w)
  have "x \<noteq> meta_key kc t dst" using x owns_meta [OF composite_whole [OF t]] by blast
  then show "apply_ops PMeta (move_ops E kc s src dst t b) m x = m x" if "x \<noteq> meta_key kc t src"
    unfolding move_met [OF t] using that by (simp add: w)
qed

lemma move_wiped:
  assumes fit: "src \<noteq> dst" "key_fits src" "key_fits dst" and t: "t \<in> set composite_meta_tags"
  shows "apply_ops PData (move_ops E kc s src dst t b) (dat E s) (meta_key kc RawString dst) = None"
    and "u \<in> set composite_meta_tags \<Longrightarrow> u \<noteq> t \<Longrightarrow>
      apply_ops PMeta (move_ops E kc s src dst t b) (met E s) (meta_key kc u dst) = None"
proof -
  have "meta_key kc RawString dst \<noteq> sub_at kc v k sub" if "v \<in> data_of t" for v k sub
    using that meta_not_subkey [of RawString v kc dst kc k sub] by (auto simp: sub_at_def data_of_def is_data_def)
  then show "apply_ops PData (move_ops E kc s src dst t b) (dat E s) (meta_key kc RawString dst) = None"
    unfolding move_dat [OF t] by (subst copied_other [OF t]) (simp_all only: wipe_apply, simp_all add: wipe_ops_def)
  assume u: "u \<in> set composite_meta_tags" "u \<noteq> t"
  have "apply_ops PMeta (wipe_ops E kc s dst) (met E s) (meta_key kc u dst) = None"
    using cleanup_all_meta [OF u(1), of s kc dst] unfolding wipe_apply
    by (cases "met E s (meta_key kc u dst)") (simp_all add: wipe_ops_def)
  then show "apply_ops PMeta (move_ops E kc s src dst t b) (met E s) (meta_key kc u dst) = None"
    unfolding move_met [OF t] using u(2) fit(1) by simp
qed

end

section \<open>EXPIRE\<close>

text \<open>Metadata in the 26-byte format that this code writes.\<close>

definition std_metas :: "kv_map \<Rightarrow> key_composer \<Rightarrow> bytes \<Rightarrow> bool" where
  "std_metas m kc k \<longleftrightarrow>
     (\<forall>t\<in>set composite_meta_tags. \<forall>b. m (meta_key kc t k) = Some b \<longrightarrow> (\<exists>km rest. b = km_encode km @ rest))"

lemma put_expire:
  "put (km_encode km @ rest) 2 (to_be64 e) = km_encode (km\<lparr>km_expire_at := e\<rparr>) @ rest"
  by (simp add: km_encode_def put_def)

lemma km_expired_update:
  "\<not> km_is_expired km now \<Longrightarrow> e = 0 \<or> now < e \<Longrightarrow> \<not> km_is_expired (km\<lparr>km_expire_at := e\<rparr>) now"
  by (auto simp: km_is_expired_def split: if_splits)

lemma km_past: "\<not> (e = 0 \<or> now < e) \<Longrightarrow> km_is_expired (km\<lparr>km_expire_at := e\<rparr>) now"
  by (auto simp: km_is_expired_def word_gt_0)

lemma live_string_Some:
  "live_string d kc k now = Some p \<longleftrightarrow>
     (\<exists>raw e. d (meta_key kc RawString k) = Some raw \<and> decode_string_value raw = (e, p)
        \<and> \<not> is_string_expired e now)"
  by (auto simp: live_string_def decode_live_string_value_def split: option.splits prod.splits if_splits)

context kv_engine
begin

lemma expire_string:
  assumes live: "live_string (dat E s) kc k now = Some p"
    and cur: "get_key_expire_at_impl E kc s now k = Some cur"
    and new: "e \<noteq> 0 \<or> cur \<noteq> 0" "should_update cond cur e"
  shows "\<exists>s'. set_key_expire_at_impl_with_condition E kc now k e cond s = (True, s')
      \<and> (e = 0 \<or> now < e \<longrightarrow> get_key_expire_at_impl E kc s' now k = Some e)
      \<and> live_string (dat E s') kc k now = (if e = 0 \<or> now < e then Some p else None)
      \<and> dat E s' = (dat E s)(meta_key kc RawString k \<mapsto> encode_string_value p e) \<and> met E s' = met E s"
proof -
  from live obtain raw where raw: "dat E s (meta_key kc RawString k) = Some raw"
    "decode_string_value raw = (cur, p)" "\<not> is_string_expired cur now"
    using cur by (auto simp: live_string_Some get_key_expire_at_impl_def)
  have "is_string_expired e now \<longleftrightarrow> \<not> (e = 0 \<or> now < e)"
    by (auto simp: is_string_expired_def word_gt_0)
  then show ?thesis
    using raw new
    by (auto simp: set_key_expire_at_impl_with_condition_def insert_data_def get_key_expire_at_impl_def
        live_string_def)
qed

lemma expire_composite:
  assumes live: "live_string (dat E s) kc k now = None" and std: "std_metas (met E s) kc k"
    and cur: "get_key_expire_at_impl E kc s now k = Some cur"
    and new: "e \<noteq> 0 \<or> cur \<noteq> 0" "should_update cond cur e"
  shows "\<exists>s' t km rest. t \<in> set composite_meta_tags
      \<and> set_key_expire_at_impl_with_condition E kc now k e cond s = (True, s')
      \<and> (e = 0 \<or> now < e \<longrightarrow> get_key_expire_at_impl E kc s' now k = Some e) \<and> dat E s' = dat E s
      \<and> live_meta (met E s) kc k now t = Some km \<and> met E s (meta_key kc t k) = Some (km_encode km @ rest)
      \<and> met E s' = (met E s)(meta_key kc t k \<mapsto> km_encode (km\<lparr>km_expire_at := e\<rparr>) @ rest)
      \<and> live_meta (met E s') kc k now t = (if e = 0 \<or> now < e then Some (km\<lparr>km_expire_at := e\<rparr>) else None)"
proof -
  have str: "case dat E s (meta_key kc RawString k) of None \<Rightarrow> True
      | Some v \<Rightarrow> is_string_expired (fst (decode_string_value v)) now"
    using live live_string_iff [of "dat E s" kc k now] by (auto split: option.splits)
  then obtain t where f: "find (\<lambda>t. live_meta (met E s) kc k now t \<noteq> None) composite_meta_tags = Some t"
    using cur by (auto simp: get_key_expire_at_impl_def find_active_spec split: option.splits)
  then have t: "t \<in> set composite_meta_tags" "live_meta (met E s) kc k now t \<noteq> None"
    by (auto simp: find_Some_iff)
  then obtain b where b: "met E s (meta_key kc t k) = Some b"
    using live_meta_present by blast
  then obtain km rest where km: "met E s (meta_key kc t k) = Some (km_encode km @ rest)"
    using std t(1) unfolding std_metas_def by blast
  with t(2) have lm: "live_meta (met E s) kc k now t = Some km" "\<not> km_is_expired km now"
    by (auto simp: live_meta_def split: if_splits)
  have fa: "find_active_composite_meta E kc s k now = Some (tag_u8 t, km, km_encode km @ rest)"
    by (simp add: find_active_spec f lm km del: not_None_eq)
  with str cur have c: "km_expire_at km = cur"
    by (auto simp: get_key_expire_at_impl_def split: option.splits)
  let ?km = "km\<lparr>km_expire_at := e\<rparr>"
  define s' where "s' = commit E [BInsert PMeta (meta_key kc t k) (km_encode ?km @ rest)] s"
  have ms: "met E s' = (met E s)(meta_key kc t k \<mapsto> km_encode ?km @ rest)" and ds: "dat E s' = dat E s"
    by (simp_all add: s'_def)
  have set: "set_key_expire_at_impl_with_condition E kc now k e cond s = (True, s')"
    unfolding s'_def set_key_expire_at_impl_with_condition_def fa
    using str new c
    by (auto simp: Let_def standard_header put_expire insert_meta_def split_beta split: option.splits)
  have lm': "live_meta (met E s') kc k now t = (if e = 0 \<or> now < e then Some ?km else None)"
    using km_expired_update [OF lm(2), of e] km_past [of e now km] by (auto simp: live_meta_def ms)
  have "get_key_expire_at_impl E kc s' now k = Some e" if e: "e = 0 \<or> now < e"
  proof -
    have "live_meta (met E s') kc k now u \<noteq> None \<longleftrightarrow> live_meta (met E s) kc k now u \<noteq> None" for u
      using lm' t(2) e by (cases "u = t") (simp_all add: live_meta_def ms)
    then have "find (\<lambda>t. live_meta (met E s') kc k now t \<noteq> None) composite_meta_tags = Some t"
      using f by (simp only:)
    then have "find_active_composite_meta E kc s' k now = Some (tag_u8 t, ?km, km_encode ?km @ rest)"
      using e by (simp add: find_active_spec lm' ms [THEN fun_cong] del: not_None_eq)
    then show ?thesis
      using str by (auto simp: get_key_expire_at_impl_def ds split: option.splits)
  qed
  with set ms ds t(1) lm km lm' show ?thesis by blast
qed

end


section \<open>Properties\<close>

text \<open>C7: What DEL of one key does, on any store. It removes the raw string and, unless that was
  live, the first stored metadata record in the order of the probes, live or expired, with all the
  data of that structure and, for a time series, its rules in the metadata partition; the other
  records stay. It answers whether the string or that record was live. Afterwards the key exists
  exactly when a live structure was not the one removed. No key of another user key changes.\<close>

theorem del_one_effect:
  assumes E: "kv_engine E"
  shows "let str = live_string (dat E s) kc k now \<noteq> None; rec = first_record (met E s) kc k;
             s' = snd (del_one E kc now k s) in
    fst (del_one E kc now k s) = (str \<or> (\<exists>t. rec = Some t \<and> live_meta (met E s) kc k now t \<noteq> None))
    \<and> dat E s' (meta_key kc RawString k) = None
    \<and> (\<forall>u\<in>set composite_meta_tags. met E s' (meta_key kc u k)
         = (if \<not> str \<and> rec = Some u then None else met E s (meta_key kc u k)))
    \<and> (\<forall>t. \<not> str \<and> rec = Some t \<longrightarrow> (\<forall>u\<in>data_of t. \<forall>sub. dat E s' (sub_at kc u k sub) = None)
         \<and> (t = TimeSeriesMeta \<longrightarrow> (\<forall>sub. met E s' (subkey_prefix kc TimeSeriesData k @ sub) = None)))
    \<and> exists_one E kc s' now k = (\<exists>u\<in>set composite_meta_tags. live_meta (met E s) kc k now u \<noteq> None \<and> (str \<or> rec \<noteq> Some u))
    \<and> (\<forall>x. \<not> owns kc k x \<longrightarrow> dat E s' x = dat E s x \<and> met E s' x = met E s x)"
proof -
  have s': "snd (del_one E kc now k s) = snd (del_impl E kc now [k] s)"
    by (simp add: del_one_def split_beta)
  have hit: "fst (del_one E kc now k s) = del_hit E kc s now k"
    by (simp add: del_one_def kv_engine.del_impl_eq [OF E])
  show ?thesis
    unfolding Let_def s' hit
    using kv_engine.del_records [OF E] kv_engine.del_data [OF E] kv_engine.del_exists [OF E]
      kv_engine.del_frame [OF E, of "[k]"]
    by (simp add: del_hit_def split: option.splits)
qed

text \<open>A witness: the key \<open>a\<close> holds a list record in the default database.\<close>

definition kc0 :: key_composer where
  "kc0 = \<lparr>kc_ns = 0, kc_db = 0\<rparr>"

definition list_db :: "mem_part wedb" where
  "list_db = put_meta mem_engine (meta_key kc0 ListMeta [97]) (km_encode (km_new RList 0 1 2)) mem_db"

lemma list_db_maps [simp]:
  "dat mem_engine list_db = Map.empty"
  "met mem_engine list_db = [meta_key kc0 ListMeta [97] \<mapsto> km_encode (km_new RList 0 1 2)]"
  by (simp_all add: list_db_def)

lemma list_db_live:
  "live_meta (met mem_engine list_db) kc0 [97] now t
     = (if t = ListMeta then Some (km_new RList 0 1 2) else None)"
  by (simp add: live_meta_def km_is_expired_def km_new_def rtype_is_emptyable_def)

lemma list_db_first: "first_record (met mem_engine list_db) kc0 [97] = Some ListMeta"
  by (simp add: first_record_def composite_meta_tags_def)

theorem del_one_effect_witness:
  "fst (del_one mem_engine kc0 5 [97] list_db)
     \<and> met mem_engine (snd (del_one mem_engine kc0 5 [97] list_db)) (meta_key kc0 ListMeta [97]) = None
     \<and> \<not> exists_one mem_engine kc0 (snd (del_one mem_engine kc0 5 [97] list_db)) 5 [97]"
proof -
  have "live_string (dat mem_engine list_db) kc0 [97] 5 = None" by (simp add: live_string_def)
  moreover have "ListMeta \<in> set composite_meta_tags" by (simp add: composite_meta_tags_def)
  ultimately show ?thesis
    using del_one_effect [OF kv_engine_mem, of list_db kc0 "[97]" 5] list_db_first list_db_live [of 5]
    by (simp add: Let_def split: if_splits)
qed

text \<open>A live list behind the expired record of a hash survives DEL, which answers that there was no
  such key: the comment in \<^verbatim>\<open>api/key/impl.rs\<close> that a key has a single type does not hold of expired
  records.\<close>

definition stale_db :: "mem_part wedb" where
  "stale_db = put_meta mem_engine (meta_key kc0 HashMeta [97]) (km_encode (km_new RHash 1 1 2)) list_db"

lemma del_misses_live_list:
  "\<not> fst (del_one mem_engine kc0 5 [97] stale_db) \<and> exists_one mem_engine kc0 (snd (del_one mem_engine kc0 5 [97] stale_db)) 5 [97]"
  by code_simp



text \<open>The conditions of EXPIRE, over deadlines: no expiry is later than every time.\<close>

definition never :: nat where "never = 2 ^ 64"

definition deadline :: "u64 \<Rightarrow> nat" where
  "deadline e = (if e = 0 then never else unat e)"


lemma deadline_0 [simp]: "deadline 0 = never"
  by (simp add: deadline_def)


lemma deadline_less [simp]: "e \<noteq> 0 \<Longrightarrow> f \<noteq> 0 \<Longrightarrow> deadline e < deadline f \<longleftrightarrow> e < f"
  by (simp add: deadline_def word_less_nat_alt)




section \<open>Bounds of prefix scans\<close>

lemma upper_bound_prefix:
  "prefix p k \<longleftrightarrow> in_lower (Included p) k \<and> in_upper (prefix_upper_bound p) k"
proof (induction p rule: rev_induct)
  case Nil
  then show ?case by (cases k) (simp_all add: prefix_upper_bound_def)
next
  case (snoc b q)
  show ?case
  proof (cases "b < 0xFF")
    case True
    then have s: "b < b + 1" by (intro word_less_plus_one) auto
    have "prefix (q @ [b]) k \<longleftrightarrow> q @ [b] \<le> k \<and> k < q @ [b + 1]"
    proof
      assume "prefix (q @ [b]) k"
      then obtain r where "k = q @ b # r" by (auto simp: prefix_def)
      then show "q @ [b] \<le> k \<and> k < q @ [b + 1]"
        using s prefix_imp_le [of "q @ [b]" k] by (auto simp: list_less_append_same list_less_Cons)
    next
      assume *: "q @ [b] \<le> k \<and> k < q @ [b + 1]"
      then have "prefix q k"
        using between_prefix [of q "[b]" k "[b + 1]"] by (simp add: less_imp_le)
      then obtain r where k: "k = q @ r" by (auto simp: prefix_def)
      with * have "[b] \<le> r" "r < [b + 1]"
        by (simp_all add: list_le_append_same list_less_append_same)
      moreover have "c = b" if "b \<le> c" "c < b + 1" for c
        using that s by (simp add: word_le_nat_alt word_less_nat_alt unat_word_ariths word_unat_eq_iff
            split: if_splits) (metis le_antisym less_Suc_eq_le mod_less mod_less_divisor)?
      ultimately show "prefix (q @ [b]) k"
        using k by (cases r) (auto simp: list_le_def list_less_Cons dest: less_imp_le)
    qed
    with True show ?thesis by (simp add: prefix_upper_bound_def)
  next
    case False
    then have b: "b = 0xFF" by (simp add: u8_ge_255 not_less)
    have u: "prefix_upper_bound (q @ [b]) = prefix_upper_bound q"
      using b by (simp add: prefix_upper_bound_def)
    show ?thesis
    proof
      assume p: "prefix (q @ [b]) k"
      then have "prefix q k" by (auto simp: prefix_def)
      with snoc p show "in_lower (Included (q @ [b])) k \<and> in_upper (prefix_upper_bound (q @ [b])) k"
        by (simp add: u prefix_imp_le)
    next
      assume *: "in_lower (Included (q @ [b])) k \<and> in_upper (prefix_upper_bound (q @ [b])) k"
      moreover have "q \<le> q @ [b]" by (rule prefix_imp_le) simp
      ultimately have "prefix q k" using snoc u by auto
      then obtain r where k: "k = q @ r" by (auto simp: prefix_def)
      with * have "[b] \<le> r" by (simp add: list_le_append_same)
      then have "r \<noteq> [] \<and> hd r = b"
        using b by (cases r) (auto simp: list_le_def list_less_Cons dest: less_imp_le u8_ge_255)
      with k show "prefix (q @ [b]) k" by (cases r) auto
    qed
  qed
qed

text \<open>Below the bound are the keys with the prefix and those before it.\<close>

lemma upper_bound_iff: "in_upper (prefix_upper_bound p) k \<longleftrightarrow> prefix p k \<or> k < p"
proof (cases "p \<le> k")
  case True
  then show ?thesis using upper_bound_prefix [of p k] by auto
next
  case False
  have "in_upper (prefix_upper_bound p) p" using upper_bound_prefix [of p p] by simp
  then have "in_upper (prefix_upper_bound p) k"
    using False by (cases "prefix_upper_bound p") auto
  then show ?thesis using False by (simp add: not_le)
qed

text \<open>C10: the exclusive upper bound computed for a prefix scan is exact: a key has the prefix
  iff it lies between the prefix and the bound, whatever bytes the prefix ends with.\<close>

theorem prefix_upper_bound_exact:
  "prefix p k \<longleftrightarrow> in_lower (Included p) k \<and> in_upper (prefix_upper_bound p) k"
  by (rule upper_bound_prefix)

end
