(* ===== verification/Wedb_Core.thy ===== *)
theory Wedb_Core
  imports Key_Space
begin

text \<open>
  \<^verbatim>\<open>embed/src/wedb\<close>: opening databases and namespaces and the identifiers they get
  (\<^verbatim>\<open>core.rs\<close>, \<^verbatim>\<open>namespace.rs\<close>, \<^verbatim>\<open>db.rs\<close>), the catalog iterators (\<^verbatim>\<open>iter.rs\<close>),
  removing databases and namespaces, and the sampling sweep of expired keys.
  The mutexes of the source serialise the operations, which are sequential functions here.
\<close>

section \<open>Allocation and activation\<close>

text \<open>\<open>init_version_counter\<close>: the hash of the clock is the argument \<open>seed\<close>.\<close>

definition init_version_counter :: "u64 \<Rightarrow> 'p wedb \<Rightarrow> 'p wedb" where
  "init_version_counter seed s =
     s\<lparr>w_ver := (w_ver s)\<lparr>vs_counter := seed AND VERSION_COUNTER_MASK\<rparr>\<rparr>"

definition activate_db_impl :: "'p engine \<Rightarrow> u64 \<Rightarrow> u64 \<Rightarrow> 'p wedb \<Rightarrow> 'p wedb" where
  "activate_db_impl E ns_id db_id s =
     (let (buf, len) = encode_catalog_db_key_fixed ns_id db_id (replicate 20 0)
      in put_meta E (take len buf) [] s)"

definition next_namespace_id_impl :: "'p engine \<Rightarrow> 'p wedb \<Rightarrow> u64 \<times> 'p wedb" where
  "next_namespace_id_impl E s =
     (let current_id =
        (case e_get E (w_meta s) NS_NEXT_ID_KEY of
           None \<Rightarrow> 1
         | Some val \<Rightarrow> (case decode_oppv_u64 val of None \<Rightarrow> 1 | Some (v, _) \<Rightarrow> v));
          next_val = current_id + 1
      in case encode_oppv_u64_fixed next_val (replicate 9 0) of
           None \<Rightarrow> (current_id, s)
         | Some (next_val_buf, next_len) \<Rightarrow>
             (current_id, put_meta E NS_NEXT_ID_KEY (take next_len next_val_buf) s))"

definition next_db_id_impl :: "'p engine \<Rightarrow> u64 \<Rightarrow> 'p wedb \<Rightarrow> u64 \<times> 'p wedb" where
  "next_db_id_impl E ns_id s =
     (let (key_buf, key_len) = encode_db_next_id_key_fixed ns_id (replicate 12 0);
          key = take key_len key_buf;
          current_id =
        (case e_get E (w_meta s) key of
           None \<Rightarrow> 1
         | Some val \<Rightarrow> (case decode_oppv_u64 val of None \<Rightarrow> 1 | Some (v, _) \<Rightarrow> v));
          next_val = current_id + 1
      in case encode_oppv_u64_fixed next_val (replicate 9 0) of
           None \<Rightarrow> (current_id, s)
         | Some (next_val_buf, next_len) \<Rightarrow>
             (current_id, put_meta E key (take next_len next_val_buf) s))"

text \<open>\<open>WeDb::new\<close> on the partitions the engine opened.\<close>

definition wedb_new :: "'p engine \<Rightarrow> u64 \<Rightarrow> 'p \<times> 'p \<Rightarrow> version_state \<Rightarrow> 'p wedb" where
  "wedb_new E seed parts vs =
     activate_db_impl E 0 0 (init_version_counter seed
       \<lparr>w_data = fst parts, w_meta = snd parts, w_ver = vs,
        w_data_cursor = None, w_meta_cursor = None\<rparr>)"

text \<open>\<open>WeDb::ns\<close> returns the namespace handle, which is its number.\<close>

definition wedb_ns :: "'p engine \<Rightarrow> u64 option \<Rightarrow> 'p wedb \<Rightarrow> u64 \<times> 'p wedb" where
  "wedb_ns E opt_id s =
     (case opt_id of
        Some i \<Rightarrow> (i, s)
      | None \<Rightarrow> (let (new_id, s) = next_namespace_id_impl E s in (new_id, activate_db_impl E new_id 0 s)))"

definition namespace_db :: "'p engine \<Rightarrow> u64 \<Rightarrow> u64 option \<Rightarrow> 'p wedb \<Rightarrow> key_composer \<times> 'p wedb" where
  "namespace_db E ns_id opt_id s =
     (let (db_id, s) = (case opt_id of Some i \<Rightarrow> (i, s) | None \<Rightarrow> next_db_id_impl E ns_id s)
      in (\<lparr>kc_ns = ns_id, kc_db = db_id\<rparr>, activate_db_impl E ns_id db_id s))"

definition wedb_db :: "'p engine \<Rightarrow> u64 option \<Rightarrow> 'p wedb \<Rightarrow> key_composer \<times> 'p wedb" where
  "wedb_db E opt_id s = (let (ns_id, s) = wedb_ns E (Some 0) s in namespace_db E ns_id opt_id s)"

definition db_select :: "'p engine \<Rightarrow> key_composer \<Rightarrow> u64 option \<Rightarrow> 'p wedb \<Rightarrow> key_composer \<times> 'p wedb" where
  "db_select E kc opt_id s = namespace_db E (kc_ns kc) opt_id s"

definition db_with_ns :: "'p engine \<Rightarrow> key_composer \<Rightarrow> u64 option \<Rightarrow> 'p wedb \<Rightarrow> key_composer \<times> 'p wedb" where
  "db_with_ns E kc opt_ns s =
     (let (ns_id, s) = wedb_ns E opt_ns s in namespace_db E ns_id (Some (kc_db kc)) s)"

section \<open>The catalog iterators\<close>

text \<open>\<open>Namespaces::next\<close>: the state of the iterator is the rest of the engine's iterator and
  the namespace emitted last.\<close>

fun namespaces_next ::
    "(bytes \<times> bytes) list \<Rightarrow> u64 option \<Rightarrow> u64 option \<times> (bytes \<times> bytes) list \<times> u64 option" where
  "namespaces_next [] last_emitted = (None, [], last_emitted)"
| "namespaces_next ((k, v) # it) last_emitted =
    (if \<not> prefix CATALOG_PREFIX k then (None, it, last_emitted)
     else case decode_oppv_u64 (drop (length CATALOG_PREFIX) k) of
       Some (ns_id, _) \<Rightarrow>
         if Some ns_id \<noteq> last_emitted then (Some ns_id, it, Some ns_id)
         else namespaces_next it last_emitted
     | None \<Rightarrow> namespaces_next it last_emitted)"

fun dbs_next :: "small_key \<Rightarrow> (bytes \<times> bytes) list \<Rightarrow> u64 option \<times> (bytes \<times> bytes) list" where
  "dbs_next p [] = (None, [])"
| "dbs_next p ((k, v) # it) =
    (if \<not> prefix (as_bytes p) k then (None, it)
     else case decode_oppv_u64 (drop (sk_length p) k) of
       Some (db_id, _) \<Rightarrow> (Some db_id, it)
     | None \<Rightarrow> dbs_next p it)"

definition wedb_iter :: "'p engine \<Rightarrow> 'p wedb \<Rightarrow> u64 \<Rightarrow> (bytes \<times> bytes) list \<times> u64 option" where
  "wedb_iter E s begin_id =
     (let start_key =
        (if begin_id = 0 then CATALOG_PREFIX
         else let (buf, len) = encode_catalog_ns_prefix_fixed begin_id (replicate 11 0) in take len buf)
      in (e_range E (w_meta s) (Included start_key) Unbounded, None))"

definition namespace_iter :: "'p engine \<Rightarrow> 'p wedb \<Rightarrow> u64 \<Rightarrow> u64 \<Rightarrow> small_key \<times> (bytes \<times> bytes) list" where
  "namespace_iter E s ns_id begin_id =
     (let (cat_prefix_buf, cat_len) = encode_catalog_ns_prefix_fixed ns_id (replicate 11 0);
          cat_prefix = take cat_len cat_prefix_buf;
          start_key =
        (if begin_id = 0 then cat_prefix
         else let (buf, len) = encode_catalog_db_key_fixed ns_id begin_id (replicate 20 0) in take len buf)
      in (sk_from_slice cat_prefix, e_range E (w_meta s) (Included start_key) Unbounded))"

text \<open>Calling an iterator until it returns nothing.\<close>

lemma namespaces_next_length: "namespaces_next it l = (Some n, it', l') \<Longrightarrow> length it' < length it"
proof (induction it arbitrary: l)
  case (Cons kv it)
  then show ?case by (cases kv) (fastforce split: if_splits option.splits)
qed simp

lemma dbs_next_length: "dbs_next p it = (Some n, it') \<Longrightarrow> length it' < length it"
  by (induction p it rule: dbs_next.induct) (auto split: if_splits option.splits)

function namespaces_all :: "(bytes \<times> bytes) list \<Rightarrow> u64 option \<Rightarrow> u64 list" where
  "namespaces_all it l =
     (case namespaces_next it l of (None, _, _) \<Rightarrow> [] | (Some n, it', l') \<Rightarrow> n # namespaces_all it' l')"
  by pat_completeness auto
termination by (relation "measure (\<lambda>(it, _). length it)") (auto dest!: namespaces_next_length [OF sym])

function dbs_all :: "small_key \<Rightarrow> (bytes \<times> bytes) list \<Rightarrow> u64 list" where
  "dbs_all p it = (case dbs_next p it of (None, _) \<Rightarrow> [] | (Some n, it') \<Rightarrow> n # dbs_all p it')"
  by pat_completeness auto
termination by (relation "measure (\<lambda>(p, it). length it)") (auto dest!: dbs_next_length [OF sym])

declare namespaces_all.simps [simp del] dbs_all.simps [simp del]

section \<open>Removing databases and namespaces\<close>

definition clear_ks_prefix ::
    "'p engine \<Rightarrow> part \<Rightarrow> 'p wedb \<Rightarrow> bytes \<Rightarrow> batch \<times> u64 \<Rightarrow> batch \<times> u64" where
  "clear_ks_prefix E p s q = (\<lambda>(batch, count).
     foldl (\<lambda>(batch, count) k. (batch @ [BRm p k], count + 1)) (batch, count)
       (takeWhile (prefix q) (map fst (e_prefix E (part_of p s) q))))"

definition db_rm_impl :: "'p engine \<Rightarrow> u64 \<Rightarrow> u64 \<Rightarrow> 'p wedb \<Rightarrow> u64 \<times> 'p wedb" where
  "db_rm_impl E ns_id db_id s =
     (let (prefix_buf, prefix_len) =
            encode_scope_prefix_fixed \<lparr>kc_ns = ns_id, kc_db = db_id\<rparr> (replicate 19 0);
          q = take prefix_len prefix_buf;
          acc = clear_ks_prefix E PData s q ([], 0);
          (batch, count) = clear_ks_prefix E PMeta s q acc;
          (cat_key_buf, cat_len) = encode_catalog_db_key_fixed ns_id db_id (replicate 20 0);
          batch = rm_meta (take cat_len cat_key_buf) batch
      in (count, commit E batch s))"

definition namespace_rm_impl :: "'p engine \<Rightarrow> u64 \<Rightarrow> 'p wedb \<Rightarrow> u64 \<times> 'p wedb" where
  "namespace_rm_impl E ns_id s =
     (let (ns_prefix_buf, ns_len) = encode_ns_prefix_fixed ns_id (replicate 10 0);
          q = take ns_len ns_prefix_buf;
          acc = clear_ks_prefix E PData s q ([], 0);
          (batch, count) = clear_ks_prefix E PMeta s q acc;
          (cat_prefix_buf, cat_len) = encode_catalog_ns_prefix_fixed ns_id (replicate 11 0);
          (batch, _) = clear_ks_prefix E PMeta s (take cat_len cat_prefix_buf) (batch, 0);
          (db_id_key_buf, id_len) = encode_db_next_id_key_fixed ns_id (replicate 12 0);
          batch = rm_meta (take id_len db_id_key_buf) batch
      in (count, commit E batch s))"

definition db_rm :: "'p engine \<Rightarrow> key_composer \<Rightarrow> 'p wedb \<Rightarrow> u64 \<times> 'p wedb" where
  "db_rm E kc s = db_rm_impl E (kc_ns kc) (kc_db kc) s"

text \<open>\<open>WeDb::rm\<close> truncates both partitions; the engine's approximate length of the data
  partition is the argument \<open>len\<close>.\<close>

definition wedb_rm :: "'p engine \<Rightarrow> ('p \<Rightarrow> nat) \<Rightarrow> 'p wedb \<Rightarrow> u64 \<times> 'p wedb" where
  "wedb_rm E approximate_len s =
     (word_of_nat (approximate_len (w_data s)),
      s\<lparr>w_data := e_clear E (w_data s), w_meta := e_clear E (w_meta s)\<rparr>)"

section \<open>The sweep of expired keys\<close>

definition sweep_ks ::
    "'p engine \<Rightarrow> 'p \<Rightarrow> bytes option \<Rightarrow> nat \<Rightarrow> ('a \<Rightarrow> bytes \<times> bytes \<Rightarrow> 'a) \<Rightarrow> 'a \<Rightarrow> 'a \<times> bytes option" where
  "sweep_ks E ks cursor sample_limit on_entry acc =
     (let start_bound = (case cursor of None \<Rightarrow> Unbounded | Some c \<Rightarrow> Excluded c);
          entries = take sample_limit (e_range E ks start_bound Unbounded)
      in (foldl on_entry acc entries,
          if entries \<noteq> [] \<and> length entries = sample_limit then Some (fst (last entries)) else None))"

definition sweep_data_entry :: "u64 \<Rightarrow> batch \<times> nat \<Rightarrow> bytes \<times> bytes \<Rightarrow> batch \<times> nat" where
  "sweep_data_entry now_ms = (\<lambda>(batch, expired_count) (k, v).
     let (expire_at, _) = decode_string_value v
     in if is_string_expired expire_at now_ms then (rm_data k batch, expired_count + 1)
        else (batch, expired_count))"

definition sweep_meta_entry ::
    "'p engine \<Rightarrow> 'p wedb \<Rightarrow> u64 \<Rightarrow> batch \<times> nat \<Rightarrow> bytes \<times> bytes \<Rightarrow> batch \<times> nat" where
  "sweep_meta_entry E s now_ms = (\<lambda>(batch, expired_count) (k, v).
     case parse_scoped_prefix k of
       Some (kc, _, meta_tag # k_bytes) \<Rightarrow>
         (case tag_from_u8 meta_tag of
            Some tag \<Rightarrow>
              if is_meta tag then
                (case km_decode v of
                   Some base_meta \<Rightarrow>
                     if km_is_expired base_meta now_ms
                     then (cleanup_composite_data_raw E s kc meta_tag k_bytes (rm_meta k batch),
                           expired_count + 1)
                     else (batch, expired_count)
                 | None \<Rightarrow> (batch, expired_count))
              else (batch, expired_count)
          | None \<Rightarrow> (batch, expired_count))
     | _ \<Rightarrow> (batch, expired_count))"

definition sweep_expired :: "'p engine \<Rightarrow> u64 \<Rightarrow> nat \<Rightarrow> 'p wedb \<Rightarrow> nat \<times> 'p wedb" where
  "sweep_expired E now_ms sample_limit s =
     (let (acc, data_cur) =
            sweep_ks E (w_data s) (w_data_cursor s) sample_limit (sweep_data_entry now_ms) ([], 0);
          ((batch, expired_count), meta_cur) =
            sweep_ks E (w_meta s) (w_meta_cursor s) sample_limit (sweep_meta_entry E s now_ms) acc;
          s' = (if expired_count > 0 then commit E batch s else s)
      in (expired_count, s'\<lparr>w_data_cursor := data_cur, w_meta_cursor := meta_cur\<rparr>))"

section \<open>What allocation does\<close>

definition next_id :: "kv_map \<Rightarrow> bytes \<Rightarrow> u64" where
  "next_id m key =
     (case m key of
        None \<Rightarrow> 1 | Some val \<Rightarrow> (case decode_oppv_u64 val of None \<Rightarrow> 1 | Some (v, _) \<Rightarrow> v))"

lemma encode_fixed_Some:
  "\<exists>b n. encode_oppv_u64_fixed v (replicate 9 0) = Some (b, n) \<and> take n b = oppv_bytes v"
  using oppv_len_bounds(2) [of v] by (simp add: encode_oppv_u64_fixed_def encode_oppv_u64_slice_def Let_def not_less)

lemma activate_eq: "activate_db_impl E n d s = put_meta E (catalog_db_key n d) [] s"
  by (simp add: activate_db_impl_def split_beta catalog_fixed_eq)

context kv_engine
begin

lemma next_namespace_id_eq:
  "next_namespace_id_impl E s =
     (next_id (met E s) NS_NEXT_ID_KEY,
      put_meta E NS_NEXT_ID_KEY (oppv_bytes (next_id (met E s) NS_NEXT_ID_KEY + 1)) s)"
  using encode_fixed_Some [of "next_id (met E s) NS_NEXT_ID_KEY + 1"]
  by (auto simp: next_namespace_id_impl_def next_id_def [symmetric] Let_def)

lemma next_db_id_eq:
  "next_db_id_impl E n s =
     (next_id (met E s) (db_next_id_key n),
      put_meta E (db_next_id_key n) (oppv_bytes (next_id (met E s) (db_next_id_key n) + 1)) s)"
  using encode_fixed_Some [of "next_id (met E s) (db_next_id_key n) + 1"]
  by (auto simp: next_db_id_impl_def next_id_def [symmetric] Let_def split_beta catalog_fixed_eq)

end

lemma next_id_oppv [simp]: "m key = Some (oppv_bytes v) \<Longrightarrow> next_id m key = v"
  using decode_oppv_append [of v "[]"] by (simp add: next_id_def)

lemma system_keys_distinct [simp]:
  "catalog_db_key n d \<noteq> NS_NEXT_ID_KEY" "NS_NEXT_ID_KEY \<noteq> catalog_db_key n d"
  "db_next_id_key n \<noteq> NS_NEXT_ID_KEY" "NS_NEXT_ID_KEY \<noteq> db_next_id_key n"
  "catalog_db_key n d \<noteq> db_next_id_key m" "db_next_id_key m \<noteq> catalog_db_key n d"
  "db_next_id_key n = db_next_id_key m \<longleftrightarrow> n = m"
  by (simp_all add: catalog_keys_eq CATALOG_PREFIX_def DB_NEXT_ID_PREFIX_def NS_NEXT_ID_KEY_def)

section \<open>What the catalog iterators return\<close>

text \<open>Every key of the catalog domain is a catalog entry.\<close>

definition catalog_wf :: "kv_map \<Rightarrow> bool" where
  "catalog_wf m \<longleftrightarrow> (\<forall>k\<in>dom m. prefix CATALOG_PREFIX k \<longrightarrow> (\<exists>n d. k = catalog_db_key n d))"

definition cat_ns :: "bytes \<Rightarrow> u64" where
  "cat_ns k = fst (the (decode_oppv_u64 (drop (length CATALOG_PREFIX) k)))"

definition cat_db :: "bytes \<Rightarrow> u64" where
  "cat_db k = (let r = drop (length CATALOG_PREFIX) k
               in fst (the (decode_oppv_u64 (drop (snd (the (decode_oppv_u64 r))) r))))"

text \<open>Dropping values that repeat the one before.\<close>

fun emit :: "'a option \<Rightarrow> 'a list \<Rightarrow> 'a list" where
  "emit l [] = []"
| "emit l (x # xs) = (if Some x \<noteq> l then x # emit (Some x) xs else emit l xs)"

lemma emit_sorted:
  fixes xs :: "'a::linorder list"
  assumes "sorted xs" and "\<forall>y\<in>set_option l. \<forall>x\<in>set xs. y \<le> x"
  shows "sorted_wrt (<) (emit l xs) \<and> set (emit l xs) = set xs - set_option l"
  using assms
proof (induction xs arbitrary: l)
  case (Cons x xs)
  have "sorted_wrt (<) (emit (Some x) xs) \<and> set (emit (Some x) xs) = set xs - {x}"
    and "sorted_wrt (<) (emit l xs) \<and> set (emit l xs) = set xs - set_option l"
    using Cons.IH [of "Some x"] Cons.IH [of l] Cons.prems by auto
  moreover have "Some x \<noteq> l \<Longrightarrow> l = Some y \<Longrightarrow> y < x \<and> y \<notin> set xs" for y
    using Cons.prems by force
  ultimately show ?case
    using Cons.prems(1) by (cases l) (auto intro: le_neq_trans)
qed simp

lemma cat_simps [simp]:
  "cat_ns (catalog_db_key n d) = n" "cat_db (catalog_db_key n d) = d"
  using decode_oppv_append [of n "oppv_bytes d"] decode_oppv_append [of d "[]"]
  by (simp_all add: cat_ns_def cat_db_def catalog_keys_eq)

lemma catalog_le:
  "catalog_db_key n d \<le> catalog_db_key m e \<longleftrightarrow> n < m \<or> n = m \<and> d \<le> e"
proof -
  have d: "oppv_bytes d \<le> oppv_bytes e \<longleftrightarrow> d \<le> e" for d e
    using oppv_less_append [of d e "[]" "[]"] oppv_less_append [of e d "[]" "[]"]
    by (cases d e rule: linorder_cases) auto
  show ?thesis
    using oppv_less_append [of n m "oppv_bytes d" "oppv_bytes e"]
      oppv_less_append [of m n "oppv_bytes e" "oppv_bytes d"] d
    by (cases n m rule: linorder_cases) (auto simp: catalog_keys_eq list_le_append_same)
qed

lemma catalog_less:
  "catalog_db_key n d < catalog_db_key m e \<longleftrightarrow> n < m \<or> n = m \<and> d < e"
  using catalog_le [of n d m e] catalog_le [of m e n d] by (auto simp: order.strict_iff_not)

lemma catalog_ns_le: "catalog_ns_prefix n \<le> catalog_db_key m e \<longleftrightarrow> n \<le> m"
proof -
  have "oppv_bytes n \<le> oppv_bytes n @ oppv_bytes e"
    using list_le_append_same [of "oppv_bytes n" "[]"] by simp
  then show ?thesis
    using oppv_less_append [of n m "[]" "oppv_bytes e"] oppv_less_append [of m n "oppv_bytes e" "[]"]
    by (cases n m rule: linorder_cases) (auto simp: catalog_keys_eq list_le_append_same)
qed

lemma prefix_catalog [simp]:
  "prefix CATALOG_PREFIX (catalog_db_key n d)"
  "prefix (catalog_ns_prefix n) (catalog_db_key m d) \<longleftrightarrow> n = m"
  by (simp_all add: catalog_keys_eq oppv_prefix_free)

lemma namespaces_all_eq:
  assumes "\<forall>k\<in>fst ` set it. prefix CATALOG_PREFIX k \<longrightarrow> (\<exists>n d. k = catalog_db_key n d)"
  shows "namespaces_all it l = emit l (map cat_ns (takeWhile (prefix CATALOG_PREFIX) (map fst it)))"
  using assms
proof (induction it arbitrary: l)
  case Nil
  then show ?case by (simp add: namespaces_all.simps)
next
  case (Cons kv it)
  then show ?case
  proof (cases "prefix CATALOG_PREFIX (fst kv)")
    case True
    with Cons.prems obtain n d v where kv: "kv = (catalog_db_key n d, v)" by (cases kv) auto
    have dec: "\<exists>c. decode_oppv_u64 (drop (length CATALOG_PREFIX) (catalog_db_key n d)) = Some (n, c)"
      using decode_oppv_append [of n "oppv_bytes d"] by (simp add: catalog_keys_eq)
    show ?thesis
    proof (cases "Some n = l")
      case True
      with dec have "namespaces_all (kv # it) l = namespaces_all it l"
        by (auto simp: kv namespaces_all.simps [of "_ # _"] namespaces_all.simps [of it])
      with True Cons show ?thesis by (simp add: kv)
    next
      case False
      with dec have "namespaces_all (kv # it) l = n # namespaces_all it (Some n)"
        by (auto simp: kv namespaces_all.simps [of "_ # _"])
      with False Cons show ?thesis by (auto simp: kv)
    qed
  next
    case False
    then show ?thesis by (cases kv) (simp add: namespaces_all.simps)
  qed
qed

lemma dbs_all_eq:
  assumes "\<forall>k\<in>fst ` set it. prefix CATALOG_PREFIX k \<longrightarrow> (\<exists>n d. k = catalog_db_key n d)"
    and "as_bytes p = catalog_ns_prefix n" and "sk_ok p"
  shows "dbs_all p it = map cat_db (takeWhile (prefix (catalog_ns_prefix n)) (map fst it))"
  using assms
proof (induction it)
  case Nil
  then show ?case by (simp add: dbs_all.simps)
next
  case (Cons kv it)
  show ?case
  proof (cases "prefix (catalog_ns_prefix n) (fst kv)")
    case True
    then have "prefix CATALOG_PREFIX (fst kv)"
      by (auto simp: catalog_keys_eq prefix_def)
    with Cons.prems(1) True obtain d v where kv: "kv = (catalog_db_key n d, v)" by (cases kv) auto
    have l: "sk_length p = length (catalog_ns_prefix n)"
      using sk_length_as_bytes [OF Cons.prems(3)] by (simp add: Cons.prems(2))
    have "drop (sk_length p) (catalog_db_key n d) = oppv_bytes d"
      unfolding l by (simp add: catalog_keys_eq)
    then have "\<exists>c. decode_oppv_u64 (drop (sk_length p) (catalog_db_key n d)) = Some (d, c)"
      using decode_oppv_append [of d "[]"] by simp
    then have "dbs_all p (kv # it) = d # dbs_all p it"
      using Cons.prems(2) by (auto simp: kv dbs_all.simps [of _ "_ # _"])
    with Cons show ?thesis by (simp add: kv)
  next
    case False
    then show ?thesis using Cons.prems(2) by (cases kv) (simp add: dbs_all.simps)
  qed
qed

context kv_engine
begin

text \<open>A range that starts inside a prefix lists the keys of the prefix first.\<close>

lemma range_takeWhile_prefix:
  assumes "q \<le> start"
  shows "set (takeWhile (prefix q) (map fst (e_range E p (Included start) Unbounded)))
      = {k \<in> dom (e_get E p). prefix q k \<and> start \<le> k}" (is "set ?ks = _")
    and "sorted_wrt (<) (takeWhile (prefix q) (map fst (e_range E p (Included start) Unbounded)))"
proof -
  let ?es = "e_range E p (Included start) Unbounded"
  have "takeWhile (\<lambda>(k, _). prefix q k) ?es = filter (\<lambda>(k, _). prefix q k) ?es"
    using assms by (intro takeWhile_prefix [OF range_sorted]) (auto simp: range_entries)
  then have *: "takeWhile (prefix q) (map fst ?es) = filter (prefix q) (map fst ?es)"
    by (simp add: takeWhile_map filter_map comp_def case_prod_unfold)
  show "set ?ks = {k \<in> dom (e_get E p). prefix q k \<and> start \<le> k}"
    unfolding * by (auto simp: in_fst_image range_entries dom_def)
  show "sorted_wrt (<) ?ks"
    unfolding * using range_sorted [of p "Included start" Unbounded]
    by (intro sorted_wrt_filter) (simp add: sorted_entries_def sorted_wrt_map)
qed

lemma range_catalog:
  assumes "catalog_wf (met E s)"
  shows "\<forall>k\<in>fst ` set (e_range E (w_meta s) lo hi). prefix CATALOG_PREFIX k \<longrightarrow> (\<exists>n d. k = catalog_db_key n d)"
  using assms unfolding catalog_wf_def by (auto simp: range_entries dom_def)

lemma wedb_iter_spec:
  assumes wf: "catalog_wf (met E s)"
  shows "sorted_wrt (<) (case_prod namespaces_all (wedb_iter E s b))
    \<and> set (case_prod namespaces_all (wedb_iter E s b))
        = {n. b \<le> n \<and> (\<exists>d. catalog_db_key n d \<in> dom (met E s))}"
proof -
  define start where "start = (if b = 0 then CATALOG_PREFIX else catalog_ns_prefix b)"
  let ?ks = "takeWhile (prefix CATALOG_PREFIX) (map fst (e_range E (w_meta s) (Included start) Unbounded))"
  have start: "CATALOG_PREFIX \<le> start"
    by (auto simp: start_def catalog_keys_eq intro: prefix_imp_le)
  have bound: "start \<le> catalog_db_key n d \<longleftrightarrow> b \<le> n" for n d
    by (simp add: start_def catalog_ns_le prefix_imp_le)
  have cat: "\<exists>n d. k = catalog_db_key n d" if "k \<in> set ?ks" for k
    using that wf range_takeWhile_prefix(1) [OF start, of "w_meta s"] unfolding catalog_wf_def by auto
  have "case_prod namespaces_all (wedb_iter E s b) = emit None (map cat_ns ?ks)"
    using range_catalog [OF wf]
    by (simp add: wedb_iter_def split_beta catalog_fixed_eq namespaces_all_eq start_def)
  moreover have "sorted (map cat_ns ?ks)"
    unfolding sorted_map using range_takeWhile_prefix(2) [OF start, of "w_meta s"]
    by (rule sorted_wrt_mono_rel [rotated]) (auto dest!: cat simp: catalog_less)
  moreover have "cat_ns ` set ?ks = {n. b \<le> n \<and> (\<exists>d. catalog_db_key n d \<in> dom (met E s))}"
  proof (intro set_eqI iffI)
    fix n assume "n \<in> cat_ns ` set ?ks"
    then obtain k where k: "k \<in> set ?ks" "n = cat_ns k" by auto
    with cat obtain m d where kd: "k = catalog_db_key m d" by blast
    have "k \<in> dom (met E s) \<and> start \<le> k"
      using k(1) range_takeWhile_prefix(1) [OF start, of "w_meta s"] by auto
    with k(2) kd bound show "n \<in> {n. b \<le> n \<and> (\<exists>d. catalog_db_key n d \<in> dom (met E s))}" by auto
  next
    fix n assume "n \<in> {n. b \<le> n \<and> (\<exists>d. catalog_db_key n d \<in> dom (met E s))}"
    then obtain d where "catalog_db_key n d \<in> set ?ks"
      using range_takeWhile_prefix(1) [OF start, of "w_meta s"] bound by auto
    then show "n \<in> cat_ns ` set ?ks" by (rule rev_image_eqI) simp
  qed
  ultimately show ?thesis
    using emit_sorted [of "map cat_ns ?ks" None] by simp
qed

lemma namespace_iter_spec:
  assumes wf: "catalog_wf (met E s)"
  shows "sorted_wrt (<) (case_prod dbs_all (namespace_iter E s n b))
    \<and> set (case_prod dbs_all (namespace_iter E s n b)) = {d. b \<le> d \<and> catalog_db_key n d \<in> dom (met E s)}"
proof -
  define start where "start = (if b = 0 then catalog_ns_prefix n else catalog_db_key n b)"
  let ?q = "catalog_ns_prefix n"
  let ?ks = "takeWhile (prefix ?q) (map fst (e_range E (w_meta s) (Included start) Unbounded))"
  have start: "?q \<le> start"
    by (simp add: start_def prefix_imp_le)
  have bound: "start \<le> catalog_db_key n d \<longleftrightarrow> b \<le> d" for d
    by (simp add: start_def catalog_ns_le catalog_le)
  have cat: "\<exists>d. k = catalog_db_key n d" if "k \<in> set ?ks" for k
  proof -
    have "k \<in> dom (met E s)" "prefix ?q k"
      using that range_takeWhile_prefix(1) [OF start, of "w_meta s"] by auto
    moreover from this(2) have "prefix CATALOG_PREFIX k" by (auto simp: catalog_keys_eq prefix_def)
    ultimately show ?thesis using wf unfolding catalog_wf_def by fastforce
  qed
  have "case_prod dbs_all (namespace_iter E s n b) = map cat_db ?ks"
    using dbs_all_eq [OF range_catalog [OF wf], of "sk_from_slice ?q" n]
    by (simp add: namespace_iter_def split_beta catalog_fixed_eq start_def Let_def)
  moreover have "sorted_wrt (<) (map cat_db ?ks)"
    unfolding sorted_wrt_map using range_takeWhile_prefix(2) [OF start, of "w_meta s"]
    by (rule sorted_wrt_mono_rel [rotated]) (auto dest!: cat simp: catalog_less)
  moreover have "cat_db ` set ?ks = {d. b \<le> d \<and> catalog_db_key n d \<in> dom (met E s)}"
  proof (intro set_eqI iffI)
    fix d assume "d \<in> cat_db ` set ?ks"
    then obtain k where k: "k \<in> set ?ks" "d = cat_db k" by auto
    with cat obtain e where ke: "k = catalog_db_key n e" by blast
    have "k \<in> dom (met E s) \<and> start \<le> k"
      using k(1) range_takeWhile_prefix(1) [OF start, of "w_meta s"] by auto
    with k(2) ke bound show "d \<in> {d. b \<le> d \<and> catalog_db_key n d \<in> dom (met E s)}" by simp
  next
    fix d assume "d \<in> {d. b \<le> d \<and> catalog_db_key n d \<in> dom (met E s)}"
    then have "catalog_db_key n d \<in> set ?ks"
      using range_takeWhile_prefix(1) [OF start, of "w_meta s"] bound by auto
    then show "d \<in> cat_db ` set ?ks" by (rule rev_image_eqI) simp
  qed
  ultimately show ?thesis by simp
qed

end

section \<open>What removal removes\<close>

lemma prefix_ns_scope [simp]: "prefix (ns_prefix n) (scope kc @ r) \<longleftrightarrow> kc_ns kc = n"
  by (auto simp: ns_prefix_eq scope_def oppv_prefix_free)

lemma prefix_system [simp]:
  "\<not> prefix (ns_prefix n) (catalog_db_key m d)" "\<not> prefix (ns_prefix n) (db_next_id_key m)"
  "\<not> prefix (ns_prefix n) NS_NEXT_ID_KEY" "\<not> prefix (scope kc) (catalog_db_key m d)"
  "\<not> prefix (scope kc) (db_next_id_key m)" "\<not> prefix (scope kc) NS_NEXT_ID_KEY"
  "\<not> prefix (catalog_ns_prefix n) (scope kc @ r)" "\<not> prefix (catalog_ns_prefix n) (db_next_id_key m)"
  "\<not> prefix (catalog_ns_prefix n) NS_NEXT_ID_KEY"
  "scope kc @ r \<noteq> catalog_db_key m d" "scope kc @ r \<noteq> db_next_id_key m"
  by (simp_all add: ns_prefix_eq scope_def catalog_keys_eq CATALOG_PREFIX_def DB_NEXT_ID_PREFIX_def
      NS_NEXT_ID_KEY_def)

context kv_engine
begin

lemma clear_ks_prefix_eq:
  "clear_ks_prefix E p s q (batch, n)
     = (clear_prefix_in_batch E p s q batch, n + word_of_nat (card {k \<in> dom (e_get E (part_of p s)). prefix q k}))"
proof -
  have f: "foldl (\<lambda>(batch, count) k. (batch @ [BRm p k], count + 1)) (batch, n) ks
      = (batch @ map (BRm p) ks, n + word_of_nat (length ks))" for ks and batch and n :: u64
    by (induction ks arbitrary: batch n) simp_all
  have "length (e_prefix E (part_of p s) q) = card (set (map fst (e_prefix E (part_of p s) q)))"
    using distinct_card [OF prefix_distinct] by simp
  then show ?thesis
    by (simp only: clear_ks_prefix_def prod.case takeWhile_prefix_all f clear_prefix_eq prefix_keys length_map)
qed

lemma db_rm_eq:
  "db_rm E kc s =
     (word_of_nat (card {k \<in> dom (dat E s). prefix (scope kc) k})
        + word_of_nat (card {k \<in> dom (met E s). prefix (scope kc) k}),
      commit E (rm_meta (catalog_db_key (kc_ns kc) (kc_db kc))
        (clear_prefix_in_batch E PMeta s (scope kc) (clear_prefix_in_batch E PData s (scope kc) []))) s)"
  by (cases kc) (simp add: db_rm_def db_rm_impl_def scope_prefix_fixed_19 clear_ks_prefix_eq Let_def
      split_beta catalog_fixed_eq length_scope)

lemma db_rm_contents:
  "dat E (snd (db_rm E kc s)) k = (if prefix (scope kc) k then None else dat E s k)"
  "met E (snd (db_rm E kc s)) k
     = (if prefix (scope kc) k \<or> k = catalog_db_key (kc_ns kc) (kc_db kc) then None else met E s k)"
  by (auto simp: db_rm_eq rm_meta_def apply_clear_prefix restrict_map_def dom_def)

lemma namespace_rm_eq:
  "namespace_rm_impl E n s =
     (word_of_nat (card {k \<in> dom (dat E s). prefix (ns_prefix n) k})
        + word_of_nat (card {k \<in> dom (met E s). prefix (ns_prefix n) k}),
      commit E (rm_meta (db_next_id_key n)
        (clear_prefix_in_batch E PMeta s (catalog_ns_prefix n)
          (clear_prefix_in_batch E PMeta s (ns_prefix n) (clear_prefix_in_batch E PData s (ns_prefix n) [])))) s)"
  by (simp add: namespace_rm_impl_def encode_ns_prefix_fixed_eq clear_ks_prefix_eq Let_def split_beta
      catalog_fixed_eq)

lemma namespace_rm_contents:
  "dat E (snd (namespace_rm_impl E n s)) k = (if prefix (ns_prefix n) k then None else dat E s k)"
  "met E (snd (namespace_rm_impl E n s)) k
     = (if prefix (ns_prefix n) k \<or> prefix (catalog_ns_prefix n) k \<or> k = db_next_id_key n
        then None else met E s k)"
  by (auto simp: namespace_rm_eq rm_meta_def apply_clear_prefix restrict_map_def dom_def)

end

section \<open>What the sweep removes\<close>

text \<open>Every metadata key is a system key or lies in the canonical scope of a database.\<close>

definition scoped_wf :: "kv_map \<Rightarrow> bool" where
  "scoped_wf m \<longleftrightarrow> (\<forall>k\<in>dom m. k \<noteq> [] \<and> hd k = 0 \<longrightarrow> (\<exists>kc r. k = scope kc @ r))"

definition sweep_data_hit :: "u64 \<Rightarrow> bytes \<times> bytes \<Rightarrow> bool" where
  "sweep_data_hit now kv \<longleftrightarrow> is_string_expired (fst (decode_string_value (snd kv))) now"

lemma sweep_data_fold:
  "foldl (sweep_data_entry now) (batch, n) xs
     = (batch @ map (BRm PData \<circ> fst) (filter (sweep_data_hit now) xs),
        n + length (filter (sweep_data_hit now) xs))"
  by (induction xs arbitrary: batch n)
    (auto simp: sweep_data_entry_def sweep_data_hit_def rm_data_def split_beta Let_def)

text \<open>An expired metadata record in its place.\<close>

definition sweep_meta_hit :: "u64 \<Rightarrow> bytes \<times> bytes \<Rightarrow> key_composer \<times> key_tag \<times> bytes \<Rightarrow> bool" where
  "sweep_meta_hit now kv = (\<lambda>(kc, t, k).
     fst kv = meta_key kc t k \<and> is_meta t
     \<and> (\<exists>km. km_decode (snd kv) = Some km \<and> km_is_expired km now))"

lemma parse_scoped_prefix_zero: "parse_scoped_prefix k = Some x \<Longrightarrow> k \<noteq> [] \<and> hd k = 0"
  by (cases k) (auto simp: parse_scoped_prefix_def split: if_splits)

lemma parse_scoped_prefix_wf:
  assumes "scoped_wf m" and "k \<in> dom m" and "parse_scoped_prefix k = Some (kc, n, b # r)"
  shows "k = scope kc @ b # r"
proof -
  obtain a q where k: "k = scope a @ q"
    using assms parse_scoped_prefix_zero [OF assms(3)] unfolding scoped_wf_def by blast
  show ?thesis
  proof (cases "q = []")
    case True
    have "parse_scoped_prefix (scope a) = None"
      using decode_oppv_append [of "kc_ns a" "oppv_bytes (kc_db a)"] decode_oppv_append [of "kc_db a" "[]"]
      by (auto simp: parse_scoped_prefix_def scope_def Let_def split: option.splits)
    with True k assms(3) show ?thesis by simp
  next
    case False
    with k assms(3) parse_scoped_prefix_scope [OF False, of a] show ?thesis by simp
  qed
qed

context kv_engine
begin

text \<open>What one entry of the metadata sweep contributes.\<close>

lemma sweep_meta_entry_cases:
  assumes "scoped_wf (met E s)" and "met E s (fst kv) = Some (snd kv)"
  shows "(\<exists>kc t k. sweep_meta_hit now kv (kc, t, k)
      \<and> sweep_meta_entry E s now (batch, n) kv
          = (batch @ BRm PMeta (meta_key kc t k) # cleanup_composite_data E s kc (tag_slice t) k [], n + 1))
    \<or> ((\<forall>x. \<not> sweep_meta_hit now kv x) \<and> sweep_meta_entry E s now (batch, n) kv = (batch, n))"
proof (cases "\<exists>x. sweep_meta_hit now kv x")
  case True
  then obtain kc t k km where h: "sweep_meta_hit now kv (kc, t, k)"
      "fst kv = meta_key kc t k" "is_meta t" "km_decode (snd kv) = Some km" "km_is_expired km now"
    by (auto simp: sweep_meta_hit_def)
  have p: "parse_scoped_prefix (meta_key kc t k) = Some (kc, scope_prefix_len kc, tag_u8 t # k)"
    using parse_scoped_prefix_scope [of "tag_u8 t # k" kc] by (simp add: meta_key_def tag_slice_def)
  have "cleanup_composite_data_raw E s kc (tag_u8 t) k b = cleanup_composite_data E s kc (tag_slice t) k b" for b
    by (simp add: cleanup_composite_data_def tag_slice_def)
  then have "sweep_meta_entry E s now (batch, n) kv
      = (batch @ BRm PMeta (meta_key kc t k) # cleanup_composite_data E s kc (tag_slice t) k [], n + 1)"
    using h cleanup_append [of s kc t k "rm_meta (meta_key kc t k) batch"]
    by (cases kv) (simp add: sweep_meta_entry_def p rm_meta_def)
  with h(1) show ?thesis by blast
next
  case False
  have "sweep_meta_entry E s now (batch, n) kv = (batch, n)"
  proof (rule ccontr)
    assume ne: "sweep_meta_entry E s now (batch, n) kv \<noteq> (batch, n)"
    then obtain kc c b r t km where h: "parse_scoped_prefix (fst kv) = Some (kc, c, b # r)" "tag_from_u8 b = Some t"
        "is_meta t" "km_decode (snd kv) = Some km" "km_is_expired km now"
      by (cases kv) (auto simp: sweep_meta_entry_def split: option.splits list.splits if_splits)
    have "fst kv \<in> dom (met E s)" using assms(2) by auto
    with h have "fst kv = meta_key kc t r"
      using parse_scoped_prefix_wf [OF assms(1), of "fst kv"] tag_from_u8_Some [of b t]
      by (simp add: meta_key_def tag_slice_def)
    with h False show False by (auto simp: sweep_meta_hit_def)
  qed
  with False show ?thesis by blast
qed

end

text \<open>The metadata pass queues removals only: the records it hits and their subkeys.\<close>

definition sweep_meta_ops :: "'p engine \<Rightarrow> 'p wedb \<Rightarrow> u64 \<Rightarrow> (bytes \<times> bytes) list \<Rightarrow> part \<Rightarrow> bytes \<Rightarrow> bool" where
  "sweep_meta_ops E s now xs p x \<longleftrightarrow>
     (\<exists>kv\<in>set xs. \<exists>kc t k. sweep_meta_hit now kv (kc, t, k)
        \<and> (p = PMeta \<and> x = meta_key kc t k
           \<or> BRm p x \<in> set (cleanup_composite_data E s kc (tag_slice t) k [])))"

text \<open>The entries one call looks at.\<close>

definition sampled :: "'p engine \<Rightarrow> 'p \<Rightarrow> bytes option \<Rightarrow> nat \<Rightarrow> (bytes \<times> bytes) list" where
  "sampled E p cursor limit =
     take limit (e_range E p (case cursor of None \<Rightarrow> Unbounded | Some c \<Rightarrow> Excluded c) Unbounded)"

context kv_engine
begin

lemma sweep_meta_hit_unique:
  "sweep_meta_hit now kv (a, t, k) \<Longrightarrow> sweep_meta_hit now kv (b, u, l) \<Longrightarrow> a = b \<and> t = u \<and> k = l"
  by (auto simp: sweep_meta_hit_def)

lemma sweep_meta_fold:
  assumes "scoped_wf (met E s)" and "\<forall>(k, v)\<in>set xs. met E s k = Some v"
  shows "\<exists>ops c. foldl (sweep_meta_entry E s now) (batch, n) xs = (batch @ ops, n + c)
    \<and> only_rm ops \<and> (c = 0 \<longrightarrow> ops = []) \<and> (\<forall>p x. BRm p x \<in> set ops \<longleftrightarrow> sweep_meta_ops E s now xs p x)"
  using assms(2)
proof (induction xs arbitrary: batch n)
  case Nil
  then show ?case by (intro exI [of _ "[]"] exI [of _ 0]) (simp add: sweep_meta_ops_def)
next
  case (Cons kv xs)
  have tail: "\<forall>(k, v)\<in>set xs. met E s k = Some v" and kv: "met E s (fst kv) = Some (snd kv)"
    using Cons.prems by (auto split: prod.splits)
  from sweep_meta_entry_cases [OF assms(1) kv, of now batch n] show ?case
  proof (elim disjE exE conjE)
    fix kc t k
    let ?c = "cleanup_composite_data E s kc (tag_slice t) k []"
    assume hit: "sweep_meta_hit now kv (kc, t, k)"
      and step: "sweep_meta_entry E s now (batch, n) kv = (batch @ BRm PMeta (meta_key kc t k) # ?c, n + 1)"
    obtain ops c where IH: "foldl (sweep_meta_entry E s now) (batch @ BRm PMeta (meta_key kc t k) # ?c, n + 1) xs
        = ((batch @ BRm PMeta (meta_key kc t k) # ?c) @ ops, n + 1 + c)"
      and ops: "only_rm ops" "\<forall>p x. BRm p x \<in> set ops \<longleftrightarrow> sweep_meta_ops E s now xs p x"
      using Cons.IH [OF tail] by meson
    have "sweep_meta_ops E s now (kv # xs) p x
        \<longleftrightarrow> p = PMeta \<and> x = meta_key kc t k \<or> BRm p x \<in> set ?c \<or> sweep_meta_ops E s now xs p x" for p x
      unfolding sweep_meta_ops_def list.set bex_simps(5)
      using hit sweep_meta_hit_unique [OF hit] by blast
    then have "\<forall>p x. BRm p x \<in> set (BRm PMeta (meta_key kc t k) # ?c @ ops) \<longleftrightarrow> sweep_meta_ops E s now (kv # xs) p x"
      using ops(2) by simp
    moreover have "only_rm (BRm PMeta (meta_key kc t k) # ?c @ ops)"
      using ops(1) cleanup_only_rm by simp
    moreover have "foldl (sweep_meta_entry E s now) (batch, n) (kv # xs)
        = (batch @ BRm PMeta (meta_key kc t k) # ?c @ ops, n + Suc c)"
      using IH by (simp add: step)
    ultimately show ?thesis by (metis nat.distinct(1))
  next
    assume no: "\<forall>x. \<not> sweep_meta_hit now kv x"
      and step: "sweep_meta_entry E s now (batch, n) kv = (batch, n)"
    then have "sweep_meta_ops E s now (kv # xs) p x \<longleftrightarrow> sweep_meta_ops E s now xs p x" for p x
      by (simp add: sweep_meta_ops_def)
    with Cons.IH [OF tail, of batch n] step show ?thesis by simp
  qed
qed

lemma sampled_get: "(k, v) \<in> set (sampled E p cursor limit) \<Longrightarrow> e_get E p k = Some v"
  by (auto simp: sampled_def range_entries dest: in_set_takeD)

lemma sweep_contents:
  fixes limit
  assumes "scoped_wf (met E s)"
  defines "D \<equiv> sampled E (w_data s) (w_data_cursor s) limit" and "M \<equiv> sampled E (w_meta s) (w_meta_cursor s) limit"
  shows "dat E (snd (sweep_expired E now limit s)) x
      = (if (\<exists>v. (x, v) \<in> set D \<and> sweep_data_hit now (x, v)) \<or> sweep_meta_ops E s now M PData x
         then None else dat E s x)"
    and "met E (snd (sweep_expired E now limit s)) x
      = (if sweep_meta_ops E s now M PMeta x then None else met E s x)"
proof -
  let ?H = "filter (sweep_data_hit now) D"
  have "\<forall>(k, v)\<in>set M. met E s k = Some v"
    unfolding M_def using sampled_get [of _ _ "w_meta s"] by auto
  from sweep_meta_fold [OF assms(1) this, of now "map (BRm PData \<circ> fst) ?H" "length ?H"]
  obtain ops c where f: "foldl (sweep_meta_entry E s now) (map (BRm PData \<circ> fst) ?H, length ?H) M
      = (map (BRm PData \<circ> fst) ?H @ ops, length ?H + c)"
    and ops: "only_rm ops" "c = 0 \<longrightarrow> ops = []" "\<And>p x. BRm p x \<in> set ops \<longleftrightarrow> sweep_meta_ops E s now M p x"
    by blast
  let ?b = "map (BRm PData) (map fst ?H) @ ops"
  let ?s = "snd (sweep_expired E now limit s)"
  have fold: "foldl (sweep_data_entry now) ([], 0) D = (map (BRm PData \<circ> fst) ?H, length ?H)"
    by (simp add: sweep_data_fold)
  let ?w = "if length ?H + c > 0 then commit E ?b s else s"
  have "w_data ?s = w_data ?w \<and> w_meta ?s = w_meta ?w"
    using f fold unfolding D_def M_def
    by (simp add: sweep_expired_def sweep_ks_def sampled_def Let_def del: filter_empty_conv)
  then have "dat E ?s = dat E ?w" "met E ?s = met E ?w"
    unfolding dat_def met_def by (simp_all only:)
  moreover have "dat E ?w = apply_ops PData ?b (dat E s) \<and> met E ?w = apply_ops PMeta ?b (met E s)"
  proof (cases "length ?H + c > 0")
    case False
    then have "?H = []" "c = 0" by simp_all
    then have "?b = []" using ops(2) by simp
    with False show ?thesis by (simp only: apply_ops_simps if_False simp_thms)
  qed (simp only: dat_commit met_commit if_True simp_thms)
  ultimately have s': "dat E ?s = apply_ops PData ?b (dat E s)" "met E ?s = apply_ops PMeta ?b (met E s)"
    by (simp_all only:)
  have mem: "BRm p x \<in> set ?b \<longleftrightarrow>
      p = PData \<and> (\<exists>v. (x, v) \<in> set D \<and> sweep_data_hit now (x, v)) \<or> sweep_meta_ops E s now M p x" for p
    using ops(3) by force
  have "only_rm ?b" using ops(1) by (simp del: map_map)
  show "dat E ?s x = (if (\<exists>v. (x, v) \<in> set D \<and> sweep_data_hit now (x, v)) \<or> sweep_meta_ops E s now M PData x
         then None else dat E s x)"
    and "met E ?s x = (if sweep_meta_ops E s now M PMeta x then None else met E s x)"
    unfolding s' apply_only_rm [OF \<open>only_rm ?b\<close>] mem by simp_all
qed

end

text \<open>Cleaning a structure never hits a raw string or a metadata record.\<close>

context kv_engine
begin

lemma clear_tag_not_meta:
  "BRm q (meta_key kc' t' k') \<in> set (clear_tag E p kc s k t batch) \<Longrightarrow>
     BRm q (meta_key kc' t' k') \<in> set batch \<or> t' = t"
  using prefix_meta_key [of kc t k kc' t' k'] by (auto simp: clear_tag_set)

lemma cleanup_not_meta:
  assumes "BRm q (meta_key kc' t' k') \<in> set (cleanup_composite_data E s kc (tag_slice t) k [])"
  shows "is_data t'"
  using assms
  by (cases t) (auto simp: cleanup_unfold Let_def rm_data_def is_data_def dest!: clear_tag_not_meta)

lemma sweep_meta_ops_meta_key:
  assumes "sweep_meta_ops E s now M p (meta_key kc t k)" and "\<not> is_data t"
  shows "p = PMeta \<and> (\<exists>v km. (meta_key kc t k, v) \<in> set M \<and> km_decode v = Some km \<and> km_is_expired km now)"
  using assms cleanup_not_meta by (fastforce simp: sweep_meta_ops_def sweep_meta_hit_def)

text \<open>The sweep keeps what is live, whatever it samples.\<close>

lemma sweep_live_string:
  assumes "scoped_wf (met E s)"
  shows "live_string (dat E (snd (sweep_expired E now limit s))) kc k now = live_string (dat E s) kc k now"
proof -
  let ?x = "meta_key kc RawString k" and ?D = "sampled E (w_data s) (w_data_cursor s) limit"
  have "\<not> sweep_meta_ops E s now (sampled E (w_meta s) (w_meta_cursor s) limit) PData ?x"
    using sweep_meta_ops_meta_key [of s now _ PData kc RawString k] by (auto simp: is_data_def)
  moreover have "live_string (dat E s) kc k now = None" if "(?x, v) \<in> set ?D" "sweep_data_hit now (?x, v)" for v
    using sampled_get [OF that(1)] that(2)
    by (auto simp: live_string_def decode_live_string_value_def sweep_data_hit_def split: prod.splits)
  ultimately show ?thesis
    using sweep_contents(1) [OF assms, of now limit ?x] by (auto simp: live_string_def)
qed

lemma sweep_live_meta:
  assumes "scoped_wf (met E s)" and "\<not> is_data t"
  shows "live_meta (met E (snd (sweep_expired E now limit s))) kc k now t = live_meta (met E s) kc k now t"
proof (cases "sweep_meta_ops E s now (sampled E (w_meta s) (w_meta_cursor s) limit) PMeta (meta_key kc t k)")
  case True
  then obtain v km where "(meta_key kc t k, v) \<in> set (sampled E (w_meta s) (w_meta_cursor s) limit)"
      "km_decode v = Some km" "km_is_expired km now"
    using sweep_meta_ops_meta_key assms(2) by blast
  then have "live_meta (met E s) kc k now t = None"
    using sampled_get [of _ _ "w_meta s"] by (fastforce simp: live_meta_def)
  with True show ?thesis
    using sweep_contents(2) [OF assms(1), of now limit "meta_key kc t k"] by (simp add: live_meta_def)
next
  case False
  then show ?thesis
    using sweep_contents(2) [OF assms(1), of now limit "meta_key kc t k"] by (simp add: live_meta_def)
qed

end

text \<open>What one call removes from each partition: the sampled data entries whose value reads as the
  header of an expired string, and with every sampled expired record the subkeys of its structure,
  in the metadata partition those of time series and full-text schemas.\<close>

definition swept_record :: "'p engine \<Rightarrow> 'p wedb \<Rightarrow> u64 \<Rightarrow> nat \<Rightarrow> key_composer \<Rightarrow> key_tag \<Rightarrow> bytes \<Rightarrow> bool" where
  "swept_record E s now limit kc t k \<longleftrightarrow> is_meta t \<and>
     (\<exists>v km. (meta_key kc t k, v) \<in> set (sampled E (w_meta s) (w_meta_cursor s) limit)
        \<and> km_decode v = Some km \<and> km_is_expired km now)"

definition swept_entry :: "'p engine \<Rightarrow> 'p wedb \<Rightarrow> u64 \<Rightarrow> nat \<Rightarrow> bytes \<Rightarrow> bool" where
  "swept_entry E s now limit x \<longleftrightarrow>
     (\<exists>v. (x, v) \<in> set (sampled E (w_data s) (w_data_cursor s) limit)
        \<and> is_string_expired (fst (decode_string_value v)) now)"

definition subkey_of :: "key_composer \<Rightarrow> key_tag \<Rightarrow> bytes \<Rightarrow> bytes \<Rightarrow> bool" where
  "subkey_of kc t k x \<longleftrightarrow> (\<exists>u\<in>data_of t. \<exists>sub. x = sub_at kc u k sub)"

context kv_engine
begin

lemma swept_ops:
  fixes limit
  defines "M s \<equiv> sampled E (w_meta s) (w_meta_cursor s) limit"
  shows "dat E s x \<noteq> None \<Longrightarrow> sweep_meta_ops E s now (M s) PData x
      \<longleftrightarrow> (\<exists>kc t k. swept_record E s now limit kc t k \<and> subkey_of kc t k x)" (is "_ \<Longrightarrow> ?D")
    and "met E s x \<noteq> None \<Longrightarrow> sweep_meta_ops E s now (M s) PMeta x
      \<longleftrightarrow> (\<exists>kc t k. swept_record E s now limit kc t k
            \<and> (x = meta_key kc t k \<or> t \<in> {TimeSeriesMeta, FtSchema, FtAlias} \<and> subkey_of kc t k x))" (is "_ \<Longrightarrow> ?M")
proof -
  have r: "swept_record E s now limit kc t k \<longleftrightarrow> (\<exists>kv\<in>set (M s). sweep_meta_hit now kv (kc, t, k))" for kc t k
    by (auto simp: swept_record_def sweep_meta_hit_def M_def) force
  have ops: "sweep_meta_ops E s now (M s) p x \<longleftrightarrow>
      (\<exists>kc t k. swept_record E s now limit kc t k \<and>
         (p = PMeta \<and> x = meta_key kc t k \<or> BRm p x \<in> set (cleanup_composite_data E s kc (tag_slice t) k [])))" for p
    unfolding sweep_meta_ops_def r by blast
  have m: "swept_record E s now limit kc t k \<Longrightarrow> is_meta t" for kc t k
    by (simp add: swept_record_def)
  show ?D if "dat E s x \<noteq> None"
    unfolding ops subkey_of_def using cleanup_data_iff [OF m that] by (simp cong: conj_cong)
  show ?M if "met E s x \<noteq> None"
    unfolding ops subkey_of_def using cleanup_meta_iff [OF m that] by (simp cong: conj_cong)
qed

lemma sweep_exact:
  fixes limit
  assumes "scoped_wf (met E s)"
  shows "dat E (snd (sweep_expired E now limit s)) x
      = (if swept_entry E s now limit x \<or> (\<exists>kc t k. swept_record E s now limit kc t k \<and> subkey_of kc t k x)
         then None else dat E s x)"
    and "met E (snd (sweep_expired E now limit s)) x
      = (if \<exists>kc t k. swept_record E s now limit kc t k
            \<and> (x = meta_key kc t k \<or> t \<in> {TimeSeriesMeta, FtSchema, FtAlias} \<and> subkey_of kc t k x)
         then None else met E s x)"
proof -
  show "dat E (snd (sweep_expired E now limit s)) x
      = (if swept_entry E s now limit x \<or> (\<exists>kc t k. swept_record E s now limit kc t k \<and> subkey_of kc t k x)
         then None else dat E s x)"
    unfolding sweep_contents [OF assms] swept_entry_def sweep_data_hit_def snd_conv
    using swept_ops(1) [of s x now limit] by (cases "dat E s x = None") simp_all
  show "met E (snd (sweep_expired E now limit s)) x
      = (if \<exists>kc t k. swept_record E s now limit kc t k
            \<and> (x = meta_key kc t k \<or> t \<in> {TimeSeriesMeta, FtSchema, FtAlias} \<and> subkey_of kc t k x)
         then None else met E s x)" (is "_ = (if ?P then _ else _)")
  proof (cases "met E s x = None")
    case False
    show ?thesis unfolding sweep_contents [OF assms] swept_ops(2) [OF False] ..
  qed (simp add: sweep_contents [OF assms])
qed

end

section \<open>The shape of the store\<close>

text \<open>A metadata key is a catalog entry, a counter or a tagged key of a database, a data key a tagged
  key of a database, and the catalog names every database that holds a key.\<close>

definition meta_shape :: "kv_map \<Rightarrow> bool" where
  "meta_shape m \<longleftrightarrow> (\<forall>x v. m x = Some v \<longrightarrow>
     (\<exists>n d. x = catalog_db_key n d) \<and> v = []
     \<or> (x = NS_NEXT_ID_KEY \<or> (\<exists>n. x = db_next_id_key n)) \<and> (\<exists>w. v = oppv_bytes w)
     \<or> (\<exists>kc t r. x = scope kc @ tag_slice t @ r))"

definition data_shape :: "kv_map \<Rightarrow> bool" where
  "data_shape m \<longleftrightarrow> (\<forall>x\<in>dom m. \<exists>kc t r. x = scope kc @ tag_slice t @ r)"

definition registered :: "'p engine \<Rightarrow> 'p wedb \<Rightarrow> key_composer \<Rightarrow> bool" where
  "registered E s kc \<longleftrightarrow> catalog_db_key (kc_ns kc) (kc_db kc) \<in> dom (met E s)"

definition store_wf :: "'p engine \<Rightarrow> 'p wedb \<Rightarrow> bool" where
  "store_wf E s \<longleftrightarrow> meta_shape (met E s) \<and> data_shape (dat E s)
     \<and> (\<forall>kc r. scope kc @ r \<in> dom (dat E s) \<union> dom (met E s) \<longrightarrow> registered E s kc)"

lemma meta_shape_catalog: "meta_shape m \<Longrightarrow> catalog_wf m"
  unfolding meta_shape_def catalog_wf_def
  by (force simp: CATALOG_PREFIX_def NS_NEXT_ID_KEY_def catalog_keys_eq DB_NEXT_ID_PREFIX_def scope_def)

lemma meta_shape_scoped: "meta_shape m \<Longrightarrow> scoped_wf m"
  unfolding meta_shape_def scoped_wf_def
  by (force simp: CATALOG_PREFIX_def NS_NEXT_ID_KEY_def catalog_keys_eq DB_NEXT_ID_PREFIX_def)

lemma store_wf_views: "store_wf E s \<Longrightarrow> catalog_wf (met E s)" "store_wf E s \<Longrightarrow> scoped_wf (met E s)"
  by (simp_all add: store_wf_def meta_shape_catalog meta_shape_scoped)

text \<open>A change that writes system keys, or removes keys without taking the entry of a database that
  still holds some, or writes keys of a registered database, keeps the shape.\<close>

lemma store_wf_put_system:
  assumes "store_wf E s" and "dat E s' = dat E s" and "met E s' = (met E s)(x \<mapsto> v)"
    and "(\<exists>n d. x = catalog_db_key n d) \<and> v = []
      \<or> (x = NS_NEXT_ID_KEY \<or> (\<exists>n. x = db_next_id_key n)) \<and> (\<exists>w. v = oppv_bytes w)"
  shows "store_wf E s'"
proof -
  have sys: "scope kc @ r \<noteq> x" for kc r
    using assms(4) by (auto simp: prefix_system) (simp add: NS_NEXT_ID_KEY_def scope_def)
  have "meta_shape ((met E s)(x \<mapsto> v))"
    using assms(1,4) unfolding store_wf_def meta_shape_def fun_upd_apply by (auto split: if_split_asm)
  moreover have "registered E s kc \<Longrightarrow> registered E s' kc" for kc
    by (auto simp: registered_def assms(3))
  ultimately show ?thesis
    using assms(1) sys unfolding store_wf_def assms(2,3) by (auto simp: fun_upd_apply dom_def)
qed

lemma store_wf_remove:
  assumes wf: "store_wf E s" and d: "\<And>x. dat E s' x = dat E s x \<or> dat E s' x = None"
    and m: "\<And>x. met E s' x = met E s x \<or> met E s' x = None"
    and r: "\<And>kc r. scope kc @ r \<in> dom (dat E s') \<union> dom (met E s') \<Longrightarrow> registered E s kc \<Longrightarrow> registered E s' kc"
  shows "store_wf E s'"
proof -
  have "meta_shape (met E s')"
    using wf m unfolding store_wf_def meta_shape_def by (metis option.distinct(1))
  moreover have "dom (dat E s') \<subseteq> dom (dat E s)" "dom (met E s') \<subseteq> dom (met E s)"
    using d m by (metis domIff subsetI)+
  ultimately show ?thesis
    using wf r unfolding store_wf_def data_shape_def by (meson Un_iff subsetD)
qed

definition writes_keys_of :: "key_composer \<Rightarrow> batch \<Rightarrow> bool" where
  "writes_keys_of kc batch \<longleftrightarrow> (\<forall>op\<in>set batch. \<exists>t r. snd (op_key op) = scope kc @ tag_slice t @ r)"

lemma store_wf_write:
  assumes wf: "store_wf E s" and reg: "registered E s kc"
    and frame: "\<And>x. \<forall>t r. x \<noteq> scope kc @ tag_slice t @ r \<Longrightarrow> dat E s' x = dat E s x \<and> met E s' x = met E s x"
  shows "store_wf E s'"
proof -
  have reg': "registered E s' kc' \<longleftrightarrow> registered E s kc'" for kc'
    using frame [of "catalog_db_key (kc_ns kc') (kc_db kc')"] prefix_system(10) [THEN not_sym, of _ _ kc]
    unfolding registered_def dom_def by simp
  have "meta_shape (met E s')"
    using wf frame unfolding store_wf_def meta_shape_def by metis
  moreover have "data_shape (dat E s')"
    using wf frame unfolding store_wf_def data_shape_def dom_def by (metis (mono_tags, lifting) mem_Collect_eq)
  moreover have "registered E s kc'" if "scope kc' @ r \<in> dom (dat E s') \<union> dom (met E s')" for kc' r
  proof (cases "kc' = kc")
    case False
    then have "dat E s' (scope kc' @ r) = dat E s (scope kc' @ r) \<and> met E s' (scope kc' @ r) = met E s (scope kc' @ r)"
      by (intro frame) simp
    with that have "scope kc' @ r \<in> dom (dat E s) \<union> dom (met E s)" by (simp add: dom_def)
    with wf show ?thesis unfolding store_wf_def by blast
  qed (simp add: reg)
  ultimately show ?thesis unfolding store_wf_def reg' by blast
qed

context kv_engine
begin

lemma store_wf_commit:
  assumes "store_wf E s" and "registered E s kc" and "writes_keys_of kc batch"
  shows "store_wf E (commit E batch s)"
proof (rule store_wf_write [OF assms(1,2)])
  fix x assume x: "\<forall>t r. x \<noteq> scope kc @ tag_slice t @ r"
  have "(p, x) \<notin> op_key ` set batch" for p
    using x assms(3) unfolding writes_keys_of_def by (metis image_iff snd_conv)
  then show "dat E (commit E batch s) x = dat E s x \<and> met E (commit E batch s) x = met E s x"
    by (simp add: apply_ops_frame)
qed

lemma store_wf_activate:
  "store_wf E s \<Longrightarrow> store_wf E (put_meta E (catalog_db_key n d) [] s)"
  "store_wf E s \<Longrightarrow> store_wf E (put_meta E NS_NEXT_ID_KEY (oppv_bytes w) s)"
  "store_wf E s \<Longrightarrow> store_wf E (put_meta E (db_next_id_key n) (oppv_bytes w) s)"
proof -
  note put = store_wf_put_system [OF _ put_simps(3,4)]
  show "store_wf E s \<Longrightarrow> store_wf E (put_meta E (catalog_db_key n d) [] s)"
    by (erule put) blast
  show "store_wf E s \<Longrightarrow> store_wf E (put_meta E NS_NEXT_ID_KEY (oppv_bytes w) s)"
    by (erule put) blast
  show "store_wf E s \<Longrightarrow> store_wf E (put_meta E (db_next_id_key n) (oppv_bytes w) s)"
    by (erule put) blast
qed

lemma store_wf_wedb_ns: "store_wf E s \<Longrightarrow> store_wf E (snd (wedb_ns E i s))"
  by (cases i) (simp_all add: wedb_ns_def next_namespace_id_eq activate_eq store_wf_activate)

lemma store_wf_namespace_db:
  "store_wf E s \<Longrightarrow> store_wf E (snd (namespace_db E n i s))"
  "registered E (snd (namespace_db E n i s)) (fst (namespace_db E n i s))"
  by (cases i; simp add: namespace_db_def next_db_id_eq activate_eq store_wf_activate registered_def)+

lemma store_wf_db_rm: "store_wf E s \<Longrightarrow> store_wf E (snd (db_rm E kc s))"
  by (rule store_wf_remove) (auto simp: db_rm_contents registered_def dom_def split: if_splits)

lemma store_wf_namespace_rm: "store_wf E s \<Longrightarrow> store_wf E (snd (namespace_rm_impl E n s))"
  by (rule store_wf_remove) (auto simp: namespace_rm_contents registered_def dom_def split: if_splits)

lemma store_wf_wedb_rm: "store_wf E s \<Longrightarrow> store_wf E (snd (wedb_rm E len s))"
proof (erule store_wf_remove)
  have "dat E (snd (wedb_rm E len s)) = Map.empty" "met E (snd (wedb_rm E len s)) = Map.empty"
    by (simp_all add: wedb_rm_def met_def dat_def get_clear)
  then show "dat E (snd (wedb_rm E len s)) x = dat E s x \<or> dat E (snd (wedb_rm E len s)) x = None"
    "met E (snd (wedb_rm E len s)) x = met E s x \<or> met E (snd (wedb_rm E len s)) x = None"
    "scope kc @ r \<in> dom (dat E (snd (wedb_rm E len s))) \<union> dom (met E (snd (wedb_rm E len s)))
      \<Longrightarrow> registered E (snd (wedb_rm E len s)) kc" for x kc r
    by (simp_all only: dom_empty Un_empty empty_iff) simp_all
qed

lemma sweep_keeps_catalog:
  assumes "scoped_wf (met E s)"
  shows "met E (snd (sweep_expired E now limit s)) (catalog_db_key n d) = met E s (catalog_db_key n d)"
proof -
  have "catalog_db_key n d \<noteq> meta_key kc t k" "\<not> subkey_of kc t k (catalog_db_key n d)" for kc t k
    by (auto simp: meta_key_def subkey_of_def sub_at_def subkey_prefix_def catalog_keys_eq)
  then show ?thesis by (simp add: sweep_exact [OF assms])
qed

lemma store_wf_sweep:
  assumes "store_wf E s"
  shows "store_wf E (snd (sweep_expired E now limit s))"
proof (rule store_wf_remove [OF assms])
  note wf = store_wf_views(2) [OF assms]
  show "registered E (snd (sweep_expired E now limit s)) kc" if "registered E s kc" for kc
    using that by (simp add: registered_def dom_def sweep_keeps_catalog [OF wf])
qed (simp_all add: sweep_exact [OF store_wf_views(2) [OF assms]])

end

lemma store_wf_new:
  assumes "kv_engine E" and "e_get E (fst parts) = Map.empty" and "e_get E (snd parts) = Map.empty"
  shows "store_wf E (wedb_new E seed parts vs)"
proof -
  have "store_wf E \<lparr>w_data = fst parts, w_meta = snd parts, w_ver = v, w_data_cursor = None, w_meta_cursor = None\<rparr>" for v
    by (simp add: store_wf_def meta_shape_def data_shape_def met_def dat_def assms)
  then show ?thesis
    by (simp add: wedb_new_def activate_eq init_version_counter_def kv_engine.store_wf_activate [OF assms(1)])
qed

section \<open>Consecutive allocations\<close>

primrec open_namespaces :: "'p engine \<Rightarrow> nat \<Rightarrow> 'p wedb \<Rightarrow> u64 list \<times> 'p wedb" where
  "open_namespaces E 0 s = ([], s)"
| "open_namespaces E (Suc n) s =
     (let (i, s) = wedb_ns E None s; (is, s) = open_namespaces E n s in (i # is, s))"

context kv_engine
begin

lemma wedb_ns_None:
  "fst (wedb_ns E None s) = next_id (met E s) NS_NEXT_ID_KEY"
  "dat E (snd (wedb_ns E None s)) = dat E s"
  "met E (snd (wedb_ns E None s)) = (met E s)
     (NS_NEXT_ID_KEY \<mapsto> oppv_bytes (next_id (met E s) NS_NEXT_ID_KEY + 1),
      catalog_db_key (next_id (met E s) NS_NEXT_ID_KEY) 0 \<mapsto> [])"
  by (simp_all add: wedb_ns_def next_namespace_id_eq activate_eq)

lemma open_namespaces_spec:
  fixes c
  defines "c \<equiv> \<lambda>s. next_id (met E s) NS_NEXT_ID_KEY"
  shows "fst (open_namespaces E n s) = map (\<lambda>i. c s + word_of_nat i) [0..<n]
    \<and> dat E (snd (open_namespaces E n s)) = dat E s
    \<and> c (snd (open_namespaces E n s)) = c s + word_of_nat n
    \<and> (\<forall>x. x \<noteq> NS_NEXT_ID_KEY \<longrightarrow> met E (snd (open_namespaces E n s)) x
         = (if \<exists>i<n. x = catalog_db_key (c s + word_of_nat i) 0 then Some [] else met E s x))"
proof (induction n arbitrary: s)
  case (Suc n)
  define s1 where "s1 = snd (wedb_ns E None s)"
  have step: "open_namespaces E (Suc n) s = (c s # fst (open_namespaces E n s1), snd (open_namespaces E n s1))"
    by (simp add: s1_def split_beta wedb_ns_None(1) c_def)
  have c1: "c s1 = c s + 1"
    by (simp add: c_def s1_def wedb_ns_None(3))
  have ids: "map (\<lambda>i. c s + word_of_nat i) [0..<Suc n] = c s # map (\<lambda>i. c s + 1 + word_of_nat i) [0..<n]"
    by (simp add: upt_conv_Cons map_Suc_upt [symmetric] comp_def ac_simps del: upt_Suc)
  have ex: "(\<exists>i<Suc n. x = catalog_db_key (c s + word_of_nat i) 0)
      \<longleftrightarrow> x = catalog_db_key (c s) 0 \<or> (\<exists>i<n. x = catalog_db_key (c s + 1 + word_of_nat i) 0)" for x
    by (auto simp: Ex_less_Suc2 ac_simps)
  have m1: "met E s1 x = (if x = catalog_db_key (c s) 0 then Some [] else met E s x)" if "x \<noteq> NS_NEXT_ID_KEY" for x
    using that by (simp add: s1_def wedb_ns_None c_def)
  have d1: "dat E s1 = dat E s" by (simp add: s1_def wedb_ns_None)
  note IH = Suc.IH [of s1, unfolded c1 d1]
  have "met E (snd (open_namespaces E n s1)) x
      = (if x = catalog_db_key (c s) 0 \<or> (\<exists>i<n. x = catalog_db_key (c s + 1 + word_of_nat i) 0)
         then Some [] else met E s x)" if "x \<noteq> NS_NEXT_ID_KEY" for x
    using IH m1 [OF that] that by auto
  then show ?case
    unfolding step ids fst_conv snd_conv ex using IH by (simp add: ac_simps)
qed (simp add: c_def)

end

section \<open>Properties\<close>

text \<open>C27: opening namespaces without an identifier hands out the consecutive values of the
  namespace counter, pairwise different as long as the counter does not wrap, registers each with its
  default database, and changes nothing but the catalog and the counter. As long as no registered
  namespace has a number at or above the counter the numbers are new, and this stays so. The
  condition is needed: opening a namespace by its number does not move the counter, and a namespace
  that was registered at or above it is handed out again as if it were new.\<close>

theorem namespace_ids_fresh:
  fixes n
  assumes "kv_engine E" and "unat (next_id (met E s) NS_NEXT_ID_KEY) + n < 2 ^ 64"
  defines "c \<equiv> next_id (met E s) NS_NEXT_ID_KEY" and "ids \<equiv> fst (open_namespaces E n s)"
    and "s' \<equiv> snd (open_namespaces E n s)"
  shows "ids = map (\<lambda>i. c + word_of_nat i) [0..<n] \<and> distinct ids
    \<and> next_id (met E s') NS_NEXT_ID_KEY = c + word_of_nat n
    \<and> dat E s' = dat E s
    \<and> (\<forall>x. x \<noteq> NS_NEXT_ID_KEY \<longrightarrow>
          met E s' x = (if \<exists>i\<in>set ids. x = catalog_db_key i 0 then Some [] else met E s x))
    \<and> ((\<forall>m d. catalog_db_key m d \<in> dom (met E s) \<longrightarrow> m < c) \<longrightarrow>
         (\<forall>i\<in>set ids. \<forall>d. catalog_db_key i d \<notin> dom (met E s))
         \<and> (\<forall>m d. catalog_db_key m d \<in> dom (met E s') \<longrightarrow> m < c + word_of_nat n))
    \<and> (\<forall>m d. catalog_db_key m d \<in> dom (met E s) \<and> c \<le> m \<and> unat m < unat c + n \<longrightarrow> m \<in> set ids)"
proof -
  note spec = kv_engine.open_namespaces_spec [OF assms(1), of n s, folded c_def ids_def s'_def]
  have b: "unat c + n < 2 ^ 64" using assms(2) by (simp add: c_def)
  have u: "unat (c + word_of_nat i) = unat c + i" if "i \<le> n" for i
    using b that by (simp add: unat_word_ariths unat_of_nat)
  have ids: "ids = map (\<lambda>i. c + word_of_nat i) [0..<n]" using spec by simp
  have "inj_on (\<lambda>i. c + word_of_nat i) {0..<n}"
    by (rule inj_onI) (metis add_left_cancel atLeastLessThan_iff less_imp_le u)
  then have d: "distinct ids" by (simp add: ids distinct_map)
  have mem: "m \<in> set ids \<longleftrightarrow> c \<le> m \<and> unat m < unat c + n" for m
  proof
    assume "m \<in> set ids"
    then obtain i where "i < n" "m = c + word_of_nat i" by (auto simp: ids)
    then show "c \<le> m \<and> unat m < unat c + n" using u [of i] by (simp add: word_le_nat_alt)
  next
    assume m: "c \<le> m \<and> unat m < unat c + n"
    then have "m = c + word_of_nat (unat m - unat c)"
      using u [of "unat m - unat c"] by (simp add: word_unat_eq_iff word_le_nat_alt)
    with m show "m \<in> set ids" by (auto simp: ids word_le_nat_alt intro!: image_eqI [of _ _ "unat m - unat c"])
  qed
  have ex: "(\<exists>i<n. x = catalog_db_key (c + word_of_nat i) 0) \<longleftrightarrow> (\<exists>i\<in>set ids. x = catalog_db_key i 0)" for x
    by (auto simp: ids)
  have met: "\<forall>x. x \<noteq> NS_NEXT_ID_KEY \<longrightarrow> met E s' x = (if \<exists>i\<in>set ids. x = catalog_db_key i 0 then Some [] else met E s x)"
    using spec unfolding ex by blast
  have lt: "m < c + word_of_nat n \<longleftrightarrow> unat m < unat c + n" for m
    using u [of n] by (simp add: word_less_nat_alt)
  have "m < c + word_of_nat n"
    if "\<forall>m d. catalog_db_key m d \<in> dom (met E s) \<longrightarrow> m < c" "catalog_db_key m d \<in> dom (met E s')" for m d
  proof (cases "m \<in> set ids")
    case False
    then have "met E s' (catalog_db_key m d) = met E s (catalog_db_key m d)"
      using met [rule_format, of "catalog_db_key m d"] by auto
    with that(2) have "catalog_db_key m d \<in> dom (met E s)" by (simp add: dom_def)
    with that(1) have "unat m < unat c" by (auto simp: word_less_nat_alt)
    then show ?thesis unfolding lt by simp
  qed (simp add: lt mem)
  moreover have "catalog_db_key i d \<notin> dom (met E s)"
    if "\<forall>m d. catalog_db_key m d \<in> dom (met E s) \<longrightarrow> m < c" "i \<in> set ids" for i d
    using that unfolding mem by (meson not_le)
  ultimately have "(\<forall>m d. catalog_db_key m d \<in> dom (met E s) \<longrightarrow> m < c) \<longrightarrow>
         (\<forall>i\<in>set ids. \<forall>d. catalog_db_key i d \<notin> dom (met E s))
         \<and> (\<forall>m d. catalog_db_key m d \<in> dom (met E s') \<longrightarrow> m < c + word_of_nat n)"
    by blast
  moreover have "next_id (met E s') NS_NEXT_ID_KEY = c + word_of_nat n" "dat E s' = dat E s"
    using spec by simp_all
  ultimately show ?thesis using ids d met mem by (intro conjI) simp_all
qed

theorem namespace_ids_fresh_witness:
  "fst (open_namespaces mem_engine 2 mem_db) = [1, 2]"
proof -
  have "next_id (met mem_engine mem_db) NS_NEXT_ID_KEY = 1" by (simp add: next_id_def)
  then show ?thesis
    using namespace_ids_fresh [OF kv_engine_mem, of mem_db 2] by (simp add: upt_rec)
qed

text \<open>C25: over a well-formed catalog the namespace iterator returns exactly the namespaces that
  have a registered database, from the given identifier on, each once and in increasing order, and
  the database iterator exactly the registered databases of its namespace, likewise.\<close>

theorem catalog_iteration:
  assumes "kv_engine E" and "catalog_wf (met E s)"
  shows "sorted_wrt (<) (case_prod namespaces_all (wedb_iter E s b))
    \<and> set (case_prod namespaces_all (wedb_iter E s b))
        = {n. b \<le> n \<and> (\<exists>d. catalog_db_key n d \<in> dom (met E s))}
    \<and> sorted_wrt (<) (case_prod dbs_all (namespace_iter E s n b))
    \<and> set (case_prod dbs_all (namespace_iter E s n b)) = {d. b \<le> d \<and> catalog_db_key n d \<in> dom (met E s)}"
  using kv_engine.wedb_iter_spec [OF assms] kv_engine.namespace_iter_spec [OF assms] by blast

lemma wedb_new_catalog: "catalog_wf (met mem_engine (wedb_new mem_engine seed (RBT.empty, RBT.empty) vs))"
  and wedb_new_dom: "dom (met mem_engine (wedb_new mem_engine seed (RBT.empty, RBT.empty) vs)) = {catalog_db_key 0 0}"
  by (simp_all add: wedb_new_def activate_eq catalog_wf_def)
    (auto simp: met_def mem_engine_def init_version_counter_def)

theorem catalog_iteration_witness:
  "set (case_prod dbs_all (namespace_iter mem_engine
      (wedb_new mem_engine 7 (RBT.empty, RBT.empty) \<lparr>vs_counter = 0, vs_last = 0\<rparr>) 0 0)) = {0}"
  using catalog_iteration [OF kv_engine_mem wedb_new_catalog [of 7 "\<lparr>vs_counter = 0, vs_last = 0\<rparr>"], of 0 0]
  by (simp add: wedb_new_dom)

text \<open>C22: removing a database deletes every data and metadata key of that database and its catalog
  entry, counts them, and leaves every other database, every other catalog entry and the counters
  as they were.\<close>

theorem db_rm_isolates:
  assumes "kv_engine E"
  shows "fst (db_rm E kc s) = word_of_nat (card {k \<in> dom (dat E s). prefix (scope kc) k}
                                        + card {k \<in> dom (met E s). prefix (scope kc) k})
    \<and> (\<forall>kc' r. dat E (snd (db_rm E kc s)) (scope kc' @ r) = (if kc' = kc then None else dat E s (scope kc' @ r))
            \<and> met E (snd (db_rm E kc s)) (scope kc' @ r) = (if kc' = kc then None else met E s (scope kc' @ r)))
    \<and> (\<forall>n d. met E (snd (db_rm E kc s)) (catalog_db_key n d)
            = (if \<lparr>kc_ns = n, kc_db = d\<rparr> = kc then None else met E s (catalog_db_key n d)))
    \<and> (\<forall>n. met E (snd (db_rm E kc s)) (db_next_id_key n) = met E s (db_next_id_key n))
    \<and> met E (snd (db_rm E kc s)) NS_NEXT_ID_KEY = met E s NS_NEXT_ID_KEY"
  unfolding kv_engine.db_rm_contents [OF assms]
  by (cases kc) (auto simp: kv_engine.db_rm_eq [OF assms])

theorem db_rm_isolates_witness:
  "met mem_engine (snd (db_rm mem_engine kc0 list_db)) (scope kc0 @ tag_slice ListMeta @ [97]) = None"
  using db_rm_isolates [OF kv_engine_mem, of kc0 list_db] by simp

text \<open>C23: removing a namespace deletes every key of every database in it, its catalog entries and
  its database counter, and touches no other namespace.\<close>

theorem namespace_rm_isolates:
  assumes "kv_engine E"
  shows "fst (namespace_rm_impl E n s) = word_of_nat (card {k \<in> dom (dat E s). prefix (ns_prefix n) k}
                                        + card {k \<in> dom (met E s). prefix (ns_prefix n) k})
    \<and> (\<forall>kc r. dat E (snd (namespace_rm_impl E n s)) (scope kc @ r)
              = (if kc_ns kc = n then None else dat E s (scope kc @ r))
            \<and> met E (snd (namespace_rm_impl E n s)) (scope kc @ r)
              = (if kc_ns kc = n then None else met E s (scope kc @ r)))
    \<and> (\<forall>m d. met E (snd (namespace_rm_impl E n s)) (catalog_db_key m d)
            = (if m = n then None else met E s (catalog_db_key m d)))
    \<and> (\<forall>m. met E (snd (namespace_rm_impl E n s)) (db_next_id_key m)
            = (if m = n then None else met E s (db_next_id_key m)))
    \<and> met E (snd (namespace_rm_impl E n s)) NS_NEXT_ID_KEY = met E s NS_NEXT_ID_KEY"
  unfolding kv_engine.namespace_rm_contents [OF assms]
  by (auto simp: kv_engine.namespace_rm_eq [OF assms])

theorem namespace_rm_isolates_witness:
  "met mem_engine (snd (namespace_rm_impl mem_engine 3 list_db)) (meta_key kc0 ListMeta [97])
    = met mem_engine list_db (meta_key kc0 ListMeta [97])"
  using namespace_rm_isolates [OF kv_engine_mem, of 3 list_db] by (simp add: meta_key_def kc0_def Let_def)

text \<open>C24: what one sweep does to the store. In the data partition it removes exactly the sampled
  entries whose value reads as the header of an expired string, whatever the tag of their key, and
  the data of every sampled expired metadata record, HyperLogLog registers included; in the metadata
  partition exactly the sampled expired records, with the rules of a time series and the index of a
  full-text schema. So every live string and every live record stays, in all databases; the data
  entries of a live structure do not always: see \<open>sweep_deletes_live_item\<close>.\<close>

theorem sweep_removes_expired:
  fixes now limit
  assumes E: "kv_engine E" and wf: "scoped_wf (met E s)"
  defines "s' \<equiv> snd (sweep_expired E now limit s)"
  shows "(\<forall>x. dat E s' x
      = (if (\<exists>v. (x, v) \<in> set (sampled E (w_data s) (w_data_cursor s) limit)
              \<and> is_string_expired (fst (decode_string_value v)) now)
          \<or> (\<exists>kc t k. swept_record E s now limit kc t k \<and> (\<exists>u\<in>data_of t. \<exists>sub. x = sub_at kc u k sub))
         then None else dat E s x))
    \<and> (\<forall>x. met E s' x
      = (if \<exists>kc t k. swept_record E s now limit kc t k
            \<and> (x = meta_key kc t k
               \<or> t \<in> {TimeSeriesMeta, FtSchema, FtAlias} \<and> (\<exists>u\<in>data_of t. \<exists>sub. x = sub_at kc u k sub))
         then None else met E s x))
    \<and> (\<forall>kc k. live_string (dat E s') kc k now = live_string (dat E s) kc k now)
    \<and> (\<forall>kc k t. is_meta t \<longrightarrow> live_meta (met E s') kc k now t = live_meta (met E s) kc k now t)"
proof -
  have "is_meta t \<Longrightarrow> \<not> is_data t" for t using tag_partition [of t] by auto
  then show ?thesis
    unfolding s'_def
    using kv_engine.sweep_exact [OF E wf, of now limit] kv_engine.sweep_live_string [OF E wf]
      kv_engine.sweep_live_meta [OF E wf]
    unfolding swept_entry_def subkey_of_def by simp
qed

text \<open>A list whose only item starts like the header of an expired string.\<close>

definition lookalike_db :: "mem_part wedb" where
  "lookalike_db = put_data mem_engine (subkey_prefix kc0 ListData [97] @ to_be64 0) (encode_string_value [] 1) list_db"

lemma list_db_scoped: "scoped_wf (met mem_engine list_db)" "scoped_wf (met mem_engine lookalike_db)"
  unfolding lookalike_db_def mem.put_simps by (auto simp: scoped_wf_def meta_key_def split: if_splits)

theorem sweep_removes_expired_witness:
  "live_meta (met mem_engine (snd (sweep_expired mem_engine 5 10 lookalike_db))) kc0 [97] 5 ListMeta
    = Some (km_new RList 0 1 2)"
  using sweep_removes_expired [OF kv_engine_mem list_db_scoped(2), of 5 10] list_db_live [of 5 ListMeta]
  by (simp add: lookalike_db_def is_meta_def)

text \<open>The sweep reads the string header of every data entry without looking at its tag, so it
  deletes such an item although the list is live.\<close>

lemma sweep_deletes_live_item:
  "live_meta (met mem_engine lookalike_db) kc0 [97] 5 ListMeta = Some (km_new RList 0 1 2)"
  "dat mem_engine lookalike_db (subkey_prefix kc0 ListData [97] @ to_be64 0) \<noteq> None"
  "dat mem_engine (snd (sweep_expired mem_engine 5 10 lookalike_db)) (subkey_prefix kc0 ListData [97] @ to_be64 0) = None"
proof -
  let ?x = "subkey_prefix kc0 ListData [97] @ to_be64 0" and ?v = "encode_string_value [] 1"
  show "live_meta (met mem_engine lookalike_db) kc0 [97] 5 ListMeta = Some (km_new RList 0 1 2)"
    using list_db_live [of 5 ListMeta] by (simp add: lookalike_db_def)
  show "dat mem_engine lookalike_db ?x \<noteq> None" by (simp add: lookalike_db_def)
  have c: "w_data_cursor lookalike_db = None"
    by (simp add: lookalike_db_def list_db_def put_data_def put_meta_def mem_db_def)
  have "e_range mem_engine (w_data lookalike_db) Unbounded Unbounded = [(?x, ?v)]"
    by (rule mem.range_eqI) (auto simp: sorted_entries_def lookalike_db_def split: if_splits)
  then have "(?x, ?v) \<in> set (sampled mem_engine (w_data lookalike_db) (w_data_cursor lookalike_db) 10)"
    by (simp add: sampled_def c)
  moreover have "sweep_data_hit 5 (?x, ?v)" by (simp add: sweep_data_hit_def is_string_expired_def)
  ultimately show "dat mem_engine (snd (sweep_expired mem_engine 5 10 lookalike_db)) ?x = None"
    unfolding mem.sweep_contents(1) [OF list_db_scoped(2)] by meson
qed

text \<open>Opening a namespace by its number does not move the counter: the next new namespace can be
  the same one.\<close>

lemma explicit_namespace_reissued:
  "fst (wedb_ns mem_engine None (snd (namespace_db mem_engine 1 (Some 0) mem_db))) = 1"
  by (simp add: namespace_db_def activate_eq mem.wedb_ns_None next_id_def)

text \<open>C26: the store keeps its shape: a metadata key is a catalog entry (with an empty value), a counter
  (holding an encoded number) or a tagged key of a database, a data key a tagged key of a database, and
  every database that holds a key is in the catalog. A store opened on empty partitions has it;
  opening namespaces and databases keeps it and registers the database whose handle it returns;
  removing a database or a namespace, clearing everything and sweeping keep it, so none of them
  drops the entry of a database that still holds keys; and so does every batch over the keys of a
  registered database. The handle of a database that was removed is not registered any more.\<close>

theorem store_wf_invariant:
  assumes E: "kv_engine E" and wf: "store_wf E s"
  shows "(e_get E (fst parts) = Map.empty \<and> e_get E (snd parts) = Map.empty \<longrightarrow> store_wf E (wedb_new E seed parts vs))
    \<and> store_wf E (snd (wedb_ns E opt s)) \<and> store_wf E (snd (namespace_db E n opt s))
    \<and> registered E (snd (namespace_db E n opt s)) (fst (namespace_db E n opt s))
    \<and> store_wf E (snd (db_with_ns E kc opt s))
    \<and> registered E (snd (db_with_ns E kc opt s)) (fst (db_with_ns E kc opt s))
    \<and> store_wf E (snd (db_rm E kc s)) \<and> \<not> registered E (snd (db_rm E kc s)) kc
    \<and> store_wf E (snd (namespace_rm_impl E n s)) \<and> store_wf E (snd (wedb_rm E len s))
    \<and> store_wf E (snd (sweep_expired E now limit s))
    \<and> (registered E (snd (sweep_expired E now limit s)) kc \<longleftrightarrow> registered E s kc)
    \<and> (\<forall>batch. registered E s kc \<and> writes_keys_of kc batch \<longrightarrow> store_wf E (commit E batch s))"
proof -
  note facts = kv_engine.store_wf_wedb_ns [OF E] kv_engine.store_wf_namespace_db [OF E]
    kv_engine.store_wf_db_rm [OF E] kv_engine.store_wf_namespace_rm [OF E] kv_engine.store_wf_wedb_rm [OF E]
    kv_engine.store_wf_sweep [OF E] kv_engine.store_wf_commit [OF E]
    kv_engine.sweep_keeps_catalog [OF E store_wf_views(2) [OF wf]]
  have "\<not> registered E (snd (db_rm E kc s)) kc"
    by (auto simp: registered_def kv_engine.db_rm_contents [OF E])
  moreover have "registered E (snd (sweep_expired E now limit s)) kc \<longleftrightarrow> registered E s kc"
    by (simp add: registered_def dom_def facts)
  ultimately show ?thesis
    using store_wf_new [OF E, of parts seed vs] wf
    by (simp add: facts db_with_ns_def split_beta) (blast intro: kv_engine.store_wf_commit [OF E wf])
qed

theorem store_wf_invariant_witness:
  "store_wf mem_engine (snd (db_rm mem_engine kc0 mem_db))"
proof -
  have "store_wf mem_engine mem_db" by (simp add: store_wf_def meta_shape_def data_shape_def)
  then show ?thesis using store_wf_invariant [OF kv_engine_mem] by blast
qed

end
