(* ===== verification/Indexed.thy ===== *)
theory Indexed
  imports Key_Space
begin

text \<open>
  Subkeys that are eight-byte big-endian indices: what the list items, and every other structure
  that numbers its elements, look like in a partition. \<open>at_index d q\<close> reads the subkeys of a
  prefix \<open>q\<close> as a map from indices; \<open>ring h xs\<close> is the map that holds \<open>xs\<close> from index \<open>h\<close>
  on, around the end of the index space.
\<close>

definition at_index :: "kv_map \<Rightarrow> bytes \<Rightarrow> u64 \<Rightarrow> bytes option" where
  "at_index d q = (\<lambda>i. d (q @ to_be64 i))"

definition only_indices :: "kv_map \<Rightarrow> bytes \<Rightarrow> bool" where
  "only_indices d q \<longleftrightarrow> (\<forall>sub. length sub \<noteq> 8 \<longrightarrow> d (q @ sub) = None)"

definition ring :: "u64 \<Rightarrow> 'a list \<Rightarrow> u64 \<Rightarrow> 'a option" where
  "ring h xs i = (if unat (i - h) < length xs then Some (xs ! unat (i - h)) else None)"

lemma at_index_update [simp]:
  "at_index (d(q @ to_be64 i \<mapsto> v)) q = (at_index d q)(i \<mapsto> v)"
  "at_index (d(q @ to_be64 i := None)) q = (at_index d q)(i := None)"
  by (auto simp: at_index_def fun_eq_iff)

lemma only_indices_update [simp]:
  "only_indices d q \<Longrightarrow> only_indices (d(q @ to_be64 i := v)) q"
  by (auto simp: only_indices_def)

lemma at_index_cong: "(\<And>sub. d (q @ sub) = d' (q @ sub)) \<Longrightarrow> at_index d q = at_index d' q"
  by (simp add: at_index_def)

lemma only_indices_cong: "(\<And>sub. d (q @ sub) = d' (q @ sub)) \<Longrightarrow> only_indices d q = only_indices d' q"
  by (simp add: only_indices_def)

text \<open>A subkey that is stored is an index.\<close>

lemma only_indices_cases:
  assumes "only_indices d q" and "d (q @ sub) = Some v"
  obtains i where "sub = to_be64 i" and "at_index d q i = Some v"
proof -
  have "length sub = 8" using assms by (auto simp: only_indices_def)
  then have "sub = to_be64 (from_be64 sub)" by simp
  with that assms(2) show ?thesis by (metis at_index_def)
qed

section \<open>Rings\<close>

lemma unat_zero: "unat (x :: u64) = 0 \<longleftrightarrow> x = 0"
  by (simp add: word_unat_eq_iff)

lemma ring_Nil [simp]: "ring h [] = Map.empty"
  by (simp add: ring_def fun_eq_iff)

lemma unat_minus_of_nat: "n < 2 ^ 64 \<Longrightarrow> unat (h + word_of_nat n - h :: u64) = n"
  by (simp add: unat_of_nat)

lemma ring_nth: "n < length xs \<Longrightarrow> length xs \<le> 2 ^ 64 \<Longrightarrow> ring h xs (h + word_of_nat n) = Some (xs ! n)"
  by (simp add: ring_def unat_of_nat)

lemma ring_index:
  assumes "n < 2 ^ 64"
  shows "i = h + word_of_nat n \<longleftrightarrow> unat (i - h :: u64) = n"
proof
  assume "unat (i - h) = n"
  then have "i - h = word_of_nat n" by (metis of_nat_unat ucast_id)
  then show "i = h + word_of_nat n" by (simp add: algebra_simps)
qed (use assms unat_minus_of_nat in simp)

lemma ring_snoc:
  assumes "length xs < 2 ^ 64"
  shows "ring h (xs @ [v]) = (ring h xs)(h + word_of_nat (length xs) \<mapsto> v)"
  using ring_index [OF assms, of _ h] by (auto simp: ring_def nth_append less_Suc_eq fun_eq_iff)

lemma ring_Cons: "ring h (v # xs) = (ring (h + 1) xs)(h \<mapsto> v)"
proof
  fix i
  show "ring h (v # xs) i = ((ring (h + 1) xs)(h \<mapsto> v)) i"
  proof (cases "i = h")
    case False
    then have "unat (i - h) = Suc (unat (i - (h + 1)))"
      using unatSuc [of "i - (h + 1)"] by (simp add: algebra_simps)
    with False show ?thesis by (simp add: ring_def)
  qed (simp add: ring_def)
qed

text \<open>Taking an end off.\<close>

lemma unat_minus_1_u64: "unat (- 1 :: u64) = 18446744073709551615"
  by (simp add: unsigned_minus_1_eq_mask mask_eq_exp_minus_1)

lemma ring_hd:
  assumes "length xs < 2 ^ 64"
  shows "ring (h + 1) xs = (ring h (v # xs))(h := None)"
proof -
  have "ring (h + 1) xs h = None"
    using assms by (simp add: ring_def unat_minus_1_u64)
  with ring_Cons [of h v xs] show ?thesis by (auto simp: fun_eq_iff)
qed

lemma ring_butlast:
  assumes "length xs < 2 ^ 64"
  shows "ring h xs = (ring h (xs @ [v]))(h + word_of_nat (length xs) := None)"
proof -
  have "ring h xs (h + word_of_nat (length xs)) = None"
    using assms by (simp add: ring_def unat_of_nat)
  with ring_snoc [OF assms] show ?thesis by (auto simp: fun_eq_iff)
qed

lemma ring_update:
  assumes "n < length xs" and "length xs \<le> 2 ^ 64"
  shows "ring h (xs[n := v]) = (ring h xs)(h + word_of_nat n \<mapsto> v)"
  using assms ring_index [of n _ h] by (auto simp: ring_def fun_eq_iff)

text \<open>Parts of a ring.\<close>

lemma ring_slice:
  assumes "s + n \<le> length xs" and "length xs \<le> 2 ^ 64"
  shows "ring (h + word_of_nat s) (take n (drop s xs)) i
    = (if unat (i - (h + word_of_nat s)) < n then ring h xs i else None)"
proof (cases "unat (i - (h + word_of_nat s)) < n")
  case True
  let ?m = "unat (i - (h + word_of_nat s))"
  have "s + ?m < 2 ^ 64" using True assms by simp
  moreover have "i = h + word_of_nat (s + ?m)"
    by (simp add: algebra_simps)
  ultimately have "unat (i - h) = s + ?m"
    using ring_index by blast
  then show ?thesis using True assms by (simp add: ring_def)
next
  case False
  then show ?thesis using assms by (simp add: ring_def)
qed

section \<open>Scanning a range of indices\<close>

lemma word_between:
  fixes a b i :: u64
  assumes "a \<le> i" and "i \<le> b"
  shows "unat (i - a) \<le> unat (b - a)"
  using assms by (simp add: word_le_nat_alt unat_sub)

text \<open>The range scan between two index keys that do not wrap lists the elements in order.\<close>

context kv_engine
begin

lemma range_ring:
  assumes only: "only_indices (e_get E p) q" and view: "at_index (e_get E p) q = ring h xs"
    and len: "length xs \<le> 2 ^ 64" and n: "s \<le> e" "e < length xs"
    and le: "h + word_of_nat s \<le> h + word_of_nat e"
  shows "e_range E p (Included (q @ to_be64 (h + word_of_nat s))) (Included (q @ to_be64 (h + word_of_nat e)))
    = map (\<lambda>j. (q @ to_be64 (h + word_of_nat j), xs ! j)) [s..<Suc e]"
proof (rule range_eqI)
  let ?a = "h + word_of_nat s" and ?b = "h + word_of_nat e"
  have diff: "unat (h + word_of_nat j - ?a) = j - s" if "s \<le> j" "j \<le> e" for j
  proof -
    have "h + word_of_nat j - ?a = word_of_nat (j - s)" using that by (simp add: of_nat_diff)
    moreover have "j - s < 2 ^ 64" using that n len by simp
    ultimately show ?thesis by (simp only: unat_of_nat) simp
  qed
  have mono: "h + word_of_nat i < h + word_of_nat j" if "s \<le> i" "i < j" "j \<le> e" for i j
  proof -
    have no: "unat (?a + word_of_nat m) = unat ?a + m" if "m \<le> e - s" for m
    proof -
      have "unat ?b = unat ?a + (e - s)"
        using diff [OF n(1) order_refl] unat_sub [OF le] le n(1) unfolding word_le_nat_alt by linarith
      then have "unat ?a + m < 18446744073709551616" using that unat_u64_less [of ?b] by linarith
      moreover have "unat (word_of_nat m :: u64) = m" using that n len by (simp add: unat_of_nat)
      ultimately show ?thesis by (simp add: unat_word_ariths)
    qed
    have k: "unat (h + word_of_nat k) = unat ?a + (k - s)" if "s \<le> k" "k \<le> e" for k
    proof -
      have "h + word_of_nat k = ?a + word_of_nat (k - s)" using that by (simp add: of_nat_diff)
      moreover have "k - s \<le> e - s" using that by simp
      ultimately show ?thesis using no by metis
    qed
    show ?thesis
      unfolding word_less_nat_alt using k [of i] k [of j] that by linarith
  qed
  show "sorted_entries (map (\<lambda>j. (q @ to_be64 (h + word_of_nat j), xs ! j)) [s..<Suc e])"
    unfolding sorted_entries_def sorted_wrt_map
    by (rule sorted_wrt_mono_rel [OF _ sorted_wrt_upt]) (use mono in \<open>auto simp: list_less_append_same\<close>)
  fix k v
  show "(k, v) \<in> set (map (\<lambda>j. (q @ to_be64 (h + word_of_nat j), xs ! j)) [s..<Suc e])
    \<longleftrightarrow> e_get E p k = Some v \<and> in_lower (Included (q @ to_be64 ?a)) k \<and> in_upper (Included (q @ to_be64 ?b)) k"
  proof
    assume "(k, v) \<in> set (map (\<lambda>j. (q @ to_be64 (h + word_of_nat j), xs ! j)) [s..<Suc e])"
    then obtain j where j: "s \<le> j" "j \<le> e" "k = q @ to_be64 (h + word_of_nat j)" "v = xs ! j" by auto
    then have "e_get E p k = Some v"
      using ring_nth [of j xs h] n len fun_cong [OF view, of "h + word_of_nat j"] by (simp add: at_index_def)
    moreover have "?a \<le> h + word_of_nat j" "h + word_of_nat j \<le> ?b"
      using mono [of s j] mono [of j e] j n by (cases "s = j"; cases "j = e"; simp add: less_imp_le)+
    ultimately show "e_get E p k = Some v \<and> in_lower (Included (q @ to_be64 ?a)) k
        \<and> in_upper (Included (q @ to_be64 ?b)) k"
      using j by (simp add: list_le_append_same)
  next
    assume *: "e_get E p k = Some v \<and> in_lower (Included (q @ to_be64 ?a)) k
        \<and> in_upper (Included (q @ to_be64 ?b)) k"
    then have "prefix q k" using between_prefix [of q "to_be64 ?a" k "to_be64 ?b"] by simp
    then obtain sub where k: "k = q @ sub" by (auto simp: prefix_def)
    with * obtain i where i: "sub = to_be64 i" "at_index (e_get E p) q i = Some v"
      using only_indices_cases [OF only] by metis
    have b: "?a \<le> i" "i \<le> ?b" using * k i by (simp_all add: list_le_append_same)
    define m where "m = unat (i - ?a)"
    have m: "m \<le> e - s" using word_between [OF b] diff [of e] n by (simp add: m_def)
    have im: "i = h + word_of_nat (s + m)" by (simp add: m_def algebra_simps)
    have "ring h xs i = Some (xs ! (s + m))"
      unfolding im using m n len by (intro ring_nth) simp_all
    with i view have "v = xs ! (s + m)" by simp
    with k i im have "(k, v) = (\<lambda>j. (q @ to_be64 (h + word_of_nat j), xs ! j)) (s + m)" by simp
    moreover have "s + m \<in> set [s..<Suc e]" unfolding set_upt atLeastLessThan_iff using m n(1) by linarith
    ultimately show "(k, v) \<in> set (map (\<lambda>j. (q @ to_be64 (h + word_of_nat j), xs ! j)) [s..<Suc e])"
      unfolding set_map by (rule image_eqI)
  qed
qed

end

end
