(* ===== verification/Owned.thy ===== *)
theory Owned
  imports Indexed
begin

text \<open>
  What the structure commands share. A command on a key queues writes under the key's own physical
  keys only: the subkeys of one data tag and one metadata record. Such a batch leaves every other key
  alone, and the liveness of a key depends on its own entries only.
\<close>

section \<open>Batches that touch one structure\<close>

definition touches :: "bytes \<Rightarrow> bytes \<Rightarrow> batch \<Rightarrow> bool" where
  "touches q mk ops \<longleftrightarrow> (\<forall>op\<in>set ops. (\<exists>sub. op_key op = (PData, q @ sub)) \<or> op_key op = (PMeta, mk))"

lemma touches_simps [simp]:
  "touches q mk []" "touches q mk (a @ b) \<longleftrightarrow> touches q mk a \<and> touches q mk b"
  "touches q mk [BInsert PData (q @ sub) v]" "touches q mk [BRmWeak PData (q @ sub)]"
  "touches q mk [BRm PData (q @ sub)]" "touches q mk [BInsert PMeta mk v]" "touches q mk [BRm PMeta mk]"
  by (auto simp: touches_def)

lemma touches_frame:
  assumes "touches (subkey_prefix kc u key) (meta_key kc t key) ops"
    and "t \<in> set whole_key_tags" and "u \<notin> set whole_key_tags" and "\<not> owns kc key x"
  shows "apply_ops p ops m x = m x"
proof (rule apply_ops_frame)
  show "(p, x) \<notin> op_key ` set ops"
    using assms owns_sub [of u kc key] owns_meta [of t kc key] unfolding touches_def by fastforce
qed

lemma touches_others:
  assumes "touches (subkey_prefix kc u key) (meta_key kc t key) ops"
  shows "r \<noteq> u \<Longrightarrow> apply_ops PData ops d (meta_key kc' r k) = d (meta_key kc' r k)"
    and "r \<noteq> t \<Longrightarrow> apply_ops PMeta ops d (meta_key kc' r k) = d (meta_key kc' r k)"
  using assms meta_not_subkey [of r u kc' k kc key]
  by (auto intro!: apply_ops_frame simp: touches_def)

text \<open>The rest of the key keeps its type.\<close>

lemma touches_types:
  assumes "touches (subkey_prefix kc u key) (meta_key kc t key) ops" and "u \<noteq> RawString"
  shows "live_string (apply_ops PData ops d) kc key now = live_string d kc key now"
    and "other_live (apply_ops PMeta ops m) kc key now t = other_live m kc key now t"
  using touches_others [OF assms(1)] assms(2) by (auto simp: live_string_def other_live_def live_meta_def)

context kv_engine
begin

lemma clear_prefix_touches:
  "touches q mk (clear_prefix_in_batch E PData s q [])"
  unfolding clear_prefix_eq touches_def by (auto dest!: prefix_keysD simp: prefix_def)

lemma clear_prefix_empty:
  "at_index (apply_ops PData (clear_prefix_in_batch E PData s q []) (dat E s)) q = Map.empty"
  "only_indices (apply_ops PData (clear_prefix_in_batch E PData s q []) (dat E s)) q"
  by (auto simp: clear_prefix_dat at_index_def only_indices_def)

end

section \<open>Batches on different keys\<close>

definition on_key :: "key_composer \<Rightarrow> bytes \<Rightarrow> batch \<Rightarrow> bool" where
  "on_key kc k ops \<longleftrightarrow> (\<forall>op\<in>set ops. owns kc k (snd (op_key op)))"

lemma on_key_append [simp]: "on_key kc k (a @ b) \<longleftrightarrow> on_key kc k a \<and> on_key kc k b"
  by (auto simp: on_key_def)

lemma touches_on_key:
  assumes "touches (subkey_prefix kc u k) (meta_key kc t k) ops"
    and "t \<in> set whole_key_tags" and "u \<notin> set whole_key_tags"
  shows "on_key kc k ops"
  unfolding on_key_def
proof
  fix op
  assume "op \<in> set ops"
  with assms(1) have "(\<exists>sub. op_key op = (PData, subkey_prefix kc u k @ sub)) \<or> op_key op = (PMeta, meta_key kc t k)"
    by (auto simp: touches_def)
  then show "owns kc k (snd (op_key op))" using owns_sub [OF assms(3)] owns_meta [OF assms(2)] by auto
qed

lemma on_key_frame:
  assumes "on_key kc k ops" and "\<not> owns kc k x"
  shows "apply_ops p ops m x = m x"
proof (rule apply_ops_frame)
  show "(p, x) \<notin> op_key ` set ops"
    using assms unfolding on_key_def by (metis image_iff snd_conv)
qed

lemma apply_ops_pointwise:
  assumes "m x = m' x"
  shows "apply_ops p ops m x = apply_ops p ops m' x"
  using assms
proof (induction ops arbitrary: m m')
  case (Cons op ops)
  show ?case
    unfolding apply_ops_simps by (rule Cons.IH) (use Cons.prems in \<open>cases op; simp\<close>)
qed simp

text \<open>Batches on two keys, interleaved: each key sees its own.\<close>

lemma interleave_frame:
  assumes a: "on_key kc dst a" and c: "on_key kc dst c" and b: "on_key kc src b"
  shows "\<not> owns kc src x \<Longrightarrow> apply_ops p (a @ b @ c) m x = apply_ops p (a @ c) m x"
    and "\<not> owns kc dst x \<Longrightarrow> apply_ops p (a @ b @ c) m x = apply_ops p b m x"
proof -
  show "apply_ops p (a @ b @ c) m x = apply_ops p (a @ c) m x" if "\<not> owns kc src x"
    unfolding apply_ops_simps(3) by (rule apply_ops_pointwise) (rule on_key_frame [OF b that])
  show "apply_ops p (a @ b @ c) m x = apply_ops p b m x" if n: "\<not> owns kc dst x"
    unfolding apply_ops_simps(3) on_key_frame [OF c n] by (rule apply_ops_pointwise) (rule on_key_frame [OF a n])
qed

section \<open>What a key's liveness depends on\<close>

definition same_key :: "'p engine \<Rightarrow> key_composer \<Rightarrow> bytes \<Rightarrow> 'p wedb \<Rightarrow> 'p wedb \<Rightarrow> bool" where
  "same_key E kc k s s' \<longleftrightarrow> (\<forall>x. owns kc k x \<longrightarrow> dat E s' x = dat E s x \<and> met E s' x = met E s x)"

context kv_engine
begin

lemma same_keyD:
  assumes "same_key E kc k s s'"
  shows "u \<notin> set whole_key_tags \<Longrightarrow> dat E s' (subkey_prefix kc u k @ sub) = dat E s (subkey_prefix kc u k @ sub)"
    and "t \<in> set composite_meta_tags \<Longrightarrow> met E s' (meta_key kc t k) = met E s (meta_key kc t k)"
    and "live_string (dat E s') kc k now = live_string (dat E s) kc k now"
    and "other_live (met E s') kc k now t = other_live (met E s) kc k now t"
    and "mo_tag M \<in> set composite_meta_tags \<Longrightarrow> live_own M (met E s') kc k now = live_own M (met E s) kc k now"
proof -
  have sub: "dat E s' (subkey_prefix kc u k @ sub) = dat E s (subkey_prefix kc u k @ sub)"
    if "u \<notin> set whole_key_tags" for u sub
    using assms owns_sub [OF that] unfolding same_key_def by blast
  have met: "met E s' (meta_key kc t k) = met E s (meta_key kc t k)" if "t \<in> set composite_meta_tags" for t
    using assms owns_meta [OF composite_whole [OF that]] unfolding same_key_def by blast
  have "dat E s' (meta_key kc RawString k) = dat E s (meta_key kc RawString k)"
    using assms owns_meta [of RawString kc k] unfolding same_key_def by (simp add: whole_key_tags_def)
  then show "live_string (dat E s') kc k now = live_string (dat E s) kc k now"
    by (simp add: live_string_def)
  show "u \<notin> set whole_key_tags \<Longrightarrow> dat E s' (subkey_prefix kc u k @ sub) = dat E s (subkey_prefix kc u k @ sub)"
    by (rule sub)
  show "t \<in> set composite_meta_tags \<Longrightarrow> met E s' (meta_key kc t k) = met E s (meta_key kc t k)"
    by (rule met)
  show "other_live (met E s') kc k now t = other_live (met E s) kc k now t"
    using met by (auto simp: other_live_def live_meta_def)
  show "mo_tag M \<in> set composite_meta_tags \<Longrightarrow> live_own M (met E s') kc k now = live_own M (met E s) kc k now"
    using met by (simp add: live_own_def)
qed

text \<open>Each of two keys sees an interleaved batch as its own part of it.\<close>

lemma interleave_same_key:
  assumes "on_key kc dst a" and "on_key kc dst c" and "on_key kc src b"
    and "src \<noteq> dst" and "key_fits src" and "key_fits dst"
    and s1: "dat E s1 = dat E s" "met E s1 = met E s"
  shows "same_key E kc src (commit E b s) (commit E (a @ b @ c) s1)"
    and "same_key E kc dst (commit E (a @ c) s1) (commit E (a @ b @ c) s1)"
    and "\<not> owns kc src x \<Longrightarrow> \<not> owns kc dst x \<Longrightarrow>
      dat E (commit E (a @ b @ c) s1) x = dat E s x \<and> met E (commit E (a @ b @ c) s1) x = met E s x"
proof -
  have "\<not> owns kc dst x" if "owns kc src x" for x
    using owns_unique [OF that] assms(4-6) by blast
  then show "same_key E kc src (commit E b s) (commit E (a @ b @ c) s1)"
    using interleave_frame(2) [OF assms(1-3)] by (simp add: same_key_def s1)
  have "\<not> owns kc src x" if "owns kc dst x" for x
    using owns_unique [OF that] assms(4-6) by blast
  then show "same_key E kc dst (commit E (a @ c) s1) (commit E (a @ b @ c) s1)"
    using interleave_frame(1) [OF assms(1-3)] by (simp add: same_key_def)
  show "\<not> owns kc src x \<Longrightarrow> \<not> owns kc dst x \<Longrightarrow>
      dat E (commit E (a @ b @ c) s1) x = dat E s x \<and> met E (commit E (a @ b @ c) s1) x = met E s x"
    using interleave_frame(2) [OF assms(1-3)] on_key_frame [OF assms(3)] by (simp add: s1)
qed

text \<open>A change of the entries of other keys only.\<close>

lemma frame_same_key:
  assumes "\<And>x. \<not> owns kc k x \<Longrightarrow> dat E s' x = dat E s x \<and> met E s' x = met E s x"
    and "key_fits k" and "key_fits l" and "l \<noteq> k"
  shows "same_key E kc l s s'"
  using assms owns_unique [of kc l _ kc k] unfolding same_key_def by blast

end

section \<open>Every key stands for something\<close>

text \<open>A representation relates the store to what one key stands for; a store represents a map from
  keys when each key does. If the representation of a key depends on its own entries only, a command
  that changes the entries of one key, or of two, changes the map at these keys only.\<close>

definition all_rep :: "('p wedb \<Rightarrow> bytes \<Rightarrow> 'x \<Rightarrow> bool) \<Rightarrow> 'p wedb \<Rightarrow> (bytes \<Rightarrow> 'x) \<Rightarrow> bool" where
  "all_rep P s A \<longleftrightarrow> (\<forall>k. key_fits k \<longrightarrow> P s k (A k))"

lemma all_repD: "all_rep P s A \<Longrightarrow> key_fits k \<Longrightarrow> P s k (A k)"
  by (simp add: all_rep_def)

locale key_rep = kv_engine E for E :: "'p engine" +
  fixes kc :: key_composer and P :: "'p wedb \<Rightarrow> bytes \<Rightarrow> 'x \<Rightarrow> bool"
  assumes rep_same_key: "P s k x \<Longrightarrow> same_key E kc k s s' \<Longrightarrow> P s' k x"
begin

lemma all_rep_step:
  assumes "all_rep P s A" and "key_fits k" and "P s' k x"
    and frame: "\<forall>x. \<not> owns kc k x \<longrightarrow> dat E s' x = dat E s x \<and> met E s' x = met E s x"
  shows "all_rep P s' (A(k := x))"
  unfolding all_rep_def
proof (intro allI impI)
  fix l :: bytes
  assume l: "key_fits l"
  show "P s' l ((A(k := x)) l)"
  proof (cases "l = k")
    case False
    then have "same_key E kc l s s'" using frame_same_key [of kc k s' s l] frame assms(2) l by blast
    then show ?thesis
      using rep_same_key [OF all_repD [OF assms(1) l]] False by simp
  qed (use assms(3) in simp)
qed

lemma all_rep_step2:
  assumes "all_rep P s A" and "key_fits a" and "key_fits b" and "a \<noteq> b" and "P s' a x" and "P s' b y"
    and frame: "\<forall>x. \<not> owns kc a x \<and> \<not> owns kc b x \<longrightarrow> dat E s' x = dat E s x \<and> met E s' x = met E s x"
  shows "all_rep P s' (A(a := x, b := y))"
  unfolding all_rep_def
proof (intro allI impI)
  fix l :: bytes
  assume l: "key_fits l"
  show "P s' l ((A(a := x, b := y)) l)"
  proof (cases "l = a \<or> l = b")
    case False
    then have "same_key E kc l s s'"
      using frame owns_unique [of kc l _ kc a] owns_unique [of kc l _ kc b] l assms(2,3) unfolding same_key_def by blast
    then show ?thesis
      using rep_same_key [OF all_repD [OF assms(1) l]] False by simp
  qed (use assms(4,5,6) in auto)
qed

end

end
