(* ===== verification/List_Ops.thy ===== *)
theory List_Ops
  imports Owned
begin

text \<open>
  \<^verbatim>\<open>embed/src/api/list\<close>: lists. A list is a metadata record with the first index and the
  index behind the last one, and one data key per element under its index; indices live in the
  whole of \<open>u64\<close> and wrap around. This theory has the metadata (\<^verbatim>\<open>meta.rs\<close>), the keys
  (\<^verbatim>\<open>key.rs\<close>) and the operations of \<^verbatim>\<open>impl.rs\<close>, and proves that they implement the
  operations on a plain list.
\<close>

section \<open>Metadata\<close>

record list_meta =
  lm_base :: key_meta
  lm_head :: u64
  lm_tail :: u64

definition INITIAL_INDEX :: u64 where
  "INITIAL_INDEX = 0x7FFFFFFFFFFFFFFF"

definition lm_new :: "u64 \<Rightarrow> u64 \<Rightarrow> list_meta" where
  "lm_new expire_at version =
     \<lparr>lm_base = km_new RList expire_at version 0, lm_head = INITIAL_INDEX, lm_tail = INITIAL_INDEX\<rparr>"

definition lm_new_with_version :: "u64 \<Rightarrow> u64 \<Rightarrow> 'p wedb \<Rightarrow> list_meta \<times> 'p wedb" where
  "lm_new_with_version expire_at ts s =
     (let (base, vs) = km_new_with_version RList expire_at 0 ts (w_ver s)
      in (\<lparr>lm_base = base, lm_head = INITIAL_INDEX, lm_tail = INITIAL_INDEX\<rparr>, s\<lparr>w_ver := vs\<rparr>))"

definition push_head :: "list_meta \<Rightarrow> u64 \<times> list_meta" where
  "push_head m = (lm_head m - 1, m\<lparr>lm_head := lm_head m - 1\<rparr>)"

definition push_tail :: "list_meta \<Rightarrow> u64 \<times> list_meta" where
  "push_tail m = (lm_tail m, m\<lparr>lm_tail := lm_tail m + 1\<rparr>)"

definition pop_head :: "list_meta \<Rightarrow> u64 \<times> list_meta" where
  "pop_head m = (lm_head m, m\<lparr>lm_head := lm_head m + 1\<rparr>)"

definition pop_tail :: "list_meta \<Rightarrow> u64 \<times> list_meta" where
  "pop_tail m = (lm_tail m - 1, m\<lparr>lm_tail := lm_tail m - 1\<rparr>)"

definition push_index :: "bool \<Rightarrow> list_meta \<Rightarrow> u64 \<times> list_meta" where
  "push_index left m = (if left then push_head m else push_tail m)"

definition pop_index :: "bool \<Rightarrow> list_meta \<Rightarrow> u64 \<times> list_meta" where
  "pop_index left m = (if left then pop_head m else pop_tail m)"

definition lm_size :: "list_meta \<Rightarrow> u64" where
  "lm_size m = km_size (lm_base m)"

definition set_lm_size :: "u64 \<Rightarrow> list_meta \<Rightarrow> list_meta" where
  "set_lm_size n m = m\<lparr>lm_base := (lm_base m)\<lparr>km_size := n\<rparr>\<rparr>"

definition lm_encode :: "list_meta \<Rightarrow> bytes" where
  "lm_encode m = km_encode (lm_base m) @ to_be64 (lm_head m) @ to_be64 (lm_tail m)"

definition lm_encode_kvrocks :: "list_meta \<Rightarrow> bytes" where
  "lm_encode_kvrocks m =
     (META_64BIT_ENCODING_MASK OR (rtype_u8 RList AND META_TYPE_MASK))
       # to_be64 (km_expire_at (lm_base m)) @ to_be64 (km_version (lm_base m))
       @ to_be64 (km_size (lm_base m)) @ to_be64 (lm_head m) @ to_be64 (lm_tail m)"

definition read_u64_be :: "bytes \<Rightarrow> nat \<Rightarrow> u64 option" where
  "read_u64_be bs offset = (if offset + 8 \<le> length bs then Some (u64_at bs offset) else None)"

text \<open>Reading the base and the two indices behind it.\<close>

definition lm_decode_at :: "bytes \<Rightarrow> nat \<Rightarrow> list_meta option" where
  "lm_decode_at bs n =
     (case km_decode (take n bs) of
        None \<Rightarrow> None
      | Some base \<Rightarrow>
          (case read_u64_be bs n of
             None \<Rightarrow> None
           | Some head \<Rightarrow>
               (case read_u64_be bs (n + 8) of
                  None \<Rightarrow> None
                | Some tail \<Rightarrow> Some \<lparr>lm_base = base, lm_head = head, lm_tail = tail\<rparr>)))"

definition lm_decode :: "bytes \<Rightarrow> list_meta option" where
  "lm_decode bs =
     (if length bs \<ge> 42 \<and> bs ! 0 \<le> 14 \<and> (bs ! 1 = 0 \<or> bs ! 1 = 0x80) then lm_decode_at bs 26
      else if length bs \<ge> 41 \<and> bs ! 0 AND META_64BIT_ENCODING_MASK \<noteq> 0 then lm_decode_at bs 25
      else if length bs \<ge> 33 \<and> bs ! 0 AND META_64BIT_ENCODING_MASK = 0 then lm_decode_at bs 17
      else if length bs = 16 then
        (case read_u64_be bs 0 of
           None \<Rightarrow> None
         | Some head \<Rightarrow>
             (case read_u64_be bs 8 of
                None \<Rightarrow> None
              | Some tail \<Rightarrow>
                  (let sz = (if tail \<ge> head then tail - head else 0)
                   in Some \<lparr>lm_base = km_new RList 0 0 sz, lm_head = head, lm_tail = tail\<rparr>)))
      else None)"

definition list_meta_ops :: "list_meta meta_ops" where
  "list_meta_ops =
     \<lparr>mo_tag = ListMeta, mo_decode = lm_decode, mo_encode = lm_encode, mo_base = lm_base\<rparr>"

section \<open>Keys\<close>

definition list_meta_key :: "key_composer \<Rightarrow> bytes \<Rightarrow> bytes" where
  "list_meta_key kc key = as_bytes (compose_meta_key_stack kc (tag_slice ListMeta) key)"

definition list_prefix_stack :: "key_composer \<Rightarrow> bytes \<Rightarrow> bytes" where
  "list_prefix_stack kc key = as_bytes (compose_prefix_stack kc (tag_slice ListData) key)"

definition list_item :: "key_composer \<Rightarrow> bytes \<Rightarrow> u64 \<Rightarrow> bytes" where
  "list_item kc key idx = as_bytes (compose_subkey_stack kc (tag_slice ListData) key (to_be64 idx))"

text \<open>\<open>ItemKeyComposer\<close>: every use of it starts from the same prefix, whatever key it composed
  before (\<open>sc_for_compose\<close>), so one composition is modelled on a fresh composer.\<close>

definition key_for_idx :: "key_composer \<Rightarrow> bytes \<Rightarrow> u64 \<Rightarrow> bytes" where
  "key_for_idx kc key idx = snd (compose_sub_u64_be (sc_from_slice (list_prefix_stack kc key)) idx)"

section \<open>Operations\<close>

definition ERR_INDEX_OUT_OF_RANGE :: string where
  "ERR_INDEX_OUT_OF_RANGE = ''ERR index out of range''"

definition get_list_meta :: "'p engine \<Rightarrow> key_composer \<Rightarrow> 'p wedb \<Rightarrow> bytes \<Rightarrow> u64 \<Rightarrow> error + list_meta option" where
  "get_list_meta E kc s key now_ms =
     get_meta_checked E list_meta_ops kc s key (list_meta_key kc key) now_ms"

definition llen :: "'p engine \<Rightarrow> key_composer \<Rightarrow> 'p wedb \<Rightarrow> u64 \<Rightarrow> bytes \<Rightarrow> error + u64" where
  "llen E kc s now_ms key =
     try_op (get_list_meta E kc s key now_ms)
       (\<lambda>m. Inr (case m of Some m \<Rightarrow> lm_size m | None \<Rightarrow> 0))"

definition resolve_list_offset :: "u64 \<Rightarrow> int \<Rightarrow> u64 option" where
  "resolve_list_offset sz index =
     (if sz = 0 then None
      else
        let len = sint sz in
        (case (if index < 0
               then (if len + index < I64_MIN \<or> I64_MAX < len + index then None else Some (len + index))
               else Some index) of
           None \<Rightarrow> None
         | Some actual_offset \<Rightarrow>
             if actual_offset \<ge> 0 \<and> actual_offset < len then Some (word_of_int actual_offset) else None))"

text \<open>The loop over \<open>s..=e\<close> of the wrapped branch skips an index without a value.\<close>

definition get_items :: "'p engine \<Rightarrow> key_composer \<Rightarrow> 'p wedb \<Rightarrow> bytes \<Rightarrow> u64 \<Rightarrow> int list \<Rightarrow> bytes list" where
  "get_items E kc s key head idxs =
     List.map_filter (\<lambda>idx. e_get E (w_data s) (key_for_idx kc key (head + word_of_int idx))) idxs"

definition lrange ::
    "'p engine \<Rightarrow> key_composer \<Rightarrow> 'p wedb \<Rightarrow> u64 \<Rightarrow> bytes \<Rightarrow> index_range \<Rightarrow> error + bytes list" where
  "lrange E kc st now_ms key ri =
     (let (start, stop) = into_index_range ri
      in try_op (get_list_meta E kc st key now_ms)
        (\<lambda>m. case m of
           None \<Rightarrow> Inr []
         | Some meta \<Rightarrow>
             if lm_size meta = 0 then Inr []
             else
               let (s, e) = normalize_range start stop (sint (lm_size meta)) in
               if s > e then Inr []
               else
                 let actual_start = lm_head meta + word_of_int s;
                     actual_end = lm_head meta + word_of_int e
                 in if actual_start \<le> actual_end then
                      Inr (map snd (e_range E (w_data st) (Included (list_item kc key actual_start))
                                      (Included (list_item kc key actual_end))))
                    else Inr (get_items E kc st key (lm_head meta) [s..e])))"

definition with_lindex ::
    "'p engine \<Rightarrow> key_composer \<Rightarrow> 'p wedb \<Rightarrow> u64 \<Rightarrow> bytes \<Rightarrow> int \<Rightarrow> (bytes \<Rightarrow> 'r) \<Rightarrow> error + 'r option" where
  "with_lindex E kc s now_ms key index f =
     try_op (get_list_meta E kc s key now_ms)
       (\<lambda>m. case m of
          None \<Rightarrow> Inr None
        | Some meta \<Rightarrow>
            if lm_size meta > 0 then
              (case resolve_list_offset (lm_size meta) index of
                 None \<Rightarrow> Inr None
               | Some offset \<Rightarrow>
                   Inr (map_option f (e_get E (w_data s) (key_for_idx kc key (lm_head meta + offset)))))
            else Inr None)"

definition lindex :: "'p engine \<Rightarrow> key_composer \<Rightarrow> 'p wedb \<Rightarrow> u64 \<Rightarrow> bytes \<Rightarrow> int \<Rightarrow> error + bytes option" where
  "lindex E kc s now_ms key index = with_lindex E kc s now_ms key index (\<lambda>v. v)"

definition lset ::
    "'p engine \<Rightarrow> key_composer \<Rightarrow> u64 \<Rightarrow> bytes \<Rightarrow> int \<Rightarrow> bytes \<Rightarrow> 'p wedb \<Rightarrow> error + 'p wedb" where
  "lset E kc now_ms key index val s =
     try_op (get_list_meta E kc s key now_ms)
       (\<lambda>m. case m of
          None \<Rightarrow> Inl (InvalidData ERR_INDEX_OUT_OF_RANGE)
        | Some meta \<Rightarrow>
            if lm_size meta > 0 then
              (case resolve_list_offset (lm_size meta) index of
                 None \<Rightarrow> Inl (InvalidData ERR_INDEX_OUT_OF_RANGE)
               | Some offset \<Rightarrow>
                   Inr (commit E (insert_data (key_for_idx kc key (lm_head meta + offset)) val []) s))
            else Inl (InvalidData ERR_INDEX_OUT_OF_RANGE))"

definition commit_list_batch :: "'p engine \<Rightarrow> bytes \<Rightarrow> list_meta \<Rightarrow> batch \<Rightarrow> 'p wedb \<Rightarrow> 'p wedb" where
  "commit_list_batch E meta_k meta batch s =
     commit E (if lm_size meta = 0 then rm_meta meta_k batch
               else insert_meta meta_k (lm_encode meta) batch) s"

definition prepare_list_meta_for_write ::
    "'p engine \<Rightarrow> key_composer \<Rightarrow> u64 \<Rightarrow> u64 \<Rightarrow> bytes \<Rightarrow> batch \<Rightarrow> 'p wedb
       \<Rightarrow> error + ((list_meta \<times> bool) \<times> batch \<times> 'p wedb)" where
  "prepare_list_meta_for_write E kc now_ms ts key batch s =
     try_op (get_list_meta E kc s key now_ms)
       (\<lambda>m. case m of
          Some meta \<Rightarrow> Inr ((meta, True), batch, s)
        | None \<Rightarrow>
            (let batch = clear_prefix_in_batch E PData s (list_prefix_stack kc key) batch;
                 (meta, s) = lm_new_with_version 0 ts s
             in Inr ((meta, False), batch, s)))"

definition list_push_one_internal ::
    "'p engine \<Rightarrow> key_composer \<Rightarrow> u64 \<Rightarrow> u64 \<Rightarrow> bytes \<Rightarrow> bytes \<Rightarrow> bool \<Rightarrow> bool \<Rightarrow> 'p wedb
       \<Rightarrow> error + (u64 \<times> 'p wedb)" where
  "list_push_one_internal E kc now_ms ts key val create_if_missing push_left s =
     try_op (prepare_list_meta_for_write E kc now_ms ts key [] s)
       (\<lambda>((meta, metadata_existed), batch, s).
          if \<not> create_if_missing \<and> (\<not> metadata_existed \<or> lm_size meta = 0) then Inr (0, s)
          else
            let (target_idx, meta) = push_index push_left meta;
                batch = insert_data (key_for_idx kc key target_idx) val batch;
                meta = set_lm_size (lm_size meta + 1) meta;
                batch = insert_meta (list_meta_key kc key) (lm_encode meta) batch
            in Inr (lm_size meta, commit E batch s))"

definition push_step :: "key_composer \<Rightarrow> bytes \<Rightarrow> bool \<Rightarrow> list_meta \<times> batch \<Rightarrow> bytes \<Rightarrow> list_meta \<times> batch" where
  "push_step kc key push_left = (\<lambda>(meta, batch) v.
     let (target_idx, meta) = push_index push_left meta
     in (set_lm_size (lm_size meta + 1) meta, insert_data (key_for_idx kc key target_idx) v batch))"

definition list_push_internal ::
    "'p engine \<Rightarrow> key_composer \<Rightarrow> u64 \<Rightarrow> u64 \<Rightarrow> bytes \<Rightarrow> bytes list \<Rightarrow> bool \<Rightarrow> bool \<Rightarrow> 'p wedb
       \<Rightarrow> error + (u64 \<times> 'p wedb)" where
  "list_push_internal E kc now_ms ts key vals create_if_missing push_left s =
     (if vals = [] then Inr (0, s)
      else if length vals = 1 then
        list_push_one_internal E kc now_ms ts key (vals ! 0) create_if_missing push_left s
      else
        try_op (prepare_list_meta_for_write E kc now_ms ts key [] s)
          (\<lambda>((meta, metadata_existed), batch, s).
             if \<not> create_if_missing \<and> (\<not> metadata_existed \<or> lm_size meta = 0) then Inr (0, s)
             else
               let (meta, batch) = foldl (push_step kc key push_left) (meta, batch) vals;
                   batch = insert_meta (list_meta_key kc key) (lm_encode meta) batch
               in Inr (lm_size meta, commit E batch s)))"

definition list_pop_one_internal ::
    "'p engine \<Rightarrow> key_composer \<Rightarrow> u64 \<Rightarrow> bytes \<Rightarrow> bool \<Rightarrow> 'p wedb \<Rightarrow> error + (bytes option \<times> 'p wedb)" where
  "list_pop_one_internal E kc now_ms key pop_left s =
     try_op (get_list_meta E kc s key now_ms)
       (\<lambda>m. case m of
          None \<Rightarrow> Inr (None, s)
        | Some meta \<Rightarrow>
            if lm_size meta > 0 then
              (let (target_idx, meta) = pop_index pop_left meta;
                   item_k = key_for_idx kc key target_idx
               in case e_get E (w_data s) item_k of
                    None \<Rightarrow> Inr (None, s)
                  | Some val \<Rightarrow>
                      (let meta = set_lm_size (lm_size meta - 1) meta
                       in Inr (Some val,
                            commit_list_batch E (list_meta_key kc key) meta (rm_weak_data item_k []) s)))
            else Inr (None, s))"

definition pop_step ::
    "'p engine \<Rightarrow> key_composer \<Rightarrow> 'p wedb \<Rightarrow> bytes \<Rightarrow> bool
       \<Rightarrow> list_meta \<times> bytes list \<times> batch \<Rightarrow> list_meta \<times> bytes list \<times> batch" where
  "pop_step E kc s key pop_left = (\<lambda>(meta, results, batch).
     let (target_idx, meta) = pop_index pop_left meta; item_k = key_for_idx kc key target_idx
     in case e_get E (w_data s) item_k of
          None \<Rightarrow> (meta, results, batch)
        | Some val \<Rightarrow> (meta, results @ [val], rm_weak_data item_k batch))"

definition list_pop_internal ::
    "'p engine \<Rightarrow> key_composer \<Rightarrow> u64 \<Rightarrow> bytes \<Rightarrow> nat \<Rightarrow> bool \<Rightarrow> 'p wedb \<Rightarrow> error + (bytes list \<times> 'p wedb)" where
  "list_pop_internal E kc now_ms key count pop_left s =
     (if count = 0 then Inr ([], s)
      else if count = 1 then
        try_op (list_pop_one_internal E kc now_ms key pop_left s)
          (\<lambda>(v, s). Inr (case v of Some v \<Rightarrow> [v] | None \<Rightarrow> [], s))
      else
        try_op (get_list_meta E kc s key now_ms)
          (\<lambda>m. case m of
             None \<Rightarrow> Inr ([], s)
           | Some meta \<Rightarrow>
               if lm_size meta > 0 then
                 (let actual_count = min count (unat (lm_size meta));
                      (meta, results, batch) = (pop_step E kc s key pop_left ^^ actual_count) (meta, [], []);
                      meta = set_lm_size (lm_size meta - word_of_nat actual_count) meta
                  in Inr (results, commit_list_batch E (list_meta_key kc key) meta batch s))
               else Inr ([], s)))"

definition ltrim ::
    "'p engine \<Rightarrow> key_composer \<Rightarrow> u64 \<Rightarrow> bytes \<Rightarrow> index_range \<Rightarrow> 'p wedb \<Rightarrow> error + 'p wedb" where
  "ltrim E kc now_ms key ri st =
     (let (start, stop) = into_index_range ri
      in try_op (get_list_meta E kc st key now_ms)
        (\<lambda>m. case m of
           None \<Rightarrow> Inr st
         | Some meta \<Rightarrow>
             if lm_size meta = 0 then Inr st
             else
               let (s, e) = normalize_range start stop (sint (lm_size meta)) in
               if s > e then
                 Inr (commit E (rm_meta (list_meta_key kc key)
                        (clear_prefix_in_batch E PData st (list_prefix_stack kc key) [])) st)
               else
                 let rm = \<lambda>batch offset. rm_weak_data (key_for_idx kc key (lm_head meta + word_of_nat offset)) batch;
                     batch = foldl rm [] [0..<nat s];
                     batch = foldl rm batch [nat (e + 1)..<unat (lm_size meta)];
                     new_size = word_of_int (e - s + 1);
                     new_head = lm_head meta + word_of_int s;
                     meta = (set_lm_size new_size meta)\<lparr>lm_head := new_head, lm_tail := new_head + new_size\<rparr>
                 in Inr (commit_list_batch E (list_meta_key kc key) meta batch st)))"

definition lpush_one where "lpush_one E kc now_ms ts key val s = list_push_one_internal E kc now_ms ts key val True True s"
definition lpush where "lpush E kc now_ms ts key vals s = list_push_internal E kc now_ms ts key vals True True s"
definition rpush_one where "rpush_one E kc now_ms ts key val s = list_push_one_internal E kc now_ms ts key val True False s"
definition rpush where "rpush E kc now_ms ts key vals s = list_push_internal E kc now_ms ts key vals True False s"
definition lpushx_one where "lpushx_one E kc now_ms ts key val s = list_push_one_internal E kc now_ms ts key val False True s"
definition lpushx where "lpushx E kc now_ms ts key vals s = list_push_internal E kc now_ms ts key vals False True s"
definition rpushx_one where "rpushx_one E kc now_ms ts key val s = list_push_one_internal E kc now_ms ts key val False False s"
definition rpushx where "rpushx E kc now_ms ts key vals s = list_push_internal E kc now_ms ts key vals False False s"
definition lpop_one where "lpop_one E kc now_ms key s = list_pop_one_internal E kc now_ms key True s"
definition lpop where "lpop E kc now_ms key count s = list_pop_internal E kc now_ms key count True s"
definition rpop_one where "rpop_one E kc now_ms key s = list_pop_one_internal E kc now_ms key False s"
definition rpop where "rpop E kc now_ms key count s = list_pop_internal E kc now_ms key count False s"

section \<open>Keys and records in closed form\<close>

abbreviation lq :: "key_composer \<Rightarrow> bytes \<Rightarrow> bytes" where
  "lq kc key \<equiv> subkey_prefix kc ListData key"

lemma list_keys [simp]:
  "list_meta_key kc key = meta_key kc ListMeta key"
  "list_prefix_stack kc key = lq kc key"
  "list_item kc key idx = lq kc key @ to_be64 idx"
  "key_for_idx kc key idx = lq kc key @ to_be64 idx"
proof -
  show p: "list_prefix_stack kc key = lq kc key"
    by (simp add: list_prefix_stack_def subkey_prefix_def)
  show "key_for_idx kc key idx = lq kc key @ to_be64 idx"
    unfolding key_for_idx_def
    using sc_for_compose [OF sc_for_from_slice [of "lq kc key"]] by (simp add: p)
qed (simp_all add: list_meta_key_def list_item_def meta_key_def subkey_prefix_def)

lemma lm_decode_encode:
  assumes "km_flags (lm_base m) = 0 \<or> km_flags (lm_base m) = 0x80"
  shows "lm_decode (lm_encode m) = Some m"
proof -
  let ?b = "km_encode (lm_base m)"
  have "lm_encode m ! 0 \<le> 14" "lm_encode m ! 1 = km_flags (lm_base m)" "length (lm_encode m) = 42"
    by (simp_all add: lm_encode_def km_encode_def)
  moreover have "take 26 (lm_encode m) = ?b" by (simp add: lm_encode_def)
  moreover have "u64_at (lm_encode m) 26 = lm_head m" "u64_at (lm_encode m) 34 = lm_tail m"
    using u64_at_append [of ?b 26 "lm_head m" "to_be64 (lm_tail m)"]
      u64_at_append [of "?b @ to_be64 (lm_head m)" 34 "lm_tail m" "[]"]
    by (simp_all add: lm_encode_def)
  ultimately show ?thesis
    using assms by (simp add: lm_decode_def lm_decode_at_def read_u64_be_def)
qed

section \<open>The two ends of the index range\<close>

text \<open>The keys under \<open>q\<close> hold exactly the list, from the head of the record to its tail.\<close>

definition list_span :: "kv_map \<Rightarrow> bytes \<Rightarrow> list_meta \<Rightarrow> bytes list \<Rightarrow> bool" where
  "list_span d q m xs \<longleftrightarrow>
     lm_tail m = lm_head m + word_of_nat (length xs) \<and> only_indices d q \<and> at_index d q = ring (lm_head m) xs"

definition pushed :: "bool \<Rightarrow> 'a list \<Rightarrow> 'a list \<Rightarrow> 'a list" where
  "pushed left vs xs = (if left then rev vs @ xs else xs @ vs)"

lemma pushed_simps [simp]:
  "pushed left [] xs = xs" "length (pushed left vs xs) = length vs + length xs"
  "pushed left vs xs = [] \<longleftrightarrow> vs = [] \<and> xs = []"
  by (auto simp: pushed_def)

lemma pushed_Cons: "pushed left (v # vs) xs = pushed left vs (pushed left [v] xs)"
  by (simp add: pushed_def)

lemma index_base [simp]:
  "lm_base (snd (push_index left m)) = lm_base m" "lm_base (snd (pop_index left m)) = lm_base m"
  by (simp_all add: push_index_def pop_index_def push_head_def push_tail_def pop_head_def pop_tail_def)

lemma span_push:
  assumes "list_span d q m xs" and "length xs < 2 ^ 64"
  shows "list_span (d(q @ to_be64 (fst (push_index left m)) \<mapsto> v)) q (snd (push_index left m)) (pushed left [v] xs)"
  using assms ring_snoc [of xs "lm_head m" v] ring_Cons [of "lm_head m - 1" v xs]
  by (simp add: list_span_def push_index_def push_head_def push_tail_def pushed_def algebra_simps)

lemma span_pop:
  assumes "list_span d q m xs" and "xs \<noteq> []" and "length xs \<le> 2 ^ 64"
  shows "d (q @ to_be64 (fst (pop_index left m))) = Some (if left then hd xs else last xs)"
    and "list_span (d(q @ to_be64 (fst (pop_index left m)) := None)) q (snd (pop_index left m))
           (if left then tl xs else butlast xs)"
proof -
  have v: "at_index d q = ring (lm_head m) xs" and t: "lm_tail m = lm_head m + word_of_nat (length xs)"
    and o: "only_indices d q"
    using assms(1) by (simp_all add: list_span_def)
  have d: "d (q @ to_be64 i) = ring (lm_head m) xs i" for i
    using fun_cong [OF v, of i] by (simp add: at_index_def)
  show "d (q @ to_be64 (fst (pop_index left m))) = Some (if left then hd xs else last xs)"
  proof (cases left)
    case True
    then show ?thesis
      using ring_nth [of 0 xs "lm_head m"] assms(2,3)
      by (simp add: d pop_index_def pop_head_def hd_conv_nth)
  next
    case False
    have i: "lm_tail m - 1 = lm_head m + word_of_nat (length xs - 1)"
      using assms(2) unfolding t by (cases xs) simp_all
    have "ring (lm_head m) xs (lm_tail m - 1) = Some (xs ! (length xs - 1))"
      unfolding i using assms(2,3) by (intro ring_nth) simp_all
    with False assms(2) show ?thesis
      by (simp add: d pop_index_def pop_tail_def last_conv_nth)
  qed
  show "list_span (d(q @ to_be64 (fst (pop_index left m)) := None)) q (snd (pop_index left m))
           (if left then tl xs else butlast xs)"
  proof (cases left)
    case True
    obtain x ys where xs: "xs = x # ys" using assms(2) by (cases xs) auto
    then show ?thesis
      using True o t ring_hd [of ys "lm_head m" x] assms(3)
      by (simp add: list_span_def v pop_index_def pop_head_def algebra_simps)
  next
    case False
    obtain x ys where xs: "xs = ys @ [x]" using assms(2) by (cases xs rule: rev_cases) auto
    then show ?thesis
      using False o t ring_butlast [of ys "lm_head m" x] assms(3)
      by (simp add: list_span_def v pop_index_def pop_tail_def algebra_simps)
  qed
qed

lemma size_simps [simp]:
  "lm_size (set_lm_size n m) = n" "lm_head (set_lm_size n m) = lm_head m" "lm_tail (set_lm_size n m) = lm_tail m"
  "lm_base (set_lm_size n m) = (lm_base m)\<lparr>km_size := n\<rparr>" "km_flags (lm_base (set_lm_size n m)) = km_flags (lm_base m)"
  "list_span d q (set_lm_size n m) xs = list_span d q m xs"
  by (simp_all add: lm_size_def set_lm_size_def list_span_def)

section \<open>What a key represents\<close>

text \<open>The list of a key: no live string or other structure, and a live record whose indices
  span exactly the elements; the empty list has no live record.\<close>

definition list_rep ::
    "'p engine \<Rightarrow> 'p wedb \<Rightarrow> key_composer \<Rightarrow> u64 \<Rightarrow> bytes \<Rightarrow> bytes list \<Rightarrow> bool" where
  "list_rep E s kc now key xs \<longleftrightarrow>
     live_string (dat E s) kc key now = None \<and> \<not> other_live (met E s) kc key now ListMeta
   \<and> length xs < 2 ^ 63
   \<and> (case live_own list_meta_ops (met E s) kc key now of
        None \<Rightarrow> xs = []
      | Some m \<Rightarrow> xs \<noteq> [] \<and> unat (lm_size m) = length xs
          \<and> (km_flags (lm_base m) = 0 \<or> km_flags (lm_base m) = 0x80) \<and> list_span (dat E s) (lq kc key) m xs)"

text \<open>A record that stays live whatever size it gets.\<close>

definition resizable :: "key_meta \<Rightarrow> u64 \<Rightarrow> bool" where
  "resizable b now \<longleftrightarrow> (km_flags b = 0 \<or> km_flags b = 0x80) \<and> \<not> (km_expire_at b > 0 \<and> km_expire_at b \<le> now)"

lemma resizable_size [simp]: "resizable (b\<lparr>km_size := n\<rparr>) now = resizable b now"
  by (simp add: resizable_def)

lemma live_own_encode:
  assumes "m (meta_key kc ListMeta key) = Some (lm_encode l)" and "resizable (lm_base l) now" and "lm_size l \<noteq> 0"
  shows "live_own list_meta_ops m kc key now = Some l"
  using assms
  by (auto simp: live_own_def list_meta_ops_def lm_decode_encode resizable_def mo_is_expired_def km_is_expired_def
      lm_size_def)

lemma live_own_resizable:
  assumes "live_own list_meta_ops m kc key now = Some l" and "km_flags (lm_base l) = 0 \<or> km_flags (lm_base l) = 0x80"
  shows "resizable (lm_base l) now"
  using assms by (auto simp: live_own_def list_meta_ops_def mo_is_expired_def km_is_expired_def resizable_def
      split: option.splits if_splits)

context kv_engine
begin

lemma rep_get:
  assumes "list_rep E s kc now key xs"
  shows "get_list_meta E kc s key now = Inr (live_own list_meta_ops (met E s) kc key now)"
  using assms get_meta_checked_spec [of list_meta_ops kc s key now]
  by (auto simp: get_list_meta_def list_rep_def list_meta_ops_def split: option.splits)

lemma rep_cases:
  assumes "list_rep E s kc now key xs"
  obtains (absent) "xs = []" "live_own list_meta_ops (met E s) kc key now = None"
  | (present) m where "xs \<noteq> []" "live_own list_meta_ops (met E s) kc key now = Some m"
      "unat (lm_size m) = length xs" "lm_size m \<noteq> 0" "resizable (lm_base m) now"
      "list_span (dat E s) (lq kc key) m xs" "length xs < 2 ^ 63"
  using assms live_own_resizable [of "met E s" kc key now]
  by (cases "live_own list_meta_ops (met E s) kc key now") (auto simp: list_rep_def simp flip: unat_zero)

text \<open>Two ways to establish the representation after a batch on this list.\<close>

lemma rep_commit:
  assumes rep: "list_rep E s kc now key xs" and s1: "dat E s1 = dat E s" "met E s1 = met E s"
    and t: "touches (lq kc key) (meta_key kc ListMeta key) ops"
    and m: "apply_ops PMeta ops (met E s) (meta_key kc ListMeta key) = Some (lm_encode m')"
    and ok: "resizable (lm_base m') now" "unat (lm_size m') = length xs'" "xs' \<noteq> []" "length xs' < 2 ^ 63"
    and span: "list_span (apply_ops PData ops (dat E s)) (lq kc key) m' xs'"
  shows "list_rep E (commit E ops s1) kc now key xs'"
proof -
  have "lm_size m' \<noteq> 0" using ok by auto
  from live_own_encode [of "met E (commit E ops s1)" kc key m', OF _ ok(1) this] m
  have "live_own list_meta_ops (met E (commit E ops s1)) kc key now = Some m'" by (simp add: s1)
  then show ?thesis
    using rep touches_types [OF t] ok span by (simp add: list_rep_def s1 resizable_def)
qed

lemma rep_commit_empty:
  assumes rep: "list_rep E s kc now key xs" and s1: "dat E s1 = dat E s" "met E s1 = met E s"
    and t: "touches (lq kc key) (meta_key kc ListMeta key) ops"
    and m: "apply_ops PMeta ops (met E s) (meta_key kc ListMeta key) = None"
  shows "list_rep E (commit E ops s1) kc now key []"
  using rep touches_types [OF t] m by (simp add: list_rep_def live_own_def list_meta_ops_def s1)

lemma rep_frame:
  assumes "touches (lq kc key) (meta_key kc ListMeta key) ops" and "\<not> owns kc key x"
    and s1: "dat E s1 = dat E s" "met E s1 = met E s"
  shows "dat E (commit E ops s1) x = dat E s x \<and> met E (commit E ops s1) x = met E s x"
  using touches_frame [OF assms(1) _ _ assms(2)] by (simp add: s1 whole_key_tags_def)

text \<open>Preparing a record for a write: the live one, or a new one over a cleaned prefix.\<close>

lemma prepare_rep:
  assumes rep: "list_rep E s kc now key xs"
  obtains m batch s1 where
    "prepare_list_meta_for_write E kc now ts key [] s = Inr ((m, xs \<noteq> []), batch, s1)"
    "dat E s1 = dat E s" "met E s1 = met E s" "touches (lq kc key) (meta_key kc ListMeta key) batch"
    "apply_ops PMeta batch (met E s) = met E s"
    "resizable (lm_base m) now" "unat (lm_size m) = length xs"
    "list_span (apply_ops PData batch (dat E s)) (lq kc key) m xs"
  using rep
proof (cases rule: rep_cases)
  case (present m)
  then have "prepare_list_meta_for_write E kc now ts key [] s = Inr ((m, xs \<noteq> []), [], s)"
    by (simp add: prepare_list_meta_for_write_def rep_get [OF rep])
  with present that show ?thesis by simp
next
  case absent
  let ?b = "clear_prefix_in_batch E PData s (lq kc key) []"
  obtain v vs where g: "generate_version ts (w_ver s) = (v, vs)" by (cases "generate_version ts (w_ver s)")
  define m where "m = \<lparr>lm_base = km_new RList 0 v 0, lm_head = INITIAL_INDEX, lm_tail = INITIAL_INDEX\<rparr>"
  define s1 where "s1 = s\<lparr>w_ver := vs\<rparr>"
  have ms: "lm_new_with_version 0 ts s = (m, s1)"
    by (simp add: lm_new_with_version_def km_new_with_version_def g m_def s1_def)
  have new: "resizable (lm_base m) now" "lm_size m = 0" "lm_tail m = lm_head m"
    by (simp_all add: m_def km_new_def resizable_def lm_size_def)
  have s1: "dat E s1 = dat E s" "met E s1 = met E s"
    unfolding s1_def dat_def met_def by simp_all
  have "prepare_list_meta_for_write E kc now ts key [] s = Inr ((m, xs \<noteq> []), ?b, s1)"
    using absent ms by (simp add: prepare_list_meta_for_write_def rep_get [OF rep])
  moreover have "list_span (apply_ops PData ?b (dat E s)) (lq kc key) m xs"
    using absent clear_prefix_empty [of s "lq kc key"] new by (simp add: list_span_def)
  moreover have "apply_ops PMeta ?b (met E s) = met E s"
    by (simp add: apply_clear_prefix)
  ultimately show ?thesis
    using that [of m ?b s1] new s1 absent clear_prefix_touches by simp
qed

section \<open>Pushing\<close>

lemma push_fold:
  assumes "list_span (apply_ops PData batch d) (lq kc key) m xs" and "unat (lm_size m) = length xs"
    and "length xs + length vs < 2 ^ 63"
  shows "\<exists>m' ops. foldl (push_step kc key left) (m, batch) vs = (m', batch @ ops)
    \<and> list_span (apply_ops PData (batch @ ops) d) (lq kc key) m' (pushed left vs xs)
    \<and> unat (lm_size m') = length vs + length xs \<and> resizable (lm_base m') now = resizable (lm_base m) now
    \<and> touches (lq kc key) mk ops \<and> (\<forall>m. apply_ops PMeta ops m = m)"
  using assms
proof (induction vs arbitrary: m batch xs)
  case (Cons v vs)
  let ?i = "fst (push_index left m)"
  let ?m = "set_lm_size (lm_size m + 1) (snd (push_index left m))"
  let ?op = "BInsert PData (lq kc key @ to_be64 ?i) v"
  have step: "push_step kc key left (m, batch) v = (?m, batch @ [?op])"
    by (simp add: push_step_def insert_data_def split_beta lm_size_def)
  have span: "list_span (apply_ops PData (batch @ [?op]) d) (lq kc key) ?m (pushed left [v] xs)"
    using span_push [OF Cons.prems(1), of left v] Cons.prems(3) by simp
  have "unat (lm_size ?m) = length (pushed left [v] xs)"
    using Cons.prems(2,3) by (simp add: unat_word_ariths)
  from Cons.IH [OF span this] Cons.prems(3) obtain m' ops where
    "foldl (push_step kc key left) (?m, batch @ [?op]) vs = (m', (batch @ [?op]) @ ops)"
    "list_span (apply_ops PData ((batch @ [?op]) @ ops) d) (lq kc key) m' (pushed left vs (pushed left [v] xs))"
    "unat (lm_size m') = length vs + length (pushed left [v] xs)"
    "resizable (lm_base m') now = resizable (lm_base ?m) now" "touches (lq kc key) mk ops"
    "\<forall>m. apply_ops PMeta ops m = m"
    by auto
  then show ?case
    by (intro exI [of _ m'] exI [of _ "?op # ops"])
      (simp add: step pushed_Cons [of left v vs] touches_simps(2) [of _ _ "[?op]", simplified])
qed simp

lemma push_one_eq:
  "list_push_one_internal E kc now ts key v create left s =
     try_op (prepare_list_meta_for_write E kc now ts key [] s)
          (\<lambda>((meta, metadata_existed), batch, s).
             if \<not> create \<and> (\<not> metadata_existed \<or> lm_size meta = 0) then Inr (0, s)
             else
               let (meta, batch) = foldl (push_step kc key left) (meta, batch) [v];
                   batch = insert_meta (list_meta_key kc key) (lm_encode meta) batch
               in Inr (lm_size meta, commit E batch s))"
  unfolding list_push_one_internal_def
  by (rule arg_cong [of _ _ "try_op _"]) (auto simp: fun_eq_iff push_step_def split_beta Let_def lm_size_def)

lemma push_rep:
  assumes rep: "list_rep E s kc now key xs" and len: "length xs + length vs < 2 ^ 63"
  shows "\<exists>s'. list_push_internal E kc now ts key vs create left s
      = Inr (if vs = [] \<or> \<not> create \<and> xs = [] then 0 else word_of_nat (length xs + length vs), s')
    \<and> list_rep E s' kc now key (if \<not> create \<and> xs = [] then [] else pushed left vs xs)
    \<and> (\<forall>x. \<not> owns kc key x \<longrightarrow> dat E s' x = dat E s x \<and> met E s' x = met E s x)"
proof (cases "vs = []")
  case True
  then show ?thesis using rep by (auto simp: list_push_internal_def)
next
  case False
  let ?mk = "meta_key kc ListMeta key"
  from rep obtain m batch s1 where p:
    "prepare_list_meta_for_write E kc now ts key [] s = Inr ((m, xs \<noteq> []), batch, s1)"
    and s1: "dat E s1 = dat E s" "met E s1 = met E s" and b: "touches (lq kc key) ?mk batch"
    "apply_ops PMeta batch (met E s) = met E s"
    and m: "resizable (lm_base m) now" "unat (lm_size m) = length xs"
    "list_span (apply_ops PData batch (dat E s)) (lq kc key) m xs"
    by (rule prepare_rep)
  from push_fold [OF m(3,2) len, of left now ?mk] obtain m' ops where f:
    "foldl (push_step kc key left) (m, batch) vs = (m', batch @ ops)"
    "list_span (apply_ops PData (batch @ ops) (dat E s)) (lq kc key) m' (pushed left vs xs)"
    "unat (lm_size m') = length vs + length xs" "resizable (lm_base m') now = resizable (lm_base m) now"
    "touches (lq kc key) ?mk ops" "\<forall>m. apply_ops PMeta ops m = m"
    by blast
  let ?ops = "(batch @ ops) @ [BInsert PMeta ?mk (lm_encode m')]"
  have run: "list_push_internal E kc now ts key vs create left s
      = (if \<not> create \<and> xs = [] then Inr (0, s1) else Inr (lm_size m', commit E ?ops s1))"
  proof -
    have z: "lm_size m = 0 \<longleftrightarrow> xs = []" using m(2) unat_zero [of "lm_size m"] by simp
    have "list_push_internal E kc now ts key vs create left s =
       try_op (prepare_list_meta_for_write E kc now ts key [] s)
          (\<lambda>((meta, metadata_existed), batch, s).
             if \<not> create \<and> (\<not> metadata_existed \<or> lm_size meta = 0) then Inr (0, s)
             else
               let (meta, batch) = foldl (push_step kc key left) (meta, batch) vs;
                   batch = insert_meta (list_meta_key kc key) (lm_encode meta) batch
               in Inr (lm_size meta, commit E batch s))"
    proof (cases "length vs = 1")
      case True
      then obtain v where v: "vs = [v]" by (auto simp: length_Suc_conv)
      then have "list_push_internal E kc now ts key vs create left s
          = list_push_one_internal E kc now ts key v create left s"
        by (simp add: list_push_internal_def)
      then show ?thesis unfolding push_one_eq v .
    qed (use False in \<open>simp add: list_push_internal_def\<close>)
    then show ?thesis by (simp add: p f(1) z insert_meta_def)
  qed
  show ?thesis
  proof (cases "\<not> create \<and> xs = []")
    case True
    then have "xs = []" by simp
    with rep have "list_rep E s kc now key []" by simp
    then have "list_rep E s1 kc now key []" unfolding list_rep_def s1 .
    with True run s1 show ?thesis by auto
  next
    case c: False
    have t: "touches (lq kc key) ?mk ?ops" using b(1) f(5) by simp
    have "list_rep E (commit E ?ops s1) kc now key (pushed left vs xs)"
      using rep_commit [OF rep s1 t, of m' "pushed left vs xs"] f m(1) b(2) False len by simp
    moreover have "lm_size m' = word_of_nat (length xs + length vs)"
      using f(3) by (metis add.commute of_nat_unat ucast_id)
    ultimately show ?thesis
      using c False run rep_frame [OF t _ s1] by auto
  qed
qed

end

section \<open>Popping\<close>

definition popped :: "bool \<Rightarrow> nat \<Rightarrow> 'a list \<Rightarrow> 'a list" where
  "popped left n xs = (if left then take n xs else take n (rev xs))"

definition remaining :: "bool \<Rightarrow> nat \<Rightarrow> 'a list \<Rightarrow> 'a list" where
  "remaining left n xs = (if left then drop n xs else take (length xs - n) xs)"

lemma popped_simps [simp]:
  "popped left 0 xs = []" "remaining left 0 xs = xs" "length (remaining left n xs) = length xs - n"
  "remaining left n xs = [] \<longleftrightarrow> length xs \<le> n"
  by (auto simp: popped_def remaining_def)

lemma popped_Suc:
  assumes "n < length xs"
  shows "popped left (Suc n) xs
      = popped left n xs @ [if left then hd (remaining left n xs) else last (remaining left n xs)]"
    and "remaining left (Suc n) xs = (if left then tl (remaining left n xs) else butlast (remaining left n xs))"
proof -
  have "last (take (length xs - n) xs) = xs ! (length xs - Suc n)"
  proof -
    have ne: "take (length xs - n) xs \<noteq> []" using assms by auto
    have l: "length (take (length xs - n) xs) - 1 = length xs - Suc n" by simp
    show ?thesis using last_conv_nth [OF ne] assms unfolding l by simp
  qed
  then show "popped left (Suc n) xs
      = popped left n xs @ [if left then hd (remaining left n xs) else last (remaining left n xs)]"
    using assms by (simp add: popped_def remaining_def take_Suc_conv_app_nth hd_drop_conv_nth rev_nth)
  show "remaining left (Suc n) xs = (if left then tl (remaining left n xs) else butlast (remaining left n xs))"
    using assms by (simp add: remaining_def drop_Suc tl_drop butlast_take)
qed

context kv_engine
begin

text \<open>The loop reads the partition as it was; the batch only removes keys, so what is still in the
  span after the queued removals has its old value.\<close>

lemma pop_fold:
  assumes "list_span (dat E s) (lq kc key) m xs" and "n \<le> length xs" and "length xs < 2 ^ 63"
  shows "\<exists>m' ops. (pop_step E kc s key left ^^ n) (m, [], []) = (m', popped left n xs, ops)
    \<and> list_span (apply_ops PData ops (dat E s)) (lq kc key) m' (remaining left n xs)
    \<and> lm_base m' = lm_base m \<and> touches (lq kc key) mk ops \<and> (\<forall>m. apply_ops PMeta ops m = m)
    \<and> (\<forall>k v. apply_ops PData ops (dat E s) k = Some v \<longrightarrow> dat E s k = Some v)"
  using assms(2)
proof (induction n)
  case 0
  then show ?case using assms(1) by simp
next
  case (Suc n)
  then obtain m' ops where IH: "(pop_step E kc s key left ^^ n) (m, [], []) = (m', popped left n xs, ops)"
    "list_span (apply_ops PData ops (dat E s)) (lq kc key) m' (remaining left n xs)" "lm_base m' = lm_base m"
    "touches (lq kc key) mk ops" "\<forall>m. apply_ops PMeta ops m = m"
    "\<forall>k v. apply_ops PData ops (dat E s) k = Some v \<longrightarrow> dat E s k = Some v"
    by auto
  let ?ys = "remaining left n xs" and ?i = "fst (pop_index left m')"
  let ?op = "BRmWeak PData (lq kc key @ to_be64 ?i)"
  have ne: "?ys \<noteq> []" and l: "length ?ys \<le> 2 ^ 64"
    using Suc.prems assms(3) by simp_all
  note p = span_pop [OF IH(2) ne l, of left]
  have "dat E s (lq kc key @ to_be64 ?i) = Some (if left then hd ?ys else last ?ys)"
    using p(1) IH(6) by blast
  then have "pop_step E kc s key left (m', popped left n xs, ops)
      = (snd (pop_index left m'), popped left (Suc n) xs, ops @ [?op])"
    using popped_Suc(1) [of n xs left] Suc.prems by (simp add: pop_step_def rm_weak_data_def split_beta)
  moreover have "list_span (apply_ops PData (ops @ [?op]) (dat E s)) (lq kc key) (snd (pop_index left m'))
      (remaining left (Suc n) xs)"
    using p(2) popped_Suc(2) [of n xs left] Suc.prems by simp
  moreover have "\<forall>k v. apply_ops PData (ops @ [?op]) (dat E s) k = Some v \<longrightarrow> dat E s k = Some v"
    using IH(6) by simp
  ultimately show ?case
    using IH(1,3,4,5) by (intro exI [of _ "snd (pop_index left m')"] exI [of _ "ops @ [?op]"])
      (simp del: fun_upd_apply)
qed

text \<open>Writing back the record of a list that lost elements.\<close>

lemma commit_list_rep:
  assumes rep: "list_rep E s kc now key xs"
    and t: "touches (lq kc key) (meta_key kc ListMeta key) ops" and mo: "\<forall>m. apply_ops PMeta ops m = m"
    and ok: "resizable (lm_base m') now" "unat (lm_size m') = length xs'" "length xs' < 2 ^ 63"
    and span: "list_span (apply_ops PData ops (dat E s)) (lq kc key) m' xs'"
  shows "list_rep E (commit_list_batch E (list_meta_key kc key) m' ops s) kc now key xs'
    \<and> (\<forall>x. \<not> owns kc key x \<longrightarrow>
         dat E (commit_list_batch E (list_meta_key kc key) m' ops s) x = dat E s x
       \<and> met E (commit_list_batch E (list_meta_key kc key) m' ops s) x = met E s x)"
proof -
  let ?mk = "meta_key kc ListMeta key"
  let ?op = "if lm_size m' = 0 then BRm PMeta ?mk else BInsert PMeta ?mk (lm_encode m')"
  have t': "touches (lq kc key) ?mk (ops @ [?op])" using t by simp
  have c: "commit_list_batch E (list_meta_key kc key) m' ops s = commit E (ops @ [?op]) s"
    by (simp add: commit_list_batch_def rm_meta_def insert_meta_def)
  have "list_rep E (commit E (ops @ [?op]) s) kc now key xs'"
  proof (cases "xs' = []")
    case True
    then have "lm_size m' = 0" using ok(2) unat_zero [of "lm_size m'"] by simp
    then show ?thesis using rep_commit_empty [OF rep refl refl t'] True by simp
  next
    case False
    then have "lm_size m' \<noteq> 0" using ok(2) by auto
    then show ?thesis
      using rep_commit [OF rep refl refl t' _ ok(1,2) False ok(3)] span by simp
  qed
  then show ?thesis
    unfolding c using rep_frame [OF t' _ refl refl] by blast
qed

lemma resize_down:
  assumes "unat (lm_size m) = length xs" and "n \<le> length xs"
  shows "unat (lm_size m - word_of_nat n) = length xs - n"
  using assms unat_u64_less [of "lm_size m"]
  by (simp add: unat_sub word_le_nat_alt unat_of_nat)

lemma pop_rep:
  assumes rep: "list_rep E s kc now key xs"
  shows "\<exists>s'. list_pop_internal E kc now key count left s = Inr (popped left count xs, s')
    \<and> list_rep E s' kc now key (remaining left count xs)
    \<and> (\<forall>x. \<not> owns kc key x \<longrightarrow> dat E s' x = dat E s x \<and> met E s' x = met E s x)"
  using rep
proof (cases rule: rep_cases)
  case absent
  then have "list_pop_one_internal E kc now key left s = Inr (None, s)"
    by (simp add: list_pop_one_internal_def rep_get [OF rep])
  with absent rep show ?thesis
    by (auto simp: list_pop_internal_def rep_get [OF rep] popped_def remaining_def)
next
  case (present m)
  let ?n = "min count (length xs)"
  let ?mk = "meta_key kc ListMeta key"
  have n: "popped left count xs = popped left ?n xs" "remaining left count xs = remaining left ?n xs"
    by (simp_all add: popped_def remaining_def min_def)
  obtain m' ops where f: "(pop_step E kc s key left ^^ ?n) (m, [], []) = (m', popped left ?n xs, ops)"
    "list_span (apply_ops PData ops (dat E s)) (lq kc key) m' (remaining left ?n xs)" "lm_base m' = lm_base m"
    "touches (lq kc key) ?mk ops" "\<forall>m. apply_ops PMeta ops m = m"
    using pop_fold [OF present(6) _ present(7), of ?n left ?mk] by auto
  let ?m = "set_lm_size (lm_size m' - word_of_nat ?n) m'"
  let ?s = "commit_list_batch E (list_meta_key kc key) ?m ops s"
  have sz: "lm_size m' = lm_size m" using f(3) by (simp add: lm_size_def)
  have "unat (lm_size ?m) = length (remaining left ?n xs)"
    using resize_down [OF present(3), of ?n] by (simp add: sz)
  then have rep': "list_rep E ?s kc now key (remaining left ?n xs)
      \<and> (\<forall>x. \<not> owns kc key x \<longrightarrow> dat E ?s x = dat E s x \<and> met E ?s x = met E s x)"
    using commit_list_rep [OF rep f(4,5), of ?m "remaining left ?n xs"] f(2,3) present(5,7) by simp
  have pos: "lm_size m > 0" using present(4) by (simp add: word_neq_0_conv)
  consider "count = 0" | "count = 1" | "count > 1" by linarith
  then show ?thesis
  proof cases
    case 1
    then show ?thesis using rep by (auto simp: list_pop_internal_def)
  next
    case 2
    have one: "?n = 1" using 2 present(1) by (cases xs) auto
    let ?i = "fst (pop_index left m)"
    have p: "dat E s (lq kc key @ to_be64 ?i) = Some (if left then hd xs else last xs)"
      using span_pop(1) [OF present(6,1)] present(7) by simp
    then have st: "pop_step E kc s key left (m, [], [])
        = (snd (pop_index left m), [if left then hd xs else last xs], [BRmWeak PData (lq kc key @ to_be64 ?i)])"
      by (simp add: pop_step_def rm_weak_data_def split_beta)
    have eqs: "m' = snd (pop_index left m)" "popped left ?n xs = [if left then hd xs else last xs]"
        "ops = [BRmWeak PData (lq kc key @ to_be64 ?i)]"
      using f(1) unfolding one by (simp_all add: st)
    have "list_pop_one_internal E kc now key left s = Inr (Some (if left then hd xs else last xs), ?s)"
      using pos p unfolding one eqs
      by (simp add: list_pop_one_internal_def rep_get [OF rep] present(2) rm_weak_data_def split_beta)
    then have "list_pop_internal E kc now key count left s = Inr (popped left ?n xs, ?s)"
      using 2 eqs(2) by (simp add: list_pop_internal_def)
    with rep' show ?thesis unfolding n by blast
  next
    case 3
    then have "list_pop_internal E kc now key count left s = Inr (popped left ?n xs, ?s)"
      using pos f(1) by (simp add: list_pop_internal_def rep_get [OF rep] present(2,3) Let_def)
    with rep' show ?thesis unfolding n by blast
  qed
qed

end

section \<open>Reading, setting and trimming\<close>

lemma map_nth_slice: "e < length xs \<Longrightarrow> map (nth xs) [s..<Suc e] = take (Suc e - s) (drop s xs)"
  by (rule nth_equalityI) (auto simp del: upt_Suc)

lemma map_int_upt: "map int [a..<b] = [int a..int b - 1]"
proof (induction b)
  case (Suc b)
  then show ?case
    using upto_rec2 [of "int a" "int b"] by (cases "a \<le> b") simp_all
qed simp

lemma resolve_offset:
  assumes "unat sz = length xs" and "length xs < 2 ^ 63"
  shows "resolve_list_offset sz i = map_option word_of_nat (redis_index xs i)"
proof -
  have sz: "sint sz = int (length xs)" "sz = 0 \<longleftrightarrow> xs = []"
    using sint_small [of sz] assms unat_zero [of sz] by simp_all
  show ?thesis
  proof (cases "i < 0")
    case True
    then show ?thesis
      using assms(2) unfolding resolve_list_offset_def sz redis_index_def from_end_def I64_MIN_def I64_MAX_def
      by (simp add: Let_def)
  next
    case False
    then show ?thesis
      unfolding resolve_list_offset_def sz redis_index_def from_end_def by (simp add: Let_def)
  qed
qed

context kv_engine
begin

lemma item_at:
  assumes "list_span (dat E s) (lq kc key) m xs" and "n < length xs" and "length xs < 2 ^ 63"
  shows "dat E s (lq kc key @ to_be64 (lm_head m + word_of_nat n)) = Some (xs ! n)"
proof -
  have "at_index (dat E s) (lq kc key) = ring (lm_head m) xs" using assms(1) by (simp add: list_span_def)
  from fun_cong [OF this, of "lm_head m + word_of_nat n"] show ?thesis
    using ring_nth [of n xs "lm_head m"] assms(2,3) by (simp add: at_index_def)
qed

lemma lrange_rep:
  assumes rep: "list_rep E s kc now key xs"
  shows "lrange E kc s now key r = Inr (case into_index_range r of (start, stop) \<Rightarrow> redis_slice start stop xs)"
proof -
  obtain a b where r: "into_index_range r = (a, b)" by (cases "into_index_range r")
  obtain i j where n: "normalize_range a b (int (length xs)) = (i, j)"
    by (cases "normalize_range a b (int (length xs))")
  note sl = redis_slice_normalize [OF n]
  from rep show ?thesis
  proof (cases rule: rep_cases)
    case absent
    then show ?thesis by (simp add: lrange_def r rep_get [OF rep] redis_slice_def)
  next
    case (present m)
    have sz: "sint (lm_size m) = int (length xs)" using sint_small [of "lm_size m"] present by simp
    show ?thesis
    proof (cases "i > j")
      case True
      then show ?thesis using present n by (simp add: lrange_def r rep_get [OF rep] sz sl)
    next
      case False
      then have b: "0 \<le> i" "i \<le> j" "j < int (length xs)" using normalize_range_bounds [OF n] by auto
      define s' where "s' = nat i"
      define e' where "e' = nat j"
      have ij: "i = int s'" "j = int e'" "s' \<le> e'" "e' < length xs" using b by (auto simp: s'_def e'_def)
      have res: "redis_slice a b xs = map (nth xs) [s'..<Suc e']"
      proof -
        have "nat (j - i + 1) = Suc e' - s'" using ij by simp
        then show ?thesis using False ij map_nth_slice [OF ij(4), of s'] by (simp add: sl del: upt_Suc)
      qed
      let ?h = "lm_head m"
      have span: "only_indices (dat E s) (lq kc key)" "at_index (dat E s) (lq kc key) = ring ?h xs"
        using present(6) by (simp_all add: list_span_def)
      show ?thesis
      proof (cases "?h + word_of_nat s' \<le> ?h + word_of_nat e'")
        case True
        have "map snd (e_range E (w_data s) (Included (lq kc key @ to_be64 (?h + word_of_nat s')))
                 (Included (lq kc key @ to_be64 (?h + word_of_nat e')))) = map (nth xs) [s'..<Suc e']"
          using range_ring [of "w_data s" "lq kc key" ?h xs s' e'] span present(7) ij True by (simp del: upt_Suc)
        then show ?thesis
          using True present(2,4) n False ij
          by (simp add: lrange_def r rep_get [OF rep] sz res del: upt_Suc)
      next
        case wrap: False
        have items: "List.map_filter (\<lambda>k. e_get E (w_data s) (key_for_idx kc key (?h + word_of_int k))) (map int ns)
            = map (nth xs) ns" if "set ns \<subseteq> {..<length xs}" for ns
          using that by (induction ns) (simp_all add: map_filter_simps item_at [OF present(6) _ present(7)])
        have "[i..j] = map int [s'..<Suc e']"
          by (simp add: ij map_int_upt del: upt_Suc)
        moreover have "set [s'..<Suc e'] \<subseteq> {..<length xs}" using ij by auto
        ultimately have "get_items E kc s key ?h [i..j] = map (nth xs) [s'..<Suc e']"
          unfolding get_items_def by (simp only: items)
        then show ?thesis
          using wrap present(2,4) n False ij
          by (simp add: lrange_def r rep_get [OF rep] sz res del: upt_Suc)
      qed
    qed
  qed
qed

end

context kv_engine
begin

lemma llen_rep: "list_rep E s kc now key xs \<Longrightarrow> llen E kc s now key = Inr (word_of_nat (length xs))"
proof -
  assume rep: "list_rep E s kc now key xs"
  then show ?thesis
  proof (cases rule: rep_cases)
    case (present m)
    then have "lm_size m = word_of_nat (length xs)" by (metis of_nat_unat ucast_id)
    with present(2) show ?thesis by (simp add: llen_def rep_get [OF rep])
  qed (simp add: llen_def rep_get [OF rep])
qed

lemma lindex_rep:
  assumes rep: "list_rep E s kc now key xs"
  shows "lindex E kc s now key i = Inr (map_option (nth xs) (redis_index xs i))"
  using rep
proof (cases rule: rep_cases)
  case absent
  then show ?thesis by (simp add: lindex_def with_lindex_def rep_get [OF rep] redis_index_def)
next
  case (present m)
  have pos: "lm_size m > 0" using present(4) by (simp add: word_neq_0_conv)
  show ?thesis
  proof (cases "redis_index xs i")
    case None
    then show ?thesis
      using present(2) pos resolve_offset [OF present(3,7), of i]
      by (simp add: lindex_def with_lindex_def rep_get [OF rep])
  next
    case (Some n)
    then have "n < length xs" by (auto simp: redis_index_def split: if_splits)
    then show ?thesis
      using Some present(2) pos resolve_offset [OF present(3,7), of i] item_at [OF present(6) _ present(7), of n]
      by (simp add: lindex_def with_lindex_def rep_get [OF rep])
  qed
qed

lemma lset_rep:
  assumes rep: "list_rep E s kc now key xs"
  shows "case redis_index xs i of
      None \<Rightarrow> lset E kc now key i v s = Inl (InvalidData ERR_INDEX_OUT_OF_RANGE)
    | Some n \<Rightarrow> \<exists>s'. lset E kc now key i v s = Inr s' \<and> list_rep E s' kc now key (xs[n := v])
        \<and> (\<forall>x. \<not> owns kc key x \<longrightarrow> dat E s' x = dat E s x \<and> met E s' x = met E s x)"
  using rep
proof (cases rule: rep_cases)
  case absent
  then show ?thesis by (simp add: lset_def rep_get [OF rep] redis_index_def)
next
  case (present m)
  have pos: "lm_size m > 0" using present(4) by (simp add: word_neq_0_conv)
  show ?thesis
  proof (cases "redis_index xs i")
    case None
    then show ?thesis
      using present(2) pos resolve_offset [OF present(3,7), of i] by (simp add: lset_def rep_get [OF rep])
  next
    case (Some n)
    then have n: "n < length xs" by (auto simp: redis_index_def split: if_splits)
    let ?op = "BInsert PData (lq kc key @ to_be64 (lm_head m + word_of_nat n)) v"
    have "lset E kc now key i v s = Inr (commit E [?op] s)"
      using Some present(2) pos resolve_offset [OF present(3,7), of i]
      by (simp add: lset_def rep_get [OF rep] insert_data_def)
    moreover have t: "touches (lq kc key) (meta_key kc ListMeta key) [?op]" by simp
    have "list_span (dat E (commit E [?op] s)) (lq kc key) m (xs[n := v])"
      using present(6,7) n by (simp add: list_span_def ring_update)
    then have "list_rep E (commit E [?op] s) kc now key (xs[n := v])"
      using rep present(2) touches_types [OF t] by (simp add: list_rep_def)
    moreover note rep_frame [OF t _ refl refl]
    ultimately show ?thesis unfolding Some by auto
  qed
qed

text \<open>Queued weak removals of a set of indices.\<close>

lemma trim_fold:
  "foldl (\<lambda>batch offset. rm_weak_data (lq kc key @ to_be64 (h + word_of_nat offset)) batch) b ns
     = b @ map (\<lambda>n. BRmWeak PData (lq kc key @ to_be64 (h + word_of_nat n))) ns"
  by (induction ns arbitrary: b) (simp_all add: rm_weak_data_def)

lemma at_index_trim:
  "at_index (apply_ops PData (map (\<lambda>n. BRmWeak PData (q @ to_be64 (h + word_of_nat n))) ns) d) q
     = at_index d q |` (- (\<lambda>n. h + word_of_nat n) ` set ns)"
  "only_indices d q \<Longrightarrow>
     only_indices (apply_ops PData (map (\<lambda>n. BRmWeak PData (q @ to_be64 (h + word_of_nat n))) ns) d) q"
proof (induction ns arbitrary: d)
  case (Cons n ns)
  {
    case 1
    have "at_index d q |` (- (\<lambda>n. h + word_of_nat n) ` set (n # ns))
        = (at_index d q)(h + word_of_nat n := None) |` (- (\<lambda>n. h + word_of_nat n) ` set ns)"
      by (auto simp: restrict_map_def fun_eq_iff)
    then show ?case by (simp add: Cons.IH(1) del: fun_upd_apply)
  next
    case 2
    then have "only_indices (d(q @ to_be64 (h + word_of_nat n) := None)) q" by (rule only_indices_update)
    then show ?case using Cons.IH(2) [of "d(q @ to_be64 (h + word_of_nat n) := None)"]
      by (simp del: fun_upd_apply)
  }
qed (auto simp: restrict_map_def fun_eq_iff)

lemma ring_trim:
  assumes "s \<le> e" and "e < length xs" and "length xs < 2 ^ 63"
  shows "ring h xs |` (- (\<lambda>n. h + word_of_nat n) ` (set [0..<s] \<union> set [Suc e..<length xs]))
    = ring (h + word_of_nat s) (take (Suc e - s) (drop s xs))"
proof
  fix i
  have mem: "i \<in> (\<lambda>n. h + word_of_nat n) ` N \<longleftrightarrow> unat (i - h) \<in> N" if "N \<subseteq> {..<length xs}" for N
  proof -
    have "i = h + word_of_nat n \<longleftrightarrow> unat (i - h) = n" if "n \<in> N" for n
      using \<open>N \<subseteq> _\<close> that assms(3) by (intro ring_index) auto
    then show ?thesis by (auto simp: image_iff)
  qed
  have sub: "set [0..<s] \<union> set [Suc e..<length xs] \<subseteq> {..<length xs}" using assms by auto
  have sl: "ring (h + word_of_nat s) (take (Suc e - s) (drop s xs)) i
      = (if unat (i - (h + word_of_nat s)) < Suc e - s then ring h xs i else None)"
    using assms by (intro ring_slice) simp_all
  have "unat (i - (h + word_of_nat s)) < Suc e - s \<longleftrightarrow> s \<le> unat (i - h) \<and> unat (i - h) \<le> e"
    if "unat (i - h) < length xs"
  proof (cases "s \<le> unat (i - h)")
    case True
    have "i - (h + word_of_nat s) = (i - h) - word_of_nat s" by simp
    moreover have "word_of_nat s \<le> i - h" using True assms by (simp add: word_le_nat_alt unat_of_nat)
    moreover have "unat (word_of_nat s :: u64) = s" using assms by (simp add: unat_of_nat)
    ultimately have "unat (i - (h + word_of_nat s)) = unat (i - h) - s" by (simp only: unat_sub)
    then show ?thesis using True assms(1) by linarith
  next
    case False
    define m where "m = unat (i - (h + word_of_nat s))"
    have "m \<ge> Suc e - s"
    proof (rule ccontr)
      assume m: "\<not> m \<ge> Suc e - s"
      have "i = h + word_of_nat (s + m)" by (simp add: m_def algebra_simps)
      then have "unat (i - h) = s + m"
        using m assms by (subst (asm) ring_index) simp_all
      with False show False by simp
    qed
    with False show ?thesis by (simp add: m_def)
  qed
  then show "(ring h xs |` (- (\<lambda>n. h + word_of_nat n) ` (set [0..<s] \<union> set [Suc e..<length xs]))) i
      = ring (h + word_of_nat s) (take (Suc e - s) (drop s xs)) i"
    unfolding sl restrict_map_def Compl_iff mem [OF sub] by (auto simp: ring_def)
qed

lemma ltrim_rep:
  assumes rep: "list_rep E s kc now key xs"
  shows "\<exists>s'. ltrim E kc now key r s = Inr s'
    \<and> list_rep E s' kc now key (case into_index_range r of (start, stop) \<Rightarrow> redis_slice start stop xs)
    \<and> (\<forall>x. \<not> owns kc key x \<longrightarrow> dat E s' x = dat E s x \<and> met E s' x = met E s x)"
proof -
  obtain a b where r: "into_index_range r = (a, b)" by (cases "into_index_range r")
  obtain i j where n: "normalize_range a b (int (length xs)) = (i, j)"
    by (cases "normalize_range a b (int (length xs))")
  note sl = redis_slice_normalize [OF n]
  let ?mk = "meta_key kc ListMeta key"
  from rep show ?thesis
  proof (cases rule: rep_cases)
    case absent
    then show ?thesis using rep by (simp add: ltrim_def r rep_get [OF rep] redis_slice_def)
  next
    case (present m)
    have sz: "sint (lm_size m) = int (length xs)" using sint_small [of "lm_size m"] present by simp
    show ?thesis
    proof (cases "i > j")
      case True
      let ?ops = "clear_prefix_in_batch E PData s (lq kc key) [] @ [BRm PMeta ?mk]"
      have t: "touches (lq kc key) ?mk ?ops" by (simp add: clear_prefix_touches)
      have "ltrim E kc now key r s = Inr (commit E ?ops s)"
        using True present(2,4) n by (simp add: ltrim_def r rep_get [OF rep] sz rm_meta_def)
      moreover have "list_rep E (commit E ?ops s) kc now key []"
        by (rule rep_commit_empty [OF rep refl refl t]) simp
      ultimately show ?thesis
        using True rep_frame [OF t _ refl refl] by (auto simp: r sl)
    next
      case False
      then have bd: "0 \<le> i" "i \<le> j" "j < int (length xs)" using normalize_range_bounds [OF n] by auto
      define s' where "s' = nat i"
      define e' where "e' = nat j"
      have ij: "i = int s'" "j = int e'" "s' \<le> e'" "e' < length xs" using bd by (auto simp: s'_def e'_def)
      let ?h = "lm_head m" and ?ys = "take (Suc e' - s') (drop s' xs)"
      let ?ops = "map (\<lambda>n. BRmWeak PData (lq kc key @ to_be64 (?h + word_of_nat n))) ([0..<s'] @ [Suc e'..<length xs])"
      define nsz where "nsz = (word_of_int (j - i + 1) :: u64)"
      define nhd where "nhd = ?h + word_of_int i"
      let ?m = "(set_lm_size nsz m)\<lparr>lm_head := nhd, lm_tail := nhd + nsz\<rparr>"
      have k: "nat (j - i + 1) = Suc e' - s'" "nat (j + 1) = Suc e'" using ij by simp_all
      have w: "nsz = word_of_nat (Suc e' - s')" "nhd = ?h + word_of_nat s'"
        unfolding nsz_def nhd_def k(1) [symmetric] using ij(1,2,3) by simp_all
      have "ltrim E kc now key r s = Inr (commit_list_batch E (list_meta_key kc key) ?m ?ops s)"
        using False present(2,4) n
        by (simp add: ltrim_def r rep_get [OF rep] sz trim_fold k present(3) Let_def nsz_def nhd_def
            flip: s'_def)
      moreover have "list_span (apply_ops PData ?ops (dat E s)) (lq kc key) ?m ?ys"
      proof -
        have "at_index (apply_ops PData ?ops (dat E s)) (lq kc key) = ring (?h + word_of_nat s') ?ys"
          using present(6) ring_trim [OF ij(3,4) present(7), of ?h]
          unfolding at_index_trim by (simp add: list_span_def)
        moreover have "length ?ys = Suc e' - s'" using ij by simp
        ultimately show ?thesis
          using at_index_trim(2) present(6) unfolding list_span_def by (simp add: w del: of_nat_diff)
      qed
      moreover have "touches (lq kc key) ?mk ?ops" by (auto simp: touches_def)
      moreover have "\<forall>m. apply_ops PMeta ?ops m = m"
        using apply_ops_other(2) [of PMeta PData "map (\<lambda>n. lq kc key @ to_be64 (?h + word_of_nat n)) ns" for ns]
        by (simp add: comp_def)
      moreover have "resizable (lm_base ?m) now" "unat (lm_size ?m) = length ?ys" "length ?ys < 2 ^ 63"
        using present(5,7) ij by (simp_all add: lm_size_def set_lm_size_def w unat_of_nat del: of_nat_diff)
      ultimately show ?thesis
        using commit_list_rep [OF rep, of ?ops ?m ?ys] False by (auto simp: r sl k simp flip: s'_def)
    qed
  qed
qed

end

end
