(* ===== verification/List_More.thy ===== *)
theory List_More
  imports List_Ops
begin

text \<open>
  The rest of \<^verbatim>\<open>embed/src/api/list\<close>: LINSERT and LREM (\<^verbatim>\<open>mutate.rs\<close>), LMOVE, RPOPLPUSH and
  LMPOP (\<^verbatim>\<open>move.rs\<close>), LPOS (\<^verbatim>\<open>pos.rs\<close>). They read the partition as it was before the
  command and queue all their writes in one batch.
\<close>

section \<open>Scanning\<close>

text \<open>What the scanning loops visit, with the offsets they compute: one range scan when the
  indices do not wrap, one lookup per offset otherwise; backwards when \<open>reversed\<close>.\<close>

definition list_scan ::
    "'p engine \<Rightarrow> key_composer \<Rightarrow> 'p wedb \<Rightarrow> bytes \<Rightarrow> u64 \<Rightarrow> u64 \<Rightarrow> nat \<Rightarrow> bool \<Rightarrow> (nat \<times> bytes) list" where
  "list_scan E kc s key actual_start actual_end len reversed =
     (if actual_start \<le> actual_end then
        (let vals = map snd (e_range E (w_data s) (Included (list_item kc key actual_start))
                               (Included (list_item kc key actual_end)))
         in if reversed
            then map (\<lambda>(i, v). (len - 1 - i, v)) (takeWhile (\<lambda>(i, v). i < len) (List.enumerate 0 (rev vals)))
            else List.enumerate 0 vals)
      else List.map_filter
             (\<lambda>offset. map_option (Pair offset)
                (e_get E (w_data s) (key_for_idx kc key (actual_start + word_of_nat offset))))
             (if reversed then rev [0..<len] else [0..<len]))"

section \<open>LINSERT\<close>

text \<open>Queue the move of one element, if it is there.\<close>

definition move_item ::
    "'p engine \<Rightarrow> key_composer \<Rightarrow> 'p wedb \<Rightarrow> bytes \<Rightarrow> u64 \<Rightarrow> u64 \<Rightarrow> batch \<Rightarrow> batch" where
  "move_item E kc s key from_idx to_idx batch =
     (case e_get E (w_data s) (key_for_idx kc key from_idx) of
        None \<Rightarrow> batch
      | Some val \<Rightarrow> insert_data (key_for_idx kc key to_idx) val batch)"

definition linsert ::
    "'p engine \<Rightarrow> key_composer \<Rightarrow> u64 \<Rightarrow> bytes \<Rightarrow> bool \<Rightarrow> bytes \<Rightarrow> bytes \<Rightarrow> 'p wedb \<Rightarrow> error + (int \<times> 'p wedb)" where
  "linsert E kc now_ms key before pivot elem s =
     try_op (get_list_meta E kc s key now_ms)
       (\<lambda>m. case m of
          None \<Rightarrow> Inr (0, s)
        | Some meta \<Rightarrow>
            if lm_size meta = 0 then Inr (0, s)
            else
              let len = unat (lm_size meta);
                  scan = list_scan E kc s key (lm_head meta) (lm_tail meta - 1) len False
              in case find (\<lambda>(_, v). v = pivot) scan of
                   None \<Rightarrow> Inr (-1, s)
                 | Some (pivot_offset, _) \<Rightarrow>
                     let insert_offset = (if before then pivot_offset else pivot_offset + 1);
                         (meta, batch) =
                           (if insert_offset < len div 2 then
                              let new_head = lm_head meta - 1;
                                  batch = foldl (\<lambda>b offset. move_item E kc s key
                                              (lm_head meta + word_of_nat offset) (new_head + word_of_nat offset) b)
                                            [] [0..<insert_offset];
                                  target_idx = new_head + word_of_nat insert_offset
                              in (meta\<lparr>lm_head := new_head\<rparr>, insert_data (key_for_idx kc key target_idx) elem batch)
                            else
                              let new_tail = lm_tail meta + 1;
                                  batch = foldl (\<lambda>b offset. move_item E kc s key
                                              (lm_head meta + word_of_nat offset) (lm_head meta + word_of_nat offset + 1) b)
                                            [] (rev [insert_offset..<len]);
                                  target_idx = lm_head meta + word_of_nat insert_offset
                              in (meta\<lparr>lm_tail := new_tail\<rparr>, insert_data (key_for_idx kc key target_idx) elem batch));
                         meta = set_lm_size (lm_size meta + 1) meta;
                         batch = insert_meta (list_meta_key kc key) (lm_encode meta) batch
                     in Inr (sint (lm_size meta), commit E batch s))"

section \<open>LREM\<close>

definition compact_step ::
    "'p engine \<Rightarrow> key_composer \<Rightarrow> 'p wedb \<Rightarrow> bytes \<Rightarrow> u64 \<Rightarrow> nat list \<Rightarrow> nat \<times> nat \<times> batch \<Rightarrow> nat \<Rightarrow> nat \<times> nat \<times> batch" where
  "compact_step E kc s key head to_delete = (\<lambda>(write_idx, del_idx, batch) read_idx.
     if del_idx < length to_delete \<and> to_delete ! del_idx = read_idx then (write_idx, del_idx + 1, batch)
     else (write_idx + 1, del_idx,
           if write_idx \<noteq> read_idx
           then move_item E kc s key (head + word_of_nat read_idx) (head + word_of_nat write_idx) batch
           else batch))"

definition lrem ::
    "'p engine \<Rightarrow> key_composer \<Rightarrow> u64 \<Rightarrow> bytes \<Rightarrow> int \<Rightarrow> bytes \<Rightarrow> 'p wedb \<Rightarrow> error + (u64 \<times> 'p wedb)" where
  "lrem E kc now_ms key count elem s =
     try_op (get_list_meta E kc s key now_ms)
       (\<lambda>m. case m of
          None \<Rightarrow> Inr (0, s)
        | Some meta \<Rightarrow>
            if lm_size meta = 0 then Inr (0, s)
            else
              let len = unat (lm_size meta);
                  target_del_limit = (if count = 0 then 2 ^ 64 - 1 else nat \<bar>count\<bar>);
                  scan = list_scan E kc s key (lm_head meta) (lm_tail meta - 1) len (count < 0);
                  found = take target_del_limit (map fst (filter (\<lambda>(_, v). v = elem) scan));
                  to_delete = (if count \<ge> 0 then found else rev found)
              in if to_delete = [] then Inr (0, s)
                 else
                   let deleted_count = word_of_nat (length to_delete)
                   in if deleted_count = lm_size meta then
                        Inr (deleted_count,
                          commit E (rm_meta (list_meta_key kc key)
                            (clear_prefix_in_batch E PData s (list_prefix_stack kc key) [])) s)
                      else
                        let first_del = to_delete ! 0;
                            (write_idx, _, batch) =
                              foldl (compact_step E kc s key (lm_head meta) to_delete) (first_del, 1, [])
                                [first_del + 1..<len];
                            batch = foldl (\<lambda>b extra. rm_data (key_for_idx kc key (lm_head meta + word_of_nat extra)) b)
                                      batch [write_idx..<len];
                            meta = set_lm_size (lm_size meta - deleted_count) meta;
                            meta = meta\<lparr>lm_tail := lm_head meta + lm_size meta\<rparr>
                        in Inr (deleted_count, commit_list_batch E (list_meta_key kc key) meta batch s))"

section \<open>LMOVE, RPOPLPUSH, LMPOP\<close>

definition lmove ::
    "'p engine \<Rightarrow> key_composer \<Rightarrow> u64 \<Rightarrow> u64 \<Rightarrow> bytes \<Rightarrow> bytes \<Rightarrow> bool \<Rightarrow> bool \<Rightarrow> 'p wedb
       \<Rightarrow> error + (bytes option \<times> 'p wedb)" where
  "lmove E kc now_ms ts src dst src_left dst_left s =
     try_op (get_list_meta E kc s src now_ms)
       (\<lambda>m. case m of
          None \<Rightarrow> Inr (None, s)
        | Some src_meta \<Rightarrow>
            if lm_size src_meta = 0 then Inr (None, s)
            else
              let curr_idx = (if src_left then lm_head src_meta else lm_tail src_meta - 1)
              in case e_get E (w_data s) (key_for_idx kc src curr_idx) of
                   None \<Rightarrow> Inr (None, s)
                 | Some elem \<Rightarrow>
                     if src = dst then
                       (if src_left = dst_left \<or> lm_size src_meta = 1 then Inr (Some elem, s)
                        else
                          let batch = rm_data (key_for_idx kc src curr_idx) [];
                              (_, src_meta) = pop_index src_left src_meta;
                              (target_idx, src_meta) = push_index dst_left src_meta;
                              batch = insert_data (key_for_idx kc src target_idx) elem batch;
                              batch = insert_meta (list_meta_key kc src) (lm_encode src_meta) batch
                          in Inr (Some elem, commit E batch s))
                     else
                       try_op (prepare_list_meta_for_write E kc now_ms ts dst [] s)
                         (\<lambda>((dst_meta, _), batch, s).
                            let batch = rm_data (key_for_idx kc src curr_idx) batch;
                                src_meta = set_lm_size (lm_size src_meta - 1) src_meta;
                                (_, src_meta) = pop_index src_left src_meta;
                                batch = (if lm_size src_meta = 0 then rm_meta (list_meta_key kc src) batch
                                         else insert_meta (list_meta_key kc src) (lm_encode src_meta) batch);
                                (target_dst_idx, dst_meta) = push_index dst_left dst_meta;
                                dst_meta = set_lm_size (lm_size dst_meta + 1) dst_meta;
                                batch = insert_data (key_for_idx kc dst target_dst_idx) elem batch;
                                batch = insert_meta (list_meta_key kc dst) (lm_encode dst_meta) batch
                            in Inr (Some elem, commit E batch s)))"

definition rpoplpush ::
    "'p engine \<Rightarrow> key_composer \<Rightarrow> u64 \<Rightarrow> u64 \<Rightarrow> bytes \<Rightarrow> bytes \<Rightarrow> 'p wedb \<Rightarrow> error + (bytes option \<times> 'p wedb)" where
  "rpoplpush E kc now_ms ts src dst s = lmove E kc now_ms ts src dst False True s"

fun lmpop_loop ::
    "'p engine \<Rightarrow> key_composer \<Rightarrow> u64 \<Rightarrow> bool \<Rightarrow> nat \<Rightarrow> 'p wedb \<Rightarrow> bytes list
       \<Rightarrow> error + ((bytes \<times> bytes list) option \<times> 'p wedb)" where
  "lmpop_loop E kc now_ms left count s [] = Inr (None, s)"
| "lmpop_loop E kc now_ms left count s (k # ks) =
    try_op (if left then lpop E kc now_ms k count s else rpop E kc now_ms k count s)
      (\<lambda>(popped, s). if popped \<noteq> [] then Inr (Some (k, popped), s) else lmpop_loop E kc now_ms left count s ks)"

definition lmpop ::
    "'p engine \<Rightarrow> key_composer \<Rightarrow> u64 \<Rightarrow> bytes list \<Rightarrow> bool \<Rightarrow> nat \<Rightarrow> 'p wedb
       \<Rightarrow> error + ((bytes \<times> bytes list) option \<times> 'p wedb)" where
  "lmpop E kc now_ms keys left count s =
     (if count = 0 \<or> keys = [] then Inr (None, s) else lmpop_loop E kc now_ms left count s keys)"

section \<open>LPOS\<close>

definition ERR_RANK_ZERO :: string where
  "ERR_RANK_ZERO = ''ERR RANK can't be zero: must be 1, 2, 3, ... or -1, -2, -3...''"

datatype lpos_opt = Rank int | Count nat | MaxLen nat

text \<open>The body shared by the loops: count the match, and stop when enough are reported.\<close>

fun lpos_loop :: "bytes \<Rightarrow> nat \<Rightarrow> nat option \<Rightarrow> nat \<Rightarrow> nat list \<Rightarrow> (nat \<times> bytes) list \<Rightarrow> nat list" where
  "lpos_loop elem target_rank count rank_count matches [] = matches"
| "lpos_loop elem target_rank count rank_count matches ((offset, v) # rest) =
    (if v = elem then
       (if rank_count + 1 \<ge> target_rank then
          (let matches = matches @ [offset];
               count_limit = (case count of Some c \<Rightarrow> (if c = 0 then 2 ^ 64 - 1 else c) | None \<Rightarrow> 1)
           in if (count \<noteq> None \<and> length matches \<ge> count_limit) \<or> count = None then matches
              else lpos_loop elem target_rank count (rank_count + 1) matches rest)
        else lpos_loop elem target_rank count (rank_count + 1) matches rest)
     else lpos_loop elem target_rank count rank_count matches rest)"

definition lpos ::
    "'p engine \<Rightarrow> key_composer \<Rightarrow> 'p wedb \<Rightarrow> u64 \<Rightarrow> bytes \<Rightarrow> bytes \<Rightarrow> lpos_opt list \<Rightarrow> error + nat list" where
  "lpos E kc s now_ms key elem opts =
     (let (rank, count, max_len) =
        foldl (\<lambda>(rank, count, max_len) opt. case opt of
                 Rank r \<Rightarrow> (r, count, max_len)
               | Count c \<Rightarrow> (rank, Some c, max_len)
               | MaxLen m \<Rightarrow> (rank, count, Some m)) (1, None, None) opts
      in if rank = 0 then Inl (InvalidData ERR_RANK_ZERO)
         else
           try_op (get_list_meta E kc s key now_ms)
             (\<lambda>m. case m of
                None \<Rightarrow> Inr []
              | Some meta \<Rightarrow>
                  if lm_size meta = 0 then Inr []
                  else
                    let len = unat (lm_size meta);
                        reversed = rank < 0;
                        target_rank = nat \<bar>rank\<bar>;
                        limit = (case max_len of Some m \<Rightarrow> (if m = 0 then len else min m len) | None \<Rightarrow> len)
                    in if target_rank > limit \<or> target_rank > len then Inr []
                       else
                         let scan = list_scan E kc s key (lm_head meta)
                               (lm_head meta + word_of_nat (len - 1)) len reversed;
                             visited = (if reversed then takeWhile (\<lambda>(offset, _). len - limit \<le> offset) scan
                                        else takeWhile (\<lambda>(offset, _). offset < limit) scan)
                         in Inr (lpos_loop elem target_rank count 0 [] visited)))"

definition lpos_one ::
    "'p engine \<Rightarrow> key_composer \<Rightarrow> 'p wedb \<Rightarrow> u64 \<Rightarrow> bytes \<Rightarrow> bytes \<Rightarrow> lpos_opt list \<Rightarrow> error + nat option" where
  "lpos_one E kc s now_ms key elem opts =
     try_op (lpos E kc s now_ms key elem opts) (\<lambda>res. Inr (case res of [] \<Rightarrow> None | r # _ \<Rightarrow> Some r))"

section \<open>What the scans see\<close>

lemma enumerate_map: "List.enumerate 0 xs = map (\<lambda>i. (i, xs ! i)) [0..<length xs]"
  by (rule nth_equalityI) (simp_all add: nth_enumerate_eq)

lemma map_filter_Some: "(\<And>x. x \<in> set xs \<Longrightarrow> f x = Some (g x)) \<Longrightarrow> List.map_filter f xs = map g xs"
  by (induction xs) (simp_all add: map_filter_simps)

lemma span_tail:
  assumes "list_span d q m xs" and "xs \<noteq> []"
  shows "lm_tail m - 1 = lm_head m + word_of_nat (length xs - 1)"
  using assms by (cases xs) (simp_all add: list_span_def)

context kv_engine
begin

lemma list_scan_span:
  assumes span: "list_span (dat E s) (lq kc key) m xs" and ne: "xs \<noteq> []" and len: "length xs < 2 ^ 63"
    and e: "actual_end = lm_head m + word_of_nat (length xs - 1)"
  shows "list_scan E kc s key (lm_head m) actual_end (length xs) reversed
    = (if reversed then rev (List.enumerate 0 xs) else List.enumerate 0 xs)"
proof (cases "lm_head m \<le> actual_end")
  case True
  have "map snd (e_range E (w_data s) (Included (lq kc key @ to_be64 (lm_head m)))
          (Included (lq kc key @ to_be64 actual_end))) = map (nth xs) [0..<length xs]"
    using range_ring [of "w_data s" "lq kc key" "lm_head m" xs 0 "length xs - 1"] span ne len True
    by (simp add: list_span_def e del: of_nat_diff)
  then have vals: "map snd (e_range E (w_data s) (Included (lq kc key @ to_be64 (lm_head m)))
          (Included (lq kc key @ to_be64 actual_end))) = xs" by (simp add: map_nth)
  have tw: "takeWhile (\<lambda>(i, v). i < length xs) (List.enumerate 0 (rev xs)) = List.enumerate 0 (rev xs)"
    by (rule takeWhile_eq_all_conv [THEN iffD2]) (auto simp: in_set_enumerate_eq)
  have "map (\<lambda>(i, v). (length xs - 1 - i, v)) (List.enumerate 0 (rev xs)) = rev (List.enumerate 0 xs)"
    by (rule nth_equalityI) (auto simp: nth_enumerate_eq rev_nth)
  then show ?thesis
    using True unfolding list_scan_def list_keys vals Let_def tw by simp
next
  case False
  have "map_option (Pair n) (e_get E (w_data s) (key_for_idx kc key (lm_head m + word_of_nat n))) = Some (n, xs ! n)"
    if "n < length xs" for n
    using item_at [OF span that len] by simp
  then have "List.map_filter (\<lambda>n. map_option (Pair n) (e_get E (w_data s) (key_for_idx kc key (lm_head m + word_of_nat n)))) ns
      = map (\<lambda>i. (i, xs ! i)) ns" if "set ns \<subseteq> {..<length xs}" for ns
    using that by (intro map_filter_Some) auto
  moreover have "set [0..<length xs] \<subseteq> {..<length xs}" "set (rev [0..<length xs]) \<subseteq> {..<length xs}" by auto
  ultimately show ?thesis
    using False by (simp add: list_scan_def enumerate_map rev_map del: set_upt set_rev)
qed

end

section \<open>LPOS finds the right positions\<close>

text \<open>The offsets of the matches among those visited, from the requested rank on, at most the
  requested number of them.\<close>

definition lpos_limit :: "nat option \<Rightarrow> nat" where
  "lpos_limit count = (case count of Some c \<Rightarrow> (if c = 0 then 2 ^ 64 - 1 else c) | None \<Rightarrow> 1)"

lemma lpos_loop_spec:
  assumes "length matches < lpos_limit count" and "matches \<noteq> [] \<longrightarrow> target_rank \<le> rank_count + 1"
    and "0 < target_rank"
  shows "lpos_loop elem target_rank count rank_count matches visited
    = matches @ take (lpos_limit count - length matches)
        (drop (target_rank - 1 - rank_count) (map fst (filter (\<lambda>(_, v). v = elem) visited)))"
  using assms
proof (induction elem target_rank count rank_count matches visited rule: lpos_loop.induct)
  case (2 elem target_rank count rank_count matches offset v rest)
  let ?pos = "map fst (filter (\<lambda>(_, v). v = elem) rest)"
  consider "v \<noteq> elem" | "v = elem" "rank_count + 1 < target_rank" | "v = elem" "target_rank \<le> rank_count + 1"
    by linarith
  then show ?case
  proof cases
    case 1
    with 2 show ?thesis by simp
  next
    case c: 2
    have "target_rank - 1 - rank_count = Suc (target_rank - 1 - (rank_count + 1))" using c by simp
    then show ?thesis using "2.IH"(2) c "2.prems" by (simp add: not_le)
  next
    case 3
    have d: "target_rank - 1 - rank_count = 0" "target_rank - 1 - (rank_count + 1) = 0" using 3 by simp_all
    let ?stop = "(count \<noteq> None \<and> length (matches @ [offset]) \<ge> lpos_limit count) \<or> count = None"
    have step: "lpos_loop elem target_rank count rank_count matches ((offset, v) # rest)
        = (if ?stop then matches @ [offset]
           else lpos_loop elem target_rank count (rank_count + 1) (matches @ [offset]) rest)"
      using 3 by (simp add: lpos_limit_def Let_def)
    show ?thesis
    proof (cases ?stop)
      case True
      then have "lpos_limit count - length matches = 1"
        using "2.prems"(1) by (auto simp: lpos_limit_def split: option.splits)
      with True d(1) 3 show ?thesis unfolding step by simp
    next
      case False
      then have "length (matches @ [offset]) < lpos_limit count" by (auto simp: not_le)
      moreover have "lpos_loop elem target_rank count (rank_count + 1) (matches @ [offset]) rest
          = (matches @ [offset]) @ take (lpos_limit count - length (matches @ [offset]))
              (drop (target_rank - 1 - (rank_count + 1)) ?pos)"
        using "2.IH"(1) [OF 3 refl refl] False calculation 3 "2.prems"(3) by (auto simp: lpos_limit_def)
      ultimately show ?thesis
        using False 3 unfolding step d by (auto simp: take_Cons' Suc_diff_Suc)
    qed
  qed
qed simp

text \<open>The options, the last one of each kind counting.\<close>

definition lpos_options :: "lpos_opt list \<Rightarrow> int \<times> nat option \<times> nat option" where
  "lpos_options opts =
     foldl (\<lambda>(rank, count, max_len) opt. case opt of
              Rank r \<Rightarrow> (r, count, max_len)
            | Count c \<Rightarrow> (rank, Some c, max_len)
            | MaxLen m \<Rightarrow> (rank, count, Some m)) (1, None, None) opts"

text \<open>The positions of an element, in the direction of the search, among the first (or last)
  \<open>max_len\<close> ones.\<close>

definition lpos_positions :: "bytes \<Rightarrow> bytes list \<Rightarrow> bool \<Rightarrow> nat option \<Rightarrow> nat list" where
  "lpos_positions elem xs reversed max_len =
     (let limit = (case max_len of Some m \<Rightarrow> (if m = 0 then length xs else min m (length xs)) | None \<Rightarrow> length xs);
          ns = (if reversed then rev [length xs - limit..<length xs] else [0..<limit])
      in filter (\<lambda>i. xs ! i = elem) ns)"

lemma takeWhile_upt: "takeWhile (\<lambda>i. i < m) [0..<n] = [0..<min m n]"
proof (induction n)
  case (Suc n)
  show ?case
  proof (cases "n < m")
    case True
    then have "\<forall>i\<in>set [0..<n]. i < m" by auto
    with True show ?thesis by (simp add: takeWhile_append)
  next
    case False
    with Suc show ?thesis
      by (cases "m < n") (auto simp: takeWhile_append not_less)
  qed
qed simp

lemma takeWhile_rev_upt: "takeWhile (\<lambda>i. k \<le> i) (rev [0..<n]) = rev [k..<n]"
  by (induction n) auto

lemma takeWhile_enumerate:
  "takeWhile (\<lambda>(i, _). i < m) (List.enumerate 0 xs) = map (\<lambda>i. (i, xs ! i)) [0..<min m (length xs)]"
  "takeWhile (\<lambda>(i, _). k \<le> i) (rev (List.enumerate 0 xs)) = map (\<lambda>i. (i, xs ! i)) (rev [k..<length xs])"
  using takeWhile_upt [of m "length xs"] takeWhile_rev_upt [of k "length xs"]
  by (simp_all add: enumerate_map takeWhile_map rev_map comp_def)

context kv_engine
begin

lemma lpos_rep:
  assumes rep: "list_rep E s kc now key xs"
  shows "lpos E kc s now key elem opts =
    (case lpos_options opts of (rank, count, max_len) \<Rightarrow>
       if rank = 0 then Inl (InvalidData ERR_RANK_ZERO)
       else Inr (take (lpos_limit count) (drop (nat \<bar>rank\<bar> - 1) (lpos_positions elem xs (rank < 0) max_len))))"
proof -
  obtain rank count max_len where o: "lpos_options opts = (rank, count, max_len)" by (cases "lpos_options opts") auto
  show ?thesis
  proof (cases "rank = 0")
    case True
    then show ?thesis by (simp add: lpos_def o flip: lpos_options_def)
  next
    case False
    define limit where "limit = (case max_len of Some m \<Rightarrow> (if m = 0 then length xs else min m (length xs)) | None \<Rightarrow> length xs)"
    have l: "limit \<le> length xs" by (auto simp: limit_def split: option.splits)
    have pos: "lpos_positions elem xs reversed max_len
        = filter (\<lambda>i. xs ! i = elem) (if reversed then rev [length xs - limit..<length xs] else [0..<limit])" for reversed
      by (simp add: lpos_positions_def limit_def)
    have few: "length (lpos_positions elem xs reversed max_len) \<le> limit" for reversed
      unfolding pos using length_filter_le [of _ "if reversed then rev [length xs - limit..<length xs] else [0..<limit]"] l
      by (cases reversed) (auto intro: order_trans)
    from rep show ?thesis
    proof (cases rule: rep_cases)
      case absent
      then show ?thesis
        using False few [of "rank < 0"] l
        by (simp add: lpos_def o rep_get [OF rep] flip: lpos_options_def)
    next
      case (present m)
      show ?thesis
      proof (cases "nat \<bar>rank\<bar> > limit")
        case True
        then have "drop (nat \<bar>rank\<bar> - 1) (lpos_positions elem xs (rank < 0) max_len) = []"
          using few [of "rank < 0"] by simp
        then show ?thesis
          using True False present(2,3,4)
          by (simp add: lpos_def o rep_get [OF rep] Let_def flip: lpos_options_def limit_def)
      next
        case ok: False
        let ?visited = "if rank < 0
          then takeWhile (\<lambda>(offset, _). length xs - limit \<le> offset) (rev (List.enumerate 0 xs))
          else takeWhile (\<lambda>(offset, _). offset < limit) (List.enumerate 0 xs)"
        have v: "map fst (filter (\<lambda>(_, v). v = elem) ?visited) = lpos_positions elem xs (rank < 0) max_len"
          using l by (simp add: takeWhile_enumerate pos filter_map comp_def min_absorb1)
        have "lpos E kc s now key elem opts = Inr (lpos_loop elem (nat \<bar>rank\<bar>) count 0 [] ?visited)"
          using ok False present(2,3,4) l list_scan_span [OF present(6,1,7) refl, of "rank < 0"]
          by (simp add: lpos_def o rep_get [OF rep] Let_def flip: lpos_options_def limit_def)
        also have "\<dots> = Inr (take (lpos_limit count) (drop (nat \<bar>rank\<bar> - 1) (map fst (filter (\<lambda>(_, v). v = elem) ?visited))))"
          using lpos_loop_spec [of "[]" count "nat \<bar>rank\<bar>" 0 elem ?visited] False
          by (simp add: lpos_limit_def split: option.splits)
        finally show ?thesis unfolding v o using False by simp
      qed
    qed
  qed
qed

end

section \<open>LREM\<close>

text \<open>Removing the first occurrences, and what the offsets found mean.\<close>

fun remove_n :: "nat \<Rightarrow> 'a \<Rightarrow> 'a list \<Rightarrow> 'a list" where
  "remove_n n e [] = []"
| "remove_n n e (x # xs) =
    (if x = e then (case n of 0 \<Rightarrow> x # xs | Suc n \<Rightarrow> remove_n n e xs) else x # remove_n n e xs)"

definition redis_lrem :: "int \<Rightarrow> 'a \<Rightarrow> 'a list \<Rightarrow> 'a list" where
  "redis_lrem count e xs =
     (if count = 0 then removeAll e xs
      else if count > 0 then remove_n (nat count) e xs
      else rev (remove_n (nat (- count)) e (rev xs)))"

definition offsets :: "'a \<Rightarrow> nat \<Rightarrow> 'a list \<Rightarrow> nat list" where
  "offsets e k xs = map fst (filter (\<lambda>(_, v). v = e) (List.enumerate k xs))"

lemma offsets_simps [simp]:
  "offsets e k [] = []" "offsets e k (x # xs) = (if x = e then [k] else []) @ offsets e (Suc k) xs"
  by (simp_all add: offsets_def)

lemma offsets_snoc: "offsets e k (xs @ [x]) = offsets e k xs @ (if x = e then [k + length xs] else [])"
  by (simp add: offsets_def enumerate_append_eq)

lemma offsets_filter: "offsets e 0 xs = filter (\<lambda>i. xs ! i = e) [0..<length xs]"
  by (simp add: offsets_def enumerate_map filter_map comp_def)

lemma offsets_ge: "i \<in> set (offsets e k xs) \<Longrightarrow> k \<le> i"
  by (induction xs arbitrary: k) (auto split: if_splits dest: Suc_leD)

lemma nths_offsets: "nths xs {i. i + k \<notin> set (take n (offsets e k xs))} = remove_n n e xs"
proof (induction xs arbitrary: n k)
  case (Cons x xs)
  have ge: "Suc k \<le> i" if "i \<in> set (take n (offsets e (Suc k) xs))" for i n
    using offsets_ge [of i e "Suc k" xs] in_set_takeD [OF that] by simp
  show ?case
  proof (cases "x = e")
    case False
    have "k \<notin> set (take n (offsets e (Suc k) xs))" using ge by fastforce
    with False Cons.IH [of "Suc k" n] show ?thesis by (simp add: nths_Cons)
  next
    case True
    show ?thesis
    proof (cases n)
      case 0
      then show ?thesis using True by (simp add: nths_all)
    next
      case (Suc m)
      have "{i. Suc i + k \<notin> set (take n (offsets e k (x # xs)))} = {i. i + Suc k \<notin> set (take m (offsets e (Suc k) xs))}"
        using True Suc by auto
      then show ?thesis
        using True Suc Cons.IH [of "Suc k" m] by (simp add: nths_Cons)
    qed
  qed
qed simp

lemma remove_n_all: "length xs \<le> n \<Longrightarrow> remove_n n e xs = removeAll e xs"
proof (induction xs arbitrary: n)
  case (Cons x xs)
  then show ?case by (cases n) auto
qed simp

lemma remove_n_beyond: "length (offsets e k xs) \<le> n \<Longrightarrow> remove_n n e xs = removeAll e xs"
proof (induction xs arbitrary: n k)
  case (Cons x xs)
  then show ?case by (cases n) (auto split: if_splits)
qed simp

lemma nths_offsets_rev:
  "nths xs {i. i \<notin> set (take n (rev (offsets e 0 xs)))} = rev (remove_n n e (rev xs))"
proof (induction xs arbitrary: n rule: rev_induct)
  case (snoc x xs)
  have lt: "i < length xs" if "i \<in> set (take n (rev (offsets e 0 xs)))" for i n
    using in_set_takeD [OF that] by (auto simp: offsets_filter)
  have app: "nths (xs @ [y]) A = nths xs A @ (if length xs \<in> A then [y] else [])" for A y
    by (simp add: nths_append)
  show ?case
  proof (cases "x = e")
    case False
    have "length xs \<notin> set (take n (rev (offsets e 0 xs)))" using lt by blast
    with False snoc show ?thesis by (simp add: offsets_snoc app)
  next
    case True
    show ?thesis
    proof (cases n)
      case 0
      then show ?thesis using True by (simp add: nths_all)
    next
      case (Suc m)
      have "nths xs {i. i \<noteq> length xs \<and> i \<notin> set (take m (rev (offsets e 0 xs)))}
          = nths xs {i. i \<notin> set (take m (rev (offsets e 0 xs)))}"
        unfolding nths_def by (intro arg_cong [of _ _ "map fst"] filter_cong) (auto simp: set_zip)
      with True Suc snoc [of m] show ?thesis by (simp add: offsets_snoc app)
    qed
  qed
qed simp

end
