(* ===== verification/List_Edit.thy ===== *)
theory List_Edit
  imports List_More
begin

text \<open>
  LREM, LINSERT and LMOVE against the list a key stands for. All three read the items as they
  were and queue item moves; the lemmas first say what a batch of queued moves does to the ring of
  items, then what each command does.
\<close>

section \<open>Queued item writes\<close>

text \<open>Writes at offsets \<open>ns\<close> from \<open>b\<close>: what they leave, whatever their order, when the values
  depend on the offset only.\<close>

definition writes :: "bytes \<Rightarrow> u64 \<Rightarrow> (nat \<Rightarrow> bytes) \<Rightarrow> nat list \<Rightarrow> batch" where
  "writes q b f ns = map (\<lambda>n. BInsert PData (q @ to_be64 (b + word_of_nat n)) (f n)) ns"

lemma writes_view:
  assumes "\<forall>n\<in>set ns. n < 2 ^ 64"
  shows "at_index (apply_ops PData (writes q b f ns) d) q i
    = (if unat (i - b) \<in> set ns then Some (f (unat (i - b))) else at_index d q i)"
  using assms
proof (induction ns arbitrary: d)
  case (Cons n ns)
  have "at_index (apply_ops PData (writes q b f (n # ns)) d) q i
      = at_index (apply_ops PData (writes q b f ns) (d(q @ to_be64 (b + word_of_nat n) \<mapsto> f n))) q i"
    by (simp add: writes_def)
  also have "\<dots> = (if unat (i - b) \<in> set ns then Some (f (unat (i - b)))
      else ((at_index d q)(b + word_of_nat n \<mapsto> f n)) i)"
    using Cons by simp
  also have "\<dots> = (if unat (i - b) \<in> set (n # ns) then Some (f (unat (i - b))) else at_index d q i)"
    using ring_index [of n i b] Cons.prems by auto
  finally show ?case .
qed (simp add: writes_def)

lemma writes_touches [simp]: "touches q mk (writes q b f ns)"
  by (auto simp: touches_def writes_def)

lemma writes_meta [simp]: "apply_ops PMeta (writes q b f ns) m = m"
  by (induction ns arbitrary: m) (simp_all add: writes_def)

lemma writes_only:
  "only_indices d q \<Longrightarrow> only_indices (apply_ops PData (writes q b f ns) d) q"
  by (induction ns arbitrary: d) (simp_all add: writes_def del: fun_upd_apply)

text \<open>Making room in front of an offset, by moving the items before it down or those after it
  up, and filling it.\<close>

lemma ring_insert_front:
  assumes "k \<le> length xs" and "length xs < 2 ^ 63" and "only_indices d q" and "at_index d q = ring h xs"
  shows "at_index ((apply_ops PData (writes q (h - 1) (nth xs) [0..<k]) d)(q @ to_be64 (h - 1 + word_of_nat k) \<mapsto> v)) q
    = ring (h - 1) (take k xs @ v # drop k xs)"
proof
  fix i
  define j where "j = unat (i - (h - 1))"
  have old: "unat (i - h) = j - 1" if "j > 0"
  proof -
    have "i - (h - 1) \<noteq> 0" using that unfolding j_def by (metis less_numeral_extra(3) unat_0)
    then have "unat (i - (h - 1) - 1) = unat (i - (h - 1)) - 1" by (rule unat_minus_one)
    then show ?thesis by (simp add: j_def)
  qed
  have at: "i = h - 1 + word_of_nat k \<longleftrightarrow> j = k"
    unfolding j_def using assms(1,2) by (intro ring_index) simp
  have "at_index ((apply_ops PData (writes q (h - 1) (nth xs) [0..<k]) d)(q @ to_be64 (h - 1 + word_of_nat k) \<mapsto> v)) q i
      = (if j = k then Some v else if j < k then Some (xs ! j) else ring h xs i)"
    using at assms writes_view [of "[0..<k]" q "h - 1" "nth xs" d i] by (simp add: j_def)
  also have "\<dots> = ring (h - 1) (take k xs @ v # drop k xs) i"
  proof -
    consider "j < k" | "j = k" | "k < j" by linarith
    then show ?thesis
    proof cases
      case 3
      then obtain j' where j': "j = Suc j'" by (cases j) auto
      with 3 old have "unat (i - h) = j'" by simp
      with 3 j' assms(1) show ?thesis
        by (simp add: ring_def flip: j_def) (auto simp: nth_append nth_Cons' Suc_diff_le)
    qed (use assms(1) in \<open>simp_all add: ring_def nth_append flip: j_def\<close>)
  qed
  finally show "at_index ((apply_ops PData (writes q (h - 1) (nth xs) [0..<k]) d)
      (q @ to_be64 (h - 1 + word_of_nat k) \<mapsto> v)) q i = ring (h - 1) (take k xs @ v # drop k xs) i" .
qed

lemma ring_insert_back:
  assumes "k \<le> length xs" and "length xs < 2 ^ 63" and "only_indices d q" and "at_index d q = ring h xs"
  shows "at_index ((apply_ops PData (writes q (h + 1) (nth xs) (rev [k..<length xs])) d)(q @ to_be64 (h + word_of_nat k) \<mapsto> v)) q
    = ring h (take k xs @ v # drop k xs)"
proof
  fix i
  define j where "j = unat (i - h)"
  have new: "unat (i - (h + 1)) = (if j = 0 then 2 ^ 64 - 1 else j - 1)"
  proof (cases "i = h")
    case True
    then show ?thesis by (simp add: j_def unat_minus_1_u64)
  next
    case False
    then have "i - h \<noteq> 0" by simp
    then have "unat (i - h - 1) = unat (i - h) - 1" by (rule unat_minus_one)
    moreover have "j \<noteq> 0" using False unat_zero [of "i - h"] by (simp add: j_def)
    ultimately show ?thesis by (simp add: j_def algebra_simps)
  qed
  have at: "i = h + word_of_nat k \<longleftrightarrow> j = k"
    unfolding j_def using assms(1,2) by (intro ring_index) simp
  have "at_index ((apply_ops PData (writes q (h + 1) (nth xs) (rev [k..<length xs])) d)(q @ to_be64 (h + word_of_nat k) \<mapsto> v)) q i
      = (if j = k then Some v else if 0 < j \<and> k \<le> j - 1 \<and> j - 1 < length xs then Some (xs ! (j - 1)) else ring h xs i)"
    using at assms writes_view [of "rev [k..<length xs]" q "h + 1" "nth xs" d i] new by simp
  also have "\<dots> = ring h (take k xs @ v # drop k xs) i"
  proof -
    consider "j < k" | "j = k" | "k < j" by linarith
    then show ?thesis
    proof cases
      case 3
      then obtain j' where j': "j = Suc j'" by (cases j) auto
      with 3 assms(1) show ?thesis
        by (simp add: ring_def flip: j_def) (auto simp: nth_append nth_Cons' Suc_diff_le)
    qed (use assms(1) in \<open>auto simp: ring_def nth_append simp flip: j_def\<close>)
  qed
  finally show "at_index ((apply_ops PData (writes q (h + 1) (nth xs) (rev [k..<length xs])) d)
      (q @ to_be64 (h + word_of_nat k) \<mapsto> v)) q i = ring h (take k xs @ v # drop k xs) i" .
qed

section \<open>LINSERT\<close>

fun redis_linsert :: "bool \<Rightarrow> 'a \<Rightarrow> 'a \<Rightarrow> 'a list \<Rightarrow> 'a list" where
  "redis_linsert before pivot v [] = []"
| "redis_linsert before pivot v (x # xs) =
    (if x = pivot then (if before then v # x # xs else x # v # xs) else x # redis_linsert before pivot v xs)"

lemma linsert_absent: "pivot \<notin> set xs \<Longrightarrow> redis_linsert before pivot v xs = xs"
  by (induction xs) auto

lemma find_pivot:
  "find (\<lambda>(_, v). v = pivot) (List.enumerate n xs) =
     (if pivot \<in> set xs then Some (n + length (takeWhile (\<lambda>x. x \<noteq> pivot) xs), pivot) else None)"
  by (induction xs arbitrary: n) auto

lemma pivot_offset: "pivot \<in> set xs \<Longrightarrow> length (takeWhile (\<lambda>x. x \<noteq> pivot) xs) < length xs"
  by (induction xs) auto

lemma linsert_at:
  assumes "pivot \<in> set xs"
  shows "redis_linsert before pivot v xs =
    (let p = length (takeWhile (\<lambda>x. x \<noteq> pivot) xs); k = (if before then p else p + 1)
     in take k xs @ v # drop k xs)"
  using assms by (induction xs) (auto simp: Let_def)

context kv_engine
begin

lemma move_fold:
  assumes span: "list_span (dat E s) (lq kc key) m xs" and len: "length xs < 2 ^ 63"
    and ns: "\<forall>n\<in>set ns. n < length xs"
  shows "foldl (\<lambda>b n. move_item E kc s key (lm_head m + word_of_nat n) (g n) b) batch ns
    = batch @ map (\<lambda>n. BInsert PData (lq kc key @ to_be64 (g n)) (xs ! n)) ns"
  using ns
proof (induction ns arbitrary: batch)
  case (Cons n ns)
  then show ?case
    using item_at [OF span _ len, of n] by (simp add: move_item_def insert_data_def)
qed simp

lemma linsert_rep:
  assumes rep: "list_rep E s kc now key xs" and len: "length xs + 1 < 2 ^ 63"
  shows "\<exists>s'. linsert E kc now key before pivot v s
      = Inr (if xs = [] then 0 else if pivot \<in> set xs then int (length xs + 1) else -1, s')
    \<and> list_rep E s' kc now key (redis_linsert before pivot v xs)
    \<and> (\<forall>x. \<not> owns kc key x \<longrightarrow> dat E s' x = dat E s x \<and> met E s' x = met E s x)"
  using rep
proof (cases rule: rep_cases)
  case absent
  then show ?thesis using rep by (simp add: linsert_def rep_get [OF rep])
next
  case (present m)
  note scan = list_scan_span [OF present(6,1,7) span_tail [OF present(6,1)], of False]
  show ?thesis
  proof (cases "pivot \<in> set xs")
    case False
    then show ?thesis
      using rep present(1,2,3,4) scan
      by (simp add: linsert_def rep_get [OF rep] Let_def find_pivot linsert_absent)
  next
    case True
    define p where "p = length (takeWhile (\<lambda>x. x \<noteq> pivot) xs)"
    define k where "k = (if before then p else p + 1)"
    define front where "front \<longleftrightarrow> k < length xs div 2"
    let ?q = "lq kc key" and ?mk = "meta_key kc ListMeta key" and ?h = "lm_head m"
    let ?ys = "take k xs @ v # drop k xs"
    have p: "p < length xs" using pivot_offset [OF True] by (simp add: p_def)
    then have k: "k \<le> length xs" by (simp add: k_def)
    define ops where "ops = (if front
        then writes ?q (?h - 1) (nth xs) [0..<k] @ [BInsert PData (?q @ to_be64 (?h - 1 + word_of_nat k)) v]
        else writes ?q (?h + 1) (nth xs) (rev [k..<length xs]) @ [BInsert PData (?q @ to_be64 (?h + word_of_nat k)) v])"
    define m1 where "m1 = (if front then m\<lparr>lm_head := ?h - 1\<rparr> else m\<lparr>lm_tail := lm_tail m + 1\<rparr>)"
    define m' where "m' = set_lm_size (lm_size m + 1) m1"
    have down: "foldl (\<lambda>b n. move_item E kc s key (?h + word_of_nat n) (?h - 1 + word_of_nat n) b) [] [0..<k]
        = writes ?q (?h - 1) (nth xs) [0..<k]"
      using move_fold [OF present(6,7), of "[0..<k]" "\<lambda>n. ?h - 1 + word_of_nat n" "[]"] k by (simp add: writes_def)
    have up: "foldl (\<lambda>b n. move_item E kc s key (?h + word_of_nat n) (?h + word_of_nat n + 1) b) [] (rev [k..<length xs])
        = writes ?q (?h + 1) (nth xs) (rev [k..<length xs])"
      using move_fold [OF present(6,7), of "rev [k..<length xs]" "\<lambda>n. ?h + word_of_nat n + 1" "[]"]
      by (simp add: writes_def algebra_simps)
    have sz: "lm_size (m\<lparr>lm_head := i\<rparr>) = lm_size m" "lm_size (m\<lparr>lm_tail := i\<rparr>) = lm_size m" for i
      by (simp_all add: lm_size_def)
    have size: "unat (lm_size m') = length xs + 1"
      using present(3) len by (simp add: m'_def unat_word_ariths)
    have run: "linsert E kc now key before pivot v s
        = Inr (sint (lm_size m'), commit E (ops @ [BInsert PMeta ?mk (lm_encode m')]) s)"
      using present(2,3,4) scan True down up sz
      by (simp add: linsert_def rep_get [OF rep] Let_def find_pivot insert_data_def insert_meta_def
          ops_def m'_def m1_def flip: p_def k_def front_def)
    have l: "word_of_nat (min (length xs) k) + word_of_nat (length xs - k) = (word_of_nat (length xs) :: u64)"
      using k by (simp flip: of_nat_add)
    have span: "list_span (apply_ops PData ops (dat E s)) ?q m' ?ys"
      using l present(6) ring_insert_front [OF k present(7), of "dat E s" ?q ?h v]
        ring_insert_back [OF k present(7), of "dat E s" ?q ?h v]
      by (simp add: list_span_def m'_def m1_def ops_def writes_only del: at_index_update fun_upd_apply)
    have t: "touches ?q ?mk (ops @ [BInsert PMeta ?mk (lm_encode m')])" by (simp add: ops_def)
    have "list_rep E (commit E (ops @ [BInsert PMeta ?mk (lm_encode m')]) s) kc now key ?ys"
      using rep_commit [OF rep refl refl t, of m' ?ys] span size present(5) len k by (simp add: m'_def m1_def)
    moreover have "?ys = redis_linsert before pivot v xs"
      using linsert_at [OF True, of before v] by (simp add: Let_def k_def flip: p_def)
    moreover have "sint (lm_size m') = int (length xs + 1)"
      using sint_small [of "lm_size m'"] size len by simp
    ultimately show ?thesis
      using run rep_frame [OF t _ refl refl] True present(1) by auto
  qed
qed

end

section \<open>LREM\<close>

text \<open>The compaction keeps, in front of its write position, the survivors among the items it has
  read; behind it, everything is as it was.\<close>

lemma length_filter_Suc:
  assumes "sorted_wrt (<) ds"
  shows "length (filter (\<lambda>d. d < Suc r) ds) = length (filter (\<lambda>d. d < r) ds) + (if r \<in> set ds then 1 else 0)"
  using assms by (induction ds) (auto simp: less_Suc_eq filter_empty_conv)

lemma nth_count_less:
  assumes "sorted_wrt (<) ds"
  shows "length (filter (\<lambda>d. d < r) ds) < length ds \<and> ds ! length (filter (\<lambda>d. d < r) ds) = r \<longleftrightarrow> (r :: nat) \<in> set ds"
  using assms
proof (induction ds)
  case (Cons d ds)
  show ?case
  proof (cases "d < r")
    case False
    then have "filter (\<lambda>d. d < r) ds = []" using Cons.prems by (auto simp: filter_empty_conv)
    then show ?thesis using False Cons.prems by auto
  qed (use Cons in auto)
qed simp

lemma nths_take_Suc:
  assumes "r < length xs"
  shows "nths (take (Suc r) xs) A = nths (take r xs) A @ (if r \<in> A then [xs ! r] else [])"
  using assms by (simp add: take_Suc_conv_app_nth nths_append)

lemma length_nths_take_le: "length (nths (take r xs) A) \<le> r"
  using length_nths [of "take r xs" A] card_mono [of "{..<r}" "{i. i < length (take r xs) \<and> i \<in> A}"] by auto

definition moved :: "bytes \<Rightarrow> u64 \<Rightarrow> batch \<Rightarrow> bool" where
  "moved q h ops \<longleftrightarrow> (\<exists>ps. ops = map (\<lambda>(n, v). BInsert PData (q @ to_be64 (h + word_of_nat n)) v) ps)"

lemma moved_simps:
  "moved q h []"
  "moved q h ops \<Longrightarrow> moved q h (ops @ [BInsert PData (q @ to_be64 (h + word_of_nat n)) v])"
  unfolding moved_def by simp (metis (no_types, lifting) list.simps(8,9) map_append old.prod.case)

lemma movedD:
  assumes "moved q h ops"
  shows "touches q mk ops" and "apply_ops PMeta ops m = m"
    and "only_indices d q \<Longrightarrow> only_indices (apply_ops PData ops d) q"
proof -
  obtain ps where ps: "ops = map (\<lambda>(n, v). BInsert PData (q @ to_be64 (h + word_of_nat n)) v) ps"
    using assms by (auto simp: moved_def)
  show "touches q mk ops" by (auto simp: ps touches_def)
  show "apply_ops PMeta ops m = m" unfolding ps by (induction ps) auto
  show "only_indices (apply_ops PData ops d) q" if "only_indices d q"
    using that unfolding ps by (induction ps arbitrary: d) (auto simp del: fun_upd_apply)
qed

context kv_engine
begin

lemma compact_fold:
  assumes span: "list_span (dat E s) (lq kc key) m xs" and len: "length xs < 2 ^ 63"
    and ds: "sorted_wrt (<) ds" "f \<in> set ds" "\<forall>d\<in>set ds. f \<le> d" and r: "f < r" "r \<le> length xs"
  defines "kept \<equiv> nths (take r xs) (- set ds)"
  shows "\<exists>ops. foldl (compact_step E kc s key (lm_head m) ds) (f, 1, []) [f + 1..<r]
        = (length kept, length (filter (\<lambda>d. d < r) ds), ops)
    \<and> at_index (apply_ops PData ops (dat E s)) (lq kc key) = ring (lm_head m) (kept @ drop (length kept) xs)
    \<and> moved (lq kc key) (lm_head m) ops"
  unfolding kept_def using r
proof (induction r)
  case (Suc r)
  show ?case
  proof (cases "r = f")
    case True
    have "nths (take f xs) (- set ds) = take f xs"
      using ds(3) by (auto intro!: nths_all simp: not_le dest: leD)
    moreover have "filter (\<lambda>d. d < f) ds = []" using ds(3) by (auto simp: filter_empty_conv dest: leD)
    ultimately show ?thesis
      using True ds(2) Suc.prems(2) span length_filter_Suc [OF ds(1), of f]
      by (intro exI [of _ "[]"]) (simp add: nths_take_Suc list_span_def moved_simps(1) min_def)
  next
    case False
    then have r: "f < r" "r < length xs" using Suc.prems by simp_all
    define ys where "ys = nths (take r xs) (- set ds)"
    define w where "w = length ys"
    define i where "i = length (filter (\<lambda>d. d < r) ds)"
    from Suc.IH r obtain ops where IH:
      "foldl (compact_step E kc s key (lm_head m) ds) (f, 1, []) [f + 1..<r] = (w, i, ops)"
      "at_index (apply_ops PData ops (dat E s)) (lq kc key) = ring (lm_head m) (ys @ drop w xs)"
      "moved (lq kc key) (lm_head m) ops"
      unfolding ys_def w_def i_def by auto
    have w: "w \<le> r" unfolding w_def ys_def by (rule length_nths_take_le)
    have upt: "[f + 1..<Suc r] = [f + 1..<r] @ [r]" using r by simp
    have del: "i < length ds \<and> ds ! i = r \<longleftrightarrow> r \<in> set ds"
      unfolding i_def by (rule nth_count_less [OF ds(1)])
    show ?thesis
    proof (cases "r \<in> set ds")
      case True
      then have "compact_step E kc s key (lm_head m) ds (w, i, ops) r = (w, i + 1, ops)"
        using del by (simp add: compact_step_def)
      then show ?thesis
        using IH True r length_filter_Suc [OF ds(1), of r] unfolding upt
        by (intro exI [of _ ops]) (simp add: nths_take_Suc flip: i_def ys_def w_def)
    next
      case keep: False
      define ops' where "ops' = (if w = r then ops
        else ops @ [BInsert PData (lq kc key @ to_be64 (lm_head m + word_of_nat w)) (xs ! r)])"
      have st: "compact_step E kc s key (lm_head m) ds (w, i, ops) r = (w + 1, i, ops')"
        using del keep item_at [OF span r(2) len]
        by (simp add: compact_step_def ops'_def move_item_def insert_data_def)
      have dr: "drop w xs = xs ! w # drop (Suc w) xs" using w r by (simp add: Cons_nth_drop_Suc)
      have "at_index (apply_ops PData ops' (dat E s)) (lq kc key)
          = ring (lm_head m) ((ys @ [xs ! r]) @ drop (Suc w) xs)"
      proof (cases "w = r")
        case True
        then show ?thesis using IH(2) dr by (simp add: ops'_def)
      next
        case False
        have l: "length (ys @ drop w xs) = length xs" using w r by (simp flip: w_def)
        have "(ys @ drop w xs)[w := xs ! r] = (ys @ [xs ! r]) @ drop (Suc w) xs"
          unfolding dr by (simp add: w_def list_update_append)
        then have "ring (lm_head m) ((ys @ [xs ! r]) @ drop (Suc w) xs)
            = (ring (lm_head m) (ys @ drop w xs))(lm_head m + word_of_nat w \<mapsto> xs ! r)"
          using ring_update [of w "ys @ drop w xs" "lm_head m" "xs ! r"] l w r len by simp
        with False IH(2) show ?thesis by (simp add: ops'_def del: fun_upd_apply)
      qed
      moreover have "moved (lq kc key) (lm_head m) ops'" using IH(3) by (simp add: ops'_def moved_simps)
      ultimately show ?thesis
        using IH(1) st keep r length_filter_Suc [OF ds(1), of r] unfolding upt
        by (intro exI [of _ ops']) (simp add: nths_take_Suc flip: i_def ys_def w_def)
    qed
  qed
qed simp

end

text \<open>The offsets LREM collects, put in ascending order, and what is left without them.\<close>

definition lrem_offsets :: "int \<Rightarrow> 'a \<Rightarrow> 'a list \<Rightarrow> nat list" where
  "lrem_offsets count e xs =
     (let all = offsets e 0 xs; limit = (if count = 0 then 2 ^ 64 - 1 else nat \<bar>count\<bar>)
      in if count < 0 then rev (take limit (rev all)) else take limit all)"

lemma offsets_sorted: "sorted_wrt (<) (offsets e 0 xs)"
  unfolding offsets_filter by (intro sorted_wrt_filter sorted_wrt_upt)

lemma lrem_offsets_props:
  "sorted_wrt (<) (lrem_offsets count e xs)" "set (lrem_offsets count e xs) \<subseteq> {..<length xs}"
proof -
  have t: "\<exists>k. lrem_offsets count e xs = take k (offsets e 0 xs) \<or> lrem_offsets count e xs = drop k (offsets e 0 xs)"
    unfolding lrem_offsets_def Let_def by (auto simp: take_rev)
  then show "sorted_wrt (<) (lrem_offsets count e xs)"
    using offsets_sorted [of e xs] by (auto simp: sorted_wrt_take sorted_wrt_drop)
  have "set (offsets e 0 xs) \<subseteq> {..<length xs}" by (auto simp: offsets_filter)
  with t show "set (lrem_offsets count e xs) \<subseteq> {..<length xs}"
    by (auto dest!: in_set_takeD in_set_dropD)
qed

lemma length_offsets_le: "length (offsets e k xs) \<le> length xs"
  unfolding offsets_def by (simp add: order_trans [OF length_filter_le])

lemma lrem_offsets_nths:
  assumes "length xs < 2 ^ 63"
  shows "nths xs (- set (lrem_offsets count e xs)) = redis_lrem count e xs"
proof -
  have c: "- A = {i. i + 0 \<notin> A}" "- A = {i. i \<notin> A}" for A :: "nat set" by auto
  have l: "length (offsets e 0 xs) \<le> 2 ^ 64 - 1" using length_offsets_le [of e 0 xs] assms by simp
  consider "count = 0" | "count > 0" | "count < 0" by linarith
  then show ?thesis
  proof cases
    case 1
    have "remove_n (2 ^ 64 - 1) e xs = removeAll e xs" by (rule remove_n_beyond [OF l])
    then show ?thesis
      using 1 nths_offsets [of xs 0 "2 ^ 64 - 1" e] unfolding c(1)
      by (simp add: lrem_offsets_def redis_lrem_def)
  next
    case 2
    then show ?thesis
      using nths_offsets [of xs 0 "nat count" e] unfolding c(1)
      by (simp add: lrem_offsets_def redis_lrem_def)
  next
    case 3
    then show ?thesis
      using nths_offsets_rev [of xs "nat (- count)" e] unfolding c(2)
      by (simp add: lrem_offsets_def redis_lrem_def)
  qed
qed

lemma lrem_found:
  assumes "length xs < 2 ^ 63"
  shows "(let found = take (if count = 0 then 2 ^ 64 - 1 else nat \<bar>count\<bar>)
            (map fst (filter (\<lambda>(_, v). v = e) (if count < 0 then rev (List.enumerate 0 xs) else List.enumerate 0 xs)))
          in if count \<ge> 0 then found else rev found) = lrem_offsets count e xs"
  by (simp add: lrem_offsets_def Let_def offsets_def rev_map rev_filter not_le)

lemma length_nths_compl:
  assumes "sorted_wrt (<) ds" and "set ds \<subseteq> {..<length xs}"
  shows "length (nths xs (- set ds)) = length xs - length ds"
proof -
  have "{i. i < length xs \<and> i \<in> - set ds} = {..<length xs} - set ds" by auto
  then have "length (nths xs (- set ds)) = card ({..<length xs} - set ds)" by (simp add: length_nths)
  also have "\<dots> = length xs - card (set ds)" using assms(2) by (subst card_Diff_subset) auto
  also have "card (set ds) = length ds" using assms(1) by (simp add: distinct_card strict_sorted_iff)
  finally show ?thesis .
qed

text \<open>The slots behind the survivors are removed one by one.\<close>

definition drops :: "bytes \<Rightarrow> u64 \<Rightarrow> nat list \<Rightarrow> batch" where
  "drops q h ns = map (\<lambda>n. BRm PData (q @ to_be64 (h + word_of_nat n))) ns"

lemma drops_fold:
  "foldl (\<lambda>b n. rm_data (q @ to_be64 (h + word_of_nat n)) b) batch ns = batch @ drops q h ns"
  by (induction ns arbitrary: batch) (simp_all add: rm_data_def drops_def)

lemma drops_view:
  "at_index (apply_ops PData (drops q h ns) d) q = at_index d q |` (- (\<lambda>n. h + word_of_nat n) ` set ns)"
proof (induction ns arbitrary: d)
  case (Cons n ns)
  have "at_index d q |` (- (\<lambda>n. h + word_of_nat n) ` set (n # ns))
      = (at_index d q)(h + word_of_nat n := None) |` (- (\<lambda>n. h + word_of_nat n) ` set ns)"
    by (auto simp: restrict_map_def fun_eq_iff)
  then show ?case using Cons [of "d(q @ to_be64 (h + word_of_nat n) := None)"]
    by (simp add: drops_def del: fun_upd_apply)
qed (auto simp: drops_def restrict_map_def fun_eq_iff)

lemma drops_only: "only_indices d q \<Longrightarrow> only_indices (apply_ops PData (drops q h ns) d) q"
  by (induction ns arbitrary: d) (simp_all add: drops_def del: fun_upd_apply)

lemma drops_other [simp]: "apply_ops PMeta (drops q h ns) m = m" "touches q mk (drops q h ns)"
  by (induction ns arbitrary: m) (auto simp: drops_def touches_def)

context kv_engine
begin

lemma lrem_rep:
  assumes rep: "list_rep E s kc now key xs"
  shows "\<exists>s'. lrem E kc now key count e s
      = Inr (word_of_nat (length xs - length (redis_lrem count e xs)), s')
    \<and> list_rep E s' kc now key (redis_lrem count e xs)
    \<and> (\<forall>x. \<not> owns kc key x \<longrightarrow> dat E s' x = dat E s x \<and> met E s' x = met E s x)"
  using rep
proof (cases rule: rep_cases)
  case absent
  then show ?thesis using rep by (simp add: lrem_def rep_get [OF rep] redis_lrem_def)
next
  case (present m)
  define ds where "ds = lrem_offsets count e xs"
  let ?ys = "redis_lrem count e xs" and ?q = "lq kc key" and ?mk = "meta_key kc ListMeta key"
  note ds = lrem_offsets_props [of count e xs, folded ds_def]
  have ys: "nths xs (- set ds) = ?ys" unfolding ds_def by (rule lrem_offsets_nths [OF present(7)])
  have ly: "length ?ys = length xs - length ds" unfolding ys [symmetric] by (rule length_nths_compl [OF ds])
  have dl: "length ds \<le> length xs"
    using ds length_nths_compl [OF ds] by (metis card_lessThan card_mono distinct_card finite_lessThan strict_sorted_iff)
  have cnt: "length xs - length ?ys = length ds" using ly dl by simp
  have found: "(let found = take (if count = 0 then 2 ^ 64 - 1 else nat \<bar>count\<bar>)
      (map fst (filter (\<lambda>(_, v). v = e) (list_scan E kc s key (lm_head m) (lm_tail m - 1) (length xs) (count < 0))))
      in if count \<ge> 0 then found else rev found) = ds"
    unfolding list_scan_span [OF present(6,1,7) span_tail [OF present(6,1)]] ds_def by (rule lrem_found [OF present(7)])
  have all: "word_of_nat (length ds) = lm_size m \<longleftrightarrow> length ds = length xs"
    using present(3,7) dl by (auto simp: word_unat_eq_iff unat_of_nat)
  consider "ds = []" | "length ds = length xs" | "ds \<noteq> []" "length ds < length xs" using dl by linarith
  then show ?thesis
  proof cases
    case 1
    then have "?ys = xs" using ys by (simp add: nths_all)
    moreover have "lrem E kc now key count e s = Inr (0, s)"
      using 1 present(2,3,4) found by (simp add: lrem_def rep_get [OF rep] Let_def)
    ultimately show ?thesis using rep by simp
  next
    case 2
    let ?ops = "clear_prefix_in_batch E PData s ?q [] @ [BRm PMeta ?mk]"
    have t: "touches ?q ?mk ?ops" by (simp add: clear_prefix_touches)
    have "ds \<noteq> []" using 2 present(1) by auto
    then have "lrem E kc now key count e s = Inr (word_of_nat (length ds), commit E ?ops s)"
      using 2 present(2,3,4) found all
      by (simp add: lrem_def rep_get [OF rep] Let_def rm_meta_def)
    moreover have "list_rep E (commit E ?ops s) kc now key []"
      by (rule rep_commit_empty [OF rep refl refl t]) simp
    moreover have "?ys = []" using ly 2 by simp
    ultimately show ?thesis using rep_frame [OF t _ refl refl] cnt by auto
  next
    case 3
    have hd: "hd ds \<in> set ds" "\<forall>d\<in>set ds. hd ds \<le> d" "hd ds < length xs"
      using 3 ds by (cases ds; force)+
    obtain ops where f:
      "foldl (compact_step E kc s key (lm_head m) ds) (hd ds, 1, []) [hd ds + 1..<length xs] = (length ?ys, length (filter (\<lambda>d. d < length xs) ds), ops)"
      "at_index (apply_ops PData ops (dat E s)) ?q = ring (lm_head m) (?ys @ drop (length ?ys) xs)"
      "moved ?q (lm_head m) ops"
      using compact_fold [OF present(6,7) ds(1) hd, of] ys by auto
    let ?ops = "ops @ drops ?q (lm_head m) [length ?ys..<length xs]"
    define m' where "m' = (set_lm_size (lm_size m - word_of_nat (length ds)) m)
      \<lparr>lm_tail := lm_head m + (lm_size m - word_of_nat (length ds))\<rparr>"
    have run: "lrem E kc now key count e s
        = Inr (word_of_nat (length ds), commit_list_batch E (list_meta_key kc key) m' ?ops s)"
      using 3 present(2,3,4) found all f(1)
      by (simp add: lrem_def rep_get [OF rep] Let_def drops_fold m'_def hd_conv_nth)
    have sz: "unat (lm_size m') = length ?ys"
      using resize_down [OF present(3) dl] ly by (simp add: m'_def lm_size_def set_lm_size_def)
    have y: "0 < length ?ys" "length ?ys \<le> length xs" using 3 ly by simp_all
    have "length ?ys - 1 < length xs" using y by linarith
    then have "at_index (apply_ops PData ?ops (dat E s)) ?q = ring (lm_head m) ?ys"
      using ring_trim [of 0 "length ?ys - 1" "?ys @ drop (length ?ys) xs" "lm_head m"] y present(7)
      by (simp add: drops_view f(2))
    moreover have "lm_tail m' = lm_head m' + word_of_nat (length ?ys)"
    proof -
      have "lm_size m' = word_of_nat (length ?ys)" using sz by (metis of_nat_unat ucast_id)
      then show ?thesis by (simp add: m'_def lm_size_def set_lm_size_def)
    qed
    ultimately have span: "list_span (apply_ops PData ?ops (dat E s)) ?q m' ?ys"
      using present(6) movedD(3) [OF f(3)] drops_only by (simp add: list_span_def m'_def)
    have "resizable (lm_base m') now" using present(5) by (simp add: m'_def)
    then show ?thesis
      using commit_list_rep [OF rep, of ?ops m' ?ys] movedD(1,2) [OF f(3)] sz span y present(7) run cnt by auto
  qed
qed

end

section \<open>LMOVE\<close>

context kv_engine
begin

text \<open>What one key's representation depends on: the key's own entries.\<close>

lemma rep_cong:
  assumes "list_rep E s kc now key xs" and same: "same_key E kc key s s'"
  shows "list_rep E s' kc now key xs"
proof -
  have sub: "dat E s' (lq kc key @ sub) = dat E s (lq kc key @ sub)" for sub
    using same_keyD(1) [OF same] by (simp add: whole_key_tags_def)
  have "list_span (dat E s') (lq kc key) m xs = list_span (dat E s) (lq kc key) m xs" for m
    unfolding list_span_def at_index_cong [of "dat E s'", OF sub] only_indices_cong [of "dat E s'", OF sub] ..
  moreover have "live_own list_meta_ops (met E s') kc key now = live_own list_meta_ops (met E s) kc key now"
    by (rule same_keyD(5) [OF same]) (simp add: list_meta_ops_def composite_meta_tags_def)
  ultimately show ?thesis
    using assms(1) unfolding list_rep_def same_keyD(3,4) [OF same] by (simp split: option.splits)
qed

lemma fst_pop_index: "fst (pop_index left m) = (if left then lm_head m else lm_tail m - 1)"
  by (simp add: pop_index_def pop_head_def pop_tail_def)

text \<open>A move within one list: pop on one side, push on the other.\<close>

lemma lmove_same_rep:
  assumes rep: "list_rep E s kc now key xs"
  shows "\<exists>s'. lmove E kc now ts key key src_left dst_left s
      = Inr (if xs = [] then None else Some (if src_left then hd xs else last xs), s')
    \<and> list_rep E s' kc now key
        (if xs = [] then [] else pushed dst_left [if src_left then hd xs else last xs] (if src_left then tl xs else butlast xs))
    \<and> (\<forall>x. \<not> owns kc key x \<longrightarrow> dat E s' x = dat E s x \<and> met E s' x = met E s x)"
  using rep
proof (cases rule: rep_cases)
  case absent
  then show ?thesis using rep by (simp add: lmove_def rep_get [OF rep])
next
  case (present m)
  let ?e = "if src_left then hd xs else last xs" and ?rest = "if src_left then tl xs else butlast xs"
  let ?q = "lq kc key" and ?mk = "meta_key kc ListMeta key"
  have l64: "length xs \<le> 2 ^ 64" "length ?rest < 2 ^ 64" using present(7) by simp_all
  note pop = span_pop [OF present(6,1) l64(1), of src_left]
  note i = fst_pop_index [of src_left m, symmetric]
  have len: "length ?rest + 1 = length xs" using present(1) by simp
  have get: "e_get E (w_data s) (key_for_idx kc key (if src_left then lm_head m else lm_tail m - 1)) = Some ?e"
    unfolding i using pop(1) by simp
  show ?thesis
  proof (cases "src_left = dst_left \<or> lm_size m = 1")
    case True
    have "length xs = 1" if "lm_size m = 1" using present(3) that by simp
    then have "pushed dst_left [?e] ?rest = xs"
      using True present(1) by (cases "src_left = dst_left") (auto simp: pushed_def length_Suc_conv)
    then show ?thesis
      using True rep present(1,2,4) get by (simp add: lmove_def rep_get [OF rep])
  next
    case False
    let ?m1 = "snd (pop_index src_left m)"
    let ?m2 = "snd (push_index dst_left ?m1)"
    let ?ops = "[BRm PData (?q @ to_be64 (fst (pop_index src_left m))),
      BInsert PData (?q @ to_be64 (fst (push_index dst_left ?m1))) ?e, BInsert PMeta ?mk (lm_encode ?m2)]"
    have run: "lmove E kc now ts key key src_left dst_left s = Inr (Some ?e, commit E ?ops s)"
      using False present(2,4) get
      by (simp add: lmove_def rep_get [OF rep] Let_def split_beta rm_data_def insert_data_def insert_meta_def
          fst_pop_index)
    have t: "touches ?q ?mk ?ops" by (auto simp: touches_def)
    have "list_span (apply_ops PData ?ops (dat E s)) ?q ?m2 (pushed dst_left [?e] ?rest)"
      using span_push [OF pop(2) l64(2), of dst_left ?e] by simp
    moreover have "unat (lm_size ?m2) = length (pushed dst_left [?e] ?rest)"
      using present(3) len by (simp add: lm_size_def)
    ultimately have "list_rep E (commit E ?ops s) kc now key (pushed dst_left [?e] ?rest)"
      using rep_commit [OF rep refl refl t, of ?m2 "pushed dst_left [?e] ?rest"] present(5,7) len by simp
    then show ?thesis using run rep_frame [OF t _ refl refl] present(1) by auto
  qed
qed

end

text \<open>Batches on different keys, interleaved: each key sees its own.\<close>

context kv_engine
begin

lemma lmove_other_rep:
  assumes src: "list_rep E s kc now src xs" and dst: "list_rep E s kc now dst ys"
    and ne: "src \<noteq> dst" "key_fits src" "key_fits dst" and len: "length ys + 1 < 2 ^ 63"
  shows "\<exists>s'. lmove E kc now ts src dst src_left dst_left s
      = Inr (if xs = [] then None else Some (if src_left then hd xs else last xs), s')
    \<and> list_rep E s' kc now src (if src_left then tl xs else butlast xs)
    \<and> list_rep E s' kc now dst
        (if xs = [] then ys else pushed dst_left [if src_left then hd xs else last xs] ys)
    \<and> (\<forall>x. \<not> owns kc src x \<and> \<not> owns kc dst x \<longrightarrow> dat E s' x = dat E s x \<and> met E s' x = met E s x)"
  using src
proof (cases rule: rep_cases)
  case absent
  then show ?thesis using src dst by (simp add: lmove_def rep_get [OF src])
next
  case (present m)
  let ?e = "if src_left then hd xs else last xs" and ?rest = "if src_left then tl xs else butlast xs"
  let ?sq = "lq kc src" and ?sk = "meta_key kc ListMeta src" and ?dq = "lq kc dst" and ?dk = "meta_key kc ListMeta dst"
  have l64: "length xs \<le> 2 ^ 64" using present(7) by simp
  note pop = span_pop [OF present(6,1) l64, of src_left]
  obtain dm clear s1 where d:
    "prepare_list_meta_for_write E kc now ts dst [] s = Inr ((dm, ys \<noteq> []), clear, s1)"
    "dat E s1 = dat E s" "met E s1 = met E s" "touches ?dq ?dk clear"
    "apply_ops PMeta clear (met E s) = met E s" "resizable (lm_base dm) now" "unat (lm_size dm) = length ys"
    "list_span (apply_ops PData clear (dat E s)) ?dq dm ys"
    by (rule prepare_rep [OF dst])
  define sm where "sm = snd (pop_index src_left (set_lm_size (lm_size m - 1) m))"
  define dm1 where "dm1 = snd (push_index dst_left dm)"
  define dm' where "dm' = set_lm_size (lm_size dm1 + 1) dm1"
  define sops where "sops = [BRm PData (?sq @ to_be64 (fst (pop_index src_left m)))]
    @ [if lm_size sm = 0 then BRm PMeta ?sk else BInsert PMeta ?sk (lm_encode sm)]"
  define dops where "dops = [BInsert PData (?dq @ to_be64 (fst (push_index dst_left dm))) ?e, BInsert PMeta ?dk (lm_encode dm')]"
  define s' where "s' = commit E (clear @ sops @ dops) s1"
  have fst_sm: "fst (pop_index src_left (set_lm_size n m)) = fst (pop_index src_left m)" for n
    by (simp add: fst_pop_index)
  have get: "e_get E (w_data s) (key_for_idx kc src (if src_left then lm_head m else lm_tail m - 1)) = Some ?e"
    unfolding fst_pop_index [of src_left m, symmetric] using pop(1) by simp
  have run: "lmove E kc now ts src dst src_left dst_left s = Inr (Some ?e, s')"
    using ne(1) present(2,4) get d(1)
    unfolding lmove_def rep_get [OF src] s'_def sops_def dops_def sm_def dm'_def dm1_def
    by (simp add: Let_def split_beta rm_data_def insert_data_def insert_meta_def rm_meta_def fst_pop_index)
  have t: "touches ?sq ?sk sops" "touches ?dq ?dk dops"
    by (auto simp: sops_def dops_def touches_def)
  have other: "\<not> owns kc dst x" if "owns kc src x" for x
    using owns_unique [OF that] ne by blast
  have on: "on_key kc dst clear" "on_key kc dst dops" "on_key kc src sops"
    using d(4) t touches_on_key [of kc ListData _ ListMeta] by (simp_all add: whole_key_tags_def)
  note view = interleave_frame [OF on]
  have S: "list_rep E (commit_list_batch E (list_meta_key kc src) sm [BRm PData (?sq @ to_be64 (fst (pop_index src_left m)))] s) kc now src ?rest"
  proof (rule conjunct1 [OF commit_list_rep [OF src]])
    show "unat (lm_size sm) = length ?rest"
      using resize_down [OF present(3), of 1] present(1) by (simp add: sm_def lm_size_def Suc_le_eq)
    have "list_span d q (snd (pop_index src_left (set_lm_size n m))) zs = list_span d q (snd (pop_index src_left m)) zs" for d q zs n
      by (simp add: list_span_def pop_index_def pop_head_def pop_tail_def)
    then show "list_span (apply_ops PData [BRm PData (?sq @ to_be64 (fst (pop_index src_left m)))] (dat E s)) ?sq sm ?rest"
      unfolding sm_def using pop(2) by simp
  qed (use present(5,7) in \<open>simp_all add: sm_def\<close>)
  moreover have "commit_list_batch E (list_meta_key kc src) sm [BRm PData (?sq @ to_be64 (fst (pop_index src_left m)))] s
      = commit E sops s"
    by (simp add: commit_list_batch_def sops_def rm_meta_def insert_meta_def)
  ultimately have S: "list_rep E (commit E sops s) kc now src ?rest" by simp
  have D: "list_rep E (commit E (clear @ dops) s1) kc now dst (pushed dst_left [?e] ys)"
  proof (rule rep_commit [OF dst d(2,3)])
    show "list_span (apply_ops PData (clear @ dops) (dat E s)) ?dq dm' (pushed dst_left [?e] ys)"
      using span_push [OF d(8), of dst_left ?e] len by (simp add: dops_def dm'_def dm1_def)
    show "unat (lm_size dm') = length (pushed dst_left [?e] ys)"
      using d(7) len by (simp add: dm'_def dm1_def lm_size_def unat_word_ariths)
  qed (use d t len in \<open>simp_all add: dops_def dm'_def dm1_def\<close>)
  have "list_rep E s' kc now src ?rest"
    by (rule rep_cong [OF S]) (use other view(2) d(2,3) in \<open>simp add: s'_def same_key_def\<close>)
  moreover have "list_rep E s' kc now dst (pushed dst_left [?e] ys)"
    by (rule rep_cong [OF D]) (use other view(1) d(2,3) in \<open>auto simp: s'_def same_key_def\<close>)
  moreover have "dat E s' x = dat E s x \<and> met E s' x = met E s x" if "\<not> owns kc src x" "\<not> owns kc dst x" for x
    using view(2) [OF that(2)] on_key_frame [OF on(3) that(1)] by (simp add: s'_def d(2,3))
  ultimately show ?thesis using run present(1) by auto
qed

end

end
