(* ===== verification/List_Api.thy ===== *)
theory List_Api
  imports List_Edit
begin

text \<open>
  The list commands together: an abstract machine whose state gives every key its list, the same
  commands on the store, and the simulation between the two. The abstract machine is what the
  README promises of the list API; the simulation relation says that every key is a list, stored as
  its metadata says.
\<close>

section \<open>Commands and replies\<close>

datatype list_cmd =
    Push bool bool bytes "bytes list"
  | Pop bool bytes nat
  | MPop bool "bytes list" nat
  | LLen bytes
  | LRange bytes index_range
  | LIndex bytes int
  | LSet bytes int bytes
  | LTrim bytes index_range
  | LRem bytes int bytes
  | LInsert bytes bool bytes bytes
  | LMove bytes bytes bool bool
  | LPos bytes bytes "lpos_opt list"

datatype list_reply =
    RCount int
  | RVals "bytes list"
  | RVal "bytes option"
  | RKeyed "(bytes \<times> bytes list) option"
  | RPos "nat list"
  | ROk
  | RError error

text \<open>On the store. A call that fails leaves the store as it was.\<close>

definition reply_write :: "('a \<Rightarrow> list_reply) \<Rightarrow> 'p wedb \<Rightarrow> error + ('a \<times> 'p wedb) \<Rightarrow> list_reply \<times> 'p wedb" where
  "reply_write f s r = (case r of Inl e \<Rightarrow> (RError e, s) | Inr (a, s') \<Rightarrow> (f a, s'))"

definition reply_read :: "('a \<Rightarrow> list_reply) \<Rightarrow> 'p wedb \<Rightarrow> error + 'a \<Rightarrow> list_reply \<times> 'p wedb" where
  "reply_read f s r = (case r of Inl e \<Rightarrow> (RError e, s) | Inr a \<Rightarrow> (f a, s))"

definition reply_ok :: "'p wedb \<Rightarrow> error + 'p wedb \<Rightarrow> list_reply \<times> 'p wedb" where
  "reply_ok s r = (case r of Inl e \<Rightarrow> (RError e, s) | Inr s' \<Rightarrow> (ROk, s'))"

lemma reply_simps [simp]:
  "reply_write f s (Inr (a, s')) = (f a, s')" "reply_write f s (Inl e) = (RError e, s)"
  "reply_read f s (Inr a) = (f a, s)" "reply_read f s (Inl e) = (RError e, s)"
  "reply_ok s (Inr s') = (ROk, s')" "reply_ok s (Inl e) = (RError e, s)"
  by (simp_all add: reply_write_def reply_read_def reply_ok_def)

fun list_call :: "'p engine \<Rightarrow> key_composer \<Rightarrow> u64 \<Rightarrow> u64 \<Rightarrow> list_cmd \<Rightarrow> 'p wedb \<Rightarrow> list_reply \<times> 'p wedb" where
  "list_call E kc now ts (Push create left k vs) s =
     reply_write (\<lambda>n. RCount (uint n)) s
       (if create then (if left then lpush E kc now ts k vs s else rpush E kc now ts k vs s)
        else (if left then lpushx E kc now ts k vs s else rpushx E kc now ts k vs s))"
| "list_call E kc now ts (Pop left k n) s =
     reply_write RVals s (if left then lpop E kc now k n s else rpop E kc now k n s)"
| "list_call E kc now ts (MPop left ks n) s = reply_write RKeyed s (lmpop E kc now ks left n s)"
| "list_call E kc now ts (LLen k) s = reply_read (\<lambda>n. RCount (uint n)) s (llen E kc s now k)"
| "list_call E kc now ts (LRange k r) s = reply_read RVals s (lrange E kc s now k r)"
| "list_call E kc now ts (LIndex k i) s = reply_read RVal s (lindex E kc s now k i)"
| "list_call E kc now ts (LSet k i v) s = reply_ok s (lset E kc now k i v s)"
| "list_call E kc now ts (LTrim k r) s = reply_ok s (ltrim E kc now k r s)"
| "list_call E kc now ts (LRem k n e) s = reply_write (\<lambda>n. RCount (uint n)) s (lrem E kc now k n e s)"
| "list_call E kc now ts (LInsert k before pivot v) s =
     reply_write RCount s (linsert E kc now k before pivot v s)"
| "list_call E kc now ts (LMove a b l r) s = reply_write RVal s (lmove E kc now ts a b l r s)"
| "list_call E kc now ts (LPos k e opts) s = reply_read RPos s (lpos E kc s now k e opts)"

fun list_calls ::
    "'p engine \<Rightarrow> key_composer \<Rightarrow> u64 \<Rightarrow> (u64 \<times> list_cmd) list \<Rightarrow> 'p wedb \<Rightarrow> list_reply list \<times> 'p wedb" where
  "list_calls E kc now [] s = ([], s)"
| "list_calls E kc now ((ts, c) # cs) s =
     (let (r, s) = list_call E kc now ts c s; (rs, s) = list_calls E kc now cs s in (r # rs, s))"

section \<open>The abstract machine\<close>

type_synonym lists = "bytes \<Rightarrow> bytes list"

text \<open>Take the element at one side, if there is one.\<close>

definition side :: "bool \<Rightarrow> 'a list \<Rightarrow> 'a" where
  "side left xs = (if left then hd xs else last xs)"

definition without_side :: "bool \<Rightarrow> 'a list \<Rightarrow> 'a list" where
  "without_side left xs = (if left then tl xs else butlast xs)"

definition spec_pos :: "bytes \<Rightarrow> bytes list \<Rightarrow> lpos_opt list \<Rightarrow> list_reply" where
  "spec_pos e xs opts =
     (case lpos_options opts of (rank, count, max_len) \<Rightarrow>
        if rank = 0 then RError (InvalidData ERR_RANK_ZERO)
        else RPos (take (lpos_limit count) (drop (nat \<bar>rank\<bar> - 1) (lpos_positions e xs (rank < 0) max_len))))"

fun list_spec :: "list_cmd \<Rightarrow> lists \<Rightarrow> list_reply \<times> lists" where
  "list_spec (Push create left k vs) A =
     (if vs = [] \<or> \<not> create \<and> A k = [] then (RCount 0, A)
      else (RCount (int (length (A k) + length vs)), A(k := pushed left vs (A k))))"
| "list_spec (Pop left k n) A = (RVals (popped left n (A k)), A(k := remaining left n (A k)))"
| "list_spec (MPop left ks n) A =
     (case find (\<lambda>k. A k \<noteq> []) ks of
        Some k \<Rightarrow> if n = 0 then (RKeyed None, A)
                  else (RKeyed (Some (k, popped left n (A k))), A(k := remaining left n (A k)))
      | None \<Rightarrow> (RKeyed None, A))"
| "list_spec (LLen k) A = (RCount (int (length (A k))), A)"
| "list_spec (LRange k r) A = (RVals (case into_index_range r of (a, b) \<Rightarrow> redis_slice a b (A k)), A)"
| "list_spec (LIndex k i) A = (RVal (map_option (nth (A k)) (redis_index (A k) i)), A)"
| "list_spec (LSet k i v) A =
     (case redis_index (A k) i of
        None \<Rightarrow> (RError (InvalidData ERR_INDEX_OUT_OF_RANGE), A) | Some n \<Rightarrow> (ROk, A(k := (A k)[n := v])))"
| "list_spec (LTrim k r) A = (ROk, A(k := (case into_index_range r of (a, b) \<Rightarrow> redis_slice a b (A k))))"
| "list_spec (LRem k n e) A =
     (RCount (int (length (A k) - length (redis_lrem n e (A k)))), A(k := redis_lrem n e (A k)))"
| "list_spec (LInsert k before pivot v) A =
     (RCount (if A k = [] then 0 else if pivot \<in> set (A k) then int (length (A k) + 1) else -1),
      A(k := redis_linsert before pivot v (A k)))"
| "list_spec (LMove a b l r) A =
     (if A a = [] then (RVal None, A)
      else let A' = A(a := without_side l (A a))
           in (RVal (Some (side l (A a))), A'(b := pushed r [side l (A a)] (A' b))))"
| "list_spec (LPos k e opts) A = (spec_pos e (A k) opts, A)"

fun list_specs :: "(u64 \<times> list_cmd) list \<Rightarrow> lists \<Rightarrow> list_reply list \<times> lists" where
  "list_specs [] A = ([], A)"
| "list_specs ((ts, c) # cs) A =
     (let (r, A) = list_spec c A; (rs, A) = list_specs cs A in (r # rs, A))"

text \<open>Commands within the limits of the format: keys whose length is a \<open>u64\<close>, and no list that
  reaches \<open>2 ^ 63\<close> elements.\<close>

fun fits :: "list_cmd \<Rightarrow> lists \<Rightarrow> bool" where
  "fits (Push create left k vs) A \<longleftrightarrow> key_fits k \<and> length (A k) + length vs < 2 ^ 63"
| "fits (Pop left k n) A \<longleftrightarrow> key_fits k"
| "fits (MPop left ks n) A \<longleftrightarrow> (\<forall>k\<in>set ks. key_fits k)"
| "fits (LLen k) A \<longleftrightarrow> key_fits k"
| "fits (LRange k r) A \<longleftrightarrow> key_fits k"
| "fits (LIndex k i) A \<longleftrightarrow> key_fits k"
| "fits (LSet k i v) A \<longleftrightarrow> key_fits k"
| "fits (LTrim k r) A \<longleftrightarrow> key_fits k"
| "fits (LRem k n e) A \<longleftrightarrow> key_fits k"
| "fits (LInsert k before pivot v) A \<longleftrightarrow> key_fits k \<and> length (A k) + 1 < 2 ^ 63"
| "fits (LMove a b l r) A \<longleftrightarrow> key_fits a \<and> key_fits b \<and> length (A b) + 1 < 2 ^ 63"
| "fits (LPos k e opts) A \<longleftrightarrow> key_fits k"

fun all_fit :: "(u64 \<times> list_cmd) list \<Rightarrow> lists \<Rightarrow> bool" where
  "all_fit [] A \<longleftrightarrow> True"
| "all_fit ((ts, c) # cs) A \<longleftrightarrow> fits c A \<and> all_fit cs (snd (list_spec c A))"

section \<open>The simulation\<close>

abbreviation lists_rep :: "'p engine \<Rightarrow> 'p wedb \<Rightarrow> key_composer \<Rightarrow> u64 \<Rightarrow> lists \<Rightarrow> bool" where
  "lists_rep E s kc now \<equiv> all_rep (\<lambda>s k xs. list_rep E s kc now k xs) s"

sublocale kv_engine \<subseteq> lists: key_rep E kc "\<lambda>s k xs. list_rep E s kc now k xs" for kc now
  by unfold_locales (rule rep_cong)

lemma uint_of_small: "n < 2 ^ 63 \<Longrightarrow> uint (word_of_nat n :: u64) = int n"
proof -
  assume "n < 2 ^ 63"
  then have "int (unat (word_of_nat n :: u64)) = int n" by (subst unat_of_nat) simp
  then show ?thesis by (metis uint_nat)
qed

lemma popped_Nil [simp]: "popped left n [] = []" "remaining left n [] = []"
  by (simp_all add: popped_def remaining_def)

lemma popped_ne: "0 < n \<Longrightarrow> popped left n xs = [] \<longleftrightarrow> xs = []"
  by (simp add: popped_def)

context kv_engine
begin

lemma lists_rep_length: "lists_rep E s kc now A \<Longrightarrow> key_fits k \<Longrightarrow> length (A k) < 2 ^ 63"
  using all_repD by (fastforce simp: list_rep_def)

lemma push_sim:
  assumes rep: "lists_rep E s kc now A" and fit: "fits (Push create left k vs) A"
  shows "\<exists>s'. list_call E kc now ts (Push create left k vs) s = (fst (list_spec (Push create left k vs) A), s')
    \<and> lists_rep E s' kc now (snd (list_spec (Push create left k vs) A))"
proof -
  have k: "key_fits k" "length (A k) + length vs < 2 ^ 63" using fit by simp_all
  obtain s' where p: "list_push_internal E kc now ts k vs create left s
      = Inr (if vs = [] \<or> \<not> create \<and> A k = [] then 0 else word_of_nat (length (A k) + length vs), s')"
    "list_rep E s' kc now k (if \<not> create \<and> A k = [] then [] else pushed left vs (A k))"
    "\<forall>x. \<not> owns kc k x \<longrightarrow> dat E s' x = dat E s x \<and> met E s' x = met E s x"
    using push_rep [OF all_repD [OF rep k(1)] k(2), of ts create left] by blast
  have "(if create then (if left then lpush E kc now ts k vs s else rpush E kc now ts k vs s)
        else (if left then lpushx E kc now ts k vs s else rpushx E kc now ts k vs s))
      = list_push_internal E kc now ts k vs create left s"
    by (simp add: lpush_def rpush_def lpushx_def rpushx_def)
  then have "list_call E kc now ts (Push create left k vs) s = (fst (list_spec (Push create left k vs) A), s')"
    using p(1) uint_of_small [OF k(2)] by (simp split: if_splits)
  moreover have "A(k := if \<not> create \<and> A k = [] then [] else pushed left vs (A k))
      = snd (list_spec (Push create left k vs) A)"
    by auto
  ultimately show ?thesis
    using lists.all_rep_step [OF rep k(1) p(2,3)] by auto
qed

lemma pop_call_rep:
  assumes rep: "lists_rep E s kc now A" and k: "key_fits k"
  shows "\<exists>s'. (if left then lpop E kc now k n s else rpop E kc now k n s) = Inr (popped left n (A k), s')
    \<and> lists_rep E s' kc now (A(k := remaining left n (A k)))"
  using pop_rep [OF all_repD [OF rep k], of n left] lists.all_rep_step [OF rep k]
  by (auto simp: lpop_def rpop_def)

lemma mpop_sim:
  assumes "lists_rep E s kc now A" and "\<forall>k\<in>set ks. key_fits k" and "0 < n"
  shows "\<exists>s'. lmpop_loop E kc now left n s ks
      = Inr (map_option (\<lambda>k. (k, popped left n (A k))) (find (\<lambda>k. A k \<noteq> []) ks), s')
    \<and> lists_rep E s' kc now
        (case find (\<lambda>k. A k \<noteq> []) ks of None \<Rightarrow> A | Some k \<Rightarrow> A(k := remaining left n (A k)))"
  using assms(1,2)
proof (induction ks arbitrary: s)
  case (Cons k ks)
  then obtain s' where p: "(if left then lpop E kc now k n s else rpop E kc now k n s) = Inr (popped left n (A k), s')"
    "lists_rep E s' kc now (A(k := remaining left n (A k)))"
    using pop_call_rep [of kc now s A k left n] by auto
  show ?case
  proof (cases "A k = []")
    case True
    then have "A(k := remaining left n (A k)) = A" by auto
    then have "lists_rep E s' kc now A" using p(2) by simp
    with Cons True p(1) show ?thesis by simp
  next
    case False
    with p popped_ne [OF assms(3), of left "A k"] show ?thesis by (simp del: fun_upd_apply)
  qed
qed simp

lemma move_sim:
  assumes rep: "lists_rep E s kc now A" and fit: "fits (LMove a b l r) A"
  shows "\<exists>s'. list_call E kc now ts (LMove a b l r) s = (fst (list_spec (LMove a b l r) A), s')
    \<and> lists_rep E s' kc now (snd (list_spec (LMove a b l r) A))"
proof (cases "a = b")
  case True
  have k: "key_fits a" using fit by simp
  obtain s' where p: "lmove E kc now ts a a l r s = Inr (if A a = [] then None else Some (side l (A a)), s')"
    "list_rep E s' kc now a (if A a = [] then [] else pushed r [side l (A a)] (without_side l (A a)))"
    "\<forall>x. \<not> owns kc a x \<longrightarrow> dat E s' x = dat E s x \<and> met E s' x = met E s x"
    using lmove_same_rep [OF all_repD [OF rep k], of ts l r] unfolding side_def without_side_def by blast
  have "A(a := if A a = [] then [] else pushed r [side l (A a)] (without_side l (A a)))
      = snd (list_spec (LMove a b l r) A)"
    using True by (auto simp: Let_def)
  then show ?thesis using lists.all_rep_step [OF rep k p(2,3)] p(1) True by (simp add: Let_def)
next
  case False
  have k: "key_fits a" "key_fits b" "length (A b) + 1 < 2 ^ 63" using fit by simp_all
  obtain s' where p: "lmove E kc now ts a b l r s = Inr (if A a = [] then None else Some (side l (A a)), s')"
    "list_rep E s' kc now a (without_side l (A a))"
    "list_rep E s' kc now b (if A a = [] then A b else pushed r [side l (A a)] (A b))"
    "\<forall>x. \<not> owns kc a x \<and> \<not> owns kc b x \<longrightarrow> dat E s' x = dat E s x \<and> met E s' x = met E s x"
    using lmove_other_rep [OF all_repD [OF rep k(1)] all_repD [OF rep k(2)] False k, of ts l r]
    unfolding side_def without_side_def by blast
  have "A(a := without_side l (A a), b := if A a = [] then A b else pushed r [side l (A a)] (A b))
      = snd (list_spec (LMove a b l r) A)"
    using False by (auto simp: Let_def without_side_def)
  then show ?thesis using lists.all_rep_step2 [OF rep k(1,2) False p(2,3,4)] p(1) False by (simp add: Let_def)
qed

lemma list_call_sim:
  assumes rep: "lists_rep E s kc now A" and fit: "fits c A"
  shows "\<exists>s'. list_call E kc now ts c s = (fst (list_spec c A), s') \<and> lists_rep E s' kc now (snd (list_spec c A))"
proof (cases c)
  case (Push create left k vs)
  then show ?thesis using push_sim [OF rep, of create left k vs ts] fit by blast
next
  case (Pop left k n)
  then show ?thesis using pop_call_rep [OF rep, of k left n] fit by auto
next
  case (MPop left ks n)
  then show ?thesis
    using mpop_sim [OF rep, of ks n left] fit rep
    by (cases "n = 0"; cases "ks = []"; cases "find (\<lambda>k. A k \<noteq> []) ks") (auto simp: lmpop_def)
next
  case (LLen k)
  then show ?thesis
    using llen_rep [OF all_repD [OF rep, of k]] fit rep uint_of_small [OF lists_rep_length [OF rep]] by simp
next
  case (LRange k r)
  then show ?thesis using lrange_rep [OF all_repD [OF rep, of k], of r] fit rep by simp
next
  case (LIndex k i)
  then show ?thesis using lindex_rep [OF all_repD [OF rep, of k], of i] fit rep by simp
next
  case (LSet k i v)
  then show ?thesis
    using lset_rep [OF all_repD [OF rep, of k], of i v] lists.all_rep_step [OF rep, of k] fit rep
    by (auto split: option.splits)
next
  case (LTrim k r)
  then show ?thesis
    using ltrim_rep [OF all_repD [OF rep, of k], of r] lists.all_rep_step [OF rep, of k] fit by auto
next
  case (LRem k n e)
  have "length (A k) - length (redis_lrem n e (A k)) < 2 ^ 63" if "key_fits k"
    using lists_rep_length [OF rep that] by simp
  with LRem show ?thesis
    using lrem_rep [OF all_repD [OF rep, of k], of n e] lists.all_rep_step [OF rep, of k] fit uint_of_small by auto
next
  case (LInsert k before pivot v)
  then show ?thesis
    using linsert_rep [OF all_repD [OF rep, of k], of before pivot v] lists.all_rep_step [OF rep, of k] fit
    by auto
next
  case (LMove a b l r)
  then show ?thesis using move_sim [OF rep, of a b l r ts] fit by blast
next
  case (LPos k e opts)
  then show ?thesis
    using lpos_rep [OF all_repD [OF rep, of k], of e opts] fit rep
    by (auto simp: spec_pos_def split: prod.splits)
qed

lemma list_calls_sim:
  assumes "lists_rep E s kc now A" and "all_fit cs A"
  shows "\<exists>s'. list_calls E kc now cs s = (fst (list_specs cs A), s') \<and> lists_rep E s' kc now (snd (list_specs cs A))"
  using assms
proof (induction cs arbitrary: s A)
  case (Cons tc cs)
  obtain ts c where tc: "tc = (ts, c)" by force
  with Cons.prems obtain s1 where s1: "list_call E kc now ts c s = (fst (list_spec c A), s1)"
    "lists_rep E s1 kc now (snd (list_spec c A))"
    using list_call_sim [of kc now s A c ts] by auto
  from Cons.IH [OF this(2)] Cons.prems(2) obtain s2 where
    "list_calls E kc now cs s1 = (fst (list_specs cs (snd (list_spec c A))), s2)"
    "lists_rep E s2 kc now (snd (list_specs cs (snd (list_spec c A))))"
    by (auto simp: tc)
  with s1 show ?case by (auto simp: tc split_beta)
qed simp

end

section \<open>Keys of another type\<close>

text \<open>A key with a live structure that is not a list; the commands that look at it.\<close>

definition wrong_type :: "'p engine \<Rightarrow> 'p wedb \<Rightarrow> key_composer \<Rightarrow> u64 \<Rightarrow> bytes \<Rightarrow> bool" where
  "wrong_type E s kc now k \<longleftrightarrow>
     live_string (dat E s) kc k now \<noteq> None
   \<or> live_own list_meta_ops (met E s) kc k now = None \<and> other_live (met E s) kc k now ListMeta"

text \<open>The keys whose type a command checks, in order, when the lists under the keys are \<open>A\<close>: LMPOP goes
  on past empty lists, LMOVE looks at its destination only when there is something to move, and a
  command with nothing to do (no elements to push, a count or a rank of zero) looks at no key.\<close>

fun checked :: "lists \<Rightarrow> list_cmd \<Rightarrow> bytes list" where
  "checked A (Push create left k vs) = (if vs = [] then [] else [k])"
| "checked A (Pop left k n) = (if n = 0 then [] else [k])"
| "checked A (MPop left ks n) =
     (if n = 0 then [] else takeWhile (\<lambda>k. A k = []) ks @ take 1 (dropWhile (\<lambda>k. A k = []) ks))"
| "checked A (LLen k) = [k]"
| "checked A (LRange k r) = [k]"
| "checked A (LIndex k i) = [k]"
| "checked A (LSet k i v) = [k]"
| "checked A (LTrim k r) = [k]"
| "checked A (LRem k n e) = [k]"
| "checked A (LInsert k before pivot v) = [k]"
| "checked A (LMove a b l r) = (if A a = [] \<or> a = b then [a] else [a, b])"
| "checked A (LPos k e opts) = (case lpos_options opts of (rank, _) \<Rightarrow> if rank = 0 then [] else [k])"

lemma lpos_options_lpos:
  "lpos E kc s now k e opts =
    (case lpos_options opts of (rank, count, max_len) \<Rightarrow>
       if rank = 0 then Inl (InvalidData ERR_RANK_ZERO)
       else try_op (get_list_meta E kc s k now)
         (\<lambda>m. if m = None then Inr [] else lpos E kc s now k e opts))"
  by (cases "get_list_meta E kc s k now") (auto simp: lpos_def lpos_options_def split: prod.splits option.splits)

context kv_engine
begin

lemma wrong_type_get:
  "wrong_type E s kc now k \<Longrightarrow> get_list_meta E kc s k now = Inl wrong_type_default"
  using get_meta_checked_spec [of list_meta_ops kc s k now]
  by (auto simp: wrong_type_def get_list_meta_def list_meta_ops_def)

lemma wrong_type_push:
  assumes "get_list_meta E kc s k now = Inl e" and "vs \<noteq> []"
  shows "list_push_internal E kc now ts k vs create left s = Inl e"
  using assms
  by (simp add: list_push_internal_def list_push_one_internal_def prepare_list_meta_for_write_def)

lemma wrong_type_pop:
  assumes "get_list_meta E kc s k now = Inl e" and "n \<noteq> 0"
  shows "list_pop_internal E kc now k n left s = Inl e"
  using assms by (simp add: list_pop_internal_def list_pop_one_internal_def)

lemma empty_pop:
  assumes "list_rep E s kc now k []"
  shows "list_pop_internal E kc now k n left s = Inr ([], s)"
  using assms by (cases rule: rep_cases)
    (simp_all add: list_pop_internal_def list_pop_one_internal_def rep_get [OF assms])

lemma wrong_type_mpop_loop:
  assumes "\<forall>k. if k \<in> W then get_list_meta E kc s k now = Inl e else list_rep E s kc now k (A k)"
    and "n \<noteq> 0"
    and "set (takeWhile (\<lambda>k. A k = []) ks @ take 1 (dropWhile (\<lambda>k. A k = []) ks)) \<inter> W \<noteq> {}"
  shows "lmpop_loop E kc now left n s ks = Inl e"
  using assms(3)
proof (induction ks)
  case (Cons k ks)
  show ?case
  proof (cases "k \<in> W")
    case True
    then have "get_list_meta E kc s k now = Inl e" using assms(1) by metis
    from wrong_type_pop [OF this assms(2)] show ?thesis by (simp add: lpop_def rpop_def)
  next
    case False
    then have rep: "list_rep E s kc now k (A k)" using assms(1) by metis
    moreover have "A k = []" using Cons.prems False by (auto split: if_splits)
    ultimately have "list_pop_internal E kc now k n left s = Inr ([], s)" for left
      using empty_pop [of s kc now k n left] by simp
    then show ?thesis
      using Cons False \<open>A k = []\<close> by (cases left) (simp_all add: lpop_def rpop_def)
  qed
qed simp

lemma wrong_type_move:
  assumes "list_rep E s kc now a xs" and "xs \<noteq> []" and "a \<noteq> b" and "get_list_meta E kc s b now = Inl e"
  shows "lmove E kc now ts a b l r s = Inl e"
  using assms(1)
proof (cases rule: rep_cases)
  case (present m)
  have l64: "length xs \<le> 2 ^ 64" using present(7) by simp
  have "e_get E (w_data s) (key_for_idx kc a (if l then lm_head m else lm_tail m - 1)) \<noteq> None"
    using span_pop(1) [OF present(6,1) l64, of l] unfolding fst_pop_index [of l m, symmetric] by simp
  then show ?thesis
    using present(2,4) assms(3,4)
    by (auto simp: lmove_def rep_get [OF assms(1)] prepare_list_meta_for_write_def Let_def)
qed (simp add: assms(2))

lemma checked_wrong_type:
  assumes keys: "\<forall>k. if k \<in> W then wrong_type E s kc now k else list_rep E s kc now k (A k)"
    and hit: "set (checked A c) \<inter> W \<noteq> {}"
  shows "list_call E kc now ts c s = (RError wrong_type_default, s)"
proof -
  let ?e = wrong_type_default
  have keys': "\<forall>k. if k \<in> W then get_list_meta E kc s k now = Inl ?e else list_rep E s kc now k (A k)"
    using keys wrong_type_get by metis
  have g: "k \<in> W \<Longrightarrow> get_list_meta E kc s k now = Inl ?e" for k using keys' by metis
  show ?thesis
  proof (cases c)
    case (Push create left k vs)
    then show ?thesis
      using hit wrong_type_push [OF g, of k] by (simp add: lpush_def rpush_def lpushx_def rpushx_def split: if_splits)
  next
    case (Pop left k n)
    then show ?thesis
      using hit wrong_type_pop [OF g, of k] by (simp add: lpop_def rpop_def split: if_splits)
  next
    case (MPop left ks n)
    then have "n \<noteq> 0" using hit by (auto split: if_splits)
    with MPop show ?thesis
      using hit wrong_type_mpop_loop [OF keys', of n ks left] by (cases "ks = []") (simp_all add: lmpop_def)
  next
    case (LMove a b l r)
    show ?thesis
    proof (cases "a \<in> W")
      case True
      then show ?thesis using LMove g by (simp add: lmove_def)
    next
      case False
      then have "list_rep E s kc now a (A a)" using keys by metis
      then show ?thesis
        using LMove False hit wrong_type_move [of s kc now a "A a" b ?e ts l r] g [of b] by (simp split: if_splits)
    qed
  next
    case (LPos k e opts)
    then have "lpos E kc s now k e opts = Inl ?e"
      using hit g [of k] by (subst lpos_options_lpos) (auto split: prod.splits if_splits)
    then show ?thesis using LPos hit by simp
  qed (use hit g in \<open>simp_all add: llen_def lrange_def lindex_def with_lindex_def lset_def ltrim_def
      lrem_def linsert_def split: prod.splits\<close>)
qed

lemma unchecked_reply:
  assumes "checked A c = []"
  shows "list_call E kc now ts c s = (fst (list_spec c A), s)"
  using assms
proof (cases c)
  case (MPop left ks n)
  have "n = 0 \<or> ks = []"
    using MPop assms by (cases ks) (auto split: if_splits)
  then show ?thesis using MPop by (auto simp: lmpop_def split: option.splits)
next
  case (LPos k e opts)
  obtain rank opt where o: "lpos_options opts = (rank, opt)" by (cases "lpos_options opts") blast
  with LPos assms have "rank = 0" by (simp split: if_splits)
  with o have "lpos E kc s now k e opts = Inl (InvalidData ERR_RANK_ZERO)"
    by (subst lpos_options_lpos) (simp split: prod.splits)
  with LPos o \<open>rank = 0\<close> show ?thesis by (simp add: spec_pos_def split: prod.splits)
qed (auto simp: lpush_def rpush_def lpushx_def rpushx_def list_push_internal_def lpop_def rpop_def
    list_pop_internal_def popped_def split: if_splits)

end

section \<open>Metadata written by another program\<close>

text \<open>A list whose record has the Kvrocks form is read, with the type byte as its flags; a record
  with these flags that is written back in the native form is not.\<close>

lemma list_meta_flags_lost:
  assumes "km_flags (lm_base m) = 0x83"
  shows "lm_decode (lm_encode m) = None"
proof -
  have b: "lm_encode m ! 0 \<le> 14" "lm_encode m ! 1 = 0x83" "length (lm_encode m) = 42"
      "lm_encode m ! 0 AND META_64BIT_ENCODING_MASK = 0"
    using assms
    by (cases "km_rtype (lm_base m)"; simp add: lm_encode_def km_encode_def META_64BIT_ENCODING_MASK_def)+
  have "km_decode (take 17 (lm_encode m)) = None"
    using assms
    by (cases "km_rtype (lm_base m)"; simp add: lm_encode_def km_encode_def km_decode_def Let_def META_64BIT_ENCODING_MASK_def)
  with b show ?thesis by (simp add: lm_decode_def lm_decode_at_def)
qed

lemma kvrocks_list_lost:
  "\<exists>m1. lm_decode (lm_encode_kvrocks m) = Some m1 \<and> lm_head m1 = lm_head m \<and> lm_tail m1 = lm_tail m
    \<and> lm_size m1 = lm_size m \<and> lm_decode (lm_encode (set_lm_size n (m1\<lparr>lm_head := h, lm_tail := t\<rparr>))) = None"
proof -
  let ?b = "0x83 # to_be64 (km_expire_at (lm_base m)) @ to_be64 (km_version (lm_base m)) @ to_be64 (km_size (lm_base m))"
  have e: "lm_encode_kvrocks m = ?b @ to_be64 (lm_head m) @ to_be64 (lm_tail m)"
    by (simp add: lm_encode_kvrocks_def META_64BIT_ENCODING_MASK_def META_TYPE_MASK_def)
  have "km_decode ?b = Some (lm_base m\<lparr>km_rtype := RList, km_flags := 0x83\<rparr>)"
    using u64_at_append [of "[0x83]" 1 "km_expire_at (lm_base m)"]
      u64_at_append [of "0x83 # to_be64 (km_expire_at (lm_base m))" 9 "km_version (lm_base m)"]
      u64_at_append [of "0x83 # to_be64 (km_expire_at (lm_base m)) @ to_be64 (km_version (lm_base m))" 17 "km_size (lm_base m)" "[]"]
      rtype_from_u8_u8 [of RList]
    by (simp add: km_decode_def Let_def META_64BIT_ENCODING_MASK_def META_TYPE_MASK_def rtype_is_single_kv_def)
  then have "lm_decode (lm_encode_kvrocks m)
      = Some \<lparr>lm_base = lm_base m\<lparr>km_rtype := RList, km_flags := 0x83\<rparr>, lm_head = lm_head m, lm_tail = lm_tail m\<rparr>"
    using u64_at_append [of ?b 25 "lm_head m" "to_be64 (lm_tail m)"]
      u64_at_append [of "?b @ to_be64 (lm_head m)" 33 "lm_tail m" "[]"]
    unfolding e by (simp add: lm_decode_def lm_decode_at_def read_u64_be_def META_64BIT_ENCODING_MASK_def)
  then show ?thesis
    using list_meta_flags_lost by (simp add: lm_size_def set_lm_size_def)
qed

section \<open>Properties\<close>

definition set_db :: "mem_part wedb" where
  "set_db = put_meta mem_engine (meta_key kc0 SetMeta [97]) (km_encode (km_new RSet 0 1 2)) mem_db"

text \<open>C1: Any sequence of list commands on a store where every key is a list gives the replies of
  the same commands on plain lists, and leaves a store where every key is the resulting list: pushes,
  pops, reads, sets, trims, removals, insertions, moves, rotations and searches, on any number of
  keys, as long as no list reaches \<open>2 ^ 63\<close> elements.\<close>

theorem list_commands_refine:
  assumes "kv_engine E" and "lists_rep E s kc now A" and "all_fit cs A"
  shows "\<exists>s'. list_calls E kc now cs s = (fst (list_specs cs A), s')
    \<and> lists_rep E s' kc now (snd (list_specs cs A))"
  using kv_engine.list_calls_sim [OF assms] .

theorem list_commands_refine_witness:
  "fst (list_calls mem_engine kc0 5
      [(1, Push True False [97] [[1], [2], [1], [3]]), (2, LRem [97] (-1) [1]), (3, LMove [97] [98] False True), (4, LLen [97])] mem_db)
   = [RCount 4, RCount 1, RVal (Some [3]), RCount 2]"
proof -
  let ?cs = "[(1, Push True False [97] [[1], [2], [1], [3]]), (2, LRem [97] (-1) [1]), (3, LMove [97] [98] False True), (4, LLen [97])]"
  have "lists_rep mem_engine mem_db kc0 5 (\<lambda>_. [])"
    by (simp add: all_rep_def list_rep_def live_string_def other_live_def live_meta_def live_own_def)
  moreover have "all_fit ?cs (\<lambda>_. [])"
    by (simp add: pushed_def redis_lrem_def without_side_def)
  ultimately have "fst (list_calls mem_engine kc0 5 ?cs mem_db) = fst (list_specs ?cs (\<lambda>_. []))"
    using list_commands_refine [OF kv_engine_mem] by fastforce
  also have "\<dots> = [RCount 4, RCount 1, RVal (Some [3]), RCount 2]"
    by (simp add: pushed_def redis_lrem_def without_side_def side_def)
  finally show ?thesis .
qed

text \<open>C28: On a store where some keys hold live values of other types and the others are lists, a
  command that checks the type of one of the first answers WRONGTYPE and changes nothing. The check is
  made on the key of a command, on the keys of LMPOP up to the first list that is not empty, and on the
  destination of an LMOVE that has something to move. A command with nothing to do (an empty push, a
  count or a rank of zero, LMPOP of no keys) looks at no key and answers as on lists, whatever the
  type of its key.\<close>

theorem list_wrong_type:
  assumes "kv_engine E"
    and "\<forall>k. if k \<in> W then wrong_type E s kc now k else list_rep E s kc now k (A k)"
  shows "(set (checked A c) \<inter> W \<noteq> {} \<longrightarrow> list_call E kc now ts c s = (RError wrong_type_default, s))
    \<and> (checked A c = [] \<longrightarrow> list_call E kc now ts c s = (fst (list_spec c A), s))"
  using kv_engine.checked_wrong_type [OF assms] kv_engine.unchecked_reply [OF assms(1)] by blast

text \<open>A store with a set under \<open>a\<close> and no other key.\<close>

lemma set_db_keys:
  "\<forall>k. if k \<in> {[97]} then wrong_type mem_engine set_db kc0 5 k else list_rep mem_engine set_db kc0 5 k []"
proof -
  have "km_decode (km_encode (km_new RSet 0 1 2)) = Some (km_new RSet 0 1 2)"
    by (simp add: km_new_def)
  then have live: "live_meta (met mem_engine set_db) kc0 k 5 t
      = (if k = [97] \<and> t = SetMeta then Some (km_new RSet 0 1 2) else None)" for k t
    by (simp add: set_db_def live_meta_def km_is_expired_def km_new_def)
  have own: "live_own list_meta_ops (met mem_engine set_db) kc0 k 5 = None" for k
    by (simp add: live_own_def set_db_def list_meta_ops_def)
  have dat: "dat mem_engine set_db = Map.empty" by (simp add: set_db_def)
  show ?thesis
    using own live dat by (simp add: wrong_type_def list_rep_def other_live_def live_string_def composite_meta_tags_def)
qed

theorem list_wrong_type_witness:
  "list_call mem_engine kc0 5 1 (MPop True [[98], [97]] 3) set_db = (RError wrong_type_default, set_db)"
  using list_wrong_type [OF kv_engine_mem set_db_keys, of "MPop True [[98], [97]] 3" 1] by simp

end
