(* ===== verification/Collection.thy ===== *)
theory Collection
  imports Owned
begin

text \<open>
  Structures with a plain metadata record (\<^verbatim>\<open>impl_simple_meta!\<close>) and one data tag: sets, sorted
  integer sets and others. What such a structure stands for is the map of its subkeys. The locale
  \<open>simple_coll\<close> states what the structures share, over the tags: how a write is prepared, what a
  committed batch leaves, and that an iteration lists the subkeys once each in order.
\<close>

section \<open>The code the structures share\<close>

text \<open>\<open>prepare_set_meta_for_write\<close>, \<open>prepare_si_meta_for_write\<close>: the live record, or a new one over
  a cleaned prefix, and whether it is new.\<close>

definition prepare_simple_meta ::
    "'p engine \<Rightarrow> redis_type \<Rightarrow> key_tag \<Rightarrow> key_composer \<Rightarrow> u64 \<Rightarrow> u64 \<Rightarrow> bytes \<Rightarrow> bytes \<Rightarrow> bytes \<Rightarrow> batch \<Rightarrow> 'p wedb
       \<Rightarrow> error + ((key_meta \<times> bool) \<times> batch \<times> 'p wedb)" where
  "prepare_simple_meta E rt mt kc now_ms ts k_bytes pfx meta_k batch s =
     try_op (get_meta_checked E (simple_meta rt mt) kc s k_bytes meta_k now_ms)
       (\<lambda>m. case m of
          Some meta \<Rightarrow> Inr ((meta, False), batch, s)
        | None \<Rightarrow>
            (let batch = clear_prefix_in_batch E PData s pfx batch;
                 (meta, vs) = km_new_with_version rt 0 0 ts (w_ver s)
             in Inr ((meta, True), batch, s\<lparr>w_ver := vs\<rparr>)))"

text \<open>\<open>commit_set_batch\<close>, \<open>commit_deleted_meta\<close>: write the record back, or remove it at size zero.\<close>

definition commit_simple_batch :: "'p engine \<Rightarrow> bytes \<Rightarrow> key_meta \<Rightarrow> batch \<Rightarrow> 'p wedb \<Rightarrow> 'p wedb" where
  "commit_simple_batch E meta_k meta batch s =
     commit E (if km_size meta = 0 then rm_meta meta_k batch else insert_meta meta_k (km_encode meta) batch) s"

text \<open>The subkeys an iteration over a prefix visits.\<close>

definition iter_subs :: "'p engine \<Rightarrow> 'p \<Rightarrow> bytes \<Rightarrow> bytes list" where
  "iter_subs E p q = map (drop (length q)) (takeWhile (prefix q) (map fst (e_prefix E p q)))"

section \<open>What the structures stand for\<close>

definition sub_view :: "kv_map \<Rightarrow> bytes \<Rightarrow> kv_map" where
  "sub_view d q = (\<lambda>sub. d (q @ sub))"

definition coll_rep ::
    "redis_type \<Rightarrow> key_tag \<Rightarrow> key_tag \<Rightarrow> 'p engine \<Rightarrow> 'p wedb \<Rightarrow> key_composer \<Rightarrow> u64 \<Rightarrow> bytes \<Rightarrow> kv_map \<Rightarrow> bool" where
  "coll_rep rt mt dt E s kc now key M \<longleftrightarrow>
     live_string (dat E s) kc key now = None \<and> \<not> other_live (met E s) kc key now mt
   \<and> finite (dom M) \<and> card (dom M) < 2 ^ 63
   \<and> (case live_own (simple_meta rt mt) (met E s) kc key now of
        None \<Rightarrow> M = Map.empty
      | Some m \<Rightarrow> M \<noteq> Map.empty \<and> unat (km_size m) = card (dom M)
          \<and> sub_view (dat E s) (subkey_prefix kc dt key) = M)"

text \<open>A record of the type that stays live whatever positive size it gets.\<close>

definition sizable :: "redis_type \<Rightarrow> key_meta \<Rightarrow> u64 \<Rightarrow> bool" where
  "sizable rt m now \<longleftrightarrow> km_rtype m = rt \<and> \<not> (km_expire_at m > 0 \<and> km_expire_at m \<le> now)"

lemma sizable_size [simp]: "sizable rt (m\<lparr>km_size := n\<rparr>) now = sizable rt m now"
  by (simp add: sizable_def)

lemma sub_view_update [simp]:
  "sub_view (d(q @ k \<mapsto> v)) q = (sub_view d q)(k \<mapsto> v)"
  "sub_view (d(q @ k := None)) q = (sub_view d q)(k := None)"
  by (auto simp: sub_view_def fun_eq_iff)

lemma sub_view_get: "d (q @ k) = sub_view d q k"
  by (simp add: sub_view_def)

lemma live_own_simple:
  assumes "m (meta_key kc mt key) = Some (km_encode l)" and "sizable rt l now" and "km_size l \<noteq> 0"
  shows "live_own (simple_meta rt mt) m kc key now = Some l"
  using assms
  by (auto simp: live_own_def simple_meta_def sizable_def mo_is_expired_def km_is_expired_def)

lemma live_own_sizable:
  assumes "live_own (simple_meta rt mt) m kc key now = Some l"
  shows "sizable rt l now"
  using assms by (auto simp: live_own_def simple_meta_def mo_is_expired_def km_is_expired_def sizable_def
      simple_meta_decode_Some split: option.splits if_splits)

section \<open>Iteration\<close>

lemma sorted_list_unique:
  "sorted_wrt (<) xs \<Longrightarrow> xs = sorted_list_of_set (set (xs :: 'a::linorder list))"
  by (metis sorted_list_of_set.idem_if_sorted_distinct strict_sorted_iff)

lemma sorted_lists_unique:
  "sorted_wrt (<) xs \<Longrightarrow> sorted_wrt (<) ys \<Longrightarrow> set xs = set ys \<Longrightarrow> xs = (ys :: 'a::linorder list)"
  using sorted_list_unique [of xs] sorted_list_unique [of ys] by simp

context kv_engine
begin

lemma clear_prefix_view:
  "sub_view (apply_ops PData (clear_prefix_in_batch E PData s q' []) (dat E s)) q' = Map.empty"
  by (auto simp: clear_prefix_dat sub_view_def)

text \<open>An iteration lists the subkeys of the prefix, once each and in order.\<close>

lemma iter_subs_set: "set (iter_subs E p q') = dom (sub_view (e_get E p) q')"
  unfolding iter_subs_def takeWhile_prefix_all set_map [of "drop (length q')"] prefix_keys
  by (auto simp: sub_view_def prefix_def dom_def image_iff) force

lemma iter_subs_sorted: "sorted_wrt (<) (iter_subs E p q')"
proof -
  have "drop (length q') x < drop (length q') y"
    if "x \<in> set (map fst (e_prefix E p q'))" "y \<in> set (map fst (e_prefix E p q'))" "x < y" for x y
  proof -
    have "prefix q' x" "prefix q' y" using that(1,2) unfolding prefix_keys by simp_all
    then obtain a b where "x = q' @ a" "y = q' @ b" by (auto simp: prefix_def)
    with that(3) show ?thesis by (simp add: list_less_append_same)
  qed
  moreover have "sorted_wrt (<) (map fst (e_prefix E p q'))"
    using prefix_sorted [of p q'] by (simp add: sorted_entries_def sorted_wrt_map)
  ultimately have "sorted_wrt (\<lambda>x y. drop (length q') x < drop (length q') y) (map fst (e_prefix E p q'))"
    by (rule sorted_wrt_mono_rel)
  then show ?thesis
    unfolding iter_subs_def takeWhile_prefix_all sorted_wrt_map .
qed

lemma iter_subs_distinct: "distinct (iter_subs E p q')"
  using iter_subs_sorted strict_sorted_iff by blast

text \<open>A range scan from a subkey on, cut at the end of the prefix.\<close>

lemma scan_from:
  assumes "lo = Included q \<and> (\<forall>m. P m) \<or> (\<exists>c. lo = Excluded (q @ c) \<and> P = (\<lambda>m. c < m))"
  shows "takeWhile (prefix q) (map fst (e_range E p lo Unbounded)) = map (\<lambda>m. q @ m) (filter P (iter_subs E p q))"
proof (rule sorted_lists_unique)
  have s: "sorted_wrt (<) (map fst (e_range E p lo Unbounded))"
    using range_sorted [of p lo Unbounded] by (simp add: sorted_entries_def sorted_wrt_map)
  then show "sorted_wrt (<) (takeWhile (prefix q) (map fst (e_range E p lo Unbounded)))"
    by (rule sorted_wrt_takeWhile)
  have "sorted_wrt (<) (filter P (iter_subs E p q))"
    by (rule sorted_wrt_filter [OF iter_subs_sorted])
  then show "sorted_wrt (<) (map (\<lambda>m. q @ m) (filter P (iter_subs E p q)))"
    by (simp add: sorted_wrt_map list_less_append_same)
  have lo: "in_lower lo (q @ m) \<longleftrightarrow> P m" for m
    using assms list_le_append_same [of q "[]" m] by (auto simp: list_less_append_same)
  have ge: "q \<le> k" if "in_lower lo k" for k
  proof -
    have "q \<le> q @ c" for c using prefix_imp_le [of q "q @ c"] by simp
    then have "q @ c < k \<Longrightarrow> q \<le> k" for c by (meson less_imp_le order_trans)
    then show ?thesis using assms that by auto
  qed
  have "takeWhile (prefix q) (map fst (e_range E p lo Unbounded))
      = map fst (takeWhile (\<lambda>(k, _). prefix q k) (e_range E p lo Unbounded))"
    by (simp add: takeWhile_map comp_def case_prod_beta')
  also have "\<dots> = map fst (filter (\<lambda>(k, _). prefix q k) (e_range E p lo Unbounded))"
  proof -
    have "\<forall>kv\<in>set (e_range E p lo Unbounded). q \<le> fst kv" using ge by (auto simp: range_entries)
    from takeWhile_prefix [OF range_sorted this] show ?thesis by simp
  qed
  finally show "set (takeWhile (prefix q) (map fst (e_range E p lo Unbounded))) = set (map (\<lambda>m. q @ m) (filter P (iter_subs E p q)))"
    using lo by (auto simp: iter_subs_set sub_view_def range_entries in_fst_image prefix_def dom_def)
qed

text \<open>A range scan that never leaves the prefix, as one between two subkeys.\<close>

lemma scan_within:
  assumes pre: "\<And>k. in_lower lo k \<Longrightarrow> in_upper hi k \<Longrightarrow> prefix q k"
  shows "map fst (e_range E p lo hi)
    = map (\<lambda>m. q @ m) (filter (\<lambda>m. in_lower lo (q @ m) \<and> in_upper hi (q @ m)) (iter_subs E p q))"
proof (rule sorted_lists_unique)
  show "sorted_wrt (<) (map fst (e_range E p lo hi))"
    using range_sorted [of p lo hi] by (simp add: sorted_entries_def sorted_wrt_map)
  have "sorted_wrt (<) (filter (\<lambda>m. in_lower lo (q @ m) \<and> in_upper hi (q @ m)) (iter_subs E p q))"
    by (rule sorted_wrt_filter [OF iter_subs_sorted])
  then show "sorted_wrt (<) (map (\<lambda>m. q @ m) (filter (\<lambda>m. in_lower lo (q @ m) \<and> in_upper hi (q @ m)) (iter_subs E p q)))"
    by (simp add: sorted_wrt_map list_less_append_same)
  show "set (map fst (e_range E p lo hi))
      = set (map (\<lambda>m. q @ m) (filter (\<lambda>m. in_lower lo (q @ m) \<and> in_upper hi (q @ m)) (iter_subs E p q)))"
    using pre by (auto simp: iter_subs_set sub_view_def range_entries in_fst_image prefix_def dom_def) blast
qed

lemma scan_between:
  assumes lo: "lo = Included (q @ a) \<or> lo = Excluded (q @ a)" and hi: "hi = Included (q @ b) \<or> hi = Excluded (q @ b)"
  shows "map fst (e_range E p lo hi)
    = map (\<lambda>m. q @ m) (filter (\<lambda>m. in_lower lo (q @ m) \<and> in_upper hi (q @ m)) (iter_subs E p q))"
proof (rule scan_within)
  fix k
  assume "in_lower lo k" "in_upper hi k"
  then have "q @ a \<le> k" "k \<le> q @ b" using lo hi by auto
  then show "prefix q k" by (rule between_prefix)
qed

text \<open>The entries of a scan, from their keys.\<close>

lemma range_by_keys: "e_range E p lo hi = map (\<lambda>k. (k, the (e_get E p k))) (map fst (e_range E p lo hi))"
  unfolding map_map by (rule map_idI [symmetric]) (auto simp: range_entries)

lemma prefix_by_keys: "e_prefix E p q = map (\<lambda>m. (q @ m, the (e_get E p (q @ m)))) (iter_subs E p q)"
proof -
  have "k = q @ drop (length q) k" if "prefix q k" for k using that by (auto simp: prefix_def)
  then have "map (\<lambda>m. q @ m) (iter_subs E p q) = map fst (e_prefix E p q)"
    unfolding iter_subs_def takeWhile_prefix_all map_map by (intro map_cong) (auto dest!: prefix_keysD)
  then have "map (\<lambda>m. (q @ m, the (e_get E p (q @ m)))) (iter_subs E p q) = map (\<lambda>k. (k, the (e_get E p k))) (map fst (e_prefix E p q))"
    by (metis (no_types, lifting) comp_apply map_eq_conv map_map)
  also have "\<dots> = e_prefix E p q" unfolding map_map by (rule map_idI) (auto simp: prefix_entries)
  finally show ?thesis by simp
qed

end

section \<open>The structures\<close>

locale simple_coll = kv_engine E for E :: "'p engine" +
  fixes rt :: redis_type and mt dt :: key_tag
  assumes mt_composite: "mt \<in> set composite_meta_tags"
    and dt_sub: "dt \<notin> set whole_key_tags"
    and dt_not_string: "dt \<noteq> RawString"
begin

lemma mt_whole: "mt \<in> set whole_key_tags"
  by (rule composite_whole [OF mt_composite])

abbreviation "crep \<equiv> coll_rep rt mt dt E"
abbreviation "q kc key \<equiv> subkey_prefix kc dt key"
abbreviation "mk kc key \<equiv> meta_key kc mt key"

lemma coll_get:
  assumes "crep s kc now key M"
  shows "get_meta_checked E (simple_meta rt mt) kc s key (mk kc key) now
    = Inr (live_own (simple_meta rt mt) (met E s) kc key now)"
  using assms get_meta_checked_spec [of "simple_meta rt mt" kc s key now]
  by (auto simp: coll_rep_def simple_meta_def split: option.splits)

lemma coll_cases:
  assumes "crep s kc now key M"
  obtains (absent) "M = Map.empty" "live_own (simple_meta rt mt) (met E s) kc key now = None"
  | (present) m where "M \<noteq> Map.empty" "live_own (simple_meta rt mt) (met E s) kc key now = Some m"
      "unat (km_size m) = card (dom M)" "km_size m \<noteq> 0" "sizable rt m now"
      "sub_view (dat E s) (q kc key) = M" "finite (dom M)" "card (dom M) < 2 ^ 63"
proof (cases "live_own (simple_meta rt mt) (met E s) kc key now")
  case None
  with assms absent show ?thesis by (simp add: coll_rep_def)
next
  case (Some m)
  with assms have "M \<noteq> Map.empty" "finite (dom M)" "unat (km_size m) = card (dom M)"
    by (simp_all add: coll_rep_def)
  moreover from this have "km_size m \<noteq> 0" by auto
  ultimately show ?thesis
    using present Some assms live_own_sizable [OF Some] by (simp add: coll_rep_def)
qed

lemma coll_finite: "crep s kc now key M \<Longrightarrow> finite (dom M)"
  by (simp add: coll_rep_def)

text \<open>What a committed batch leaves.\<close>

lemma coll_commit:
  assumes rep: "crep s kc now key M" and s1: "dat E s1 = dat E s" "met E s1 = met E s"
    and t: "touches (q kc key) (mk kc key) ops"
    and m: "apply_ops PMeta ops (met E s) (mk kc key) = Some (km_encode m')"
    and ok: "sizable rt m' now" "unat (km_size m') = card (dom M')" "M' \<noteq> Map.empty"
      "finite (dom M')" "card (dom M') < 2 ^ 63"
    and view: "sub_view (apply_ops PData ops (dat E s)) (q kc key) = M'"
  shows "crep (commit E ops s1) kc now key M'"
proof -
  have "km_size m' \<noteq> 0" using ok by auto
  from live_own_simple [of "met E (commit E ops s1)" kc mt key m' rt now, OF _ ok(1) this] m
  have "live_own (simple_meta rt mt) (met E (commit E ops s1)) kc key now = Some m'" by (simp add: s1)
  then show ?thesis
    using rep touches_types [OF t dt_not_string] ok view by (simp add: coll_rep_def s1)
qed

lemma coll_commit_empty:
  assumes rep: "crep s kc now key M" and s1: "dat E s1 = dat E s" "met E s1 = met E s"
    and t: "touches (q kc key) (mk kc key) ops"
    and m: "apply_ops PMeta ops (met E s) (mk kc key) = None"
  shows "crep (commit E ops s1) kc now key Map.empty"
  using rep touches_types [OF t dt_not_string] m
  by (simp add: coll_rep_def live_own_def simple_meta_def s1)

lemma coll_frame:
  assumes "touches (q kc key) (mk kc key) ops" and "\<not> owns kc key x"
    and s1: "dat E s1 = dat E s" "met E s1 = met E s"
  shows "dat E (commit E ops s1) x = dat E s x \<and> met E (commit E ops s1) x = met E s x"
  using touches_frame [OF assms(1) mt_whole dt_sub assms(2)] by (simp add: s1)

lemma coll_commit_batch:
  assumes rep: "crep s kc now key M"
    and t: "touches (q kc key) (mk kc key) ops" and mo: "\<forall>m. apply_ops PMeta ops m = m"
    and ok: "sizable rt m' now" "unat (km_size m') = card (dom M')" "finite (dom M')" "card (dom M') < 2 ^ 63"
    and view: "sub_view (apply_ops PData ops (dat E s)) (q kc key) = M'"
  shows "crep (commit_simple_batch E (mk kc key) m' ops s) kc now key M'
    \<and> (\<forall>x. \<not> owns kc key x \<longrightarrow>
         dat E (commit_simple_batch E (mk kc key) m' ops s) x = dat E s x
       \<and> met E (commit_simple_batch E (mk kc key) m' ops s) x = met E s x)"
proof -
  let ?op = "if km_size m' = 0 then BRm PMeta (mk kc key) else BInsert PMeta (mk kc key) (km_encode m')"
  have t': "touches (q kc key) (mk kc key) (ops @ [?op])" using t by simp
  have c: "commit_simple_batch E (mk kc key) m' ops s = commit E (ops @ [?op]) s"
    by (simp add: commit_simple_batch_def rm_meta_def insert_meta_def)
  have "crep (commit E (ops @ [?op]) s) kc now key M'"
  proof (cases "M' = Map.empty")
    case True
    then have "km_size m' = 0" using ok(2) unat_zero [of "km_size m'"] by simp
    then show ?thesis using coll_commit_empty [OF rep refl refl t'] True by simp
  next
    case False
    then have "km_size m' \<noteq> 0" using ok(2,3) by auto
    then show ?thesis
      using coll_commit [OF rep refl refl t' _ ok(1,2) False ok(3,4)] view by simp
  qed
  then show ?thesis
    unfolding c using coll_frame [OF t' _ refl refl] by blast
qed

text \<open>Preparing a write.\<close>

lemma prepare_coll:
  assumes rep: "crep s kc now key M"
  obtains m batch s1 where
    "prepare_simple_meta E rt mt kc now ts key (q kc key) (mk kc key) [] s
       = Inr ((m, M = Map.empty), batch, s1)"
    "dat E s1 = dat E s" "met E s1 = met E s" "touches (q kc key) (mk kc key) batch"
    "\<forall>x. apply_ops PMeta batch x = x" "sizable rt m now" "unat (km_size m) = card (dom M)"
    "sub_view (apply_ops PData batch (dat E s)) (q kc key) = M"
    "M \<noteq> Map.empty \<longrightarrow> sub_view (dat E s) (q kc key) = M \<and> batch = [] \<and> s1 = s
       \<and> met E s (mk kc key) \<noteq> None"
  using rep
proof (cases rule: coll_cases)
  case (present m)
  then have "met E s (mk kc key) \<noteq> None" by (auto simp: live_own_def simple_meta_def split: option.splits)
  with present that [of m "[]" s] show ?thesis
    by (simp add: prepare_simple_meta_def coll_get [OF rep])
next
  case absent
  let ?b = "clear_prefix_in_batch E PData s (q kc key) []"
  obtain v vs where g: "generate_version ts (w_ver s) = (v, vs)" by (cases "generate_version ts (w_ver s)")
  define m where "m = km_new rt 0 v 0"
  define s1 where "s1 = s\<lparr>w_ver := vs\<rparr>"
  have "prepare_simple_meta E rt mt kc now ts key (q kc key) (mk kc key) [] s = Inr ((m, True), ?b, s1)"
    using absent by (simp add: prepare_simple_meta_def coll_get [OF rep] km_new_with_version_def g m_def s1_def)
  moreover have s1: "dat E s1 = dat E s" "met E s1 = met E s"
    unfolding s1_def dat_def met_def by simp_all
  moreover have "sizable rt m now" "km_size m = 0" by (simp_all add: m_def km_new_def sizable_def)
  ultimately show ?thesis
    using that [of m ?b s1] absent clear_prefix_touches clear_prefix_view by (simp add: apply_clear_prefix)
qed

lemma coll_cong:
  assumes "crep s kc now key M" and same: "same_key E kc key s s'"
  shows "crep s' kc now key M"
proof -
  have "sub_view (dat E s') (q kc key) = sub_view (dat E s) (q kc key)"
    using same_keyD(1) [OF same dt_sub] by (simp add: sub_view_def)
  moreover have "live_own (simple_meta rt mt) (met E s') kc key now = live_own (simple_meta rt mt) (met E s) kc key now"
    by (rule same_keyD(5) [OF same]) (simp add: simple_meta_def mt_composite)
  ultimately show ?thesis
    using assms(1) unfolding coll_rep_def same_keyD(3,4) [OF same] by (simp split: option.splits)
qed

end

end
