(* ===== verification/Set_Ops.thy ===== *)
theory Set_Ops
  imports Collection Slot
begin

text \<open>
  \<^verbatim>\<open>embed/src/api/set\<close>: sets. A set is a plain metadata record with the cardinality and one data
  key with an empty value per member. This theory has the operations of \<^verbatim>\<open>impl.rs\<close>, \<^verbatim>\<open>pop.rs\<close>,
  \<^verbatim>\<open>scan.rs\<close> and \<^verbatim>\<open>algebra.rs\<close>. A \<open>HashSet\<close> is a set; the order in which it is iterated, and
  the numbers and shuffles of \<open>fastrand\<close>, are arguments.
\<close>

section \<open>What the standard library and \<open>fastrand\<close> choose\<close>

type_synonym hash_iter = "bytes set \<Rightarrow> bytes list"

definition hash_iter_ok :: "hash_iter \<Rightarrow> bool" where
  "hash_iter_ok ord \<longleftrightarrow> (\<forall>S. finite S \<longrightarrow> set (ord S) = S \<and> distinct (ord S))"

text \<open>\<open>usize c lo hi\<close> is the result of the \<open>c\<close>-th call \<open>fastrand::usize(lo..hi)\<close> of an operation.\<close>

record rng =
  usize :: "nat \<Rightarrow> nat \<Rightarrow> nat \<Rightarrow> nat"
  shuffle :: "bytes list \<Rightarrow> bytes list"

definition rng_ok :: "rng \<Rightarrow> bool" where
  "rng_ok R \<longleftrightarrow> (\<forall>c lo hi. lo < hi \<longrightarrow> lo \<le> usize R c lo hi \<and> usize R c lo hi < hi)
     \<and> (\<forall>xs. length (shuffle R xs) = length xs \<and> set (shuffle R xs) = set xs)"

section \<open>Keys and metadata\<close>

definition set_meta_key :: "key_composer \<Rightarrow> bytes \<Rightarrow> bytes" where
  "set_meta_key kc key = as_bytes (compose_meta_key_stack kc (tag_slice SetMeta) key)"

definition set_prefix_stack :: "key_composer \<Rightarrow> bytes \<Rightarrow> bytes" where
  "set_prefix_stack kc key = as_bytes (compose_prefix_stack kc (tag_slice SetData) key)"

definition set_member :: "key_composer \<Rightarrow> bytes \<Rightarrow> bytes \<Rightarrow> bytes" where
  "set_member kc key item = as_bytes (compose_subkey_stack kc (tag_slice SetData) key item)"

definition key_for_member :: "key_composer \<Rightarrow> bytes \<Rightarrow> bytes \<Rightarrow> bytes" where
  "key_for_member kc key item = snd (compose_sub (sc_from_slice (set_prefix_stack kc key)) item)"

definition set_meta_ops :: "key_meta meta_ops" where
  "set_meta_ops = simple_meta RSet SetMeta"

definition get_set_meta :: "'p engine \<Rightarrow> key_composer \<Rightarrow> 'p wedb \<Rightarrow> u64 \<Rightarrow> bytes \<Rightarrow> error + key_meta option" where
  "get_set_meta E kc s now_ms key = get_meta_checked E set_meta_ops kc s key (set_meta_key kc key) now_ms"

text \<open>The pattern \<open>Some(m) if m.base.size > 0\<close> of most operations.\<close>

definition nonempty :: "key_meta option \<Rightarrow> key_meta option" where
  "nonempty m = (case m of Some x \<Rightarrow> if km_size x > 0 then Some x else None | None \<Rightarrow> None)"

section \<open>Adding and removing\<close>

definition prepare_set_meta_for_write ::
    "'p engine \<Rightarrow> key_composer \<Rightarrow> u64 \<Rightarrow> u64 \<Rightarrow> bytes \<Rightarrow> batch \<Rightarrow> 'p wedb
       \<Rightarrow> error + ((key_meta \<times> bool) \<times> batch \<times> 'p wedb)" where
  "prepare_set_meta_for_write E kc now_ms ts key batch s =
     prepare_simple_meta E RSet SetMeta kc now_ms ts key (set_prefix_stack kc key) (set_meta_key kc key) batch s"

definition sadd_one_internal ::
    "'p engine \<Rightarrow> key_composer \<Rightarrow> u64 \<Rightarrow> u64 \<Rightarrow> bytes \<Rightarrow> bytes \<Rightarrow> 'p wedb \<Rightarrow> error + (nat \<times> 'p wedb)" where
  "sadd_one_internal E kc now_ms ts key m s =
     try_op (prepare_set_meta_for_write E kc now_ms ts key [] s)
       (\<lambda>((meta, is_new), batch, s).
          let item_k = key_for_member kc key m in
          if is_new \<or> \<not> e_contains_key E (w_data s) item_k then
            let batch = insert_data item_k [] batch;
                meta = meta\<lparr>km_size := km_size meta + 1\<rparr>;
                batch = insert_meta (set_meta_key kc key) (km_encode meta) batch
            in Inr (1, commit E batch s)
          else Inr (0, s))"

definition sadd_step ::
    "'p engine \<Rightarrow> key_composer \<Rightarrow> 'p wedb \<Rightarrow> bytes \<Rightarrow> bool \<Rightarrow> bytes set \<times> nat \<times> batch \<Rightarrow> bytes \<Rightarrow> bytes set \<times> nat \<times> batch" where
  "sadd_step E kc s key is_new = (\<lambda>(seen, added, batch) m.
     if m \<in> seen then (seen, added, batch)
     else
       let item_k = key_for_member kc key m in
       if is_new \<or> \<not> e_contains_key E (w_data s) item_k
       then (insert m seen, added + 1, insert_data item_k [] batch)
       else (insert m seen, added, batch))"

definition sadd ::
    "'p engine \<Rightarrow> key_composer \<Rightarrow> u64 \<Rightarrow> u64 \<Rightarrow> bytes \<Rightarrow> bytes list \<Rightarrow> 'p wedb \<Rightarrow> error + (nat \<times> 'p wedb)" where
  "sadd E kc now_ms ts key members s =
     (if members = [] then Inr (0, s)
      else if length members = 1 then sadd_one_internal E kc now_ms ts key (members ! 0) s
      else
        try_op (prepare_set_meta_for_write E kc now_ms ts key [] s)
          (\<lambda>((meta, is_new), batch, s).
             let (_, added, batch) = foldl (sadd_step E kc s key is_new) ({}, 0, batch) members
             in if added > 0 then
                  let meta = meta\<lparr>km_size := km_size meta + word_of_nat added\<rparr>;
                      batch = insert_meta (set_meta_key kc key) (km_encode meta) batch
                  in Inr (added, commit E batch s)
                else Inr (added, s)))"

definition srem_one_internal ::
    "'p engine \<Rightarrow> key_composer \<Rightarrow> u64 \<Rightarrow> bytes \<Rightarrow> bytes \<Rightarrow> 'p wedb \<Rightarrow> error + (nat \<times> 'p wedb)" where
  "srem_one_internal E kc now_ms key m s =
     try_op (get_set_meta E kc s now_ms key)
       (\<lambda>meta. case nonempty meta of
          None \<Rightarrow> Inr (0, s)
        | Some meta \<Rightarrow>
            let item_k = key_for_member kc key m in
            if e_contains_key E (w_data s) item_k then
              let meta = meta\<lparr>km_size := saturating_sub (km_size meta) 1\<rparr>
              in Inr (1, commit_simple_batch E (set_meta_key kc key) meta (rm_weak_data item_k []) s)
            else Inr (0, s))"

definition srem_step ::
    "'p engine \<Rightarrow> key_composer \<Rightarrow> 'p wedb \<Rightarrow> bytes \<Rightarrow> bytes set \<times> nat \<times> batch \<Rightarrow> bytes \<Rightarrow> bytes set \<times> nat \<times> batch" where
  "srem_step E kc s key = (\<lambda>(seen, removed, batch) m.
     if m \<in> seen then (seen, removed, batch)
     else
       let item_k = key_for_member kc key m in
       if e_contains_key E (w_data s) item_k then (insert m seen, removed + 1, rm_weak_data item_k batch)
       else (insert m seen, removed, batch))"

definition srem ::
    "'p engine \<Rightarrow> key_composer \<Rightarrow> u64 \<Rightarrow> bytes \<Rightarrow> bytes list \<Rightarrow> 'p wedb \<Rightarrow> error + (nat \<times> 'p wedb)" where
  "srem E kc now_ms key members s =
     (if members = [] then Inr (0, s)
      else if length members = 1 then srem_one_internal E kc now_ms key (members ! 0) s
      else
        try_op (get_set_meta E kc s now_ms key)
          (\<lambda>meta. case nonempty meta of
             None \<Rightarrow> Inr (0, s)
           | Some meta \<Rightarrow>
               let (_, removed, batch) = foldl (srem_step E kc s key) ({}, 0, []) members
               in if removed > 0 then
                    let meta = meta\<lparr>km_size := saturating_sub (km_size meta) (word_of_nat removed)\<rparr>
                    in Inr (removed, commit_simple_batch E (set_meta_key kc key) meta batch s)
                  else Inr (removed, s)))"

section \<open>Reading\<close>

text \<open>The closure of an iteration as a step on the variables it captures, with its answer whether
  to go on.\<close>

fun visit :: "('a \<Rightarrow> 'b \<Rightarrow> 'a \<times> bool) \<Rightarrow> 'a \<Rightarrow> 'b list \<Rightarrow> 'a" where
  "visit f a [] = a"
| "visit f a (m # ms) = (let (a, go) = f a m in if go then visit f a ms else a)"

definition siter_prefix :: "'p engine \<Rightarrow> 'p wedb \<Rightarrow> bytes \<Rightarrow> ('a \<Rightarrow> bytes \<Rightarrow> 'a \<times> bool) \<Rightarrow> 'a \<Rightarrow> 'a" where
  "siter_prefix E s pfx f a = visit f a (iter_subs E (w_data s) pfx)"

definition siter ::
    "'p engine \<Rightarrow> key_composer \<Rightarrow> 'p wedb \<Rightarrow> u64 \<Rightarrow> bytes \<Rightarrow> ('a \<Rightarrow> bytes \<Rightarrow> 'a \<times> bool) \<Rightarrow> 'a \<Rightarrow> error + 'a" where
  "siter E kc s now_ms key f a =
     try_op (get_set_meta E kc s now_ms key)
       (\<lambda>meta. case nonempty meta of
          None \<Rightarrow> Inr a | Some _ \<Rightarrow> Inr (siter_prefix E s (set_prefix_stack kc key) f a))"

definition smembers :: "'p engine \<Rightarrow> key_composer \<Rightarrow> 'p wedb \<Rightarrow> u64 \<Rightarrow> bytes \<Rightarrow> error + bytes list" where
  "smembers E kc s now_ms key =
     try_op (get_set_meta E kc s now_ms key)
       (\<lambda>meta. case nonempty meta of
          None \<Rightarrow> Inr []
        | Some _ \<Rightarrow> Inr (siter_prefix E s (set_prefix_stack kc key) (\<lambda>ms m. (ms @ [m], True)) []))"

definition sismember :: "'p engine \<Rightarrow> key_composer \<Rightarrow> 'p wedb \<Rightarrow> u64 \<Rightarrow> bytes \<Rightarrow> bytes \<Rightarrow> error + bool" where
  "sismember E kc s now_ms key m =
     try_op (get_set_meta E kc s now_ms key)
       (\<lambda>meta. case nonempty meta of
          None \<Rightarrow> Inr False | Some _ \<Rightarrow> Inr (e_contains_key E (w_data s) (set_member kc key m)))"

definition smismember :: "'p engine \<Rightarrow> key_composer \<Rightarrow> 'p wedb \<Rightarrow> u64 \<Rightarrow> bytes \<Rightarrow> bytes list \<Rightarrow> error + bool list" where
  "smismember E kc s now_ms key members =
     (if members = [] then Inr []
      else
        try_op (get_set_meta E kc s now_ms key)
          (\<lambda>meta. case nonempty meta of
             None \<Rightarrow> Inr (replicate (length members) False)
           | Some _ \<Rightarrow> Inr (map (\<lambda>m. e_contains_key E (w_data s) (key_for_member kc key m)) members)))"

definition scard :: "'p engine \<Rightarrow> key_composer \<Rightarrow> 'p wedb \<Rightarrow> u64 \<Rightarrow> bytes \<Rightarrow> error + u64" where
  "scard E kc s now_ms key =
     try_op (get_set_meta E kc s now_ms key) (\<lambda>meta. Inr (case meta of None \<Rightarrow> 0 | Some m \<Rightarrow> km_size m))"

section \<open>Sampling\<close>

definition sample_prefix_element :: "'p engine \<Rightarrow> 'p wedb \<Rightarrow> bytes \<Rightarrow> nat \<Rightarrow> bytes option" where
  "sample_prefix_element E s pfx target_idx =
     (let ms = iter_subs E (w_data s) pfx in if target_idx < length ms then Some (ms ! target_idx) else None)"

definition spop_one ::
    "'p engine \<Rightarrow> rng \<Rightarrow> key_composer \<Rightarrow> u64 \<Rightarrow> bytes \<Rightarrow> 'p wedb \<Rightarrow> error + (bytes option \<times> 'p wedb)" where
  "spop_one E R kc now_ms key s =
     try_op (get_set_meta E kc s now_ms key)
       (\<lambda>meta. case nonempty meta of
          None \<Rightarrow> Inr (None, s)
        | Some meta \<Rightarrow>
            (case sample_prefix_element E s (set_prefix_stack kc key) (usize R 0 0 (unat (km_size meta))) of
               None \<Rightarrow> Inr (None, s)
             | Some item \<Rightarrow>
                 let meta = meta\<lparr>km_size := saturating_sub (km_size meta) 1\<rparr>
                 in Inr (Some item,
                      commit_simple_batch E (set_meta_key kc key) meta (rm_weak_data (set_member kc key item) []) s)))"

definition spop ::
    "'p engine \<Rightarrow> rng \<Rightarrow> key_composer \<Rightarrow> u64 \<Rightarrow> bytes \<Rightarrow> nat \<Rightarrow> 'p wedb \<Rightarrow> error + (bytes list \<times> 'p wedb)" where
  "spop E R kc now_ms key count s =
     (if count = 0 then Inr ([], s)
      else if count = 1 then
        try_op (spop_one E R kc now_ms key s) (\<lambda>(item, s). Inr (case item of Some i \<Rightarrow> [i] | None \<Rightarrow> [], s))
      else
        try_op (get_set_meta E kc s now_ms key)
          (\<lambda>meta. case nonempty meta of
             None \<Rightarrow> Inr ([], s)
           | Some meta \<Rightarrow>
               try_op (siter E kc s now_ms key (\<lambda>ms m. (ms @ [m], True)) [])
                 (\<lambda>members.
                    if members = [] then Inr ([], s)
                    else
                      let pop_count = min count (length members) in
                      if pop_count = length members then
                        Inr (members,
                          commit E (rm_meta (set_meta_key kc key)
                            (clear_prefix_in_batch E PData s (set_prefix_stack kc key) [])) s)
                      else
                        let popped = (if pop_count = 1 then [members ! usize R 0 0 (length members)]
                                      else take pop_count (shuffle R members));
                            batch = foldl (\<lambda>b m. rm_weak_data (key_for_member kc key m) b) [] popped;
                            meta = meta\<lparr>km_size := saturating_sub (km_size meta) (word_of_nat pop_count)\<rparr>
                        in Inr (popped, commit_simple_batch E (set_meta_key kc key) meta batch s))))"

definition srandmember_one ::
    "'p engine \<Rightarrow> rng \<Rightarrow> key_composer \<Rightarrow> 'p wedb \<Rightarrow> u64 \<Rightarrow> bytes \<Rightarrow> error + bytes option" where
  "srandmember_one E R kc s now_ms key =
     try_op (get_set_meta E kc s now_ms key)
       (\<lambda>meta. case nonempty meta of
          None \<Rightarrow> Inr None
        | Some meta \<Rightarrow>
            Inr (sample_prefix_element E s (set_prefix_stack kc key) (usize R 0 0 (unat (km_size meta)))))"

definition swap :: "nat \<Rightarrow> nat \<Rightarrow> 'a list \<Rightarrow> 'a list" where
  "swap i j xs = xs[i := xs ! j, j := xs ! i]"

definition srandmember ::
    "'p engine \<Rightarrow> rng \<Rightarrow> key_composer \<Rightarrow> 'p wedb \<Rightarrow> u64 \<Rightarrow> bytes \<Rightarrow> int \<Rightarrow> error + bytes list" where
  "srandmember E R kc s now_ms key count =
     (if count = 0 then Inr []
      else if count = 1 then
        try_op (srandmember_one E R kc s now_ms key) (\<lambda>m. Inr (case m of Some m \<Rightarrow> [m] | None \<Rightarrow> []))
      else
        try_op (smembers E kc s now_ms key)
          (\<lambda>all.
             let total = length all in
             if total = 0 then Inr []
             else if count > 0 then
               (let sample_cnt = min (nat count) total
                in if sample_cnt = total then Inr all
                   else Inr (take sample_cnt (foldl (\<lambda>all i. swap i (usize R i i total) all) all [0..<sample_cnt])))
             else Inr (map (\<lambda>i. all ! usize R i 0 total) [0..<nat \<bar>count\<bar>])))"

section \<open>Moving and overwriting\<close>

definition smove ::
    "'p engine \<Rightarrow> key_composer \<Rightarrow> u64 \<Rightarrow> u64 \<Rightarrow> bytes \<Rightarrow> bytes \<Rightarrow> bytes \<Rightarrow> 'p wedb \<Rightarrow> error + (bool \<times> 'p wedb)" where
  "smove E kc now_ms ts src dst m s =
     (if src = dst then try_op (sismember E kc s now_ms src m) (\<lambda>b. Inr (b, s))
      else
        try_op (get_set_meta E kc s now_ms src)
          (\<lambda>src_meta. case nonempty src_meta of
             None \<Rightarrow> Inr (False, s)
           | Some src_meta \<Rightarrow>
               let src_item_k = set_member kc src m in
               if \<not> e_contains_key E (w_data s) src_item_k then Inr (False, s)
               else
                 try_op (prepare_set_meta_for_write E kc now_ms ts dst [] s)
                   (\<lambda>((dst_meta, dst_is_new), batch, s).
                      let batch = rm_weak_data src_item_k batch;
                          src_meta = src_meta\<lparr>km_size := saturating_sub (km_size src_meta) 1\<rparr>;
                          batch = (if km_size src_meta = 0 then rm_meta (set_meta_key kc src) batch
                                   else insert_meta (set_meta_key kc src) (km_encode src_meta) batch);
                          dst_item_k = set_member kc dst m;
                          batch = (if dst_is_new \<or> \<not> e_contains_key E (w_data s) dst_item_k then
                                     let batch = insert_data dst_item_k [] batch;
                                         dst_meta = dst_meta\<lparr>km_size := km_size dst_meta + 1\<rparr>
                                     in insert_meta (set_meta_key kc dst) (km_encode dst_meta) batch
                                   else batch)
                      in Inr (True, commit E batch s))))"

definition overwrite_step ::
    "key_composer \<Rightarrow> bytes \<Rightarrow> bytes set \<times> nat \<times> batch \<Rightarrow> bytes \<Rightarrow> bytes set \<times> nat \<times> batch" where
  "overwrite_step kc key = (\<lambda>(seen, count, batch) m.
     if m \<in> seen then (seen, count, batch)
     else (insert m seen, count + 1, insert_data (key_for_member kc key m) [] batch))"

definition overwrite_set_iter ::
    "'p engine \<Rightarrow> key_composer \<Rightarrow> u64 \<Rightarrow> u64 \<Rightarrow> bytes \<Rightarrow> bytes list \<Rightarrow> 'p wedb \<Rightarrow> error + (nat \<times> 'p wedb)" where
  "overwrite_set_iter E kc now_ms ts key members s =
     try_op (check_key_not_other_type E kc s key (tag_slice SetMeta) now_ms)
       (\<lambda>_.
          let batch = rm_meta (set_meta_key kc key)
                        (clear_prefix_in_batch E PData s (set_prefix_stack kc key) []);
              (_, count, batch) = foldl (overwrite_step kc key) ({}, 0, batch) members
          in if count > 0 then
               let (meta, vs) = km_new_with_version RSet 0 0 ts (w_ver s);
                   meta = meta\<lparr>km_size := word_of_nat count\<rparr>;
                   batch = insert_meta (set_meta_key kc key) (km_encode meta) batch
               in Inr (count, commit E batch (s\<lparr>w_ver := vs\<rparr>))
             else Inr (count, commit E batch s))"

text \<open>\<open>overwrite_set\<close> is the same code on a slice.\<close>

definition overwrite_set where
  "overwrite_set E kc now_ms ts key members s = overwrite_set_iter E kc now_ms ts key members s"

section \<open>Scanning\<close>

definition is_match_all :: "bytes option \<Rightarrow> bool" where
  "is_match_all pattern = (case pattern of Some p \<Rightarrow> p = [42] | None \<Rightarrow> True)"

definition member_matches :: "bytes option \<Rightarrow> bytes \<Rightarrow> bool" where
  "member_matches pattern m =
     (is_match_all pattern \<or> matches_glob_bytes (case pattern of Some p \<Rightarrow> p | None \<Rightarrow> [42]) m)"

definition scan_limit :: "nat option \<Rightarrow> nat" where
  "scan_limit count = max 1 (case count of Some c \<Rightarrow> c | None \<Rightarrow> 10)"

definition sscan ::
    "'p engine \<Rightarrow> key_composer \<Rightarrow> 'p wedb \<Rightarrow> u64 \<Rightarrow> bytes \<Rightarrow> nat \<Rightarrow> bytes option \<Rightarrow> nat option
       \<Rightarrow> error + (nat \<times> bytes list)" where
  "sscan E kc s now_ms key cursor pattern count =
     (let limit = scan_limit count
      in try_op (siter E kc s now_ms key
                  (\<lambda>(skipped, matched, has_more) m.
                     if member_matches pattern m then
                       if skipped < cursor then ((skipped + 1, matched, has_more), True)
                       else if length matched < limit then ((skipped, matched @ [m], has_more), True)
                       else ((skipped, matched, True), False)
                     else ((skipped, matched, has_more), True))
                  (0, [], False))
           (\<lambda>(_, matched, has_more). Inr (if has_more then cursor + length matched else 0, matched)))"

fun scan_loop :: "bytes option \<Rightarrow> nat \<Rightarrow> nat \<Rightarrow> bytes list \<Rightarrow> bytes list \<Rightarrow> bytes option \<times> bytes list" where
  "scan_loop pattern limit prefix_len matched [] = (None, matched)"
| "scan_loop pattern limit prefix_len matched (k # ks) =
     (let m = drop prefix_len k in
      if member_matches pattern m then
        (let matched = matched @ [m]
         in if length matched \<ge> limit then (Some m, matched) else scan_loop pattern limit prefix_len matched ks)
      else scan_loop pattern limit prefix_len matched ks)"

definition sscan_by_member ::
    "'p engine \<Rightarrow> key_composer \<Rightarrow> 'p wedb \<Rightarrow> u64 \<Rightarrow> bytes \<Rightarrow> bytes option \<Rightarrow> bytes option \<Rightarrow> nat option
       \<Rightarrow> error + (bytes option \<times> bytes list)" where
  "sscan_by_member E kc s now_ms key cursor pattern count =
     try_op (get_set_meta E kc s now_ms key)
       (\<lambda>meta. case nonempty meta of
          None \<Rightarrow> Inr (None, [])
        | Some _ \<Rightarrow>
            let limit = scan_limit count; pfx = set_prefix_stack kc key;
                start = (case cursor of Some c \<Rightarrow> Excluded (set_member kc key c) | None \<Rightarrow> Included pfx)
            in Inr (scan_loop pattern limit (length pfx) []
                 (takeWhile (prefix pfx) (map fst (e_range E (w_data s) start Unbounded)))))"

section \<open>Set algebra\<close>

definition apply_set_limit :: "bytes set option \<Rightarrow> nat \<Rightarrow> nat" where
  "apply_set_limit set_opt limit =
     (case set_opt of Some S \<Rightarrow> (if limit = 0 then card S else min (card S) limit) | None \<Rightarrow> 0)"

definition apply_card_limit :: "nat \<Rightarrow> nat \<Rightarrow> nat" where
  "apply_card_limit c limit = (if limit = 0 then c else min c limit)"

definition store_set_opt ::
    "'p engine \<Rightarrow> hash_iter \<Rightarrow> key_composer \<Rightarrow> u64 \<Rightarrow> u64 \<Rightarrow> bytes \<Rightarrow> bytes set option \<Rightarrow> 'p wedb \<Rightarrow> error + (nat \<times> 'p wedb)" where
  "store_set_opt E ord kc now_ms ts dst set_opt s =
     (case set_opt of
        Some S \<Rightarrow> overwrite_set_iter E kc now_ms ts dst (ord S) s
      | None \<Rightarrow> overwrite_set E kc now_ms ts dst [] s)"

text \<open>Collecting the members of a key into a \<open>HashSet\<close>.\<close>

definition collect :: "'p engine \<Rightarrow> key_composer \<Rightarrow> 'p wedb \<Rightarrow> u64 \<Rightarrow> bytes \<Rightarrow> bytes set \<Rightarrow> error + bytes set" where
  "collect E kc s now_ms key S = siter E kc s now_ms key (\<lambda>S m. (insert m S, True)) S"

fun key_cards :: "'p engine \<Rightarrow> key_composer \<Rightarrow> 'p wedb \<Rightarrow> u64 \<Rightarrow> (bytes \<times> u64) list \<Rightarrow> bytes list \<Rightarrow> error + (bytes \<times> u64) list option" where
  "key_cards E kc s now_ms acc [] = Inr (Some acc)"
| "key_cards E kc s now_ms acc (k # ks) =
     try_op (scard E kc s now_ms k)
       (\<lambda>c. if c = 0 then Inr None else key_cards E kc s now_ms (acc @ [(k, c)]) ks)"

text \<open>\<open>sismember(..).unwrap_or(false)\<close>.\<close>

definition is_member :: "'p engine \<Rightarrow> key_composer \<Rightarrow> 'p wedb \<Rightarrow> u64 \<Rightarrow> bytes \<Rightarrow> bytes \<Rightarrow> bool" where
  "is_member E kc s now_ms k m = (case sismember E kc s now_ms k m of Inr b \<Rightarrow> b | Inl _ \<Rightarrow> False)"

definition saturating_mul :: "nat \<Rightarrow> nat \<Rightarrow> nat" where
  "saturating_mul a b = min (a * b) (2 ^ 64 - 1)"

definition intersect_step ::
    "'p engine \<Rightarrow> key_composer \<Rightarrow> 'p wedb \<Rightarrow> u64 \<Rightarrow> bytes \<Rightarrow> u64 \<Rightarrow> bytes set \<Rightarrow> error + bytes set" where
  "intersect_step E kc s now_ms k c current =
     (if saturating_mul (card current) 4 < unat c then Inr (Set.filter (is_member E kc s now_ms k) current)
      else
        try_op (siter E kc s now_ms k
                 (\<lambda>(current, next_set) m.
                    if m \<in> current then
                      ((current - {m}, insert m next_set), current - {m} \<noteq> {})
                    else ((current, next_set), True))
                 (current, {}))
          (\<lambda>(_, next_set). Inr next_set))"

fun intersect_loop ::
    "'p engine \<Rightarrow> key_composer \<Rightarrow> 'p wedb \<Rightarrow> u64 \<Rightarrow> bytes set \<Rightarrow> (bytes \<times> u64) list \<Rightarrow> error + bytes set option" where
  "intersect_loop E kc s now_ms current [] = Inr (Some current)"
| "intersect_loop E kc s now_ms current ((k, c) # kcs) =
     (if current = {} then Inr None
      else try_op (intersect_step E kc s now_ms k c current)
             (\<lambda>current. intersect_loop E kc s now_ms current kcs))"

text \<open>\<open>sort_unstable_by_key\<close>: any order of keys with the same cardinality will do; the model takes
  the stable one.\<close>

definition compute_sinter_set ::
    "'p engine \<Rightarrow> key_composer \<Rightarrow> 'p wedb \<Rightarrow> u64 \<Rightarrow> bytes list \<Rightarrow> error + bytes set option" where
  "compute_sinter_set E kc s now_ms keys =
     (if keys = [] then Inr None
      else if length keys = 1 then try_op (collect E kc s now_ms (keys ! 0) {}) (\<lambda>S. Inr (Some S))
      else
        try_op (key_cards E kc s now_ms [] keys)
          (\<lambda>kcs. case kcs of
             None \<Rightarrow> Inr None
           | Some kcs \<Rightarrow>
               let kcs = sort_key snd kcs
               in try_op (collect E kc s now_ms (fst (kcs ! 0)) {})
                    (\<lambda>current. intersect_loop E kc s now_ms current (tl kcs))))"

definition sinter :: "'p engine \<Rightarrow> hash_iter \<Rightarrow> key_composer \<Rightarrow> 'p wedb \<Rightarrow> u64 \<Rightarrow> bytes list \<Rightarrow> error + bytes list" where
  "sinter E ord kc s now_ms keys =
     try_op (compute_sinter_set E kc s now_ms keys) (\<lambda>S. Inr (case S of Some S \<Rightarrow> ord S | None \<Rightarrow> []))"

definition sinterstore ::
    "'p engine \<Rightarrow> hash_iter \<Rightarrow> key_composer \<Rightarrow> u64 \<Rightarrow> u64 \<Rightarrow> bytes \<Rightarrow> bytes list \<Rightarrow> 'p wedb \<Rightarrow> error + (nat \<times> 'p wedb)" where
  "sinterstore E ord kc now_ms ts dst keys s =
     try_op (compute_sinter_set E kc s now_ms keys) (\<lambda>S. store_set_opt E ord kc now_ms ts dst S s)"

definition sintercard :: "'p engine \<Rightarrow> key_composer \<Rightarrow> 'p wedb \<Rightarrow> u64 \<Rightarrow> bytes list \<Rightarrow> nat \<Rightarrow> error + nat" where
  "sintercard E kc s now_ms keys limit =
     (if keys = [] then Inr 0
      else if length keys = 1 then
        try_op (scard E kc s now_ms (keys ! 0)) (\<lambda>c. Inr (apply_card_limit (unat c) limit))
      else try_op (compute_sinter_set E kc s now_ms keys) (\<lambda>S. Inr (apply_set_limit S limit)))"

fun union_loop :: "'p engine \<Rightarrow> key_composer \<Rightarrow> 'p wedb \<Rightarrow> u64 \<Rightarrow> bytes set \<Rightarrow> bytes list \<Rightarrow> error + bytes set" where
  "union_loop E kc s now_ms S [] = Inr S"
| "union_loop E kc s now_ms S (k # ks) =
     try_op (siter E kc s now_ms k (\<lambda>S m. (if m \<notin> S then insert m S else S, True)) S)
       (\<lambda>S. union_loop E kc s now_ms S ks)"

definition compute_sunion_set ::
    "'p engine \<Rightarrow> key_composer \<Rightarrow> 'p wedb \<Rightarrow> u64 \<Rightarrow> bytes list \<Rightarrow> error + bytes set" where
  "compute_sunion_set E kc s now_ms keys =
     (if keys = [] then Inr {}
      else try_op (scard E kc s now_ms (keys ! 0)) (\<lambda>_. union_loop E kc s now_ms {} keys))"

definition sunion :: "'p engine \<Rightarrow> hash_iter \<Rightarrow> key_composer \<Rightarrow> 'p wedb \<Rightarrow> u64 \<Rightarrow> bytes list \<Rightarrow> error + bytes list" where
  "sunion E ord kc s now_ms keys =
     (if keys = [] then Inr []
      else if length keys = 1 then smembers E kc s now_ms (keys ! 0)
      else try_op (compute_sunion_set E kc s now_ms keys) (\<lambda>S. Inr (ord S)))"

definition sunionstore ::
    "'p engine \<Rightarrow> hash_iter \<Rightarrow> key_composer \<Rightarrow> u64 \<Rightarrow> u64 \<Rightarrow> bytes \<Rightarrow> bytes list \<Rightarrow> 'p wedb \<Rightarrow> error + (nat \<times> 'p wedb)" where
  "sunionstore E ord kc now_ms ts dst keys s =
     try_op (compute_sunion_set E kc s now_ms keys) (\<lambda>S. overwrite_set_iter E kc now_ms ts dst (ord S) s)"

text \<open>SUNIONCARD counts hashes: \<open>rapidhash\<close> is the third-party hash function.\<close>

fun hash_limited ::
    "'p engine \<Rightarrow> (bytes \<Rightarrow> u64) \<Rightarrow> key_composer \<Rightarrow> 'p wedb \<Rightarrow> u64 \<Rightarrow> nat \<Rightarrow> u64 set \<Rightarrow> bytes list \<Rightarrow> error + nat" where
  "hash_limited E rapidhash kc s now_ms limit H [] = Inr (min (card H) limit)"
| "hash_limited E rapidhash kc s now_ms limit H (k # ks) =
     try_op (siter E kc s now_ms k
              (\<lambda>H m. let H = insert (rapidhash m) H in (H, card H < limit)) H)
       (\<lambda>H. if card H \<ge> limit then Inr limit else hash_limited E rapidhash kc s now_ms limit H ks)"

fun hash_all ::
    "'p engine \<Rightarrow> (bytes \<Rightarrow> u64) \<Rightarrow> key_composer \<Rightarrow> 'p wedb \<Rightarrow> u64 \<Rightarrow> u64 set \<Rightarrow> bytes list \<Rightarrow> error + nat" where
  "hash_all E rapidhash kc s now_ms H [] = Inr (card H)"
| "hash_all E rapidhash kc s now_ms H (k # ks) =
     try_op (siter E kc s now_ms k (\<lambda>H m. (insert (rapidhash m) H, True)) H)
       (\<lambda>H. hash_all E rapidhash kc s now_ms H ks)"

definition sunioncard ::
    "'p engine \<Rightarrow> (bytes \<Rightarrow> u64) \<Rightarrow> key_composer \<Rightarrow> 'p wedb \<Rightarrow> u64 \<Rightarrow> bytes list \<Rightarrow> nat \<Rightarrow> error + nat" where
  "sunioncard E rapidhash kc s now_ms keys limit =
     (if keys = [] then Inr 0
      else if length keys = 1 then
        try_op (scard E kc s now_ms (keys ! 0)) (\<lambda>c. Inr (apply_card_limit (unat c) limit))
      else if limit > 0 then hash_limited E rapidhash kc s now_ms limit {} keys
      else hash_all E rapidhash kc s now_ms {} keys)"

definition subtract_step ::
    "'p engine \<Rightarrow> key_composer \<Rightarrow> 'p wedb \<Rightarrow> u64 \<Rightarrow> bytes \<Rightarrow> u64 \<Rightarrow> bytes set \<Rightarrow> error + bytes set" where
  "subtract_step E kc s now_ms k c current =
     (if c = 0 then Inr current
      else if saturating_mul (card current) 4 < unat c then
        Inr (Set.filter (\<lambda>m. \<not> is_member E kc s now_ms k m) current)
      else siter E kc s now_ms k (\<lambda>current m. (current - {m}, current - {m} \<noteq> {})) current)"

fun subtract_loop ::
    "'p engine \<Rightarrow> key_composer \<Rightarrow> 'p wedb \<Rightarrow> u64 \<Rightarrow> bytes set \<Rightarrow> bytes list \<Rightarrow> error + bytes set option" where
  "subtract_loop E kc s now_ms current [] = Inr (Some current)"
| "subtract_loop E kc s now_ms current (k # ks) =
     (if current = {} then Inr None
      else try_op (scard E kc s now_ms k)
             (\<lambda>c. try_op (subtract_step E kc s now_ms k c current)
                    (\<lambda>current. subtract_loop E kc s now_ms current ks)))"

definition compute_sdiff_set ::
    "'p engine \<Rightarrow> key_composer \<Rightarrow> 'p wedb \<Rightarrow> u64 \<Rightarrow> bytes list \<Rightarrow> error + bytes set option" where
  "compute_sdiff_set E kc s now_ms keys =
     (if keys = [] then Inr None
      else try_op (scard E kc s now_ms (keys ! 0))
             (\<lambda>c. if c = 0 then Inr None
                  else try_op (collect E kc s now_ms (keys ! 0) {})
                         (\<lambda>current. subtract_loop E kc s now_ms current (tl keys))))"

definition sdiff :: "'p engine \<Rightarrow> hash_iter \<Rightarrow> key_composer \<Rightarrow> 'p wedb \<Rightarrow> u64 \<Rightarrow> bytes list \<Rightarrow> error + bytes list" where
  "sdiff E ord kc s now_ms keys =
     try_op (compute_sdiff_set E kc s now_ms keys) (\<lambda>S. Inr (case S of Some S \<Rightarrow> ord S | None \<Rightarrow> []))"

definition sdiffstore ::
    "'p engine \<Rightarrow> hash_iter \<Rightarrow> key_composer \<Rightarrow> u64 \<Rightarrow> u64 \<Rightarrow> bytes \<Rightarrow> bytes list \<Rightarrow> 'p wedb \<Rightarrow> error + (nat \<times> 'p wedb)" where
  "sdiffstore E ord kc now_ms ts dst keys s =
     try_op (compute_sdiff_set E kc s now_ms keys) (\<lambda>S. store_set_opt E ord kc now_ms ts dst S s)"

definition sdiffcard :: "'p engine \<Rightarrow> key_composer \<Rightarrow> 'p wedb \<Rightarrow> u64 \<Rightarrow> bytes list \<Rightarrow> nat \<Rightarrow> error + nat" where
  "sdiffcard E kc s now_ms keys limit =
     (if keys = [] then Inr 0
      else if length keys = 1 then
        try_op (scard E kc s now_ms (keys ! 0)) (\<lambda>c. Inr (apply_card_limit (unat c) limit))
      else try_op (compute_sdiff_set E kc s now_ms keys) (\<lambda>S. Inr (apply_set_limit S limit)))"

end
