(* ===== verification/Set_Rep.thy ===== *)
theory Set_Rep
  imports Set_Ops
begin

text \<open>
  The set operations against the set a key stands for: what each reads, and what each write leaves.
\<close>

section \<open>Keys, records and visits in closed form\<close>

abbreviation sq :: "key_composer \<Rightarrow> bytes \<Rightarrow> bytes" where
  "sq kc key \<equiv> subkey_prefix kc SetData key"

abbreviation sk :: "key_composer \<Rightarrow> bytes \<Rightarrow> bytes" where
  "sk kc key \<equiv> meta_key kc SetMeta key"

lemma set_keys [simp]:
  "set_meta_key kc key = sk kc key"
  "set_prefix_stack kc key = sq kc key"
  "set_member kc key m = sq kc key @ m"
  "key_for_member kc key m = sq kc key @ m"
proof -
  show p: "set_prefix_stack kc key = sq kc key"
    by (simp add: set_prefix_stack_def subkey_prefix_def)
  show "key_for_member kc key m = sq kc key @ m"
    unfolding key_for_member_def
    using sc_for_compose [OF sc_for_from_slice [of "sq kc key"]] by (simp add: p)
qed (simp_all add: set_meta_key_def set_member_def meta_key_def subkey_prefix_def)

lemma visit_all: "(\<And>a m. snd (f a m)) \<Longrightarrow> visit f a ms = foldl (\<lambda>a m. fst (f a m)) a ms"
  by (induction ms arbitrary: a) (simp_all add: split_beta)

lemma foldl_snoc: "foldl (\<lambda>xs x. xs @ [x]) acc xs = acc @ xs"
  by (induction xs arbitrary: acc) simp_all

lemma foldl_insert: "foldl (\<lambda>S x. insert x S) S xs = S \<union> set xs"
  by (induction xs arbitrary: S) auto

definition set_rep :: "'p engine \<Rightarrow> 'p wedb \<Rightarrow> key_composer \<Rightarrow> u64 \<Rightarrow> bytes \<Rightarrow> bytes set \<Rightarrow> bool" where
  "set_rep E s kc now key S \<longleftrightarrow> (\<exists>M. dom M = S \<and> coll_rep RSet SetMeta SetData E s kc now key M)"

sublocale kv_engine \<subseteq> sets: simple_coll E RSet SetMeta SetData
  by unfold_locales (simp_all add: composite_meta_tags_def whole_key_tags_def)

context kv_engine
begin

lemma set_rep_finite: "set_rep E s kc now key S \<Longrightarrow> finite S \<and> card S < 2 ^ 63"
  by (auto simp: set_rep_def coll_rep_def)

lemma set_get_eq:
  "get_set_meta E kc s now key = get_meta_checked E (simple_meta RSet SetMeta) kc s key (sk kc key) now"
  by (simp add: get_set_meta_def set_meta_ops_def)

lemma set_cases:
  assumes "set_rep E s kc now key S"
  obtains (absent) "S = {}" "get_set_meta E kc s now key = Inr None"
  | (present) m where "S \<noteq> {}" "get_set_meta E kc s now key = Inr (Some m)"
      "nonempty (Some m) = Some m" "unat (km_size m) = card S" "sizable RSet m now"
      "dom (sub_view (dat E s) (sq kc key)) = S" "finite S" "card S < 2 ^ 63"
proof -
  obtain M where M: "dom M = S" "coll_rep RSet SetMeta SetData E s kc now key M"
    using assms by (auto simp: set_rep_def)
  show ?thesis
    using M(2)
  proof (cases rule: sets.coll_cases)
    case absent
    then show ?thesis using that(1) M sets.coll_get [OF M(2)] by (simp add: set_get_eq)
  next
    case (present m)
    then have "nonempty (Some m) = Some m" by (simp add: nonempty_def word_neq_0_conv)
    then show ?thesis
      using that(2) [of m] present M(1) sets.coll_get [OF M(2)] by (auto simp: set_get_eq)
  qed
qed

lemma set_member_iff:
  assumes "dom (sub_view (dat E s) (sq kc key)) = S"
  shows "e_contains_key E (w_data s) (sq kc key @ m) \<longleftrightarrow> m \<in> S"
  using assms by (auto simp: sub_view_def)

section \<open>Reading\<close>

lemma set_iter_subs:
  assumes "dom (sub_view (dat E s) (sq kc key)) = S"
  shows "iter_subs E (w_data s) (sq kc key) = sorted_list_of_set S"
  using sorted_list_unique [OF iter_subs_sorted [of "w_data s" "sq kc key"]]
    iter_subs_set [of "w_data s" "sq kc key"] assms by simp

lemma siter_rep:
  assumes "set_rep E s kc now key S"
  shows "siter E kc s now key f a = Inr (visit f a (sorted_list_of_set S))"
  using assms
proof (cases rule: set_cases)
  case absent
  then show ?thesis by (simp add: siter_def nonempty_def)
next
  case (present m)
  then show ?thesis by (simp add: siter_def siter_prefix_def set_iter_subs)
qed

lemma smembers_rep:
  assumes "set_rep E s kc now key S"
  shows "smembers E kc s now key = Inr (sorted_list_of_set S)"
  using assms
proof (cases rule: set_cases)
  case absent
  then show ?thesis by (simp add: smembers_def nonempty_def)
next
  case (present m)
  then show ?thesis by (simp add: smembers_def siter_prefix_def set_iter_subs visit_all foldl_snoc)
qed

lemma sismember_rep:
  assumes "set_rep E s kc now key S"
  shows "sismember E kc s now key m = Inr (m \<in> S)"
  using assms
proof (cases rule: set_cases)
  case absent
  then show ?thesis by (simp add: sismember_def nonempty_def)
next
  case (present x)
  then show ?thesis using set_member_iff [OF present(6)] by (simp add: sismember_def)
qed

lemma is_member_rep: "set_rep E s kc now key S \<Longrightarrow> is_member E kc s now key m \<longleftrightarrow> m \<in> S"
  by (simp add: is_member_def sismember_rep)

lemma smismember_rep:
  assumes "set_rep E s kc now key S"
  shows "smismember E kc s now key ms = Inr (map (\<lambda>m. m \<in> S) ms)"
  using assms
proof (cases rule: set_cases)
  case absent
  then show ?thesis by (simp add: smismember_def nonempty_def map_replicate_const)
next
  case (present x)
  then show ?thesis using set_member_iff [OF present(6)] by (simp add: smismember_def)
qed

lemma scard_rep:
  assumes "set_rep E s kc now key S"
  shows "scard E kc s now key = Inr (word_of_nat (card S))"
  using assms
proof (cases rule: set_cases)
  case absent
  then show ?thesis by (simp add: scard_def)
next
  case (present x)
  then have "km_size x = word_of_nat (card S)" by (metis of_nat_unat ucast_id)
  with present show ?thesis by (simp add: scard_def)
qed

lemma collect_rep:
  assumes "set_rep E s kc now key S"
  shows "collect E kc s now key T = Inr (T \<union> S)"
  using assms set_rep_finite [OF assms]
  by (simp add: collect_def siter_rep visit_all foldl_insert)

lemma sample_rep:
  assumes "dom (sub_view (dat E s) (sq kc key)) = S"
  shows "sample_prefix_element E s (sq kc key) i = (if i < card S then Some (sorted_list_of_set S ! i) else None)"
  by (simp add: sample_prefix_element_def Let_def set_iter_subs [OF assms])

end

section \<open>Batches of members\<close>

text \<open>The members a loop with a \<open>seen\<close> set acts on: the first occurrence of each that is not in \<open>P\<close>.\<close>

fun fresh :: "'a set \<Rightarrow> 'a set \<Rightarrow> 'a list \<Rightarrow> 'a list" where
  "fresh seen P [] = []"
| "fresh seen P (m # ms) =
     (if m \<in> seen then fresh seen P ms
      else (if m \<in> P then [] else [m]) @ fresh (insert m seen) P ms)"

lemma set_fresh: "set (fresh seen P ms) = set ms - seen - P"
  by (induction ms arbitrary: seen) auto

lemma distinct_fresh: "distinct (fresh seen P ms)"
  by (induction ms arbitrary: seen) (auto simp: set_fresh)

lemma length_fresh: "length (fresh seen P ms) = card (set ms - seen - P)"
  by (metis distinct_card distinct_fresh set_fresh)

abbreviation ins_members :: "bytes \<Rightarrow> bytes list \<Rightarrow> batch" where
  "ins_members q \<equiv> map (\<lambda>m. BInsert PData (q @ m) [])"

abbreviation rm_members :: "bytes \<Rightarrow> bytes list \<Rightarrow> batch" where
  "rm_members q \<equiv> map (\<lambda>m. BRmWeak PData (q @ m))"

lemma members_batch [simp]:
  "touches q mk (ins_members q ms)" "touches q mk (rm_members q ms)"
  "apply_ops PMeta (ins_members q ms) x = x" "apply_ops PMeta (rm_members q ms) x = x"
  by (auto simp: touches_def) (induction ms arbitrary: x; simp)+

lemma members_view:
  "sub_view (apply_ops PData (ins_members q ms) d) q = (\<lambda>k. if k \<in> set ms then Some [] else sub_view d q k)"
  "sub_view (apply_ops PData (rm_members q ms) d) q = (\<lambda>k. if k \<in> set ms then None else sub_view d q k)"
  by (induction ms arbitrary: d) (auto simp: fun_eq_iff)

lemma dom_if_Some: "dom (\<lambda>k. if k \<in> A then Some v else f k) = A \<union> dom f"
  by (auto split: if_splits)

lemma dom_if_None: "dom (\<lambda>k. if k \<in> A then None else f k) = dom f - A"
  by (auto split: if_splits)

context kv_engine
begin

lemma sadd_fold:
  assumes "\<And>m. (is_new \<or> \<not> e_contains_key E (w_data s) (sq kc key @ m)) \<longleftrightarrow> m \<notin> P"
  shows "foldl (sadd_step E kc s key is_new) (seen, n, batch) ms
    = (seen \<union> set ms, n + length (fresh seen P ms), batch @ ins_members (sq kc key) (fresh seen P ms))"
proof (induction ms arbitrary: seen n batch)
  case (Cons m ms)
  show ?case
    using assms [of m] Cons by (cases "m \<in> seen"; cases "m \<in> P") (auto simp: sadd_step_def insert_data_def)
qed simp

lemma srem_fold:
  assumes "\<And>m. e_contains_key E (w_data s) (sq kc key @ m) \<longleftrightarrow> m \<in> S"
  shows "foldl (srem_step E kc s key) (seen, n, batch) ms
    = (seen \<union> set ms, n + length (fresh seen (- S) ms), batch @ rm_members (sq kc key) (fresh seen (- S) ms))"
proof (induction ms arbitrary: seen n batch)
  case (Cons m ms)
  show ?case
    using assms [of m] Cons by (cases "m \<in> seen"; cases "m \<in> S") (auto simp: srem_step_def rm_weak_data_def)
qed simp

lemma overwrite_fold:
  "foldl (overwrite_step kc key) (seen, n, batch) ms
    = (seen \<union> set ms, n + length (fresh seen {} ms), batch @ ins_members (sq kc key) (fresh seen {} ms))"
proof (induction ms arbitrary: seen n batch)
  case (Cons m ms)
  then show ?case by (cases "m \<in> seen") (auto simp: overwrite_step_def insert_data_def)
qed simp

section \<open>Adding and removing\<close>

text \<open>The fast path for one member is the general one.\<close>

lemma sadd_general:
  assumes "ms \<noteq> []"
  shows "sadd E kc now ts key ms s =
    try_op (prepare_set_meta_for_write E kc now ts key [] s)
      (\<lambda>((meta, is_new), batch, s).
         let (_, added, batch) = foldl (sadd_step E kc s key is_new) ({}, 0, batch) ms
         in if added > 0 then
              let meta = meta\<lparr>km_size := km_size meta + word_of_nat added\<rparr>;
                  batch = insert_meta (set_meta_key kc key) (km_encode meta) batch
              in Inr (added, commit E batch s)
            else Inr (added, s))"
proof (cases "length ms = 1")
  case True
  then obtain m where "ms = [m]" by (auto simp: length_Suc_conv)
  then show ?thesis
    by (auto simp: sadd_def sadd_one_internal_def sadd_step_def Let_def fun_eq_iff
        intro!: arg_cong [of _ _ "try_op (prepare_set_meta_for_write E kc now ts key [] s)"])
qed (use assms in \<open>simp add: sadd_def\<close>)

lemma srem_general:
  assumes "ms \<noteq> []"
  shows "srem E kc now key ms s =
    try_op (get_set_meta E kc s now key)
      (\<lambda>meta. case nonempty meta of
         None \<Rightarrow> Inr (0, s)
       | Some meta \<Rightarrow>
           let (_, removed, batch) = foldl (srem_step E kc s key) ({}, 0, []) ms
           in if removed > 0 then
                let meta = meta\<lparr>km_size := saturating_sub (km_size meta) (word_of_nat removed)\<rparr>
                in Inr (removed, commit_simple_batch E (set_meta_key kc key) meta batch s)
              else Inr (removed, s))"
proof (cases "length ms = 1")
  case True
  then obtain m where "ms = [m]" by (auto simp: length_Suc_conv)
  then show ?thesis
    by (auto simp: srem_def srem_one_internal_def srem_step_def Let_def fun_eq_iff
        intro!: arg_cong [of _ _ "try_op (get_set_meta E kc s now key)"] split: option.splits)
qed (use assms in \<open>simp add: srem_def\<close>)

lemma sadd_rep:
  assumes rep: "set_rep E s kc now key S" and len: "card S + length ms < 2 ^ 63"
  shows "\<exists>s'. sadd E kc now ts key ms s = Inr (card (set ms - S), s')
    \<and> set_rep E s' kc now key (S \<union> set ms)
    \<and> (\<forall>x. \<not> owns kc key x \<longrightarrow> dat E s' x = dat E s x \<and> met E s' x = met E s x)"
proof (cases "ms = []")
  case True
  then show ?thesis using rep by (auto simp: sadd_def)
next
  case False
  obtain M where M: "dom M = S" "coll_rep RSet SetMeta SetData E s kc now key M"
    using rep by (auto simp: set_rep_def)
  obtain m batch s1 where p:
    "prepare_simple_meta E RSet SetMeta kc now ts key (sq kc key) (sk kc key) [] s = Inr ((m, M = Map.empty), batch, s1)"
    and s1: "dat E s1 = dat E s" "met E s1 = met E s"
    and b: "touches (sq kc key) (sk kc key) batch" "\<forall>x. apply_ops PMeta batch x = x"
    and m: "sizable RSet m now" "unat (km_size m) = card (dom M)"
    and view: "sub_view (apply_ops PData batch (dat E s)) (sq kc key) = M"
    and old: "M \<noteq> Map.empty \<longrightarrow> sub_view (dat E s) (sq kc key) = M \<and> batch = [] \<and> s1 = s \<and> met E s (sk kc key) \<noteq> None"
    by (rule sets.prepare_coll [OF M(2), where ts = ts])
  define ns where "ns = fresh {} S ms"
  have ns: "set ns = set ms - S" "length ns = card (set ms - S)"
    by (simp_all add: ns_def set_fresh length_fresh)
  have "(M = Map.empty \<or> \<not> e_contains_key E (w_data s1) (sq kc key @ x)) \<longleftrightarrow> x \<notin> S" for x
  proof (cases "M = Map.empty")
    case False
    then show ?thesis using set_member_iff [of s kc key S x] old M(1) by auto
  qed (use M(1) in auto)
  note fold = sadd_fold [of "M = Map.empty" s1 kc key S, OF this, where seen = "{}" and n = 0 and ms = ms, folded ns_def]
  define m' where "m' = m\<lparr>km_size := km_size m + word_of_nat (length ns)\<rparr>"
  let ?ops = "(batch @ ins_members (sq kc key) ns) @ [BInsert PMeta (sk kc key) (km_encode m')]"
  have run: "sadd E kc now ts key ms s = Inr (length ns, if ns = [] then s1 else commit E ?ops s1)"
    unfolding sadd_general [OF False] using p by (simp add: prepare_set_meta_for_write_def fold m'_def insert_meta_def)
  show ?thesis
  proof (cases "ns = []")
    case True
    then have "S \<union> set ms = S" using ns by auto
    moreover have "s1 = s" using True ns False old M(1) by (cases ms) auto
    ultimately show ?thesis using rep run True ns by simp
  next
    case ne: False
    have le: "card (set ms - S) \<le> length ms"
      using card_mono [of "set ms" "set ms - S"] card_length [of ms] by (simp add: le_trans)
    have c: "card (S \<union> set ms) = card S + length ns"
      using set_rep_finite [OF rep] ns(2) card_Un_disjoint [of S "set ms - S"] by simp
    define M' where "M' = (\<lambda>k. if k \<in> set ns then Some [] else M k)"
    have d: "dom M' = S \<union> set ms" using ns M(1) by (auto simp: M'_def dom_if_Some)
    have t: "touches (sq kc key) (sk kc key) ?ops" using b(1) by simp
    have "coll_rep RSet SetMeta SetData E (commit E ?ops s1) kc now key M'"
    proof (rule sets.coll_commit [OF M(2) s1 t])
      show "sub_view (apply_ops PData ?ops (dat E s)) (sq kc key) = M'"
        using members_view(1) [of "sq kc key" ns "apply_ops PData batch (dat E s)"] unfolding view M'_def by simp
      show "unat (km_size m') = card (dom M')"
        using m(2) M(1) len le ns(2) c by (simp add: m'_def unat_word_ariths unat_of_nat d)
      show "M' \<noteq> Map.empty" using False d by auto
      show "card (dom M') < 2 ^ 63" "finite (dom M')"
        using c le len ns(2) set_rep_finite [OF rep] unfolding d by simp_all
    qed (use m(1) in \<open>simp_all add: m'_def\<close>)
    then have "set_rep E (commit E ?ops s1) kc now key (S \<union> set ms)"
      unfolding set_rep_def using d by blast
    then show ?thesis using run ne ns(2) sets.coll_frame [OF t _ s1] by auto
  qed
qed

lemma srem_members:
  assumes rep: "set_rep E s kc now key S" and p: "get_set_meta E kc s now key = Inr (Some m)"
    and sz: "unat (km_size m) = card S" "sizable RSet m now" and dom: "dom (sub_view (dat E s) (sq kc key)) = S"
    and ns: "set ns \<subseteq> S" "distinct ns"
  defines "s' \<equiv> commit_simple_batch E (sk kc key)
      (m\<lparr>km_size := saturating_sub (km_size m) (word_of_nat (length ns))\<rparr>) (rm_members (sq kc key) ns) s"
  shows "set_rep E s' kc now key (S - set ns)
    \<and> (\<forall>x. \<not> owns kc key x \<longrightarrow> dat E s' x = dat E s x \<and> met E s' x = met E s x)"
proof -
  obtain M where M: "dom M = S" "coll_rep RSet SetMeta SetData E s kc now key M"
    using rep by (auto simp: set_rep_def)
  let ?m = "m\<lparr>km_size := saturating_sub (km_size m) (word_of_nat (length ns))\<rparr>"
  let ?M = "\<lambda>k. if k \<in> set ns then None else sub_view (dat E s) (sq kc key) k"
  have d: "dom ?M = S - set ns" using dom by (simp add: dom_if_None)
  note fin = set_rep_finite [OF rep]
  have l: "length ns = card (set ns)" "card (S - set ns) = card S - length ns" "length ns < 2 ^ 64"
    using ns fin card_Diff_subset [of "set ns" S] card_mono [of S "set ns"]
    by (simp_all add: distinct_card)
  have "coll_rep RSet SetMeta SetData E s' kc now key ?M
      \<and> (\<forall>x. \<not> owns kc key x \<longrightarrow> dat E s' x = dat E s x \<and> met E s' x = met E s x)"
    unfolding s'_def
  proof (rule sets.coll_commit_batch [OF M(2)])
    show "unat (km_size ?m) = card (dom ?M)"
      using sz(1) l by (simp add: saturating_sub_unat unat_of_nat d)
    show "card (dom ?M) < 2 ^ 63" using fin l(2) unfolding d by linarith
  qed (use sz(2) fin d in \<open>simp_all add: members_view\<close>)
  then show ?thesis unfolding set_rep_def using d by blast
qed

lemma srem_rep:
  assumes rep: "set_rep E s kc now key S"
  shows "\<exists>s'. srem E kc now key ms s = Inr (card (S \<inter> set ms), s')
    \<and> set_rep E s' kc now key (S - set ms)
    \<and> (\<forall>x. \<not> owns kc key x \<longrightarrow> dat E s' x = dat E s x \<and> met E s' x = met E s x)"
proof (cases "ms = []")
  case True
  then show ?thesis using rep by (auto simp: srem_def)
next
  case ne: False
  from rep show ?thesis
  proof (cases rule: set_cases)
    case absent
    then show ?thesis using rep by (simp add: srem_general [OF ne] nonempty_def)
  next
    case (present m)
    define ns where "ns = fresh {} (- S) ms"
    have ns: "set ns = S \<inter> set ms" "distinct ns" "length ns = card (S \<inter> set ms)"
      unfolding ns_def by (auto simp: set_fresh distinct_fresh length_fresh Int_commute Diff_Compl)
    note fold = srem_fold [of s kc key S, OF set_member_iff [OF present(6)], where seen = "{}" and n = 0
        and ms = ms and batch = "[]", folded ns_def]
    let ?s = "commit_simple_batch E (sk kc key)
      (m\<lparr>km_size := saturating_sub (km_size m) (word_of_nat (length ns))\<rparr>) (rm_members (sq kc key) ns) s"
    have run: "srem E kc now key ms s = Inr (length ns, if ns = [] then s else ?s)"
      unfolding srem_general [OF ne] using present(2,3) by (simp add: fold)
    have e: "S - set ms = S - set ns" using ns(1) by auto
    show ?thesis
    proof (cases "ns = []")
      case True
      then show ?thesis using run rep e ns by auto
    next
      case False
      then show ?thesis
        using srem_members [OF rep present(2,4,5,6) _ ns(2)] run e ns by auto
    qed
  qed
qed

end

section \<open>Moving, overwriting and popping\<close>

context kv_engine
begin

lemma set_cong:
  assumes "set_rep E s kc now key S" and "same_key E kc key s s'"
  shows "set_rep E s' kc now key S"
  using assms sets.coll_cong unfolding set_rep_def by blast

lemma set_on_key: "touches (sq kc key) (sk kc key) ops \<Longrightarrow> on_key kc key ops"
  by (rule touches_on_key [OF _ sets.mt_whole sets.dt_sub])

text \<open>A move is a removal and an addition in one batch.\<close>

lemma smove_rep:
  assumes src: "set_rep E s kc now src S" and dst: "set_rep E s kc now dst D"
    and ne: "src \<noteq> dst" "key_fits src" "key_fits dst" and len: "card D + 1 < 2 ^ 63"
  shows "\<exists>s'. smove E kc now ts src dst m s = Inr (m \<in> S, s')
    \<and> set_rep E s' kc now src (S - {m}) \<and> set_rep E s' kc now dst (if m \<in> S then insert m D else D)
    \<and> (\<forall>x. \<not> owns kc src x \<and> \<not> owns kc dst x \<longrightarrow> dat E s' x = dat E s x \<and> met E s' x = met E s x)"
  using src
proof (cases rule: set_cases)
  case absent
  then show ?thesis using src dst ne by (simp add: smove_def nonempty_def)
next
  case (present sm)
  show ?thesis
  proof (cases "m \<in> S")
    case False
    then show ?thesis
      using src dst ne present(2,3) set_member_iff [OF present(6), of m] by (simp add: smove_def)
  next
    case True
    obtain M where M: "dom M = D" "coll_rep RSet SetMeta SetData E s kc now dst M"
      using dst by (auto simp: set_rep_def)
    obtain dm a s1 where p:
      "prepare_simple_meta E RSet SetMeta kc now ts dst (sq kc dst) (sk kc dst) [] s = Inr ((dm, M = Map.empty), a, s1)"
      and s1: "dat E s1 = dat E s" "met E s1 = met E s" and a: "touches (sq kc dst) (sk kc dst) a"
      and old: "M \<noteq> Map.empty \<longrightarrow> sub_view (dat E s) (sq kc dst) = M \<and> a = [] \<and> s1 = s \<and> met E s (sk kc dst) \<noteq> None"
      by (rule sets.prepare_coll [OF M(2), where ts = ts])
    have new: "M = Map.empty \<or> \<not> e_contains_key E (w_data s1) (sq kc dst @ m) \<longleftrightarrow> m \<notin> D"
      using set_member_iff [of s kc dst D m] old M(1) by (cases "M = Map.empty") auto
    define sm' where "sm' = sm\<lparr>km_size := saturating_sub (km_size sm) (word_of_nat (length [m]))\<rparr>"
    define b where "b = [BRmWeak PData (sq kc src @ m)]
      @ [if km_size sm' = 0 then BRm PMeta (sk kc src) else BInsert PMeta (sk kc src) (km_encode sm')]"
    define c where "c = (if m \<in> D then [] else
      [BInsert PData (sq kc dst @ m) [], BInsert PMeta (sk kc dst) (km_encode (dm\<lparr>km_size := km_size dm + 1\<rparr>))])"
    have run: "smove E kc now ts src dst m s = Inr (True, commit E (a @ b @ c) s1)"
      using ne(1) present(2,3) True set_member_iff [OF present(6), of m] p new
      by (simp add: smove_def prepare_set_meta_for_write_def Let_def b_def c_def sm'_def
          batch_defs)
    have on: "on_key kc dst a" "on_key kc dst c" "on_key kc src b"
      using a by (auto intro!: set_on_key simp: b_def c_def touches_def)
    note inter = interleave_same_key [OF on ne s1]
    have "set_rep E (commit_simple_batch E (sk kc src) sm' (rm_members (sq kc src) [m]) s) kc now src (S - set [m])"
      unfolding sm'_def using srem_members [OF src present(2,4,5,6), of "[m]"] True by simp
    also have "commit_simple_batch E (sk kc src) sm' (rm_members (sq kc src) [m]) s = commit E b s"
      by (simp add: commit_simple_batch_def b_def rm_meta_def insert_meta_def)
    finally have "set_rep E (commit E (a @ b @ c) s1) kc now src (S - {m})"
      using set_cong inter(1) by simp
    moreover have "set_rep E (commit E (a @ c) s1) kc now dst (insert m D)"
    proof -
      have "\<exists>n. sadd E kc now ts dst [m] s = Inr (n, if m \<in> D then s1 else commit E (a @ c) s1)"
        using p new by (auto simp: sadd_def sadd_one_internal_def prepare_set_meta_for_write_def Let_def c_def
            insert_data_def insert_meta_def)
      then have "set_rep E (if m \<in> D then s1 else commit E (a @ c) s1) kc now dst (D \<union> {m})"
        using sadd_rep [OF dst, of "[m]" ts] len by auto
      moreover have "commit E (a @ c) s1 = commit E [] s" if "m \<in> D" using that old M(1) by (auto simp: c_def)
      moreover have "s1 = s" if "m \<in> D" using that old M(1) by auto
      ultimately show ?thesis
        using set_cong [OF dst, of "commit E [] s"] by (auto simp: same_key_def insert_absorb split: if_splits)
    qed
    then have "set_rep E (commit E (a @ b @ c) s1) kc now dst (insert m D)"
      using set_cong inter(2) by blast
    ultimately show ?thesis using run True inter(3) by auto
  qed
qed

lemma check_set_rep:
  assumes "set_rep E s kc now key S"
  shows "check_key_not_other_type E kc s key (tag_slice SetMeta) now = Inr ()"
  using assms by (auto simp: set_rep_def coll_rep_def check_key_not_other_type_spec)

lemma overwrite_rep:
  assumes rep: "set_rep E s kc now key S" and len: "length ms < 2 ^ 63"
  shows "\<exists>s'. overwrite_set_iter E kc now ts key ms s = Inr (card (set ms), s')
    \<and> set_rep E s' kc now key (set ms)
    \<and> (\<forall>x. \<not> owns kc key x \<longrightarrow> dat E s' x = dat E s x \<and> met E s' x = met E s x)"
proof -
  obtain M where M: "dom M = S" "coll_rep RSet SetMeta SetData E s kc now key M"
    using rep by (auto simp: set_rep_def)
  define ns where "ns = fresh {} {} ms"
  have ns: "set ns = set ms" "length ns = card (set ms)"
    by (simp_all add: ns_def set_fresh length_fresh)
  let ?clear = "clear_prefix_in_batch E PData s (sq kc key) [] @ [BRm PMeta (sk kc key)]"
  note fold = overwrite_fold [of kc key "{}" 0 _ ms, folded ns_def]
  show ?thesis
  proof (cases "ms = []")
    case True
    then have "overwrite_set_iter E kc now ts key ms s = Inr (card (set ms), commit E ?clear s)"
      using check_set_rep [OF rep] by (simp add: overwrite_set_iter_def rm_meta_def)
    moreover have t: "touches (sq kc key) (sk kc key) ?clear" using clear_prefix_touches by simp
    moreover have "coll_rep RSet SetMeta SetData E (commit E ?clear s) kc now key Map.empty"
      by (rule sets.coll_commit_empty [OF M(2) refl refl t]) simp
    then have "set_rep E (commit E ?clear s) kc now key (set ms)"
      using True by (auto simp: set_rep_def)
    ultimately show ?thesis using sets.coll_frame [OF t _ refl refl] by auto
  next
    case False
    obtain v vs where g: "generate_version ts (w_ver s) = (v, vs)" by (cases "generate_version ts (w_ver s)")
    define m where "m = (km_new RSet 0 v 0)\<lparr>km_size := word_of_nat (length ns)\<rparr>"
    define s1 where "s1 = s\<lparr>w_ver := vs\<rparr>"
    have s1: "dat E s1 = dat E s" "met E s1 = met E s" unfolding s1_def dat_def met_def by simp_all
    let ?ops = "(?clear @ ins_members (sq kc key) ns) @ [BInsert PMeta (sk kc key) (km_encode m)]"
    have "ns \<noteq> []" using False ns(1) by auto
    then have run: "overwrite_set_iter E kc now ts key ms s = Inr (card (set ms), commit E ?ops s1)"
      using check_set_rep [OF rep] \<open>ns \<noteq> []\<close>
      by (simp add: overwrite_set_iter_def Let_def fold rm_meta_def insert_meta_def km_new_with_version_def g m_def s1_def flip: ns(2))
    have t: "touches (sq kc key) (sk kc key) ?ops"
      by (simp only: touches_simps members_batch clear_prefix_touches simp_thms)
    define M' where "M' = (\<lambda>k. if k \<in> set ns then Some [] else None :: bytes option)"
    have d: "dom M' = set ms" by (simp add: M'_def dom_if_Some ns(1) del: dom_const)
    have le: "card (set ms) \<le> length ms" by (rule card_length)
    have "coll_rep RSet SetMeta SetData E (commit E ?ops s1) kc now key M'"
    proof (rule sets.coll_commit [OF M(2) s1 t])
      show "sub_view (apply_ops PData ?ops (dat E s)) (sq kc key) = M'"
      proof -
        have c: "sub_view (apply_ops PData ?clear (dat E s)) (sq kc key) = Map.empty"
          using clear_prefix_view [of s "sq kc key"] by simp
        show ?thesis
          using members_view(1) [of "sq kc key" ns "apply_ops PData ?clear (dat E s)"] unfolding c M'_def by simp
      qed
      show "unat (km_size m) = card (dom M')"
        using len le ns(2) by (simp add: m_def unat_of_nat d)
      show "M' \<noteq> Map.empty" using False d by auto
      show "card (dom M') < 2 ^ 63" "finite (dom M')" using le len unfolding d by simp_all
    qed (simp_all add: m_def sizable_def km_new_def)
    then show ?thesis
      using run sets.coll_frame [OF t _ s1] d unfolding set_rep_def by blast
  qed
qed

lemma spop_one_rep:
  assumes rep: "set_rep E s kc now key S" and R: "rng_ok R"
  shows "\<exists>item s'. spop_one E R kc now key s = Inr (item, s')
    \<and> (case item of None \<Rightarrow> S = {} | Some m \<Rightarrow> m \<in> S)
    \<and> set_rep E s' kc now key (S - set_option item)
    \<and> (\<forall>x. \<not> owns kc key x \<longrightarrow> dat E s' x = dat E s x \<and> met E s' x = met E s x)"
  using rep
proof (cases rule: set_cases)
  case absent
  then show ?thesis using rep by (auto simp: spop_one_def nonempty_def)
next
  case (present m)
  let ?i = "usize R 0 0 (card S)"
  have "0 < card S" using present(1,7) by (simp add: card_gt_0_iff)
  then have i: "?i < card S" using R by (simp add: rng_ok_def)
  then have mem: "sorted_list_of_set S ! ?i \<in> S"
    using present(7) nth_mem [of ?i "sorted_list_of_set S"] by simp
  show ?thesis
    using srem_members [OF rep present(2,4,5,6), of "[sorted_list_of_set S ! ?i]"] mem i present(2,3)
    by (simp add: spop_one_def sample_rep [OF present(6)] present(4) rm_weak_data_def Let_def)
qed

lemma spop_rep:
  assumes rep: "set_rep E s kc now key S" and R: "rng_ok R"
  shows "\<exists>ms s'. spop E R kc now key n s = Inr (ms, s')
    \<and> distinct ms \<and> set ms \<subseteq> S \<and> length ms = min n (card S) \<and> set_rep E s' kc now key (S - set ms)
    \<and> (\<forall>x. \<not> owns kc key x \<longrightarrow> dat E s' x = dat E s x \<and> met E s' x = met E s x)"
proof -
  consider "n = 0" | "n = 1" | "n > 1" by linarith
  then show ?thesis
  proof cases
    case 1
    then show ?thesis using rep by (simp add: spop_def)
  next
    case 2
    obtain item s' where p: "spop_one E R kc now key s = Inr (item, s')"
      "case item of None \<Rightarrow> S = {} | Some m \<Rightarrow> m \<in> S" "set_rep E s' kc now key (S - set_option item)"
      "\<forall>x. \<not> owns kc key x \<longrightarrow> dat E s' x = dat E s x \<and> met E s' x = met E s x"
      using spop_one_rep [OF rep R] by blast
    have "min n (card S) = (case item of None \<Rightarrow> 0 | Some _ \<Rightarrow> 1)"
      using 2 p(2) set_rep_finite [OF rep] by (auto simp: min_def Suc_le_eq card_gt_0_iff split: option.splits)
    then show ?thesis using 2 p by (auto simp: spop_def split: option.splits)
  next
    case 3
    from rep show ?thesis
    proof (cases rule: set_cases)
      case absent
      then show ?thesis using rep 3 by (simp add: spop_def nonempty_def)
    next
      case (present m)
      let ?ms = "sorted_list_of_set S"
      have ms: "set ?ms = S" "distinct ?ms" "length ?ms = card S" "?ms \<noteq> []" using present by simp_all
      have it: "siter E kc s now key (\<lambda>ms m. (ms @ [m], True)) [] = Inr ?ms"
        by (simp add: siter_rep [OF rep] visit_all foldl_snoc)
      show ?thesis
      proof (cases "n \<ge> card S")
        case True
        obtain M where M: "dom M = S" "coll_rep RSet SetMeta SetData E s kc now key M"
          using rep by (auto simp: set_rep_def)
        let ?clear = "clear_prefix_in_batch E PData s (sq kc key) [] @ [BRm PMeta (sk kc key)]"
        have t: "touches (sq kc key) (sk kc key) ?clear" using clear_prefix_touches by simp
        have "spop E R kc now key n s = Inr (?ms, commit E ?clear s)"
          using 3 True present(2,3) it ms by (simp add: spop_def rm_meta_def Let_def)
        moreover have "coll_rep RSet SetMeta SetData E (commit E ?clear s) kc now key Map.empty"
          by (rule sets.coll_commit_empty [OF M(2) refl refl t]) simp
        then have "set_rep E (commit E ?clear s) kc now key (S - set ?ms)"
          using ms(1) by (auto simp: set_rep_def)
        ultimately show ?thesis using ms True sets.coll_frame [OF t _ refl refl] by auto
      next
        case False
        define ps where "ps = take n (shuffle R ?ms)"
        have sh: "set (shuffle R ?ms) = S" "length (shuffle R ?ms) = card S"
          using R ms unfolding rng_ok_def by auto
        then have "distinct (shuffle R ?ms)" by (simp add: card_distinct)
        then have ps: "set ps \<subseteq> S" "distinct ps" "length ps = n"
          using sh False by (auto simp: ps_def dest: in_set_takeD)
        have "foldl (\<lambda>b m. rm_weak_data (key_for_member kc key m) b) [] ps = rm_members (sq kc key) ps"
        proof -
          have "foldl (\<lambda>b m. rm_weak_data (key_for_member kc key m) b) b ps = b @ rm_members (sq kc key) ps" for b
            by (induction ps arbitrary: b) (simp_all add: rm_weak_data_def)
          from this [of "[]"] show ?thesis by simp
        qed
        then have "spop E R kc now key n s = Inr (ps, commit_simple_batch E (sk kc key)
            (m\<lparr>km_size := saturating_sub (km_size m) (word_of_nat (length ps))\<rparr>) (rm_members (sq kc key) ps) s)"
          using 3 False present(2,3) it ms ps(3) by (simp add: spop_def Let_def min_def ps_def)
        then show ?thesis
          using srem_members [OF rep present(2,4,5,6) ps(1,2)] ps False by auto
      qed
    qed
  qed
qed

end

section \<open>Pages of scans\<close>

lemma visit_map: "visit f a (map g xs) = visit (\<lambda>a x. f a (g x)) a xs"
  by (induction xs arbitrary: a) (simp_all add: split_beta)

text \<open>A page of a scan: the entries that count, from an offset on, at most a limit of them.\<close>

definition page_step :: "('a \<Rightarrow> bool) \<Rightarrow> nat \<Rightarrow> nat option \<Rightarrow> nat \<times> 'a list \<Rightarrow> 'a \<Rightarrow> (nat \<times> 'a list) \<times> bool" where
  "page_step P offset limit = (\<lambda>(pos, results) x.
     if \<not> P x then ((pos, results), True)
     else if pos < offset then ((pos + 1, results), True)
     else ((pos, results @ [x]), \<not> (case limit of Some l \<Rightarrow> length (results @ [x]) \<ge> l | None \<Rightarrow> False)))"

definition at_most :: "nat option \<Rightarrow> 'a list \<Rightarrow> 'a list" where
  "at_most limit xs = (case limit of Some l \<Rightarrow> take l xs | None \<Rightarrow> xs)"

lemma visit_page:
  assumes "\<forall>l. limit = Some l \<longrightarrow> length results < l"
  shows "snd (visit (page_step P offset limit) (pos, results) xs)
    = results @ (case limit of Some l \<Rightarrow> take (l - length results) | None \<Rightarrow> \<lambda>ys. ys)
        (drop (offset - pos) (filter P xs))"
  using assms
proof (induction xs arbitrary: pos results)
  case Nil
  show ?case by (simp split: option.split)
next
  case (Cons x xs)
  show ?case
  proof (cases "P x")
    case False
    then show ?thesis using Cons by (simp add: page_step_def)
  next
    case True
    show ?thesis
    proof (cases "pos < offset")
      case p: True
      then have "offset - pos = Suc (offset - Suc pos)" by simp
      then show ?thesis using True p Cons.IH [of results "pos + 1"] Cons.prems by (simp add: page_step_def)
    next
      case p: False
      show ?thesis
      proof (cases limit)
        case None
        then show ?thesis using True p Cons.IH [of "results @ [x]" pos] by (simp add: page_step_def)
      next
        case (Some l)
        then have l: "length results < l" using Cons.prems by simp
        show ?thesis
        proof (cases "length results + 1 \<ge> l")
          case end': True
          then have "l - length results = 1" using l by simp
          then show ?thesis using True p Some end' by (simp add: page_step_def)
        next
          case go: False
          then have "l - length results = Suc (l - Suc (length results))" by simp
          then show ?thesis
            using True p Some go Cons.IH [of "results @ [x]" pos] by (simp add: page_step_def)
        qed
      qed
    qed
  qed
qed

lemma visit_page_start:
  "limit \<noteq> Some 0 \<Longrightarrow> snd (visit (page_step P offset limit) (0, []) xs) = at_most limit (drop offset (filter P xs))"
  using visit_page [of limit "[]" P offset 0 xs] by (cases limit) (simp_all add: at_most_def)

text \<open>A page of a scan by count: a cursor counts the hits to skip.\<close>

lemma visit_count_page:
  assumes "skipped \<le> cursor" and "length matched \<le> limit" and "matched \<noteq> [] \<longrightarrow> skipped = cursor"
  shows "\<exists>sk. visit (\<lambda>(skipped, matched, has_more) m.
      if P m then
        if skipped < cursor then ((skipped + 1, matched, has_more), True)
        else if length matched < limit then ((skipped, matched @ [m], has_more), True)
        else ((skipped, matched, True), False)
      else ((skipped, matched, has_more), True)) (skipped, matched, False) ms
    = (let hits = drop (cursor - skipped) (filter P ms)
       in (sk, matched @ take (limit - length matched) hits, length hits > limit - length matched))"
  using assms
proof (induction ms arbitrary: skipped matched)
  case (Cons m ms)
  consider "\<not> P m" | "P m" "skipped < cursor"
    | "P m" "\<not> skipped < cursor" "length matched < limit"
    | "P m" "\<not> skipped < cursor" "\<not> length matched < limit" by blast
  then show ?case
  proof cases
    case 1
    with Cons.IH [OF Cons.prems] show ?thesis by simp
  next
    case 2
    then have m: "matched = []" using Cons.prems by auto
    have "cursor - skipped = Suc (cursor - (skipped + 1))" using 2 by simp
    then show ?thesis
      using Cons.IH [of "skipped + 1" matched] Cons.prems 2 m by (simp add: Let_def)
  next
    case 3
    then have "limit - length matched = Suc (limit - length (matched @ [m]))" by simp
    then show ?thesis
      using Cons.IH [of skipped "matched @ [m]"] Cons.prems 3 by (simp add: Let_def)
  next
    case 4
    with Cons.prems show ?thesis by (simp add: Let_def)
  qed
qed simp

lemma map_filter_map: "List.map_filter f (map g xs) = List.map_filter (f \<circ> g) xs"
  by (simp add: List.map_filter_def filter_map comp_def)

lemma map_filter_some: "List.map_filter (\<lambda>x. Some (f x)) xs = map f xs"
  by (simp add: List.map_filter_def)

lemma length_filter_sorted:
  "finite S \<Longrightarrow> length (filter P (sorted_list_of_set S)) = card {n \<in> S. P n}"
  by (metis distinct_card distinct_filter distinct_sorted_list_of_set set_filter set_sorted_list_of_set)

end
