(* ===== verification/Set_Algebra.thy ===== *)
theory Set_Algebra
  imports Set_Rep
begin

text \<open>
  Sampling without removal, the set algebra and the scans against the sets the keys stand for.
\<close>

section \<open>Random members\<close>

lemma foldl_swap:
  assumes "\<forall>i\<in>set ns. i < length xs \<and> f i < length xs"
  shows "set (foldl (\<lambda>xs i. swap i (f i) xs) xs ns) = set xs
    \<and> length (foldl (\<lambda>xs i. swap i (f i) xs) xs ns) = length xs
    \<and> (distinct xs \<longrightarrow> distinct (foldl (\<lambda>xs i. swap i (f i) xs) xs ns))"
  using assms
proof (induction ns arbitrary: xs)
  case (Cons n ns)
  have s: "set (swap n (f n) xs) = set xs" "length (swap n (f n) xs) = length xs"
    "distinct (swap n (f n) xs) = distinct xs"
    using Cons.prems by (simp_all add: swap_def set_swap distinct_swap)
  from Cons.IH [of "swap n (f n) xs"] Cons.prems s show ?case by simp
qed simp

context kv_engine
begin

lemma srandmember_rep:
  assumes rep: "set_rep E s kc now key S" and R: "rng_ok R"
  shows "\<exists>ms. srandmember E R kc s now key n = Inr ms \<and> set ms \<subseteq> S
    \<and> length ms = (if n < 0 then (if S = {} then 0 else nat (- n)) else min (nat n) (card S))
    \<and> (n \<ge> 0 \<longrightarrow> distinct ms)"
proof -
  let ?ms = "sorted_list_of_set S"
  have fin: "finite S" using set_rep_finite [OF rep] by simp
  then have ms: "set ?ms = S" "distinct ?ms" "length ?ms = card S" by simp_all
  have R': "lo < hi \<Longrightarrow> lo \<le> usize R c lo hi \<and> usize R c lo hi < hi" for c lo hi
    using R by (simp add: rng_ok_def)
  consider "n = 0" | "n = 1" | "n \<noteq> 1" "n > 0" | "n < 0" by linarith
  then show ?thesis
  proof cases
    case 1
    then show ?thesis by (simp add: srandmember_def)
  next
    case 2
    from rep show ?thesis
    proof (cases rule: set_cases)
      case absent
      then show ?thesis using 2 by (simp add: srandmember_def srandmember_one_def nonempty_def)
    next
      case (present m)
      have "0 < card S" using present by (simp add: card_gt_0_iff)
      moreover from this R' have i: "usize R 0 0 (card S) < card S" by blast
      ultimately show ?thesis
        using 2 present(2,3,4) nth_mem [of "usize R 0 0 (card S)" ?ms] ms
        by (simp add: srandmember_def srandmember_one_def sample_rep [OF present(6)])
    qed
  next
    case 3
    let ?k = "min (nat n) (card S)"
    define xs where "xs = foldl (\<lambda>xs i. swap i (usize R i i (card S)) xs) ?ms [0..<?k]"
    have "\<forall>i\<in>set [0..<?k]. i < length ?ms \<and> usize R i i (card S) < length ?ms" using R' ms(3) by auto
    from foldl_swap [OF this] have xs: "set xs = S" "length xs = card S" "distinct xs"
      using ms unfolding xs_def by simp_all
    have "srandmember E R kc s now key n = Inr (if ?k = card S then ?ms else take ?k xs)"
      using 3 ms by (auto simp: srandmember_def smembers_rep [OF rep] Let_def xs_def)
    then show ?thesis using 3 xs ms by (auto dest: in_set_takeD)
  next
    case 4
    have "?ms ! usize R i 0 (card S) \<in> S" if "S \<noteq> {}" for i
    proof -
      have "usize R i 0 (card S) < card S" using R' that fin by (simp add: card_gt_0_iff)
      then show ?thesis using nth_mem [of "usize R i 0 (card S)" ?ms] ms by simp
    qed
    then show ?thesis
      using 4 ms fin by (auto simp: srandmember_def smembers_rep [OF rep] Let_def)
  qed
qed

end

section \<open>Set algebra\<close>

definition opt_set :: "'a set option \<Rightarrow> 'a set" where
  "opt_set S = (case S of Some S \<Rightarrow> S | None \<Rightarrow> {})"

lemma opt_set_simps [simp]: "opt_set None = {}" "opt_set (Some S) = S"
  by (simp_all add: opt_set_def)

lemma visit_intersect:
  "snd (visit (\<lambda>(cur, acc) m. if m \<in> cur then ((cur - {m}, insert m acc), cur - {m} \<noteq> {}) else ((cur, acc), True))
     (cur, acc) ms) = acc \<union> (cur \<inter> set ms)"
  by (induction ms arbitrary: cur acc) auto

lemma visit_subtract:
  "visit (\<lambda>cur m. (cur - {m}, \<not> cur \<subseteq> {m})) cur ms = cur - set ms"
  by (induction ms arbitrary: cur) auto

lemma visit_union:
  "visit (\<lambda>S m. (if m \<notin> S then insert m S else S, True)) S ms = S \<union> set ms"
  by (induction ms arbitrary: S) auto

lemma visit_hash: "visit (\<lambda>H m. (insert (h m) H, True)) H ms = H \<union> h ` set ms"
  by (induction ms arbitrary: H) auto

lemma visit_hash_limited:
  assumes "finite H"
  shows "let H' = visit (\<lambda>H m. let H = insert (h m) H in (H, card H < limit)) H ms
    in finite H' \<and> (card H' < limit \<and> H' = H \<union> h ` set ms
                   \<or> card H' \<ge> limit \<and> H' \<subseteq> H \<union> h ` set ms) \<or> ms = []"
  using assms
proof (induction ms arbitrary: H)
  case (Cons m ms)
  show ?case
  proof (cases "card (insert (h m) H) < limit")
    case True
    with Cons.IH [of "insert (h m) H"] Cons.prems show ?thesis by (cases "ms = []") (auto simp: Let_def)
  next
    case False
    with Cons.prems show ?thesis by (auto simp: Let_def)
  qed
qed simp

lemma word_of_card_zero: "n < 2 ^ 63 \<Longrightarrow> (word_of_nat n :: u64) = 0 \<longleftrightarrow> n = 0"
  by (simp add: word_unat_eq_iff unat_of_nat)

definition sets_at :: "'p engine \<Rightarrow> 'p wedb \<Rightarrow> key_composer \<Rightarrow> u64 \<Rightarrow> (bytes \<Rightarrow> bytes set) \<Rightarrow> bytes list \<Rightarrow> bool" where
  "sets_at E s kc now A ks \<longleftrightarrow> (\<forall>k\<in>set ks. set_rep E s kc now k (A k))"

lemma sets_at_simps [simp]:
  "sets_at E s kc now A []"
  "sets_at E s kc now A (k # ks) \<longleftrightarrow> set_rep E s kc now k (A k) \<and> sets_at E s kc now A ks"
  by (simp_all add: sets_at_def)

context kv_engine
begin

lemma scard_zero:
  assumes "set_rep E s kc now k S"
  shows "scard E kc s now k = Inr (word_of_nat (card S))" "(word_of_nat (card S) :: u64) = 0 \<longleftrightarrow> S = {}"
  using scard_rep [OF assms] set_rep_finite [OF assms] word_of_card_zero [of "card S"] by auto

lemma intersect_step_rep:
  assumes "set_rep E s kc now k S"
  shows "intersect_step E kc s now k c cur = Inr (cur \<inter> S)"
proof -
  have "finite S" using set_rep_finite [OF assms] by simp
  moreover have "Set.filter (is_member E kc s now k) cur = cur \<inter> S"
    using is_member_rep [OF assms] by auto
  ultimately show ?thesis
    using visit_intersect [of cur "{}" "sorted_list_of_set S"]
    by (simp add: intersect_step_def siter_rep [OF assms] split_beta)
qed

lemma intersect_loop_rep:
  assumes "sets_at E s kc now A (map fst kcs)"
  shows "\<exists>r. intersect_loop E kc s now cur kcs = Inr r \<and> opt_set r = cur \<inter> (\<Inter>k\<in>set (map fst kcs). A k)"
  using assms
proof (induction kcs arbitrary: cur)
  case (Cons kc' kcs)
  then obtain k c where "kc' = (k, c)" by force
  with Cons.IH [of "cur \<inter> A k"] Cons.prems show ?case by (auto simp: intersect_step_rep)
qed simp

lemma key_cards_rep:
  assumes "sets_at E s kc now A ks"
  shows "key_cards E kc s now acc ks =
    Inr (if \<exists>k\<in>set ks. A k = {} then None else Some (acc @ map (\<lambda>k. (k, word_of_nat (card (A k)))) ks))"
  using assms
proof (induction ks arbitrary: acc)
  case (Cons k ks)
  then have "set_rep E s kc now k (A k)" by simp
  from Cons scard_zero [OF this] show ?case by simp
qed simp

lemma sinter_rep:
  assumes "sets_at E s kc now A ks" and ne: "ks \<noteq> []"
  shows "\<exists>r. compute_sinter_set E kc s now ks = Inr r \<and> opt_set r = (\<Inter>k\<in>set ks. A k)"
proof (cases "length ks = 1")
  case True
  then obtain k where "ks = [k]" by (auto simp: length_Suc_conv)
  then show ?thesis using assms(1) by (auto simp: compute_sinter_set_def collect_rep)
next
  case False
  show ?thesis
  proof (cases "\<exists>k\<in>set ks. A k = {}")
    case True
    then have "(\<Inter>k\<in>set ks. A k) = {}" by auto
    with True False ne show ?thesis by (simp add: compute_sinter_set_def key_cards_rep [OF assms(1)])
  next
    case none: False
    define kcs where "kcs = sort_key snd (map (\<lambda>k. (k, word_of_nat (card (A k)) :: u64)) ks)"
    have s: "set (map fst kcs) = set ks" by (auto simp: kcs_def image_iff)
    then have "kcs \<noteq> []" using ne by auto
    then obtain k c rest where kcs: "kcs = (k, c) # rest" by (cases kcs) auto
    have at: "sets_at E s kc now A (map fst kcs)" using assms(1) s by (simp add: sets_at_def)
    then have k: "set_rep E s kc now k (A k)" "sets_at E s kc now A (map fst rest)" using kcs by simp_all
    have "compute_sinter_set E kc s now ks = intersect_loop E kc s now (A k) rest"
      using ne False none by (simp add: compute_sinter_set_def key_cards_rep [OF assms(1)] Let_def kcs collect_rep [OF k(1)] flip: kcs_def)
    moreover have "(\<Inter>k\<in>set ks. A k) = A k \<inter> (\<Inter>k\<in>set (map fst rest). A k)"
      unfolding s [symmetric] kcs by simp
    ultimately show ?thesis using intersect_loop_rep [OF k(2), of "A k"] by simp
  qed
qed

lemma union_loop_rep:
  assumes "sets_at E s kc now A ks"
  shows "union_loop E kc s now S ks = Inr (S \<union> (\<Union>k\<in>set ks. A k))"
  using assms
proof (induction ks arbitrary: S)
  case (Cons k ks)
  then have k: "set_rep E s kc now k (A k)" by simp
  then have "finite (A k)" using set_rep_finite by blast
  with Cons show ?case by (simp add: siter_rep [OF k] visit_union Un_assoc)
qed simp

lemma sunion_rep:
  assumes "sets_at E s kc now A ks"
  shows "compute_sunion_set E kc s now ks = Inr (\<Union>k\<in>set ks. A k)"
  using assms union_loop_rep [OF assms]
  by (cases ks) (auto simp: compute_sunion_set_def scard_rep)

lemma hash_all_rep:
  assumes "sets_at E s kc now A ks"
  shows "hash_all E h kc s now H ks = Inr (card (H \<union> h ` (\<Union>k\<in>set ks. A k)))"
  using assms
proof (induction ks arbitrary: H)
  case (Cons k ks)
  then have k: "set_rep E s kc now k (A k)" by simp
  then have "finite (A k)" using set_rep_finite by blast
  with Cons show ?case by (simp add: siter_rep [OF k] visit_hash Un_assoc image_Un)
qed simp

lemma hash_limited_rep:
  assumes "sets_at E s kc now A ks" and "finite H" and "card H < limit"
  shows "hash_limited E h kc s now limit H ks = Inr (min (card (H \<union> h ` (\<Union>k\<in>set ks. A k))) limit)"
  using assms
proof (induction ks arbitrary: H)
  case (Cons k ks)
  let ?ms = "sorted_list_of_set (A k)" and ?U = "H \<union> h ` (\<Union>k\<in>set (k # ks). A k)"
  have k: "set_rep E s kc now k (A k)" using Cons.prems(1) by simp
  have fin: "finite (A l)" if "l \<in> set (k # ks)" for l
    using Cons.prems(1) that set_rep_finite unfolding sets_at_def by blast
  then have finU: "finite ?U" using Cons.prems(2) by auto
  have ms: "set ?ms = A k" using fin by simp
  define H' where "H' = visit (\<lambda>H m. let H = insert (h m) H in (H, card H < limit)) H ?ms"
  have step: "hash_limited E h kc s now limit H (k # ks)
      = (if card H' \<ge> limit then Inr limit else hash_limited E h kc s now limit H' ks)"
    by (simp add: siter_rep [OF k] H'_def)
  have H': "finite H'" "card H' < limit \<and> H' = H \<union> h ` A k \<or> card H' \<ge> limit \<and> H' \<subseteq> H \<union> h ` A k"
    using visit_hash_limited [OF Cons.prems(2), of h limit ?ms] ms Cons.prems(2,3)
    by (cases "?ms = []"; simp add: H'_def Let_def)+
  show ?case
  proof (cases "card H' \<ge> limit")
    case True
    then have "H' \<subseteq> ?U" using H' by auto
    then have "limit \<le> card ?U" using card_mono [OF finU] True by (meson le_trans)
    with True show ?thesis unfolding step by simp
  next
    case False
    then have "H' = H \<union> h ` A k" "card H' < limit" using H' by auto
    then show ?thesis
      using Cons.IH [of H'] Cons.prems H'(1) False unfolding step by (simp add: Un_assoc image_Un)
  qed
qed simp

lemma sunioncard_rep:
  assumes at: "sets_at E s kc now A ks"
  shows "sunioncard E h kc s now ks limit =
    Inr (if length ks = 1 then apply_card_limit (card (A (ks ! 0))) limit
         else apply_card_limit (card (h ` (\<Union>k\<in>set ks. A k))) limit)"
proof -
  consider "ks = []" | "length ks = 1" | "length ks > 1" by (cases ks; cases "tl ks") auto
  then show ?thesis
  proof cases
    case 1
    then show ?thesis by (simp add: sunioncard_def apply_card_limit_def)
  next
    case 2
    then obtain k where "ks = [k]" by (auto simp: length_Suc_conv)
    then show ?thesis
      using at set_rep_finite [of s kc now k "A k"] by (simp add: sunioncard_def scard_rep unat_of_nat)
  next
    case 3
    then show ?thesis
      using hash_all_rep [OF at, of h "{}"] hash_limited_rep [OF at, of "{}" limit h]
      by (auto simp: sunioncard_def apply_card_limit_def)
  qed
qed

lemma subtract_step_rep:
  assumes "set_rep E s kc now k S" and "c = word_of_nat (card S)"
  shows "subtract_step E kc s now k c cur = Inr (cur - S)"
proof -
  have "finite S" using set_rep_finite [OF assms(1)] by simp
  moreover have "Set.filter (\<lambda>m. \<not> is_member E kc s now k m) cur = cur - S"
    using is_member_rep [OF assms(1)] by auto
  ultimately show ?thesis
    using scard_zero(2) [OF assms(1)] assms(2)
    by (simp add: subtract_step_def siter_rep [OF assms(1)] visit_subtract)
qed

lemma subtract_loop_rep:
  assumes "sets_at E s kc now A ks"
  shows "\<exists>r. subtract_loop E kc s now cur ks = Inr r \<and> opt_set r = cur - (\<Union>k\<in>set ks. A k)"
  using assms
proof (induction ks arbitrary: cur)
  case (Cons k ks)
  then have k: "set_rep E s kc now k (A k)" by simp
  obtain r where "subtract_loop E kc s now (cur - A k) ks = Inr r" "opt_set r = cur - A k - (\<Union>k\<in>set ks. A k)"
    using Cons.IH [of "cur - A k"] Cons.prems by auto
  then show ?case by (auto simp: subtract_step_rep [OF k] scard_rep [OF k])
qed simp

lemma sdiff_rep:
  assumes "sets_at E s kc now A ks" and ne: "ks \<noteq> []"
  shows "\<exists>r. compute_sdiff_set E kc s now ks = Inr r \<and> opt_set r = A (hd ks) - (\<Union>k\<in>set (tl ks). A k)"
proof -
  obtain k ks' where ks: "ks = k # ks'" using ne by (cases ks) auto
  then have k: "set_rep E s kc now k (A k)" "sets_at E s kc now A ks'" using assms(1) by simp_all
  show ?thesis
    using subtract_loop_rep [OF k(2), of "A k"] scard_zero [OF k(1)]
    by (auto simp: compute_sdiff_set_def ks collect_rep [OF k(1)])
qed

end

section \<open>Scans\<close>

text \<open>What a page of SSCAN_BY_MEMBER holds.\<close>

lemma scan_loop_spec:
  assumes "length matched < limit" and "\<forall>k\<in>set ks. \<exists>m. k = q @ m"
  shows "scan_loop p limit (length q) matched ks
    = (let hits = filter (member_matches p) (map (drop (length q)) ks); page = matched @ take (limit - length matched) hits
       in (if length matched + length hits \<ge> limit then Some (last page) else None, page))"
  using assms
proof (induction ks arbitrary: matched)
  case (Cons k ks)
  let ?m = "drop (length q) k"
  show ?case
  proof (cases "member_matches p ?m")
    case False
    with Cons show ?thesis by simp
  next
    case True
    show ?thesis
    proof (cases "length (matched @ [?m]) \<ge> limit")
      case full: True
      then have "limit - length matched = 1" using Cons.prems(1) by simp
      with True full Cons.prems show ?thesis by (simp add: Let_def)
    next
      case False
      then have "limit - length matched = Suc (limit - length (matched @ [?m]))" by simp
      then show ?thesis
        using Cons.IH [of "matched @ [?m]"] Cons.prems True False by (simp add: Let_def)
    qed
  qed
qed simp

context kv_engine
begin

lemma sscan_rep:
  assumes "set_rep E s kc now key S"
  shows "sscan E kc s now key cursor p n =
    (let hits = filter (member_matches p) (sorted_list_of_set S); limit = scan_limit n
     in Inr (if cursor + limit < length hits then cursor + limit else 0, take limit (drop cursor hits)))"
proof -
  let ?hits = "filter (member_matches p) (sorted_list_of_set S)" and ?limit = "scan_limit n"
  from visit_count_page [of 0 cursor "[]" ?limit "member_matches p" "sorted_list_of_set S"]
  show ?thesis by (auto simp: sscan_def siter_rep [OF assms] Let_def)
qed

lemma sscan_by_member_rep:
  assumes "set_rep E s kc now key S"
  shows "sscan_by_member E kc s now key cursor p n =
    (let hits = filter (\<lambda>m. (case cursor of Some c \<Rightarrow> c < m | None \<Rightarrow> True) \<and> member_matches p m) (sorted_list_of_set S);
         page = take (scan_limit n) hits
     in Inr (if length hits \<ge> scan_limit n then Some (last page) else None, page))"
  using assms
proof (cases rule: set_cases)
  case absent
  then show ?thesis by (simp add: sscan_by_member_def nonempty_def scan_limit_def)
next
  case (present m)
  let ?lo = "case cursor of Some c \<Rightarrow> Excluded (set_member kc key c) | None \<Rightarrow> Included (sq kc key)"
  let ?P = "\<lambda>m. case cursor of Some c \<Rightarrow> c < m | None \<Rightarrow> True"
  let ?ks = "takeWhile (prefix (sq kc key)) (map fst (e_range E (w_data s) ?lo Unbounded))"
  have ks: "?ks = map (\<lambda>m. sq kc key @ m) (filter ?P (sorted_list_of_set S))"
    unfolding set_iter_subs [OF present(6), symmetric] by (rule scan_from) (auto split: option.splits)
  have lim: "0 < scan_limit n" by (simp add: scan_limit_def)
  have "map (drop (length (sq kc key))) ?ks = filter ?P (sorted_list_of_set S)"
    unfolding ks by (simp add: comp_def)
  moreover have "\<forall>k\<in>set ?ks. \<exists>m. k = sq kc key @ m" unfolding ks by auto
  ultimately have "scan_loop p (scan_limit n) (length (sq kc key)) [] ?ks
      = (let hits = filter (member_matches p) (filter ?P (sorted_list_of_set S)); page = take (scan_limit n) hits
         in (if length hits \<ge> scan_limit n then Some (last page) else None, page))"
    using scan_loop_spec [of "[]" "scan_limit n" ?ks "sq kc key" p] lim by simp
  then show ?thesis
    using present(2,3) by (simp add: sscan_by_member_def Let_def conj_commute cong: option.case_cong)
qed

end

end
