(* ===== verification/Set_Api.thy ===== *)
theory Set_Api
  imports Set_Algebra
begin

text \<open>
  The set commands together: an abstract machine whose state gives every key its set, the same
  commands on the store, and the simulation between them. What the code leaves to chance or to a
  hash table (which members are popped, the order of a result) is left open by the abstract machine.
\<close>

section \<open>Commands\<close>

datatype set_cmd =
    SAdd bytes "bytes list"
  | SRem bytes "bytes list"
  | SMove bytes bytes bytes
  | SPop bytes nat
  | SRandMember bytes int
  | SIsMember bytes bytes
  | SMIsMember bytes "bytes list"
  | SMembers bytes
  | SCard bytes
  | SInter "bytes list"
  | SUnion "bytes list"
  | SDiff "bytes list"
  | SInterStore bytes "bytes list"
  | SUnionStore bytes "bytes list"
  | SDiffStore bytes "bytes list"
  | SInterCard "bytes list" nat
  | SUnionCard "bytes list" nat
  | SDiffCard "bytes list" nat
  | SScan bytes nat "bytes option" "nat option"

datatype set_reply =
    RNat nat
  | RBool bool
  | RBools "bool list"
  | RMembers "bytes list"
  | RPage nat "bytes list"
  | RFail error

definition write_reply :: "('a \<Rightarrow> set_reply) \<Rightarrow> 'p wedb \<Rightarrow> error + ('a \<times> 'p wedb) \<Rightarrow> set_reply \<times> 'p wedb" where
  "write_reply f s r = (case r of Inl e \<Rightarrow> (RFail e, s) | Inr (a, s') \<Rightarrow> (f a, s'))"

definition read_reply :: "('a \<Rightarrow> set_reply) \<Rightarrow> 'p wedb \<Rightarrow> error + 'a \<Rightarrow> set_reply \<times> 'p wedb" where
  "read_reply f s r = (case r of Inl e \<Rightarrow> (RFail e, s) | Inr a \<Rightarrow> (f a, s))"

lemma set_reply_simps [simp]:
  "write_reply f s (Inr (a, s')) = (f a, s')" "write_reply f s (Inl e) = (RFail e, s)"
  "read_reply f s (Inr a) = (f a, s)" "read_reply f s (Inl e) = (RFail e, s)"
  by (simp_all add: write_reply_def read_reply_def)

text \<open>What a run of the commands takes from outside.\<close>

record set_env =
  se_iter :: hash_iter
  se_rng :: rng
  se_hash :: "bytes \<Rightarrow> u64"

definition set_env_ok :: "set_env \<Rightarrow> bool" where
  "set_env_ok V \<longleftrightarrow> hash_iter_ok (se_iter V) \<and> rng_ok (se_rng V)"

fun set_call ::
    "'p engine \<Rightarrow> set_env \<Rightarrow> key_composer \<Rightarrow> u64 \<Rightarrow> u64 \<Rightarrow> set_cmd \<Rightarrow> 'p wedb \<Rightarrow> set_reply \<times> 'p wedb" where
  "set_call E V kc now ts (SAdd k ms) s = write_reply RNat s (sadd E kc now ts k ms s)"
| "set_call E V kc now ts (SRem k ms) s = write_reply RNat s (srem E kc now k ms s)"
| "set_call E V kc now ts (SMove a b m) s = write_reply RBool s (smove E kc now ts a b m s)"
| "set_call E V kc now ts (SPop k n) s = write_reply RMembers s (spop E (se_rng V) kc now k n s)"
| "set_call E V kc now ts (SRandMember k n) s = read_reply RMembers s (srandmember E (se_rng V) kc s now k n)"
| "set_call E V kc now ts (SIsMember k m) s = read_reply RBool s (sismember E kc s now k m)"
| "set_call E V kc now ts (SMIsMember k ms) s = read_reply RBools s (smismember E kc s now k ms)"
| "set_call E V kc now ts (SMembers k) s = read_reply RMembers s (smembers E kc s now k)"
| "set_call E V kc now ts (SCard k) s = read_reply (\<lambda>n. RNat (unat n)) s (scard E kc s now k)"
| "set_call E V kc now ts (SInter ks) s = read_reply RMembers s (sinter E (se_iter V) kc s now ks)"
| "set_call E V kc now ts (SUnion ks) s = read_reply RMembers s (sunion E (se_iter V) kc s now ks)"
| "set_call E V kc now ts (SDiff ks) s = read_reply RMembers s (sdiff E (se_iter V) kc s now ks)"
| "set_call E V kc now ts (SInterStore d ks) s = write_reply RNat s (sinterstore E (se_iter V) kc now ts d ks s)"
| "set_call E V kc now ts (SUnionStore d ks) s = write_reply RNat s (sunionstore E (se_iter V) kc now ts d ks s)"
| "set_call E V kc now ts (SDiffStore d ks) s = write_reply RNat s (sdiffstore E (se_iter V) kc now ts d ks s)"
| "set_call E V kc now ts (SInterCard ks n) s = read_reply RNat s (sintercard E kc s now ks n)"
| "set_call E V kc now ts (SUnionCard ks n) s = read_reply RNat s (sunioncard E (se_hash V) kc s now ks n)"
| "set_call E V kc now ts (SDiffCard ks n) s = read_reply RNat s (sdiffcard E kc s now ks n)"
| "set_call E V kc now ts (SScan k cur p n) s = read_reply (\<lambda>(c, ms). RPage c ms) s (sscan E kc s now k cur p n)"

section \<open>The abstract machine\<close>

type_synonym sets = "bytes \<Rightarrow> bytes set"

definition inter_of :: "sets \<Rightarrow> bytes list \<Rightarrow> bytes set" where
  "inter_of A ks = (if ks = [] then {} else \<Inter>k\<in>set ks. A k)"

definition union_of :: "sets \<Rightarrow> bytes list \<Rightarrow> bytes set" where
  "union_of A ks = (\<Union>k\<in>set ks. A k)"

definition diff_of :: "sets \<Rightarrow> bytes list \<Rightarrow> bytes set" where
  "diff_of A ks = (if ks = [] then {} else A (hd ks) - (\<Union>k\<in>set (tl ks). A k))"

definition limited :: "nat \<Rightarrow> nat \<Rightarrow> nat" where
  "limited limit n = (if limit = 0 then n else min n limit)"

text \<open>Some order of a set.\<close>

definition lists_set :: "set_reply \<Rightarrow> bytes set \<Rightarrow> bool" where
  "lists_set r S \<longleftrightarrow> (\<exists>ms. r = RMembers ms \<and> distinct ms \<and> set ms = S)"

fun set_spec :: "(bytes \<Rightarrow> u64) \<Rightarrow> set_cmd \<Rightarrow> sets \<Rightarrow> set_reply \<Rightarrow> sets \<Rightarrow> bool" where
  "set_spec h (SAdd k ms) A r A' \<longleftrightarrow> r = RNat (card (set ms - A k)) \<and> A' = A(k := A k \<union> set ms)"
| "set_spec h (SRem k ms) A r A' \<longleftrightarrow> r = RNat (card (A k \<inter> set ms)) \<and> A' = A(k := A k - set ms)"
| "set_spec h (SMove a b m) A r A' \<longleftrightarrow>
     r = RBool (m \<in> A a) \<and> A' = (if m \<in> A a \<and> a \<noteq> b then A(a := A a - {m}, b := insert m (A b)) else A)"
| "set_spec h (SPop k n) A r A' \<longleftrightarrow>
     (\<exists>ms. r = RMembers ms \<and> distinct ms \<and> set ms \<subseteq> A k \<and> length ms = min n (card (A k))
        \<and> A' = A(k := A k - set ms))"
| "set_spec h (SRandMember k n) A r A' \<longleftrightarrow>
     (\<exists>ms. r = RMembers ms \<and> set ms \<subseteq> A k
        \<and> length ms = (if n < 0 then (if A k = {} then 0 else nat (- n)) else min (nat n) (card (A k)))
        \<and> (n \<ge> 0 \<longrightarrow> distinct ms)) \<and> A' = A"
| "set_spec h (SIsMember k m) A r A' \<longleftrightarrow> r = RBool (m \<in> A k) \<and> A' = A"
| "set_spec h (SMIsMember k ms) A r A' \<longleftrightarrow> r = RBools (map (\<lambda>m. m \<in> A k) ms) \<and> A' = A"
| "set_spec h (SMembers k) A r A' \<longleftrightarrow> r = RMembers (sorted_list_of_set (A k)) \<and> A' = A"
| "set_spec h (SCard k) A r A' \<longleftrightarrow> r = RNat (card (A k)) \<and> A' = A"
| "set_spec h (SInter ks) A r A' \<longleftrightarrow> lists_set r (inter_of A ks) \<and> A' = A"
| "set_spec h (SUnion ks) A r A' \<longleftrightarrow> lists_set r (union_of A ks) \<and> A' = A"
| "set_spec h (SDiff ks) A r A' \<longleftrightarrow> lists_set r (diff_of A ks) \<and> A' = A"
| "set_spec h (SInterStore d ks) A r A' \<longleftrightarrow> r = RNat (card (inter_of A ks)) \<and> A' = A(d := inter_of A ks)"
| "set_spec h (SUnionStore d ks) A r A' \<longleftrightarrow> r = RNat (card (union_of A ks)) \<and> A' = A(d := union_of A ks)"
| "set_spec h (SDiffStore d ks) A r A' \<longleftrightarrow> r = RNat (card (diff_of A ks)) \<and> A' = A(d := diff_of A ks)"
| "set_spec h (SInterCard ks n) A r A' \<longleftrightarrow> r = RNat (limited n (card (inter_of A ks))) \<and> A' = A"
| "set_spec h (SUnionCard ks n) A r A' \<longleftrightarrow>
     r = RNat (limited n (if length ks = 1 then card (union_of A ks) else card (h ` union_of A ks))) \<and> A' = A"
| "set_spec h (SDiffCard ks n) A r A' \<longleftrightarrow> r = RNat (limited n (card (diff_of A ks))) \<and> A' = A"
| "set_spec h (SScan k cur p n) A r A' \<longleftrightarrow>
     (let hits = filter (member_matches p) (sorted_list_of_set (A k)); limit = scan_limit n
      in r = RPage (if cur + limit < length hits then cur + limit else 0) (take limit (drop cur hits))) \<and> A' = A"

fun set_keys_of :: "set_cmd \<Rightarrow> bytes list" where
  "set_keys_of (SAdd k ms) = [k]"
| "set_keys_of (SRem k ms) = [k]"
| "set_keys_of (SMove a b m) = [a, b]"
| "set_keys_of (SPop k n) = [k]"
| "set_keys_of (SRandMember k n) = [k]"
| "set_keys_of (SIsMember k m) = [k]"
| "set_keys_of (SMIsMember k ms) = [k]"
| "set_keys_of (SMembers k) = [k]"
| "set_keys_of (SCard k) = [k]"
| "set_keys_of (SInter ks) = ks"
| "set_keys_of (SUnion ks) = ks"
| "set_keys_of (SDiff ks) = ks"
| "set_keys_of (SInterStore d ks) = d # ks"
| "set_keys_of (SUnionStore d ks) = d # ks"
| "set_keys_of (SDiffStore d ks) = d # ks"
| "set_keys_of (SInterCard ks n) = ks"
| "set_keys_of (SUnionCard ks n) = ks"
| "set_keys_of (SDiffCard ks n) = ks"
| "set_keys_of (SScan k cur p n) = [k]"

fun reads :: "set_cmd \<Rightarrow> bool" where
  "reads (SAdd k ms) = False"
| "reads (SRem k ms) = False"
| "reads (SMove a b m) = False"
| "reads (SPop k n) = False"
| "reads (SInterStore d ks) = False"
| "reads (SUnionStore d ks) = False"
| "reads (SDiffStore d ks) = False"
| "reads c = True"

text \<open>How many members a command may add to one set.\<close>

fun set_growth :: "set_cmd \<Rightarrow> sets \<Rightarrow> nat" where
  "set_growth (SAdd k ms) A = card (A k) + length ms"
| "set_growth (SMove a b m) A = card (A b) + 1"
| "set_growth (SUnionStore d ks) A = card (union_of A ks)"
| "set_growth c A = 0"

definition set_fits :: "set_cmd \<Rightarrow> sets \<Rightarrow> bool" where
  "set_fits c A \<longleftrightarrow> (\<forall>k\<in>set (set_keys_of c). key_fits k) \<and> set_growth c A < 2 ^ 63"

section \<open>The simulation\<close>

abbreviation sets_rep :: "'p engine \<Rightarrow> 'p wedb \<Rightarrow> key_composer \<Rightarrow> u64 \<Rightarrow> sets \<Rightarrow> bool" where
  "sets_rep E s kc now \<equiv> all_rep (\<lambda>s k S. set_rep E s kc now k S) s"

sublocale kv_engine \<subseteq> set_keys: key_rep E kc "\<lambda>s k S. set_rep E s kc now k S" for kc now
  by unfold_locales (rule set_cong)

lemma apply_card_limit_eq [simp]: "apply_card_limit n limit = limited limit n"
  by (simp add: apply_card_limit_def limited_def)

lemma apply_set_limit_eq: "apply_set_limit r limit = limited limit (card (opt_set r))"
  by (simp add: apply_set_limit_def limited_def split: option.splits)

lemma limited_0 [simp]: "limited limit 0 = 0"
  by (simp add: limited_def)

context kv_engine
begin

lemma sets_rep_at: "sets_rep E s kc now A \<Longrightarrow> \<forall>k\<in>set ks. key_fits k \<Longrightarrow> sets_at E s kc now A ks"
  by (auto simp: sets_at_def dest: all_repD)

lemma sets_rep_fin: "sets_rep E s kc now A \<Longrightarrow> key_fits k \<Longrightarrow> finite (A k) \<and> card (A k) < 2 ^ 63"
  using all_repD set_rep_finite by fastforce

lemma inter_rep:
  assumes "sets_rep E s kc now A" and "\<forall>k\<in>set ks. key_fits k"
  shows "\<exists>r. compute_sinter_set E kc s now ks = Inr r \<and> opt_set r = inter_of A ks"
  using sinter_rep [OF sets_rep_at [OF assms]] by (cases "ks = []") (auto simp: inter_of_def compute_sinter_set_def)

lemma diff_rep:
  assumes "sets_rep E s kc now A" and "\<forall>k\<in>set ks. key_fits k"
  shows "\<exists>r. compute_sdiff_set E kc s now ks = Inr r \<and> opt_set r = diff_of A ks"
  using sdiff_rep [OF sets_rep_at [OF assms]] by (cases "ks = []") (auto simp: diff_of_def compute_sdiff_set_def)

lemma algebra_finite:
  assumes "sets_rep E s kc now A" and "\<forall>k\<in>set ks. key_fits k"
  shows "finite (inter_of A ks)" "finite (diff_of A ks)" "finite (union_of A ks)"
    "card (inter_of A ks) < 2 ^ 63" "card (diff_of A ks) < 2 ^ 63"
proof -
  have fin: "finite (A k)" "card (A k) < 2 ^ 63" if "k \<in> set ks" for k
    using sets_rep_fin [OF assms(1)] assms(2) that by auto
  show "finite (union_of A ks)" using fin by (auto simp: union_of_def)
  have sub: "inter_of A ks = {} \<or> (\<exists>k\<in>set ks. inter_of A ks \<subseteq> A k)" "diff_of A ks = {} \<or> (\<exists>k\<in>set ks. diff_of A ks \<subseteq> A k)"
    by (cases ks; auto simp: inter_of_def diff_of_def)+
  show "finite (inter_of A ks)" "finite (diff_of A ks)"
    using sub fin finite_subset by (metis finite.emptyI)+
  show "card (inter_of A ks) < 2 ^ 63" "card (diff_of A ks) < 2 ^ 63"
    using sub fin card_mono le_less_trans by (metis card.empty zero_less_numeral zero_less_power)+
qed

lemma store_rep:
  assumes rep: "sets_rep E s kc now A" and d: "key_fits d" and ord: "hash_iter_ok ord"
    and S: "finite S" "card S < 2 ^ 63"
  shows "\<exists>s'. overwrite_set_iter E kc now ts d (ord S) s = Inr (card S, s') \<and> sets_rep E s' kc now (A(d := S))"
proof -
  have "set (ord S) = S" "distinct (ord S)" using ord S(1) by (simp_all add: hash_iter_ok_def)
  moreover from this have "length (ord S) = card S" by (metis distinct_card)
  ultimately show ?thesis
    using overwrite_rep [OF all_repD [OF rep d], of "ord S" ts] S(2) set_keys.all_rep_step [OF rep d] by auto
qed

lemma store_opt_rep:
  assumes rep: "sets_rep E s kc now A" and d: "key_fits d" and ord: "hash_iter_ok ord"
    and S: "finite (opt_set r)" "card (opt_set r) < 2 ^ 63"
  shows "\<exists>s'. store_set_opt E ord kc now ts d r s = Inr (card (opt_set r), s')
    \<and> sets_rep E s' kc now (A(d := opt_set r))"
proof (cases r)
  case None
  then show ?thesis
    using overwrite_rep [OF all_repD [OF rep d], of "[]" ts] set_keys.all_rep_step [OF rep d]
    by (auto simp: store_set_opt_def overwrite_set_def)
next
  case (Some T)
  then show ?thesis using store_rep [OF rep d ord] S by (simp add: store_set_opt_def)
qed

lemma move_set_sim:
  assumes rep: "sets_rep E s kc now A" and fit: "set_fits (SMove a b m) A"
  shows "\<exists>s'. smove E kc now ts a b m s = Inr (m \<in> A a, s')
    \<and> sets_rep E s' kc now (if m \<in> A a \<and> a \<noteq> b then A(a := A a - {m}, b := insert m (A b)) else A)"
proof (cases "a = b")
  case True
  then show ?thesis
    using rep fit sismember_rep [OF all_repD [OF rep], of a m] by (simp add: smove_def set_fits_def)
next
  case False
  have k: "key_fits a" "key_fits b" "card (A b) + 1 < 2 ^ 63" using fit by (simp_all add: set_fits_def)
  obtain s' where p: "smove E kc now ts a b m s = Inr (m \<in> A a, s')" "set_rep E s' kc now a (A a - {m})"
    "set_rep E s' kc now b (if m \<in> A a then insert m (A b) else A b)"
    "\<forall>x. \<not> owns kc a x \<and> \<not> owns kc b x \<longrightarrow> dat E s' x = dat E s x \<and> met E s' x = met E s x"
    using smove_rep [OF all_repD [OF rep k(1)] all_repD [OF rep k(2)] False k] by blast
  have "A(a := A a - {m}, b := if m \<in> A a then insert m (A b) else A b)
      = (if m \<in> A a \<and> a \<noteq> b then A(a := A a - {m}, b := insert m (A b)) else A)"
    using False by auto
  then show ?thesis
    using set_keys.all_rep_step2 [OF rep k(1,2) False p(2,3,4)] p(1) by simp
qed

lemma set_read_sim:
  assumes rep: "sets_rep E s kc now A" and fit: "set_fits c A" and V: "set_env_ok V"
    and c: "reads c"
  shows "\<exists>r. set_call E V kc now ts c s = (r, s) \<and> set_spec (se_hash V) c A r A"
proof -
  have R: "rng_ok (se_rng V)" and ord: "hash_iter_ok (se_iter V)" using V by (simp_all add: set_env_ok_def)
  have iter: "lists_set (RMembers (se_iter V S)) S" if "finite S" for S
    using ord that by (simp add: hash_iter_ok_def lists_set_def)
  have fits: "\<forall>k\<in>set (set_keys_of c). key_fits k" using fit by (simp add: set_fits_def)
  have one: "sets_at E s kc now A ks \<Longrightarrow> length ks = 1 \<Longrightarrow>
      scard E kc s now (ks ! 0) = Inr (word_of_nat (card (A (ks ! 0))))
    \<and> unat (word_of_nat (card (A (ks ! 0))) :: u64) = card (A (ks ! 0))
    \<and> smembers E kc s now (ks ! 0) = Inr (sorted_list_of_set (A (ks ! 0))) \<and> finite (A (ks ! 0))
    \<and> inter_of A ks = A (ks ! 0) \<and> union_of A ks = A (ks ! 0) \<and> diff_of A ks = A (ks ! 0)" for ks
    using scard_rep smembers_rep set_rep_finite [of s kc now "ks ! 0" "A (ks ! 0)"]
    by (auto simp: length_Suc_conv unat_of_nat inter_of_def union_of_def diff_of_def)
  show ?thesis
  proof (cases c)
    case (SRandMember k n)
    then show ?thesis using srandmember_rep [OF all_repD [OF rep, of k] R, of n] fits by auto
  next
    case (SIsMember k m)
    then show ?thesis using sismember_rep [OF all_repD [OF rep, of k]] fits by simp
  next
    case (SMIsMember k ms)
    then show ?thesis using smismember_rep [OF all_repD [OF rep, of k]] fits by simp
  next
    case (SMembers k)
    then show ?thesis using smembers_rep [OF all_repD [OF rep, of k]] fits by simp
  next
    case (SCard k)
    then show ?thesis
      using scard_rep [OF all_repD [OF rep, of k]] sets_rep_fin [OF rep, of k] fits by (simp add: unat_of_nat)
  next
    case (SInter ks)
    then show ?thesis
      using inter_rep [OF rep, of ks] algebra_finite(1) [OF rep, of ks] iter fits
      by (auto simp: sinter_def lists_set_def split: option.splits)
  next
    case (SUnion ks)
    have at: "sets_at E s kc now A ks" using sets_rep_at [OF rep] fits SUnion by simp
    show ?thesis
    proof (cases "length ks = 1")
      case True
      then show ?thesis using one [OF at True] SUnion by (auto simp: sunion_def lists_set_def)
    next
      case False
      then show ?thesis
        using SUnion sunion_rep [OF at] algebra_finite(3) [OF rep, of ks] iter fits
        by (auto simp: sunion_def union_of_def lists_set_def)
    qed
  next
    case (SDiff ks)
    then show ?thesis
      using diff_rep [OF rep, of ks] algebra_finite(2) [OF rep, of ks] iter fits
      by (auto simp: sdiff_def lists_set_def split: option.splits)
  next
    case (SInterCard ks n)
    have at: "sets_at E s kc now A ks" using sets_rep_at [OF rep] fits SInterCard by simp
    show ?thesis
    proof (cases "length ks = 1")
      case True
      then show ?thesis using one [OF at True] SInterCard by (auto simp: sintercard_def)
    next
      case False
      then show ?thesis
        using SInterCard inter_rep [OF rep, of ks] fits by (auto simp: sintercard_def apply_set_limit_eq inter_of_def)
    qed
  next
    case (SUnionCard ks n)
    have at: "sets_at E s kc now A ks" using sets_rep_at [OF rep] fits SUnionCard by simp
    then show ?thesis
      using SUnionCard sunioncard_rep [OF at, of "se_hash V" n] one [OF at] by (auto simp: union_of_def)
  next
    case (SDiffCard ks n)
    have at: "sets_at E s kc now A ks" using sets_rep_at [OF rep] fits SDiffCard by simp
    show ?thesis
    proof (cases "length ks = 1")
      case True
      then show ?thesis using one [OF at True] SDiffCard by (auto simp: sdiffcard_def)
    next
      case False
      then show ?thesis
        using SDiffCard diff_rep [OF rep, of ks] fits by (auto simp: sdiffcard_def apply_set_limit_eq diff_of_def)
    qed
  next
    case (SScan k cur p n)
    then show ?thesis using sscan_rep [OF all_repD [OF rep, of k]] fits by (simp add: Let_def)
  qed (use c in simp_all)
qed

lemma set_call_sim:
  assumes rep: "sets_rep E s kc now A" and fit: "set_fits c A" and V: "set_env_ok V"
  shows "\<exists>r s' A'. set_call E V kc now ts c s = (r, s') \<and> set_spec (se_hash V) c A r A' \<and> sets_rep E s' kc now A'"
proof -
  have R: "rng_ok (se_rng V)" and ord: "hash_iter_ok (se_iter V)" using V by (simp_all add: set_env_ok_def)
  have fits: "\<forall>k\<in>set (set_keys_of c). key_fits k" "set_growth c A < 2 ^ 63" using fit by (simp_all add: set_fits_def)
  have read: ?thesis if "reads c"
    using set_read_sim [OF rep fit V that] rep by blast
  show ?thesis
  proof (cases c)
    case (SAdd k ms)
    then show ?thesis
      using sadd_rep [OF all_repD [OF rep, of k], of ms ts] set_keys.all_rep_step [OF rep, of k] fits by auto
  next
    case (SRem k ms)
    then show ?thesis
      using srem_rep [OF all_repD [OF rep, of k], of ms] set_keys.all_rep_step [OF rep, of k] fits by auto
  next
    case (SMove a b m)
    then show ?thesis using move_set_sim [OF rep, of a b m ts] fit by auto
  next
    case (SPop k n)
    then show ?thesis
      using spop_rep [OF all_repD [OF rep, of k] R, of n] set_keys.all_rep_step [OF rep, of k] fits by auto
  next
    case (SInterStore d ks)
    obtain r where r: "compute_sinter_set E kc s now ks = Inr r" "opt_set r = inter_of A ks"
      using inter_rep [OF rep, of ks] fits SInterStore by auto
    then show ?thesis
      using store_opt_rep [OF rep _ ord, of d r ts] algebra_finite(1,4) [OF rep, of ks] fits SInterStore
      by (auto simp: sinterstore_def)
  next
    case (SUnionStore d ks)
    have at: "sets_at E s kc now A ks" using sets_rep_at [OF rep] fits SUnionStore by simp
    then show ?thesis
      using store_rep [OF rep _ ord, of d "union_of A ks" ts] sunion_rep [OF at] algebra_finite(3) [OF rep, of ks] fits SUnionStore
      by (auto simp: sunionstore_def union_of_def)
  next
    case (SDiffStore d ks)
    obtain r where r: "compute_sdiff_set E kc s now ks = Inr r" "opt_set r = diff_of A ks"
      using diff_rep [OF rep, of ks] fits SDiffStore by auto
    then show ?thesis
      using store_opt_rep [OF rep _ ord, of d r ts] algebra_finite(2,5) [OF rep, of ks] fits SDiffStore
      by (auto simp: sdiffstore_def)
  qed (rule read; simp)+
qed

end

section \<open>Scanning a whole set\<close>

text \<open>The pages of SSCAN_BY_MEMBER, each from the cursor the one before returned.\<close>

fun sscan_pages ::
    "'p engine \<Rightarrow> key_composer \<Rightarrow> 'p wedb \<Rightarrow> u64 \<Rightarrow> bytes \<Rightarrow> bytes option \<Rightarrow> nat option \<Rightarrow> nat \<Rightarrow> bytes option
       \<Rightarrow> bytes list option" where
  "sscan_pages E kc s now key p n 0 cursor = None"
| "sscan_pages E kc s now key p n (Suc fuel) cursor =
     (case sscan_by_member E kc s now key cursor p n of
        Inl _ \<Rightarrow> None
      | Inr (None, ms) \<Rightarrow> Some ms
      | Inr (Some c, ms) \<Rightarrow> map_option (\<lambda>rest. ms @ rest) (sscan_pages E kc s now key p n fuel (Some c)))"

lemma sorted_after_take:
  assumes "sorted_wrt (<) xs" and "0 < n" and "n \<le> length xs"
  shows "filter (\<lambda>x. last (take n xs) < x) xs = drop n (xs :: 'a::linorder list)"
proof -
  have e: "last (take n xs) = xs ! (n - 1)" using assms(2,3) by (subst last_conv_nth) auto
  have "filter (\<lambda>x. xs ! (n - 1) < x) (take n xs) = []"
  proof -
    have "\<not> xs ! (n - 1) < x" if "x \<in> set (take n xs)" for x
    proof -
      obtain i where "i < length (take n xs)" "x = take n xs ! i" using \<open>x \<in> _\<close> by (metis in_set_conv_nth)
      then have i: "i < n" "x = xs ! i" by simp_all
      show ?thesis
      proof (cases "i = n - 1")
        case False
        then have "i < n - 1" "n - 1 < length xs" using i(1) assms by auto
        from sorted_wrt_nth_less [OF assms(1) this] show ?thesis using i(2) by simp
      qed (simp add: i)
    qed
    then show ?thesis by (simp add: filter_empty_conv)
  qed
  moreover have "filter (\<lambda>x. xs ! (n - 1) < x) (drop n xs) = drop n xs"
  proof -
    have "xs ! (n - 1) < x" if "x \<in> set (drop n xs)" for x
    proof -
      obtain i where "i < length (drop n xs)" "x = drop n xs ! i" using \<open>x \<in> _\<close> by (metis in_set_conv_nth)
      then show ?thesis using assms sorted_wrt_nth_less [OF assms(1), of "n - 1" "n + i"] by simp
    qed
    then show ?thesis by (simp add: filter_id_conv)
  qed
  ultimately show ?thesis
    unfolding e using filter_append [of "\<lambda>x. xs ! (n - 1) < x" "take n xs" "drop n xs"] by simp
qed

context kv_engine
begin

lemma sscan_pages_rep:
  assumes rep: "set_rep E s kc now key S"
    and fuel: "card {m \<in> S. case cursor of Some c \<Rightarrow> c < m | None \<Rightarrow> True} < fuel"
  shows "sscan_pages E kc s now key p n fuel cursor
    = Some (filter (\<lambda>m. (case cursor of Some c \<Rightarrow> c < m | None \<Rightarrow> True) \<and> member_matches p m) (sorted_list_of_set S))"
  using fuel
proof (induction fuel arbitrary: cursor)
  case (Suc fuel)
  have fin: "finite S" using set_rep_finite [OF rep] by simp
  let ?P = "\<lambda>cursor m. case cursor of Some c \<Rightarrow> c < m | None \<Rightarrow> True"
  let ?hits = "filter (\<lambda>m. ?P cursor m \<and> member_matches p m) (sorted_list_of_set S)"
  let ?limit = "scan_limit n"
  have lim: "0 < ?limit" by (simp add: scan_limit_def)
  note page = sscan_by_member_rep [OF rep, of cursor p n]
  show ?case
  proof (cases "length ?hits \<ge> ?limit")
    case False
    then show ?thesis by (simp add: page Let_def)
  next
    case True
    define c where "c = last (take ?limit ?hits)"
    have sorted: "sorted_wrt (<) ?hits" by (intro sorted_wrt_filter) simp
    have "take ?limit ?hits \<noteq> []" using True lim by (cases ?hits) auto
    then have "c \<in> set (take ?limit ?hits)" unfolding c_def by (rule last_in_set)
    then have "c \<in> set ?hits" by (rule in_set_takeD)
    then have c: "c \<in> S" "?P cursor c" using fin by auto
    have up: "?P cursor m" if "c < m" for m using c(2) that by (auto split: option.splits)
    have "{m \<in> S. c < m} \<subset> {m \<in> S. ?P cursor m}" using c up by auto
    then have "card {m \<in> S. c < m} < card {m \<in> S. ?P cursor m}"
      using fin by (intro psubset_card_mono) auto
    then have "card {m \<in> S. ?P (Some c) m} < fuel" using Suc.prems by simp
    from Suc.IH [OF this] have IH: "sscan_pages E kc s now key p n fuel (Some c)
        = Some (filter (\<lambda>m. c < m \<and> member_matches p m) (sorted_list_of_set S))" by simp
    have "filter (\<lambda>m. c < m \<and> member_matches p m) (sorted_list_of_set S) = filter (\<lambda>m. c < m) ?hits"
      unfolding filter_filter by (rule filter_cong) (auto dest: up)
    also have "\<dots> = drop ?limit ?hits"
      unfolding c_def by (rule sorted_after_take [OF sorted lim True])
    finally show ?thesis
      using True IH by (simp add: page Let_def c_def)
  qed
qed simp

end

section \<open>Properties\<close>

text \<open>C2: Every set command on a store where every key is a set replies as on plain sets and leaves
  a store where every key is the resulting set: additions, removals, moves, pops, random members,
  membership, intersections, unions and differences with their stores and cardinalities, and scans.
  The one reply that is not the mathematical one is SUNIONCARD of several keys, which counts hashes
  of members.\<close>

theorem set_commands_refine:
  assumes "kv_engine E" and "sets_rep E s kc now A" and "set_fits c A" and "set_env_ok V"
  shows "\<exists>r s' A'. set_call E V kc now ts c s = (r, s') \<and> set_spec (se_hash V) c A r A' \<and> sets_rep E s' kc now A'"
  using kv_engine.set_call_sim [OF assms] .

definition env0 :: set_env where
  "env0 = \<lparr>se_iter = sorted_list_of_set, se_rng = \<lparr>usize = (\<lambda>c lo hi. lo), shuffle = rev\<rparr>, se_hash = from_be64\<rparr>"

lemma empty_sets_rep: "sets_rep mem_engine mem_db kc0 5 (\<lambda>_. {})"
  by (auto simp: all_rep_def set_rep_def coll_rep_def live_string_def other_live_def live_meta_def live_own_def)

theorem set_commands_refine_witness:
  "\<exists>s'. set_call mem_engine env0 kc0 5 1 (SAdd [97] [[1], [2], [1]]) mem_db = (RNat 2, s')
     \<and> sets_rep mem_engine s' kc0 5 ((\<lambda>_. {})([97] := {[1], [2]}))"
proof -
  have "set_env_ok env0" by (simp add: env0_def set_env_ok_def hash_iter_ok_def rng_ok_def)
  moreover have "set_fits (SAdd [97] [[1], [2], [1]]) (\<lambda>_. {})" by (simp add: set_fits_def)
  ultimately obtain r s' A' where
    "set_call mem_engine env0 kc0 5 1 (SAdd [97] [[1], [2], [1]]) mem_db = (r, s')"
    "set_spec (se_hash env0) (SAdd [97] [[1], [2], [1]]) (\<lambda>_. {}) r A'" "sets_rep mem_engine s' kc0 5 A'"
    using set_commands_refine [OF kv_engine_mem empty_sets_rep] by blast
  moreover have "{[2], [1 :: u8]} = {[1], [2]}" by auto
  ultimately show ?thesis by (simp add: insert_absorb)
qed

text \<open>C29: Scanning a set page by page with SSCAN_BY_MEMBER ends, and its pages together are exactly
  the members that match the pattern, once each and in order, whatever the page size.\<close>

theorem sscan_terminates:
  assumes "kv_engine E" and "set_rep E s kc now key S" and "card S < fuel"
  shows "sscan_pages E kc s now key p n fuel None = Some (filter (member_matches p) (sorted_list_of_set S))"
  using kv_engine.sscan_pages_rep [OF assms(1,2), of None fuel p n] assms(3) by simp

theorem sscan_terminates_witness:
  "\<exists>s'. sadd mem_engine kc0 5 1 [97] [[1], [2]] mem_db = Inr (2, s')
     \<and> sscan_pages mem_engine kc0 s' 5 [97] None (Some 1) 3 None = Some [[1], [2]]"
proof -
  have "set_rep mem_engine mem_db kc0 5 [97] {}" using all_repD [OF empty_sets_rep, of "[97]"] by simp
  from mem.sadd_rep [OF this, of "[[1], [2]]" 1] obtain s' where s':
    "sadd mem_engine kc0 5 1 [97] [[1], [2]] mem_db = Inr (2, s')" "set_rep mem_engine s' kc0 5 [97] {[1], [2]}"
    by auto
  have "sorted_list_of_set {[1], [2 :: u8]} = [[1], [2]]"
    by (simp add: list_less_Cons)
  then show ?thesis
    using s' sscan_terminates [OF kv_engine_mem s'(2), of 3 None "Some 1"]
    by (simp add: member_matches_def is_match_all_def)
qed

end
