(* ===== verification/Str_Ops.thy ===== *)
theory Str_Ops
  imports Key_Space
begin

text \<open>
  The string commands of \<^verbatim>\<open>embed/src/api/string\<close> (\<^verbatim>\<open>mod.rs\<close>, \<^verbatim>\<open>opt.rs\<close>, \<^verbatim>\<open>impl.rs\<close>,
  \<^verbatim>\<open>num.rs\<close>, \<^verbatim>\<open>range.rs\<close>, \<^verbatim>\<open>multi.rs\<close>). A command takes the engine, the database, one clock
  reading and the state. What comes from other crates (reading and printing of integers and
  doubles, the 64-bit hash) is collected in a record of arguments; a double is its bit pattern.
\<close>

section \<open>What other crates provide\<close>

record str_env =
  parse_i64_fast :: "bytes \<Rightarrow> int option"
  itoa_format :: "int \<Rightarrow> bytes"
  rapidhash_v3 :: "bytes \<Rightarrow> u64"
  parse_f64 :: "bytes \<Rightarrow> u64 option"
  add_f64 :: "u64 \<Rightarrow> u64 \<Rightarrow> u64"
  format_finite :: "u64 \<Rightarrow> bytes"

section \<open>Constants and options\<close>

definition MAX_STRING_SIZE :: nat where "MAX_STRING_SIZE = 512 * 1024 * 1024"

definition ERR_VALUE_NOT_INTEGER :: string where
  "ERR_VALUE_NOT_INTEGER = ''ERR value is not an integer or out of range''"

definition ERR_VALUE_NOT_FLOAT :: string where
  "ERR_VALUE_NOT_FLOAT = ''ERR value is not a valid float''"

definition ERR_INCREMENT_OVERFLOW :: string where
  "ERR_INCREMENT_OVERFLOW = ''ERR increment or decrement would overflow''"

definition ERR_INCREMENT_NAN_OR_INFINITY :: string where
  "ERR_INCREMENT_NAN_OR_INFINITY = ''ERR increment would produce NaN or Infinity''"

definition ERR_DIGEST_INVALID_LEN :: string where
  "ERR_DIGEST_INVALID_LEN = ''ERR digest must be exactly 16 hexadecimal characters''"

definition ERR_OFFSET_OUT_OF_RANGE :: string where
  "ERR_OFFSET_OUT_OF_RANGE = ''ERR offset is out of range''"

definition ERR_STRING_EXCEEDS_MAX_SIZE :: string where
  "ERR_STRING_EXCEEDS_MAX_SIZE = ''ERR string exceeds maximum allowed size (512MB)''"

datatype string_set_type = StNone | StNx | StXx | StIfEq | StIfNe | StIfDeq | StIfDne

record string_set =
  ss_expire :: u64
  ss_type :: string_set_type
  ss_get :: bool
  ss_keep_ttl :: bool
  ss_cmp :: "bytes option"

definition string_set_default :: string_set where
  "string_set_default = \<lparr>ss_expire = 0, ss_type = StNone, ss_get = False, ss_keep_ttl = False, ss_cmp = None\<rparr>"

definition is_fast_path :: "string_set \<Rightarrow> bool" where
  "is_fast_path a \<longleftrightarrow> ss_type a = StNone \<and> \<not> ss_get a \<and> \<not> ss_keep_ttl a \<and> ss_cmp a = None"

definition saturating_add_u64 :: "u64 \<Rightarrow> u64 \<Rightarrow> u64" where
  "saturating_add_u64 a b = (if unat a + unat b < 2 ^ 64 then a + b else - 1)"

definition saturating_mul_u64 :: "u64 \<Rightarrow> u64 \<Rightarrow> u64" where
  "saturating_mul_u64 a b = (if unat a * unat b < 2 ^ 64 then a * b else - 1)"

datatype set_opt =
    SetEx u64 | SetPx u64 | SetExAt u64 | SetPxAt u64 | SetKeepTtl | SetNx | SetXx
  | SetIfEq bytes | SetIfNe bytes | SetIfDeq bytes | SetIfDne bytes | SetGet

fun parse_option :: "u64 \<Rightarrow> string_set \<Rightarrow> set_opt \<Rightarrow> string_set" where
  "parse_option now_ms a (SetEx sec) =
     a\<lparr>ss_expire := saturating_add_u64 now_ms (saturating_mul_u64 sec 1000), ss_keep_ttl := False\<rparr>"
| "parse_option now_ms a (SetPx ms) = a\<lparr>ss_expire := saturating_add_u64 now_ms ms, ss_keep_ttl := False\<rparr>"
| "parse_option now_ms a (SetExAt sec) = a\<lparr>ss_expire := saturating_mul_u64 sec 1000, ss_keep_ttl := False\<rparr>"
| "parse_option now_ms a (SetPxAt ms) = a\<lparr>ss_expire := ms, ss_keep_ttl := False\<rparr>"
| "parse_option now_ms a SetKeepTtl = a\<lparr>ss_keep_ttl := True, ss_expire := 0\<rparr>"
| "parse_option now_ms a SetNx = a\<lparr>ss_type := StNx, ss_cmp := None\<rparr>"
| "parse_option now_ms a SetXx = a\<lparr>ss_type := StXx, ss_cmp := None\<rparr>"
| "parse_option now_ms a (SetIfEq v) = a\<lparr>ss_type := StIfEq, ss_cmp := Some v\<rparr>"
| "parse_option now_ms a (SetIfNe v) = a\<lparr>ss_type := StIfNe, ss_cmp := Some v\<rparr>"
| "parse_option now_ms a (SetIfDeq v) = a\<lparr>ss_type := StIfDeq, ss_cmp := Some v\<rparr>"
| "parse_option now_ms a (SetIfDne v) = a\<lparr>ss_type := StIfDne, ss_cmp := Some v\<rparr>"
| "parse_option now_ms a SetGet = a\<lparr>ss_get := True\<rparr>"

definition parse_options :: "set_opt list \<Rightarrow> u64 \<Rightarrow> string_set" where
  "parse_options options now_ms = foldl (parse_option now_ms) string_set_default options"

datatype get_ex = GetEx u64 | GetPx u64 | GetExAt u64 | GetPxAt u64 | GetPersist

fun compute_expire :: "get_ex \<Rightarrow> u64 \<Rightarrow> u64" where
  "compute_expire GetPersist now_ms = 0"
| "compute_expire (GetEx sec) now_ms = saturating_add_u64 now_ms (saturating_mul_u64 sec 1000)"
| "compute_expire (GetPx ms) now_ms = saturating_add_u64 now_ms ms"
| "compute_expire (GetExAt sec) now_ms = saturating_mul_u64 sec 1000"
| "compute_expire (GetPxAt ms) now_ms = ms"

datatype del_ex = DelNone | DelIfEq bytes | DelIfNe bytes | DelIfDeq bytes | DelIfDne bytes

record string_mset =
  ms_expire :: u64
  ms_type :: string_set_type
  ms_keep_ttl :: bool

definition string_mset_default :: string_mset where
  "string_mset_default = \<lparr>ms_expire = 0, ms_type = StNone, ms_keep_ttl = False\<rparr>"

section \<open>Digests and numbers as text\<close>

definition is_ascii_hexdigit :: "u8 \<Rightarrow> bool" where
  "is_ascii_hexdigit b \<longleftrightarrow> 48 \<le> b \<and> b \<le> 57 \<or> 97 \<le> b \<and> b \<le> 102 \<or> 65 \<le> b \<and> b \<le> 70"

definition to_ascii_lowercase :: "u8 \<Rightarrow> u8" where
  "to_ascii_lowercase b = (if 65 \<le> b \<and> b \<le> 90 then b + 32 else b)"

definition eq_ignore_ascii_case :: "bytes \<Rightarrow> bytes \<Rightarrow> bool" where
  "eq_ignore_ascii_case a b \<longleftrightarrow> map to_ascii_lowercase a = map to_ascii_lowercase b"

definition valid_digest :: "bytes \<Rightarrow> bool" where
  "valid_digest d \<longleftrightarrow> length d = 16 \<and> list_all is_ascii_hexdigit d"

definition string_digest_bytes :: "str_env \<Rightarrow> bytes \<Rightarrow> bytes" where
  "string_digest_bytes V val = bytes_to_hex_16 (to_be64 (rapidhash_v3 V val))"

definition string_digest :: "str_env \<Rightarrow> bytes \<Rightarrow> bytes" where
  "string_digest V val = u64_to_hex_16 (rapidhash_v3 V val)"

text \<open>The classes of IEEE 754 doubles, on bit patterns.\<close>

definition f64_exponent_ones :: "u64 \<Rightarrow> bool" where
  "f64_exponent_ones x \<longleftrightarrow> x AND 0x7FF0000000000000 = 0x7FF0000000000000"

definition is_nan :: "u64 \<Rightarrow> bool" where
  "is_nan x \<longleftrightarrow> f64_exponent_ones x \<and> x AND 0x000FFFFFFFFFFFFF \<noteq> 0"

definition is_infinite :: "u64 \<Rightarrow> bool" where
  "is_infinite x \<longleftrightarrow> f64_exponent_ones x \<and> x AND 0x000FFFFFFFFFFFFF = 0"

definition is_zero_f64 :: "u64 \<Rightarrow> bool" where
  "is_zero_f64 x \<longleftrightarrow> x AND 0x7FFFFFFFFFFFFFFF = 0"

definition parse_redis_float :: "str_env \<Rightarrow> bytes \<Rightarrow> string \<Rightarrow> error + u64" where
  "parse_redis_float V v err_msg =
     try_op (validate_redis_number_slice v err_msg)
       (\<lambda>v. case parse_f64 V v of
          None \<Rightarrow> Inl (InvalidData err_msg)
        | Some x \<Rightarrow> if is_nan x \<or> is_infinite x then Inl (InvalidData err_msg) else Inr x)"

text \<open>\<open>''inf''\<close>, \<open>''-inf''\<close>, \<open>''nan''\<close>, \<open>''0''\<close>, or the printed number without a trailing \<open>''.0''\<close>.\<close>

definition strip_suffix :: "bytes \<Rightarrow> bytes \<Rightarrow> bytes option" where
  "strip_suffix suf s =
     (if length suf \<le> length s \<and> drop (length s - length suf) s = suf
      then Some (take (length s - length suf) s) else None)"

definition format_float_bytes :: "str_env \<Rightarrow> u64 \<Rightarrow> bytes" where
  "format_float_bytes V val =
     (if is_infinite val then (if val AND SIGN_MASK = 0 then [105, 110, 102] else [45, 105, 110, 102])
      else if is_nan val then [110, 97, 110]
      else if is_zero_f64 val then [48]
      else let s = format_finite V val
           in case strip_suffix [46, 48] s of Some stripped \<Rightarrow> stripped | None \<Rightarrow> s)"

section \<open>Reading a string\<close>

text \<open>\<open>get_string_raw\<close>: the stored bytes, the expiry and the offset of the payload.\<close>

definition get_string_raw ::
    "'p engine \<Rightarrow> key_composer \<Rightarrow> 'p wedb \<Rightarrow> u64 \<Rightarrow> bytes \<Rightarrow> error + (bytes \<times> u64 \<times> nat) option" where
  "get_string_raw E kc s now_ms key =
     (let rest = try_op (check_composite_meta_not_other_type E kc s key [] now_ms) (\<lambda>_. Inr None)
      in case e_get E (w_data s) (as_bytes (raw_key kc key)) of
           None \<Rightarrow> rest
         | Some raw \<Rightarrow>
             (let (expire_at, payload) = decode_string_value raw
              in if \<not> is_string_expired expire_at now_ms
                 then Inr (Some (raw, expire_at, length raw - length payload))
                 else rest))"

definition str_get :: "'p engine \<Rightarrow> key_composer \<Rightarrow> 'p wedb \<Rightarrow> u64 \<Rightarrow> bytes \<Rightarrow> error + bytes option" where
  "str_get E kc s now_ms key =
     try_op (get_string_raw E kc s now_ms key)
       (\<lambda>r. case r of Some (raw, _, offset) \<Rightarrow> Inr (Some (drop offset raw)) | None \<Rightarrow> Inr None)"

definition with_get ::
    "'p engine \<Rightarrow> key_composer \<Rightarrow> 'p wedb \<Rightarrow> u64 \<Rightarrow> bytes \<Rightarrow> (bytes \<Rightarrow> 'r) \<Rightarrow> error + 'r option" where
  "with_get E kc s now_ms key f =
     try_op (get_string_raw E kc s now_ms key)
       (\<lambda>r. case r of Some (raw, _, offset) \<Rightarrow> Inr (Some (f (drop offset raw))) | None \<Rightarrow> Inr None)"

definition get_with_expire ::
    "'p engine \<Rightarrow> key_composer \<Rightarrow> 'p wedb \<Rightarrow> u64 \<Rightarrow> bytes \<Rightarrow> error + (bytes option \<times> u64)" where
  "get_with_expire E kc s now_ms key =
     try_op (get_string_raw E kc s now_ms key)
       (\<lambda>r. case r of Some (raw, exp, offset) \<Rightarrow> Inr (Some (drop offset raw), exp) | None \<Rightarrow> Inr (None, 0))"

definition strlen :: "'p engine \<Rightarrow> key_composer \<Rightarrow> 'p wedb \<Rightarrow> u64 \<Rightarrow> bytes \<Rightarrow> error + nat" where
  "strlen E kc s now_ms key =
     try_op (get_string_raw E kc s now_ms key)
       (\<lambda>r. case r of Some (raw, _, offset) \<Rightarrow> Inr (length raw - offset) | None \<Rightarrow> Inr 0)"

definition digest :: "'p engine \<Rightarrow> str_env \<Rightarrow> key_composer \<Rightarrow> 'p wedb \<Rightarrow> u64 \<Rightarrow> bytes \<Rightarrow> error + bytes option" where
  "digest E V kc s now_ms key =
     try_op (get_string_raw E kc s now_ms key)
       (\<lambda>r. case r of Some (raw, _, offset) \<Rightarrow> Inr (Some (string_digest V (drop offset raw))) | None \<Rightarrow> Inr None)"

definition with_getrange ::
    "'p engine \<Rightarrow> key_composer \<Rightarrow> 'p wedb \<Rightarrow> u64 \<Rightarrow> bytes \<Rightarrow> index_range \<Rightarrow> (bytes \<Rightarrow> 'r) \<Rightarrow> error + 'r option" where
  "with_getrange E kc st now_ms key ri f =
     (let (start, stop) = into_index_range ri
      in try_op (get_string_raw E kc st now_ms key)
           (\<lambda>r. case r of
              None \<Rightarrow> Inr None
            | Some (raw, _, offset) \<Rightarrow>
                (let payload = drop offset raw;
                     (s, e) = normalize_range start stop (int (length payload))
                 in if s > e \<or> payload = [] then Inr (Some (f []))
                    else Inr (Some (f (take (nat (e - s + 1)) (drop (nat s) payload)))))))"

definition getrange ::
    "'p engine \<Rightarrow> key_composer \<Rightarrow> 'p wedb \<Rightarrow> u64 \<Rightarrow> bytes \<Rightarrow> index_range \<Rightarrow> error + bytes" where
  "getrange E kc st now_ms key ri =
     (let (start, stop) = into_index_range ri
      in try_op (get_string_raw E kc st now_ms key)
           (\<lambda>r. case r of
              None \<Rightarrow> Inr []
            | Some (raw, _, offset) \<Rightarrow>
                (let payload = drop offset raw;
                     (s, e) = normalize_range start stop (int (length payload))
                 in if s > e \<or> payload = [] then Inr []
                    else Inr (take (nat (e - s + 1)) (drop (nat s) payload)))))"

section \<open>Writing a string\<close>

text \<open>The outcomes of the conditions of SET on the old value, as payload and expiry.\<close>

fun condition_met :: "str_env \<Rightarrow> string_set_type \<Rightarrow> bytes option \<Rightarrow> bytes option \<Rightarrow> bool \<Rightarrow> bool" where
  "condition_met V StNone cmp old wrong = True"
| "condition_met V StNx cmp old wrong = (old = None \<and> \<not> wrong)"
| "condition_met V StXx cmp old wrong = (old \<noteq> None \<or> wrong)"
| "condition_met V StIfEq cmp old wrong =
     (case cmp of None \<Rightarrow> False
      | Some expected \<Rightarrow> (case old of None \<Rightarrow> False | Some v \<Rightarrow> v = expected))"
| "condition_met V StIfNe cmp old wrong =
     (case cmp of None \<Rightarrow> True
      | Some expected \<Rightarrow> (case old of None \<Rightarrow> True | Some v \<Rightarrow> v \<noteq> expected))"
| "condition_met V StIfDeq cmp old wrong =
     (case cmp of None \<Rightarrow> False
      | Some expected \<Rightarrow> (case old of None \<Rightarrow> False
          | Some v \<Rightarrow> eq_ignore_ascii_case (string_digest_bytes V v) expected))"
| "condition_met V StIfDne cmp old wrong =
     (case cmp of None \<Rightarrow> True
      | Some expected \<Rightarrow> (case old of None \<Rightarrow> True
          | Some v \<Rightarrow> \<not> eq_ignore_ascii_case (string_digest_bytes V v) expected))"

text \<open>The old value of SET: an error of the read is passed on, ends a NX, or counts as a value of
  another type.\<close>

definition old_value ::
    "'p engine \<Rightarrow> key_composer \<Rightarrow> 'p wedb \<Rightarrow> u64 \<Rightarrow> bytes \<Rightarrow> string_set
       \<Rightarrow> error + ((bytes \<times> u64 \<times> nat) option \<times> bool) option" where
  "old_value E kc s now_ms key args =
     (if ss_type args \<noteq> StNone \<or> ss_get args \<or> ss_keep_ttl args then
        (case get_string_raw E kc s now_ms key of
           Inr v \<Rightarrow> Inr (Some (v, False))
         | Inl e \<Rightarrow>
             if ss_type args \<in> {StIfEq, StIfNe, StIfDeq, StIfDne} \<or> ss_get args then Inl e
             else if ss_type args = StNx then Inr None
             else Inr (Some (None, True)))
      else Inr (Some (None, False)))"

definition set_internal ::
    "'p engine \<Rightarrow> str_env \<Rightarrow> key_composer \<Rightarrow> u64 \<Rightarrow> bytes \<Rightarrow> bytes \<Rightarrow> string_set \<Rightarrow> 'p wedb
       \<Rightarrow> error + (bytes option \<times> 'p wedb)" where
  "set_internal E V kc now_ms key val args s =
     (if length val > MAX_STRING_SIZE then Inl (InvalidData ERR_STRING_EXCEEDS_MAX_SIZE)
      else if (case ss_cmp args of
                 Some d \<Rightarrow> ss_type args \<in> {StIfDeq, StIfDne} \<and> \<not> valid_digest d | None \<Rightarrow> False)
      then Inl (InvalidData ERR_DIGEST_INVALID_LEN)
      else
        let raw_k = as_bytes (raw_key kc key) in
        if is_fast_path args then
          Inr (Some [], write_string_val E kc raw_k key (encoded_string_value val (ss_expire args)) True s)
        else
          try_op (old_value E kc s now_ms key args)
            (\<lambda>old. case old of
               None \<Rightarrow> Inr (None, s)
             | Some (old_raw, old_is_wrong_type) \<Rightarrow>
                 (let payload = map_option (\<lambda>(r, _, offset). drop offset r) old_raw;
                      old_val = (if ss_get args then payload else None)
                  in if \<not> condition_met V (ss_type args) (ss_cmp args) payload old_is_wrong_type
                     then Inr (old_val, s)
                     else
                       let expire = (if ss_keep_ttl args
                             then (case old_raw of Some (_, exp, _) \<Rightarrow> exp | None \<Rightarrow> 0)
                             else ss_expire args);
                           s' = write_string_val E kc raw_k key (encoded_string_value val expire) old_is_wrong_type s
                       in Inr (if ss_get args then old_val else Some [], s'))))"

definition set_one where
  "set_one E V kc now_ms key val s = set_internal E V kc now_ms key val string_set_default s"

definition str_set where
  "str_set E V kc now_ms key val opts s = set_internal E V kc now_ms key val (parse_options opts now_ms) s"

text \<open>Results that only say whether the value was written, or nothing.\<close>

definition map_result :: "('a \<Rightarrow> 'b) \<Rightarrow> error + ('a \<times> 's) \<Rightarrow> error + ('b \<times> 's)" where
  "map_result f r = try_op r (\<lambda>(a, s). Inr (f a, s))"

definition setex where
  "setex E V kc now_ms key val expire_at_ms s =
     map_result (\<lambda>_. ()) (set_internal E V kc now_ms key val (string_set_default\<lparr>ss_expire := expire_at_ms\<rparr>) s)"

definition setex_ttl where
  "setex_ttl E V kc now_ms key val ttl_sec s =
     map_result (\<lambda>_. ()) (set_internal E V kc now_ms key val
       (string_set_default\<lparr>ss_expire := saturating_add_u64 now_ms (saturating_mul_u64 ttl_sec 1000)\<rparr>) s)"

definition psetex where
  "psetex E V kc now_ms key val ttl_ms s =
     map_result (\<lambda>_. ()) (set_internal E V kc now_ms key val
       (string_set_default\<lparr>ss_expire := saturating_add_u64 now_ms ttl_ms\<rparr>) s)"

definition getset where
  "getset E V kc now_ms key val s =
     set_internal E V kc now_ms key val (string_set_default\<lparr>ss_get := True\<rparr>) s"

definition setnx where
  "setnx E V kc now_ms key val s =
     map_result (\<lambda>r. r \<noteq> None) (set_internal E V kc now_ms key val (string_set_default\<lparr>ss_type := StNx\<rparr>) s)"

definition setnx_ex where
  "setnx_ex E V kc now_ms key val expire_at_ms s =
     map_result (\<lambda>r. r \<noteq> None) (set_internal E V kc now_ms key val
       (string_set_default\<lparr>ss_expire := expire_at_ms, ss_type := StNx\<rparr>) s)"

definition setxx where
  "setxx E V kc now_ms key val expire_at_ms s =
     map_result (\<lambda>r. r \<noteq> None) (set_internal E V kc now_ms key val
       (string_set_default\<lparr>ss_expire := expire_at_ms, ss_type := StXx\<rparr>) s)"

definition getex ::
    "'p engine \<Rightarrow> key_composer \<Rightarrow> u64 \<Rightarrow> bytes \<Rightarrow> get_ex list \<Rightarrow> 'p wedb \<Rightarrow> error + (bytes option \<times> 'p wedb)" where
  "getex E kc now_ms key opts s =
     try_op (get_string_raw E kc s now_ms key)
       (\<lambda>r. case r of
          None \<Rightarrow> Inr (None, s)
        | Some (raw, _, offset) \<Rightarrow>
            (let payload = drop offset raw
             in case opts of
                  [] \<Rightarrow> Inr (Some payload, s)
                | opt_val # _ \<Rightarrow>
                    Inr (Some payload, put_data E (as_bytes (raw_key kc key))
                      (encoded_string_value payload (compute_expire opt_val now_ms)) s)))"

text \<open>The conditions of DELEX, one after the other.\<close>

fun delex_matches :: "str_env \<Rightarrow> bytes \<Rightarrow> del_ex list \<Rightarrow> error + bool" where
  "delex_matches V val [] = Inr True"
| "delex_matches V val (opt # opts) =
    try_op
      (case opt of
         DelNone \<Rightarrow> Inr True
       | DelIfEq expected \<Rightarrow> Inr (val = expected)
       | DelIfNe expected \<Rightarrow> Inr (val \<noteq> expected)
       | DelIfDeq expected \<Rightarrow>
           if \<not> valid_digest expected then Inl (InvalidData ERR_DIGEST_INVALID_LEN)
           else Inr (eq_ignore_ascii_case (string_digest_bytes V val) expected)
       | DelIfDne expected \<Rightarrow>
           if \<not> valid_digest expected then Inl (InvalidData ERR_DIGEST_INVALID_LEN)
           else Inr (\<not> eq_ignore_ascii_case (string_digest_bytes V val) expected))
      (\<lambda>matched. if \<not> matched then Inr False else delex_matches V val opts)"

definition delex ::
    "'p engine \<Rightarrow> str_env \<Rightarrow> key_composer \<Rightarrow> u64 \<Rightarrow> bytes \<Rightarrow> del_ex list \<Rightarrow> 'p wedb \<Rightarrow> error + (bool \<times> 'p wedb)" where
  "delex E V kc now_ms key opts s =
     try_op (get_string_raw E kc s now_ms key)
       (\<lambda>r. case r of
          None \<Rightarrow> Inr (False, s)
        | Some (raw, _, offset) \<Rightarrow>
            try_op (delex_matches V (drop offset raw) opts)
              (\<lambda>matched. if matched then Inr (True, del_data E (as_bytes (raw_key kc key)) s)
                 else Inr (False, s)))"

definition getdel ::
    "'p engine \<Rightarrow> key_composer \<Rightarrow> u64 \<Rightarrow> bytes \<Rightarrow> 'p wedb \<Rightarrow> error + (bytes option \<times> 'p wedb)" where
  "getdel E kc now_ms key s =
     try_op (get_string_raw E kc s now_ms key)
       (\<lambda>r. case r of
          None \<Rightarrow> Inr (None, s)
        | Some (raw, _, offset) \<Rightarrow>
            Inr (Some (drop offset raw), del_data E (as_bytes (raw_key kc key)) s))"

section \<open>Arithmetic\<close>

text \<open>\<open>i64\<close> values are integers between the two bounds; \<open>checked_add\<close> is None outside, and the
  unary minus of \<open>decrby\<close> wraps at the lower bound.\<close>

definition checked_add_i64 :: "int \<Rightarrow> int \<Rightarrow> int option" where
  "checked_add_i64 a b = (if I64_MIN \<le> a + b \<and> a + b \<le> I64_MAX then Some (a + b) else None)"

definition wrapping_neg_i64 :: "int \<Rightarrow> int" where
  "wrapping_neg_i64 a = (if a = I64_MIN then I64_MIN else - a)"

definition incrby_ex ::
    "'p engine \<Rightarrow> str_env \<Rightarrow> key_composer \<Rightarrow> u64 \<Rightarrow> bytes \<Rightarrow> int \<Rightarrow> u64 \<Rightarrow> bool \<Rightarrow> 'p wedb
       \<Rightarrow> error + (int \<times> 'p wedb)" where
  "incrby_ex E V kc now_ms key increment expire_ms keep_ttl s =
     try_op (get_string_raw E kc s now_ms key)
       (\<lambda>old_raw. try_op
          (case old_raw of
             Some (raw, exp, offset) \<Rightarrow>
               try_op (parse_redis_integer (parse_i64_fast V) (drop offset raw) ERR_VALUE_NOT_INTEGER)
                 (\<lambda>n. Inr (n, exp))
           | None \<Rightarrow> Inr (0, 0))
          (\<lambda>(cur_num, old_expire).
             case checked_add_i64 cur_num increment of
               None \<Rightarrow> Inl (InvalidData ERR_INCREMENT_OVERFLOW)
             | Some new_num \<Rightarrow>
                 (let target_expire = (if keep_ttl then old_expire else expire_ms)
                  in Inr (new_num, write_string_val E kc (as_bytes (raw_key kc key)) key
                       (encoded_string_value (itoa_format V new_num) target_expire) (old_raw = None) s))))"

definition incr where "incr E V kc now_ms key s = incrby_ex E V kc now_ms key 1 0 True s"

definition decr where "decr E V kc now_ms key s = incrby_ex E V kc now_ms key (- 1) 0 True s"

definition incrby where
  "incrby E V kc now_ms key increment s = incrby_ex E V kc now_ms key increment 0 True s"

definition decrby where
  "decrby E V kc now_ms key decrement s = incrby_ex E V kc now_ms key (wrapping_neg_i64 decrement) 0 True s"

definition incrbyfloat_ex ::
    "'p engine \<Rightarrow> str_env \<Rightarrow> key_composer \<Rightarrow> u64 \<Rightarrow> bytes \<Rightarrow> u64 \<Rightarrow> u64 \<Rightarrow> bool \<Rightarrow> 'p wedb
       \<Rightarrow> error + (u64 \<times> 'p wedb)" where
  "incrbyfloat_ex E V kc now_ms key increment expire_ms keep_ttl s =
     (if is_nan increment \<or> is_infinite increment then Inl (InvalidData ERR_INCREMENT_NAN_OR_INFINITY)
      else
        try_op (get_string_raw E kc s now_ms key)
          (\<lambda>old_raw. try_op
             (case old_raw of
                Some (raw, exp, offset) \<Rightarrow>
                  try_op (parse_redis_float V (drop offset raw) ERR_VALUE_NOT_FLOAT) (\<lambda>n. Inr (n, exp))
              | None \<Rightarrow> Inr (0, 0))
             (\<lambda>(cur_num, old_expire).
                let new_num = add_f64 V cur_num increment
                in if is_nan new_num \<or> is_infinite new_num
                   then Inl (InvalidData ERR_INCREMENT_NAN_OR_INFINITY)
                   else
                     let new_num = (if is_zero_f64 new_num then 0 else new_num);
                         target_expire = (if keep_ttl then old_expire else expire_ms)
                     in Inr (new_num, write_string_val E kc (as_bytes (raw_key kc key)) key
                          (encoded_string_value (format_float_bytes V new_num) target_expire) (old_raw = None) s))))"

definition incrbyfloat where
  "incrbyfloat E V kc now_ms key increment s = incrbyfloat_ex E V kc now_ms key increment 0 True s"

section \<open>Parts of a string\<close>

definition string_header :: "u64 \<Rightarrow> bytes" where
  "string_header e = (if e = 0 then STRING_NO_EXPIRY_HEADER else encode_string_header e)"

definition append_str ::
    "'p engine \<Rightarrow> key_composer \<Rightarrow> u64 \<Rightarrow> bytes \<Rightarrow> bytes \<Rightarrow> 'p wedb \<Rightarrow> error + (nat \<times> 'p wedb)" where
  "append_str E kc now_ms key val s =
     try_op (get_string_raw E kc s now_ms key)
       (\<lambda>old_raw.
          let (cur_len, cur_expire) =
                (case old_raw of Some (raw, exp, offset) \<Rightarrow> (length raw - offset, exp) | None \<Rightarrow> (0, 0));
              old_slice = (case old_raw of Some (raw, _, offset) \<Rightarrow> drop offset raw | None \<Rightarrow> []);
              new_len = cur_len + length val;
              raw_k = as_bytes (raw_key kc key)
          in if new_len > MAX_STRING_SIZE then Inl (InvalidData ERR_STRING_EXCEEDS_MAX_SIZE)
             else if new_len \<le> 55 then
               (let b0 = put (replicate 64 0) 0 (string_header cur_expire);
                    b1 = put b0 STRING_HDR_SIZE old_slice;
                    b2 = put b1 (STRING_HDR_SIZE + length old_slice) val;
                    pos = STRING_HDR_SIZE + length old_slice + length val
                in Inr (new_len, write_string_val E kc raw_k key (take pos b2) (old_raw = None) s))
             else
               Inr (new_len, write_string_val E kc raw_k key
                 (encode_string_header cur_expire @ old_slice @ val) (old_raw = None) s))"

definition resize :: "nat \<Rightarrow> bytes \<Rightarrow> bytes" where
  "resize n xs = (if n \<le> length xs then take n xs else xs @ replicate (n - length xs) 0)"

definition setrange ::
    "'p engine \<Rightarrow> key_composer \<Rightarrow> u64 \<Rightarrow> bytes \<Rightarrow> nat \<Rightarrow> bytes \<Rightarrow> 'p wedb \<Rightarrow> error + (nat \<times> 'p wedb)" where
  "setrange E kc now_ms key offset val s =
     (if offset > MAX_STRING_SIZE then Inl (InvalidData ERR_OFFSET_OUT_OF_RANGE)
      else
        let required_len = offset + length val in
        if required_len > MAX_STRING_SIZE then Inl (InvalidData ERR_STRING_EXCEEDS_MAX_SIZE)
        else
          try_op (get_string_raw E kc s now_ms key)
            (\<lambda>old_raw.
               if old_raw = None \<and> val = [] then Inr (0, s)
               else
                 let (old_len, cur_expire) =
                       (case old_raw of Some (raw, exp, off) \<Rightarrow> (length raw - off, exp) | None \<Rightarrow> (0, 0));
                     new_total_len = max old_len required_len;
                     raw_k = as_bytes (raw_key kc key)
                 in if new_total_len \<le> 55 then
                      (let b0 = put (replicate 64 0) 0 (string_header cur_expire);
                           b1 = (case old_raw of
                                   Some (raw, _, off) \<Rightarrow> put b0 STRING_HDR_SIZE (drop off raw) | None \<Rightarrow> b0);
                           b2 = put b1 (STRING_HDR_SIZE + offset) val
                       in Inr (new_total_len, write_string_val E kc raw_k key
                            (take (STRING_HDR_SIZE + new_total_len) b2) (old_raw = None) s))
                    else
                      (let e0 = encode_string_header cur_expire;
                           e1 = (case old_raw of
                                   Some (raw, _, off) \<Rightarrow>
                                     (let old_payload = drop off raw
                                      in if offset < old_len then e0 @ take offset old_payload
                                         else resize (STRING_HDR_SIZE + offset) (e0 @ old_payload))
                                 | None \<Rightarrow> resize (STRING_HDR_SIZE + offset) e0);
                           e2 = e1 @ val;
                           e3 = (case old_raw of
                                   Some (raw, _, off) \<Rightarrow>
                                     if old_len > required_len then e2 @ drop required_len (drop off raw) else e2
                                 | None \<Rightarrow> e2)
                       in Inr (new_total_len, write_string_val E kc raw_k key e3 (old_raw = None) s))))"

definition cas ::
    "'p engine \<Rightarrow> key_composer \<Rightarrow> u64 \<Rightarrow> bytes \<Rightarrow> bytes \<Rightarrow> bytes \<Rightarrow> u64 \<Rightarrow> 'p wedb \<Rightarrow> error + (int \<times> 'p wedb)" where
  "cas E kc now_ms key old_val new_val expire_ms s =
     (if length new_val > MAX_STRING_SIZE then Inl (InvalidData ERR_STRING_EXCEEDS_MAX_SIZE)
      else
        try_op (get_string_raw E kc s now_ms key)
          (\<lambda>r. case r of
             None \<Rightarrow> Inr (-1, s)
           | Some (raw, _, offset) \<Rightarrow>
               if drop offset raw = old_val
               then Inr (1, put_data E (as_bytes (raw_key kc key)) (encoded_string_value new_val expire_ms) s)
               else Inr (0, s)))"

definition cad ::
    "'p engine \<Rightarrow> key_composer \<Rightarrow> u64 \<Rightarrow> bytes \<Rightarrow> bytes \<Rightarrow> 'p wedb \<Rightarrow> error + (int \<times> 'p wedb)" where
  "cad E kc now_ms key val s =
     try_op (get_string_raw E kc s now_ms key)
       (\<lambda>r. case r of
          None \<Rightarrow> Inr (-1, s)
        | Some (raw, _, offset) \<Rightarrow>
            if drop offset raw = val then Inr (1, del_data E (as_bytes (raw_key kc key)) s) else Inr (0, s))"

section \<open>Several keys\<close>

text \<open>\<open>mget\<close> answers nil for a key of another type; the check it makes cannot fail otherwise.\<close>

definition mget_one :: "'p engine \<Rightarrow> key_composer \<Rightarrow> 'p wedb \<Rightarrow> u64 \<Rightarrow> bytes \<Rightarrow> error + bytes option" where
  "mget_one E kc s now_ms k =
     (let rest =
            (if e_is_empty E (w_meta s) then Inr None
             else case check_composite_meta_not_other_type_with_buf E (w_meta s) kc k [] now_ms of
                    Inr _ \<Rightarrow> Inr None
                  | Inl e \<Rightarrow> if is_wrong_type e then Inr None else Inl e)
      in case e_get E (w_data s) (as_bytes (raw_key kc k)) of
           None \<Rightarrow> rest
         | Some raw \<Rightarrow>
             (case decode_live_string_value raw now_ms of Some payload \<Rightarrow> Inr (Some payload) | None \<Rightarrow> rest))"

fun mget :: "'p engine \<Rightarrow> key_composer \<Rightarrow> 'p wedb \<Rightarrow> u64 \<Rightarrow> bytes list \<Rightarrow> error + bytes option list" where
  "mget E kc s now_ms [] = Inr []"
| "mget E kc s now_ms (k # ks) =
    try_op (mget_one E kc s now_ms k)
      (\<lambda>v. try_op (mget E kc s now_ms ks) (\<lambda>vs. Inr (v # vs)))"

text \<open>The first pass of \<open>mset_internal\<close>: the conditions, and the expiries to keep. None ends the
  command with \<open>false\<close>.\<close>

fun mset_check ::
    "'p engine \<Rightarrow> key_composer \<Rightarrow> 'p wedb \<Rightarrow> u64 \<Rightarrow> string_mset \<Rightarrow> u64 list \<Rightarrow> bytes list \<Rightarrow> error + u64 list option" where
  "mset_check E kc s now_ms args expires [] = Inr (Some expires)"
| "mset_check E kc s now_ms args expires (k # ks) =
    (let keep = \<lambda>e. if ms_keep_ttl args then expires @ [e] else expires;
         (is_live, live_expire) =
           (case e_get E (w_data s) (as_bytes (raw_key kc k)) of
              Some raw \<Rightarrow>
                (let (exp, _) = decode_string_value raw
                 in if \<not> is_string_expired exp now_ms then (True, exp) else (False, 0))
            | None \<Rightarrow> (False, 0))
     in if is_live then
          (if ms_type args = StNx then Inr None
           else mset_check E kc s now_ms args (keep live_expire) ks)
        else if ms_type args = StXx then Inr None
        else
          case (if e_is_empty E (w_meta s) then Inr ()
                else check_composite_meta_not_other_type_with_buf E (w_meta s) kc k [] now_ms) of
            Inr _ \<Rightarrow> mset_check E kc s now_ms args (keep 0) ks
          | Inl e \<Rightarrow>
              if is_wrong_type e then
                (if ms_type args = StNx then Inr None
                 else mset_check E kc s now_ms args (keep 0) ks)
              else Inl e)"

fun mset_fast :: "key_composer \<Rightarrow> batch \<Rightarrow> (bytes \<times> bytes) list \<Rightarrow> error + batch" where
  "mset_fast kc batch [] = Inr batch"
| "mset_fast kc batch ((k, v) # kvs) =
    (if length v > MAX_STRING_SIZE then Inl (InvalidData ERR_STRING_EXCEEDS_MAX_SIZE)
     else mset_fast kc (insert_data (as_bytes (raw_key kc k)) (encoded_string_value v 0) batch) kvs)"

fun mset_loop ::
    "'p engine \<Rightarrow> key_composer \<Rightarrow> 'p wedb \<Rightarrow> string_mset \<Rightarrow> u64 list \<Rightarrow> nat \<Rightarrow> batch \<Rightarrow> (bytes \<times> bytes) list \<Rightarrow> error + batch" where
  "mset_loop E kc s args expires i batch [] = Inr batch"
| "mset_loop E kc s args expires i batch ((k, v) # kvs) =
    (if length v > MAX_STRING_SIZE then Inl (InvalidData ERR_STRING_EXCEEDS_MAX_SIZE)
     else
       let expire = (if ms_keep_ttl args then expires ! i else ms_expire args);
           batch = insert_data (as_bytes (raw_key kc k)) (encoded_string_value v expire) batch;
           batch = (if e_is_empty E (w_meta s) then batch else cleanup_all_composite_data E s kc k batch)
       in mset_loop E kc s args expires (i + 1) batch kvs)"

definition mset_internal ::
    "'p engine \<Rightarrow> key_composer \<Rightarrow> u64 \<Rightarrow> (bytes \<times> bytes) list \<Rightarrow> string_mset \<Rightarrow> 'p wedb \<Rightarrow> error + (bool \<times> 'p wedb)" where
  "mset_internal E kc now_ms kvs args s =
     (if kvs = [] then Inr (True, s)
      else
        try_op (if ms_type args \<noteq> StNone \<or> ms_keep_ttl args
                then mset_check E kc s now_ms args [] (map fst kvs) else Inr (Some []))
          (\<lambda>r. case r of
             None \<Rightarrow> Inr (False, s)
           | Some expires \<Rightarrow>
               try_op (if \<not> ms_keep_ttl args \<and> e_is_empty E (w_meta s) \<and> ms_expire args = 0
                       then mset_fast kc [] kvs
                       else mset_loop E kc s args expires 0 [] kvs)
                 (\<lambda>batch. Inr (True, commit E batch s))))"

definition mset_with where "mset_with E kc now_ms kvs args s = mset_internal E kc now_ms kvs args s"

definition msetex where
  "msetex E kc now_ms kvs expire_at_ms s =
     map_result (\<lambda>_. ()) (mset_with E kc now_ms kvs
       \<lparr>ms_expire = expire_at_ms, ms_type = StNone, ms_keep_ttl = False\<rparr> s)"

definition mset where
  "mset E kc now_ms kvs s = map_result (\<lambda>_. ()) (mset_internal E kc now_ms kvs string_mset_default s)"

definition msetnx where
  "msetnx E kc now_ms kvs s = mset_internal E kc now_ms kvs (string_mset_default\<lparr>ms_type := StNx\<rparr>) s"

definition msetxx where
  "msetxx E kc now_ms kvs s = mset_internal E kc now_ms kvs (string_mset_default\<lparr>ms_type := StXx\<rparr>) s"

end
