(* ===== verification/Str_Rep.thy ===== *)
theory Str_Rep
  imports Str_Ops Owned
begin

text \<open>
  What a key looks like to the string commands: absent, a text with an expiry, or a value of
  another type; and the effect of the writes of the string module on it. A text excludes live
  structures under the same key.
\<close>

datatype str_state = Absent | Text bytes u64 | Other

definition live_text :: "kv_map \<Rightarrow> key_composer \<Rightarrow> bytes \<Rightarrow> u64 \<Rightarrow> (bytes \<times> u64) option" where
  "live_text d kc k now =
     (case d (meta_key kc RawString k) of
        None \<Rightarrow> None
      | Some raw \<Rightarrow>
          (let (e, v) = decode_string_value raw in if is_string_expired e now then None else Some (v, e)))"

definition any_live :: "kv_map \<Rightarrow> key_composer \<Rightarrow> bytes \<Rightarrow> u64 \<Rightarrow> bool" where
  "any_live m kc k now \<longleftrightarrow> (\<exists>u\<in>set composite_meta_tags. live_meta m kc k now u \<noteq> None)"

definition text_rep :: "kv_map \<Rightarrow> kv_map \<Rightarrow> key_composer \<Rightarrow> u64 \<Rightarrow> bytes \<Rightarrow> str_state \<Rightarrow> bool" where
  "text_rep d m kc now k a \<longleftrightarrow>
     live_text d kc k now = (case a of Text v e \<Rightarrow> Some (v, e) | _ \<Rightarrow> None)
   \<and> any_live m kc k now = (a = Other)"

abbreviation str_rep :: "'p engine \<Rightarrow> key_composer \<Rightarrow> u64 \<Rightarrow> 'p wedb \<Rightarrow> bytes \<Rightarrow> str_state \<Rightarrow> bool" where
  "str_rep E kc now s \<equiv> text_rep (dat E s) (met E s) kc now"

text \<open>A text that is written with an expiry in the past is gone.\<close>

definition fresh_text :: "u64 \<Rightarrow> bytes \<Rightarrow> u64 \<Rightarrow> str_state" where
  "fresh_text now v e = (if is_string_expired e now then Absent else Text v e)"

lemma decode_string_offset:
  "decode_string_value raw = (e, p) \<Longrightarrow> drop (length raw - length p) raw = p \<and> length p \<le> length raw"
  by (auto simp: decode_string_value_def STRING_HDR_SIZE_def split: if_splits)

lemma text_rep_cong:
  assumes "\<forall>x. owns kc k x \<longrightarrow> d' x = d x \<and> m' x = m x" and "text_rep d m kc now k a"
  shows "text_rep d' m' kc now k a"
proof -
  have "d' (meta_key kc RawString k) = d (meta_key kc RawString k)"
    using assms(1) owns_meta [of RawString kc k] by (simp add: whole_key_tags_def)
  moreover have "live_meta m' kc k now u = live_meta m kc k now u" if "u \<in> set composite_meta_tags" for u
    using assms(1) owns_meta [OF kv_engine.composite_whole [OF kv_engine_mem that]] by (intro kv_engine.live_meta_cong [OF kv_engine_mem]) blast
  ultimately show ?thesis
    using assms(2) by (simp add: text_rep_def live_text_def any_live_def cong: bex_cong)
qed

lemma text_rep_written:
  assumes "d (meta_key kc RawString k) = Some (encode_string_value v e)"
    and "\<not> any_live m kc k now"
  shows "text_rep d m kc now k (fresh_text now v e)"
  using assms by (simp add: text_rep_def live_text_def fresh_text_def)

text \<open>The operations that a write of one key queues: the new text, and the removal of whatever
  structure was stored there.\<close>

definition text_ops :: "'p engine \<Rightarrow> key_composer \<Rightarrow> 'p wedb \<Rightarrow> bytes \<times> bytes \<times> u64 \<Rightarrow> batch" where
  "text_ops E kc s = (\<lambda>(k, v, e).
     BInsert PData (meta_key kc RawString k) (encode_string_value v e) # cleanup_all_ops E kc s k)"

context kv_engine
begin

lemma clear_tag_raw: "BRm q (meta_key kc RawString k) \<in> set (clear_tag E p kc s k t batch) \<Longrightarrow> t \<noteq> RawString
    \<Longrightarrow> BRm q (meta_key kc RawString k) \<in> set batch"
  by (auto simp: clear_tag_set prefix_def meta_key_subkey_iff)

lemma cleanup_raw: "BRm q (meta_key kc RawString k) \<notin> set (cleanup_composite_data E s kc (tag_slice t) k [])"
  by (cases t) (auto simp: cleanup_unfold Let_def rm_data_def dest!: clear_tag_raw)

lemma cleanup_all_raw: "BRm q (meta_key kc RawString k) \<notin> set (cleanup_all_ops E kc s k)"
  using cleanup_raw by (auto simp: cleanup_all_ops_def composite_meta_tags_def split: if_splits)

lemma text_ops_on_key: "on_key kc k (text_ops E kc s (k, v, e))"
proof -
  have "owns kc k (snd (op_key op))" if "op \<in> set (cleanup_all_ops E kc s k)" for op
    using that cleanup_all_only_rm [of kc s k] cleanup_all_owns unfolding only_rm_def by fastforce
  then show ?thesis
    by (auto simp: text_ops_def on_key_def owns_meta whole_key_tags_def)
qed

lemma text_ops_written:
  "apply_ops PData (text_ops E kc s (k, v, e)) d (meta_key kc RawString k) = Some (encode_string_value v e)"
proof -
  have "(PData, meta_key kc RawString k) \<notin> op_key ` set (cleanup_all_ops E kc s k)"
    using cleanup_all_only_rm [of kc s k] cleanup_all_raw [of PData kc k s] by (auto simp: only_rm_def)
  from apply_ops_frame [OF this] show ?thesis by (simp add: text_ops_def)
qed

text \<open>No structure survives: what was stored is removed, and nothing else is added.\<close>

lemma text_ops_no_new: "m x = None \<Longrightarrow> apply_ops PMeta (text_ops E kc s (k, v, e)) m x = None"
  using cleanup_all_only_rm [of kc s k]
  by (simp add: text_ops_def apply_only_rm restrict_map_def)

lemma text_ops_dead:
  assumes "\<forall>x. met E s x = None \<longrightarrow> m x = None"
  shows "\<not> any_live (apply_ops PMeta (text_ops E kc s (k, v, e)) m) kc k now"
proof -
  have "apply_ops PMeta (text_ops E kc s (k, v, e)) m (meta_key kc u k) = None"
    if u: "u \<in> set composite_meta_tags" for u
  proof (cases "met E s (meta_key kc u k) = None")
    case True
    then show ?thesis using assms text_ops_no_new by blast
  next
    case False
    then have "BRm PMeta (meta_key kc u k) \<in> set (cleanup_all_ops E kc s k)"
      by (intro cleanup_all_meta u)
    then show ?thesis
      using cleanup_all_only_rm [of kc s k] by (simp add: text_ops_def apply_only_rm)
  qed
  then show ?thesis by (auto simp: any_live_def live_meta_def)
qed

section \<open>Reading and writing one key\<close>

lemma get_string_raw_rep:
  assumes "str_rep E kc now s k a"
  shows "(a = Absent \<longrightarrow> get_string_raw E kc s now k = Inr None)
    \<and> (a = Other \<longrightarrow> get_string_raw E kc s now k = Inl wrong_type_default)
    \<and> (\<forall>v e. a = Text v e \<longrightarrow> (\<exists>raw off. get_string_raw E kc s now k = Inr (Some (raw, e, off))
          \<and> drop off raw = v \<and> length raw - off = length v))"
proof -
  have check: "check_composite_meta_not_other_type E kc s k [] now
      = (if any_live (met E s) kc k now then Inl wrong_type_default else Inr ())"
  proof -
    have "check_tags E p kc k [] now ts =
        (if \<exists>u\<in>List.set ts. live_meta (e_get E p) kc k now u \<noteq> None then Inl wrong_type_default else Inr ())" for p ts
      by (induction ts) (auto simp: live_meta_def wrong_type_default_def tag_slice_def split: option.splits)
    then show ?thesis
      by (simp add: check_composite_meta_not_other_type_def e_is_empty_iff any_live_def
          check_composite_meta_not_other_type_with_buf_def live_meta_empty)
  qed
  show ?thesis
  proof (cases "live_text (dat E s) kc k now")
    case None
    then have "get_string_raw E kc s now k
        = (if any_live (met E s) kc k now then Inl wrong_type_default else Inr None)"
      by (auto simp: get_string_raw_def live_text_def check Let_def split: option.splits prod.splits if_splits)
    then show ?thesis using assms None by (cases a) (auto simp: text_rep_def)
  next
    case (Some p)
    then obtain raw v e where raw: "dat E s (meta_key kc RawString k) = Some raw" "decode_string_value raw = (e, v)"
      "\<not> is_string_expired e now" "p = (v, e)"
      by (auto simp: live_text_def split: option.splits prod.splits if_splits)
    then have "get_string_raw E kc s now k = Inr (Some (raw, e, length raw - length v))"
      by (simp add: get_string_raw_def)
    moreover have "a = Text v e" using assms Some raw(4) by (cases a) (auto simp: text_rep_def)
    moreover have "length raw - (length raw - length v) = length v"
      using decode_string_offset [OF raw(2)] by simp
    ultimately show ?thesis using decode_string_offset [OF raw(2)] by auto
  qed
qed

text \<open>A write turns the key into the new text, whatever it held, provided the caller asks for the
  cleanup when it held another type; and touches nothing else.\<close>

lemma write_rep:
  assumes "str_rep E kc now s k a" and "a = Other \<longrightarrow> old_is_none"
  shows "str_rep E kc now (write_string_val E kc (meta_key kc RawString k) k (encode_string_value v e) old_is_none s) k
      (fresh_text now v e)"
    and "\<not> owns kc k x \<Longrightarrow>
      dat E (write_string_val E kc (meta_key kc RawString k) k (encode_string_value v e) old_is_none s) x = dat E s x
      \<and> met E (write_string_val E kc (meta_key kc RawString k) k (encode_string_value v e) old_is_none s) x = met E s x"
proof -
  let ?s = "write_string_val E kc (meta_key kc RawString k) k (encode_string_value v e) old_is_none s"
  have o: "owns kc k (meta_key kc RawString k)" by (simp add: owns_meta whole_key_tags_def)
  show "str_rep E kc now ?s k (fresh_text now v e)"
  proof (cases "old_is_none \<and> \<not> e_is_empty E (w_meta s)")
    case True
    then have "?s = commit E (text_ops E kc s (k, v, e)) s"
      by (simp add: write_string_val_def cleanup_all_eq insert_data_def text_ops_def)
    then show ?thesis
      using text_ops_written text_ops_dead [of s "met E s"] by (simp add: text_rep_written)
  next
    case False
    moreover have "\<not> any_live (met E s) kc k now"
      using False assms by (auto simp: text_rep_def e_is_empty_iff any_live_def live_meta_empty)
    ultimately show ?thesis by (auto simp: write_string_val_def intro: text_rep_written)
  qed
  show "dat E ?s x = dat E s x \<and> met E ?s x = met E s x" if "\<not> owns kc k x"
  proof (cases "old_is_none \<and> \<not> e_is_empty E (w_meta s)")
    case True
    then have "?s = commit E (text_ops E kc s (k, v, e)) s"
      by (simp add: write_string_val_def cleanup_all_eq insert_data_def text_ops_def)
    then show ?thesis using on_key_frame [OF text_ops_on_key that] by simp
  next
    case False
    have "x \<noteq> meta_key kc RawString k" using that o by auto
    then show ?thesis using False by (auto simp: write_string_val_def)
  qed
qed

lemma del_rep:
  assumes "str_rep E kc now s k a" and "a \<noteq> Other"
  shows "str_rep E kc now (del_data E (meta_key kc RawString k) s) k Absent"
    and "\<not> owns kc k x \<Longrightarrow> dat E (del_data E (meta_key kc RawString k) s) x = dat E s x
      \<and> met E (del_data E (meta_key kc RawString k) s) x = met E s x"
  using assms owns_meta [of RawString kc k] by (auto simp: text_rep_def live_text_def whole_key_tags_def)

end

end
