(* ===== verification/Str_Api.thy ===== *)
theory Str_Api
  imports Str_Rep
begin

text \<open>
  The string commands together: an abstract machine whose state gives every key a text, a value of
  another type, or nothing; the same commands on the store; and the simulation between them.
\<close>

section \<open>Commands\<close>

datatype str_cmd =
    StrSet bytes bytes string_set
  | StrGet bytes
  | StrGetWithExpire bytes
  | StrGetEx bytes "get_ex list"
  | StrGetDel bytes
  | StrDelEx bytes "del_ex list"
  | StrIncrBy bytes int u64 bool
  | StrIncrByFloat bytes u64 u64 bool
  | StrLen bytes
  | StrAppend bytes bytes
  | StrGetRange bytes index_range
  | StrSetRange bytes nat bytes
  | StrCas bytes bytes bytes u64
  | StrCad bytes bytes
  | StrDigest bytes
  | StrMGet "bytes list"
  | StrMSet "(bytes \<times> bytes) list" string_mset

datatype str_reply =
    AnsVal "bytes option"
  | AnsValExpire "bytes option" u64
  | AnsBytes bytes
  | AnsInt int
  | AnsFloat u64
  | AnsBool bool
  | AnsVals "bytes option list"
  | AnsFail error

definition ans_write :: "('a \<Rightarrow> str_reply) \<Rightarrow> 'p wedb \<Rightarrow> error + ('a \<times> 'p wedb) \<Rightarrow> str_reply \<times> 'p wedb" where
  "ans_write f s r = (case r of Inl e \<Rightarrow> (AnsFail e, s) | Inr (a, s') \<Rightarrow> (f a, s'))"

definition ans_read :: "('a \<Rightarrow> str_reply) \<Rightarrow> 'p wedb \<Rightarrow> error + 'a \<Rightarrow> str_reply \<times> 'p wedb" where
  "ans_read f s r = (case r of Inl e \<Rightarrow> (AnsFail e, s) | Inr a \<Rightarrow> (f a, s))"

lemma ans_simps [simp]:
  "ans_write f s (Inr (a, s')) = (f a, s')" "ans_write f s (Inl e) = (AnsFail e, s)"
  "ans_read f s (Inr a) = (f a, s)" "ans_read f s (Inl e) = (AnsFail e, s)"
  by (simp_all add: ans_write_def ans_read_def)

fun str_call ::
    "'p engine \<Rightarrow> str_env \<Rightarrow> key_composer \<Rightarrow> u64 \<Rightarrow> str_cmd \<Rightarrow> 'p wedb \<Rightarrow> str_reply \<times> 'p wedb" where
  "str_call E V kc now (StrSet k v a) s = ans_write AnsVal s (set_internal E V kc now k v a s)"
| "str_call E V kc now (StrGet k) s = ans_read AnsVal s (str_get E kc s now k)"
| "str_call E V kc now (StrGetWithExpire k) s =
     ans_read (\<lambda>(v, e). AnsValExpire v e) s (get_with_expire E kc s now k)"
| "str_call E V kc now (StrGetEx k opts) s = ans_write AnsVal s (getex E kc now k opts s)"
| "str_call E V kc now (StrGetDel k) s = ans_write AnsVal s (getdel E kc now k s)"
| "str_call E V kc now (StrDelEx k opts) s = ans_write AnsBool s (delex E V kc now k opts s)"
| "str_call E V kc now (StrIncrBy k i e keep) s = ans_write AnsInt s (incrby_ex E V kc now k i e keep s)"
| "str_call E V kc now (StrIncrByFloat k i e keep) s =
     ans_write AnsFloat s (incrbyfloat_ex E V kc now k i e keep s)"
| "str_call E V kc now (StrLen k) s = ans_read (\<lambda>n. AnsInt (int n)) s (strlen E kc s now k)"
| "str_call E V kc now (StrAppend k v) s = ans_write (\<lambda>n. AnsInt (int n)) s (append_str E kc now k v s)"
| "str_call E V kc now (StrGetRange k r) s = ans_read AnsBytes s (getrange E kc s now k r)"
| "str_call E V kc now (StrSetRange k n v) s = ans_write (\<lambda>n. AnsInt (int n)) s (setrange E kc now k n v s)"
| "str_call E V kc now (StrCas k old new e) s = ans_write AnsInt s (cas E kc now k old new e s)"
| "str_call E V kc now (StrCad k v) s = ans_write AnsInt s (cad E kc now k v s)"
| "str_call E V kc now (StrDigest k) s = ans_read AnsVal s (digest E V kc s now k)"
| "str_call E V kc now (StrMGet ks) s = ans_read AnsVals s (mget E kc s now ks)"
| "str_call E V kc now (StrMSet kvs a) s = ans_write AnsBool s (mset_internal E kc now kvs a s)"

section \<open>The abstract machine\<close>

type_synonym texts = "bytes \<Rightarrow> str_state"

fun text_of :: "str_state \<Rightarrow> bytes option" where
  "text_of (Text v e) = Some v"
| "text_of _ = None"

fun expiry_of :: "str_state \<Rightarrow> u64" where
  "expiry_of (Text v e) = e"
| "expiry_of _ = 0"

text \<open>A command that reads one text refuses a value of another type.\<close>

definition on_text :: "texts \<Rightarrow> bytes \<Rightarrow> ((bytes \<times> u64) option \<Rightarrow> str_reply \<times> texts) \<Rightarrow> str_reply \<times> texts" where
  "on_text A k f =
     (case A k of Other \<Rightarrow> (AnsFail wrong_type_default, A) | Absent \<Rightarrow> f None | Text v e \<Rightarrow> f (Some (v, e)))"

definition digest_is :: "str_env \<Rightarrow> bytes \<Rightarrow> bytes \<Rightarrow> bool" where
  "digest_is V d v \<longleftrightarrow> eq_ignore_ascii_case (u64_to_hex_16 (rapidhash_v3 V v)) d"

fun set_allowed :: "str_env \<Rightarrow> string_set_type \<Rightarrow> bytes option \<Rightarrow> str_state \<Rightarrow> bool" where
  "set_allowed V StNone cmp a \<longleftrightarrow> True"
| "set_allowed V StNx cmp a \<longleftrightarrow> a = Absent"
| "set_allowed V StXx cmp a \<longleftrightarrow> a \<noteq> Absent"
| "set_allowed V StIfEq cmp a \<longleftrightarrow> cmp \<noteq> None \<and> text_of a = cmp"
| "set_allowed V StIfNe cmp a \<longleftrightarrow> cmp = None \<or> text_of a \<noteq> cmp"
| "set_allowed V StIfDeq cmp a \<longleftrightarrow> (\<exists>d v. cmp = Some d \<and> text_of a = Some v \<and> digest_is V d v)"
| "set_allowed V StIfDne cmp a \<longleftrightarrow> \<not> (\<exists>d v. cmp = Some d \<and> text_of a = Some v \<and> digest_is V d v)"

definition compares :: "string_set \<Rightarrow> bool" where
  "compares a \<longleftrightarrow> ss_type a \<in> {StIfEq, StIfNe, StIfDeq, StIfDne}"

text \<open>A value laid over another one at an offset, with zero bytes in between.\<close>

definition overlay :: "nat \<Rightarrow> bytes \<Rightarrow> bytes \<Rightarrow> bytes" where
  "overlay n v old = take n (old @ replicate (n - length old) 0) @ v @ drop (n + length v) old"

definition too_long :: "bytes \<Rightarrow> bool" where
  "too_long v \<longleftrightarrow> length v > MAX_STRING_SIZE"

fun del_allowed :: "str_env \<Rightarrow> bytes \<Rightarrow> del_ex \<Rightarrow> bool" where
  "del_allowed V v DelNone \<longleftrightarrow> True"
| "del_allowed V v (DelIfEq x) \<longleftrightarrow> v = x"
| "del_allowed V v (DelIfNe x) \<longleftrightarrow> v \<noteq> x"
| "del_allowed V v (DelIfDeq d) \<longleftrightarrow> digest_is V d v"
| "del_allowed V v (DelIfDne d) \<longleftrightarrow> \<not> digest_is V d v"

fun del_digest_ok :: "del_ex \<Rightarrow> bool" where
  "del_digest_ok (DelIfDeq d) \<longleftrightarrow> valid_digest d"
| "del_digest_ok (DelIfDne d) \<longleftrightarrow> valid_digest d"
| "del_digest_ok _ \<longleftrightarrow> True"

text \<open>The options are tried in order: the first that fails, or whose digest is malformed, decides.\<close>

definition del_decision :: "str_env \<Rightarrow> bytes \<Rightarrow> del_ex list \<Rightarrow> error + bool" where
  "del_decision V v opts =
     (case find (\<lambda>o'. \<not> del_digest_ok o' \<or> \<not> del_allowed V v o') opts of
        None \<Rightarrow> Inr True
      | Some o' \<Rightarrow> if del_digest_ok o' then Inr False else Inl (InvalidData ERR_DIGEST_INVALID_LEN))"

definition mset_allowed :: "string_set_type \<Rightarrow> str_state \<Rightarrow> bool" where
  "mset_allowed t a \<longleftrightarrow> (t = StNx \<longrightarrow> a = Absent) \<and> (t = StXx \<longrightarrow> text_of a \<noteq> None)"

fun str_spec :: "str_env \<Rightarrow> u64 \<Rightarrow> str_cmd \<Rightarrow> texts \<Rightarrow> str_reply \<times> texts" where
  "str_spec V now (StrSet k v a) A =
     (if too_long v then (AnsFail (InvalidData ERR_STRING_EXCEEDS_MAX_SIZE), A)
      else if ss_type a \<in> {StIfDeq, StIfDne} \<and> (\<exists>d. ss_cmp a = Some d \<and> \<not> valid_digest d)
      then (AnsFail (InvalidData ERR_DIGEST_INVALID_LEN), A)
      else if A k = Other \<and> (compares a \<or> ss_get a) then (AnsFail wrong_type_default, A)
      else if set_allowed V (ss_type a) (ss_cmp a) (A k)
      then (AnsVal (if ss_get a then text_of (A k) else Some []),
            A(k := fresh_text now v (if ss_keep_ttl a then expiry_of (A k) else ss_expire a)))
      else (AnsVal (if ss_get a then text_of (A k) else None), A))"
| "str_spec V now (StrGet k) A = on_text A k (\<lambda>t. (AnsVal (map_option fst t), A))"
| "str_spec V now (StrGetWithExpire k) A =
     on_text A k (\<lambda>t. (AnsValExpire (map_option fst t) (case t of Some (_, e) \<Rightarrow> e | None \<Rightarrow> 0), A))"
| "str_spec V now (StrGetEx k opts) A =
     on_text A k (\<lambda>t. (AnsVal (map_option fst t),
       (case (t, opts) of (Some (v, _), opt # _) \<Rightarrow> A(k := fresh_text now v (compute_expire opt now)) | _ \<Rightarrow> A)))"
| "str_spec V now (StrGetDel k) A = on_text A k (\<lambda>t. (AnsVal (map_option fst t), A(k := Absent)))"
| "str_spec V now (StrDelEx k opts) A =
     on_text A k (\<lambda>t. case t of
        None \<Rightarrow> (AnsBool False, A)
      | Some (v, _) \<Rightarrow>
          (case del_decision V v opts of
             Inl e \<Rightarrow> (AnsFail e, A) | Inr b \<Rightarrow> (AnsBool b, if b then A(k := Absent) else A)))"
| "str_spec V now (StrIncrBy k i e keep) A =
     on_text A k (\<lambda>t.
       case (case t of None \<Rightarrow> Inr 0
             | Some (v, _) \<Rightarrow> parse_redis_integer (parse_i64_fast V) v ERR_VALUE_NOT_INTEGER) of
         Inl err \<Rightarrow> (AnsFail err, A)
       | Inr n \<Rightarrow>
           if I64_MIN \<le> n + i \<and> n + i \<le> I64_MAX
           then (AnsInt (n + i),
                 A(k := fresh_text now (itoa_format V (n + i)) (if keep then expiry_of (A k) else e)))
           else (AnsFail (InvalidData ERR_INCREMENT_OVERFLOW), A))"
| "str_spec V now (StrIncrByFloat k i e keep) A =
     (if is_nan i \<or> is_infinite i then (AnsFail (InvalidData ERR_INCREMENT_NAN_OR_INFINITY), A)
      else on_text A k (\<lambda>t.
       case (case t of None \<Rightarrow> Inr 0 | Some (v, _) \<Rightarrow> parse_redis_float V v ERR_VALUE_NOT_FLOAT) of
         Inl err \<Rightarrow> (AnsFail err, A)
       | Inr x \<Rightarrow>
           (let y = add_f64 V x i; z = (if is_zero_f64 y then 0 else y)
            in if is_nan y \<or> is_infinite y then (AnsFail (InvalidData ERR_INCREMENT_NAN_OR_INFINITY), A)
               else (AnsFloat z,
                     A(k := fresh_text now (format_float_bytes V z) (if keep then expiry_of (A k) else e))))))"
| "str_spec V now (StrLen k) A =
     on_text A k (\<lambda>t. (AnsInt (case t of None \<Rightarrow> 0 | Some (v, _) \<Rightarrow> int (length v)), A))"
| "str_spec V now (StrAppend k v) A =
     on_text A k (\<lambda>t. let w = (case t of None \<Rightarrow> [] | Some (x, _) \<Rightarrow> x) @ v
       in if too_long w then (AnsFail (InvalidData ERR_STRING_EXCEEDS_MAX_SIZE), A)
          else (AnsInt (int (length w)), A(k := fresh_text now w (expiry_of (A k)))))"
| "str_spec V now (StrGetRange k r) A =
     on_text A k (\<lambda>t. (AnsBytes (case t of None \<Rightarrow> []
        | Some (v, _) \<Rightarrow> (case into_index_range r of (a, b) \<Rightarrow> redis_slice a b v)), A))"
| "str_spec V now (StrSetRange k n v) A =
     (if n > MAX_STRING_SIZE then (AnsFail (InvalidData ERR_OFFSET_OUT_OF_RANGE), A)
      else if n + length v > MAX_STRING_SIZE then (AnsFail (InvalidData ERR_STRING_EXCEEDS_MAX_SIZE), A)
      else on_text A k (\<lambda>t.
        if t = None \<and> v = [] then (AnsInt 0, A)
        else let w = overlay n v (case t of None \<Rightarrow> [] | Some (x, _) \<Rightarrow> x)
             in (AnsInt (int (length w)), A(k := fresh_text now w (expiry_of (A k))))))"
| "str_spec V now (StrCas k old new e) A =
     (if too_long new then (AnsFail (InvalidData ERR_STRING_EXCEEDS_MAX_SIZE), A)
      else on_text A k (\<lambda>t. case t of None \<Rightarrow> (AnsInt (-1), A)
        | Some (v, _) \<Rightarrow> if v = old then (AnsInt 1, A(k := fresh_text now new e)) else (AnsInt 0, A)))"
| "str_spec V now (StrCad k x) A =
     on_text A k (\<lambda>t. case t of None \<Rightarrow> (AnsInt (-1), A)
        | Some (v, _) \<Rightarrow> if v = x then (AnsInt 1, A(k := Absent)) else (AnsInt 0, A))"
| "str_spec V now (StrDigest k) A =
     on_text A k (\<lambda>t. (AnsVal (map_option (\<lambda>(v, _). u64_to_hex_16 (rapidhash_v3 V v)) t), A))"
| "str_spec V now (StrMGet ks) A = (AnsVals (map (\<lambda>k. text_of (A k)) ks), A)"
| "str_spec V now (StrMSet kvs a) A =
     (if \<not> (\<forall>(k, v)\<in>set kvs. mset_allowed (ms_type a) (A k)) then (AnsBool False, A)
      else if \<exists>(k, v)\<in>set kvs. too_long v then (AnsFail (InvalidData ERR_STRING_EXCEEDS_MAX_SIZE), A)
      else (AnsBool True,
            foldl (\<lambda>B (k, v). B(k := fresh_text now v (if ms_keep_ttl a then expiry_of (A k) else ms_expire a))) A kvs))"

text \<open>Keys have to fit their frame; a comparison value comes with a comparison.\<close>

fun str_fits :: "str_cmd \<Rightarrow> bool" where
  "str_fits (StrSet k v a) \<longleftrightarrow> key_fits k \<and> (ss_type a = StNone \<longrightarrow> ss_cmp a = None)"
| "str_fits (StrGet k) \<longleftrightarrow> key_fits k"
| "str_fits (StrGetWithExpire k) \<longleftrightarrow> key_fits k"
| "str_fits (StrGetEx k opts) \<longleftrightarrow> key_fits k"
| "str_fits (StrGetDel k) \<longleftrightarrow> key_fits k"
| "str_fits (StrDelEx k opts) \<longleftrightarrow> key_fits k"
| "str_fits (StrIncrBy k i e keep) \<longleftrightarrow> key_fits k"
| "str_fits (StrIncrByFloat k i e keep) \<longleftrightarrow> key_fits k"
| "str_fits (StrLen k) \<longleftrightarrow> key_fits k"
| "str_fits (StrAppend k v) \<longleftrightarrow> key_fits k"
| "str_fits (StrGetRange k r) \<longleftrightarrow> key_fits k"
| "str_fits (StrSetRange k n v) \<longleftrightarrow> key_fits k"
| "str_fits (StrCas k old new e) \<longleftrightarrow> key_fits k"
| "str_fits (StrCad k v) \<longleftrightarrow> key_fits k"
| "str_fits (StrDigest k) \<longleftrightarrow> key_fits k"
| "str_fits (StrMGet ks) \<longleftrightarrow> (\<forall>k\<in>set ks. key_fits k)"
| "str_fits (StrMSet kvs a) \<longleftrightarrow> (\<forall>(k, v)\<in>set kvs. key_fits k)"

lemma parse_options_fits: "ss_type (parse_options opts now) = StNone \<longrightarrow> ss_cmp (parse_options opts now) = None"
proof -
  have "ss_type a = StNone \<longrightarrow> ss_cmp a = None \<Longrightarrow>
      ss_type (foldl (parse_option now) a opts) = StNone \<longrightarrow> ss_cmp (foldl (parse_option now) a opts) = None" for a
  proof (induction opts arbitrary: a)
    case (Cons opt opts)
    then show ?case by (cases opt) simp_all
  qed simp
  then show ?thesis by (simp add: parse_options_def string_set_default_def)
qed

section \<open>The simulation\<close>

abbreviation strings_rep :: "'p engine \<Rightarrow> 'p wedb \<Rightarrow> key_composer \<Rightarrow> u64 \<Rightarrow> texts \<Rightarrow> bool" where
  "strings_rep E s kc now \<equiv> all_rep (str_rep E kc now) s"

sublocale kv_engine \<subseteq> strings: key_rep E kc "str_rep E kc now" for kc now
proof unfold_locales
  show "str_rep E kc now s' k x" if "str_rep E kc now s k x" "same_key E kc k s s'" for s k x s'
    using text_rep_cong [OF _ that(1)] that(2) unfolding same_key_def by blast
qed

context kv_engine
begin

lemma write_step:
  assumes "strings_rep E s kc now A" and "key_fits k" and "A k = Other \<longrightarrow> old_is_none"
  shows "strings_rep E (write_string_val E kc (meta_key kc RawString k) k (encode_string_value v e) old_is_none s) kc now
    (A(k := fresh_text now v e))"
  using write_rep [OF all_repD [OF assms(1,2)] assms(3)]
  by (intro strings.all_rep_step [OF assms(1,2)]) blast+

lemma put_step:
  assumes "strings_rep E s kc now A" and "key_fits k" and "A k \<noteq> Other"
  shows "strings_rep E (put_data E (meta_key kc RawString k) (encode_string_value v e) s) kc now (A(k := fresh_text now v e))"
  using write_step [OF assms(1,2), of False v e] assms(3) by (simp add: write_string_val_def)

lemma del_step:
  assumes "strings_rep E s kc now A" and "key_fits k" and "A k \<noteq> Other"
  shows "strings_rep E (del_data E (meta_key kc RawString k) s) kc now (A(k := Absent))"
  using del_rep [OF all_repD [OF assms(1,2)] assms(3)]
  by (intro strings.all_rep_step [OF assms(1,2)]) blast+

text \<open>What the raw read of a key returns.\<close>

lemma raw_cases:
  assumes "strings_rep E s kc now A" and "key_fits k"
  obtains (absent) "A k = Absent" "get_string_raw E kc s now k = Inr None"
  | (other) "A k = Other" "get_string_raw E kc s now k = Inl wrong_type_default"
  | (present) v e raw off where "A k = Text v e" "get_string_raw E kc s now k = Inr (Some (raw, e, off))"
      "drop off raw = v" "length raw - off = length v"
  using get_string_raw_rep [OF all_repD [OF assms]] by (cases "A k") blast+

lemma digest_bytes_eq: "eq_ignore_ascii_case (string_digest_bytes V v) d = digest_is V d v"
  by (simp add: digest_is_def string_digest_bytes_def u64_to_hex_16_def)

lemma condition_met_eq:
  assumes "\<not> (a = Other \<and> t \<in> {StIfEq, StIfNe, StIfDeq, StIfDne})"
  shows "condition_met V t cmp (text_of a) (a = Other) = set_allowed V t cmp a"
  using assms by (cases t; cases a) (auto simp: digest_bytes_eq split: option.splits)

lemma set_sim:
  assumes rep: "strings_rep E s kc now A" and fits: "str_fits (StrSet k v a)"
  shows "\<exists>r s' A'. str_call E V kc now (StrSet k v a) s = (r, s') \<and> str_spec V now (StrSet k v a) A = (r, A')
    \<and> strings_rep E s' kc now A'"
proof -
  have k: "key_fits k" and cmp: "ss_type a = StNone \<longrightarrow> ss_cmp a = None" using fits by simp_all
  let ?w = "\<lambda>e b. write_string_val E kc (meta_key kc RawString k) k (encode_string_value v e) b s"
  have w: "strings_rep E (?w e b) kc now (A(k := fresh_text now v e))" if "A k = Other \<longrightarrow> b" for e b
    by (rule write_step [OF rep k that])
  consider "too_long v" | "\<not> too_long v" "ss_type a \<in> {StIfDeq, StIfDne} \<and> (\<exists>d. ss_cmp a = Some d \<and> \<not> valid_digest d)"
    | (fast) "\<not> too_long v" "is_fast_path a"
    | (slow) "\<not> too_long v" "\<not> (ss_type a \<in> {StIfDeq, StIfDne} \<and> (\<exists>d. ss_cmp a = Some d \<and> \<not> valid_digest d))"
        "\<not> is_fast_path a"
    by blast
  then show ?thesis
  proof cases
    case 1
    then show ?thesis using rep by (simp add: set_internal_def too_long_def)
  next
    case 2
    then show ?thesis using rep by (auto simp: set_internal_def too_long_def)
  next
    case fast
    then have "set_internal E V kc now k v a s = Inr (Some [], ?w (ss_expire a) True)"
      by (auto simp: set_internal_def too_long_def is_fast_path_def)
    then show ?thesis using fast w [of True "ss_expire a"] by (auto simp: is_fast_path_def compares_def)
  next
    case slow
    then have slow': "\<not> length v > MAX_STRING_SIZE" "(case ss_cmp a of
                 Some d \<Rightarrow> ss_type a \<in> {StIfDeq, StIfDne} \<and> \<not> valid_digest d | None \<Rightarrow> False) = False"
      by (auto simp: too_long_def split: option.splits)
    note si = set_internal_def [of E V kc now k v a s, unfolded if_not_P [OF slow'(1)] slow'(2) if_False if_not_P [OF slow(3)] Let_def]
    have need: "ss_type a \<noteq> StNone \<or> ss_get a \<or> ss_keep_ttl a" using slow(3) cmp by (auto simp: is_fast_path_def)
    note old = old_value_def [of E kc s now k a, unfolded if_P [OF need]]
    from rep k show ?thesis
    proof (cases rule: raw_cases)
      case absent
      then show ?thesis
        using slow rep w [of False] condition_met_eq [of "A k" "ss_type a" V "ss_cmp a"]
        by (auto simp: si old)
    next
      case other
      then show ?thesis
        using slow rep w [of True] condition_met_eq [of "A k" "ss_type a" V "ss_cmp a"]
        by (auto simp: si old compares_def)
    next
      case (present t e raw off)
      then show ?thesis
        using slow rep w [of False] condition_met_eq [of "A k" "ss_type a" V "ss_cmp a"]
        by (auto simp: si old)
    qed
  qed
qed

text \<open>Reads.\<close>

lemma read_sim:
  assumes "strings_rep E s kc now A" and "str_fits c"
    and "c \<in> {StrGet k, StrGetWithExpire k, StrLen k, StrGetRange k r, StrDigest k}"
  shows "\<exists>x s' A'. str_call E V kc now c s = (x, s') \<and> str_spec V now c A = (x, A') \<and> strings_rep E s' kc now A'"
proof -
  have k: "key_fits k" using assms(2,3) by auto
  obtain a b where r: "into_index_range r = (a, b)" by fastforce
  from assms(1) k show ?thesis
  proof (cases rule: raw_cases)
    case (present v e raw off)
    obtain x y where n: "normalize_range a b (int (length v)) = (x, y)" by fastforce
    have "getrange E kc s now k r = Inr (redis_slice a b v)"
      using present redis_slice_normalize [OF n] n r by (simp add: getrange_def redis_slice_def)
    with present assms(1,3) r show ?thesis
      by (auto simp: str_get_def get_with_expire_def strlen_def digest_def on_text_def string_digest_def)
  qed (use assms(1,3) r in \<open>auto simp: str_get_def get_with_expire_def strlen_def digest_def getrange_def on_text_def
       string_digest_def\<close>)
qed

end

section \<open>Commands that rewrite a text\<close>

lemma delex_matches_eq: "delex_matches V v opts = del_decision V v opts"
proof (induction opts)
  case (Cons opt opts)
  have eq: "eq_ignore_ascii_case (string_digest_bytes V v) d = digest_is V d v" for d
    by (simp add: digest_is_def string_digest_bytes_def u64_to_hex_16_def)
  show ?case
    using Cons by (cases opt) (auto simp: del_decision_def eq)
qed (simp add: del_decision_def)

text \<open>The stack buffers of APPEND and SETRANGE hold the header and the new text.\<close>

lemma string_header_eq [simp]: "string_header e = encode_string_header e"
  by (simp add: string_header_def STRING_NO_EXPIRY_HEADER_def)

lemma append_buffer:
  assumes "length old + length v \<le> 55"
  shows "take (STRING_HDR_SIZE + length old + length v)
      (put (put (put (replicate 64 0) 0 (string_header e)) STRING_HDR_SIZE old) (STRING_HDR_SIZE + length old) v)
    = encode_string_value (old @ v) e"
  using assms by (simp add: put_def STRING_HDR_SIZE_def encode_string_value_eq)

lemma overlay_length: "length (overlay n v old) = max (length old) (n + length v)"
  by (auto simp: overlay_def)

lemma overlay_buffer:
  assumes "max (length old) (n + length v) \<le> 55"
  shows "take (STRING_HDR_SIZE + max (length old) (n + length v))
      (put (put (put (replicate 64 0) 0 (string_header e)) STRING_HDR_SIZE old) (STRING_HDR_SIZE + n) v)
    = encode_string_value (overlay n v old) e"
proof -
  let ?h = "encode_string_header e"
  have b: "put (put (replicate 64 0) 0 (string_header e)) STRING_HDR_SIZE old
      = ?h @ old @ replicate (55 - length old) 0"
    using assms by (simp add: put_def STRING_HDR_SIZE_def)
  let ?X = "old @ replicate (55 - length old) 0" and ?M = "max (length old) (n + length v)"
  have X: "take n ?X = take n (old @ replicate (n - length old) 0)" "length (take n ?X) = n"
    using assms by (auto simp: min_def)
  have l: "length ?X = 55" "n + length v \<le> length ?X" using assms by simp_all
  have "put (?h @ ?X) (STRING_HDR_SIZE + n) v = ?h @ put ?X n v"
    by (simp add: put_append STRING_HDR_SIZE_def)
  moreover have "put ?X n v = take n ?X @ v @ drop (n + length v) ?X"
    unfolding put_def using l(2) X(2) by (intro take_all) (simp only: length_append length_drop)
  ultimately have "put (?h @ ?X) (STRING_HDR_SIZE + n) v = ?h @ take n ?X @ v @ drop (n + length v) ?X"
    by simp
  moreover have "take (STRING_HDR_SIZE + ?M) (?h @ Y @ v @ Z) = ?h @ Y @ v @ take (?M - (n + length v)) Z"
    if "length Y = n" for Y Z
    using that by (simp add: STRING_HDR_SIZE_def)
  moreover have "take (?M - (n + length v)) (drop (n + length v) ?X) = drop (n + length v) old"
    using assms by (auto simp: max_def)
  ultimately have "take (STRING_HDR_SIZE + ?M) (put (?h @ ?X) (STRING_HDR_SIZE + n) v) = ?h @ overlay n v old"
    using X by (simp only: overlay_def)
  then show ?thesis unfolding b by (simp add: encode_string_value_eq)
qed

lemma overlay_vector:
  "(if n < length old then encode_string_header e @ take n old
    else resize (STRING_HDR_SIZE + n) (encode_string_header e @ old)) @ v @ drop (n + length v) old
   = encode_string_value (overlay n v old) e"
  by (auto simp: overlay_def resize_def STRING_HDR_SIZE_def encode_string_value_eq)

context kv_engine
begin

lemma update_sim:
  assumes rep: "strings_rep E s kc now A" and k: "key_fits k"
    and c: "c \<in> {StrGetEx k go, StrGetDel k, StrDelEx k opts, StrCas k old new e, StrCad k old}"
  shows "\<exists>r s' A'. str_call E V kc now c s = (r, s') \<and> str_spec V now c A = (r, A') \<and> strings_rep E s' kc now A'"
  using rep k
proof (cases rule: raw_cases)
  case absent
  moreover have "A(k := Absent) = A" using absent(1) by auto
  ultimately show ?thesis
    using c rep by (auto simp: getex_def getdel_def delex_def cas_def cad_def on_text_def too_long_def)
next
  case other
  then show ?thesis
    using c rep by (auto simp: getex_def getdel_def delex_def cas_def cad_def on_text_def too_long_def)
next
  case (present v e' raw off)
  note put = put_step [OF rep k] and del = del_step [OF rep k]
  have "\<exists>r s' A'. str_call E V kc now (StrGetEx k go) s = (r, s') \<and> str_spec V now (StrGetEx k go) A = (r, A')
      \<and> strings_rep E s' kc now A'"
    using present rep put by (cases go) (auto simp: getex_def on_text_def)
  moreover have "\<exists>r s' A'. str_call E V kc now (StrDelEx k opts) s = (r, s') \<and> str_spec V now (StrDelEx k opts) A = (r, A')
      \<and> strings_rep E s' kc now A'"
    using present rep del by (cases "del_decision V v opts") (auto simp: delex_def on_text_def delex_matches_eq)
  ultimately show ?thesis
    using c present rep put del
    by (auto simp: getdel_def cas_def cad_def on_text_def too_long_def)
qed

lemma incr_sim:
  assumes rep: "strings_rep E s kc now A" and k: "key_fits k"
  shows "\<exists>r s' A'. str_call E V kc now (StrIncrBy k i e keep) s = (r, s')
    \<and> str_spec V now (StrIncrBy k i e keep) A = (r, A') \<and> strings_rep E s' kc now A'"
  using rep k
proof (cases rule: raw_cases)
  case (present v e' raw off)
  then show ?thesis
    using rep write_step [OF rep k, of False]
    by (cases "parse_redis_integer (parse_i64_fast V) v ERR_VALUE_NOT_INTEGER")
      (auto simp: incrby_ex_def on_text_def checked_add_i64_def Let_def)
qed (use rep write_step [OF rep k, of True] in \<open>auto simp: incrby_ex_def on_text_def checked_add_i64_def Let_def\<close>)

lemma incr_float_sim:
  assumes rep: "strings_rep E s kc now A" and k: "key_fits k"
  shows "\<exists>r s' A'. str_call E V kc now (StrIncrByFloat k i e keep) s = (r, s')
    \<and> str_spec V now (StrIncrByFloat k i e keep) A = (r, A') \<and> strings_rep E s' kc now A'"
  using rep k
proof (cases rule: raw_cases)
  case (present v e' raw off)
  then show ?thesis
    using rep write_step [OF rep k, of False]
    by (cases "parse_redis_float V v ERR_VALUE_NOT_FLOAT") (auto simp: incrbyfloat_ex_def on_text_def Let_def)
qed (use rep write_step [OF rep k, of True] in \<open>auto simp: incrbyfloat_ex_def on_text_def Let_def\<close>)

lemma append_sim:
  assumes rep: "strings_rep E s kc now A" and k: "key_fits k"
  shows "\<exists>r s' A'. str_call E V kc now (StrAppend k w) s = (r, s')
    \<and> str_spec V now (StrAppend k w) A = (r, A') \<and> strings_rep E s' kc now A'"
  using rep k
proof (cases rule: raw_cases)
  case absent
  then show ?thesis
    using rep write_step [OF rep k, of True w 0] append_buffer [of "[]" w 0]
    by (auto simp: append_str_def on_text_def Let_def too_long_def encode_string_value_eq)
next
  case (present v e raw off)
  then show ?thesis
    using rep write_step [OF rep k, of False "v @ w" e] append_buffer [of v w e]
    by (auto simp: append_str_def on_text_def Let_def too_long_def encode_string_value_eq)
qed (use rep in \<open>auto simp: append_str_def on_text_def\<close>)

lemma setrange_sim:
  assumes rep: "strings_rep E s kc now A" and k: "key_fits k"
  shows "\<exists>r s' A'. str_call E V kc now (StrSetRange k n w) s = (r, s')
    \<and> str_spec V now (StrSetRange k n w) A = (r, A') \<and> strings_rep E s' kc now A'"
proof (cases "n > MAX_STRING_SIZE \<or> n + length w > MAX_STRING_SIZE")
  case True
  then show ?thesis using rep by (auto simp: setrange_def)
next
  case False
  from rep k show ?thesis
  proof (cases rule: raw_cases)
    case absent
    have "setrange E kc now k n w s = (if w = [] then Inr (0, s) else Inr (n + length w,
        write_string_val E kc (meta_key kc RawString k) k (encode_string_value (overlay n w []) 0) True s))"
      using absent False overlay_buffer [of "[]" n w 0] overlay_vector [of n "[]" 0 w]
      by (auto simp: setrange_def Let_def put_def STRING_HDR_SIZE_def)
    then show ?thesis
      using absent False rep write_step [OF rep k, of True "overlay n w []" 0]
      by (auto simp: on_text_def Let_def overlay_length)
  next
    case (present v e raw off)
    have "setrange E kc now k n w s = Inr (max (length v) (n + length w),
        write_string_val E kc (meta_key kc RawString k) k (encode_string_value (overlay n w v) e) False s)"
      using present False overlay_buffer [of v n w e] overlay_vector [of n v e w]
      by (auto simp: setrange_def Let_def)
    then show ?thesis
      using present False rep write_step [OF rep k, of False "overlay n w v" e]
      by (auto simp: on_text_def Let_def overlay_length)
  qed (use False rep in \<open>auto simp: setrange_def on_text_def\<close>)
qed

end

section \<open>Several keys\<close>

text \<open>Texts written by one batch, in order.\<close>

definition texts_put :: "u64 \<Rightarrow> (bytes \<Rightarrow> u64) \<Rightarrow> texts \<Rightarrow> (bytes \<times> bytes) list \<Rightarrow> texts" where
  "texts_put now ex A kvs = foldl (\<lambda>B (k, v). B(k := fresh_text now v (ex k))) A kvs"

context kv_engine
begin

lemma raw_key_state:
  assumes "strings_rep E s kc now A" and "key_fits k"
  shows "(case dat E s (meta_key kc RawString k) of None \<Rightarrow> None | Some raw \<Rightarrow> decode_live_string_value raw now)
      = text_of (A k)"
    and "check_composite_meta_not_other_type_with_buf E (w_meta s) kc k [] now
      = (if A k = Other then Inl wrong_type_default else Inr ())"
    and "(case dat E s (meta_key kc RawString k) of
        Some raw \<Rightarrow> (let (exp, _) = decode_string_value raw in if \<not> is_string_expired exp now then (True, exp) else (False, 0))
      | None \<Rightarrow> (False, 0)) = (text_of (A k) \<noteq> None, expiry_of (A k))"
    and "met E s = Map.empty \<Longrightarrow> A k \<noteq> Other"
proof -
  note rep = all_repD [OF assms, unfolded text_rep_def]
  show "(case dat E s (meta_key kc RawString k) of None \<Rightarrow> None | Some raw \<Rightarrow> decode_live_string_value raw now)
      = text_of (A k)"
    using rep by (cases "A k")
      (auto simp: live_text_def decode_live_string_value_def split: option.splits prod.splits if_splits)
  show "(case dat E s (meta_key kc RawString k) of
        Some raw \<Rightarrow> (let (exp, _) = decode_string_value raw in if \<not> is_string_expired exp now then (True, exp) else (False, 0))
      | None \<Rightarrow> (False, 0)) = (text_of (A k) \<noteq> None, expiry_of (A k))"
    using rep by (cases "A k") (auto simp: live_text_def split: option.splits prod.splits if_splits)
  have "check_tags E p kc k [] now ts =
      (if \<exists>u\<in>List.set ts. live_meta (e_get E p) kc k now u \<noteq> None then Inl wrong_type_default else Inr ())" for p ts
    by (induction ts) (auto simp: live_meta_def wrong_type_default_def tag_slice_def split: option.splits)
  then show "check_composite_meta_not_other_type_with_buf E (w_meta s) kc k [] now
      = (if A k = Other then Inl wrong_type_default else Inr ())"
    using rep by (simp add: check_composite_meta_not_other_type_with_buf_def any_live_def)
  show "A k \<noteq> Other" if "met E s = Map.empty"
    using rep that by (auto simp: any_live_def live_meta_empty)
qed

lemma mget_rep:
  assumes "strings_rep E s kc now A" and "\<forall>k\<in>set ks. key_fits k"
  shows "mget E kc s now ks = Inr (map (\<lambda>k. text_of (A k)) ks)"
  using assms(2)
proof (induction ks)
  case (Cons k ks)
  then have k: "key_fits k" by simp
  have "mget_one E kc s now k = Inr (text_of (A k))"
    using raw_key_state(1,2) [OF assms(1) k]
    by (auto simp: mget_one_def Let_def split: option.splits)
  with Cons show ?case by simp
qed simp

lemma mset_check_rep:
  assumes rep: "strings_rep E s kc now A" and "\<forall>k\<in>set ks. key_fits k"
  shows "mset_check E kc s now args es ks
    = (if \<forall>k\<in>set ks. mset_allowed (ms_type args) (A k)
       then Inr (Some (es @ (if ms_keep_ttl args then map (\<lambda>k. expiry_of (A k)) ks else []))) else Inr None)"
  using assms(2)
proof (induction ks arbitrary: es)
  case (Cons k ks)
  then have k: "key_fits k" by simp
  note st = raw_key_state [OF rep k]
  have live: "A k = Absent \<or> A k = Other" if "text_of (A k) = None" using that by (cases "A k") simp_all
  have keep: "A k \<noteq> Absent \<and> A k \<noteq> Other" if "text_of (A k) \<noteq> None" using that by (cases "A k") simp_all
  have "expiry_of (A k) = 0" if "text_of (A k) = None" using that by (cases "A k") simp_all
  then show ?case
    using Cons st(2,4) live keep
    by (auto simp: st(3) Let_def mset_allowed_def e_is_empty_iff)
qed simp

lemma mset_loop_rep:
  assumes "\<forall>j<length kvs. (if ms_keep_ttl args then es ! (i + j) else ms_expire args) = ex (fst (kvs ! j))"
  shows "mset_loop E kc s args es i batch kvs
    = (if \<exists>(k, v)\<in>set kvs. too_long v then Inl (InvalidData ERR_STRING_EXCEEDS_MAX_SIZE)
       else Inr (batch @ concat (map (\<lambda>(k, v). text_ops E kc s (k, v, ex k)) kvs)))"
  using assms
proof (induction kvs arbitrary: i batch)
  case (Cons kv kvs)
  obtain k v where kv: "kv = (k, v)" by fastforce
  have e: "(if ms_keep_ttl args then es ! i else ms_expire args) = ex k"
    using Cons.prems [rule_format, of 0] kv by (simp cong: if_cong)
  have "\<forall>j<length kvs. (if ms_keep_ttl args then es ! (Suc i + j) else ms_expire args) = ex (fst (kvs ! j))"
  proof (intro allI impI)
    fix j assume "j < length kvs"
    then show "(if ms_keep_ttl args then es ! (Suc i + j) else ms_expire args) = ex (fst (kvs ! j))"
      using Cons.prems [rule_format, of "Suc j"] by (simp cong: if_cong)
  qed
  note IH = Cons.IH [OF this]
  have empty: "cleanup_all_ops E kc s k = []" if "met E s = Map.empty"
    using that by (simp add: cleanup_all_ops_def)
  show ?case
    using empty
    by (simp add: kv too_long_def [symmetric] e IH Let_def text_ops_def insert_data_def
        cleanup_all_eq e_is_empty_iff)
qed simp

lemma mset_fast_rep:
  assumes "met E s = Map.empty" and "\<forall>k. ex k = 0"
  shows "mset_fast kc batch kvs
    = (if \<exists>(k, v)\<in>set kvs. too_long v then Inl (InvalidData ERR_STRING_EXCEEDS_MAX_SIZE)
       else Inr (batch @ concat (map (\<lambda>(k, v). text_ops E kc s (k, v, ex k)) kvs)))"
proof (induction kvs arbitrary: batch)
  case (Cons kv kvs)
  obtain k v where kv: "kv = (k, v)" by fastforce
  have "cleanup_all_ops E kc s k = []" using assms(1) by (simp add: cleanup_all_ops_def)
  then show ?case
    using Cons assms(2) by (simp add: kv too_long_def [symmetric] text_ops_def insert_data_def)
qed simp

lemma mset_commit_rep:
  assumes rep: "strings_rep E s kc now A" and "\<forall>(k, v)\<in>set kvs. key_fits k"
  shows "strings_rep E (commit E (concat (map (\<lambda>(k, v). text_ops E kc s (k, v, ex k)) kvs)) s) kc now
    (texts_put now ex A kvs)"
proof -
  let ?ops = "\<lambda>kvs. concat (map (\<lambda>(k, v). text_ops E kc s (k, v, ex k)) kvs)"
  have "(\<forall>x. met E s x = None \<longrightarrow> apply_ops PMeta (?ops kvs) (met E s) x = None)
    \<and> (\<forall>l. key_fits l \<longrightarrow> text_rep (apply_ops PData (?ops kvs) (dat E s)) (apply_ops PMeta (?ops kvs) (met E s))
          kc now l (texts_put now ex A kvs l))"
    using assms(2)
  proof (induction kvs rule: rev_induct)
    case Nil
    then show ?case using all_repD [OF rep] by (simp add: texts_put_def)
  next
    case (snoc kv kvs)
    obtain k v where kv: "kv = (k, v)" by fastforce
    let ?d = "apply_ops PData (?ops kvs) (dat E s)" and ?m = "apply_ops PMeta (?ops kvs) (met E s)"
    let ?o = "text_ops E kc s (k, v, ex k)"
    have IH: "\<forall>x. met E s x = None \<longrightarrow> ?m x = None" "\<And>l. key_fits l \<Longrightarrow> text_rep ?d ?m kc now l (texts_put now ex A kvs l)"
      using snoc by auto
    have k: "key_fits k" using snoc.prems kv by auto
    have "text_rep (apply_ops PData ?o ?d) (apply_ops PMeta ?o ?m) kc now l (texts_put now ex A (kvs @ [kv]) l)"
      if l: "key_fits l" for l
    proof (cases "l = k")
      case True
      have "text_rep (apply_ops PData ?o ?d) (apply_ops PMeta ?o ?m) kc now k (fresh_text now v (ex k))"
        by (rule text_rep_written) (rule text_ops_written, rule text_ops_dead [OF IH(1)])
      then show ?thesis using True by (simp add: texts_put_def kv)
    next
      case False
      then have "\<forall>x. owns kc l x \<longrightarrow> apply_ops PData ?o ?d x = ?d x \<and> apply_ops PMeta ?o ?m x = ?m x"
        using owns_unique [of kc l _ kc k] k l on_key_frame [OF text_ops_on_key] by blast
      from text_rep_cong [OF this IH(2) [OF l]] show ?thesis using False by (simp add: texts_put_def kv)
    qed
    moreover have "\<forall>x. met E s x = None \<longrightarrow> apply_ops PMeta ?o ?m x = None"
      using IH(1) text_ops_no_new by blast
    ultimately show ?case by (simp add: kv)
  qed
  then show ?thesis by (simp add: all_rep_def)
qed

lemma mset_sim:
  assumes rep: "strings_rep E s kc now A" and fits: "\<forall>(k, v)\<in>set kvs. key_fits k"
  shows "\<exists>r s' A'. str_call E V kc now (StrMSet kvs a) s = (r, s')
    \<and> str_spec V now (StrMSet kvs a) A = (r, A') \<and> strings_rep E s' kc now A'"
proof -
  define ex where "ex k = (if ms_keep_ttl a then expiry_of (A k) else ms_expire a)" for k
  define batch where "batch = concat (map (\<lambda>(k, v). text_ops E kc s (k, v, ex k)) kvs)"
  let ?ok = "\<forall>(k, v)\<in>set kvs. mset_allowed (ms_type a) (A k)"
  let ?es = "if ms_keep_ttl a then map (\<lambda>k. expiry_of (A k)) (map fst kvs) else []"
  have "\<forall>k\<in>set (map fst kvs). key_fits k" using fits by auto
  note check = mset_check_rep [OF rep this, of a "[]"]
  have ok: "(\<forall>k\<in>set (map fst kvs). mset_allowed (ms_type a) (A k)) = ?ok" by auto
  have triv: "?ok" if "\<not> (ms_type a \<noteq> StNone \<or> ms_keep_ttl a)" using that by (auto simp: mset_allowed_def)
  have first: "(if ms_type a \<noteq> StNone \<or> ms_keep_ttl a then mset_check E kc s now a [] (map fst kvs) else Inr (Some []))
      = (if ?ok then Inr (Some ?es) else Inr None)"
    using triv unfolding check ok by auto
  have idx: "\<forall>j<length kvs. (if ms_keep_ttl a then ?es ! (0 + j) else ms_expire a) = ex (fst (kvs ! j))"
    by (simp add: ex_def)
  have second: "(if \<not> ms_keep_ttl a \<and> e_is_empty E (w_meta s) \<and> ms_expire a = 0
        then mset_fast kc [] kvs else mset_loop E kc s a ?es 0 [] kvs)
      = (if \<exists>(k, v)\<in>set kvs. too_long v then Inl (InvalidData ERR_STRING_EXCEEDS_MAX_SIZE) else Inr batch)"
    using mset_loop_rep [of kvs a ?es 0 ex kc s "[]"] idx mset_fast_rep [of s ex kc "[]" kvs]
    by (auto simp: batch_def e_is_empty_iff ex_def)
  have res: "mset_internal E kc now kvs a s = (if \<not> ?ok then Inr (False, s)
      else if \<exists>(k, v)\<in>set kvs. too_long v then Inl (InvalidData ERR_STRING_EXCEEDS_MAX_SIZE)
      else Inr (True, commit E batch s))" if "kvs \<noteq> []"
    using that unfolding mset_internal_def first by (simp add: second)
  have put: "foldl (\<lambda>B (k, v). B(k := fresh_text now v (if ms_keep_ttl a then expiry_of (A k) else ms_expire a))) A kvs
      = texts_put now ex A kvs"
    by (simp add: texts_put_def ex_def)
  show ?thesis
  proof (cases "kvs = []")
    case True
    then show ?thesis using rep by (simp add: mset_internal_def)
  next
    case False
    then show ?thesis
      using rep mset_commit_rep [OF rep fits, of ex] unfolding str_call.simps str_spec.simps res [OF False] put batch_def
      by simp
  qed
qed

theorem str_call_sim:
  assumes "strings_rep E s kc now A" and "str_fits c"
  shows "\<exists>r s' A'. str_call E V kc now c s = (r, s') \<and> str_spec V now c A = (r, A') \<and> strings_rep E s' kc now A'"
proof (cases c)
  case (StrMGet ks)
  then show ?thesis using assms mget_rep [OF assms(1), of ks] by simp
next
  case (StrMSet kvs a)
  then show ?thesis using assms(2) mset_sim [OF assms(1), of kvs V a] by simp
next
  case (StrSet k v a)
  then show ?thesis using assms set_sim by blast
next
  case (StrIncrBy k i e keep)
  then show ?thesis using assms incr_sim [OF assms(1)] by simp
next
  case (StrIncrByFloat k i e keep)
  then show ?thesis using assms incr_float_sim [OF assms(1)] by simp
next
  case (StrAppend k v)
  then show ?thesis using assms append_sim [OF assms(1)] by simp
next
  case (StrSetRange k n v)
  then show ?thesis using assms setrange_sim [OF assms(1)] by simp
next
  case (StrGetRange k r)
  then show ?thesis using assms read_sim [OF assms, of k r] by simp
next
  case (StrGetEx k go)
  then show ?thesis using assms(2) by (intro update_sim [OF assms(1), of k c go]) auto
next
  case (StrDelEx k opts)
  then show ?thesis using assms(2) by (intro update_sim [OF assms(1), of k c _ opts]) auto
next
  case (StrCas k old new e)
  then show ?thesis using assms(2) by (intro update_sim [OF assms(1), of k c _ _ old new e]) auto
next
  case (StrCad k old)
  then show ?thesis using assms(2) by (intro update_sim [OF assms(1), of k c _ _ old]) auto
next
  case (StrGetDel k)
  then show ?thesis using assms(2) by (intro update_sim [OF assms(1), of k c]) auto
qed (use assms read_sim [OF assms] in \<open>simp_all\<close>)

end

section \<open>Properties\<close>

text \<open>C3: Every string command is a step of the abstract machine: with the options, conditions,
  expiries, size limits and errors of SET, GETEX, DELEX, INCRBY, INCRBYFLOAT, APPEND, GETRANGE,
  SETRANGE, CAS, CAD, MGET and MSET it gives the reply and the new texts of every key that the
  machine prescribes, and a value of another type is refused or, where SET overwrites it, gone.\<close>

theorem str_commands_refine:
  assumes "kv_engine E" and "strings_rep E s kc now A" and "str_fits c"
  shows "\<exists>s'. str_call E V kc now c s = (fst (str_spec V now c A), s')
    \<and> strings_rep E s' kc now (snd (str_spec V now c A))"
  using kv_engine.str_call_sim [OF assms, of V] by auto

definition str_env0 :: str_env where
  "str_env0 = \<lparr>parse_i64_fast = (\<lambda>v. if v = [53] then Some 5 else None), itoa_format = (\<lambda>i. if i = 7 then [55] else [48]),
     rapidhash_v3 = from_be64, parse_f64 = (\<lambda>v. None), add_f64 = (+), format_finite = to_be64\<rparr>"

theorem str_commands_refine_witness:
  "\<exists>s1 s2. str_call mem_engine str_env0 kc0 5 (StrSet [97] [53] (parse_options [SetEx 9, SetNx] 5)) mem_db
       = (AnsVal (Some []), s1)
     \<and> str_call mem_engine str_env0 kc0 5 (StrIncrBy [97] 2 0 True) s1 = (AnsInt 7, s2)
     \<and> strings_rep mem_engine s2 kc0 5 ((\<lambda>_. Absent)([97] := Text [55] 9005))"
proof -
  let ?A = "(\<lambda>_. Absent)([97] := Text [53] 9005)"
  have rep: "strings_rep mem_engine mem_db kc0 5 (\<lambda>_. Absent)"
    by (auto simp: all_rep_def text_rep_def live_text_def any_live_def live_meta_def)
  have opts: "parse_options [SetEx 9, SetNx] 5
      = \<lparr>ss_expire = 9005, ss_type = StNx, ss_get = False, ss_keep_ttl = False, ss_cmp = None\<rparr>"
    by (simp add: parse_options_def string_set_default_def saturating_add_u64_def saturating_mul_u64_def)
  obtain s1 where s1: "str_call mem_engine str_env0 kc0 5 (StrSet [97] [53] (parse_options [SetEx 9, SetNx] 5)) mem_db
       = (AnsVal (Some []), s1)" "strings_rep mem_engine s1 kc0 5 ?A"
    using str_commands_refine [OF kv_engine_mem rep, of "StrSet [97] [53] (parse_options [SetEx 9, SetNx] 5)" str_env0]
    by (auto simp: opts too_long_def MAX_STRING_SIZE_def fresh_text_def is_string_expired_def fun_upd_def)
  obtain s2 where s2: "str_call mem_engine str_env0 kc0 5 (StrIncrBy [97] 2 0 True) s1 = (AnsInt 7, s2)"
    "strings_rep mem_engine s2 kc0 5 ((\<lambda>_. Absent)([97] := Text [55] 9005))"
    using str_commands_refine [OF kv_engine_mem s1(2), of "StrIncrBy [97] 2 0 True" str_env0]
    by (auto simp: on_text_def str_env0_def parse_redis_integer_def validate_redis_number_slice_def
        is_ascii_whitespace_def I64_MIN_def I64_MAX_def fresh_text_def is_string_expired_def)
  from s1(1) s2 show ?thesis by blast
qed

end
