(* ===== verification/Lcs.thy ===== *)
theory Lcs
  imports Str_Ops "HOL-Library.Sublist"
begin

text \<open>
  \<^verbatim>\<open>embed/src/api/string/lcs.rs\<close> and its options in \<^verbatim>\<open>opt.rs\<close>: the longest common subsequence of
  two byte strings by dynamic programming, with a rolling pair of rows when only the length is asked
  for, and a backtracking walk over the full table that rebuilds the subsequence or the matching
  ranges. Table entries are 32-bit words.
\<close>

type_synonym u32 = "32 word"

section \<open>Options and results\<close>

definition ERR_LCS_TOO_LONG :: string where
  "ERR_LCS_TOO_LONG = ''ERR String too long for LCS''"

definition ERR_LCS_INSUFFICIENT_MEMORY :: string where
  "ERR_LCS_INSUFFICIENT_MEMORY =
     ''ERR Insufficient memory, transient memory for LCS exceeds proto-max-bulk-len''"

datatype lcs_type = LcsStr | LcsLen | LcsIdx

record string_lcs =
  lcs_kind :: lcs_type
  min_match_len :: int

datatype lcs_opt = OptLen | OptIdx | OptWithMatchLen | OptMinMatchLen int

fun lcs_parse_option :: "string_lcs \<Rightarrow> lcs_opt \<Rightarrow> string_lcs" where
  "lcs_parse_option a OptLen = a\<lparr>lcs_kind := LcsLen\<rparr>"
| "lcs_parse_option a OptIdx = a\<lparr>lcs_kind := LcsIdx\<rparr>"
| "lcs_parse_option a OptWithMatchLen = a\<lparr>lcs_kind := LcsIdx\<rparr>"
| "lcs_parse_option a (OptMinMatchLen len) = a\<lparr>lcs_kind := LcsIdx, min_match_len := len\<rparr>"

definition lcs_parse_options :: "lcs_opt list \<Rightarrow> string_lcs" where
  "lcs_parse_options options = foldl lcs_parse_option \<lparr>lcs_kind = LcsStr, min_match_len = 0\<rparr> options"

record lcs_range =
  r_start :: u32
  r_end :: u32

record matched_range =
  m_a :: lcs_range
  m_b :: lcs_range
  m_len :: u32

definition matched_range_new :: "u32 \<Rightarrow> u32 \<Rightarrow> u32 \<Rightarrow> u32 \<Rightarrow> u32 \<Rightarrow> matched_range" where
  "matched_range_new a_start a_end b_start b_end match_len =
     \<lparr>m_a = \<lparr>r_start = a_start, r_end = a_end\<rparr>, m_b = \<lparr>r_start = b_start, r_end = b_end\<rparr>, m_len = match_len\<rparr>"

datatype lcs_result = ResStr bytes | ResLen u32 | ResIdx "matched_range list" u32

section \<open>The rows of the table\<close>

text \<open>One row, left to right, from the row above.\<close>

definition row_step :: "bytes \<Rightarrow> u8 \<Rightarrow> u32 list \<Rightarrow> u32 list \<Rightarrow> nat \<Rightarrow> u32 list" where
  "row_step s2 b1 prev cur j =
     cur[j := (if b1 = s2 ! (j - 1) then prev ! (j - 1) + 1 else max (prev ! j) (cur ! (j - 1)))]"

definition row_fill :: "bytes \<Rightarrow> u8 \<Rightarrow> u32 list \<Rightarrow> u32 list \<Rightarrow> u32 list" where
  "row_fill s2 b1 prev cur = foldl (row_step s2 b1 prev) cur [1..<length s2 + 1]"

text \<open>The two rolling variants: fixed arrays of 65 entries whose used part is copied back, and
  vectors that are swapped.\<close>

definition roll_copy :: "bytes \<Rightarrow> u32 list \<times> u32 list \<Rightarrow> u8 \<Rightarrow> u32 list \<times> u32 list" where
  "roll_copy s2 = (\<lambda>(prev, cur) b1.
     let cur = row_fill s2 b1 prev cur
     in (take (length s2 + 1) cur @ drop (length s2 + 1) prev, cur))"

definition roll_swap :: "bytes \<Rightarrow> u32 list \<times> u32 list \<Rightarrow> u8 \<Rightarrow> u32 list \<times> u32 list" where
  "roll_swap s2 = (\<lambda>(prev, cur) b1. let cur = row_fill s2 b1 prev cur in (cur, prev))"

definition lcs_len_only :: "bytes \<Rightarrow> bytes \<Rightarrow> u32" where
  "lcs_len_only s1 s2 =
     (let (s1, s2) = (if length s1 < length s2 then (s2, s1) else (s1, s2));
          blen = length s2
      in if blen \<le> 64
         then fst (foldl (roll_copy s2) (replicate 65 0, replicate 65 0) s1) ! blen
         else fst (foldl (roll_swap s2) (replicate (blen + 1) 0, replicate (blen + 1) 0) s1) ! blen)"

section \<open>The full table\<close>

definition table_step :: "bytes \<Rightarrow> bytes \<Rightarrow> nat \<Rightarrow> u32 list \<Rightarrow> nat \<Rightarrow> u32 list" where
  "table_step s1 s2 i dp j =
     (let stride = length s2 + 1; row_curr = i * stride; row_prev = (i - 1) * stride
      in dp[row_curr + j :=
           (if s1 ! (i - 1) = s2 ! (j - 1) then dp ! (row_prev + j - 1) + 1
            else max (dp ! (row_prev + j)) (dp ! (row_curr + j - 1)))])"

definition lcs_table :: "bytes \<Rightarrow> bytes \<Rightarrow> u32 list" where
  "lcs_table s1 s2 =
     foldl (\<lambda>dp i. foldl (table_step s1 s2 i) dp [1..<length s2 + 1])
       (replicate ((length s1 + 1) * (length s2 + 1)) 0) [1..<length s1 + 1]"

section \<open>Walking back\<close>

text \<open>The open range of matches and what has been collected.\<close>

record walk =
  w_bytes :: bytes
  w_idx :: nat
  w_a_start :: nat
  w_a_end :: nat
  w_b_start :: nat
  w_b_end :: nat
  w_matches :: "matched_range list"

definition emit :: "string_lcs \<Rightarrow> nat \<Rightarrow> bool \<Rightarrow> walk \<Rightarrow> walk" where
  "emit args alen emit_range w =
     (if emit_range then
        (let match_len = word_of_nat (w_a_end w - w_a_start w + 1) :: u32;
             w = (if lcs_kind args = LcsIdx
                       \<and> (min_match_len args \<le> 0 \<or> match_len \<ge> word_of_int (min_match_len args))
                  then w\<lparr>w_matches := w_matches w @ [matched_range_new (word_of_nat (w_a_start w))
                         (word_of_nat (w_a_end w)) (word_of_nat (w_b_start w)) (word_of_nat (w_b_end w)) match_len]\<rparr>
                  else w)
         in w\<lparr>w_a_start := alen\<rparr>)
      else w)"

definition walk_match :: "string_lcs \<Rightarrow> bytes \<Rightarrow> nat \<Rightarrow> nat \<Rightarrow> walk \<Rightarrow> walk" where
  "walk_match args s1 i j w =
     (let alen = length s1;
          w = (if lcs_kind args = LcsStr \<and> w_idx w > 0
               then w\<lparr>w_bytes := (w_bytes w)[w_idx w - 1 := s1 ! (i - 1)]\<rparr> else w);
          (w, emit_range) =
            (if w_a_start w = alen
             then (w\<lparr>w_a_start := i - 1, w_a_end := i - 1, w_b_start := j - 1, w_b_end := j - 1\<rparr>, False)
             else if w_a_start w = i \<and> w_b_start w = j
             then (w\<lparr>w_a_start := w_a_start w - 1, w_b_start := w_b_start w - 1\<rparr>, False)
             else (w, True));
          emit_range = (emit_range \<or> w_a_start w = 0 \<or> w_b_start w = 0)
      in emit args alen emit_range (w\<lparr>w_idx := w_idx w - 1\<rparr>))"

function walk_back :: "string_lcs \<Rightarrow> bytes \<Rightarrow> bytes \<Rightarrow> u32 list \<Rightarrow> nat \<Rightarrow> nat \<Rightarrow> walk \<Rightarrow> walk" where
  "walk_back args s1 s2 dp i j w =
     (if i > 0 \<and> j > 0 then
        (if s1 ! (i - 1) = s2 ! (j - 1)
         then walk_back args s1 s2 dp (i - 1) (j - 1) (walk_match args s1 i j w)
         else
           (let stride = length s2 + 1;
                lcs1 = dp ! ((i - 1) * stride + j);
                lcs2 = dp ! (i * stride + (j - 1));
                w = emit args (length s1) (w_a_start w \<noteq> length s1) w
            in if lcs1 > lcs2 then walk_back args s1 s2 dp (i - 1) j w
               else walk_back args s1 s2 dp i (j - 1) w))
      else w)"
  by pat_completeness auto
termination by (relation "measure (\<lambda>(_, _, _, _, i, j, _). i + j)") auto

declare walk_back.simps [simp del]

text \<open>The conversion of bytes to text replaces what is not UTF-8: it is the first argument.\<close>

definition compute_lcs_with :: "(bytes \<Rightarrow> bytes) \<Rightarrow> bytes \<Rightarrow> bytes \<Rightarrow> string_lcs \<Rightarrow> error + lcs_result" where
  "compute_lcs_with lossy s1 s2 args =
     (let alen = length s1; blen = length s2 in
      if alen = 0 \<or> blen = 0 then
        Inr (case lcs_kind args of LcsLen \<Rightarrow> ResLen 0 | LcsIdx \<Rightarrow> ResIdx [] 0 | LcsStr \<Rightarrow> ResStr [])
      else if alen \<ge> 2 ^ 32 - 2 \<or> blen \<ge> 2 ^ 32 - 2 then Inl (InvalidData ERR_LCS_TOO_LONG)
      else if s1 = s2 then
        (let lcs_len = word_of_nat alen in
         Inr (case lcs_kind args of
                LcsLen \<Rightarrow> ResLen lcs_len
              | LcsIdx \<Rightarrow>
                  ResIdx (if min_match_len args \<le> 0 \<or> lcs_len \<ge> word_of_int (min_match_len args)
                          then [matched_range_new 0 (lcs_len - 1) 0 (lcs_len - 1) lcs_len] else []) lcs_len
              | LcsStr \<Rightarrow> ResStr (lossy s1)))
      else if lcs_kind args = LcsLen then Inr (ResLen (lcs_len_only s1 s2))
      else if (alen + 1) * (blen + 1) * 4 > MAX_STRING_SIZE then Inl (InvalidData ERR_LCS_INSUFFICIENT_MEMORY)
      else
        let dp = lcs_table s1 s2;
            lcs_len = dp ! (alen * (blen + 1) + blen);
            w = walk_back args s1 s2 dp alen blen
                  \<lparr>w_bytes = (if lcs_kind args = LcsStr then replicate (unat lcs_len) 0 else []),
                   w_idx = unat lcs_len, w_a_start = alen, w_a_end = 0, w_b_start = 0, w_b_end = 0,
                   w_matches = []\<rparr>
        in Inr (case lcs_kind args of
                  LcsLen \<Rightarrow> ResLen lcs_len
                | LcsIdx \<Rightarrow> ResIdx (w_matches w) lcs_len
                | LcsStr \<Rightarrow> ResStr (lossy (w_bytes w))))"

definition compute_lcs :: "(bytes \<Rightarrow> bytes) \<Rightarrow> bytes \<Rightarrow> bytes \<Rightarrow> lcs_opt list \<Rightarrow> error + lcs_result" where
  "compute_lcs lossy s1 s2 opts = compute_lcs_with lossy s1 s2 (lcs_parse_options opts)"

text \<open>The command LCS of two keys: a missing key is the empty string.\<close>

definition lcs_cmd ::
    "'p engine \<Rightarrow> (bytes \<Rightarrow> bytes) \<Rightarrow> key_composer \<Rightarrow> 'p wedb \<Rightarrow> u64 \<Rightarrow> bytes \<Rightarrow> bytes \<Rightarrow> lcs_opt list \<Rightarrow> error + lcs_result" where
  "lcs_cmd E lossy kc s now_ms key1 key2 opts =
     try_op (get_string_raw E kc s now_ms key1)
       (\<lambda>raw1. try_op (get_string_raw E kc s now_ms key2)
          (\<lambda>raw2.
             let payload = \<lambda>r. (case r of Some (raw, _, off) \<Rightarrow> drop off raw | None \<Rightarrow> [])
             in compute_lcs_with lossy (payload raw1) (payload raw2) (lcs_parse_options opts)))"

section \<open>Longest common subsequences\<close>

fun lcs_at :: "bytes \<Rightarrow> bytes \<Rightarrow> nat \<Rightarrow> nat \<Rightarrow> nat" where
  "lcs_at s1 s2 0 j = 0"
| "lcs_at s1 s2 (Suc i) 0 = 0"
| "lcs_at s1 s2 (Suc i) (Suc j) =
    (if s1 ! i = s2 ! j then lcs_at s1 s2 i j + 1 else max (lcs_at s1 s2 i (Suc j)) (lcs_at s1 s2 (Suc i) j))"

definition common_subseq :: "bytes \<Rightarrow> bytes \<Rightarrow> bytes \<Rightarrow> bool" where
  "common_subseq xs a b \<longleftrightarrow> subseq xs a \<and> subseq xs b"

definition is_lcs :: "bytes \<Rightarrow> bytes \<Rightarrow> bytes \<Rightarrow> bool" where
  "is_lcs xs a b \<longleftrightarrow> common_subseq xs a b \<and> (\<forall>ys. common_subseq ys a b \<longrightarrow> length ys \<le> length xs)"

lemma lcs_at_0_right [simp]: "lcs_at s1 s2 i 0 = 0"
  by (cases i) simp_all

lemma lcs_at_le: "lcs_at s1 s2 i j \<le> i \<and> lcs_at s1 s2 i j \<le> j"
  by (induction s1 s2 i j rule: lcs_at.induct) auto

lemma lcs_at_swap: "lcs_at s2 s1 j i = lcs_at s1 s2 i j"
proof (induction s1 s2 i j rule: lcs_at.induct)
  case (3 s1 s2 i j)
  then show ?case by (auto simp: max.commute)
qed simp_all

lemma subseq_single: "subseq xs [a] \<longleftrightarrow> xs = [] \<or> xs = [a]"
  by (cases xs) auto

lemma subseq_snoc_iff:
  "subseq xs (ys @ [a]) \<longleftrightarrow> subseq xs ys \<or> (\<exists>zs. xs = zs @ [a] \<and> subseq zs ys)"
proof -
  have "subseq xs (ys @ [a]) \<longleftrightarrow> (\<exists>u v. xs = u @ v \<and> subseq u ys \<and> (v = [] \<or> v = [a]))"
    unfolding subseq_append_iff subseq_single ..
  also have "\<dots> \<longleftrightarrow> subseq xs ys \<or> (\<exists>zs. xs = zs @ [a] \<and> subseq zs ys)"
    by (metis append_Nil2)
  finally show ?thesis .
qed

lemma subseq_butlast: "subseq (zs @ [c]) us \<Longrightarrow> subseq zs us"
  using subseq_order.trans [of zs "zs @ [c]" us] by (simp add: subseq_snoc_iff)

lemma common_snoc_same:
  assumes "common_subseq xs (as @ [c]) (bs @ [c])"
  shows "common_subseq xs as bs \<or> (\<exists>zs. xs = zs @ [c] \<and> common_subseq zs as bs)"
proof (cases "\<exists>zs. xs = zs @ [c]")
  case True
  then obtain zs where "xs = zs @ [c]" by blast
  then show ?thesis
    using assms subseq_butlast [of zs c as] subseq_butlast [of zs c bs]
    by (auto simp: common_subseq_def subseq_snoc_iff)
next
  case False
  then show ?thesis using assms by (auto simp: common_subseq_def subseq_snoc_iff)
qed

lemma common_snoc_other:
  assumes "common_subseq xs (as @ [c]) (bs @ [d])" and "c \<noteq> d"
  shows "common_subseq xs as (bs @ [d]) \<or> common_subseq xs (as @ [c]) bs"
  using assms unfolding common_subseq_def subseq_snoc_iff by auto

lemma lcs_at_upper:
  "i \<le> length s1 \<Longrightarrow> j \<le> length s2 \<Longrightarrow> common_subseq xs (take i s1) (take j s2) \<Longrightarrow> length xs \<le> lcs_at s1 s2 i j"
proof (induction s1 s2 i j arbitrary: xs rule: lcs_at.induct)
  case (3 s1 s2 i j)
  note t = take_Suc_conv_app_nth [of i s1] take_Suc_conv_app_nth [of j s2]
  show ?case
  proof (cases "s1 ! i = s2 ! j")
    case True
    then consider "common_subseq xs (take i s1) (take j s2)"
      | zs where "xs = zs @ [s2 ! j]" "common_subseq zs (take i s1) (take j s2)"
      using common_snoc_same [of xs "take i s1" "s2 ! j" "take j s2"] "3.prems" t by auto
    then show ?thesis
    proof cases
      case 1
      then show ?thesis using "3.IH"(1) [OF True, of xs] "3.prems" True by simp
    next
      case 2
      then show ?thesis using "3.IH"(1) [OF True, of zs] "3.prems" True by simp
    qed
  next
    case False
    then have "common_subseq xs (take i s1) (take (Suc j) s2) \<or> common_subseq xs (take (Suc i) s1) (take j s2)"
      using common_snoc_other [of xs "take i s1" "s1 ! i" "take j s2" "s2 ! j"] "3.prems" t by auto
    then show ?thesis using "3.IH"(2,3) [OF False] "3.prems" False by (auto simp: le_max_iff_disj)
  qed
qed (auto simp: common_subseq_def)

section \<open>The rows hold the lengths\<close>

lemma of_nat_max:
  assumes "m < 2 ^ 32" and "n < 2 ^ 32"
  shows "max (word_of_nat m) (word_of_nat n) = (word_of_nat (max m n) :: u32)"
  using assms by (auto simp: max_def word_le_nat_alt unsigned_of_nat take_bit_nat_eq_self)

lemma lcs_at_small: "length s2 < 2 ^ 32 \<Longrightarrow> j \<le> length s2 \<Longrightarrow> lcs_at s1 s2 i j < 2 ^ 32"
  using lcs_at_le [of s1 s2 i j] by linarith

definition row_holds :: "bytes \<Rightarrow> bytes \<Rightarrow> nat \<Rightarrow> u32 list \<Rightarrow> bool" where
  "row_holds s1 s2 i row \<longleftrightarrow> length s2 < length row \<and> (\<forall>j\<le>length s2. row ! j = word_of_nat (lcs_at s1 s2 i j))"

lemma row_fill_holds:
  assumes small: "length s2 < 2 ^ 32" and prev: "row_holds s1 s2 i prev" and cur: "length s2 < length cur" "cur ! 0 = 0"
  shows "row_holds s1 s2 (Suc i) (row_fill s2 (s1 ! i) prev cur)"
proof -
  have "n \<le> length s2 \<Longrightarrow> length (foldl (row_step s2 (s1 ! i) prev) cur [1..<n + 1]) = length cur
      \<and> (\<forall>j\<le>n. foldl (row_step s2 (s1 ! i) prev) cur [1..<n + 1] ! j = word_of_nat (lcs_at s1 s2 (Suc i) j))" for n
  proof (induction n)
    case (Suc n)
    let ?r = "foldl (row_step s2 (s1 ! i) prev) cur [1..<n + 1]"
    have r: "length ?r = length cur" "\<forall>j\<le>n. ?r ! j = word_of_nat (lcs_at s1 s2 (Suc i) j)"
      using Suc by simp_all
    have v: "prev ! n = word_of_nat (lcs_at s1 s2 i n)" "prev ! Suc n = word_of_nat (lcs_at s1 s2 i (Suc n))"
      using prev Suc.prems by (auto simp: row_holds_def)
    have "row_step s2 (s1 ! i) prev ?r (Suc n) = ?r[Suc n := word_of_nat (lcs_at s1 s2 (Suc i) (Suc n))]"
      using r(2) v of_nat_max [OF lcs_at_small [OF small, of "Suc n" s1 i] lcs_at_small [OF small, of n s1 "Suc i"]] Suc.prems
      by (simp add: row_step_def add.commute del: upt_Suc)
    moreover have "[1..<Suc n + 1] = [1..<n + 1] @ [Suc n]" by simp
    ultimately show ?case
      using r Suc.prems cur(1) by (auto simp: nth_list_update le_Suc_eq simp del: upt_Suc)
  qed (use cur in auto)
  from this [of "length s2"] show ?thesis using cur(1) by (simp add: row_fill_def row_holds_def)
qed

lemma row_holds_0: "length s2 < n \<Longrightarrow> row_holds s1 s2 0 (replicate n 0)"
  by (auto simp: row_holds_def)

definition rows_ok :: "bytes \<Rightarrow> bytes \<Rightarrow> nat \<Rightarrow> u32 list \<times> u32 list \<Rightarrow> bool" where
  "rows_ok s1 s2 i st \<longleftrightarrow> row_holds s1 s2 i (fst st) \<and> length s2 < length (snd st) \<and> snd st ! 0 = 0"

lemma roll_copy_ok: "length s2 < 2 ^ 32 \<Longrightarrow> rows_ok s1 s2 i st \<Longrightarrow> rows_ok s1 s2 (Suc i) (roll_copy s2 st (s1 ! i))"
  using row_fill_holds [of s2 s1 i "fst st" "snd st"]
  by (auto simp: rows_ok_def roll_copy_def row_holds_def Let_def nth_append split: prod.splits)

lemma roll_swap_ok: "length s2 < 2 ^ 32 \<Longrightarrow> rows_ok s1 s2 i st \<Longrightarrow> rows_ok s1 s2 (Suc i) (roll_swap s2 st (s1 ! i))"
  using row_fill_holds [of s2 s1 i "fst st" "snd st"]
  by (auto simp: rows_ok_def roll_swap_def row_holds_def Let_def split: prod.splits)

lemma roll_all:
  assumes step: "\<And>i st. rows_ok s1 s2 i st \<Longrightarrow> rows_ok s1 s2 (Suc i) (f st (s1 ! i))" and "rows_ok s1 s2 0 st"
  shows "fst (foldl f st s1) ! length s2 = word_of_nat (lcs_at s1 s2 (length s1) (length s2))"
proof -
  have "i \<le> length s1 \<Longrightarrow> rows_ok s1 s2 i (foldl f st (take i s1))" for i
    by (induction i) (use assms in \<open>auto simp: take_Suc_conv_app_nth\<close>)
  from this [of "length s1"] show ?thesis by (simp add: rows_ok_def row_holds_def)
qed

lemma rows_ok_0: "length s2 < n \<Longrightarrow> rows_ok s1 s2 0 (replicate n 0, replicate n 0)"
  using row_holds_0 by (simp add: rows_ok_def)

lemma roll_len:
  assumes "length s2 < 2 ^ 32"
  shows "length s2 \<le> 64 \<Longrightarrow> fst (foldl (roll_copy s2) (replicate 65 0, replicate 65 0) s1) ! length s2
       = word_of_nat (lcs_at s1 s2 (length s1) (length s2))"
    and "fst (foldl (roll_swap s2) (replicate (length s2 + 1) 0, replicate (length s2 + 1) 0) s1) ! length s2
       = word_of_nat (lcs_at s1 s2 (length s1) (length s2))"
  by (rule roll_all, erule roll_copy_ok [OF assms], rule rows_ok_0, simp)
    (rule roll_all, erule roll_swap_ok [OF assms], rule rows_ok_0, simp)

section \<open>So does the full table\<close>

definition table_holds :: "bytes \<Rightarrow> bytes \<Rightarrow> nat \<Rightarrow> u32 list \<Rightarrow> bool" where
  "table_holds s1 s2 q dp \<longleftrightarrow> length dp = (length s1 + 1) * (length s2 + 1)
     \<and> (\<forall>p<length dp. dp ! p =
          (if p < q then word_of_nat (lcs_at s1 s2 (p div (length s2 + 1)) (p mod (length s2 + 1))) else 0))"

lemma cell_div: "b < m \<Longrightarrow> (a * m + b) div m = a" and cell_mod: "b < m \<Longrightarrow> (a * m + b) mod m = b" for m :: nat
  by simp_all

lemma table_step_holds:
  assumes small: "length s2 < 2 ^ 32"
    and h: "table_holds s1 s2 (i * (length s2 + 1) + j) dp" and i: "1 \<le> i" "i \<le> length s1" and j: "1 \<le> j" "j \<le> length s2"
  shows "table_holds s1 s2 (i * (length s2 + 1) + (j + 1)) (table_step s1 s2 i dp j)"
proof -
  let ?st = "length s2 + 1"
  have len: "length dp = (length s1 + 1) * ?st" using h by (simp add: table_holds_def)
  have cell: "dp ! (a * ?st + b) = word_of_nat (lcs_at s1 s2 a b)"
    if "a \<le> i" "b \<le> length s2" "a * ?st + b < i * ?st + j" for a b
  proof -
    have "a * ?st + b < (length s1 + 1) * ?st"
      using that i(2) j(2) mult_le_mono1 [of i "length s1" ?st] by (simp add: algebra_simps)
    moreover have "(a * ?st + b) div ?st = a" "(a * ?st + b) mod ?st = b"
      using that(2) by (auto intro!: cell_div cell_mod simp del: mult_Suc_right)
    ultimately show ?thesis using h that(3) len unfolding table_holds_def by metis
  qed
  obtain i' j' where ij: "i = Suc i'" "j = Suc j'" using i(1) j(1) by (metis One_nat_def Suc_le_D)
  have idx: "(i - 1) * ?st + j - 1 = i' * ?st + j'" "(i - 1) * ?st + j = i' * ?st + Suc j'" "i * ?st + j - 1 = i * ?st + j'"
    using ij by simp_all
  have v: "dp ! ((i - 1) * ?st + j - 1) = word_of_nat (lcs_at s1 s2 i' j')"
    "dp ! ((i - 1) * ?st + j) = word_of_nat (lcs_at s1 s2 i' (Suc j'))"
    "dp ! (i * ?st + j - 1) = word_of_nat (lcs_at s1 s2 i j')"
    unfolding idx(2,3) using idx(1) cell [of i' j'] cell [of i' "Suc j'"] cell [of i j'] ij j(2) by simp_all
  have "word_of_nat (lcs_at s1 s2 i j) = (if s1 ! (i - 1) = s2 ! (j - 1)
      then word_of_nat (lcs_at s1 s2 i' j') + 1
      else max (word_of_nat (lcs_at s1 s2 i' (Suc j'))) (word_of_nat (lcs_at s1 s2 i j')) :: u32)"
    using of_nat_max [OF lcs_at_small [OF small, of "Suc j'" s1 i'] lcs_at_small [OF small, of j' s1 i]] ij j(2) by (simp add: add.commute)
  then have "table_step s1 s2 i dp j = dp[i * ?st + j := word_of_nat (lcs_at s1 s2 i j)]"
    by (simp only: table_step_def Let_def v ij(2) [symmetric])
  moreover have "(i * ?st + j) div ?st = i" "(i * ?st + j) mod ?st = j"
    using j(2) by (auto intro!: cell_div cell_mod simp del: mult_Suc_right)
  ultimately show ?thesis
    using h unfolding table_holds_def by (auto simp: nth_list_update less_Suc_eq)
qed

lemma lcs_table_cell:
  assumes small: "length s2 < 2 ^ 32" and ij: "i \<le> length s1" "j \<le> length s2"
  shows "lcs_table s1 s2 ! (i * (length s2 + 1) + j) = word_of_nat (lcs_at s1 s2 i j)"
proof -
  let ?st = "length s2 + 1"
  let ?row = "\<lambda>dp i. foldl (table_step s1 s2 i) dp [1..<length s2 + 1]"
  have inner: "table_holds s1 s2 (i * ?st + (n + 1)) (foldl (table_step s1 s2 i) dp [1..<n + 1])"
    if "table_holds s1 s2 (i * ?st + 1) dp" "1 \<le> i" "i \<le> length s1" "n \<le> length s2" for i n dp
    using that(4)
  proof (induction n)
    case (Suc n)
    then have "table_holds s1 s2 (i * ?st + Suc n) (foldl (table_step s1 s2 i) dp [1..<n + 1])" by simp
    from table_step_holds [OF small this that(2,3) _ Suc.prems] show ?case by simp
  qed (use that(1) in simp)
  have free: "table_holds s1 s2 (i * ?st + 1) dp" if "table_holds s1 s2 (i * ?st) dp" for i dp
  proof -
    have "(i * ?st) div ?st = i" "(i * ?st) mod ?st = 0" by (simp_all del: mult_Suc_right)
    then have "word_of_nat (lcs_at s1 s2 ((i * ?st) div ?st) ((i * ?st) mod ?st)) = (0 :: u32)"
      by (simp only: lcs_at_0_right semiring_1_class.of_nat_0)
    moreover have "p < i * ?st + 1 \<longleftrightarrow> p < i * ?st \<or> p = i * ?st" for p by linarith
    ultimately show ?thesis using that unfolding table_holds_def by metis
  qed
  have rows: "table_holds s1 s2 (Suc k * ?st) (foldl ?row (replicate ((length s1 + 1) * ?st) 0) [1..<k + 1])"
    if "k \<le> length s1" for k
    using that
  proof (induction k)
    case 0
    have "p < ?st \<Longrightarrow> lcs_at s1 s2 (p div ?st) (p mod ?st) = 0" for p by simp
    moreover have "p < (length s1 + 1) * ?st \<Longrightarrow> replicate ((length s1 + 1) * ?st) 0 ! p = (0 :: u32)" for p
      by (simp only: nth_replicate)
    ultimately have "table_holds s1 s2 ?st (replicate ((length s1 + 1) * ?st) 0)"
      by (simp add: table_holds_def del: replicate_Suc)
    then show ?case by simp
  next
    case (Suc k)
    then have "table_holds s1 s2 (Suc k * ?st) (foldl ?row (replicate ((length s1 + 1) * ?st) 0) [1..<k + 1])" by simp
    from inner [OF free [OF this], of "length s2"] Suc.prems show ?case by (simp add: algebra_simps)
  qed
  have "i * ?st + j < (length s1 + 1) * ?st"
    using ij mult_le_mono1 [of i "length s1" ?st] by (simp add: algebra_simps)
  moreover have "(i * ?st + j) div ?st = i" "(i * ?st + j) mod ?st = j"
    using ij(2) by (auto intro!: cell_div cell_mod simp del: mult_Suc_right)
  ultimately show ?thesis
    using rows [of "length s1"] unfolding table_holds_def lcs_table_def by (simp add: algebra_simps)
qed

section \<open>The walk rebuilds a subsequence\<close>

definition table_ok :: "bytes \<Rightarrow> bytes \<Rightarrow> u32 list \<Rightarrow> bool" where
  "table_ok s1 s2 dp \<longleftrightarrow> length s2 < 2 ^ 32 \<and>
     (\<forall>i\<le>length s1. \<forall>j\<le>length s2. dp ! (i * (length s2 + 1) + j) = word_of_nat (lcs_at s1 s2 i j))"

lemma table_okD:
  assumes "table_ok s1 s2 dp" and "i \<le> length s1" and "j \<le> length s2"
  shows "unat (dp ! (i * (length s2 + 1) + j)) = lcs_at s1 s2 i j"
  using assms lcs_at_small [of s2 j s1 i] by (simp add: table_ok_def unsigned_of_nat take_bit_nat_eq_self)

lemma lcs_table_ok: "length s2 < 2 ^ 32 \<Longrightarrow> table_ok s1 s2 (lcs_table s1 s2)"
  using lcs_table_cell by (simp add: table_ok_def)

text \<open>Which neighbour the walk follows.\<close>

lemma table_ok_less:
  assumes "table_ok s1 s2 dp" and "0 < i" "i \<le> length s1" and "0 < j" "j \<le> length s2"
  shows "dp ! ((i - 1) * (length s2 + 1) + j) > dp ! (i * (length s2 + 1) + (j - 1))
    \<longleftrightarrow> lcs_at s1 s2 (i - 1) j > lcs_at s1 s2 i (j - 1)"
  using table_okD [OF assms(1), of "i - 1" j] table_okD [OF assms(1), of i "j - 1"] assms(2-5)
  by (simp add: word_less_nat_alt)

lemma lcs_at_pos:
  assumes "0 < i" and "0 < j"
  shows "lcs_at s1 s2 i j = (if s1 ! (i - 1) = s2 ! (j - 1) then lcs_at s1 s2 (i - 1) (j - 1) + 1
    else max (lcs_at s1 s2 (i - 1) j) (lcs_at s1 s2 i (j - 1)))"
  using assms by (cases i; cases j) simp_all

lemma emit_simps [simp]:
  "w_bytes (emit args n b w) = w_bytes w" "w_idx (emit args n b w) = w_idx w"
  by (simp_all add: emit_def Let_def)

lemma walk_match_bytes:
  "w_idx (walk_match args s1 i j w) = w_idx w - 1"
  "lcs_kind args = LcsStr \<Longrightarrow> w_idx w > 0 \<Longrightarrow> w_bytes (walk_match args s1 i j w) = (w_bytes w)[w_idx w - 1 := s1 ! (i - 1)]"
  by (simp_all add: walk_match_def Let_def)

lemma drop_update_Cons: "0 < n \<Longrightarrow> n \<le> length xs \<Longrightarrow> drop (n - 1) (xs[n - 1 := c]) = c # drop n xs"
  by (subst Cons_nth_drop_Suc [symmetric]) simp_all

lemma drop_prev: "0 < i \<Longrightarrow> i \<le> length xs \<Longrightarrow> drop (i - 1) xs = xs ! (i - 1) # drop i xs"
  by (subst Cons_nth_drop_Suc [symmetric]) simp_all

lemma subseq_drop_prev: "subseq xs (drop i ys) \<Longrightarrow> subseq xs (drop (i - 1) ys)"
  using drop_prev [of i ys] by (cases "i = 0 \<or> length ys < i") (auto simp: not_less intro: list_emb_Cons)

lemma subseq_drop: "subseq xs (drop i ys) \<Longrightarrow> subseq xs ys"
  by (meson suffix_drop suffix_imp_subseq subseq_order.trans)

lemma walk_back_bytes:
  assumes tab: "table_ok s1 s2 dp" and kind: "lcs_kind args = LcsStr"
  shows "i \<le> length s1 \<Longrightarrow> j \<le> length s2 \<Longrightarrow> w_idx w = lcs_at s1 s2 i j \<Longrightarrow> w_idx w \<le> length (w_bytes w)
    \<Longrightarrow> common_subseq (drop (w_idx w) (w_bytes w)) (drop i s1) (drop j s2)
    \<Longrightarrow> common_subseq (w_bytes (walk_back args s1 s2 dp i j w)) s1 s2
      \<and> length (w_bytes (walk_back args s1 s2 dp i j w)) = length (w_bytes w)"
proof (induction "i + j" arbitrary: i j w rule: less_induct)
  case less
  note step = walk_back.simps [of args s1 s2 dp i j w]
  show ?case
  proof (cases "i > 0 \<and> j > 0")
    case False
    then have "w_idx w = 0" using less.prems(3) lcs_at_le [of s1 s2 i j] by auto
    moreover have "walk_back args s1 s2 dp i j w = w" unfolding step if_not_P [OF False] by (rule refl)
    ultimately show ?thesis using less.prems(5) by (auto simp: common_subseq_def intro: subseq_drop)
  next
    case True
    then have pos: "0 < i" "0 < j" by simp_all
    note rec = lcs_at_pos [OF pos, of s1 s2]
    show ?thesis
    proof (cases "s1 ! (i - 1) = s2 ! (j - 1)")
      case True
      let ?w = "walk_match args s1 i j w"
      have idx: "0 < w_idx w" using less.prems(3) True rec by simp
      have "drop (w_idx ?w) (w_bytes ?w) = s1 ! (i - 1) # drop (w_idx w) (w_bytes w)"
        using idx drop_update_Cons [OF idx less.prems(4), of "s1 ! (i - 1)"] by (simp add: walk_match_bytes kind)
      then have "common_subseq (drop (w_idx ?w) (w_bytes ?w)) (drop (i - 1) s1) (drop (j - 1) s2)"
        using less.prems(5) True drop_prev [OF pos(1) less.prems(1)] drop_prev [OF pos(2) less.prems(2)]
        by (simp add: common_subseq_def)
      then show ?thesis
        unfolding step using pos True rec less.prems idx less.hyps [of "i - 1" "j - 1" ?w]
        by (simp add: walk_match_bytes kind)
    next
      case False
      let ?w = "emit args (length s1) (w_a_start w \<noteq> length s1) w"
      note gt = table_ok_less [OF tab pos(1) less.prems(1) pos(2) less.prems(2)]
      show ?thesis
      proof (cases "lcs_at s1 s2 (i - 1) j > lcs_at s1 s2 i (j - 1)")
        case True
        then have "walk_back args s1 s2 dp i j w = walk_back args s1 s2 dp (i - 1) j ?w"
          unfolding step using pos False gt by (simp add: Let_def)
        moreover have "common_subseq (drop (w_idx w) (w_bytes w)) (drop (i - 1) s1) (drop j s2)"
          using less.prems(5) subseq_drop_prev [of _ i s1] unfolding common_subseq_def by blast
        ultimately show ?thesis
          using less.prems pos False rec True less.hyps [of "i - 1" j ?w] by simp
      next
        case le: False
        then have "walk_back args s1 s2 dp i j w = walk_back args s1 s2 dp i (j - 1) ?w"
          unfolding step using pos False gt by (simp add: Let_def)
        moreover have "common_subseq (drop (w_idx w) (w_bytes w)) (drop i s1) (drop (j - 1) s2)"
          using less.prems(5) subseq_drop_prev [of _ j s2] unfolding common_subseq_def by blast
        ultimately show ?thesis
          using less.prems pos False rec le less.hyps [of i "j - 1" ?w] by simp
      qed
    qed
  qed
qed

section \<open>The walk collects the matching ranges\<close>

definition range_ok :: "bytes \<Rightarrow> bytes \<Rightarrow> matched_range \<Rightarrow> bool" where
  "range_ok s1 s2 m \<longleftrightarrow>
     (let a = unat (r_start (m_a m)); b = unat (r_start (m_b m)); n = unat (m_len m)
      in 0 < n \<and> unat (r_end (m_a m)) + 1 = a + n \<and> unat (r_end (m_b m)) + 1 = b + n
         \<and> a + n \<le> length s1 \<and> b + n \<le> length s2
         \<and> take n (drop a s1) = take n (drop b s2))"

definition range_before :: "matched_range \<Rightarrow> matched_range \<Rightarrow> bool" where
  "range_before m m' \<longleftrightarrow> r_end (m_a m') < r_start (m_a m) \<and> r_end (m_b m') < r_start (m_b m)"

text \<open>The invariant: the ranges found so far lie above the current position and above the open
  range; the open range, if there is one, starts at the current position.\<close>

definition is_open :: "nat \<Rightarrow> walk \<Rightarrow> bool" where
  "is_open n w \<longleftrightarrow> w_a_start w \<noteq> n"

definition walk_ok :: "bytes \<Rightarrow> bytes \<Rightarrow> nat \<Rightarrow> nat \<Rightarrow> walk \<Rightarrow> bool" where
  "walk_ok s1 s2 i j w \<longleftrightarrow> i \<le> length s1 \<and> j \<le> length s2
     \<and> (\<forall>m\<in>set (w_matches w). range_ok s1 s2 m \<and> i \<le> unat (r_start (m_a m)) \<and> j \<le> unat (r_start (m_b m)))
     \<and> sorted_wrt range_before (w_matches w)
     \<and> (is_open (length s1) w \<longrightarrow>
          0 < i \<and> 0 < j \<and> w_a_start w = i \<and> w_b_start w = j \<and> i \<le> w_a_end w \<and> w_a_end w < length s1
        \<and> w_b_end w < length s2 \<and> w_a_end w - i = w_b_end w - j \<and> j \<le> w_b_end w
        \<and> take (w_a_end w - i + 1) (drop i s1) = take (w_a_end w - i + 1) (drop j s2)
        \<and> (\<forall>m\<in>set (w_matches w). w_a_end w < unat (r_start (m_a m)) \<and> w_b_end w < unat (r_start (m_b m))))"

definition walk_total :: "nat \<Rightarrow> walk \<Rightarrow> nat" where
  "walk_total n w = sum_list (map (\<lambda>m. unat (m_len m)) (w_matches w))
     + (if is_open n w then w_a_end w - w_a_start w + 1 else 0) + w_idx w"

lemma unat_of_nat_u32: "n < 2 ^ 32 \<Longrightarrow> unat (word_of_nat n :: u32) = n"
  by (simp add: unsigned_of_nat take_bit_nat_eq_self)

text \<open>Closing the open range.\<close>

definition open_at :: "bytes \<Rightarrow> bytes \<Rightarrow> nat \<Rightarrow> nat \<Rightarrow> walk \<Rightarrow> bool" where
  "open_at s1 s2 i j w \<longleftrightarrow>
     w_a_start w = i \<and> w_b_start w = j \<and> i \<le> w_a_end w \<and> w_a_end w < length s1
   \<and> w_b_end w < length s2 \<and> w_a_end w - i = w_b_end w - j \<and> j \<le> w_b_end w
   \<and> take (w_a_end w - i + 1) (drop i s1) = take (w_a_end w - i + 1) (drop j s2)
   \<and> (\<forall>m\<in>set (w_matches w). w_a_end w < unat (r_start (m_a m)) \<and> w_b_end w < unat (r_start (m_b m)))"

definition matches_ok :: "bytes \<Rightarrow> bytes \<Rightarrow> nat \<Rightarrow> nat \<Rightarrow> walk \<Rightarrow> bool" where
  "matches_ok s1 s2 i j w \<longleftrightarrow> i \<le> length s1 \<and> j \<le> length s2
     \<and> (\<forall>m\<in>set (w_matches w). range_ok s1 s2 m \<and> i \<le> unat (r_start (m_a m)) \<and> j \<le> unat (r_start (m_b m)))
     \<and> sorted_wrt range_before (w_matches w)"

lemma walk_ok_alt:
  "walk_ok s1 s2 i j w \<longleftrightarrow> matches_ok s1 s2 i j w
     \<and> (is_open (length s1) w \<longrightarrow> 0 < i \<and> 0 < j \<and> open_at s1 s2 i j w)"
  unfolding walk_ok_def matches_ok_def open_at_def by blast

lemma emit_closes: "\<not> is_open n (emit args n b w) \<longleftrightarrow> b \<or> \<not> is_open n w"
  by (auto simp: emit_def is_open_def Let_def)

lemma emit_False [simp]: "emit args n False w = w"
  by (simp add: emit_def)

definition the_range :: "walk \<Rightarrow> matched_range" where
  "the_range w = matched_range_new (word_of_nat (w_a_start w)) (word_of_nat (w_a_end w)) (word_of_nat (w_b_start w))
      (word_of_nat (w_b_end w)) (word_of_nat (w_a_end w - w_a_start w + 1))"

lemma emit_True:
  "emit args n True w =
     (if lcs_kind args = LcsIdx \<and> (min_match_len args \<le> 0 \<or> m_len (the_range w) \<ge> word_of_int (min_match_len args))
      then w\<lparr>w_matches := w_matches w @ [the_range w], w_a_start := n\<rparr> else w\<lparr>w_a_start := n\<rparr>)"
  by (simp add: emit_def Let_def the_range_def matched_range_new_def)

lemma the_range_unat:
  assumes small: "length s1 < 2 ^ 32" "length s2 < 2 ^ 32" and o: "open_at s1 s2 i j w"
  shows "unat (r_start (m_a (the_range w))) = i" "unat (r_start (m_b (the_range w))) = j"
    "unat (r_end (m_a (the_range w))) = w_a_end w" "unat (r_end (m_b (the_range w))) = w_b_end w"
    "unat (m_len (the_range w)) = w_a_end w - i + 1"
proof -
  have "w_a_start w < 2 ^ 32" "w_a_end w < 2 ^ 32" "w_b_start w < 2 ^ 32" "w_b_end w < 2 ^ 32"
    "w_a_end w - w_a_start w + 1 < 2 ^ 32" "w_a_start w = i" "w_b_start w = j"
    using o small by (auto simp: open_at_def)
  then show "unat (r_start (m_a (the_range w))) = i" "unat (r_start (m_b (the_range w))) = j"
    "unat (r_end (m_a (the_range w))) = w_a_end w" "unat (r_end (m_b (the_range w))) = w_b_end w"
    "unat (m_len (the_range w)) = w_a_end w - i + 1"
    unfolding the_range_def matched_range_new_def matched_range.simps lcs_range.simps
    by (simp_all only: unat_of_nat_u32)
qed

lemma emit_range_ok:
  assumes small: "length s1 < 2 ^ 32" "length s2 < 2 ^ 32" and m: "matches_ok s1 s2 i j w" and o: "open_at s1 s2 i j w"
  shows "matches_ok s1 s2 i j (emit args (length s1) True w)"
    and "lcs_kind args = LcsIdx \<Longrightarrow> min_match_len args \<le> 0 \<Longrightarrow> w_a_start w < length s1 \<Longrightarrow>
      walk_total (length s1) (emit args (length s1) True w) = walk_total (length s1) w"
proof -
  note u = the_range_unat [OF small o]
  have r: "range_ok s1 s2 (the_range w)"
    using o u by (auto simp: range_ok_def Let_def open_at_def)
  have b: "range_before m (the_range w)" if "m \<in> set (w_matches w)" for m
    using o u that by (auto simp: range_before_def word_less_nat_alt open_at_def)
  show "matches_ok s1 s2 i j (emit args (length s1) True w)"
    using m r b u(1,2) by (auto simp: matches_ok_def emit_True sorted_wrt_append)
  show "walk_total (length s1) (emit args (length s1) True w) = walk_total (length s1) w"
    if "lcs_kind args = LcsIdx" "min_match_len args \<le> 0" "w_a_start w < length s1"
    using that u(5) o by (simp add: walk_total_def emit_True is_open_def open_at_def)
qed

lemma matches_ok_lower: "matches_ok s1 s2 i j w \<Longrightarrow> i' \<le> i \<Longrightarrow> j' \<le> j \<Longrightarrow> matches_ok s1 s2 i' j' w"
  unfolding matches_ok_def using order_trans [of i' i] order_trans [of j' j] by blast

text \<open>A match opens a range or extends the open one downwards.\<close>

definition extended :: "nat \<Rightarrow> nat \<Rightarrow> nat \<Rightarrow> walk \<Rightarrow> walk" where
  "extended n i j w =
     (if w_a_start w = n then w\<lparr>w_a_start := i - 1, w_a_end := i - 1, w_b_start := j - 1, w_b_end := j - 1\<rparr>
      else w\<lparr>w_a_start := w_a_start w - 1, w_b_start := w_b_start w - 1\<rparr>)"

lemma extended_ok:
  assumes ok: "walk_ok s1 s2 i j w" and pos: "0 < i" "0 < j" and eq: "s1 ! (i - 1) = s2 ! (j - 1)"
  shows "matches_ok s1 s2 (i - 1) (j - 1) (extended (length s1) i j w)"
    and "open_at s1 s2 (i - 1) (j - 1) (extended (length s1) i j w)"
    and "0 < w_idx w \<Longrightarrow> walk_total (length s1) ((extended (length s1) i j w)\<lparr>w_idx := w_idx w - 1\<rparr>) = walk_total (length s1) w"
proof -
  have m0: "matches_ok s1 s2 i j w" using ok by (simp add: walk_ok_alt)
  then have ij: "i \<le> length s1" "j \<le> length s2" by (simp_all add: matches_ok_def)
  from m0 have m: "matches_ok s1 s2 (i - 1) (j - 1) w" by (rule matches_ok_lower) simp_all
  then show "matches_ok s1 s2 (i - 1) (j - 1) (extended (length s1) i j w)"
    by (simp add: matches_ok_def extended_def)
  have tk: "take (Suc n) (drop (i - 1) s1) = take (Suc n) (drop (j - 1) s2)"
    if "take n (drop i s1) = take n (drop j s2)" for n
    using that eq drop_prev [OF pos(1) ij(1)] drop_prev [OF pos(2) ij(2)] by simp
  show "open_at s1 s2 (i - 1) (j - 1) (extended (length s1) i j w)"
  proof (cases "is_open (length s1) w")
    case False
    have "\<forall>m\<in>set (w_matches w). i \<le> unat (r_start (m_a m)) \<and> j \<le> unat (r_start (m_b m))"
      using ok by (simp add: walk_ok_def)
    then show ?thesis
      using False pos ij tk [of 0] by (force simp: open_at_def extended_def is_open_def)
  next
    case True
    then have o: "open_at s1 s2 i j w" using ok by (simp add: walk_ok_alt)
    then have "w_a_end w - (i - 1) = Suc (w_a_end w - i)" "w_b_end w - (j - 1) = Suc (w_b_end w - j)"
      using pos by (auto simp: open_at_def)
    then show ?thesis
      using True o pos tk [of "w_a_end w - i + 1"] by (auto simp: open_at_def extended_def is_open_def)
  qed
  show "walk_total (length s1) ((extended (length s1) i j w)\<lparr>w_idx := w_idx w - 1\<rparr>) = walk_total (length s1) w"
    if "0 < w_idx w"
  proof (cases "is_open (length s1) w")
    case True
    then have "open_at s1 s2 i j w" using ok by (simp add: walk_ok_alt)
    then show ?thesis
      using that True pos ij by (auto simp: walk_total_def extended_def is_open_def open_at_def)
  next
    case False
    then show ?thesis using that pos ij by (auto simp: walk_total_def extended_def is_open_def)
  qed
qed

lemma walk_match_extended:
  assumes "walk_ok s1 s2 i j w" and "0 < i" "0 < j" and "lcs_kind args = LcsIdx"
  shows "walk_match args s1 i j w
    = emit args (length s1) (i - 1 = 0 \<or> j - 1 = 0) ((extended (length s1) i j w)\<lparr>w_idx := w_idx w - 1\<rparr>)"
  using assms by (auto simp: walk_match_def extended_def walk_ok_def is_open_def Let_def)

lemma open_at_idx [simp]: "open_at s1 s2 i j (w\<lparr>w_idx := n\<rparr>) = open_at s1 s2 i j w"
  "matches_ok s1 s2 i j (w\<lparr>w_idx := n\<rparr>) = matches_ok s1 s2 i j w"
  by (simp_all add: open_at_def matches_ok_def)

lemma walk_match_ok:
  assumes small: "length s1 < 2 ^ 32" "length s2 < 2 ^ 32" and ok: "walk_ok s1 s2 i j w" and pos: "0 < i" "0 < j"
    and eq: "s1 ! (i - 1) = s2 ! (j - 1)" and kind: "lcs_kind args = LcsIdx"
  shows "walk_ok s1 s2 (i - 1) (j - 1) (walk_match args s1 i j w)"
    and "min_match_len args \<le> 0 \<Longrightarrow> 0 < w_idx w \<Longrightarrow>
      walk_total (length s1) (walk_match args s1 i j w) = walk_total (length s1) w"
proof -
  let ?w = "(extended (length s1) i j w)\<lparr>w_idx := w_idx w - 1\<rparr>"
  let ?b = "i - 1 = 0 \<or> j - 1 = 0"
  note ex = extended_ok [OF ok pos eq]
  have o: "open_at s1 s2 (i - 1) (j - 1) ?w" "matches_ok s1 s2 (i - 1) (j - 1) ?w" using ex(1,2) by simp_all
  have "w_a_start ?w < length s1" using o(1) by (simp add: open_at_def)
  note em = emit_range_ok [OF small o(2,1), of args]
  show "walk_ok s1 s2 (i - 1) (j - 1) (walk_match args s1 i j w)"
    unfolding walk_match_extended [OF ok pos kind]
  proof (cases ?b)
    case True
    then show "walk_ok s1 s2 (i - 1) (j - 1) (emit args (length s1) ?b ?w)"
      using em(1) emit_closes [of "length s1" args True ?w] by (simp add: walk_ok_alt)
  next
    case False
    then show "walk_ok s1 s2 (i - 1) (j - 1) (emit args (length s1) ?b ?w)"
      using o by (simp add: walk_ok_alt)
  qed
  show "walk_total (length s1) (walk_match args s1 i j w) = walk_total (length s1) w"
    if "min_match_len args \<le> 0" "0 < w_idx w"
    unfolding walk_match_extended [OF ok pos kind]
    using em(2) [OF kind that(1) \<open>w_a_start ?w < length s1\<close>] ex(3) [OF that(2)] by (cases ?b) auto
qed

lemma walk_emit_ok:
  assumes small: "length s1 < 2 ^ 32" "length s2 < 2 ^ 32" and ok: "walk_ok s1 s2 i j w" and le: "i' \<le> i" "j' \<le> j"
    and kind: "lcs_kind args = LcsIdx"
  shows "walk_ok s1 s2 i' j' (emit args (length s1) (w_a_start w \<noteq> length s1) w)"
    and "min_match_len args \<le> 0 \<Longrightarrow>
      walk_total (length s1) (emit args (length s1) (w_a_start w \<noteq> length s1) w) = walk_total (length s1) w"
proof -
  have m: "matches_ok s1 s2 i j w" using ok by (simp add: walk_ok_alt)
  show "walk_ok s1 s2 i' j' (emit args (length s1) (w_a_start w \<noteq> length s1) w)"
  proof (cases "is_open (length s1) w")
    case True
    then have o: "open_at s1 s2 i j w" using ok by (simp add: walk_ok_alt)
    show ?thesis
      using True matches_ok_lower [OF emit_range_ok(1) [OF small m o] le, of args] emit_closes [of "length s1" args True w]
      by (simp add: walk_ok_alt is_open_def)
  next
    case False
    then show ?thesis using matches_ok_lower [OF m le] by (simp add: walk_ok_alt is_open_def)
  qed
  show "walk_total (length s1) (emit args (length s1) (w_a_start w \<noteq> length s1) w) = walk_total (length s1) w"
    if "min_match_len args \<le> 0"
  proof (cases "is_open (length s1) w")
    case True
    then have o: "open_at s1 s2 i j w" using ok by (simp add: walk_ok_alt)
    then have "w_a_start w < length s1" by (simp add: open_at_def)
    with emit_range_ok(2) [OF small m o kind that] True show ?thesis by (simp add: is_open_def)
  qed (simp add: is_open_def)
qed

lemma walk_back_ranges:
  assumes small: "length s1 < 2 ^ 32" "length s2 < 2 ^ 32" and tab: "table_ok s1 s2 dp" and kind: "lcs_kind args = LcsIdx"
  shows "walk_ok s1 s2 i j w \<Longrightarrow> w_idx w = lcs_at s1 s2 i j \<Longrightarrow>
    \<exists>i' j'. walk_ok s1 s2 i' j' (walk_back args s1 s2 dp i j w) \<and> \<not> is_open (length s1) (walk_back args s1 s2 dp i j w)
      \<and> w_idx (walk_back args s1 s2 dp i j w) = 0
      \<and> (min_match_len args \<le> 0 \<longrightarrow> walk_total (length s1) (walk_back args s1 s2 dp i j w) = walk_total (length s1) w)"
proof (induction "i + j" arbitrary: i j w rule: less_induct)
  case less
  note step = walk_back.simps [of args s1 s2 dp i j w]
  have ij: "i \<le> length s1" "j \<le> length s2" using less.prems(1) by (simp_all add: walk_ok_def)
  show ?case
  proof (cases "i > 0 \<and> j > 0")
    case False
    have "walk_back args s1 s2 dp i j w = w" unfolding step if_not_P [OF False] by (rule refl)
    moreover have "\<not> is_open (length s1) w" using less.prems(1) False by (auto simp: walk_ok_alt)
    moreover have "w_idx w = 0" using False less.prems(2) lcs_at_le [of s1 s2 i j] by auto
    ultimately show ?thesis using less.prems(1) by auto
  next
    case True
    then have pos: "0 < i" "0 < j" by simp_all
    note rec = lcs_at_pos [OF pos, of s1 s2]
    show ?thesis
    proof (cases "s1 ! (i - 1) = s2 ! (j - 1)")
      case True
      let ?w = "walk_match args s1 i j w"
      have idx: "0 < w_idx w" using less.prems(2) True rec by simp
      have eq: "walk_back args s1 s2 dp i j w = walk_back args s1 s2 dp (i - 1) (j - 1) ?w"
        unfolding step using pos True by simp
      have "w_idx ?w = lcs_at s1 s2 (i - 1) (j - 1)" using less.prems(2) True rec by (simp add: walk_match_bytes)
      from less.hyps [OF _ walk_match_ok(1) [OF small less.prems(1) pos True kind] this] pos
        walk_match_ok(2) [OF small less.prems(1) pos True kind _ idx]
      show ?thesis unfolding eq by fastforce
    next
      case False
      let ?w = "emit args (length s1) (w_a_start w \<noteq> length s1) w"
      note gt = table_ok_less [OF tab pos(1) ij(1) pos(2) ij(2)]
      note ok = walk_emit_ok [OF small less.prems(1) _ _ kind]
      have onward: ?thesis
        if "walk_back args s1 s2 dp i j w = walk_back args s1 s2 dp i' j' ?w" "i' + j' < i + j" "i' \<le> i" "j' \<le> j"
          "lcs_at s1 s2 i j = lcs_at s1 s2 i' j'" for i' j'
        using less.hyps [OF that(2) ok(1) [OF that(3,4)]] ok(2) [OF that(3,4)] less.prems(2) that(5)
        unfolding that(1) by fastforce
      show ?thesis
      proof (cases "lcs_at s1 s2 (i - 1) j > lcs_at s1 s2 i (j - 1)")
        case True
        then have "walk_back args s1 s2 dp i j w = walk_back args s1 s2 dp (i - 1) j ?w"
          unfolding step using pos False gt by (simp add: Let_def)
        then show ?thesis using onward [of "i - 1" j] pos False True rec by simp
      next
        case le: False
        then have "walk_back args s1 s2 dp i j w = walk_back args s1 s2 dp i (j - 1) ?w"
          unfolding step using pos False gt by (simp add: Let_def)
        then show ?thesis using onward [of i "j - 1"] pos False le rec by simp
      qed
    qed
  qed
qed

section \<open>What LCS answers\<close>

lemma lcs_ge:
  assumes "length s2 < 2 ^ 32"
  shows "\<exists>xs. is_lcs xs s1 s2 \<and> length xs = lcs_at s1 s2 (length s1) (length s2)
    \<and> (lcs_kind args = LcsStr \<longrightarrow>
        xs = w_bytes (walk_back args s1 s2 (lcs_table s1 s2) (length s1) (length s2)
               \<lparr>w_bytes = replicate (lcs_at s1 s2 (length s1) (length s2)) 0,
                w_idx = lcs_at s1 s2 (length s1) (length s2), w_a_start = length s1, w_a_end = 0, w_b_start = 0, w_b_end = 0,
                w_matches = []\<rparr>))"
proof -
  let ?n = "lcs_at s1 s2 (length s1) (length s2)"
  let ?args = "\<lparr>lcs_kind = LcsStr, min_match_len = min_match_len args\<rparr>"
  let ?w = "\<lparr>w_bytes = replicate ?n 0, w_idx = ?n, w_a_start = length s1, w_a_end = 0, w_b_start = 0, w_b_end = 0,
       w_matches = []\<rparr>"
  let ?xs = "\<lambda>args. w_bytes (walk_back args s1 s2 (lcs_table s1 s2) (length s1) (length s2) ?w)"
  have ok: "is_lcs (?xs a) s1 s2 \<and> length (?xs a) = ?n" if "lcs_kind a = LcsStr" for a
  proof -
    have "common_subseq (?xs a) s1 s2 \<and> length (?xs a) = ?n"
      using walk_back_bytes [OF lcs_table_ok [OF assms, of s1] that, of "length s1" "length s2" ?w] by (simp add: common_subseq_def)
    then show ?thesis using lcs_at_upper [of "length s1" s1 "length s2" s2] by (simp add: is_lcs_def)
  qed
  show ?thesis
  proof (cases "lcs_kind args = LcsStr")
    case True
    then show ?thesis using ok [of args] by blast
  next
    case False
    then show ?thesis using ok [of ?args] by auto
  qed
qed

lemma is_lcs_length: "is_lcs xs s1 s2 \<Longrightarrow> is_lcs ys s1 s2 \<Longrightarrow> length xs = length ys"
  by (meson is_lcs_def order_antisym)

lemma is_lcs_nil: "s1 = [] \<or> s2 = [] \<Longrightarrow> is_lcs [] s1 s2"
  by (auto simp: is_lcs_def common_subseq_def)

lemma is_lcs_self: "is_lcs s s s"
  by (auto simp: is_lcs_def common_subseq_def dest: list_emb_length)

lemma is_lcs_bound: "is_lcs xs s1 s2 \<Longrightarrow> length xs \<le> length s1 \<and> length xs \<le> length s2"
  by (auto simp: is_lcs_def common_subseq_def dest: list_emb_length)

lemma lcs_len_only_correct:
  assumes "length s1 < 2 ^ 32" and "length s2 < 2 ^ 32" and "is_lcs xs s1 s2"
  shows "unat (lcs_len_only s1 s2) = length xs"
proof -
  have "length xs = lcs_at s1 s2 (length s1) (length s2)"
    using lcs_ge [OF assms(2), of s1 undefined] is_lcs_length [OF assms(3)] by auto
  moreover have "lcs_len_only s1 s2 = word_of_nat (lcs_at s1 s2 (length s1) (length s2))"
    unfolding lcs_len_only_def using roll_len [OF assms(1), of s2] roll_len [OF assms(2), of s1]
    by (auto simp: Let_def lcs_at_swap [of s1 s2])
  ultimately show ?thesis
    using is_lcs_bound [OF assms(3)] assms(1) by (simp add: unsigned_of_nat take_bit_nat_eq_self)
qed

text \<open>The ranges of the answer: in bounds, equal on both sides, from the end of the strings to their
  beginning without overlap, and covering the whole subsequence when no minimum length is asked for.\<close>

definition ranges_answer :: "string_lcs \<Rightarrow> bytes \<Rightarrow> bytes \<Rightarrow> nat \<Rightarrow> matched_range list \<Rightarrow> bool" where
  "ranges_answer args s1 s2 n ms \<longleftrightarrow> list_all (range_ok s1 s2) ms \<and> sorted_wrt range_before ms
     \<and> (min_match_len args > 0 \<or> sum_list (map (\<lambda>m. unat (m_len m)) ms) = n)"

lemma walk_ranges_answer:
  assumes small: "length s1 < 2 ^ 32" "length s2 < 2 ^ 32" and kind: "lcs_kind args = LcsIdx"
    and n: "n = lcs_at s1 s2 (length s1) (length s2)"
  shows "ranges_answer args s1 s2 n (w_matches (walk_back args s1 s2 (lcs_table s1 s2) (length s1) (length s2)
     \<lparr>w_bytes = bs, w_idx = n, w_a_start = length s1, w_a_end = 0, w_b_start = 0, w_b_end = 0, w_matches = []\<rparr>))"
proof -
  let ?w = "\<lparr>w_bytes = bs, w_idx = n, w_a_start = length s1, w_a_end = 0, w_b_start = 0, w_b_end = 0, w_matches = []\<rparr>"
  have "walk_ok s1 s2 (length s1) (length s2) ?w" by (simp add: walk_ok_def is_open_def)
  from walk_back_ranges [OF small lcs_table_ok [OF small(2), of s1] kind this] n
  show ?thesis
    by (auto simp: ranges_answer_def walk_ok_def walk_total_def is_open_def list_all_iff)
qed

lemma whole_range_answer:
  assumes "length s < 2 ^ 32" and "s \<noteq> []" and "n = word_of_nat (length s)"
  shows "ranges_answer args s s (length s)
    (if min_match_len args \<le> 0 \<or> n \<ge> word_of_int (min_match_len args)
     then [matched_range_new 0 (n - 1) 0 (n - 1) n] else [])"
proof -
  have u: "unat n = length s" using assms(1,3) by (simp add: unat_of_nat_u32)
  have "n \<noteq> 0" using u assms(2) by (metis length_0_conv unat_0)
  then have "unat (n - 1) = unat n - 1" by (simp add: unat_minus_one)
  then show ?thesis
    using u assms(2) by (auto simp: ranges_answer_def range_ok_def matched_range_new_def neq_Nil_conv)
qed

text \<open>C6: LCS answers a longest common subsequence: whichever form is asked for, there is a longest
  common subsequence of the two values (no common subsequence is longer) such that LEN answers its
  length, the plain form its text, and IDX ranges of equal text in both values that run backwards
  without overlapping and, with no minimum match length, together cover it. This joins the two
  rolling-row computations, the full table and the backtracking walk of the code with the textbook
  notion.\<close>

theorem lcs_correct:
  assumes "length s1 < 2 ^ 32 - 2" and "length s2 < 2 ^ 32 - 2"
    and "lcs_kind args = LcsLen \<or> (length s1 + 1) * (length s2 + 1) * 4 \<le> MAX_STRING_SIZE"
    and "lossy [] = []"
  shows "\<exists>xs. is_lcs xs s1 s2 \<and>
    compute_lcs_with lossy s1 s2 args \<in>
      (case lcs_kind args of
         LcsLen \<Rightarrow> {Inr (ResLen (word_of_nat (length xs)))}
       | LcsStr \<Rightarrow> {Inr (ResStr (lossy xs))}
       | LcsIdx \<Rightarrow> {Inr (ResIdx ms (word_of_nat (length xs))) | ms. ranges_answer args s1 s2 (length xs) ms})"
proof -
  have small: "length s1 < 2 ^ 32" "length s2 < 2 ^ 32" using assms(1,2) by simp_all
  let ?n = "lcs_at s1 s2 (length s1) (length s2)"
  consider (nil) "s1 = [] \<or> s2 = []" | (same) "s1 \<noteq> []" "s2 \<noteq> []" "s1 = s2" | (gen) "s1 \<noteq> []" "s2 \<noteq> []" "s1 \<noteq> s2" by blast
  then show ?thesis
  proof cases
    case nil
    then show ?thesis
      using is_lcs_nil [of s1 s2] assms(4)
      by (intro exI [of _ "[]"]) (auto simp: compute_lcs_with_def Let_def ranges_answer_def split: lcs_type.splits)
  next
    case same
    then show ?thesis
      using is_lcs_self [of s1] assms(1) whole_range_answer [OF small(1) same(1) refl, of args]
      by (intro exI [of _ s1]) (auto simp: compute_lcs_with_def Let_def split: lcs_type.splits)
  next
    case gen
    obtain xs where xs: "is_lcs xs s1 s2" "length xs = ?n" "lcs_kind args = LcsStr \<longrightarrow>
        xs = w_bytes (walk_back args s1 s2 (lcs_table s1 s2) (length s1) (length s2)
               \<lparr>w_bytes = replicate ?n 0, w_idx = ?n, w_a_start = length s1, w_a_end = 0, w_b_start = 0, w_b_end = 0,
                w_matches = []\<rparr>)"
      using lcs_ge [OF small(2)] by blast
    have dp: "lcs_table s1 s2 ! (length s1 * (length s2 + 1) + length s2) = word_of_nat ?n"
      using lcs_table_cell [OF small(2), of "length s1" s1 "length s2"] by simp
    have un: "unat (word_of_nat ?n :: u32) = ?n"
      using lcs_at_small [OF small(2), of "length s2" s1 "length s1"] by (simp add: unat_of_nat_u32)
    have len: "lcs_len_only s1 s2 = word_of_nat (length xs)"
      by (simp flip: lcs_len_only_correct [OF small xs(1)])
    note guards = gen assms(1,2)
    show ?thesis
    proof (intro exI [of _ xs] conjI xs(1))
      show "compute_lcs_with lossy s1 s2 args \<in>
        (case lcs_kind args of
           LcsLen \<Rightarrow> {Inr (ResLen (word_of_nat (length xs)))}
         | LcsStr \<Rightarrow> {Inr (ResStr (lossy xs))}
         | LcsIdx \<Rightarrow> {Inr (ResIdx ms (word_of_nat (length xs))) | ms. ranges_answer args s1 s2 (length xs) ms})"
      proof (cases "lcs_kind args")
        case LcsLen
        then show ?thesis using guards len by (simp add: compute_lcs_with_def Let_def)
      next
        case LcsStr
        then show ?thesis using guards assms(3) xs dp un by (simp add: compute_lcs_with_def Let_def)
      next
        case LcsIdx
        then show ?thesis
          using guards assms(3) xs(2) dp un walk_ranges_answer [OF small LcsIdx refl, of "[]"]
          by (simp add: compute_lcs_with_def Let_def)
      qed
    qed
  qed
qed

lemma lcs_correct_witness:
  "\<exists>xs. is_lcs xs [1, 2, 3] [2, 3, 1] \<and>
    compute_lcs_with id [1, 2, 3] [2, 3, 1] \<lparr>lcs_kind = LcsLen, min_match_len = 0\<rparr> = Inr (ResLen (word_of_nat (length xs)))"
  using lcs_correct [of "[1, 2, 3]" "[2, 3, 1]" "\<lparr>lcs_kind = LcsLen, min_match_len = 0\<rparr>" id] by simp

end
