(* ===== verification/Hll_Dense.thy ===== *)
theory Hll_Dense
  imports Prelude
begin

text \<open>
  \<^verbatim>\<open>embed/src/api/hll/const.rs\<close>, \<^verbatim>\<open>algo.rs\<close> and \<^verbatim>\<open>dense.rs\<close>: the hash of an element, the
  register it falls into, the dense array of 16384 six-bit registers packed four into three bytes,
  the histogram over it and the register-wise maximum. Floating-point arithmetic is the hardware's:
  the estimator takes its operations as an argument.
\<close>

section \<open>Constants\<close>

definition HLL_REGISTERS :: nat where "HLL_REGISTERS = 16384"
definition HLL_DENSE_SIZE :: nat where "HLL_DENSE_SIZE = 12288"
definition HLL_REGISTER_COUNT_POW :: nat where "HLL_REGISTER_COUNT_POW = 14"
definition HLL_REGISTER_COUNT_MASK :: u64 where
  "HLL_REGISTER_COUNT_MASK = push_bit HLL_REGISTER_COUNT_POW 1 - 1"
definition HLL_HASH_BIT_COUNT :: nat where "HLL_HASH_BIT_COUNT = 50"
definition HLL_REGISTER_BITS :: nat where "HLL_REGISTER_BITS = 6"
definition HLL_REGISTER_MAX :: u8 where "HLL_REGISTER_MAX = push_bit HLL_REGISTER_BITS 1 - 1"
definition HLL_SEGMENT_COUNT :: nat where "HLL_SEGMENT_COUNT = 16"
definition HLL_SEGMENT_REGISTERS :: nat where "HLL_SEGMENT_REGISTERS = 1024"
definition HLL_SEGMENT_BYTES :: nat where "HLL_SEGMENT_BYTES = 768"
definition HLL_HASH_SEED :: u32 where "HLL_HASH_SEED = 0xadc83b19"

lemmas hll_consts = HLL_REGISTERS_def HLL_DENSE_SIZE_def HLL_REGISTER_COUNT_POW_def
  HLL_HASH_BIT_COUNT_def HLL_REGISTER_BITS_def HLL_SEGMENT_COUNT_def HLL_SEGMENT_REGISTERS_def
  HLL_SEGMENT_BYTES_def

section \<open>Hashing\<close>

definition MURMUR_M :: u64 where "MURMUR_M = 0xc6a4a7935bd1e995"

definition le_word :: "bytes \<Rightarrow> u64" where
  "le_word bs = fold (\<lambda>(i, b) k. k OR push_bit (i * 8) (ucast b)) (List.enumerate 0 bs) 0"

function murmur_chunks :: "bytes \<Rightarrow> u64 \<Rightarrow> u64 \<times> bytes" where
  "murmur_chunks data h =
     (if length data < 8 then (h, data)
      else
        let k = le_word (take 8 data) * MURMUR_M;
            k = k XOR drop_bit 47 k;
            k = k * MURMUR_M
        in murmur_chunks (drop 8 data) ((h XOR k) * MURMUR_M))"
  by pat_completeness auto
termination by (relation "measure (\<lambda>(data, _). length data)") auto

definition murmur_hash_64a :: "bytes \<Rightarrow> u32 \<Rightarrow> u64" where
  "murmur_hash_64a data seed =
     (let h = ucast seed XOR (word_of_nat (length data) * MURMUR_M);
          (h, remainder) = murmur_chunks data h;
          h = (if remainder \<noteq> [] then (h XOR le_word remainder) * MURMUR_M else h);
          h = (h XOR drop_bit 47 h) * MURMUR_M
      in h XOR drop_bit 47 h)"

definition hll_murmur_hash_64a :: "bytes \<Rightarrow> u64" where
  "hll_murmur_hash_64a data = murmur_hash_64a data HLL_HASH_SEED"

text \<open>\<open>u64::trailing_zeros\<close>: 64 for zero.\<close>

definition trailing_zeros :: "u64 \<Rightarrow> nat" where
  "trailing_zeros w = length (takeWhile (\<lambda>n. \<not> bit w n) [0..<64])"

definition extract_dense_hll_result :: "u64 \<Rightarrow> nat \<times> u8" where
  "extract_dense_hll_result hash =
     (let index = unat (hash AND HLL_REGISTER_COUNT_MASK);
          shifted = drop_bit HLL_REGISTER_COUNT_POW hash OR push_bit HLL_HASH_BIT_COUNT 1
      in (index, word_of_nat (trailing_zeros shifted + 1)))"

section \<open>Registers\<close>

definition byte_at :: "bytes \<Rightarrow> nat \<Rightarrow> u16" where
  "byte_at registers byte = (if byte < length registers then ucast (registers ! byte) else 0)"

definition hll_dense_get_register :: "bytes \<Rightarrow> nat \<Rightarrow> u8" where
  "hll_dense_get_register registers register_index =
     (let pos = register_index * HLL_REGISTER_BITS;
          byte = pos div 8;
          fb = pos mod 8;
          fb8 = 8 - fb;
          b0 = byte_at registers byte;
          b1 = (if fb > 8 - HLL_REGISTER_BITS then byte_at registers (byte + 1) else 0)
      in ucast ((drop_bit fb b0 OR push_bit fb8 b1) AND ucast HLL_REGISTER_MAX))"

definition hll_dense_set_register :: "nat \<Rightarrow> u8 \<Rightarrow> bytes \<Rightarrow> bytes" where
  "hll_dense_set_register register_index val registers =
     (let pos = register_index * HLL_REGISTER_BITS;
          byte = pos div 8;
          fb = pos mod 8;
          fb8 = 8 - fb;
          v = ucast (val AND HLL_REGISTER_MAX) :: u16;
          max_mask = ucast HLL_REGISTER_MAX :: u16;
          registers =
            (if byte < length registers
             then registers[byte := ucast (((byte_at registers byte AND NOT (push_bit fb max_mask)) OR push_bit fb v) AND 0xFF)]
             else registers)
      in if fb > 8 - HLL_REGISTER_BITS \<and> byte + 1 < length registers
         then registers[byte + 1 :=
                ucast (((byte_at registers (byte + 1) AND NOT (drop_bit fb8 max_mask)) OR drop_bit fb8 v) AND 0xFF)]
         else registers)"

text \<open>Four registers in three bytes.\<close>

definition regs4 :: "bytes \<Rightarrow> u8 list" where
  "regs4 d =
     [d ! 0 AND 0x3F,
      drop_bit 6 (d ! 0) OR push_bit 2 (d ! 1 AND 0x0F),
      drop_bit 4 (d ! 1) OR push_bit 4 (d ! 2 AND 0x03),
      drop_bit 2 (d ! 2)]"

definition pack4 :: "u8 list \<Rightarrow> bytes" where
  "pack4 m =
     [(m ! 0 AND 0x3F) OR push_bit 6 (m ! 1 AND 0x03),
      drop_bit 2 (m ! 1) OR push_bit 4 (m ! 2 AND 0x0F),
      drop_bit 4 (m ! 2) OR push_bit 2 (m ! 3 AND 0x3F)]"

definition merge_3_bytes :: "bytes \<Rightarrow> bytes \<Rightarrow> bytes" where
  "merge_3_bytes d s =
     (if (s ! 0 OR s ! 1 OR s ! 2) = 0 then d
      else if (d ! 0 OR d ! 1 OR d ! 2) = 0 then s
      else pack4 (map2 max (regs4 d) (regs4 s)))"

text \<open>Bytes are compared bit by bit.\<close>

lemma byte_eqI:
  fixes a b :: u8
  assumes "bit a 0 = bit b 0" "bit a 1 = bit b 1" "bit a 2 = bit b 2" "bit a 3 = bit b 3"
    "bit a 4 = bit b 4" "bit a 5 = bit b 5" "bit a 6 = bit b 6" "bit a 7 = bit b 7"
  shows "a = b"
proof (rule bit_word_eqI)
  fix n
  assume "n < LENGTH(8)"
  then have "n \<in> {0, 1, 2, 3, 4, 5, 6, 7}" by auto
  then show "bit a n = bit b n" using assms by blast
qed

lemma bit_u8_ge: "8 \<le> n \<Longrightarrow> \<not> bit (w :: u8) n"
  using bit_imp_le_length [of w n] by auto

lemmas byte_bits = bit_simps bit_u8_ge numeral_2_eq_2 [symmetric] numeral_3_eq_3 [symmetric]

lemma six_bits:
  fixes r :: u8
  shows "r AND 0x3F = r \<longleftrightarrow> \<not> bit r 6 \<and> \<not> bit r 7"
proof
  assume r: "r AND 0x3F = r"
  have "bit r n \<longleftrightarrow> bit (r AND 0x3F) n" for n using r by simp
  from this [of 6] this [of 7] show "\<not> bit r 6 \<and> \<not> bit r 7" by (simp add: bit_simps)
next
  assume "\<not> bit r 6 \<and> \<not> bit r 7"
  then show "r AND 0x3F = r" by (intro byte_eqI) (simp_all add: byte_bits)
qed

lemma regs4_pack4:
  assumes "length m = 4" and "\<forall>r\<in>set m. r AND 0x3F = r"
  shows "regs4 (pack4 m) = m"
proof -
  obtain a b c d where m: "m = [a, b, c, d]"
    using assms(1) by (auto simp: numeral_eq_Suc length_Suc_conv)
  then have "\<not> bit a 6" "\<not> bit a 7" "\<not> bit b 6" "\<not> bit b 7" "\<not> bit c 6" "\<not> bit c 7" "\<not> bit d 6" "\<not> bit d 7"
    using assms(2) by (simp_all add: six_bits)
  then show ?thesis
    unfolding m regs4_def pack4_def by (simp; intro conjI byte_eqI; simp add: byte_bits)
qed

lemma regs4_small: "r \<in> set (regs4 d) \<Longrightarrow> r AND 0x3F = r"
  unfolding regs4_def six_bits by (auto simp: byte_bits)

lemma pack4_regs4: "pack4 (regs4 [x, y, z]) = [x, y, z]"
  unfolding regs4_def pack4_def by (simp; intro conjI byte_eqI; simp add: byte_bits)

lemma length_regs4 [simp]: "length (regs4 d) = 4" and length_pack4 [simp]: "length (pack4 m) = 3"
  by (simp_all add: regs4_def pack4_def)

text \<open>The registers of a packed array.\<close>

fun unpack :: "bytes \<Rightarrow> u8 list" where
  "unpack (x # y # z # bs) = regs4 [x, y, z] @ unpack bs"
| "unpack _ = []"

lemma length_unpack [simp]: "length (unpack bs) = 4 * (length bs div 3)"
proof (induction bs rule: unpack.induct)
  case (1 x y z bs)
  have "length (x # y # z # bs) div 3 = length bs div 3 + 1" by simp
  with 1 show ?case by simp
qed simp_all

lemma unpack_append: "length xs = 3 * n \<Longrightarrow> unpack (xs @ ys) = unpack xs @ unpack ys"
proof (induction n arbitrary: xs)
  case (Suc n)
  then obtain x y z xs' where "xs = x # y # z # xs'" "length xs' = 3 * n"
    by (auto simp: numeral_eq_Suc length_Suc_conv)
  with Suc.IH show ?case by simp
qed simp

lemma unpack_small: "r \<in> set (unpack bs) \<Longrightarrow> r AND 0x3F = r"
  by (induction bs rule: unpack.induct) (auto dest: regs4_small)

lemma quad_cases:
  fixes r :: nat
  assumes "r < 4"
  obtains "r = 0" | "r = 1" | "r = 2" | "r = 3"
  using assms by linarith

lemma reg_pos:
  "(4 * q + r) * 6 div 8 = 3 * q + r * 6 div (8 :: nat)" "(4 * q + r) * 6 mod 8 = r * 6 mod (8 :: nat)"
proof -
  have "(4 * q + r) * 6 = r * 6 + (3 * q) * 8" by simp
  then show "(4 * q + r) * 6 div 8 = 3 * q + r * 6 div (8 :: nat)" "(4 * q + r) * 6 mod 8 = r * 6 mod (8 :: nat)"
    by (simp_all only: div_mult_self1 mod_mult_self1)
qed

lemma byte_at_pre:
  assumes "length pre = 3 * q"
  shows "byte_at (pre @ x # y # z # post) (3 * q) = ucast x"
    "byte_at (pre @ x # y # z # post) (3 * q + 1) = ucast y"
    "byte_at (pre @ x # y # z # post) (3 * q + 2) = ucast z"
  using assms by (simp_all add: byte_at_def nth_append)

lemma upd_pre:
  assumes "length pre = 3 * q"
  shows "(pre @ x # y # z # post)[3 * q := b] = pre @ b # y # z # post"
    "(pre @ x # y # z # post)[3 * q + 1 := b] = pre @ x # b # z # post"
    "(pre @ x # y # z # post)[3 * q + 2 := b] = pre @ x # y # b # post"
  using assms by (simp_all add: list_update_append)

lemma get_register_quad:
  assumes "length pre = 3 * q" and "r < 4"
  shows "hll_dense_get_register (pre @ x # y # z # post) (4 * q + r) = regs4 [x, y, z] ! r"
proof -
  note b = byte_at_pre [OF assms(1), of x y z post]
  have mx: "ucast HLL_REGISTER_MAX = (63 :: u16)" by (simp add: HLL_REGISTER_MAX_def HLL_REGISTER_BITS_def)
  show ?thesis
    using assms(2) unfolding hll_dense_get_register_def HLL_REGISTER_BITS_def reg_pos Let_def mx
    by (cases r rule: quad_cases)
      (simp_all add: b b [simplified] regs4_def numeral_2_eq_2 [symmetric], (rule byte_eqI; simp add: byte_bits)+)
qed

lemma set_register_quad:
  assumes "length pre = 3 * q" and "r < 4"
  shows "hll_dense_set_register (4 * q + r) v (pre @ x # y # z # post)
    = pre @ pack4 ((regs4 [x, y, z])[r := v AND 0x3F]) @ post"
proof -
  note b = byte_at_pre [OF assms(1), of _ _ _ post]
  note u = upd_pre [OF assms(1), of _ _ _ post]
  have mx: "ucast HLL_REGISTER_MAX = (63 :: u16)" "HLL_REGISTER_MAX = 63" by (simp_all add: HLL_REGISTER_MAX_def HLL_REGISTER_BITS_def)
  show ?thesis
    using assms(2) unfolding hll_dense_set_register_def HLL_REGISTER_BITS_def reg_pos Let_def mx
    by (cases r rule: quad_cases)
      (simp_all add: assms(1) b b [simplified] u u [simplified] regs4_def pack4_def numeral_2_eq_2 [symmetric],
        ((intro conjI)?, (rule byte_eqI; simp add: byte_bits)+)+)
qed

text \<open>Reading and writing a register of an array of whole triples.\<close>

lemma split_quad:
  assumes "length rs = 3 * n" and "i < 4 * n"
  obtains q r pre x y z post where "i = 4 * q + r" "r < 4" "length pre = 3 * q" "rs = pre @ x # y # z # post"
    "length post = 3 * (n - q - 1)"
proof -
  let ?q = "i div 4"
  have q: "?q < n" using assms(2) by (simp add: less_mult_imp_div_less mult.commute)
  have "3 \<le> length (drop (3 * ?q) rs)" using q assms(1) by simp
  then obtain x y z post where d: "drop (3 * ?q) rs = x # y # z # post"
    by (metis One_nat_def Suc_le_length_iff eval_nat_numeral(3) numeral_2_eq_2)
  then have "rs = take (3 * ?q) rs @ x # y # z # post" by (metis append_take_drop_id)
  moreover have "length (take (3 * ?q) rs) = 3 * ?q" using q assms(1) by simp
  moreover have "length (drop (3 * ?q) rs) = 3 * n - 3 * ?q" using assms(1) by simp
  then have "length post = 3 * (n - ?q - 1)" unfolding d by simp
  ultimately show ?thesis by (intro that [of ?q "i mod 4" "take (3 * ?q) rs" x y z post]) simp_all
qed

lemma unpack_split:
  "length pre = 3 * q \<Longrightarrow> unpack (pre @ x # y # z # post) = unpack pre @ regs4 [x, y, z] @ unpack post"
  using unpack_append [of pre q "x # y # z # post"] by simp

lemma get_register_unpack:
  assumes "length rs = 3 * n" and "i < 4 * n"
  shows "hll_dense_get_register rs i = unpack rs ! i"
  using assms
proof (rule split_quad)
  fix q r pre x y z post
  assume *: "i = 4 * q + r" "r < 4" "length pre = 3 * q" "rs = pre @ x # y # z # post"
  then show ?thesis
    using get_register_quad [OF *(3,2), of x y z post] by (simp add: unpack_split nth_append)
qed

lemma set_register_unpack:
  assumes "length rs = 3 * n" and "i < 4 * n"
  shows "unpack (hll_dense_set_register i v rs) = (unpack rs)[i := v AND 0x3F]"
    and "length (hll_dense_set_register i v rs) = length rs"
proof -
  obtain q r pre x y z post where *: "i = 4 * q + r" "r < 4" "length pre = 3 * q" "rs = pre @ x # y # z # post"
    using split_quad [OF assms] by metis
  let ?m = "(regs4 [x, y, z])[r := v AND 0x3F]"
  have "\<forall>u\<in>set ?m. u AND 0x3F = u"
    using regs4_small set_update_subset_insert [of "regs4 [x, y, z]" r "v AND 0x3F"] by (auto simp: and.assoc)
  then have m: "regs4 (pack4 ?m) = ?m" by (intro regs4_pack4) simp_all
  obtain a b c where p: "pack4 ?m = [a, b, c]" by (simp add: pack4_def)
  have s: "hll_dense_set_register i v rs = pre @ a # b # c # post"
    unfolding *(1,4) using set_register_quad [OF *(3,2), of v x y z post] p by simp
  show "length (hll_dense_set_register i v rs) = length rs" unfolding s using *(4) by simp
  show "unpack (hll_dense_set_register i v rs) = (unpack rs)[i := v AND 0x3F]"
    unfolding s using * m p by (simp add: unpack_split list_update_append)
qed

section \<open>The histogram\<close>

text \<open>\<open>slice::as_chunks\<close>: the full chunks, and the remainder.\<close>

function chunks :: "nat \<Rightarrow> 'a list \<Rightarrow> 'a list list" where
  "chunks n xs = (if n = 0 \<or> length xs < n then [] else take n xs # chunks n (drop n xs))"
  by pat_completeness auto
termination by (relation "measure (\<lambda>(n, xs). length xs)") auto

declare chunks.simps [simp del] murmur_chunks.simps [simp del]

definition chunk_rem :: "nat \<Rightarrow> 'a list \<Rightarrow> 'a list" where
  "chunk_rem n xs = drop (length xs - length xs mod n) xs"

definition quad_usize :: "bytes \<Rightarrow> nat list" where
  "quad_usize r =
     (let b0 = unat (r ! 0); b1 = unat (r ! 1); b2 = unat (r ! 2)
      in [b0 AND 0x3F, drop_bit 6 b0 OR push_bit 2 (b1 AND 0x0F),
          drop_bit 4 b1 OR push_bit 4 (b2 AND 0x03), drop_bit 2 b2])"

definition histo_inc :: "nat list \<Rightarrow> nat \<Rightarrow> nat list" where
  "histo_inc h v = h[v := h ! v + 1]"

definition hll_dense_reg_histo :: "bytes \<Rightarrow> nat list \<Rightarrow> nat list" where
  "hll_dense_reg_histo registers reghisto =
     (let cs = chunks 12 registers;
          reghisto = foldl (\<lambda>h r. foldl histo_inc h
              (quad_usize (take 3 r) @ quad_usize (take 3 (drop 3 r))
               @ quad_usize (take 3 (drop 6 r)) @ quad_usize (take 3 (drop 9 r)))) reghisto cs
      in if chunk_rem 12 registers \<noteq> []
         then foldl (\<lambda>h i. let v = unat (hll_dense_get_register registers i) in if v < 64 then histo_inc h v else h)
                reghisto [length cs * 16..<length registers * 8 div 6]
         else reghisto)"

lemma bit_60_48:
  "bit (60 :: nat) n \<longleftrightarrow> n \<in> {2, 3, 4, 5}" "bit (60 :: u8) n \<longleftrightarrow> n \<in> {2, 3, 4, 5}"
  "bit (48 :: nat) n \<longleftrightarrow> n \<in> {4, 5}" "bit (48 :: u8) n \<longleftrightarrow> n \<in> {4, 5}"
  "bit (60 :: int) n \<longleftrightarrow> n \<in> {2, 3, 4, 5}" "bit (48 :: int) n \<longleftrightarrow> n \<in> {4, 5}"
proof -
  have n: "n \<in> {0, 1, 2, 3, 4, 5}" if "n < 6" using that by auto
  show b: "bit (60 :: nat) n \<longleftrightarrow> n \<in> {2, 3, 4, 5}" "bit (48 :: nat) n \<longleftrightarrow> n \<in> {4, 5}"
    using bit_nat_less [of 60 n 6] bit_nat_less [of 48 n 6] n by (auto simp: bit_Suc_0_iff)
  show "bit (60 :: int) n \<longleftrightarrow> n \<in> {2, 3, 4, 5}" "bit (48 :: int) n \<longleftrightarrow> n \<in> {4, 5}"
    using b bit_of_nat_iff_bit [of 60 n, where ?'a = int] bit_of_nat_iff_bit [of 48 n, where ?'a = int] by simp_all
  have m: "n \<in> {0, 1, 2, 3, 4, 5, 6, 7}" if "n < 8" using that by auto
  show "bit (60 :: u8) n \<longleftrightarrow> n \<in> {2, 3, 4, 5}" "bit (48 :: u8) n \<longleftrightarrow> n \<in> {4, 5}"
    using bit_imp_le_length [of "60 :: u8" n] bit_imp_le_length [of "48 :: u8" n] m by auto
qed

lemma quad_usize_eq: "quad_usize [x, y, z] = map unat (regs4 [x, y, z])"
  by (simp add: quad_usize_def regs4_def Let_def, intro conjI bit_eqI;
      auto simp: bit_simps bit_u8_ge bit_60_48 unsigned_and_eq dest: bit_imp_le_length)

lemma chunks_simps:
  "0 < n \<Longrightarrow> length xs < n \<Longrightarrow> chunks n xs = []"
  "0 < n \<Longrightarrow> length xs = n \<Longrightarrow> chunks n (xs @ ys) = xs # chunks n ys"
  by (subst chunks.simps; simp)+

lemma concat_chunks: "0 < n \<Longrightarrow> concat (chunks n xs) @ chunk_rem n xs = xs"
proof (induction n xs rule: chunks.induct)
  case (1 n xs)
  show ?case
  proof (cases "length xs < n")
    case False
    then have "length xs mod n = (length xs - n) mod n" by (simp add: le_mod_geq)
    then have "length xs - length xs mod n = n + (length (drop n xs) - length (drop n xs) mod n)"
      using False mod_less_eq_dividend [of "length xs - n" n] unfolding length_drop by linarith
    then have "chunk_rem n xs = chunk_rem n (drop n xs)"
      unfolding chunk_rem_def by (simp add: add.commute)
    with False 1 show ?thesis by (subst chunks.simps) simp
  qed (use 1(2) in \<open>simp add: chunk_rem_def chunks_simps\<close>)
qed

lemma length_chunks: "0 < n \<Longrightarrow> length (chunks n xs) = length xs div n"
proof (induction n xs rule: chunks.induct)
  case (1 n xs)
  then show ?case by (subst chunks.simps) (auto simp: le_div_geq)
qed

lemma chunk_length: "c \<in> set (chunks n xs) \<Longrightarrow> length c = n"
proof (induction n xs rule: chunks.induct)
  case (1 n xs)
  then show ?case by (subst (asm) (2) chunks.simps) (auto split: if_splits)
qed

lemma length_chunk_rem: "0 < n \<Longrightarrow> length (chunk_rem n xs) = length xs mod n"
  using mod_le_divisor [of n "length xs"] by (simp add: chunk_rem_def)

lemma six_bits_less:
  assumes "r AND 0x3F = (r :: u8)"
  shows "unat r < 64"
proof -
  have "take_bit 6 r = r" using assms by (simp add: take_bit_eq_mask mask_eq_exp_minus_1)
  then have "unat r = take_bit 6 (unat r)" by (metis unsigned_take_bit_eq)
  then show ?thesis using take_bit_nat_less_exp [of 6 "unat r"] by simp
qed

lemma quad_usize_12:
  assumes "length c = 12"
  shows "quad_usize (take 3 c) @ quad_usize (take 3 (drop 3 c)) @ quad_usize (take 3 (drop 6 c)) @ quad_usize (take 3 (drop 9 c))
    = map unat (unpack c)"
proof -
  have "\<exists>a b d e. c = a @ b @ d @ e \<and> length a = 3 \<and> length b = 3 \<and> length d = 3 \<and> length e = 3"
    using assms append_take_drop_id [of 3 c] append_take_drop_id [of 3 "drop 3 c"] append_take_drop_id [of 3 "drop 6 c"]
    by (intro exI [of _ "take 3 c"] exI [of _ "take 3 (drop 3 c)"] exI [of _ "take 3 (drop 6 c)"] exI [of _ "drop 9 c"])
      (simp add: add.commute)
  then obtain a b d e where c: "c = a @ b @ d @ e" "length a = 3" "length b = 3" "length d = 3" "length e = 3" by blast
  have q: "quad_usize x = map unat (unpack x)" if "length x = 3" for x
    using that quad_usize_eq by (auto simp: numeral_eq_Suc length_Suc_conv)
  have u: "unpack (a @ ys) = unpack a @ unpack ys" "unpack (b @ ys) = unpack b @ unpack ys"
    "unpack (d @ ys) = unpack d @ unpack ys" for ys
    using unpack_append [of _ 1] c by simp_all
  show ?thesis using c by (simp add: q u)
qed

lemma unpack_concat:
  "\<forall>c\<in>set cs. length c = 12 \<Longrightarrow>
    foldl (\<lambda>h r. foldl f h (quad_usize (take 3 r) @ quad_usize (take 3 (drop 3 r))
        @ quad_usize (take 3 (drop 6 r)) @ quad_usize (take 3 (drop 9 r)))) h cs
    = foldl f h (map unat (unpack (concat cs))) \<and> length (unpack (concat cs)) = 16 * length cs"
proof (induction cs arbitrary: h)
  case (Cons c cs)
  then have "unpack (c @ concat cs) = unpack c @ unpack (concat cs)" using unpack_append [of c 4] by simp
  moreover have "foldl f h (quad_usize (take 3 c) @ quad_usize (take 3 (drop 3 c))
        @ quad_usize (take 3 (drop 6 c)) @ quad_usize (take 3 (drop 9 c))) = foldl f h (map unat (unpack c))"
    using quad_usize_12 [of c] Cons.prems by (metis list.set_intros(1))
  ultimately show ?case using Cons by simp
qed simp

text \<open>The unrolled histogram counts every register once.\<close>

lemma hll_dense_reg_histo_eq:
  assumes "length rs = 3 * n"
  shows "hll_dense_reg_histo rs h = foldl histo_inc h (map unat (unpack rs))"
proof -
  let ?cs = "chunks 12 rs" and ?rem = "chunk_rem 12 rs"
  have rs: "concat ?cs @ ?rem = rs" by (rule concat_chunks) simp
  note cs = unpack_concat [of ?cs histo_inc h]
  have c12: "\<forall>c\<in>set ?cs. length c = 12" using chunk_length by blast
  have "length (concat ?cs) = 12 * length ?cs" using c12 by (induction ?cs) (auto simp: length_concat sum_list_triv cong: map_cong)
  then have u: "unpack rs = unpack (concat ?cs) @ unpack ?rem"
    using unpack_append [of "concat ?cs" "4 * length ?cs" ?rem] rs by simp
  have le: "16 * length ?cs \<le> 4 * n" using length_chunks [of 12 rs] assms by simp
  have "map (\<lambda>i. unat (hll_dense_get_register rs i)) [length ?cs * 16..<4 * n] = map unat (unpack ?rem)"
  proof (rule nth_equalityI)
    show len: "length (map (\<lambda>i. unat (hll_dense_get_register rs i)) [length ?cs * 16..<4 * n]) = length (map unat (unpack ?rem))"
      using arg_cong [OF u, of length] cs c12 assms by simp
    fix i
    assume "i < length (map (\<lambda>i. unat (hll_dense_get_register rs i)) [length ?cs * 16..<4 * n])"
    then have i: "length ?cs * 16 + i < 4 * n" by simp
    have "unpack rs ! (length ?cs * 16 + i) = unpack ?rem ! i"
      unfolding u using cs c12 by (simp add: nth_append)
    then show "map (\<lambda>i. unat (hll_dense_get_register rs i)) [length ?cs * 16..<4 * n] ! i = map unat (unpack ?rem) ! i"
      using get_register_unpack [OF assms i] nth_upt [OF i] i len by simp
  qed
  then have "foldl (\<lambda>h i. histo_inc h (unat (hll_dense_get_register rs i))) h' [length ?cs * 16..<4 * n]
      = foldl histo_inc h' (map unat (unpack ?rem))" for h'
    by (metis foldl_map)
  moreover have "unat (hll_dense_get_register rs i) < 64" if "i \<in> set [length ?cs * 16..<4 * n]" for i
    using that get_register_unpack [OF assms, of i] unpack_small [of "unpack rs ! i" rs] assms
    by (auto intro: six_bits_less)
  then have "foldl (\<lambda>h i. let v = unat (hll_dense_get_register rs i) in if v < 64 then histo_inc h v else h) h' [length ?cs * 16..<4 * n]
     = foldl (\<lambda>h i. histo_inc h (unat (hll_dense_get_register rs i))) h' [length ?cs * 16..<4 * n]" for h'
    by (intro foldl_cong) (simp_all add: Let_def)
  moreover have "length rs * 8 div 6 = 4 * n" using assms by simp
  ultimately show ?thesis
    using cs c12 by (auto simp: hll_dense_reg_histo_def Let_def u)
qed

lemma histo_counts:
  "\<forall>v\<in>set vs. v < length h \<Longrightarrow> length (foldl histo_inc h vs) = length h
     \<and> (\<forall>v<length h. foldl histo_inc h vs ! v = h ! v + count_list vs v)"
  by (induction vs arbitrary: h) (auto simp: histo_inc_def nth_list_update)

section \<open>Merging\<close>

definition merge_triples :: "bytes \<Rightarrow> bytes \<Rightarrow> bytes" where
  "merge_triples d s = concat (map2 merge_3_bytes (chunks 3 d) (chunks 3 s))"

text \<open>The test whether both slices are the same memory has no counterpart: merging an array into
  itself changes nothing.\<close>

definition hll_merge_bytes :: "bytes \<Rightarrow> bytes \<Rightarrow> bytes" where
  "hll_merge_bytes dest src =
     (if dest = [] \<or> src = [] then dest
      else
        let limit = min (length dest) (length src);
            d = take limit dest;
            s = take limit src;
            m12 = concat (map2 merge_triples (chunks 12 d) (chunks 12 s));
            d_rem12 = chunk_rem 12 d;
            s_rem12 = chunk_rem 12 s;
            m3 = merge_triples d_rem12 s_rem12;
            d_rem = chunk_rem 3 d_rem12;
            s_rem = chunk_rem 3 s_rem12;
            d_rem = (if d_rem \<noteq> []
              then foldl (\<lambda>dr i. let s_val = hll_dense_get_register s_rem i; d_val = hll_dense_get_register dr i
                                in if s_val > d_val then hll_dense_set_register i s_val dr else dr)
                     d_rem [0..<length d_rem * 8 div 6]
              else d_rem)
        in m12 @ m3 @ d_rem @ drop limit dest)"

fun merge_segment :: "bytes \<Rightarrow> bytes option \<Rightarrow> bytes" where
  "merge_segment dest_seg None = dest_seg"
| "merge_segment dest_seg (Some src_seg) =
     (if src_seg = [] then dest_seg
      else if dest_seg = [] then
        (let copy_len = min (length src_seg) HLL_SEGMENT_BYTES
         in take copy_len src_seg @ replicate (HLL_SEGMENT_BYTES - copy_len) 0)
      else hll_merge_bytes dest_seg src_seg)"

definition hll_merge_segments :: "bytes list \<Rightarrow> bytes option list \<Rightarrow> bytes list" where
  "hll_merge_segments dest src = map2 merge_segment dest src @ drop (length src) dest"

lemma max_six:
  fixes a b :: u8
  assumes "a AND 0x3F = a" and "b AND 0x3F = b"
  shows "max a b AND 0x3F = max a b"
  using assms by (simp add: max_def)

lemma regs4_zero: "regs4 [0, 0, 0] = [0, 0, 0, 0]"
  by (simp add: regs4_def)

lemma or3_zero: "(x OR y OR z) = 0 \<longleftrightarrow> x = 0 \<and> y = 0 \<and> z = (0 :: u8)"
  by (auto simp: or_eq_0_iff)

lemma merge_3_max:
  assumes "length d = 3" and "length s = 3"
  shows "length (merge_3_bytes d s) = 3" "unpack (merge_3_bytes d s) = map2 max (unpack d) (unpack s)"
proof -
  obtain a b c where d: "d = [a, b, c]" using assms(1) by (auto simp: numeral_eq_Suc length_Suc_conv)
  obtain x y z where s: "s = [x, y, z]" using assms(2) by (auto simp: numeral_eq_Suc length_Suc_conv)
  show "length (merge_3_bytes d s) = 3" using assms by (simp add: merge_3_bytes_def)
  have z: "map2 max r [0, 0, 0, 0] = r" "map2 max [0, 0, 0, 0] r = r" if "length r = 4" for r :: "u8 list"
    using that by (auto simp: numeral_eq_Suc length_Suc_conv)
  let ?m = "map2 max (regs4 d) (regs4 s)"
  have "\<forall>r\<in>set ?m. r AND 0x3F = r"
  proof
    fix r
    assume "r \<in> set ?m"
    then obtain u v where "r = max u v" "u \<in> set (regs4 d)" "v \<in> set (regs4 s)"
      by (auto dest: set_zip_leftD set_zip_rightD)
    then show "r AND 0x3F = r" using max_six regs4_small by blast
  qed
  then have p: "regs4 (pack4 ?m) = ?m" by (intro regs4_pack4) simp_all
  obtain e f g where "pack4 ?m = [e, f, g]" by (simp add: pack4_def)
  then have "unpack (pack4 ?m) = ?m" using p by simp
  then show "unpack (merge_3_bytes d s) = map2 max (unpack d) (unpack s)"
    using z(1) [of "regs4 d"] z(2) [of "regs4 s"] by (simp add: merge_3_bytes_def or3_zero d s regs4_zero)
qed

lemma chunks_append_Cons: "0 < n \<Longrightarrow> length x = n \<Longrightarrow> chunks n (x @ ys) = x # chunks n ys"
  by (rule chunks_simps(2))

lemma merge_triples_simps:
  "merge_triples [] s = []" "merge_triples d [] = []"
  "length x = 3 \<Longrightarrow> length y = 3 \<Longrightarrow> merge_triples (x @ d) (y @ s) = merge_3_bytes x y @ merge_triples d s"
  by (simp_all add: merge_triples_def chunks_simps)

lemma take_drop_Suc:
  assumes "length xs = k * Suc n"
  obtains a b where "xs = a @ b" "length a = k" "length b = k * n"
  using assms that [of "take k xs" "drop k xs"] by simp

lemma merge_triples_append:
  "length x = 3 * n \<Longrightarrow> length y = 3 * n \<Longrightarrow> merge_triples (x @ d) (y @ s) = merge_triples x y @ merge_triples d s"
proof (induction n arbitrary: x y)
  case (Suc n)
  from Suc.prems(1) obtain a b where x: "x = a @ b" "length a = 3" "length b = 3 * n" by (rule take_drop_Suc)
  from Suc.prems(2) obtain a' b' where y: "y = a' @ b'" "length a' = 3" "length b' = 3 * n" by (rule take_drop_Suc)
  show ?case using Suc.IH [OF x(3) y(3)] x y by (simp add: merge_triples_simps)
qed (simp add: merge_triples_simps)

lemma merge_triples_max:
  "length d = 3 * n \<Longrightarrow> length s = 3 * n \<Longrightarrow>
    length (merge_triples d s) = 3 * n \<and> unpack (merge_triples d s) = map2 max (unpack d) (unpack s)"
proof (induction n arbitrary: d s)
  case (Suc n)
  from Suc.prems(1) obtain a b where d: "d = a @ b" "length a = 3" "length b = 3 * n" by (rule take_drop_Suc)
  from Suc.prems(2) obtain x y where s: "s = x @ y" "length x = 3" "length y = 3 * n" by (rule take_drop_Suc)
  have u: "unpack (l @ r) = unpack l @ unpack r" if "length l = 3" for l r :: bytes
    using unpack_append [of l 1] that by simp
  show ?case
    using Suc.IH [OF d(3) s(3)] merge_3_max [OF d(2) s(2)] d s by (simp add: merge_triples_simps u zip_append)
qed (simp add: merge_triples_simps)

lemma merge_chunks:
  "length d = length s \<Longrightarrow>
    concat (map2 merge_triples (chunks 12 d) (chunks 12 s)) @ merge_triples (chunk_rem 12 d) (chunk_rem 12 s) = merge_triples d s"
proof (induction "length d" arbitrary: d s rule: less_induct)
  case less
  show ?case
  proof (cases "length d < 12")
    case True
    then show ?thesis using less.prems by (simp add: chunks_simps chunk_rem_def)
  next
    case False
    obtain a b where d: "d = a @ b" "length a = 12"
      using False that [of "take 12 d" "drop 12 d"] by simp
    obtain x y where s: "s = x @ y" "length x = 12"
      using False less.prems that [of "take 12 s" "drop 12 s"] by simp
    have r: "chunk_rem 12 (u @ v) = chunk_rem 12 v" if "length u = 12" for u v :: bytes
      using that by (simp add: chunk_rem_def)
    show ?thesis
      using less.hyps [of b y] less.prems merge_triples_append [of a 4 x b y] d s
      by (simp add: chunks_simps r)
  qed
qed

text \<open>The registers of an array that may be shorter: absent registers are zero.\<close>

definition reg_at :: "bytes \<Rightarrow> nat \<Rightarrow> u8" where
  "reg_at rs i = (if i < length (unpack rs) then unpack rs ! i else 0)"

lemma hll_merge_bytes_max:
  assumes d: "length dest = 3 * n" and s: "length src = 3 * m"
  shows "length (hll_merge_bytes dest src) = 3 * n"
    and "i < 4 * n \<Longrightarrow> reg_at (hll_merge_bytes dest src) i = max (reg_at dest i) (reg_at src i)"
proof -
  let ?l = "min n m"
  let ?d = "take (3 * ?l) dest" and ?s = "take (3 * ?l) src"
  have len: "length ?d = 3 * ?l" "length ?s = 3 * ?l" using d s by auto
  have "length (chunk_rem 3 (chunk_rem 12 ?d)) = 0" using len(1) mod_mod_cancel [of 3 12 "3 * ?l"] by (simp add: length_chunk_rem)
  then have r: "chunk_rem 3 (chunk_rem 12 ?d) = []" by simp
  have eq: "hll_merge_bytes dest src = merge_triples ?d ?s @ drop (3 * ?l) dest"
  proof (cases "dest = [] \<or> src = []")
    case True
    then have "?l = 0" using d s by auto
    then show ?thesis using True by (simp add: hll_merge_bytes_def merge_triples_simps)
  next
    case False
    have "min (length dest) (length src) = 3 * ?l" using d s by simp
    then show ?thesis
      using False r merge_chunks [of ?d ?s] len unfolding hll_merge_bytes_def Let_def
      by (simp add: if_not_P)
  qed
  note m = merge_triples_max [OF len]
  show "length (hll_merge_bytes dest src) = 3 * n" unfolding eq using m d by auto
  have u: "unpack (hll_merge_bytes dest src) = map2 max (unpack ?d) (unpack ?s) @ unpack (drop (3 * ?l) dest)"
    unfolding eq using m unpack_append [of "merge_triples ?d ?s" ?l] by simp
  have ud: "unpack dest = unpack ?d @ unpack (drop (3 * ?l) dest)"
    using unpack_append [of ?d ?l "drop (3 * ?l) dest"] len by simp
  have us: "unpack src = unpack ?s @ unpack (drop (3 * ?l) src)"
    using unpack_append [of ?s ?l "drop (3 * ?l) src"] len by simp
  show "reg_at (hll_merge_bytes dest src) i = max (reg_at dest i) (reg_at src i)" if "i < 4 * n"
  proof (cases "i < 4 * ?l")
    case True
    then show ?thesis
      unfolding reg_at_def u ud us using len by (auto simp: nth_append d s)
  next
    case False
    then have "\<not> i < length (unpack src)" using that s by auto
    then show ?thesis
      using False that unfolding reg_at_def u ud using len d by (auto simp: nth_append max_def)
  qed
qed

lemma max_zero_u8: "max r 0 = (r :: u8)" "max 0 r = r"
  by (simp_all add: max_def)

section \<open>The estimator\<close>

text \<open>The operations of \<open>f64\<close>; \<open>fl_lit m e\<close> is the literal \<open>m * 10 ^ - e\<close>.\<close>

record 'f float_ops =
  fl_add :: "'f \<Rightarrow> 'f \<Rightarrow> 'f"
  fl_sub :: "'f \<Rightarrow> 'f \<Rightarrow> 'f"
  fl_mul :: "'f \<Rightarrow> 'f \<Rightarrow> 'f"
  fl_div :: "'f \<Rightarrow> 'f \<Rightarrow> 'f"
  fl_sqrt :: "'f \<Rightarrow> 'f"
  fl_le :: "'f \<Rightarrow> 'f \<Rightarrow> bool"
  fl_eq :: "'f \<Rightarrow> 'f \<Rightarrow> bool"
  fl_is_nan :: "'f \<Rightarrow> bool"
  fl_is_inf :: "'f \<Rightarrow> bool"
  fl_inf :: 'f
  fl_lit :: "int \<Rightarrow> nat \<Rightarrow> 'f"
  fl_of_nat :: "nat \<Rightarrow> 'f"
  fl_round :: "'f \<Rightarrow> u64"

definition HLL_ALPHA_INF :: "'f float_ops \<Rightarrow> 'f" where
  "HLL_ALPHA_INF F = fl_lit F 7213475204444817 16"
definition HLL_M_F64 :: "'f float_ops \<Rightarrow> 'f" where "HLL_M_F64 F = fl_of_nat F HLL_REGISTERS"
definition HLL_INV_M :: "'f float_ops \<Rightarrow> 'f" where "HLL_INV_M F = fl_div F (fl_lit F 10 1) (HLL_M_F64 F)"
definition HLL_ALPHA_M_SQ :: "'f float_ops \<Rightarrow> 'f" where
  "HLL_ALPHA_M_SQ F = fl_mul F (fl_mul F (HLL_ALPHA_INF F) (HLL_M_F64 F)) (HLL_M_F64 F)"

text \<open>The two loops stop when an iteration changes nothing; whether they do is a matter of the
  arithmetic, so they may not return.\<close>

partial_function (option) sigma_loop :: "'f float_ops \<Rightarrow> 'f \<Rightarrow> 'f \<Rightarrow> 'f \<Rightarrow> 'f option" where
  "sigma_loop F x y z =
     (let x = fl_mul F x x;
          z_prime = z;
          z = fl_add F z (fl_mul F x y);
          y = fl_add F y y
      in if fl_eq F z_prime z then Some z else sigma_loop F x y z)"

definition hll_sigma :: "'f float_ops \<Rightarrow> 'f \<Rightarrow> 'f option" where
  "hll_sigma F x =
     (if fl_le F x (fl_lit F 0 1) \<or> fl_is_nan F x then Some (fl_lit F 0 1)
      else if fl_le F (fl_lit F 10 1) x then Some (fl_inf F)
      else sigma_loop F x (fl_lit F 10 1) x)"

partial_function (option) tau_loop :: "'f float_ops \<Rightarrow> 'f \<Rightarrow> 'f \<Rightarrow> 'f \<Rightarrow> 'f option" where
  "tau_loop F x y z =
     (let x = fl_sqrt F x;
          z_prime = z;
          y = fl_mul F y (fl_lit F 5 1);
          diff = fl_sub F (fl_lit F 10 1) x;
          z = fl_sub F z (fl_mul F (fl_mul F diff diff) y)
      in if fl_eq F z_prime z then Some (fl_div F z (fl_lit F 30 1)) else tau_loop F x y z)"

definition hll_tau :: "'f float_ops \<Rightarrow> 'f \<Rightarrow> 'f option" where
  "hll_tau F x =
     (if fl_le F x (fl_lit F 0 1) \<or> fl_le F (fl_lit F 10 1) x \<or> fl_is_nan F x then Some (fl_lit F 0 1)
      else tau_loop F x (fl_lit F 10 1) (fl_sub F (fl_lit F 10 1) x))"

definition hll_estimate_from_histo :: "'f float_ops \<Rightarrow> nat list \<Rightarrow> u64 option" where
  "hll_estimate_from_histo F reghisto =
     (case hll_tau F (fl_mul F (fl_sub F (HLL_M_F64 F) (fl_of_nat F (reghisto ! (HLL_HASH_BIT_COUNT + 1)))) (HLL_INV_M F)) of
        None \<Rightarrow> None
      | Some t \<Rightarrow>
          (let z = fl_mul F (HLL_M_F64 F) t;
               z = foldl (\<lambda>z j. fl_mul F (fl_add F z (fl_of_nat F (reghisto ! j))) (fl_lit F 5 1)) z
                     (rev [1..<HLL_HASH_BIT_COUNT + 1])
           in case hll_sigma F (fl_mul F (fl_of_nat F (reghisto ! 0)) (HLL_INV_M F)) of
                None \<Rightarrow> None
              | Some sg \<Rightarrow>
                  (let z = fl_add F z (fl_mul F (HLL_M_F64 F) sg)
                   in Some (if fl_le F z (fl_lit F 0 1) \<or> fl_is_nan F z \<or> fl_is_inf F z then 0
                            else fl_round F (fl_div F (HLL_ALPHA_M_SQ F) z)))))"

definition hll_dense_estimate :: "'f float_ops \<Rightarrow> bytes \<Rightarrow> u64 option" where
  "hll_dense_estimate F registers =
     (let reghisto = replicate 64 0
      in hll_estimate_from_histo F
           (if length registers \<ge> HLL_DENSE_SIZE then hll_dense_reg_histo (take HLL_DENSE_SIZE registers) reghisto
            else
              (let reghisto = hll_dense_reg_histo registers reghisto;
                   present_regs = length registers * 8 div 6;
                   missing_regs = HLL_REGISTERS - present_regs
               in reghisto[0 := reghisto ! 0 + missing_regs])))"

fun segment_histo :: "nat list \<Rightarrow> bytes option \<Rightarrow> nat list" where
  "segment_histo h None = h[0 := h ! 0 + HLL_SEGMENT_REGISTERS]"
| "segment_histo h (Some seg) =
     (if seg \<noteq> [] then
        (let h = hll_dense_reg_histo seg h;
             present_regs = length seg * 8 div 6;
             missing_regs = HLL_SEGMENT_REGISTERS - present_regs
         in h[0 := h ! 0 + missing_regs])
      else h[0 := h ! 0 + HLL_SEGMENT_REGISTERS])"

definition hll_dense_estimate_segments :: "'f float_ops \<Rightarrow> bytes option list \<Rightarrow> u64 option" where
  "hll_dense_estimate_segments F segments =
     (let reghisto = foldl segment_histo (replicate 64 0) segments
      in hll_estimate_from_histo F
           (if length segments < HLL_SEGMENT_COUNT
            then reghisto[0 := reghisto ! 0 + (HLL_SEGMENT_COUNT - length segments) * HLL_SEGMENT_REGISTERS]
            else reghisto))"

section \<open>The register of a hash\<close>

text \<open>The position of the lowest set bit, read off from the definition.\<close>

lemma takeWhile_stop:
  assumes "n < length xs" and "\<not> P (xs ! n)"
  shows "length (takeWhile P xs) \<le> n"
proof (rule ccontr)
  assume "\<not> length (takeWhile P xs) \<le> n"
  then have n: "n < length (takeWhile P xs)" by simp
  then have "P (takeWhile P xs ! n)" by (meson nth_mem set_takeWhileD)
  then show False using assms(2) takeWhile_nth [OF n] by simp
qed

lemma trailing_zeros_le: "bit w n \<Longrightarrow> trailing_zeros w \<le> n"
  unfolding trailing_zeros_def
proof (rule takeWhile_stop)
  assume "bit w n"
  then have n: "0 + n < 64" using bit_imp_le_length [of w n] by simp
  then show "n < length [0..<64]" by (simp only: length_upt)
  show "\<not> \<not> bit w ([0..<64] ! n)" unfolding nth_upt [OF n] using \<open>bit w n\<close> by simp
qed

lemma extract_bounds:
  assumes "extract_dense_hll_result h = (i, c)"
  shows "i < HLL_REGISTERS" and "0 < unat c" and "unat c \<le> HLL_HASH_BIT_COUNT + 1"
proof -
  let ?s = "drop_bit HLL_REGISTER_COUNT_POW h OR push_bit HLL_HASH_BIT_COUNT 1"
  have i: "i = unat (h AND HLL_REGISTER_COUNT_MASK)" and c: "c = word_of_nat (trailing_zeros ?s + 1)"
    using assms by (simp_all add: extract_dense_hll_result_def Let_def)
  have "h AND HLL_REGISTER_COUNT_MASK = take_bit 14 h"
    by (simp add: HLL_REGISTER_COUNT_MASK_def HLL_REGISTER_COUNT_POW_def take_bit_eq_mask mask_eq_exp_minus_1)
  then show "i < HLL_REGISTERS"
    using take_bit_nat_less_exp [of 14 "unat h"] by (simp add: i HLL_REGISTERS_def unsigned_take_bit_eq)
  have "bit ?s 50" by (simp add: bit_simps HLL_HASH_BIT_COUNT_def)
  then have "trailing_zeros ?s \<le> 50" by (rule trailing_zeros_le)
  then have "unat c = trailing_zeros ?s + 1" unfolding c unat_of_nat8 by (intro mod_less) linarith
  with \<open>trailing_zeros ?s \<le> 50\<close> show "0 < unat c" "unat c \<le> HLL_HASH_BIT_COUNT + 1"
    by (simp_all add: HLL_HASH_BIT_COUNT_def)
qed

end
