(* ===== verification/Hll_Sparse.thy ===== *)
theory Hll_Sparse
  imports Hll_Dense Errors
begin

text \<open>
  \<^verbatim>\<open>embed/src/api/hll/sparse.rs\<close>: the run-length encoding of the 16384 registers. An
  encoded string stands for the list of register values its opcodes expand to (\<open>expand\<close>); every
  operation of the encoding is an operation of that list, and of the packed array of
  \<open>Hll_Dense\<close>.
\<close>

section \<open>Opcodes\<close>

definition HLL_SPARSE_MAX_BYTES :: nat where "HLL_SPARSE_MAX_BYTES = 3000"
definition HLL_SPARSE_VAL_MAX_VALUE :: u8 where "HLL_SPARSE_VAL_MAX_VALUE = 32"
definition HLL_SPARSE_VAL_MAX_LEN :: nat where "HLL_SPARSE_VAL_MAX_LEN = 4"
definition HLL_SPARSE_ZERO_MAX_LEN :: nat where "HLL_SPARSE_ZERO_MAX_LEN = 64"
definition HLL_SPARSE_XZERO_MAX_LEN :: nat where "HLL_SPARSE_XZERO_MAX_LEN = 16384"

lemmas sparse_consts = HLL_SPARSE_MAX_BYTES_def HLL_SPARSE_VAL_MAX_VALUE_def HLL_SPARSE_VAL_MAX_LEN_def
  HLL_SPARSE_ZERO_MAX_LEN_def HLL_SPARSE_XZERO_MAX_LEN_def

datatype hll_sparse_op = SZero nat | SXZero nat | SVal u8 nat

fun op_len :: "hll_sparse_op \<Rightarrow> nat" where
  "op_len (SZero len) = len"
| "op_len (SXZero len) = len"
| "op_len (SVal val len) = len"

fun op_value :: "hll_sparse_op \<Rightarrow> u8" where
  "op_value (SZero len) = 0"
| "op_value (SXZero len) = 0"
| "op_value (SVal val len) = val"

definition op_is_empty :: "hll_sparse_op \<Rightarrow> bool" where
  "op_is_empty op \<longleftrightarrow> op_len op = 0"

definition decode_sparse_op :: "bytes \<Rightarrow> (hll_sparse_op \<times> nat) option" where
  "decode_sparse_op bs =
     (if bs = [] then None
      else
        let b0 = bs ! 0 in
        if b0 AND 0x80 \<noteq> 0 then
          (let val = (drop_bit 2 b0 AND 0x1F) + 1;
               len = unat (b0 AND 0x03) + 1
           in Some (SVal val len, 1))
        else if b0 AND 0xC0 = 0x40 then
          (if length bs < 2 then None
           else
             let b1 = bs ! 1;
                 len = (push_bit 8 (unat (b0 AND 0x3F)) OR unat b1) + 1
             in Some (SXZero len, 2))
        else if b0 AND 0xC0 = 0x00 then
          (let len = unat (b0 AND 0x3F) + 1 in Some (SZero len, 1))
        else None)"

function encode_sparse_zero :: "nat \<Rightarrow> bytes \<Rightarrow> bytes" where
  "encode_sparse_zero rem out =
     (if rem > 0 then
        (if rem > HLL_SPARSE_ZERO_MAX_LEN then
           (let chunk = min rem HLL_SPARSE_XZERO_MAX_LEN;
                v = word_of_nat (chunk - 1) :: u16
            in encode_sparse_zero (rem - chunk) (out @ [0x40 OR ucast (drop_bit 8 v), ucast (v AND 0xFF)]))
         else out @ [word_of_nat (rem - 1)])
      else out)"
  by pat_completeness auto
termination by (relation "measure fst") (auto simp: HLL_SPARSE_XZERO_MAX_LEN_def)

function encode_sparse_val :: "u8 \<Rightarrow> nat \<Rightarrow> bytes \<Rightarrow> bytes" where
  "encode_sparse_val val rem out =
     (if rem > 0 then
        (let chunk = min rem HLL_SPARSE_VAL_MAX_LEN;
             byte = 0x80 OR push_bit 2 ((val - 1) AND 0x1F) OR (word_of_nat (chunk - 1) AND 0x03)
         in encode_sparse_val val (rem - chunk) (out @ [byte]))
      else out)"
  by pat_completeness auto
termination by (relation "measure (fst \<circ> snd)") (auto simp: HLL_SPARSE_VAL_MAX_LEN_def)

declare encode_sparse_zero.simps [simp del] encode_sparse_val.simps [simp del]

definition hll_sparse_new :: bytes where
  "hll_sparse_new = encode_sparse_zero HLL_REGISTERS []"

lemma decode_consumed: "decode_sparse_op bs = Some (op, c) \<Longrightarrow> 0 < c \<and> c \<le> length bs"
  by (cases bs) (auto simp: decode_sparse_op_def Let_def Suc_le_eq split: if_splits)

lemma decode_drop [dest]: "decode_sparse_op bs = Some (op, c) \<Longrightarrow> length (drop c bs) < length bs"
  using decode_consumed by fastforce

section \<open>Expansion\<close>

function expand :: "bytes \<Rightarrow> u8 list option" where
  "expand s =
     (if s = [] then Some []
      else case decode_sparse_op s of
          None \<Rightarrow> None
        | Some (op, c) \<Rightarrow> map_option ((@) (replicate (op_len op) (op_value op))) (expand (drop c s)))"
  by pat_completeness auto
termination by (relation "measure length") (auto dest: decode_drop)

declare expand.simps [simp del]

lemma expand_Nil [simp]: "expand [] = Some []"
  by (subst expand.simps) simp

lemma decode_append: "decode_sparse_op s = Some r \<Longrightarrow> decode_sparse_op (s @ t) = Some r"
  by (cases s rule: list.exhaust; cases "tl s" rule: list.exhaust)
    (auto simp: decode_sparse_op_def Let_def split: if_splits)

lemma expand_append: "expand s = Some xs \<Longrightarrow> expand (s @ t) = map_option ((@) xs) (expand t)"
proof (induction s arbitrary: xs rule: expand.induct)
  case (1 s)
  show ?case
  proof (cases "s = []")
    case True
    then show ?thesis using 1 by (cases "expand t") simp_all
  next
    case False
    then obtain op c ys where d: "decode_sparse_op s = Some (op, c)" "expand (drop c s) = Some ys"
      "xs = replicate (op_len op) (op_value op) @ ys"
      using "1.prems" by (subst (asm) expand.simps) (auto split: option.splits)
    have "expand (drop c s @ t) = map_option ((@) ys) (expand t)" using "1.IH" [OF False d(1) refl d(2)] .
    then show ?thesis
      using False decode_append [OF d(1), of t] decode_consumed [OF d(1)] d(3)
      by (subst expand.simps, cases "expand t") simp_all
  qed
qed

text \<open>The bit fields of the opcodes.\<close>

lemma low_bits:
  "w AND 0x1F = take_bit 5 (w :: u8)" "w AND 0x3F = take_bit 6 w" "w AND 0x03 = take_bit 2 w" "v AND 0xFF = take_bit 8 (v :: u16)"
  by (simp_all add: take_bit_eq_mask mask_eq_exp_minus_1)

lemma unat_low_bits:
  "unat (w AND 0x1F :: u8) = unat w mod 32" "unat (w AND 0x3F :: u8) = unat w mod 64" "unat (w AND 0x03 :: u8) = unat w mod 4"
  "unat (v AND 0xFF :: u16) = unat v mod 256"
  unfolding low_bits unsigned_take_bit_eq by (simp_all add: take_bit_eq_mod)

lemma unat_val: "unat ((w AND 0x1F) + 1 :: u8) = unat w mod 32 + 1"
proof -
  have "unat w mod 32 < 32" by simp
  then have "unat w mod 32 + 1 < 256" by linarith
  then show ?thesis by (simp add: unat_word_ariths unat_low_bits)
qed

lemma decode_value:
  assumes "decode_sparse_op bs = Some (op, c)"
  shows "op_value op \<le> 32" "0 < op_len op"
proof -
  have v: "(w AND 0x1F) + 1 \<le> (32 :: u8)" for w
    using unat_val [of w] mod_less_divisor [of 32 "unat w"] unfolding word_le_nat_alt by simp
  show "op_value op \<le> 32" "0 < op_len op"
    using assms v by (auto simp: decode_sparse_op_def Let_def split: if_splits)
qed

section \<open>Encoding runs\<close>

lemma bit_7_and: "bit b 7 \<Longrightarrow> b AND 0x80 \<noteq> (0 :: u8)"
proof
  assume "bit b 7" and "b AND 0x80 = 0"
  moreover have "bit (b AND 0x80) 7 = bit b 7" by (simp add: byte_bits)
  ultimately show False by simp
qed

lemma expand_single:
  "decode_sparse_op s = Some (op, length s) \<Longrightarrow> expand s = Some (replicate (op_len op) (op_value op))"
  using decode_consumed [of s op "length s"] by (subst expand.simps) auto

lemma expand_zero_op: "n < 64 \<Longrightarrow> expand [word_of_nat n] = Some (replicate (n + 1) 0)"
proof -
  assume n: "n < 64"
  let ?b = "word_of_nat n :: u8"
  have u: "unat ?b = n" using n by simp
  then have "take_bit 6 ?b = ?b" using n by (simp add: word_unat_eq_iff unsigned_take_bit_eq take_bit_nat_eq_self)
  then have "\<not> bit ?b 6" "\<not> bit ?b 7" using six_bits [of "?b"] by (simp_all add: low_bits)
  then have "?b AND 0x80 = 0" "?b AND 0xC0 = 0" by (intro byte_eqI; simp add: byte_bits)+
  then have "decode_sparse_op [?b] = Some (SZero (n + 1), length [?b])"
    using n u by (simp add: decode_sparse_op_def unat_low_bits)
  then show ?thesis using expand_single by fastforce
qed

lemma expand_xzero_op:
  assumes "n < 16384"
  defines "v \<equiv> word_of_nat n :: u16"
  shows "expand [0x40 OR ucast (drop_bit 8 v), ucast (v AND 0xFF)] = Some (replicate (n + 1) 0)"
proof -
  let ?h = "ucast (drop_bit 8 v) :: u8" and ?l = "ucast (v AND 0xFF) :: u8"
  have v: "unat v = n" using assms by (simp add: unsigned_of_nat take_bit_nat_eq_self)
  have h: "unat ?h = n div 256"
    using assms(1) unfolding unsigned_ucast_eq unsigned_drop_bit_eq v by (simp add: drop_bit_eq_div take_bit_nat_eq_self)
  have l: "unat ?l = n mod 256"
    by (simp add: unsigned_ucast_eq unat_low_bits v take_bit_nat_eq_self)
  have "take_bit 6 ?h = ?h" using assms(1) by (simp add: word_unat_eq_iff unsigned_take_bit_eq h take_bit_nat_eq_self)
  then have "\<not> bit ?h 6" "\<not> bit ?h 7" using six_bits [of "?h"] by (simp_all add: low_bits)
  then have b: "(0x40 OR ?h) AND 0x80 = 0" "(0x40 OR ?h) AND 0xC0 = 0x40" "(0x40 OR ?h) AND 0x3F = ?h"
    by (intro byte_eqI; simp add: byte_bits)+
  have "push_bit 8 (unat ?h) OR unat ?l = n"
    using or_eq_plus_nat [of "n mod 256" 8 "n div 256"] unfolding h l by simp
  then have "decode_sparse_op [0x40 OR ?h, ?l] = Some (SXZero (n + 1), length [0x40 OR ?h, ?l])"
    by (simp add: decode_sparse_op_def b)
  then show ?thesis using expand_single by fastforce
qed

lemma expand_val_op:
  assumes "0 < val" "val \<le> 32" "n < 4"
  shows "expand [0x80 OR push_bit 2 ((val - 1) AND 0x1F) OR (word_of_nat n AND 0x03)] = Some (replicate (n + 1) val)"
proof -
  let ?b = "0x80 OR push_bit 2 ((val - 1) AND 0x1F) OR (word_of_nat n AND 0x03) :: u8"
  have "bit ?b 7" by (simp add: byte_bits)
  then have b: "?b AND 0x80 \<noteq> 0" by (rule bit_7_and)
  have f: "drop_bit 2 ?b AND 0x1F = (val - 1) AND 0x1F" "?b AND 0x03 = word_of_nat n AND 0x03"
    by (intro byte_eqI; simp add: byte_bits)+
  have "unat (val - 1) = unat val - 1" using assms(1) by (simp add: unat_minus_one)
  moreover have "0 < unat val" "unat val \<le> 32" using assms by (simp_all add: word_le_nat_alt word_less_nat_alt)
  ultimately have "(val - 1 AND 0x1F) + 1 = val"
    by (simp add: word_unat_eq_iff unat_val)
  moreover have "unat (word_of_nat n AND 0x03 :: u8) = n" using assms(3) by (simp add: unat_low_bits)
  ultimately have "decode_sparse_op [?b] = Some (SVal val (n + 1), length [?b])"
    using b f by (simp add: decode_sparse_op_def)
  then show ?thesis using expand_single by fastforce
qed

lemma expand_encode_zero: "expand out = Some xs \<Longrightarrow> expand (encode_sparse_zero n out) = Some (xs @ replicate n 0)"
proof (induction n out arbitrary: xs rule: encode_sparse_zero.induct)
  case (1 n out)
  note step = encode_sparse_zero.simps [of n out]
  show ?case
  proof (cases "n > HLL_SPARSE_ZERO_MAX_LEN")
    case True
    define c where "c = min n HLL_SPARSE_XZERO_MAX_LEN"
    define v where "v = (word_of_nat (c - 1) :: u16)"
    let ?o = "out @ [0x40 OR ucast (drop_bit 8 v), ucast (v AND 0xFF)]"
    have c: "0 < c" "c - 1 < 16384" "c \<le> n" using True by (auto simp: c_def sparse_consts)
    have "expand ?o = Some (xs @ replicate c 0)"
      using expand_append [OF "1.prems"] expand_xzero_op [OF c(2)] c(1) by (simp add: v_def)
    then have "expand (encode_sparse_zero (n - c) ?o) = Some ((xs @ replicate c 0) @ replicate (n - c) 0)"
      using "1.IH" [OF _ True c_def v_def] True by simp
    moreover have "replicate c 0 @ replicate (n - c) (0 :: u8) = replicate n 0"
      using c(3) by (simp flip: replicate_add)
    ultimately show ?thesis unfolding step using True by (simp add: Let_def c_def v_def)
  next
    case False
    then show ?thesis
      unfolding step using expand_append [OF "1.prems"] expand_zero_op "1.prems"
      by (cases n) (simp_all add: sparse_consts del: of_nat_Suc)
  qed
qed

lemma expand_encode_val:
  "0 < val \<Longrightarrow> val \<le> 32 \<Longrightarrow> expand out = Some xs \<Longrightarrow> expand (encode_sparse_val val n out) = Some (xs @ replicate n val)"
proof (induction val n out arbitrary: xs rule: encode_sparse_val.induct)
  case (1 v n out)
  note step = encode_sparse_val.simps [of v n out]
  show ?case
  proof (cases "n > 0")
    case True
    define c where "c = min n HLL_SPARSE_VAL_MAX_LEN"
    define b where "b = (0x80 OR push_bit 2 ((v - 1) AND 0x1F) OR (word_of_nat (c - 1) AND 0x03) :: u8)"
    have c: "0 < c" "c - 1 < 4" "c \<le> n" using True by (auto simp: c_def sparse_consts)
    have "expand (out @ [b]) = Some (xs @ replicate c v)"
      using expand_append [OF "1.prems"(3)] expand_val_op [OF "1.prems"(1,2) c(2)] c(1) by (simp add: b_def)
    then have "expand (encode_sparse_val v (n - c) (out @ [b])) = Some ((xs @ replicate c v) @ replicate (n - c) v)"
      using "1.IH" [OF True c_def b_def] "1.prems" by simp
    moreover have "replicate c v @ replicate (n - c) v = replicate n v"
      using c(3) by (simp flip: replicate_add)
    ultimately show ?thesis unfolding step using True by (simp add: Let_def c_def b_def)
  next
    case False
    then show ?thesis using 1 encode_sparse_val.simps [of v 0 out] by simp
  qed
qed

section \<open>Reading\<close>

function valid_loop :: "bytes \<Rightarrow> nat \<Rightarrow> bool" where
  "valid_loop s total_regs =
     (if s \<noteq> [] then
        (case decode_sparse_op s of
           Some (op, consumed) \<Rightarrow> valid_loop (drop consumed s) (total_regs + op_len op)
         | None \<Rightarrow> False)
      else total_regs = HLL_REGISTERS)"
  by pat_completeness auto
termination by (relation "measure (length \<circ> fst)") (auto dest: decode_drop)

definition hll_sparse_is_valid :: "bytes \<Rightarrow> bool" where
  "hll_sparse_is_valid sparse = valid_loop sparse 0"

definition bad_count :: "nat \<Rightarrow> error" where
  "bad_count got = InvalidData ''invalid sparse hll register count''"

function histo_loop :: "bytes \<Rightarrow> nat list \<Rightarrow> nat \<Rightarrow> error + nat list" where
  "histo_loop s reghisto total_regs =
     (if s \<noteq> [] then
        (case decode_sparse_op s of
           None \<Rightarrow> Inl (InvalidData ''invalid sparse hll opcode'')
         | Some (op, consumed) \<Rightarrow>
             (let len = op_len op; val = unat (op_value op);
                  reghisto = (if val < 64 then reghisto[val := reghisto ! val + len] else reghisto)
              in histo_loop (drop consumed s) reghisto (total_regs + len)))
      else if total_regs \<noteq> HLL_REGISTERS then Inl (bad_count total_regs)
      else Inr reghisto)"
  by pat_completeness auto
termination by (relation "measure (length \<circ> fst)") (auto dest: decode_drop)

definition hll_sparse_reg_histo :: "bytes \<Rightarrow> nat list \<Rightarrow> error + nat list" where
  "hll_sparse_reg_histo sparse reghisto = histo_loop sparse reghisto 0"

definition hll_sparse_estimate :: "'f float_ops \<Rightarrow> bytes \<Rightarrow> error + u64 option" where
  "hll_sparse_estimate F sparse =
     try_op (hll_sparse_reg_histo sparse (replicate 64 0)) (\<lambda>h. Inr (hll_estimate_from_histo F h))"

function to_dense_loop :: "bytes \<Rightarrow> bytes \<Rightarrow> nat \<Rightarrow> error + bytes" where
  "to_dense_loop s dense reg_idx =
     (if s \<noteq> [] then
        (case decode_sparse_op s of
           None \<Rightarrow> Inl (InvalidData ''invalid sparse opcode'')
         | Some (op, consumed) \<Rightarrow>
             (let len = op_len op; val = op_value op;
                  dense = (if val > 0
                    then foldl (\<lambda>d idx. hll_dense_set_register idx val d) dense [reg_idx..<min (reg_idx + len) HLL_REGISTERS]
                    else dense)
              in to_dense_loop (drop consumed s) dense (reg_idx + len)))
      else if reg_idx \<noteq> HLL_REGISTERS then Inl (InvalidData ''sparse total registers mismatch'')
      else Inr dense)"
  by pat_completeness auto
termination by (relation "measure (length \<circ> fst)") (auto dest: decode_drop)

definition hll_sparse_to_dense :: "bytes \<Rightarrow> bytes \<Rightarrow> error + bytes" where
  "hll_sparse_to_dense sparse dense =
     (if length dense < HLL_DENSE_SIZE then Inl (InvalidData ''dense buffer too small'')
      else to_dense_loop sparse (replicate HLL_DENSE_SIZE 0 @ drop HLL_DENSE_SIZE dense) 0)"

function get_loop :: "bytes \<Rightarrow> nat \<Rightarrow> nat \<Rightarrow> error + u8" where
  "get_loop s index cur_reg =
     (if s \<noteq> [] then
        (case decode_sparse_op s of
           None \<Rightarrow> Inl (InvalidData ''invalid sparse opcode'')
         | Some (op, consumed) \<Rightarrow>
             if index < cur_reg + op_len op then Inr (op_value op)
             else get_loop (drop consumed s) index (cur_reg + op_len op))
      else Inl (InvalidData ''sparse register index not found''))"
  by pat_completeness auto
termination by (relation "measure (length \<circ> fst)") (auto dest: decode_drop)

definition hll_sparse_get_register :: "bytes \<Rightarrow> nat \<Rightarrow> error + u8" where
  "hll_sparse_get_register sparse index =
     (if index \<ge> HLL_REGISTERS then Inl (InvalidData ''register index out of range'')
      else get_loop sparse index 0)"

function merge_sparse_loop :: "bytes \<Rightarrow> bytes \<Rightarrow> nat \<Rightarrow> bytes" where
  "merge_sparse_loop s dest reg_idx =
     (if s \<noteq> [] then
        (case decode_sparse_op s of
           Some (op, consumed) \<Rightarrow>
             (let len = op_len op; val = op_value op;
                  dest = (if val > 0
                    then foldl (\<lambda>d idx. if val > hll_dense_get_register d idx then hll_dense_set_register idx val d else d)
                           dest [reg_idx..<min (reg_idx + len) HLL_REGISTERS]
                    else dest)
              in merge_sparse_loop (drop consumed s) dest (reg_idx + len))
         | None \<Rightarrow> dest)
      else dest)"
  by pat_completeness auto
termination by (relation "measure (length \<circ> fst)") (auto dest: decode_drop)

definition hll_merge_sparse_into_dense :: "bytes \<Rightarrow> bytes \<Rightarrow> bytes" where
  "hll_merge_sparse_into_dense dest sparse =
     (if length dest < HLL_DENSE_SIZE \<or> sparse = [] then dest else merge_sparse_loop sparse dest 0)"

declare valid_loop.simps [simp del] histo_loop.simps [simp del] to_dense_loop.simps [simp del]
  get_loop.simps [simp del] merge_sparse_loop.simps [simp del]

section \<open>What the loops compute\<close>

lemma expand_step:
  assumes "expand s = Some xs" and "s \<noteq> []"
  obtains op c ys where "decode_sparse_op s = Some (op, c)" "expand (drop c s) = Some ys"
    "xs = replicate (op_len op) (op_value op) @ ys"
  using assms by (subst (asm) expand.simps) (auto split: option.splits)

lemma expand_induct [consumes 1, case_names Nil Cons]:
  assumes "expand s = Some xs"
    and "P [] []"
    and "\<And>s op c ys. s \<noteq> [] \<Longrightarrow> decode_sparse_op s = Some (op, c) \<Longrightarrow> expand (drop c s) = Some ys \<Longrightarrow> P (drop c s) ys
      \<Longrightarrow> P s (replicate (op_len op) (op_value op) @ ys)"
  shows "P s xs"
  using assms(1)
proof (induction "length s" arbitrary: s xs rule: less_induct)
  case less
  show ?case
  proof (cases "s = []")
    case True
    then show ?thesis using less.prems assms(2) by simp
  next
    case False
    from expand_step [OF less.prems False] obtain op c ys where
      *: "decode_sparse_op s = Some (op, c)" "expand (drop c s) = Some ys" "xs = replicate (op_len op) (op_value op) @ ys" .
    then show ?thesis using less.hyps [OF decode_drop [OF *(1)] *(2)] assms(3) [OF False *(1,2)] by simp
  qed
qed

lemma expand_values: "expand s = Some xs \<Longrightarrow> r \<in> set xs \<Longrightarrow> r \<le> 32"
  by (induction rule: expand_induct) (auto dest: decode_value(1))

lemma le_32_six: "r \<le> (32 :: u8) \<Longrightarrow> r AND 0x3F = r \<and> unat r < 64"
proof -
  assume "r \<le> 32"
  then have "unat r \<le> 32" by (simp add: word_le_nat_alt)
  then show ?thesis by (simp add: word_unat_eq_iff unat_low_bits)
qed

text \<open>A valid encoding is one that expands to all registers.\<close>

definition sparse_regs :: "bytes \<Rightarrow> u8 list option" where
  "sparse_regs s = (case expand s of Some xs \<Rightarrow> if length xs = HLL_REGISTERS then Some xs else None | None \<Rightarrow> None)"

lemma sparse_regs_Some: "sparse_regs s = Some xs \<longleftrightarrow> expand s = Some xs \<and> length xs = HLL_REGISTERS"
  by (auto simp: sparse_regs_def split: option.splits if_splits)

lemma valid_loop_iff: "valid_loop s n \<longleftrightarrow> (\<exists>xs. expand s = Some xs \<and> n + length xs = HLL_REGISTERS)"
proof (induction s n rule: valid_loop.induct)
  case (1 s n)
  show ?case
  proof (cases "s = []")
    case True
    then show ?thesis by (simp add: valid_loop.simps)
  next
    case False
    show ?thesis
    proof (cases "decode_sparse_op s")
      case None
      then show ?thesis using False by (subst valid_loop.simps, subst expand.simps) simp
    next
      case (Some r)
      obtain op c where r: "r = (op, c)" by (cases r)
      then show ?thesis
        using "1.IH" [OF False Some r [symmetric]] Some False
        by (subst valid_loop.simps, subst expand.simps) (auto simp: add.assoc)
    qed
  qed
qed

lemma hll_sparse_is_valid_iff: "hll_sparse_is_valid s \<longleftrightarrow> sparse_regs s \<noteq> None"
  by (auto simp: hll_sparse_is_valid_def valid_loop_iff sparse_regs_def split: option.splits)

lemma histo_replicate: "v < length h \<Longrightarrow> foldl histo_inc h (replicate n v) = h[v := h ! v + n]"
  by (induction n arbitrary: h) (auto simp: histo_inc_def)

lemma histo_loop_eq:
  "expand s = Some xs \<Longrightarrow> n + length xs = HLL_REGISTERS \<Longrightarrow> length h = 64 \<Longrightarrow>
    histo_loop s h n = Inr (foldl histo_inc h (map unat xs))"
proof (induction arbitrary: h n rule: expand_induct)
  case Nil
  then show ?case by (simp add: histo_loop.simps)
next
  case (Cons s op c ys)
  have "unat (op_value op) < 64" using decode_value(1) [OF Cons(2)] le_32_six by blast
  then show ?case
    using Cons.IH [of "n + op_len op"] Cons.prems Cons.hyps
    by (subst histo_loop.simps) (simp add: Let_def histo_replicate)
qed

lemma get_loop_eq:
  "expand s = Some xs \<Longrightarrow> n \<le> i \<Longrightarrow> i < n + length xs \<Longrightarrow> get_loop s i n = Inr (xs ! (i - n))"
proof (induction arbitrary: n rule: expand_induct)
  case (Cons s op c ys)
  then show ?case
    by (subst get_loop.simps) (auto simp: nth_append)
qed simp

text \<open>Writing a run of registers.\<close>

lemma write_run:
  assumes len: "length d = 3 * n" and v: "v AND 0x3F = v"
  shows "b \<le> 4 * n \<Longrightarrow> length (foldl (\<lambda>d i. hll_dense_set_register i v d) d [a..<b]) = 3 * n
    \<and> (\<forall>i<4 * n. unpack (foldl (\<lambda>d i. hll_dense_set_register i v d) d [a..<b]) ! i
         = (if a \<le> i \<and> i < b then v else unpack d ! i))"
proof (induction b)
  case (Suc b)
  show ?case
  proof (cases "a \<le> b")
    case True
    let ?d = "foldl (\<lambda>d i. hll_dense_set_register i v d) d [a..<b]"
    have d: "length ?d = 3 * n" "b < 4 * n" using Suc by simp_all
    then show ?thesis
      using Suc set_register_unpack [OF d, of v] True v by (auto simp: nth_list_update)
  qed (use len in auto)
qed (use len in simp)

lemma max_run:
  assumes len: "length d = 3 * n" and v: "v AND 0x3F = v"
  shows "b \<le> 4 * n \<Longrightarrow>
    length (foldl (\<lambda>d i. if v > hll_dense_get_register d i then hll_dense_set_register i v d else d) d [a..<b]) = 3 * n
    \<and> (\<forall>i<4 * n. unpack (foldl (\<lambda>d i. if v > hll_dense_get_register d i then hll_dense_set_register i v d else d) d [a..<b]) ! i
         = (if a \<le> i \<and> i < b then max (unpack d ! i) v else unpack d ! i))"
proof (induction b)
  case (Suc b)
  show ?case
  proof (cases "a \<le> b")
    case True
    let ?d = "foldl (\<lambda>d i. if v > hll_dense_get_register d i then hll_dense_set_register i v d else d) d [a..<b]"
    have d: "length ?d = 3 * n" "b < 4 * n" using Suc by simp_all
    then show ?thesis
      using Suc set_register_unpack [OF d, of v] get_register_unpack [OF d] True v
      by (auto simp: nth_list_update max_def not_less less_Suc_eq intro: order_antisym)
  qed (use len in auto)
qed (use len in simp)

lemma to_dense_loop_eq:
  "expand s = Some xs \<Longrightarrow> length d = HLL_DENSE_SIZE \<Longrightarrow> n + length xs = HLL_REGISTERS \<Longrightarrow>
    \<forall>i<length xs. unpack d ! (n + i) = 0 \<Longrightarrow>
    \<exists>d'. to_dense_loop s d n = Inr d' \<and> length d' = HLL_DENSE_SIZE
      \<and> (\<forall>i<HLL_REGISTERS. unpack d' ! i = (if n \<le> i then xs ! (i - n) else unpack d ! i))"
proof (induction arbitrary: d n rule: expand_induct)
  case Nil
  then show ?case by (simp add: to_dense_loop.simps)
next
  case (Cons s op c ys)
  let ?v = "op_value op" and ?l = "op_len op"
  let ?d = "if ?v > 0 then foldl (\<lambda>d i. hll_dense_set_register i ?v d) d [n..<min (n + ?l) HLL_REGISTERS] else d"
  have six: "?v AND 0x3F = ?v" using decode_value(1) [OF Cons(2)] le_32_six by blast
  have b: "min (n + ?l) HLL_REGISTERS = n + ?l" "n + ?l \<le> 4 * 4096" "length d = 3 * 4096"
    using Cons.prems by (simp_all add: hll_consts)
  have d: "length ?d = HLL_DENSE_SIZE"
    "i < HLL_REGISTERS \<Longrightarrow> unpack ?d ! i = (if n \<le> i \<and> i < n + ?l then ?v else unpack d ! i)" for i
  proof -
    show "length ?d = HLL_DENSE_SIZE"
      using write_run [OF b(3) six b(2), of n] Cons.prems(1) unfolding b(1) by (simp add: hll_consts)
    assume i: "i < HLL_REGISTERS"
    show "unpack ?d ! i = (if n \<le> i \<and> i < n + ?l then ?v else unpack d ! i)"
    proof (cases "?v > 0")
      case True
      then show ?thesis using write_run [OF b(3) six b(2), of n] i unfolding b(1) by (simp add: hll_consts)
    next
      case False
      then have "?v = 0" by (simp add: word_gt_0)
      moreover have "unpack d ! i = 0" if "n \<le> i" "i < n + ?l"
        using Cons.prems(3) that spec [OF Cons.prems(3), of "i - n"] by simp
      ultimately show ?thesis using False by simp
    qed
  qed
  have "\<forall>i<length ys. unpack ?d ! (n + ?l + i) = 0"
  proof (intro allI impI)
    fix i
    assume i: "i < length ys"
    then have "n + ?l + i < HLL_REGISTERS" using Cons.prems(2) by simp
    then show "unpack ?d ! (n + ?l + i) = 0"
      using d(2) [of "n + ?l + i"] spec [OF Cons.prems(3), of "?l + i"] i by (simp add: add.assoc)
  qed
  from Cons.IH [OF d(1) _ this] Cons.prems(2) obtain d' where
    d': "to_dense_loop (drop c s) ?d (n + ?l) = Inr d'" "length d' = HLL_DENSE_SIZE"
    "\<forall>i<HLL_REGISTERS. unpack d' ! i = (if n + ?l \<le> i then ys ! (i - (n + ?l)) else unpack ?d ! i)"
    by (auto simp: add.assoc)
  have "to_dense_loop s d n = Inr d'"
    using Cons.hyps d'(1) by (subst to_dense_loop.simps) (simp add: Let_def)
  moreover have "unpack d' ! i = (if n \<le> i then (replicate ?l ?v @ ys) ! (i - n) else unpack d ! i)"
    if "i < HLL_REGISTERS" for i
    using that d'(3) d(2) [OF that] by (auto simp: nth_append)
  ultimately show ?case using d'(2) by blast
qed

lemma merge_sparse_loop_eq:
  "expand s = Some xs \<Longrightarrow> length d = HLL_DENSE_SIZE \<Longrightarrow> n + length xs \<le> HLL_REGISTERS \<Longrightarrow>
    length (merge_sparse_loop s d n) = HLL_DENSE_SIZE
    \<and> (\<forall>i<HLL_REGISTERS. unpack (merge_sparse_loop s d n) ! i
         = (if n \<le> i \<and> i < n + length xs then max (unpack d ! i) (xs ! (i - n)) else unpack d ! i))"
proof (induction arbitrary: d n rule: expand_induct)
  case Nil
  then show ?case by (auto simp: merge_sparse_loop.simps)
next
  case (Cons s op c ys)
  let ?v = "op_value op" and ?l = "op_len op"
  let ?d = "if ?v > 0 then foldl (\<lambda>d i. if ?v > hll_dense_get_register d i then hll_dense_set_register i ?v d else d)
      d [n..<min (n + ?l) HLL_REGISTERS] else d"
  have six: "?v AND 0x3F = ?v" using decode_value(1) [OF Cons(2)] le_32_six by blast
  have b: "min (n + ?l) HLL_REGISTERS = n + ?l" "n + ?l \<le> 4 * 4096" "length d = 3 * 4096"
    using Cons.prems by (simp_all add: hll_consts)
  have d: "length ?d = HLL_DENSE_SIZE"
    "i < HLL_REGISTERS \<Longrightarrow> unpack ?d ! i = (if n \<le> i \<and> i < n + ?l then max (unpack d ! i) ?v else unpack d ! i)" for i
  proof -
    show "length ?d = HLL_DENSE_SIZE"
      using max_run [OF b(3) six b(2), of n] Cons.prems(1) unfolding b(1) by (simp add: hll_consts)
    assume i: "i < HLL_REGISTERS"
    show "unpack ?d ! i = (if n \<le> i \<and> i < n + ?l then max (unpack d ! i) ?v else unpack d ! i)"
    proof (cases "?v > 0")
      case True
      then show ?thesis using max_run [OF b(3) six b(2), of n] i unfolding b(1) by (simp add: hll_consts)
    next
      case False
      then have "?v = 0" by (simp add: word_gt_0)
      then show ?thesis using False by (simp add: max_zero_u8)
    qed
  qed
  have "n + ?l + length ys \<le> HLL_REGISTERS" using Cons.prems(2) by simp
  note ih = Cons.IH [OF d(1) this]
  have "merge_sparse_loop s d n = merge_sparse_loop (drop c s) ?d (n + ?l)"
    using Cons.hyps by (subst merge_sparse_loop.simps) (simp add: Let_def)
  moreover define D where "D = ?d"
  ultimately have "merge_sparse_loop s d n = merge_sparse_loop (drop c s) D (n + ?l)" by simp
  then show ?case using ih d(2) unfolding D_def [symmetric] by (simp add: nth_append add.assoc)
qed

lemma to_dense_correct:
  assumes "sparse_regs s = Some xs" and "length dense = HLL_DENSE_SIZE"
  obtains d where "hll_sparse_to_dense s dense = Inr d" "length d = HLL_DENSE_SIZE" "unpack d = xs"
proof -
  have x: "expand s = Some xs" "length xs = HLL_REGISTERS" using assms(1) by (simp_all add: sparse_regs_Some)
  have z: "unpack (replicate (3 * n) 0) = replicate (4 * n) 0" for n
  proof (induction n)
    case (Suc n)
    have "replicate (3 * Suc n) 0 = 0 # 0 # 0 # replicate (3 * n) (0 :: u8)" by (simp add: numeral_eq_Suc)
    moreover have "replicate (4 * Suc n) 0 = [0, 0, 0, 0] @ replicate (4 * n) (0 :: u8)" by (simp add: numeral_eq_Suc)
    ultimately show ?case using Suc by (simp add: regs4_zero)
  qed simp
  let ?z = "replicate HLL_DENSE_SIZE (0 :: u8)"
  have "unpack ?z = replicate HLL_REGISTERS 0" using z [of 4096] by (simp add: hll_consts)
  then have "\<forall>i<length xs. unpack ?z ! (0 + i) = 0" using x(2) by simp
  from to_dense_loop_eq [OF x(1) _ _ this] x(2) obtain d where
    d: "to_dense_loop s ?z 0 = Inr d" "length d = HLL_DENSE_SIZE" "\<forall>i<HLL_REGISTERS. unpack d ! i = xs ! i"
    by auto
  have "unpack d = xs"
    using d(2,3) x(2) by (intro nth_equalityI) (simp_all add: hll_consts)
  then show ?thesis using that d assms(2) by (simp add: hll_sparse_to_dense_def)
qed

section \<open>Updating a register\<close>

definition emit_run :: "u8 \<Rightarrow> nat \<Rightarrow> bytes \<Rightarrow> bytes" where
  "emit_run val len out =
     (if len = 0 then out else if val = 0 then encode_sparse_zero len out else encode_sparse_val val len out)"

text \<open>The open run and the bytes written so far.\<close>

type_synonym run_state = "u8 \<times> nat \<times> bytes"

definition push_run :: "u8 \<Rightarrow> nat \<Rightarrow> run_state \<Rightarrow> run_state" where
  "push_run v l = (\<lambda>(last_val, last_len, out).
     if l = 0 then (last_val, last_len, out)
     else if last_len = 0 then (v, l, out)
     else if last_val = v then (last_val, last_len + l, out)
     else (v, l, emit_run last_val last_len out))"

function replay :: "bytes \<Rightarrow> nat \<Rightarrow> nat \<Rightarrow> run_state \<Rightarrow> error + run_state" where
  "replay sparse offset pre_offset st =
     (if pre_offset < offset then
        (case decode_sparse_op (drop pre_offset sparse) of
           None \<Rightarrow> Inl (InvalidData ''invalid sparse opcode'')
         | Some (pre_op, pre_consumed) \<Rightarrow>
             replay sparse offset (pre_offset + pre_consumed) (push_run (op_value pre_op) (op_len pre_op) st))
      else Inr st)"
  by pat_completeness auto
termination by (relation "measure (\<lambda>(_, offset, pre_offset, _). offset - pre_offset)") (auto dest: decode_consumed)

function post_loop :: "bytes \<Rightarrow> nat \<Rightarrow> run_state \<Rightarrow> nat \<Rightarrow> error + run_state \<times> nat" where
  "post_loop sparse post_offset st total_reg =
     (if post_offset < length sparse then
        (case decode_sparse_op (drop post_offset sparse) of
           None \<Rightarrow> Inl (InvalidData ''invalid sparse opcode'')
         | Some (post_op, post_consumed) \<Rightarrow>
             post_loop sparse (post_offset + post_consumed) (push_run (op_value post_op) (op_len post_op) st)
               (total_reg + op_len post_op))
      else Inr (st, total_reg))"
  by pat_completeness auto
termination by (relation "measure (\<lambda>(sparse, post_offset, _, _). length sparse - post_offset)") (auto dest: decode_consumed)

text \<open>The run that holds the register is cut in up to three.\<close>

definition split_run :: "u8 \<Rightarrow> nat \<Rightarrow> nat \<Rightarrow> nat \<Rightarrow> u8 \<Rightarrow> run_state \<Rightarrow> run_state" where
  "split_run op_v cur_reg reg_end index val st =
     (let st = (if index > cur_reg then push_run op_v (index - cur_reg) st else st);
          st = push_run val 1 st
      in if reg_end > index + 1 then push_run op_v (reg_end - (index + 1)) st else st)"

function set_scan :: "bytes \<Rightarrow> nat \<Rightarrow> u8 \<Rightarrow> nat \<Rightarrow> nat \<Rightarrow> error + bool \<times> bytes" where
  "set_scan sparse index val offset cur_reg =
     (if offset < length sparse then
        (case decode_sparse_op (drop offset sparse) of
           None \<Rightarrow> Inl (InvalidData ''invalid sparse opcode'')
         | Some (op, consumed) \<Rightarrow>
             let op_v = op_value op; reg_end = cur_reg + op_len op in
             if index < reg_end then
               (if val \<le> op_v then Inr (False, sparse)
                else
                  try_op (replay sparse offset 0 (0, 0, []))
                    (\<lambda>st.
                       try_op (post_loop sparse (offset + consumed) (split_run op_v cur_reg reg_end index val st) reg_end)
                         (\<lambda>((last_val, last_len, out), total_reg).
                            let new_sparse = emit_run last_val last_len out in
                            if total_reg \<noteq> HLL_REGISTERS then Inl (InvalidData ''sparse total registers mismatch'')
                            else if length new_sparse > HLL_SPARSE_MAX_BYTES
                            then Inl (InvalidData ''sparse bytes exceeded limit, promotion required'')
                            else Inr (True, new_sparse))))
             else set_scan sparse index val (offset + consumed) reg_end)
      else Inl (InvalidData ''sparse register index not found''))"
  by pat_completeness auto
termination by (relation "measure (\<lambda>(sparse, _, _, offset, _). length sparse - offset)") (auto dest: decode_consumed)

definition hll_sparse_set_register :: "bytes \<Rightarrow> nat \<Rightarrow> u8 \<Rightarrow> error + bool \<times> bytes" where
  "hll_sparse_set_register sparse index val =
     (if index \<ge> HLL_REGISTERS then Inl (InvalidData ''register index out of range'')
      else if val > HLL_SPARSE_VAL_MAX_VALUE then Inl (InvalidData ''sparse value exceeds 32, promotion required'')
      else set_scan sparse index val 0 0)"

declare replay.simps [simp del] post_loop.simps [simp del] set_scan.simps [simp del]

text \<open>What has been pushed so far.\<close>

definition runs_hold :: "run_state \<Rightarrow> u8 list \<Rightarrow> bool" where
  "runs_hold = (\<lambda>(last_val, last_len, out) xs.
     last_val \<le> 32 \<and> (\<exists>zs. expand out = Some zs \<and> xs = zs @ replicate last_len last_val))"

lemma expand_emit_run: "v \<le> 32 \<Longrightarrow> expand out = Some zs \<Longrightarrow> expand (emit_run v n out) = Some (zs @ replicate n v)"
  using expand_encode_zero [of out zs n] expand_encode_val [of v out zs n] by (simp add: emit_run_def word_gt_0)

lemma runs_hold_emit: "runs_hold (v, n, out) xs \<Longrightarrow> expand (emit_run v n out) = Some xs"
  using expand_emit_run by (auto simp: runs_hold_def)

lemma push_run_holds: "v \<le> 32 \<Longrightarrow> runs_hold st xs \<Longrightarrow> runs_hold (push_run v n st) (xs @ replicate n v)"
  by (cases st) (auto simp: runs_hold_def push_run_def expand_emit_run replicate_add)

lemma runs_hold_start: "runs_hold (0, 0, []) []"
  by (simp add: runs_hold_def)

lemma replay_holds:
  "expand u = Some xs \<Longrightarrow> runs_hold st ys \<Longrightarrow>
    \<exists>st'. replay (a @ u @ t) (length a + length u) (length a) st = Inr st' \<and> runs_hold st' (ys @ xs)"
proof (induction arbitrary: a st ys rule: expand_induct)
  case Nil
  then show ?case by (simp add: replay.simps)
next
  case (Cons s op c zs)
  have c: "0 < c" "c \<le> length s" using decode_consumed [OF Cons(2)] by simp_all
  have s: "(a @ take c s) @ drop c s @ t = a @ s @ t" by simp
  have len: "length (a @ take c s) = length a + c" "length a + c + length (drop c s) = length a + length s"
    using c by simp_all
  have "runs_hold (push_run (op_value op) (op_len op) st) (ys @ replicate (op_len op) (op_value op))"
    using push_run_holds [OF decode_value(1) [OF Cons(2)] Cons.prems] .
  from Cons.IH [OF this, of "a @ take c s", unfolded s len] obtain st' where
    "replay (a @ s @ t) (length a + length s) (length a + c) (push_run (op_value op) (op_len op) st) = Inr st'"
    "runs_hold st' (ys @ replicate (op_len op) (op_value op) @ zs)"
    by auto
  then show ?case
    using decode_append [OF Cons(2), of t] Cons.hyps(1) by (subst replay.simps) simp
qed

lemma post_loop_holds:
  "expand u = Some xs \<Longrightarrow> runs_hold st ys \<Longrightarrow>
    \<exists>st'. post_loop (a @ u) (length a) st n = Inr (st', n + length xs) \<and> runs_hold st' (ys @ xs)"
proof (induction arbitrary: a st ys n rule: expand_induct)
  case Nil
  then show ?case by (simp add: post_loop.simps)
next
  case (Cons s op c zs)
  have c: "0 < c" "c \<le> length s" using decode_consumed [OF Cons(2)] by simp_all
  have s: "(a @ take c s) @ drop c s = a @ s" by simp
  have len: "length (a @ take c s) = length a + c" using c by simp
  have "runs_hold (push_run (op_value op) (op_len op) st) (ys @ replicate (op_len op) (op_value op))"
    using push_run_holds [OF decode_value(1) [OF Cons(2)] Cons.prems] .
  from Cons.IH [OF this, of "a @ take c s" "n + op_len op"] obtain st' where
    "post_loop (a @ s) (length a + c) (push_run (op_value op) (op_len op) st) (n + op_len op) = Inr (st', n + op_len op + length zs)"
    "runs_hold st' (ys @ replicate (op_len op) (op_value op) @ zs)"
    unfolding s len by auto
  then show ?case
    using Cons.hyps(1,2) by (subst post_loop.simps) (simp add: add.assoc)
qed

lemma decode_take: "decode_sparse_op s = Some (op, c) \<Longrightarrow> decode_sparse_op (take c s) = Some (op, c)"
  by (cases s rule: list.exhaust; cases "tl s" rule: list.exhaust)
    (auto simp: decode_sparse_op_def Let_def split: if_splits)

lemma expand_take:
  assumes "decode_sparse_op s = Some (op, c)"
  shows "expand (take c s) = Some (replicate (op_len op) (op_value op))"
  using expand_single [of "take c s" op] decode_take [OF assms] decode_consumed [OF assms] by (simp add: min_def)

text \<open>The update of one run inside the list of registers.\<close>

lemma replicate_update:
  "i < n \<Longrightarrow> (replicate n v)[i := x] = replicate i v @ x # replicate (n - Suc i) v"
  by (induction n arbitrary: i) (auto split: nat.splits)

lemma split_run_holds:
  assumes "v \<le> 32" and "val \<le> 32" and "runs_hold st ys"
  shows "runs_hold (split_run v n m i val st) (ys @ replicate (i - n) v @ val # replicate (m - Suc i) v)"
proof -
  let ?st1 = "if i > n then push_run v (i - n) st else st"
  have h1: "runs_hold ?st1 (ys @ replicate (i - n) v)" using push_run_holds [OF assms(1,3)] assms(3) by simp
  have "runs_hold (push_run val 1 ?st1) ((ys @ replicate (i - n) v) @ [val])"
    using push_run_holds [OF assms(2) h1, of 1] by simp
  from this push_run_holds [OF assms(1) this, of "m - (i + 1)"] show ?thesis
    by (cases "m > i + 1") (simp_all add: split_run_def Let_def)
qed

lemma set_scan_eq:
  assumes big: "val \<le> 32"
  shows "expand u = Some xs \<Longrightarrow> expand a = Some ys \<Longrightarrow> length ys + length xs = HLL_REGISTERS \<Longrightarrow>
    length ys \<le> i \<Longrightarrow> i < HLL_REGISTERS \<Longrightarrow>
    (if val \<le> xs ! (i - length ys) then set_scan (a @ u) i val (length a) (length ys) = Inr (False, a @ u)
     else (\<exists>s'. expand s' = Some ((ys @ xs)[i := val])
       \<and> (length s' \<le> HLL_SPARSE_MAX_BYTES \<and> set_scan (a @ u) i val (length a) (length ys) = Inr (True, s')
          \<or> (\<exists>e. set_scan (a @ u) i val (length a) (length ys) = Inl e))))"
proof (induction arbitrary: a ys rule: expand_induct)
  case (Cons s op c zs)
  let ?v = "op_value op" and ?l = "op_len op" and ?n = "length ys"
  let ?r = "replicate ?l ?v"
  have c: "0 < c" "c \<le> length s" using decode_consumed [OF Cons(2)] by simp_all
  have v: "?v \<le> 32" using decode_value(1) [OF Cons(2)] .
  have s: "(a @ take c s) @ drop c s = a @ s" by simp
  have len: "length (a @ take c s) = length a + c" "length (ys @ ?r) = ?n + ?l" using c by simp_all
  have e: "expand (a @ take c s) = Some (ys @ ?r)"
    using expand_append [OF Cons.prems(1)] expand_take [OF Cons(2)] by simp
  note step = set_scan.simps [of "a @ s" i val "length a" ?n]
  show ?case
  proof (cases "i < ?n + ?l")
    case False
    then have "set_scan (a @ s) i val (length a) ?n = set_scan (a @ s) i val (length a + c) (?n + ?l)"
      unfolding step using Cons.hyps(1,2) by simp
    moreover have "(?r @ zs) ! (i - ?n) = zs ! (i - (?n + ?l))"
    proof -
      have "\<not> i - ?n < ?l" using False by linarith
      then show ?thesis by (simp add: nth_append)
    qed
    ultimately show ?thesis
      using Cons.IH [OF e] False Cons.prems unfolding s len by (simp cong: if_cong)
  next
    case True
    have "i - ?n < ?l" using True Cons.prems(3) Cons.prems(4) by linarith
    then have x: "(?r @ zs) ! (i - ?n) = ?v" by (simp add: nth_append)
    show ?thesis
    proof (cases "val \<le> ?v")
      case le: True
      then show ?thesis unfolding x step using Cons.hyps(1,2) True by simp
    next
      case gt: False
      obtain st where st: "replay (a @ s) (length a) 0 (0, 0, []) = Inr st" "runs_hold st ys"
        using replay_holds [OF Cons.prems(1) runs_hold_start, of "[]" s] by auto
      let ?st3 = "split_run ?v ?n (?n + ?l) i val st"
      let ?w = "ys @ replicate (i - ?n) ?v @ val # replicate (?n + ?l - Suc i) ?v"
      have h3: "runs_hold ?st3 ?w" by (rule split_run_holds [OF v big st(2)])
      obtain lv ll out where p: "post_loop (a @ s) (length a + c) ?st3 (?n + ?l) = Inr ((lv, ll, out), ?n + ?l + length zs)"
        "runs_hold (lv, ll, out) (?w @ zs)"
        using post_loop_holds [OF Cons.hyps(3) h3, of "a @ take c s" "?n + ?l"] unfolding s len(1) by auto
      have "(ys @ ?r @ zs)[i := val] = ?w @ zs"
        using \<open>i - ?n < ?l\<close> Cons.prems(3) replicate_update [of "i - ?n" ?l ?v val] by (simp add: list_update_append)
      moreover have "set_scan (a @ s) i val (length a) ?n
          = (let n = emit_run lv ll out in
             if length n > HLL_SPARSE_MAX_BYTES then Inl (InvalidData ''sparse bytes exceeded limit, promotion required'')
             else Inr (True, n))"
        unfolding step using Cons.hyps(1,2) True gt st(1) p(1) Cons.prems(2) by (simp add: Let_def add.assoc)
      ultimately show ?thesis
        using x gt runs_hold_emit [OF p(2)] by (auto simp: Let_def)
    qed
  qed
qed simp

text \<open>Updating a register either leaves the encoding, or stores the new value, or asks for the packed
  form.\<close>

lemma set_register_correct:
  assumes "sparse_regs s = Some xs" and "i < HLL_REGISTERS"
  shows "val \<le> 32 \<Longrightarrow> val \<le> xs ! i \<Longrightarrow> hll_sparse_set_register s i val = Inr (False, s)"
    and "\<not> val \<le> xs ! i \<Longrightarrow> (\<exists>s'. hll_sparse_set_register s i val = Inr (True, s') \<and> sparse_regs s' = Some (xs[i := val]))
      \<or> (\<exists>e. hll_sparse_set_register s i val = Inl e)"
proof -
  have x: "expand s = Some xs" "length xs = HLL_REGISTERS" using assms(1) by (simp_all add: sparse_regs_Some)
  show "hll_sparse_set_register s i val = Inr (False, s)" if "val \<le> 32" "val \<le> xs ! i"
    using set_scan_eq [OF that(1) x(1), of "[]" "[]" i] that x(2) assms(2)
    by (simp add: hll_sparse_set_register_def HLL_SPARSE_VAL_MAX_VALUE_def not_less)
  show "(\<exists>s'. hll_sparse_set_register s i val = Inr (True, s') \<and> sparse_regs s' = Some (xs[i := val]))
      \<or> (\<exists>e. hll_sparse_set_register s i val = Inl e)" if "\<not> val \<le> xs ! i"
  proof (cases "val \<le> 32")
    case True
    then show ?thesis
      using set_scan_eq [OF True x(1), of "[]" "[]" i] that x(2) assms(2)
      by (auto simp: hll_sparse_set_register_def HLL_SPARSE_VAL_MAX_VALUE_def sparse_regs_Some not_less)
  qed (use assms(2) in \<open>simp add: hll_sparse_set_register_def HLL_SPARSE_VAL_MAX_VALUE_def not_le\<close>)
qed

section \<open>Compressing\<close>

function run_len :: "bytes \<Rightarrow> u8 \<Rightarrow> nat \<Rightarrow> nat \<Rightarrow> nat" where
  "run_len dense v i len =
     (if i + len < HLL_REGISTERS \<and> hll_dense_get_register dense (i + len) = v then run_len dense v i (len + 1) else len)"
  by pat_completeness auto
termination by (relation "measure (\<lambda>(_, _, i, len). HLL_REGISTERS - (i + len))") auto

declare run_len.simps [simp del]

lemma run_len_spec:
  "i + len \<le> HLL_REGISTERS \<Longrightarrow> len \<le> run_len d v i len \<and> i + run_len d v i len \<le> HLL_REGISTERS
     \<and> (\<forall>k. len \<le> k \<longrightarrow> k < run_len d v i len \<longrightarrow> hll_dense_get_register d (i + k) = v)"
proof (induction d v i len rule: run_len.induct)
  case (1 d v i len)
  note step = run_len.simps [of d v i len]
  show ?case
  proof (cases "i + len < HLL_REGISTERS \<and> hll_dense_get_register d (i + len) = v")
    case True
    then have ih: "len + 1 \<le> run_len d v i (len + 1)" "i + run_len d v i (len + 1) \<le> HLL_REGISTERS"
      "\<And>k. len + 1 \<le> k \<Longrightarrow> k < run_len d v i (len + 1) \<Longrightarrow> hll_dense_get_register d (i + k) = v"
      using "1.IH" by simp_all
    have "hll_dense_get_register d (i + k) = v" if "len \<le> k" "k < run_len d v i (len + 1)" for k
      using ih(3) [of k] True that by (cases "k = len") simp_all
    then show ?thesis using ih(1,2) True by (simp add: step)
  next
    case False
    have "run_len d v i len = len" unfolding step if_not_P [OF False] by (rule refl)
    with False show ?thesis using "1.prems" by simp
  qed
qed

lemma run_len_ge: "len \<le> run_len d v i len"
proof (induction d v i len rule: run_len.induct)
  case (1 d v i len)
  then show ?case by (subst run_len.simps) auto
qed

function d2s_loop :: "bytes \<Rightarrow> nat \<Rightarrow> bytes \<Rightarrow> bytes option" where
  "d2s_loop dense i sparse =
     (if i < HLL_REGISTERS then
        (let v = hll_dense_get_register dense i in
         if v > HLL_SPARSE_VAL_MAX_VALUE then None
         else
           let len = run_len dense v i 1;
               sparse = (if v = 0 then encode_sparse_zero len sparse else encode_sparse_val v len sparse)
           in if length sparse > HLL_SPARSE_MAX_BYTES then None else d2s_loop dense (i + len) sparse)
      else Some sparse)"
  by pat_completeness auto
termination
proof (relation "measure (\<lambda>(_, i, _). HLL_REGISTERS - i)", goal_cases)
  case (2 dense i sparse v len sparse')
  then show ?case using run_len_ge [of 1 dense v i] by simp
qed simp

declare d2s_loop.simps [simp del]

definition hll_dense_to_sparse :: "bytes \<Rightarrow> bytes option" where
  "hll_dense_to_sparse dense = d2s_loop dense 0 []"

lemma d2s_loop_expand:
  "length d = HLL_DENSE_SIZE \<Longrightarrow> i \<le> HLL_REGISTERS \<Longrightarrow> expand s = Some (take i (unpack d)) \<Longrightarrow>
    d2s_loop d i s = Some t \<Longrightarrow> expand t = Some (unpack d)"
proof (induction d i s rule: d2s_loop.induct)
  case (1 d i s)
  note step = d2s_loop.simps [of d i s]
  have u: "length (unpack d) = HLL_REGISTERS" using "1.prems"(1) by (simp add: hll_consts)
  show ?case
  proof (cases "i < HLL_REGISTERS")
    case False
    have "d2s_loop d i s = Some s" unfolding step if_not_P [OF False] by (rule refl)
    then have "s = t" "i = HLL_REGISTERS" using "1.prems"(2,4) False by simp_all
    then show ?thesis using "1.prems"(3) u by simp
  next
    case True
    define v where "v = hll_dense_get_register d i"
    define n where "n = run_len d v i 1"
    define s' where "s' = (if v = 0 then encode_sparse_zero n s else encode_sparse_val v n s)"
    have v: "\<not> v > HLL_SPARSE_VAL_MAX_VALUE" and small: "\<not> length s' > HLL_SPARSE_MAX_BYTES"
      and rest: "d2s_loop d (i + n) s' = Some t"
      using "1.prems"(4) True by (auto simp: step Let_def v_def n_def s'_def split: if_splits)
    have n: "1 \<le> n" "i + n \<le> HLL_REGISTERS" "\<And>k. 1 \<le> k \<Longrightarrow> k < n \<Longrightarrow> hll_dense_get_register d (i + k) = v"
      using run_len_spec [of i 1 d v] True by (auto simp: n_def)
    have reg: "hll_dense_get_register d (i + k) = unpack d ! (i + k)" if "k < n" for k
      using get_register_unpack [of d 4096 "i + k"] "1.prems"(1) n(2) that by (simp add: hll_consts)
    have "take n (drop i (unpack d)) = replicate n v"
    proof (rule nth_equalityI)
      fix k
      assume "k < length (take n (drop i (unpack d)))"
      then have k: "k < n" by simp
      then show "take n (drop i (unpack d)) ! k = replicate n v ! k"
        using reg [OF k] n(3) [of k] u True by (cases "k = 0") (auto simp: v_def)
    qed (use u n(2) in simp)
    then have t: "take (i + n) (unpack d) = take i (unpack d) @ replicate n v" by (simp add: take_add)
    have "expand s' = Some (take (i + n) (unpack d))"
      using expand_encode_zero [OF "1.prems"(3)] expand_encode_val [OF _ _ "1.prems"(3), of v] v
      unfolding t by (auto simp: s'_def HLL_SPARSE_VAL_MAX_VALUE_def word_gt_0)
    with "1.IH" [OF True v_def v n_def s'_def small "1.prems"(1) n(2) _ rest] show ?thesis .
  qed
qed

section \<open>The two encodings agree\<close>

lemma unpack_inject: "length a = 3 * n \<Longrightarrow> length b = 3 * n \<Longrightarrow> unpack a = unpack b \<Longrightarrow> a = b"
proof (induction n arbitrary: a b)
  case (Suc n)
  obtain c a' where a: "a = c @ a'" "length c = 3" "length a' = 3 * n" using Suc.prems(1) by (rule take_drop_Suc)
  obtain e b' where b: "b = e @ b'" "length e = 3" "length b' = 3 * n" using Suc.prems(2) by (rule take_drop_Suc)
  obtain x y z where "c = [x, y, z]" using a(2) by (auto simp: numeral_eq_Suc length_Suc_conv)
  moreover obtain u v w where "e = [u, v, w]" using b(2) by (auto simp: numeral_eq_Suc length_Suc_conv)
  ultimately have *: "a = x # y # z # a'" "length a' = 3 * n" "b = u # v # w # b'" "length b' = 3 * n"
    using a b by simp_all
  then have r: "regs4 [x, y, z] = regs4 [u, v, w]" and "unpack a' = unpack b'" using Suc.prems(3) by simp_all
  then have "a' = b'" using Suc.IH [OF *(2,4)] by blast
  moreover have "[x, y, z] = [u, v, w]" using arg_cong [OF r, of pack4] unfolding pack4_regs4 .
  ultimately show ?case using *(1,3) by blast
qed simp

lemma merge_sparse_dense:
  assumes s: "sparse_regs s = Some xs" and d: "length d = HLL_DENSE_SIZE"
    and n: "length dn = HLL_DENSE_SIZE" "unpack dn = xs"
  shows "hll_merge_sparse_into_dense d s = hll_merge_bytes d dn"
proof -
  have x: "expand s = Some xs" "length xs = HLL_REGISTERS" using s by (simp_all add: sparse_regs_Some)
  then have "s \<noteq> []" by (auto simp: HLL_REGISTERS_def)
  then have m: "hll_merge_sparse_into_dense d s = merge_sparse_loop s d 0"
    using d by (simp add: hll_merge_sparse_into_dense_def)
  have l: "length d = 3 * 4096" "length dn = 3 * 4096" using d n by (simp_all add: hll_consts)
  note sp = merge_sparse_loop_eq [OF x(1) d, of 0]
  note de = hll_merge_bytes_max [OF l]
  have r: "unpack (hll_merge_bytes d dn) ! i = max (unpack d ! i) (xs ! i)" if "i < HLL_REGISTERS" for i
    using de(2) [of i] that l x(2) n(2) de(1) by (simp add: reg_at_def HLL_REGISTERS_def)
  show ?thesis unfolding m
  proof (rule unpack_inject)
    show "length (merge_sparse_loop s d 0) = 3 * 4096" using sp x(2) by (simp add: hll_consts)
    show "length (hll_merge_bytes d dn) = 3 * 4096" by (rule de(1))
    show "unpack (merge_sparse_loop s d 0) = unpack (hll_merge_bytes d dn)"
    proof (rule nth_equalityI)
      show "length (unpack (merge_sparse_loop s d 0)) = length (unpack (hll_merge_bytes d dn))"
        using sp x(2) de(1) by (simp add: hll_consts)
      fix i
      assume "i < length (unpack (merge_sparse_loop s d 0))"
      then have i: "i < HLL_REGISTERS" using sp x(2) by (simp add: hll_consts)
      show "unpack (merge_sparse_loop s d 0) ! i = unpack (hll_merge_bytes d dn) ! i"
        unfolding r [OF i] using sp x(2) i by simp
    qed
  qed
qed

lemma sparse_estimate_dense:
  assumes "sparse_regs s = Some xs" and "length dn = HLL_DENSE_SIZE" "unpack dn = xs"
  shows "hll_sparse_estimate F s = Inr (hll_dense_estimate F dn)"
proof -
  have x: "expand s = Some xs" "length xs = HLL_REGISTERS" using assms(1) by (simp_all add: sparse_regs_Some)
  have "hll_dense_reg_histo dn (replicate 64 0) = foldl histo_inc (replicate 64 0) (map unat xs)"
    using hll_dense_reg_histo_eq [of dn 4096 "replicate 64 0"] assms(2,3) by (simp add: hll_consts)
  then show ?thesis
    using histo_loop_eq [OF x(1), of 0 "replicate 64 0"] x(2) assms(2)
    by (simp add: hll_sparse_estimate_def hll_sparse_reg_histo_def hll_dense_estimate_def Let_def)
qed

text \<open>C31: the run-length encoding of a HyperLogLog and the packed array are interchangeable: a valid
  encoding unpacks to the registers it stands for, compressing them again stands for the same
  registers, both give the same cardinality estimate, the same value of every register, and merging
  either into an array gives the same array.\<close>

theorem hll_encodings_agree:
  assumes "hll_sparse_is_valid s" and "length d = HLL_DENSE_SIZE"
  shows "\<exists>dn. hll_sparse_to_dense s d = Inr dn \<and> length dn = HLL_DENSE_SIZE
     \<and> (case hll_dense_to_sparse dn of Some s' \<Rightarrow> sparse_regs s' = sparse_regs s | None \<Rightarrow> True)
     \<and> hll_sparse_estimate F s = Inr (hll_dense_estimate F dn)
     \<and> (\<forall>i. hll_sparse_get_register s i
          = (if i < HLL_REGISTERS then Inr (hll_dense_get_register dn i)
             else Inl (InvalidData ''register index out of range'')))
     \<and> hll_merge_sparse_into_dense d s = hll_merge_bytes d dn"
proof -
  obtain xs where s: "sparse_regs s = Some xs" using assms(1) by (auto simp: hll_sparse_is_valid_iff)
  then have x: "expand s = Some xs" "length xs = HLL_REGISTERS" by (simp_all add: sparse_regs_Some)
  obtain dn where dn: "hll_sparse_to_dense s d = Inr dn" "length dn = HLL_DENSE_SIZE" "unpack dn = xs"
    using to_dense_correct [OF s assms(2)] by metis
  have l: "length dn = 3 * 4096" using dn(2) by (simp add: hll_consts)
  have "sparse_regs s' = Some xs" if "hll_dense_to_sparse dn = Some s'" for s'
    using d2s_loop_expand [OF dn(2), of 0 "[]" s'] that x(2) dn(3)
    by (simp add: hll_dense_to_sparse_def sparse_regs_Some)
  moreover have "hll_sparse_get_register s i
      = (if i < HLL_REGISTERS then Inr (hll_dense_get_register dn i) else Inl (InvalidData ''register index out of range''))" for i
    using get_loop_eq [OF x(1), of 0 i] get_register_unpack [OF l, of i] x(2) dn(3)
    by (simp add: hll_sparse_get_register_def HLL_REGISTERS_def)
  ultimately show ?thesis
    using s dn merge_sparse_dense [OF s assms(2) dn(2,3)] sparse_estimate_dense [OF s dn(2,3), of F]
    by (intro exI [of _ dn]) (simp split: option.splits)
qed

lemma hll_sparse_new_regs: "sparse_regs hll_sparse_new = Some (replicate HLL_REGISTERS 0)"
  using expand_encode_zero [of "[]" "[]" HLL_REGISTERS] by (simp add: sparse_regs_Some hll_sparse_new_def)

lemma hll_encodings_agree_witness:
  "\<exists>dn. hll_sparse_to_dense hll_sparse_new (replicate HLL_DENSE_SIZE 0) = Inr dn"
  using hll_encodings_agree [of hll_sparse_new "replicate HLL_DENSE_SIZE 0" undefined]
  by (auto simp: hll_sparse_is_valid_iff hll_sparse_new_regs)

end
