(* ===== verification/Hll_Core.thy ===== *)
theory Hll_Core
  imports Hll_Sparse
begin

text \<open>
  \<^verbatim>\<open>embed/src/api/hll/core.rs\<close>: the structure \<open>HyperLogLog\<close> with its two encodings. It
  stands for the list of its 16384 register values (\<open>hl_regs\<close>), and the registers stand for a set
  of hashes (\<open>sketch\<close>): each register holds the largest count of the hashes that fall into it.
\<close>

section \<open>The structure\<close>

datatype hll_encode_type = HllDense | HllSparse

record hyperloglog =
  hl_registers :: bytes
  hl_encode :: hll_encode_type

definition hl_new :: hyperloglog where
  "hl_new = \<lparr>hl_registers = replicate HLL_DENSE_SIZE 0, hl_encode = HllDense\<rparr>"

definition hl_new_sparse :: hyperloglog where
  "hl_new_sparse = \<lparr>hl_registers = hll_sparse_new, hl_encode = HllSparse\<rparr>"

definition hl_from_bytes :: "bytes \<Rightarrow> hyperloglog" where
  "hl_from_bytes bs =
     (if length bs \<ge> HLL_DENSE_SIZE then \<lparr>hl_registers = take HLL_DENSE_SIZE bs, hl_encode = HllDense\<rparr>
      else if hll_sparse_is_valid bs then \<lparr>hl_registers = bs, hl_encode = HllSparse\<rparr>
      else
        let copy_len = min (length bs) HLL_DENSE_SIZE
        in \<lparr>hl_registers = take copy_len bs @ replicate (HLL_DENSE_SIZE - copy_len) 0, hl_encode = HllDense\<rparr>)"

definition hl_from_sparse_bytes :: "bytes \<Rightarrow> error + hyperloglog" where
  "hl_from_sparse_bytes bs =
     (if \<not> hll_sparse_is_valid bs then Inl (InvalidData ''invalid sparse hll payload'')
      else Inr \<lparr>hl_registers = bs, hl_encode = HllSparse\<rparr>)"

definition pad_dense :: "bytes \<Rightarrow> bytes" where
  "pad_dense registers =
     (if length registers < HLL_DENSE_SIZE then registers @ replicate (HLL_DENSE_SIZE - length registers) 0 else registers)"

text \<open>Promotion returns its error and leaves the structure as it was.\<close>

definition promote_to_dense :: "hyperloglog \<Rightarrow> (error + unit) \<times> hyperloglog" where
  "promote_to_dense h =
     (if hl_encode h = HllDense then (Inr (), h\<lparr>hl_registers := pad_dense (hl_registers h)\<rparr>)
      else case hll_sparse_to_dense (hl_registers h) (replicate HLL_DENSE_SIZE 0) of
          Inl e \<Rightarrow> (Inl e, h)
        | Inr dense_buf \<Rightarrow> (Inr (), \<lparr>hl_registers = dense_buf, hl_encode = HllDense\<rparr>))"

definition hl_get_register :: "hyperloglog \<Rightarrow> nat \<Rightarrow> u8" where
  "hl_get_register h index =
     (case hl_encode h of
        HllDense \<Rightarrow> hll_dense_get_register (hl_registers h) index
      | HllSparse \<Rightarrow> (case hll_sparse_get_register (hl_registers h) index of Inr v \<Rightarrow> v | Inl _ \<Rightarrow> 0))"

definition hl_set_register :: "nat \<Rightarrow> u8 \<Rightarrow> hyperloglog \<Rightarrow> hyperloglog" where
  "hl_set_register index val h =
     (if index \<ge> HLL_REGISTERS then h
      else case hl_encode h of
          HllDense \<Rightarrow> h\<lparr>hl_registers := hll_dense_set_register index val (pad_dense (hl_registers h))\<rparr>
        | HllSparse \<Rightarrow>
            (case hll_sparse_set_register (hl_registers h) index val of
               Inr (_, regs) \<Rightarrow> h\<lparr>hl_registers := regs\<rparr>
             | Inl _ \<Rightarrow>
                 (case promote_to_dense h of
                    (Inr _, h) \<Rightarrow> h\<lparr>hl_registers := hll_dense_set_register index val (hl_registers h)\<rparr>
                  | (Inl _, h) \<Rightarrow> h)))"

text \<open>Raising a register of the packed array.\<close>

definition raise_register :: "nat \<Rightarrow> u8 \<Rightarrow> bytes \<Rightarrow> bool \<times> bytes" where
  "raise_register idx count regs =
     (let old = hll_dense_get_register regs idx
      in if count > old then (True, hll_dense_set_register idx count regs) else (False, regs))"

definition hl_add_hash :: "u64 \<Rightarrow> hyperloglog \<Rightarrow> bool \<times> hyperloglog" where
  "hl_add_hash hash h =
     (let (idx, count) = extract_dense_hll_result hash in
      case hl_encode h of
        HllDense \<Rightarrow>
          (let (updated, regs) = raise_register idx count (pad_dense (hl_registers h))
           in (updated, h\<lparr>hl_registers := regs\<rparr>))
      | HllSparse \<Rightarrow>
          (case hll_sparse_set_register (hl_registers h) idx count of
             Inr (updated, regs) \<Rightarrow> (updated, h\<lparr>hl_registers := regs\<rparr>)
           | Inl _ \<Rightarrow>
               (case promote_to_dense h of
                  (Inr _, h) \<Rightarrow>
                    (let (updated, regs) = raise_register idx count (hl_registers h)
                     in (updated, h\<lparr>hl_registers := regs\<rparr>))
                | (Inl _, h) \<Rightarrow> (False, h))))"

text \<open>\<open>rapid_hash\<close> is another crate's: it is an argument.\<close>

definition hl_add :: "(bytes \<Rightarrow> u64) \<Rightarrow> bytes \<Rightarrow> hyperloglog \<Rightarrow> bool \<times> hyperloglog" where
  "hl_add rapid_hash data h = hl_add_hash (rapid_hash data) h"

definition hl_add_murmur :: "bytes \<Rightarrow> hyperloglog \<Rightarrow> bool \<times> hyperloglog" where
  "hl_add_murmur data h = hl_add_hash (hll_murmur_hash_64a data) h"

definition hl_count :: "'f float_ops \<Rightarrow> hyperloglog \<Rightarrow> u64 option" where
  "hl_count F h =
     (case hl_encode h of
        HllDense \<Rightarrow> hll_dense_estimate F (hl_registers h)
      | HllSparse \<Rightarrow>
          (case hll_sparse_estimate F (hl_registers h) of
             Inr c \<Rightarrow> c | Inl _ \<Rightarrow> hll_dense_estimate F (hl_registers h)))"

function empty_loop :: "bytes \<Rightarrow> bool" where
  "empty_loop s =
     (if s \<noteq> [] then
        (case decode_sparse_op s of
           Some (SVal _ _, _) \<Rightarrow> False
         | Some (_, consumed) \<Rightarrow> empty_loop (drop consumed s)
         | None \<Rightarrow> False)
      else True)"
  by pat_completeness auto
termination by (relation "measure length") (auto dest: decode_drop)

declare empty_loop.simps [simp del]

definition hl_is_empty :: "hyperloglog \<Rightarrow> bool" where
  "hl_is_empty h =
     (case hl_encode h of
        HllDense \<Rightarrow> list_all (\<lambda>b. b = 0) (hl_registers h)
      | HllSparse \<Rightarrow> empty_loop (hl_registers h))"

text \<open>Merging a structure into itself returns at once; it would change nothing.\<close>

definition hl_merge :: "hyperloglog \<Rightarrow> hyperloglog \<Rightarrow> hyperloglog" where
  "hl_merge h other =
     (if hl_is_empty other then h
      else if hl_encode h = HllDense \<and> hl_encode other = HllDense then
        h\<lparr>hl_registers := hll_merge_bytes (pad_dense (hl_registers h)) (hl_registers other)\<rparr>
      else
        let h = snd (promote_to_dense h)
        in case hl_encode other of
             HllDense \<Rightarrow> h\<lparr>hl_registers := hll_merge_bytes (hl_registers h) (hl_registers other)\<rparr>
           | HllSparse \<Rightarrow> h\<lparr>hl_registers := hll_merge_sparse_into_dense (hl_registers h) (hl_registers other)\<rparr>)"

definition hl_merge_bytes :: "hyperloglog \<Rightarrow> bytes \<Rightarrow> hyperloglog" where
  "hl_merge_bytes h other =
     (if other = [] then h
      else
        let h = snd (promote_to_dense h)
        in h\<lparr>hl_registers :=
             (if length other \<ge> HLL_DENSE_SIZE then hll_merge_bytes (hl_registers h) other
              else if hll_sparse_is_valid other then hll_merge_sparse_into_dense (hl_registers h) other
              else hll_merge_bytes (hl_registers h) other)\<rparr>)"

definition hl_clear :: "hyperloglog \<Rightarrow> hyperloglog" where
  "hl_clear h =
     (case hl_encode h of
        HllDense \<Rightarrow> h\<lparr>hl_registers := replicate (length (hl_registers h)) 0\<rparr>
      | HllSparse \<Rightarrow> h\<lparr>hl_registers := hll_sparse_new\<rparr>)"

definition hl_to_dense :: "hyperloglog \<Rightarrow> error + bytes" where
  "hl_to_dense h =
     (case hl_encode h of
        HllDense \<Rightarrow> Inr (hl_registers h)
      | HllSparse \<Rightarrow> hll_sparse_to_dense (hl_registers h) (replicate HLL_DENSE_SIZE 0))"

definition hl_to_sparse :: "hyperloglog \<Rightarrow> bytes option" where
  "hl_to_sparse h =
     (case hl_encode h of HllSparse \<Rightarrow> Some (hl_registers h) | HllDense \<Rightarrow> hll_dense_to_sparse (hl_registers h))"

section \<open>The registers\<close>

definition dense_regs :: "bytes \<Rightarrow> u8 list option" where
  "dense_regs bs = (if length bs = HLL_DENSE_SIZE then Some (unpack bs) else None)"

definition enc_regs :: "hll_encode_type \<Rightarrow> bytes \<Rightarrow> u8 list option" where
  "enc_regs enc bs = (case enc of HllDense \<Rightarrow> dense_regs bs | HllSparse \<Rightarrow> sparse_regs bs)"

definition hl_regs :: "hyperloglog \<Rightarrow> u8 list option" where
  "hl_regs h = enc_regs (hl_encode h) (hl_registers h)"

lemma enc_regs_Dense: "enc_regs HllDense bs = Some xs \<longleftrightarrow> length bs = HLL_DENSE_SIZE \<and> unpack bs = xs"
  by (simp add: enc_regs_def dense_regs_def)

lemma enc_regs_Sparse: "enc_regs HllSparse bs = sparse_regs bs"
  by (simp add: enc_regs_def)

lemma enc_regs_length: "enc_regs enc bs = Some xs \<Longrightarrow> length xs = HLL_REGISTERS"
  by (cases enc) (auto simp: enc_regs_Dense enc_regs_Sparse sparse_regs_Some hll_consts)

text \<open>Adding a count to a register: what both encodings do.\<close>

definition bump_reg :: "nat \<times> u8 \<Rightarrow> u8 list \<Rightarrow> u8 list" where
  "bump_reg = (\<lambda>(i, c) xs. xs[i := max (xs ! i) c])"

definition raises :: "nat \<times> u8 \<Rightarrow> u8 list \<Rightarrow> bool" where
  "raises = (\<lambda>(i, c) xs. c > xs ! i)"

lemma bump_reg_stays: "\<not> raises p xs \<Longrightarrow> bump_reg p xs = xs"
  by (cases p) (simp add: bump_reg_def raises_def max_def list_update_id not_less)

lemma bump_reg_length [simp]: "length (bump_reg p xs) = length xs"
  by (cases p) (simp add: bump_reg_def)

lemma pad_dense_id: "length bs = HLL_DENSE_SIZE \<Longrightarrow> pad_dense bs = bs"
  by (simp add: pad_dense_def)

lemma count_six: "extract_dense_hll_result h = (i, c) \<Longrightarrow> c AND 0x3F = c"
proof -
  assume "extract_dense_hll_result h = (i, c)"
  from extract_bounds(3) [OF this] have "unat c mod 64 = unat c" by (simp add: HLL_HASH_BIT_COUNT_def)
  then show ?thesis by (simp add: word_unat_eq_iff unat_low_bits)
qed

lemma raise_register_correct:
  assumes "length bs = HLL_DENSE_SIZE" and "extract_dense_hll_result h = (i, c)"
  shows "fst (raise_register i c bs) = raises (i, c) (unpack bs)"
    and "length (snd (raise_register i c bs)) = HLL_DENSE_SIZE"
    and "unpack (snd (raise_register i c bs)) = bump_reg (i, c) (unpack bs)"
proof -
  have l: "length bs = 3 * 4096" "i < 4 * 4096"
    using assms(1) extract_bounds(1) [OF assms(2)] by (simp_all add: hll_consts)
  note g = get_register_unpack [OF l] and s = set_register_unpack [OF l, of c] and c = count_six [OF assms(2)]
  show "fst (raise_register i c bs) = raises (i, c) (unpack bs)"
    by (simp add: raise_register_def raises_def g Let_def)
  show "length (snd (raise_register i c bs)) = HLL_DENSE_SIZE"
    using s(2) assms(1) by (simp add: raise_register_def Let_def)
  show "unpack (snd (raise_register i c bs)) = bump_reg (i, c) (unpack bs)"
    using s(1) c by (auto simp: raise_register_def bump_reg_def g Let_def max_def list_update_id not_less)
qed

lemma promote_correct:
  assumes "hl_regs h = Some xs"
  shows "\<exists>bs. promote_to_dense h = (Inr (), \<lparr>hl_registers = bs, hl_encode = HllDense\<rparr>)
    \<and> length bs = HLL_DENSE_SIZE \<and> unpack bs = xs"
proof (cases "hl_encode h")
  case HllDense
  then show ?thesis
    using assms by (cases h) (simp add: promote_to_dense_def hl_regs_def enc_regs_Dense pad_dense_id)
next
  case HllSparse
  then have "sparse_regs (hl_registers h) = Some xs" using assms by (simp add: hl_regs_def enc_regs_Sparse)
  then obtain bs where "hll_sparse_to_dense (hl_registers h) (replicate HLL_DENSE_SIZE 0) = Inr bs"
    "length bs = HLL_DENSE_SIZE" "unpack bs = xs"
    using to_dense_correct [of "hl_registers h" xs "replicate HLL_DENSE_SIZE 0"] by auto
  then show ?thesis using HllSparse by (simp add: promote_to_dense_def)
qed

lemma sparse_bump:
  assumes s: "sparse_regs s = Some xs" and i: "i < HLL_REGISTERS" and r: "hll_sparse_set_register s i c = Inr r"
  shows "fst r = raises (i, c) xs" and "sparse_regs (snd r) = Some (bump_reg (i, c) xs)"
proof -
  have "fst r = raises (i, c) xs \<and> sparse_regs (snd r) = Some (bump_reg (i, c) xs)"
  proof (cases "c \<le> xs ! i")
    case True
    have "xs ! i \<in> set xs" using s i by (simp add: sparse_regs_Some)
    then have "xs ! i \<le> 32" using s expand_values by (auto simp: sparse_regs_Some)
    then have "c \<le> 32" using True by simp
    then show ?thesis
      using set_register_correct(1) [OF s i _ True] r s bump_reg_stays [of "(i, c)" xs] True by (auto simp: raises_def)
  next
    case False
    then show ?thesis
      using set_register_correct(2) [OF s i False] r by (auto simp: raises_def bump_reg_def max_def)
  qed
  then show "fst r = raises (i, c) xs" and "sparse_regs (snd r) = Some (bump_reg (i, c) xs)" by simp_all
qed

lemma add_hash_correct:
  assumes "hl_regs h = Some xs"
  shows "fst (hl_add_hash hash h) = raises (extract_dense_hll_result hash) xs"
    and "hl_regs (snd (hl_add_hash hash h)) = Some (bump_reg (extract_dense_hll_result hash) xs)"
proof -
  obtain i c where e: "extract_dense_hll_result hash = (i, c)" by (cases "extract_dense_hll_result hash")
  note bounds = extract_bounds [OF e]
  have "fst (hl_add_hash hash h) = raises (i, c) xs \<and> hl_regs (snd (hl_add_hash hash h)) = Some (bump_reg (i, c) xs)"
  proof (cases "hl_encode h")
    case HllDense
    then have b: "length (hl_registers h) = HLL_DENSE_SIZE" "unpack (hl_registers h) = xs"
      using assms by (simp_all add: hl_regs_def enc_regs_Dense)
    show ?thesis
      using raise_register_correct [OF b(1) e] HllDense b
      by (auto simp: hl_add_hash_def e pad_dense_id hl_regs_def enc_regs_Dense Let_def split: prod.splits)
  next
    case HllSparse
    then have s: "sparse_regs (hl_registers h) = Some xs" using assms by (simp add: hl_regs_def enc_regs_Sparse)
    obtain bs where p: "promote_to_dense h = (Inr (), \<lparr>hl_registers = bs, hl_encode = HllDense\<rparr>)"
      "length bs = HLL_DENSE_SIZE" "unpack bs = xs" using promote_correct [OF assms] by blast
    show ?thesis
    proof (cases "hll_sparse_set_register (hl_registers h) i c")
      case (Inl err)
      then show ?thesis
        using raise_register_correct [OF p(2) e] p HllSparse
        by (auto simp: hl_add_hash_def e hl_regs_def enc_regs_Dense Let_def split: prod.splits)
    next
      case (Inr r)
      then have "r = (raises (i, c) xs, snd r) \<and> sparse_regs (snd r) = Some (bump_reg (i, c) xs)"
        using sparse_bump [OF s bounds(1) Inr] by (simp add: prod_eq_iff)
      then show ?thesis
        using HllSparse Inr by (cases r) (auto simp: hl_add_hash_def e hl_regs_def enc_regs_Sparse)
    qed
  qed
  then show "fst (hl_add_hash hash h) = raises (extract_dense_hll_result hash) xs"
    and "hl_regs (snd (hl_add_hash hash h)) = Some (bump_reg (extract_dense_hll_result hash) xs)" using e by simp_all
qed

section \<open>Counting, merging and emptiness\<close>

definition histogram :: "u8 list \<Rightarrow> nat list" where
  "histogram xs = map (\<lambda>v. count_list (map unat xs) v) [0..<64]"

lemma enc_six: "enc_regs enc bs = Some xs \<Longrightarrow> r \<in> set xs \<Longrightarrow> r AND 0x3F = r \<and> unat r < 64"
  using expand_values unpack_small
  by (cases enc) (auto simp: enc_regs_Dense enc_regs_Sparse sparse_regs_Some intro: six_bits_less dest: le_32_six)

lemma histogram_fold:
  assumes "\<forall>r\<in>set xs. unat r < 64"
  shows "foldl histo_inc (replicate 64 0) (map unat xs) = histogram xs"
proof (rule nth_equalityI)
  have *: "\<forall>v\<in>set (map unat xs). v < length (replicate 64 (0 :: nat))" using assms by simp
  show len: "length (foldl histo_inc (replicate 64 0) (map unat xs)) = length (histogram xs)"
    using histo_counts [OF *] by (simp add: histogram_def)
  fix v
  assume "v < length (foldl histo_inc (replicate 64 0) (map unat xs))"
  then have v: "0 + v < 64" using histo_counts [OF *] by simp
  then show "foldl histo_inc (replicate 64 0) (map unat xs) ! v = histogram xs ! v"
    using histo_counts [OF *] nth_upt [OF v] by (simp add: histogram_def del: upt_Suc)
qed

lemma estimate_dense:
  assumes "dense_regs bs = Some xs"
  shows "hll_dense_estimate F bs = hll_estimate_from_histo F (histogram xs)"
proof -
  have b: "length bs = HLL_DENSE_SIZE" "unpack bs = xs" using assms by (simp_all add: dense_regs_def split: if_splits)
  have "\<forall>r\<in>set xs. unat r < 64" using enc_six [of HllDense bs xs] assms by (simp add: enc_regs_def)
  then show ?thesis
    using hll_dense_reg_histo_eq [of bs 4096 "replicate 64 0"] histogram_fold [of xs] b
    by (simp add: hll_dense_estimate_def hll_consts Let_def)
qed

lemma estimate_sparse:
  assumes "sparse_regs bs = Some xs"
  shows "hll_sparse_estimate F bs = Inr (hll_estimate_from_histo F (histogram xs))"
proof -
  have x: "expand bs = Some xs" "length xs = HLL_REGISTERS" using assms by (simp_all add: sparse_regs_Some)
  have "\<forall>r\<in>set xs. unat r < 64" using enc_six [of HllSparse bs xs] assms by (simp add: enc_regs_def)
  then show ?thesis
    using histo_loop_eq [OF x(1), of 0 "replicate 64 0"] x(2) histogram_fold [of xs]
    by (simp add: hll_sparse_estimate_def hll_sparse_reg_histo_def)
qed

lemma merge_bytes_correct:
  assumes "length bs = HLL_DENSE_SIZE" and "length cs = HLL_DENSE_SIZE"
  shows "length (hll_merge_bytes bs cs) = HLL_DENSE_SIZE"
    and "unpack (hll_merge_bytes bs cs) = map2 max (unpack bs) (unpack cs)"
proof -
  have l: "length bs = 3 * 4096" "length cs = 3 * 4096" using assms by (simp_all add: hll_consts)
  note m = hll_merge_bytes_max [OF l]
  show "length (hll_merge_bytes bs cs) = HLL_DENSE_SIZE" using m(1) by (simp add: hll_consts)
  show "unpack (hll_merge_bytes bs cs) = map2 max (unpack bs) (unpack cs)"
    using m l by (intro nth_equalityI) (simp_all add: reg_at_def)
qed

lemma merge_enc_correct:
  assumes "length bs = HLL_DENSE_SIZE" and "enc_regs enc cs = Some ys"
  defines "r \<equiv> (case enc of HllDense \<Rightarrow> hll_merge_bytes bs cs | HllSparse \<Rightarrow> hll_merge_sparse_into_dense bs cs)"
  shows "length r = HLL_DENSE_SIZE" and "unpack r = map2 max (unpack bs) ys"
proof -
  have "length r = HLL_DENSE_SIZE \<and> unpack r = map2 max (unpack bs) ys"
  proof (cases enc)
    case HllDense
    then show ?thesis using assms merge_bytes_correct by (simp add: enc_regs_Dense)
  next
    case HllSparse
    then have s: "sparse_regs cs = Some ys" using assms(2) by (simp add: enc_regs_Sparse)
    obtain dn where "length dn = HLL_DENSE_SIZE" "unpack dn = ys" using to_dense_correct [OF s assms(1)] by metis
    then show ?thesis
      using merge_sparse_dense [OF s assms(1)] merge_bytes_correct [OF assms(1)] HllSparse by (simp add: r_def)
  qed
  then show "length r = HLL_DENSE_SIZE" and "unpack r = map2 max (unpack bs) ys" by simp_all
qed

lemma unpack_zero_bytes: "length bs = 3 * n \<Longrightarrow> (\<forall>r\<in>set (unpack bs). r = 0) \<longleftrightarrow> list_all (\<lambda>b. b = 0) bs"
proof (induction n arbitrary: bs)
  case (Suc n)
  obtain c cs where b: "bs = c @ cs" "length c = 3" "length cs = 3 * n" using Suc.prems by (rule take_drop_Suc)
  obtain x y z where c: "c = [x, y, z]" using b(2) by (auto simp: numeral_eq_Suc length_Suc_conv)
  have "(\<forall>r\<in>set (regs4 [x, y, z]). r = 0) \<longleftrightarrow> regs4 [x, y, z] = regs4 [0, 0, 0]"
    by (auto simp: regs4_zero regs4_def)
  also have "\<dots> \<longleftrightarrow> [x, y, z] = [0, 0, 0]" by (metis pack4_regs4)
  finally show ?case using Suc.IH [OF b(3)] b(1) c by auto
qed simp

lemma empty_loop_iff: "expand s = Some xs \<Longrightarrow> empty_loop s \<longleftrightarrow> (\<forall>r\<in>set xs. r = 0)"
proof (induction rule: expand_induct)
  case Nil
  then show ?case by (simp add: empty_loop.simps)
next
  case (Cons s op c ys)
  have "op_value op \<noteq> 0" if "op = SVal v n" for v n
    using Cons.hyps(2) that unat_val [of "drop_bit 2 (s ! 0)"]
    by (auto simp: decode_sparse_op_def Let_def split: if_splits)
  then show ?case
    using Cons decode_value(2) [OF Cons.hyps(2)] by (subst empty_loop.simps) (auto split: hll_sparse_op.splits)
qed

lemma is_empty_iff:
  assumes "hl_regs h = Some xs"
  shows "hl_is_empty h \<longleftrightarrow> xs = replicate HLL_REGISTERS 0"
proof -
  have len: "length xs = HLL_REGISTERS" using assms enc_regs_length by (auto simp: hl_regs_def)
  then have "(\<forall>r\<in>set xs. r = 0) \<longleftrightarrow> xs = replicate HLL_REGISTERS 0" by (metis replicate_eqI in_set_replicate)
  moreover have "hl_is_empty h \<longleftrightarrow> (\<forall>r\<in>set xs. r = 0)"
    using assms unpack_zero_bytes [of "hl_registers h" 4096] empty_loop_iff [of "hl_registers h" xs]
    by (cases "hl_encode h") (auto simp: hl_regs_def enc_regs_Dense enc_regs_Sparse sparse_regs_Some hl_is_empty_def hll_consts)
  ultimately show ?thesis by simp
qed

lemma map2_max_zero: "length xs = n \<Longrightarrow> map2 max xs (replicate n 0) = (xs :: u8 list)"
  by (intro nth_equalityI) (simp_all add: max_zero_u8)

lemma merge_correct:
  assumes h: "hl_regs h = Some xs" and other: "hl_regs k = Some ys"
  shows "hl_regs (hl_merge h k) = Some (map2 max xs ys)"
proof (cases "hl_is_empty k")
  case True
  then have "ys = replicate HLL_REGISTERS 0" using is_empty_iff [OF other] by simp
  moreover have "length xs = HLL_REGISTERS" using h enc_regs_length by (auto simp: hl_regs_def)
  ultimately show ?thesis using h True by (simp add: hl_merge_def map2_max_zero)
next
  case False
  obtain bs where p: "promote_to_dense h = (Inr (), \<lparr>hl_registers = bs, hl_encode = HllDense\<rparr>)"
    "length bs = HLL_DENSE_SIZE" "unpack bs = xs" using promote_correct [OF h] by blast
  have other': "enc_regs (hl_encode k) (hl_registers k) = Some ys" using other by (simp add: hl_regs_def)
  note m = merge_enc_correct [OF p(2) other']
  show ?thesis
  proof (cases "hl_encode h = HllDense \<and> hl_encode k = HllDense")
    case True
    then have "hl_registers h = bs" "pad_dense (hl_registers h) = bs"
      using h p by (auto simp: hl_regs_def enc_regs_Dense pad_dense_id promote_to_dense_def)
    then show ?thesis using True False m p by (simp add: hl_merge_def hl_regs_def enc_regs_Dense)
  next
    case no: False
    have "hl_merge h k = \<lparr>hl_registers = (case hl_encode k of HllDense \<Rightarrow> hll_merge_bytes bs (hl_registers k)
        | HllSparse \<Rightarrow> hll_merge_sparse_into_dense bs (hl_registers k)), hl_encode = HllDense\<rparr>"
      unfolding hl_merge_def if_not_P [OF False] if_not_P [OF no] p(1) by (simp split: hll_encode_type.splits)
    then show ?thesis using m p(3) by (simp add: hl_regs_def enc_regs_Dense)
  qed
qed

section \<open>Sketches of sets\<close>

definition counts_at :: "u64 set \<Rightarrow> nat \<Rightarrow> u8 set" where
  "counts_at H i = {c. \<exists>h\<in>H. extract_dense_hll_result h = (i, c)}"

definition sketch :: "u64 set \<Rightarrow> u8 list" where
  "sketch H = map (\<lambda>i. Max (insert 0 (counts_at H i))) [0..<HLL_REGISTERS]"

lemma length_sketch [simp]: "length (sketch H) = HLL_REGISTERS"
  by (simp add: sketch_def)

lemma sketch_nth: "i < HLL_REGISTERS \<Longrightarrow> sketch H ! i = Max (insert 0 (counts_at H i))"
  using nth_upt [of 0 i HLL_REGISTERS] by (simp add: sketch_def)

lemma counts_at_simps:
  "counts_at {} i = {}" "counts_at (A \<union> B) i = counts_at A i \<union> counts_at B i"
  "counts_at (insert h H) i = (if fst (extract_dense_hll_result h) = i then insert (snd (extract_dense_hll_result h)) (counts_at H i)
     else counts_at H i)"
  by (auto simp: counts_at_def prod_eq_iff)

lemma sketch_empty: "sketch {} = replicate HLL_REGISTERS 0"
  by (intro nth_equalityI) (simp_all add: sketch_nth counts_at_simps)

lemma sketch_insert: "bump_reg (extract_dense_hll_result h) (sketch H) = sketch (insert h H)"
proof -
  obtain i c where e: "extract_dense_hll_result h = (i, c)" by (cases "extract_dense_hll_result h")
  show ?thesis
  proof (intro nth_equalityI)
    fix j
    assume "j < length (bump_reg (extract_dense_hll_result h) (sketch H))"
    then have j: "j < HLL_REGISTERS" by simp
    have m: "Max (insert 0 (insert c (counts_at H i))) = max (Max (insert 0 (counts_at H i))) c"
      unfolding insert_commute [of 0 c] using Max_insert [of "insert 0 (counts_at H i)" c]
      by (simp only: finite insert_not_empty max.commute not_False_eq_True simp_thms)
    show "bump_reg (extract_dense_hll_result h) (sketch H) ! j = sketch (insert h H) ! j"
    proof (cases "i = j")
      case True
      then show ?thesis
        unfolding e sketch_nth [OF j, of "insert h H"] counts_at_simps(3) using j m
        by (simp only: bump_reg_def case_prod_conv nth_list_update_eq length_sketch sketch_nth fst_conv snd_conv refl if_True)
    next
      case False
      then show ?thesis using j e by (simp add: bump_reg_def sketch_nth counts_at_simps)
    qed
  qed simp
qed

lemma sketch_union: "map2 max (sketch A) (sketch B) = sketch (A \<union> B)"
proof (intro nth_equalityI)
  fix j
  assume "j < length (map2 max (sketch A) (sketch B))"
  then have j: "j < HLL_REGISTERS" by simp
  have "Max (insert 0 (counts_at A j \<union> counts_at B j)) = max (Max (insert 0 (counts_at A j))) (Max (insert 0 (counts_at B j)))"
    using Max_Un [of "insert 0 (counts_at A j)" "insert 0 (counts_at B j)"] by simp
  with j show "map2 max (sketch A) (sketch B) ! j = sketch (A \<union> B) ! j"
    by (simp add: sketch_nth counts_at_simps)
qed simp

lemma sketch_bound: "r \<in> set (sketch H) \<Longrightarrow> unat r \<le> HLL_HASH_BIT_COUNT + 1"
proof -
  assume "r \<in> set (sketch H)"
  then obtain i where r: "r = Max (insert 0 (counts_at H i))" unfolding sketch_def by auto
  have "r \<in> insert 0 (counts_at H i)" unfolding r by (rule Max_in) simp_all
  then show ?thesis using extract_bounds(3) by (auto simp: counts_at_def)
qed

lemma raises_sketch: "raises (extract_dense_hll_result h) (sketch H) \<longleftrightarrow> sketch (insert h H) \<noteq> sketch H"
proof -
  obtain i c where e: "extract_dense_hll_result h = (i, c)" by (cases "extract_dense_hll_result h")
  have i: "i < HLL_REGISTERS" using extract_bounds(1) [OF e] .
  have "bump_reg (i, c) (sketch H) ! i = max (sketch H ! i) c" using i by (simp add: bump_reg_def)
  then show ?thesis
    unfolding sketch_insert [symmetric] e using bump_reg_stays [of "(i, c)" "sketch H"]
    by (auto simp: raises_def max_def less_le split: if_splits)
qed

definition hl_add_all :: "u64 list \<Rightarrow> hyperloglog \<Rightarrow> hyperloglog" where
  "hl_add_all hashes h = foldl (\<lambda>h hash. snd (hl_add_hash hash h)) h hashes"

lemma add_all_sketch: "hl_regs h = Some (sketch H) \<Longrightarrow> hl_regs (hl_add_all hs h) = Some (sketch (H \<union> set hs))"
proof (induction hs arbitrary: h H)
  case (Cons a hs)
  then have "hl_regs (snd (hl_add_hash a h)) = Some (sketch (insert a H))"
    using add_hash_correct(2) [OF Cons.prems, of a] by (simp add: sketch_insert)
  then show ?case using Cons.IH [of "snd (hl_add_hash a h)" "insert a H"] by (simp add: hl_add_all_def)
qed (simp add: hl_add_all_def)

lemma hl_new_regs: "hl_regs hl_new = Some (sketch {})" "hl_regs hl_new_sparse = Some (sketch {})"
proof -
  have "list_all (\<lambda>b. b = 0) (replicate HLL_DENSE_SIZE (0 :: u8))" by (simp add: list_all_iff)
  then have "\<forall>r\<in>set (unpack (replicate HLL_DENSE_SIZE 0)). r = 0"
    using unpack_zero_bytes [of "replicate HLL_DENSE_SIZE 0" 4096] by (simp add: hll_consts)
  then have "unpack (replicate HLL_DENSE_SIZE 0) = replicate HLL_REGISTERS 0"
    by (intro replicate_eqI) (simp_all add: hll_consts)
  then show "hl_regs hl_new = Some (sketch {})" by (simp add: hl_regs_def hl_new_def enc_regs_Dense sketch_empty)
  show "hl_regs hl_new_sparse = Some (sketch {})"
    by (simp add: hl_regs_def hl_new_sparse_def enc_regs_Sparse hll_sparse_new_regs sketch_empty)
qed

text \<open>C32: whatever elements are added, in whatever order and in whichever encoding the structure
  starts, every register stays below 52, so the six bits of a register and the 52 histogram entries
  the estimator reads are enough: these entries account for all 16384 registers.\<close>

theorem hll_registers_bounded:
  assumes "h \<in> {hl_new, hl_new_sparse}"
  shows "\<exists>xs. hl_regs (hl_add_all hashes h) = Some xs
     \<and> (\<forall>r\<in>set xs. unat r \<le> HLL_HASH_BIT_COUNT + 1)
     \<and> sum_list (take (HLL_HASH_BIT_COUNT + 2) (histogram xs)) = HLL_REGISTERS
     \<and> list_all (\<lambda>n. n = 0) (drop (HLL_HASH_BIT_COUNT + 2) (histogram xs))"
proof -
  let ?xs = "sketch (set hashes)"
  have regs: "hl_regs (hl_add_all hashes h) = Some ?xs"
    using assms add_all_sketch [of h "{}" hashes] hl_new_regs by auto
  have b: "\<forall>r\<in>set ?xs. unat r \<le> HLL_HASH_BIT_COUNT + 1" using sketch_bound by blast
  have split: "[0..<64] = [0..<HLL_HASH_BIT_COUNT + 2] @ [HLL_HASH_BIT_COUNT + 2..<64]"
    using upt_add_eq_append [of 0 "HLL_HASH_BIT_COUNT + 2" 12] by (simp add: HLL_HASH_BIT_COUNT_def del: upt_Suc)
  have t: "take (HLL_HASH_BIT_COUNT + 2) (histogram ?xs) = map (count_list (map unat ?xs)) [0..<HLL_HASH_BIT_COUNT + 2]"
    and d: "drop (HLL_HASH_BIT_COUNT + 2) (histogram ?xs) = map (count_list (map unat ?xs)) [HLL_HASH_BIT_COUNT + 2..<64]"
    unfolding histogram_def split by (simp_all del: upt_Suc)
  have "sum_list (map (count_list ys) [0..<n]) = length ys" if "\<forall>y\<in>set ys. y < n" for ys :: "nat list" and n
  proof -
    have "sum_list (map (count_list ys) [0..<n]) = (\<Sum>v\<in>{0..<n}. count_list ys v)"
      by (simp add: interv_sum_list_conv_sum_set_nat)
    also have "\<dots> = (\<Sum>v\<in>set ys. count_list ys v)"
      using that by (intro sum.mono_neutral_right) (auto simp: count_list_0_iff)
    finally show ?thesis by (simp add: sum_count_set)
  qed
  from this [of "map unat ?xs" "HLL_HASH_BIT_COUNT + 2"] b
  have "sum_list (take (HLL_HASH_BIT_COUNT + 2) (histogram ?xs)) = HLL_REGISTERS"
    unfolding t by (auto simp: less_Suc_eq_le simp del: upt_Suc)
  moreover have "list_all (\<lambda>n. n = 0) (drop (HLL_HASH_BIT_COUNT + 2) (histogram ?xs))"
    unfolding d list_all_iff using b by (auto simp: count_list_0_iff)
  ultimately show ?thesis using regs b by blast
qed

lemma hll_registers_bounded_witness:
  "\<exists>xs. hl_regs (hl_add_all [1, 2, 1] hl_new_sparse) = Some xs"
  using hll_registers_bounded [of hl_new_sparse "[1, 2, 1]"] by auto

end
