(* ===== verification/Hll_Api.thy ===== *)
theory Hll_Api
  imports Hll_Core Owned
begin

text \<open>
  \<^verbatim>\<open>embed/src/api/hll/meta.rs\<close>, \<^verbatim>\<open>key.rs\<close> and \<^verbatim>\<open>impl.rs\<close>: HyperLogLogs in the store.
  The metadata record carries the encoding of the registers, which are one data entry. A key stands
  for the set of hashes that were added to it (\<open>hll_rep\<close>), as far as a sketch can tell.
\<close>

section \<open>Metadata and keys\<close>

record hll_meta =
  hm_base :: key_meta
  hm_encode :: hll_encode_type

definition hm_new :: "u64 \<Rightarrow> u64 \<Rightarrow> hll_meta" where
  "hm_new expire_at version = \<lparr>hm_base = km_new RHyperLogLog expire_at version 0, hm_encode = HllDense\<rparr>"

definition hm_new_with_version :: "u64 \<Rightarrow> u64 \<Rightarrow> version_state \<Rightarrow> hll_meta \<times> version_state" where
  "hm_new_with_version expire_at ts vs =
     (let (b, vs) = km_new_with_version RHyperLogLog expire_at 0 ts vs
      in (\<lparr>hm_base = b, hm_encode = HllDense\<rparr>, vs))"

definition hm_new_sparse_with_version :: "u64 \<Rightarrow> u64 \<Rightarrow> version_state \<Rightarrow> hll_meta \<times> version_state" where
  "hm_new_sparse_with_version expire_at ts vs =
     (let (b, vs) = km_new_with_version RHyperLogLog expire_at 0 ts vs
      in (\<lparr>hm_base = b, hm_encode = HllSparse\<rparr>, vs))"

fun encode_type_u8 :: "hll_encode_type \<Rightarrow> u8" where
  "encode_type_u8 HllDense = 0"
| "encode_type_u8 HllSparse = 1"

definition encode_type_from :: "u8 \<Rightarrow> hll_encode_type" where
  "encode_type_from b = (if b = 1 then HllSparse else HllDense)"

definition hm_bytes :: "hll_meta \<Rightarrow> bytes" where
  "hm_bytes m = km_encode (hm_base m) @ [encode_type_u8 (hm_encode m)]"

definition hm_kvrocks_bytes :: "hll_meta \<Rightarrow> bytes" where
  "hm_kvrocks_bytes m = km_encode_kvrocks (hm_base m) @ [encode_type_u8 (hm_encode m)]"

definition hm_decode :: "bytes \<Rightarrow> hll_meta option" where
  "hm_decode bs =
     (if length bs < 26 then None
      else case km_decode bs of
          None \<Rightarrow> None
        | Some base \<Rightarrow>
            let enc =
              (if length bs \<ge> 27 \<and> (bs ! 1 = 0 \<or> bs ! 1 = 0x80) \<and> bs ! 0 \<le> 14 then encode_type_from (bs ! 26)
               else if length bs \<ge> 26 then encode_type_from (bs ! 25)
               else HllDense)
            in Some \<lparr>hm_base = base, hm_encode = enc\<rparr>)"

definition hll_meta_ops :: "hll_meta meta_ops" where
  "hll_meta_ops = \<lparr>mo_tag = HllMeta, mo_decode = hm_decode, mo_encode = hm_bytes, mo_base = hm_base\<rparr>"

definition hll_meta_key :: "key_composer \<Rightarrow> bytes \<Rightarrow> bytes" where
  "hll_meta_key kc key = as_bytes (compose_meta_key_stack kc (tag_slice HllMeta) key)"

definition hll_meta_prefix :: "key_composer \<Rightarrow> bytes" where
  "hll_meta_prefix kc = compose_meta_prefix kc (tag_slice HllMeta)"

definition hll_data_key :: "key_composer \<Rightarrow> bytes \<Rightarrow> bytes" where
  "hll_data_key kc key = as_bytes (compose_meta_key_stack kc (tag_slice HllRaw) key)"

section \<open>The commands\<close>

fun pfadd_loop :: "hll_encode_type \<Rightarrow> bytes \<Rightarrow> bool \<Rightarrow> u64 list \<Rightarrow> error + (hll_encode_type \<times> bytes \<times> bool)" where
  "pfadd_loop enc registers updated [] = Inr (enc, registers, updated)"
| "pfadd_loop HllDense registers updated (hash # hashes) =
     (let (reg_idx, count) = extract_dense_hll_result hash;
          (raised, registers) = raise_register reg_idx count registers
      in pfadd_loop HllDense registers (updated \<or> raised) hashes)"
| "pfadd_loop HllSparse registers updated (hash # hashes) =
     (let (reg_idx, count) = extract_dense_hll_result hash in
      case hll_sparse_set_register registers reg_idx count of
        Inr (changed, registers) \<Rightarrow> pfadd_loop HllSparse registers (updated \<or> changed) hashes
      | Inl _ \<Rightarrow>
          try_op (hll_sparse_to_dense registers (replicate HLL_DENSE_SIZE 0))
            (\<lambda>dense_buf.
               let (raised, dense_buf) = raise_register reg_idx count dense_buf
               in pfadd_loop HllDense dense_buf (updated \<or> raised) hashes))"

text \<open>The record found, or a new one; the registers stored with it, or zeros.\<close>

definition meta_or_new :: "u64 \<Rightarrow> 'p wedb \<Rightarrow> hll_meta option \<Rightarrow> hll_meta \<times> bool \<times> 'p wedb" where
  "meta_or_new ts s found =
     (case found of
        Some meta \<Rightarrow> (meta, True, s)
      | None \<Rightarrow> (let (m, vs) = hm_new_with_version 0 ts (w_ver s) in (m, False, s\<lparr>w_ver := vs\<rparr>)))"

definition stored_registers :: "'p engine \<Rightarrow> 'p wedb \<Rightarrow> bytes \<Rightarrow> bool \<Rightarrow> bytes" where
  "stored_registers E s data_k exists_valid =
     (if exists_valid
      then (case e_get E (w_data s) data_k of Some v \<Rightarrow> v | None \<Rightarrow> replicate HLL_DENSE_SIZE 0)
      else replicate HLL_DENSE_SIZE 0)"

text \<open>The packed array PFMERGE starts from.\<close>

definition merge_start :: "hll_encode_type \<Rightarrow> bool \<Rightarrow> bytes \<Rightarrow> bytes" where
  "merge_start enc dest_valid stored =
     pad_dense
       (if dest_valid \<and> enc = HllSparse
        then (case hll_sparse_to_dense stored (replicate HLL_DENSE_SIZE 0) of Inr d \<Rightarrow> d | Inl _ \<Rightarrow> stored)
        else stored)"

definition pfadd_with_hashes ::
    "'p engine \<Rightarrow> key_composer \<Rightarrow> u64 \<Rightarrow> u64 \<Rightarrow> bytes \<Rightarrow> u64 list \<Rightarrow> 'p wedb \<Rightarrow> error + (bool \<times> 'p wedb)" where
  "pfadd_with_hashes E kc now_ms ts key hashes s =
     (let meta_k = hll_meta_key kc key; data_k = hll_data_key kc key in
      try_op (get_meta_checked E hll_meta_ops kc s key meta_k now_ms)
        (\<lambda>found.
           let (meta, exists_valid, s) = meta_or_new ts s found;
               registers = stored_registers E s data_k exists_valid;
               registers =
                 (if hm_encode meta = HllDense \<and> length registers < HLL_DENSE_SIZE then pad_dense registers else registers)
           in try_op (pfadd_loop (hm_encode meta) registers False hashes)
                (\<lambda>(enc, registers, updated).
                   if updated then
                     (let meta = meta\<lparr>hm_encode := enc, hm_base := (hm_base meta)\<lparr>km_size := word_of_nat (length registers)\<rparr>\<rparr>
                      in Inr (True, commit E (insert_meta meta_k (hm_bytes meta) (insert_data data_k registers [])) s))
                   else Inr (False, s))))"

definition pfadd ::
    "(bytes \<Rightarrow> u64) \<Rightarrow> 'p engine \<Rightarrow> key_composer \<Rightarrow> u64 \<Rightarrow> u64 \<Rightarrow> bytes \<Rightarrow> bytes list \<Rightarrow> 'p wedb \<Rightarrow> error + (bool \<times> 'p wedb)" where
  "pfadd rapid_hash E kc now_ms ts key elements s =
     (if elements = [] then Inr (False, s)
      else pfadd_with_hashes E kc now_ms ts key (map rapid_hash elements) s)"

definition pfadd_one ::
    "(bytes \<Rightarrow> u64) \<Rightarrow> 'p engine \<Rightarrow> key_composer \<Rightarrow> u64 \<Rightarrow> u64 \<Rightarrow> bytes \<Rightarrow> bytes \<Rightarrow> 'p wedb \<Rightarrow> error + (bool \<times> 'p wedb)" where
  "pfadd_one rapid_hash E kc now_ms ts key element s = pfadd rapid_hash E kc now_ms ts key [element] s"

definition pfadd_murmur ::
    "'p engine \<Rightarrow> key_composer \<Rightarrow> u64 \<Rightarrow> u64 \<Rightarrow> bytes \<Rightarrow> bytes list \<Rightarrow> 'p wedb \<Rightarrow> error + (bool \<times> 'p wedb)" where
  "pfadd_murmur E kc now_ms ts key elements s =
     (if elements = [] then Inr (False, s)
      else pfadd_with_hashes E kc now_ms ts key (map hll_murmur_hash_64a elements) s)"

definition pfadd_hashes ::
    "'p engine \<Rightarrow> key_composer \<Rightarrow> u64 \<Rightarrow> u64 \<Rightarrow> bytes \<Rightarrow> u64 list \<Rightarrow> 'p wedb \<Rightarrow> error + (bool \<times> 'p wedb)" where
  "pfadd_hashes E kc now_ms ts key hashes s =
     (if hashes = [] then Inr (False, s) else pfadd_with_hashes E kc now_ms ts key hashes s)"

definition merge_hll_source ::
    "'p engine \<Rightarrow> key_composer \<Rightarrow> 'p wedb \<Rightarrow> bytes \<Rightarrow> u64 \<Rightarrow> bytes \<Rightarrow> error + (bool \<times> bytes)" where
  "merge_hll_source E kc s k_bytes now_ms merged =
     try_op (get_meta_checked E hll_meta_ops kc s k_bytes (hll_meta_key kc k_bytes) now_ms)
       (\<lambda>found. case found of
          None \<Rightarrow> Inr (False, merged)
        | Some meta \<Rightarrow>
            (case e_get E (w_data s) (hll_data_key kc k_bytes) of
               None \<Rightarrow> Inr (False, merged)
             | Some reg \<Rightarrow>
                 Inr (True, case hm_encode meta of
                        HllDense \<Rightarrow> hll_merge_bytes merged reg
                      | HllSparse \<Rightarrow> hll_merge_sparse_into_dense merged reg)))"

text \<open>The loop over the source keys: a key seen before is skipped.\<close>

fun merge_sources ::
    "'p engine \<Rightarrow> key_composer \<Rightarrow> 'p wedb \<Rightarrow> u64 \<Rightarrow> bytes set \<Rightarrow> bool \<Rightarrow> bytes \<Rightarrow> bytes list \<Rightarrow> error + (bool \<times> bytes)" where
  "merge_sources E kc s now_ms seen has_any merged [] = Inr (has_any, merged)"
| "merge_sources E kc s now_ms seen has_any merged (k # ks) =
     (if k \<in> seen then merge_sources E kc s now_ms seen has_any merged ks
      else try_op (merge_hll_source E kc s k now_ms merged)
             (\<lambda>(found, merged). merge_sources E kc s now_ms (insert k seen) (has_any \<or> found) merged ks))"

definition pfcount :: "'f float_ops \<Rightarrow> 'p engine \<Rightarrow> key_composer \<Rightarrow> 'p wedb \<Rightarrow> u64 \<Rightarrow> bytes list \<Rightarrow> error + u64 option" where
  "pfcount F E kc s now_ms keys =
     (if keys = [] then Inr (Some 0)
      else if length keys = 1 then
        let k_bytes = keys ! 0 in
        try_op (get_meta_checked E hll_meta_ops kc s k_bytes (hll_meta_key kc k_bytes) now_ms)
          (\<lambda>found. case found of
             None \<Rightarrow> Inr (Some 0)
           | Some meta \<Rightarrow>
               (case e_get E (w_data s) (hll_data_key kc k_bytes) of
                  None \<Rightarrow> Inr (Some 0)
                | Some registers \<Rightarrow>
                    Inr (case hm_encode meta of
                           HllDense \<Rightarrow> hll_dense_estimate F registers
                         | HllSparse \<Rightarrow>
                             (case hll_sparse_estimate F registers of
                                Inr c \<Rightarrow> c | Inl _ \<Rightarrow> hll_dense_estimate F registers))))
      else
        try_op (merge_sources E kc s now_ms {} False (replicate HLL_DENSE_SIZE 0) keys)
          (\<lambda>(has_any, merged). Inr (if \<not> has_any then Some 0 else hll_dense_estimate F merged)))"

definition pfcount_one :: "'f float_ops \<Rightarrow> 'p engine \<Rightarrow> key_composer \<Rightarrow> 'p wedb \<Rightarrow> u64 \<Rightarrow> bytes \<Rightarrow> error + u64 option" where
  "pfcount_one F E kc s now_ms key = pfcount F E kc s now_ms [key]"

definition pfcount_multiple :: "'f float_ops \<Rightarrow> 'p engine \<Rightarrow> key_composer \<Rightarrow> 'p wedb \<Rightarrow> u64 \<Rightarrow> bytes list \<Rightarrow> error + u64 option" where
  "pfcount_multiple F E kc s now_ms keys = pfcount F E kc s now_ms keys"

definition pfmerge ::
    "'p engine \<Rightarrow> key_composer \<Rightarrow> u64 \<Rightarrow> u64 \<Rightarrow> bytes \<Rightarrow> bytes list \<Rightarrow> 'p wedb \<Rightarrow> error + 'p wedb" where
  "pfmerge E kc now_ms ts dest sources s =
     (if sources = [] then Inr s
      else
        let dest_meta_k = hll_meta_key kc dest; dest_data_k = hll_data_key kc dest in
        try_op (get_meta_checked E hll_meta_ops kc s dest dest_meta_k now_ms)
          (\<lambda>found.
             let (dest_meta, dest_valid, s) = meta_or_new ts s found;
                 merged = merge_start (hm_encode dest_meta) dest_valid (stored_registers E s dest_data_k dest_valid)
             in try_op (merge_sources E kc s now_ms {dest} False merged sources)
                  (\<lambda>(_, merged).
                     let dest_meta = dest_meta\<lparr>hm_base := (hm_base dest_meta)\<lparr>km_size := word_of_nat HLL_DENSE_SIZE\<rparr>,
                                               hm_encode := HllDense\<rparr>
                     in Inr (commit E (insert_meta dest_meta_k (hm_bytes dest_meta) (insert_data dest_data_k merged [])) s))))"

section \<open>What a key stands for\<close>

lemma hll_keys [simp]:
  "hll_meta_key kc key = meta_key kc HllMeta key" "hll_data_key kc key = meta_key kc HllRaw key"
  by (simp_all add: hll_meta_key_def hll_data_key_def meta_key_def)

definition hll_wf :: "hll_meta \<Rightarrow> u64 \<Rightarrow> bool" where
  "hll_wf m now \<longleftrightarrow> km_rtype (hm_base m) = RHyperLogLog
     \<and> (km_flags (hm_base m) = 0 \<or> km_flags (hm_base m) = 0x80)
     \<and> \<not> (km_expire_at (hm_base m) > 0 \<and> km_expire_at (hm_base m) \<le> now)"

definition hll_rep :: "'p engine \<Rightarrow> key_composer \<Rightarrow> u64 \<Rightarrow> 'p wedb \<Rightarrow> bytes \<Rightarrow> u64 set option \<Rightarrow> bool" where
  "hll_rep E kc now s key H \<longleftrightarrow>
     live_string (dat E s) kc key now = None \<and> \<not> other_live (met E s) kc key now HllMeta
   \<and> (case live_own hll_meta_ops (met E s) kc key now of
        None \<Rightarrow> H = None
      | Some m \<Rightarrow> hll_wf m now
          \<and> (\<exists>bs hs. dat E s (meta_key kc HllRaw key) = Some bs \<and> H = Some hs
               \<and> enc_regs (hm_encode m) bs = Some (sketch hs)))"

lemma hm_decode_bytes:
  assumes "km_flags (hm_base m) = 0 \<or> km_flags (hm_base m) = 0x80"
  shows "hm_decode (hm_bytes m) = Some m"
proof -
  have "hm_bytes m ! 0 \<le> 14" "hm_bytes m ! 1 = km_flags (hm_base m)" "length (hm_bytes m) = 27"
    "hm_bytes m ! 26 = encode_type_u8 (hm_encode m)"
    by (simp_all add: hm_bytes_def km_encode_def nth_append)
  moreover have "km_decode (hm_bytes m) = Some (hm_base m)" by (simp add: hm_bytes_def)
  moreover have "encode_type_from (encode_type_u8 e) = e" for e by (cases e) (simp_all add: encode_type_from_def)
  ultimately show ?thesis using assms by (simp add: hm_decode_def)
qed

lemma live_own_hll:
  assumes "m (meta_key kc HllMeta key) = Some (hm_bytes x)" and "hll_wf x now"
  shows "live_own hll_meta_ops m kc key now = Some x"
  using assms hm_decode_bytes [of x]
  by (auto simp: live_own_def hll_meta_ops_def hll_wf_def mo_is_expired_def km_is_expired_def rtype_is_emptyable_def)

lemma HllRaw_whole: "HllRaw \<in> set whole_key_tags" "HllMeta \<in> set whole_key_tags" "HllMeta \<in> set composite_meta_tags"
  by (simp_all add: whole_key_tags_def composite_meta_tags_def)

text \<open>The batch that a write of a HyperLogLog commits.\<close>

definition hll_ops :: "key_composer \<Rightarrow> bytes \<Rightarrow> bytes \<Rightarrow> hll_meta \<Rightarrow> batch" where
  "hll_ops kc key bs m = [BInsert PData (meta_key kc HllRaw key) bs, BInsert PMeta (meta_key kc HllMeta key) (hm_bytes m)]"

lemma hll_ops_on_key: "on_key kc key (hll_ops kc key bs m)"
  using owns_meta [OF HllRaw_whole(1), of kc key] owns_meta [OF HllRaw_whole(2), of kc key]
  by (simp add: on_key_def hll_ops_def)

context kv_engine
begin

lemma hll_get:
  assumes "hll_rep E kc now s key H"
  shows "get_meta_checked E hll_meta_ops kc s key (meta_key kc HllMeta key) now
    = Inr (live_own hll_meta_ops (met E s) kc key now)"
  using assms get_meta_checked_spec [of hll_meta_ops kc s key now]
  by (auto simp: hll_rep_def hll_meta_ops_def split: option.splits)

lemma hll_cases:
  assumes "hll_rep E kc now s key H"
  obtains (absent) "H = None" "live_own hll_meta_ops (met E s) kc key now = None"
  | (present) m bs hs where "H = Some hs" "live_own hll_meta_ops (met E s) kc key now = Some m" "hll_wf m now"
      "dat E s (meta_key kc HllRaw key) = Some bs" "enc_regs (hm_encode m) bs = Some (sketch hs)"
  using assms by (auto simp: hll_rep_def split: option.splits)

lemma hll_commit:
  assumes rep: "hll_rep E kc now s key H" and s1: "dat E s1 = dat E s" "met E s1 = met E s"
    and m: "hll_wf m now" and regs: "enc_regs (hm_encode m) bs = Some (sketch hs)"
  shows "hll_rep E kc now (commit E (hll_ops kc key bs m) s1) key (Some hs)"
    and "\<not> owns kc key x \<Longrightarrow> dat E (commit E (hll_ops kc key bs m) s1) x = dat E s x
      \<and> met E (commit E (hll_ops kc key bs m) s1) x = met E s x"
proof -
  let ?s = "commit E (hll_ops kc key bs m) s1"
  have d: "dat E ?s = (dat E s)(meta_key kc HllRaw key \<mapsto> bs)"
    and mt: "met E ?s = (met E s)(meta_key kc HllMeta key \<mapsto> hm_bytes m)"
    by (simp_all add: hll_ops_def s1)
  have "live_string (dat E ?s) kc key now = live_string (dat E s) kc key now"
    unfolding d by (simp add: live_string_def)
  moreover have "other_live (met E ?s) kc key now HllMeta = other_live (met E s) kc key now HllMeta"
    unfolding mt by (auto simp: other_live_def live_meta_def)
  moreover have "live_own hll_meta_ops (met E ?s) kc key now = Some m"
    using live_own_hll [of "met E ?s" kc key m now] m unfolding mt by simp
  ultimately show "hll_rep E kc now ?s key (Some hs)"
    using rep regs m unfolding hll_rep_def by (simp add: hll_ops_def s1)
  show "dat E ?s x = dat E s x \<and> met E ?s x = met E s x" if "\<not> owns kc key x"
    using on_key_frame [OF hll_ops_on_key that] by (simp add: s1)
qed

lemma hll_same_key:
  assumes "hll_rep E kc now s k H" and "same_key E kc k s s'"
  shows "hll_rep E kc now s' k H"
proof -
  have d: "dat E s' (meta_key kc HllRaw k) = dat E s (meta_key kc HllRaw k)"
    using assms(2) owns_meta [OF HllRaw_whole(1)] unfolding same_key_def by blast
  have l: "live_own hll_meta_ops (met E s') kc k now = live_own hll_meta_ops (met E s) kc k now"
    by (rule same_keyD(5) [OF assms(2)]) (simp add: hll_meta_ops_def HllRaw_whole)
  show ?thesis
    using assms(1) unfolding hll_rep_def same_keyD(3,4) [OF assms(2)] l d .
qed

end

sublocale kv_engine \<subseteq> hlls: key_rep E kc "hll_rep E kc now" for kc now
  by unfold_locales (rule hll_same_key)

section \<open>Adding hashes\<close>

lemma dense_bump:
  assumes "enc_regs HllDense bs = Some xs" and "extract_dense_hll_result h = (i, c)"
  shows "fst (raise_register i c bs) = raises (i, c) xs"
    and "enc_regs HllDense (snd (raise_register i c bs)) = Some (bump_reg (i, c) xs)"
  using raise_register_correct [OF _ assms(2), of bs] assms(1) by (auto simp: enc_regs_Dense)

lemma sketch_mono: "A \<subseteq> B \<Longrightarrow> i < HLL_REGISTERS \<Longrightarrow> sketch A ! i \<le> sketch B ! i"
  unfolding sketch_nth by (intro Max_mono) (auto simp: counts_at_def)

lemma sketch_between: "A \<subseteq> B \<Longrightarrow> B \<subseteq> C \<Longrightarrow> sketch C = sketch A \<Longrightarrow> sketch B = sketch A"
  using sketch_mono [of A B] sketch_mono [of B C] by (intro nth_equalityI) (auto intro: order_antisym)

lemma pfadd_loop_sketch:
  "enc_regs enc bs = Some (sketch H) \<Longrightarrow>
    \<exists>enc' bs'. pfadd_loop enc bs u hs = Inr (enc', bs', u \<or> sketch (H \<union> set hs) \<noteq> sketch H)
      \<and> enc_regs enc' bs' = Some (sketch (H \<union> set hs))"
proof (induction hs arbitrary: enc bs u H)
  case (Cons h hs)
  obtain i c where e: "extract_dense_hll_result h = (i, c)" by (cases "extract_dense_hll_result h")
  have i: "i < HLL_REGISTERS" using extract_bounds(1) [OF e] .
  have b: "bump_reg (i, c) (sketch H) = sketch (insert h H)" "raises (i, c) (sketch H) \<longleftrightarrow> sketch (insert h H) \<noteq> sketch H"
    using sketch_insert [of h H] raises_sketch [of h H] e by simp_all
  let ?H = "H \<union> set (h # hs)"
  have changed: "sketch (insert h H) \<noteq> sketch H \<or> sketch ?H \<noteq> sketch (insert h H) \<longleftrightarrow> sketch ?H \<noteq> sketch H"
    using sketch_between [of H "insert h H" ?H] by auto
  have onward: ?case
    if "pfadd_loop enc bs u (h # hs) = pfadd_loop enc1 bs1 (u \<or> sketch (insert h H) \<noteq> sketch H) hs"
      and "enc_regs enc1 bs1 = Some (sketch (insert h H))" for enc1 bs1
    using Cons.IH [OF that(2), of "u \<or> sketch (insert h H) \<noteq> sketch H"] changed unfolding that(1) by auto
  show ?case
  proof (cases enc)
    case HllDense
    then show ?thesis
      using dense_bump [OF Cons.prems [unfolded HllDense] e, unfolded b]
      by (intro onward [of HllDense "snd (raise_register i c bs)"]) (simp_all add: e split_beta)
  next
    case HllSparse
    then have s: "sparse_regs bs = Some (sketch H)" using Cons.prems by (simp add: enc_regs_Sparse)
    show ?thesis
    proof (cases "hll_sparse_set_register bs i c")
      case (Inr r)
      then show ?thesis
        using sparse_bump [OF s i Inr, unfolded b] HllSparse
        by (intro onward [of HllSparse "snd r"]) (simp_all add: e enc_regs_Sparse split_beta)
    next
      case (Inl err)
      obtain d where d: "hll_sparse_to_dense bs (replicate HLL_DENSE_SIZE 0) = Inr d" "enc_regs HllDense d = Some (sketch H)"
        using to_dense_correct [OF s, of "replicate HLL_DENSE_SIZE 0"] by (auto simp: enc_regs_Dense)
      then show ?thesis
        using dense_bump [OF d(2) e, unfolded b] HllSparse Inl
        by (intro onward [of HllDense "snd (raise_register i c d)"]) (simp_all add: e split_beta)
    qed
  qed
qed simp

section \<open>The commands on sets of hashes\<close>

datatype hll_cmd = PfAdd bytes "u64 list" | PfCount "bytes list" | PfMerge bytes "bytes list"
datatype hll_reply = HBool bool | HCount "u64 option" | HUnit | HError error

definition hll_call ::
    "'f float_ops \<Rightarrow> 'p engine \<Rightarrow> key_composer \<Rightarrow> u64 \<Rightarrow> u64 \<Rightarrow> hll_cmd \<Rightarrow> 'p wedb \<Rightarrow> hll_reply \<times> 'p wedb" where
  "hll_call F E kc now ts c s =
     (case c of
        PfAdd k hs \<Rightarrow> (case pfadd_hashes E kc now ts k hs s of Inr (b, s') \<Rightarrow> (HBool b, s') | Inl e \<Rightarrow> (HError e, s))
      | PfCount ks \<Rightarrow> (case pfcount F E kc s now ks of Inr n \<Rightarrow> (HCount n, s) | Inl e \<Rightarrow> (HError e, s))
      | PfMerge d ks \<Rightarrow> (case pfmerge E kc now ts d ks s of Inr s' \<Rightarrow> (HUnit, s') | Inl e \<Rightarrow> (HError e, s)))"

definition hashes_of :: "u64 set option \<Rightarrow> u64 set" where
  "hashes_of H = (case H of Some hs \<Rightarrow> hs | None \<Rightarrow> {})"

lemma hashes_of_simps [simp]: "hashes_of None = {}" "hashes_of (Some hs) = hs"
  by (simp_all add: hashes_of_def)

definition hash_union :: "(bytes \<Rightarrow> u64 set option) \<Rightarrow> bytes list \<Rightarrow> u64 set" where
  "hash_union A ks = (\<Union>k\<in>set ks. hashes_of (A k))"

text \<open>The estimate of the cardinality of a set of hashes.\<close>

definition card_estimate :: "'f float_ops \<Rightarrow> u64 set \<Rightarrow> u64 option" where
  "card_estimate F H = hll_estimate_from_histo F (histogram (sketch H))"

fun hll_spec ::
    "'f float_ops \<Rightarrow> hll_cmd \<Rightarrow> (bytes \<Rightarrow> u64 set option) \<Rightarrow> hll_reply \<Rightarrow> (bytes \<Rightarrow> u64 set option) \<Rightarrow> bool" where
  "hll_spec F (PfAdd k hs) A r A' \<longleftrightarrow>
     r = HBool (sketch (hashes_of (A k) \<union> set hs) \<noteq> sketch (hashes_of (A k)))
   \<and> A' = (if hs = [] then A else A(k \<mapsto> hashes_of (A k) \<union> set hs))"
| "hll_spec F (PfCount ks) A r A' \<longleftrightarrow>
     r = HCount (if \<forall>k\<in>set ks. A k = None then Some 0 else card_estimate F (hash_union A ks)) \<and> A' = A"
| "hll_spec F (PfMerge d ks) A r A' \<longleftrightarrow>
     r = HUnit \<and> A' = (if ks = [] then A else A(d \<mapsto> hashes_of (A d) \<union> hash_union A ks))"

abbreviation hlls_rep :: "'p engine \<Rightarrow> key_composer \<Rightarrow> u64 \<Rightarrow> 'p wedb \<Rightarrow> (bytes \<Rightarrow> u64 set option) \<Rightarrow> bool" where
  "hlls_rep E kc now \<equiv> all_rep (hll_rep E kc now)"

lemma dense_zero: "enc_regs HllDense (replicate HLL_DENSE_SIZE 0) = Some (sketch {})"
  using hl_new_regs(1) by (simp add: hl_regs_def hl_new_def)

lemma sketch_nonempty: "hs \<noteq> [] \<Longrightarrow> sketch (set hs) \<noteq> sketch {}"
proof
  assume "hs \<noteq> []" and eq: "sketch (set hs) = sketch {}"
  then obtain h hs' where "hs = h # hs'" by (cases hs) auto
  then have "sketch {h} = sketch {}" using sketch_between [of "{}" "{h}" "set hs"] eq by simp
  moreover obtain i c where e: "extract_dense_hll_result h = (i, c)" by (cases "extract_dense_hll_result h")
  have "\<not> raises (i, c) (sketch {})" using raises_sketch [of h "{}"] calculation e by simp
  then show False using extract_bounds(1,2) [OF e] by (auto simp: raises_def sketch_empty word_gt_0)
qed

lemma hm_new_wf: "hm_new_with_version 0 ts vs = (m, vs') \<Longrightarrow> hll_wf m now \<and> hm_encode m = HllDense"
  by (auto simp: hm_new_with_version_def km_new_with_version_def km_new_def hll_wf_def split: prod.splits)

lemma hll_wf_update:
  "hll_wf m now \<Longrightarrow> hll_wf (m\<lparr>hm_encode := e, hm_base := (hm_base m)\<lparr>km_size := n\<rparr>\<rparr>) now"
  by (simp add: hll_wf_def)

lemma enc_pad: "enc_regs enc bs = Some xs \<Longrightarrow> (if enc = HllDense \<and> length bs < HLL_DENSE_SIZE then pad_dense bs else bs) = bs"
  by (cases enc) (auto simp: enc_regs_Dense)

lemma w_ver_maps [simp]: "dat E (s\<lparr>w_ver := v\<rparr>) = dat E s" "met E (s\<lparr>w_ver := v\<rparr>) = met E s"
  by (simp_all add: dat_def met_def)

context kv_engine
begin

text \<open>What a command reads of a key: its record, or a new one, and registers that are its sketch.\<close>

lemma hll_open:
  assumes rep: "hll_rep E kc now s key H"
  obtains m s1 bs where
    "meta_or_new ts s (live_own hll_meta_ops (met E s) kc key now) = (m, H \<noteq> None, s1)"
    "dat E s1 = dat E s" "met E s1 = met E s" "hll_wf m now" "enc_regs (hm_encode m) bs = Some (sketch (hashes_of H))"
    "stored_registers E s1 (meta_key kc HllRaw key) (H \<noteq> None) = bs" "H \<noteq> None \<longrightarrow> s1 = s"
    "H = None \<longrightarrow> hm_encode m = HllDense"
  using rep
proof (cases rule: hll_cases)
  case absent
  obtain m vs where m: "hm_new_with_version 0 ts (w_ver s) = (m, vs)" by (cases "hm_new_with_version 0 ts (w_ver s)")
  show ?thesis
    using that [of m "s\<lparr>w_ver := vs\<rparr>" "replicate HLL_DENSE_SIZE 0"] hm_new_wf [OF m] m absent dense_zero
    by (simp add: meta_or_new_def stored_registers_def)
next
  case (present m bs hs)
  then show ?thesis using that [of m s bs] by (simp add: meta_or_new_def stored_registers_def)
qed

lemma pfadd_sim:
  assumes rep: "hll_rep E kc now s k H"
  shows "\<exists>s'. pfadd_hashes E kc now ts k hs s = Inr (sketch (hashes_of H \<union> set hs) \<noteq> sketch (hashes_of H), s')
    \<and> hll_rep E kc now s' k (if hs = [] then H else Some (hashes_of H \<union> set hs))
    \<and> (\<forall>x. \<not> owns kc k x \<longrightarrow> dat E s' x = dat E s x \<and> met E s' x = met E s x)"
proof (cases "hs = []")
  case True
  then show ?thesis using rep by (simp add: pfadd_hashes_def)
next
  case False
  obtain m s1 bs where o: "meta_or_new ts s (live_own hll_meta_ops (met E s) kc k now) = (m, H \<noteq> None, s1)"
    and s1: "dat E s1 = dat E s" "met E s1 = met E s" and m: "hll_wf m now" "enc_regs (hm_encode m) bs = Some (sketch (hashes_of H))"
    and r: "stored_registers E s1 (meta_key kc HllRaw k) (H \<noteq> None) = bs" and same: "H \<noteq> None \<longrightarrow> s1 = s"
    by (rule hll_open [OF rep, of ts])
  let ?new = "sketch (hashes_of H \<union> set hs) \<noteq> sketch (hashes_of H)"
  obtain enc' bs' where l: "pfadd_loop (hm_encode m) bs False hs = Inr (enc', bs', ?new)"
    "enc_regs enc' bs' = Some (sketch (hashes_of H \<union> set hs))"
    using pfadd_loop_sketch [OF m(2), of False hs] by auto
  let ?m = "m\<lparr>hm_encode := enc', hm_base := (hm_base m)\<lparr>km_size := word_of_nat (length bs')\<rparr>\<rparr>"
  have eq: "pfadd_hashes E kc now ts k hs s
      = (if ?new then Inr (True, commit E (hll_ops kc k bs' ?m) s1) else Inr (False, s1))"
    using False unfolding pfadd_hashes_def pfadd_with_hashes_def Let_def hll_keys hll_get [OF rep]
    by (simp only: try_op_simps if_False o case_prod_conv r enc_pad [OF m(2)] l(1)) (simp add: hll_ops_def insert_meta_def insert_data_def)
  show ?thesis
  proof (cases ?new)
    case True
    then show ?thesis
      using hll_commit [OF rep s1 hll_wf_update [OF m(1), where e = enc' and n = "word_of_nat (length bs')"], of bs' "hashes_of H \<union> set hs"]
        l(2) False eq by auto
  next
    case old: False
    then have "H \<noteq> None" using sketch_nonempty [OF False] by (cases H) auto
    then have "s1 = s" using same by simp
    moreover have "hll_rep E kc now s k (Some (hashes_of H \<union> set hs))"
      using rep old \<open>H \<noteq> None\<close> by (auto simp: hll_rep_def split: option.splits)
    ultimately show ?thesis using eq old False by simp
  qed
qed

end

text \<open>Merging the sources into a packed array.\<close>

context kv_engine
begin

lemma merge_hll_source_rep:
  assumes rep: "hll_rep E kc now s k H" and bs: "enc_regs HllDense bs = Some (sketch M)"
  shows "\<exists>bs'. merge_hll_source E kc s k now bs = Inr (H \<noteq> None, bs')
    \<and> enc_regs HllDense bs' = Some (sketch (M \<union> hashes_of H))"
  using rep
proof (cases rule: hll_cases)
  case absent
  then show ?thesis using bs by (simp add: merge_hll_source_def hll_get [OF rep])
next
  case (present m cs hs)
  have "length bs = HLL_DENSE_SIZE" "unpack bs = sketch M" using bs by (simp_all add: enc_regs_Dense)
  with merge_enc_correct [OF this(1) present(5)] show ?thesis
    using present by (simp add: merge_hll_source_def hll_get [OF rep] enc_regs_Dense sketch_union split: hll_encode_type.splits)
qed

lemma merge_sources_rep:
  "\<forall>k\<in>set ks. hll_rep E kc now s k (A k) \<Longrightarrow> enc_regs HllDense bs = Some (sketch M) \<Longrightarrow>
    (\<Union>k\<in>seen. hashes_of (A k)) \<subseteq> M \<Longrightarrow>
    \<exists>bs'. merge_sources E kc s now seen any bs ks = Inr (any \<or> (\<exists>k\<in>set ks - seen. A k \<noteq> None), bs')
      \<and> enc_regs HllDense bs' = Some (sketch (M \<union> hash_union A ks))"
proof (induction ks arbitrary: seen any bs M)
  case (Cons k ks)
  show ?case
  proof (cases "k \<in> seen")
    case True
    then have "hashes_of (A k) \<subseteq> M" using Cons.prems(3) by blast
    then have "M \<union> hash_union A (k # ks) = M \<union> hash_union A ks" by (auto simp: hash_union_def)
    moreover have "set (k # ks) - seen = set ks - seen" using True by auto
    ultimately show ?thesis using Cons.IH [of bs M seen any] Cons.prems True by simp
  next
    case False
    obtain bs' where b: "merge_hll_source E kc s k now bs = Inr (A k \<noteq> None, bs')"
      "enc_regs HllDense bs' = Some (sketch (M \<union> hashes_of (A k)))"
      using merge_hll_source_rep [of kc now s k "A k" bs M] Cons.prems by auto
    have "(\<Union>k\<in>insert k seen. hashes_of (A k)) \<subseteq> M \<union> hashes_of (A k)" using Cons.prems(3) by auto
    from Cons.IH [OF _ b(2) this, of "any \<or> A k \<noteq> None"] Cons.prems(1) obtain cs where
      c: "merge_sources E kc s now (insert k seen) (any \<or> A k \<noteq> None) bs' ks
        = Inr ((any \<or> A k \<noteq> None) \<or> (\<exists>l\<in>set ks - insert k seen. A l \<noteq> None), cs)"
      "enc_regs HllDense cs = Some (sketch ((M \<union> hashes_of (A k)) \<union> hash_union A ks))"
      by auto
    have "((any \<or> A k \<noteq> None) \<or> (\<exists>l\<in>set ks - insert k seen. A l \<noteq> None)) \<longleftrightarrow> any \<or> (\<exists>l\<in>set (k # ks) - seen. A l \<noteq> None)"
      using False by auto
    moreover have "(M \<union> hashes_of (A k)) \<union> hash_union A ks = M \<union> hash_union A (k # ks)" by (auto simp: hash_union_def)
    ultimately show ?thesis using b(1) c False by simp
  qed
qed (simp add: hash_union_def)

lemma pfcount_rep:
  assumes "\<forall>k\<in>set ks. hll_rep E kc now s k (A k)"
  shows "pfcount F E kc s now ks = Inr (if \<forall>k\<in>set ks. A k = None then Some 0 else card_estimate F (hash_union A ks))"
proof (cases "length ks = 1")
  case True
  then obtain k where ks: "ks = [k]" by (auto simp: length_Suc_conv)
  then have rep: "hll_rep E kc now s k (A k)" using assms by simp
  then show ?thesis
  proof (cases rule: hll_cases)
    case absent
    then show ?thesis using ks by (simp add: pfcount_def hll_get [OF rep])
  next
    case (present m bs hs)
    then show ?thesis
      using ks estimate_dense [of bs "sketch hs" F] estimate_sparse [of bs "sketch hs" F]
      by (cases "hm_encode m")
        (simp_all add: pfcount_def hll_get [OF rep] hash_union_def card_estimate_def enc_regs_def)
  qed
next
  case False
  show ?thesis
  proof (cases "ks = []")
    case empty: False
    obtain bs where "merge_sources E kc s now {} False (replicate HLL_DENSE_SIZE 0) ks = Inr (\<exists>k\<in>set ks. A k \<noteq> None, bs)"
      "enc_regs HllDense bs = Some (sketch (hash_union A ks))"
      using merge_sources_rep [OF assms dense_zero, of "{}" False] by auto
    then show ?thesis
      using False empty estimate_dense [of bs "sketch (hash_union A ks)" F]
      by (auto simp: pfcount_def card_estimate_def enc_regs_def)
  qed (simp add: pfcount_def)
qed

lemma pfmerge_sim:
  assumes rep: "hll_rep E kc now s d (A d)" and src: "\<forall>k\<in>set ks. hll_rep E kc now s k (A k)" and ks: "ks \<noteq> []"
  shows "\<exists>s'. pfmerge E kc now ts d ks s = Inr s'
    \<and> hll_rep E kc now s' d (Some (hashes_of (A d) \<union> hash_union A ks))
    \<and> (\<forall>x. \<not> owns kc d x \<longrightarrow> dat E s' x = dat E s x \<and> met E s' x = met E s x)"
proof -
  obtain m s1 bs where o: "meta_or_new ts s (live_own hll_meta_ops (met E s) kc d now) = (m, A d \<noteq> None, s1)"
    and s1: "dat E s1 = dat E s" "met E s1 = met E s" and m: "hll_wf m now" "enc_regs (hm_encode m) bs = Some (sketch (hashes_of (A d)))"
    and r: "stored_registers E s1 (meta_key kc HllRaw d) (A d \<noteq> None) = bs" and new: "A d = None \<longrightarrow> hm_encode m = HllDense"
    by (rule hll_open [OF rep, of ts])
  have start: "enc_regs HllDense (merge_start (hm_encode m) (A d \<noteq> None) bs) = Some (sketch (hashes_of (A d)))"
  proof (cases "hm_encode m")
    case HllDense
    then show ?thesis using m(2) by (simp add: merge_start_def enc_regs_Dense pad_dense_id)
  next
    case HllSparse
    then obtain e where "hll_sparse_to_dense bs (replicate HLL_DENSE_SIZE 0) = Inr e" "enc_regs HllDense e = Some (sketch (hashes_of (A d)))"
      using to_dense_correct [of bs "sketch (hashes_of (A d))" "replicate HLL_DENSE_SIZE 0"] m(2)
      by (auto simp: enc_regs_Sparse enc_regs_Dense)
    then show ?thesis using HllSparse new by (simp add: merge_start_def enc_regs_Dense pad_dense_id)
  qed
  have src1: "\<forall>k\<in>set ks. hll_rep E kc now s1 k (A k)" using src unfolding hll_rep_def s1 .
  obtain b cs where c: "merge_sources E kc s1 now {d} False (merge_start (hm_encode m) (A d \<noteq> None) bs) ks = Inr (b, cs)"
    "enc_regs HllDense cs = Some (sketch (hashes_of (A d) \<union> hash_union A ks))"
    using merge_sources_rep [OF src1 start, of "{d}" False] by auto
  let ?m = "m\<lparr>hm_encode := HllDense, hm_base := (hm_base m)\<lparr>km_size := word_of_nat HLL_DENSE_SIZE\<rparr>\<rparr>"
  have "pfmerge E kc now ts d ks s = Inr (commit E (hll_ops kc d cs ?m) s1)"
    using ks unfolding pfmerge_def Let_def hll_keys hll_get [OF rep]
    by (simp only: try_op_simps if_False o case_prod_conv r c(1))
      (cases m, simp add: hll_ops_def insert_meta_def insert_data_def)
  then show ?thesis
    using hll_commit [OF rep s1 hll_wf_update [OF m(1), where e = HllDense and n = "word_of_nat HLL_DENSE_SIZE"],
      of cs "hashes_of (A d) \<union> hash_union A ks"] c(2) by auto
qed

lemma hll_call_sim:
  assumes rep: "hlls_rep E kc now s A"
    and fits: "case c of PfAdd k hs \<Rightarrow> key_fits k | PfCount ks \<Rightarrow> \<forall>k\<in>set ks. key_fits k | PfMerge d ks \<Rightarrow> \<forall>k\<in>set (d # ks). key_fits k"
  shows "\<exists>r s' A'. hll_call F E kc now ts c s = (r, s') \<and> hll_spec F c A r A' \<and> hlls_rep E kc now s' A'"
proof (cases c)
  case (PfAdd k hs)
  then have k: "key_fits k" using fits by simp
  from pfadd_sim [OF all_repD [OF rep k], of ts hs] obtain s' where
    s': "pfadd_hashes E kc now ts k hs s = Inr (sketch (hashes_of (A k) \<union> set hs) \<noteq> sketch (hashes_of (A k)), s')"
    "hll_rep E kc now s' k (if hs = [] then A k else Some (hashes_of (A k) \<union> set hs))"
    "\<forall>x. \<not> owns kc k x \<longrightarrow> dat E s' x = dat E s x \<and> met E s' x = met E s x" by blast
  have "hlls_rep E kc now s' (if hs = [] then A else A(k \<mapsto> hashes_of (A k) \<union> set hs))"
    using hlls.all_rep_step [OF rep k s'(2,3)] by (cases "hs = []") (simp_all add: fun_upd_triv)
  then show ?thesis using s'(1) PfAdd by (simp add: hll_call_def)
next
  case (PfCount ks)
  then show ?thesis using pfcount_rep [of ks kc now s A F] all_repD [OF rep] fits rep by (simp add: hll_call_def)
next
  case (PfMerge d ks)
  then have k: "key_fits d" "\<forall>k\<in>set ks. hll_rep E kc now s k (A k)" using fits all_repD [OF rep] by simp_all
  show ?thesis
  proof (cases "ks = []")
    case True
    then show ?thesis using PfMerge rep by (simp add: hll_call_def pfmerge_def)
  next
    case False
    from pfmerge_sim [OF all_repD [OF rep k(1)] k(2) False, of ts] obtain s' where
      "pfmerge E kc now ts d ks s = Inr s'" "hll_rep E kc now s' d (Some (hashes_of (A d) \<union> hash_union A ks))"
      "\<forall>x. \<not> owns kc d x \<longrightarrow> dat E s' x = dat E s x \<and> met E s' x = met E s x" by blast
    with hlls.all_rep_step [OF rep k(1)] show ?thesis using PfMerge False by (simp add: hll_call_def)
  qed
qed

end

section \<open>Properties\<close>

definition hll_cmd_fits :: "hll_cmd \<Rightarrow> bool" where
  "hll_cmd_fits c \<longleftrightarrow>
     (case c of PfAdd k hs \<Rightarrow> key_fits k
      | PfCount ks \<Rightarrow> list_all key_fits ks
      | PfMerge d ks \<Rightarrow> list_all key_fits (d # ks))"

text \<open>C30: PFADD, PFCOUNT and PFMERGE behave as operations on sets of hashes: PFADD adds hashes to
  the set of its key and answers whether the sketch of the set changed, PFCOUNT of any keys, given in
  any order and number, answers the estimate for the union of their sets (0 when none exists),
  PFMERGE joins the sets of the sources into the destination. The encoding of the registers, sparse or
  packed, its promotion and the order in which elements arrive make no difference.\<close>

theorem hll_commands_refine:
  assumes "kv_engine E" and "hlls_rep E kc now s A" and "hll_cmd_fits c"
  shows "\<exists>r s' A'. hll_call F E kc now ts c s = (r, s') \<and> hll_spec F c A r A' \<and> hlls_rep E kc now s' A'"
  using kv_engine.hll_call_sim [OF assms(1,2), of c F ts] assms(3)
  by (simp add: hll_cmd_fits_def list_all_iff split: hll_cmd.splits)

lemma empty_hlls_rep: "hlls_rep mem_engine kc0 5 mem_db (\<lambda>_. None)"
  by (auto simp: all_rep_def hll_rep_def live_string_def other_live_def live_meta_def live_own_def)

theorem hll_commands_refine_witness:
  "\<forall>F :: 'f float_ops. \<exists>s'. hll_call F mem_engine kc0 5 1 (PfAdd [97] [7, 9, 7]) mem_db = (HBool True, s')
     \<and> hlls_rep mem_engine kc0 5 s' ((\<lambda>_. None)([97] \<mapsto> {7, 9}))"
proof (rule allI)
  fix F :: "'f float_ops"
  have "hll_cmd_fits (PfAdd [97] [7, 9, 7])" by (simp add: hll_cmd_fits_def)
  from hll_commands_refine [OF kv_engine_mem empty_hlls_rep this, of F 1] obtain r s' A' where
    "hll_call F mem_engine kc0 5 1 (PfAdd [97] [7, 9, 7]) mem_db = (r, s')"
    "hll_spec F (PfAdd [97] [7, 9, 7]) (\<lambda>_. None) r A'" "hlls_rep mem_engine kc0 5 s' A'" by blast
  moreover have "{7, 9, 7 :: u64} = {7, 9}" by auto
  ultimately show "\<exists>s'. hll_call F mem_engine kc0 5 1 (PfAdd [97] [7, 9, 7]) mem_db = (HBool True, s')
     \<and> hlls_rep mem_engine kc0 5 s' ((\<lambda>_. None)([97] \<mapsto> {7, 9}))" using sketch_nonempty [of "[7, 9, 7]"] by auto
qed

text \<open>A record in the format of Kvrocks loses its encoding with the first write: the code keeps the
  flags of that format, and then looks for the encoding at the wrong place.\<close>

lemma kvrocks_hll_lost:
  assumes "m = \<lparr>hm_base = \<lparr>km_rtype = RHyperLogLog, km_flags = 0x8B, km_expire_at = 0, km_version = 1, km_size = 2\<rparr>,
    hm_encode = HllSparse\<rparr>"
  shows "hm_decode (hm_kvrocks_bytes m) = Some m" "hm_decode (hm_bytes m) = Some (m\<lparr>hm_encode := HllDense\<rparr>)"
  unfolding assms by code_simp+

end
