(* ===== verification/Si_Ops.thy ===== *)
theory Si_Ops
  imports Set_Rep
begin

text \<open>
  \<^verbatim>\<open>embed/src/api/sortedint\<close>: sorted sets of 64-bit integers. The set is a plain metadata record with
  the cardinality, and one data key with an empty value per integer, whose subkey is the integer in
  eight big-endian bytes, so that the order of the keys is the order of the integers. This theory has
  the range specifications of \<^verbatim>\<open>opt.rs\<close> and the operations of \<^verbatim>\<open>impl.rs\<close>, \<^verbatim>\<open>iter.rs\<close>,
  \<^verbatim>\<open>range.rs\<close> and \<^verbatim>\<open>rem.rs\<close>.
\<close>

section \<open>Range specifications\<close>

record sortedint_range =
  si_min :: u64
  si_max :: u64
  si_minex :: bool
  si_maxex :: bool
  si_offset :: nat
  si_count :: "nat option"
  si_reversed :: bool

definition si_all :: sortedint_range where
  "si_all = \<lparr>si_min = 0, si_max = U64_MAX, si_minex = False, si_maxex = False,
     si_offset = 0, si_count = None, si_reversed = False\<rparr>"

definition si_with_min :: "u64 \<Rightarrow> bool \<Rightarrow> sortedint_range \<Rightarrow> sortedint_range" where
  "si_with_min mn minex spec = spec\<lparr>si_min := mn, si_minex := minex\<rparr>"

definition si_with_max :: "u64 \<Rightarrow> bool \<Rightarrow> sortedint_range \<Rightarrow> sortedint_range" where
  "si_with_max mx maxex spec = spec\<lparr>si_max := mx, si_maxex := maxex\<rparr>"

definition si_is_empty_range :: "sortedint_range \<Rightarrow> bool" where
  "si_is_empty_range spec =
     (if si_min spec > si_max spec then True
      else
        case (if si_minex spec then (if si_min spec = U64_MAX then None else Some (si_min spec + 1))
              else Some (si_min spec)) of
          None \<Rightarrow> True
        | Some eff_min \<Rightarrow>
            (case (if si_maxex spec then (if si_max spec = 0 then None else Some (si_max spec - 1))
                   else Some (si_max spec)) of
               None \<Rightarrow> True
             | Some eff_max \<Rightarrow> eff_min > eff_max))"

definition si_contains :: "sortedint_range \<Rightarrow> u64 \<Rightarrow> bool" where
  "si_contains spec val =
     (if (if si_minex spec then val \<le> si_min spec else val < si_min spec) then False
      else if (if si_maxex spec then val \<ge> si_max spec else val > si_max spec) then False
      else True)"

text \<open>The Rust range types that \<open>IntoSortedintRange\<close> is implemented for.\<close>

datatype si_range_arg =
    SiSpec sortedint_range
  | SiPair u64 u64
  | SiRange u64 u64
  | SiRangeInclusive u64 u64
  | SiRangeFrom u64
  | SiRangeTo u64
  | SiRangeToInclusive u64
  | SiRangeFull
  | SiBounds "u64 bound" "u64 bound"

fun into_sortedint_range :: "si_range_arg \<Rightarrow> sortedint_range" where
  "into_sortedint_range (SiSpec spec) = spec"
| "into_sortedint_range (SiPair a b) = si_all\<lparr>si_min := a, si_max := b\<rparr>"
| "into_sortedint_range (SiRange a b) = si_all\<lparr>si_min := a, si_max := b, si_maxex := True\<rparr>"
| "into_sortedint_range (SiRangeInclusive a b) = si_all\<lparr>si_min := a, si_max := b\<rparr>"
| "into_sortedint_range (SiRangeFrom a) = si_all\<lparr>si_min := a\<rparr>"
| "into_sortedint_range (SiRangeTo b) = si_all\<lparr>si_max := b, si_maxex := True\<rparr>"
| "into_sortedint_range (SiRangeToInclusive b) = si_all\<lparr>si_max := b\<rparr>"
| "into_sortedint_range SiRangeFull = si_all"
| "into_sortedint_range (SiBounds l u) =
     (let (mn, minex) = (case l of Included v \<Rightarrow> (v, False) | Excluded v \<Rightarrow> (v, True) | Unbounded \<Rightarrow> (0, False));
          (mx, maxex) = (case u of Included v \<Rightarrow> (v, False) | Excluded v \<Rightarrow> (v, True) | Unbounded \<Rightarrow> (U64_MAX, False))
      in si_all\<lparr>si_min := mn, si_max := mx, si_minex := minex, si_maxex := maxex\<rparr>)"

section \<open>Keys and metadata\<close>

definition si_meta_key :: "key_composer \<Rightarrow> bytes \<Rightarrow> bytes" where
  "si_meta_key kc key = as_bytes (compose_meta_key_stack kc (tag_slice SortedIntMeta) key)"

definition si_prefix_stack :: "key_composer \<Rightarrow> bytes \<Rightarrow> bytes" where
  "si_prefix_stack kc key = as_bytes (compose_prefix_stack kc (tag_slice SortedIntData) key)"

definition si_item :: "bytes \<Rightarrow> u64 \<Rightarrow> bytes" where
  "si_item pfx n = as_bytes (sk_extend_from_slice (sk_from_slice pfx) (to_be64 n))"

definition si_key :: "key_composer \<Rightarrow> bytes \<Rightarrow> u64 \<Rightarrow> bytes" where
  "si_key kc key n = as_bytes (compose_subkey_stack kc (tag_slice SortedIntData) key (to_be64 n))"

definition si_key_for_id :: "key_composer \<Rightarrow> bytes \<Rightarrow> u64 \<Rightarrow> bytes" where
  "si_key_for_id kc key n = snd (compose_sub_u64_be (sc_from_slice (si_prefix_stack kc key)) n)"

definition decode_be_u64 :: "bytes \<Rightarrow> u64 option" where
  "decode_be_u64 bs = (if length bs < 8 then None else Some (from_be64 (take 8 bs)))"

definition extract_id :: "bytes \<Rightarrow> nat \<Rightarrow> u64 option" where
  "extract_id key_bytes prefix_len =
     (if length key_bytes < prefix_len then None
      else
        let sub = drop prefix_len key_bytes
        in if length sub < 8 then None else decode_be_u64 (take 8 sub))"

definition get_si_meta :: "'p engine \<Rightarrow> key_composer \<Rightarrow> 'p wedb \<Rightarrow> u64 \<Rightarrow> bytes \<Rightarrow> error + key_meta option" where
  "get_si_meta E kc s now_ms key =
     get_meta_checked E (simple_meta RSortedInt SortedIntMeta) kc s key (si_meta_key kc key) now_ms"

section \<open>Adding and removing\<close>

definition prepare_si_meta_for_write ::
    "'p engine \<Rightarrow> key_composer \<Rightarrow> u64 \<Rightarrow> u64 \<Rightarrow> bytes \<Rightarrow> batch \<Rightarrow> 'p wedb
       \<Rightarrow> error + ((key_meta \<times> bool) \<times> batch \<times> 'p wedb)" where
  "prepare_si_meta_for_write E kc now_ms ts key batch s =
     prepare_simple_meta E RSortedInt SortedIntMeta kc now_ms ts key (si_prefix_stack kc key) (si_meta_key kc key) batch s"

definition si_add_step ::
    "'p engine \<Rightarrow> 'p wedb \<Rightarrow> bytes \<Rightarrow> bool \<Rightarrow> u64 set \<times> nat \<times> key_meta \<times> batch \<Rightarrow> u64 \<Rightarrow> u64 set \<times> nat \<times> key_meta \<times> batch" where
  "si_add_step E s pfx is_fresh = (\<lambda>(seen, added, meta, batch) n.
     if n \<in> seen then (seen, added, meta, batch)
     else
       let item_buf = pfx @ to_be64 n in
       if is_fresh \<or> \<not> e_contains_key E (w_data s) item_buf
       then (insert n seen, added + 1, meta\<lparr>km_size := saturating_add (km_size meta) 1\<rparr>, insert_data item_buf [] batch)
       else (insert n seen, added, meta, batch))"

definition si_add ::
    "'p engine \<Rightarrow> key_composer \<Rightarrow> u64 \<Rightarrow> u64 \<Rightarrow> bytes \<Rightarrow> u64 list \<Rightarrow> 'p wedb \<Rightarrow> error + (nat \<times> 'p wedb)" where
  "si_add E kc now_ms ts key ids s =
     (if ids = [] then Inr (0, s)
      else
        try_op (prepare_si_meta_for_write E kc now_ms ts key [] s)
          (\<lambda>((meta, is_fresh), batch, s).
             if length ids = 1 then
               let item_buf = si_prefix_stack kc key @ to_be64 (ids ! 0);
                   (added, meta, batch) =
                     (if is_fresh \<or> \<not> e_contains_key E (w_data s) item_buf
                      then (1, meta\<lparr>km_size := saturating_add (km_size meta) 1\<rparr>, insert_data item_buf [] batch)
                      else (0, meta, batch))
               in if added > 0 \<or> is_fresh
                  then Inr (added, commit E (insert_meta (si_meta_key kc key) (km_encode meta) batch) s)
                  else Inr (added, s)
             else
               let (_, added, meta, batch) =
                     foldl (si_add_step E s (si_prefix_stack kc key) is_fresh) ({}, 0, meta, batch) ids
               in if added > 0 \<or> is_fresh
                  then Inr (added, commit E (insert_meta (si_meta_key kc key) (km_encode meta) batch) s)
                  else Inr (added, s)))"

definition si_add_one ::
    "'p engine \<Rightarrow> key_composer \<Rightarrow> u64 \<Rightarrow> u64 \<Rightarrow> bytes \<Rightarrow> u64 \<Rightarrow> 'p wedb \<Rightarrow> error + (nat \<times> 'p wedb)" where
  "si_add_one E kc now_ms ts key n s = si_add E kc now_ms ts key [n] s"

definition si_rem_step ::
    "'p engine \<Rightarrow> 'p wedb \<Rightarrow> bytes \<Rightarrow> u64 set \<times> nat \<times> key_meta \<times> batch \<Rightarrow> u64 \<Rightarrow> u64 set \<times> nat \<times> key_meta \<times> batch" where
  "si_rem_step E s pfx = (\<lambda>(seen, deleted, meta, batch) n.
     if n \<in> seen then (seen, deleted, meta, batch)
     else
       let item_buf = pfx @ to_be64 n in
       if e_contains_key E (w_data s) item_buf
       then (insert n seen, deleted + 1, meta\<lparr>km_size := saturating_sub (km_size meta) 1\<rparr>, rm_weak_data item_buf batch)
       else (insert n seen, deleted, meta, batch))"

definition si_rem ::
    "'p engine \<Rightarrow> key_composer \<Rightarrow> u64 \<Rightarrow> bytes \<Rightarrow> u64 list \<Rightarrow> 'p wedb \<Rightarrow> error + (nat \<times> 'p wedb)" where
  "si_rem E kc now_ms key ids s =
     (if ids = [] then Inr (0, s)
      else
        try_op (get_si_meta E kc s now_ms key)
          (\<lambda>m. case m of
             None \<Rightarrow> Inr (0, s)
           | Some meta \<Rightarrow>
               if length ids = 1 then
                 let item_buf = si_prefix_stack kc key @ to_be64 (ids ! 0) in
                 if e_contains_key E (w_data s) item_buf then
                   let meta = meta\<lparr>km_size := saturating_sub (km_size meta) 1\<rparr>
                   in Inr (1, commit_simple_batch E (si_meta_key kc key) meta (rm_weak_data item_buf []) s)
                 else Inr (0, s)
               else
                 let (_, deleted, meta, batch) =
                       foldl (si_rem_step E s (si_prefix_stack kc key)) ({}, 0, meta, []) ids
                 in if deleted > 0 then Inr (deleted, commit_simple_batch E (si_meta_key kc key) meta batch s)
                    else Inr (deleted, s)))"

definition si_rem_one ::
    "'p engine \<Rightarrow> key_composer \<Rightarrow> u64 \<Rightarrow> bytes \<Rightarrow> u64 \<Rightarrow> 'p wedb \<Rightarrow> error + (nat \<times> 'p wedb)" where
  "si_rem_one E kc now_ms key n s = si_rem E kc now_ms key [n] s"

section \<open>Membership and iteration\<close>

definition si_card :: "'p engine \<Rightarrow> key_composer \<Rightarrow> 'p wedb \<Rightarrow> u64 \<Rightarrow> bytes \<Rightarrow> error + u64" where
  "si_card E kc s now_ms key =
     try_op (get_si_meta E kc s now_ms key) (\<lambda>m. Inr (case m of None \<Rightarrow> 0 | Some meta \<Rightarrow> km_size meta))"

definition si_exists :: "'p engine \<Rightarrow> key_composer \<Rightarrow> 'p wedb \<Rightarrow> u64 \<Rightarrow> bytes \<Rightarrow> u64 \<Rightarrow> error + bool" where
  "si_exists E kc s now_ms key n =
     try_op (get_si_meta E kc s now_ms key)
       (\<lambda>m. case m of
          None \<Rightarrow> Inr False
        | Some _ \<Rightarrow> Inr (e_contains_key E (w_data s) (si_key kc key n)))"

definition si_mexist :: "'p engine \<Rightarrow> key_composer \<Rightarrow> 'p wedb \<Rightarrow> u64 \<Rightarrow> bytes \<Rightarrow> u64 list \<Rightarrow> error + bool list" where
  "si_mexist E kc s now_ms key ids =
     (if ids = [] then Inr []
      else
        try_op (get_si_meta E kc s now_ms key)
          (\<lambda>m. case m of
             None \<Rightarrow> Inr (replicate (length ids) False)
           | Some _ \<Rightarrow> Inr (map (\<lambda>n. e_contains_key E (w_data s) (si_prefix_stack kc key @ to_be64 n)) ids)))"

text \<open>The keys the loops over a prefix see before they leave it.\<close>

definition si_prefix_keys :: "'p engine \<Rightarrow> 'p wedb \<Rightarrow> bytes \<Rightarrow> bytes list" where
  "si_prefix_keys E s pfx = takeWhile (prefix pfx) (map fst (e_prefix E (w_data s) pfx))"

definition si_members :: "'p engine \<Rightarrow> key_composer \<Rightarrow> 'p wedb \<Rightarrow> u64 \<Rightarrow> bytes \<Rightarrow> error + u64 list" where
  "si_members E kc s now_ms key =
     try_op (get_si_meta E kc s now_ms key)
       (\<lambda>m. case nonempty m of
          None \<Rightarrow> Inr []
        | Some _ \<Rightarrow>
            let pfx = si_prefix_stack kc key
            in Inr (List.map_filter (\<lambda>k. extract_id k (length pfx)) (si_prefix_keys E s pfx)))"

definition si_iter_step :: "('a \<Rightarrow> u64 \<Rightarrow> 'a \<times> bool) \<Rightarrow> nat \<Rightarrow> 'a \<Rightarrow> bytes \<Rightarrow> 'a \<times> bool" where
  "si_iter_step f prefix_len a k = (case extract_id k prefix_len of Some n \<Rightarrow> f a n | None \<Rightarrow> (a, True))"

definition si_iter ::
    "'p engine \<Rightarrow> key_composer \<Rightarrow> 'p wedb \<Rightarrow> u64 \<Rightarrow> bytes \<Rightarrow> ('a \<Rightarrow> u64 \<Rightarrow> 'a \<times> bool) \<Rightarrow> 'a \<Rightarrow> error + 'a" where
  "si_iter E kc s now_ms key f a =
     try_op (get_si_meta E kc s now_ms key)
       (\<lambda>m. case m of
          None \<Rightarrow> Inr a
        | Some _ \<Rightarrow>
            let pfx = si_prefix_stack kc key
            in Inr (visit (si_iter_step f (length pfx)) a (si_prefix_keys E s pfx)))"

section \<open>Ranges and ranks\<close>

definition si_range_step ::
    "u64 \<Rightarrow> nat \<Rightarrow> nat \<Rightarrow> nat \<Rightarrow> nat \<times> u64 list \<Rightarrow> bytes \<Rightarrow> (nat \<times> u64 list) \<times> bool" where
  "si_range_step cursor offset limit prefix_len = (\<lambda>(pos, results) k.
     case extract_id k prefix_len of
       None \<Rightarrow> ((pos, results), True)
     | Some n \<Rightarrow>
         if cursor > 0 \<and> n = cursor then ((pos, results), True)
         else if pos < offset then ((pos + 1, results), True)
         else
           let results = results @ [n]
           in ((pos, results), \<not> length results \<ge> limit))"

definition si_range ::
    "'p engine \<Rightarrow> key_composer \<Rightarrow> 'p wedb \<Rightarrow> u64 \<Rightarrow> bytes \<Rightarrow> u64 \<Rightarrow> nat \<Rightarrow> nat \<Rightarrow> bool \<Rightarrow> error + u64 list" where
  "si_range E kc s now_ms key cursor offset limit reversed =
     (if limit = 0 then Inr []
      else
        try_op (get_si_meta E kc s now_ms key)
          (\<lambda>m. case m of
             None \<Rightarrow> Inr []
           | Some _ \<Rightarrow>
               let pfx = si_prefix_stack kc key;
                   process_entry = si_range_step cursor offset limit (length pfx)
               in if \<not> reversed then
                    let start_k = si_item pfx cursor; end_k = si_item pfx U64_MAX
                    in Inr (snd (visit process_entry (0, [])
                         (map fst (e_range E (w_data s) (Included start_k) (Included end_k)))))
                  else
                    let start_k = si_item pfx 0; end_k = si_item pfx (if cursor = 0 then U64_MAX else cursor)
                    in Inr (snd (visit process_entry (0, [])
                         (rev (map fst (e_range E (w_data s) (Included start_k) (Included end_k))))))))"

definition si_rev_range ::
    "'p engine \<Rightarrow> key_composer \<Rightarrow> 'p wedb \<Rightarrow> u64 \<Rightarrow> bytes \<Rightarrow> u64 \<Rightarrow> nat \<Rightarrow> nat \<Rightarrow> error + u64 list" where
  "si_rev_range E kc s now_ms key cursor offset limit = si_range E kc s now_ms key cursor offset limit True"

text \<open>The data keys between the bounds of a specification.\<close>

definition si_spec_range :: "'p engine \<Rightarrow> 'p wedb \<Rightarrow> bytes \<Rightarrow> sortedint_range \<Rightarrow> bytes list" where
  "si_spec_range E s pfx spec =
     (let start_k = si_item pfx (si_min spec);
          end_k = si_item pfx (si_max spec);
          start_bound = (if si_minex spec then Excluded start_k else Included start_k);
          end_bound = (if si_maxex spec then Excluded end_k else Included end_k)
      in map fst (e_range E (w_data s) start_bound end_bound))"

definition si_scan_step ::
    "sortedint_range \<Rightarrow> nat \<Rightarrow> nat \<times> u64 list \<Rightarrow> bytes \<Rightarrow> (nat \<times> u64 list) \<times> bool" where
  "si_scan_step spec prefix_len = (\<lambda>(pos, results) k.
     case extract_id k prefix_len of
       None \<Rightarrow> ((pos, results), True)
     | Some n \<Rightarrow>
         if pos < si_offset spec then ((pos + 1, results), True)
         else
           let results = results @ [n]
           in ((pos, results), \<not> (case si_count spec of Some cnt \<Rightarrow> length results \<ge> cnt | None \<Rightarrow> False)))"

definition si_range_by_value ::
    "'p engine \<Rightarrow> key_composer \<Rightarrow> 'p wedb \<Rightarrow> u64 \<Rightarrow> bytes \<Rightarrow> si_range_arg \<Rightarrow> error + u64 list" where
  "si_range_by_value E kc s now_ms key ra =
     (let spec = into_sortedint_range ra in
      if si_is_empty_range spec then Inr []
      else if si_count spec = Some 0 then Inr []
      else
        try_op (get_si_meta E kc s now_ms key)
          (\<lambda>m. case m of
             None \<Rightarrow> Inr []
           | Some _ \<Rightarrow>
               let pfx = si_prefix_stack kc key;
                   scan = si_spec_range E s pfx spec
               in Inr (snd (visit (si_scan_step spec (length pfx)) (0, [])
                    (if \<not> si_reversed spec then scan else rev scan)))))"

definition si_rev_range_by_value ::
    "'p engine \<Rightarrow> key_composer \<Rightarrow> 'p wedb \<Rightarrow> u64 \<Rightarrow> bytes \<Rightarrow> si_range_arg \<Rightarrow> error + u64 list" where
  "si_rev_range_by_value E kc s now_ms key ra =
     si_range_by_value E kc s now_ms key (SiSpec ((into_sortedint_range ra)\<lparr>si_reversed := True\<rparr>))"

definition si_rank :: "'p engine \<Rightarrow> key_composer \<Rightarrow> 'p wedb \<Rightarrow> u64 \<Rightarrow> bytes \<Rightarrow> u64 \<Rightarrow> error + nat option" where
  "si_rank E kc s now_ms key n =
     try_op (get_si_meta E kc s now_ms key)
       (\<lambda>m. case m of
          None \<Rightarrow> Inr None
        | Some _ \<Rightarrow>
            let pfx = si_prefix_stack kc key; end_k = si_item pfx n in
            if \<not> e_contains_key E (w_data s) end_k then Inr None
            else
              let start_k = si_item pfx 0
              in Inr (Some (length (e_range E (w_data s) (Included start_k) (Excluded end_k)))))"

definition si_revrank :: "'p engine \<Rightarrow> key_composer \<Rightarrow> 'p wedb \<Rightarrow> u64 \<Rightarrow> bytes \<Rightarrow> u64 \<Rightarrow> error + nat option" where
  "si_revrank E kc s now_ms key n =
     try_op (get_si_meta E kc s now_ms key)
       (\<lambda>m. case m of
          None \<Rightarrow> Inr None
        | Some meta \<Rightarrow>
            try_op (si_rank E kc s now_ms key n)
              (\<lambda>r. Inr (case r of Some rank \<Rightarrow> Some (unat (km_size meta) - 1 - rank) | None \<Rightarrow> None)))"

definition si_full_range :: "sortedint_range \<Rightarrow> bool" where
  "si_full_range spec \<longleftrightarrow> \<not> si_minex spec \<and> \<not> si_maxex spec \<and> si_min spec = 0 \<and> si_max spec = U64_MAX"

definition si_count_range :: "'p engine \<Rightarrow> key_composer \<Rightarrow> 'p wedb \<Rightarrow> u64 \<Rightarrow> bytes \<Rightarrow> si_range_arg \<Rightarrow> error + nat" where
  "si_count_range E kc s now_ms key ra =
     (let spec = into_sortedint_range ra in
      if si_is_empty_range spec then Inr 0
      else
        try_op (get_si_meta E kc s now_ms key)
          (\<lambda>m. case m of
             None \<Rightarrow> Inr 0
           | Some meta \<Rightarrow>
               if si_full_range spec then Inr (unat (km_size meta))
               else Inr (length (si_spec_range E s (si_prefix_stack kc key) spec))))"

section \<open>Removing ranges\<close>

definition si_commit_deleted :: "'p engine \<Rightarrow> bytes \<Rightarrow> key_meta \<Rightarrow> nat \<Rightarrow> batch \<Rightarrow> 'p wedb \<Rightarrow> 'p wedb" where
  "si_commit_deleted E meta_k meta deleted batch s =
     (if deleted > 0
      then commit_simple_batch E meta_k (meta\<lparr>km_size := saturating_sub (km_size meta) (word_of_nat deleted)\<rparr>) batch s
      else s)"

definition si_remove_all :: "'p engine \<Rightarrow> key_composer \<Rightarrow> bytes \<Rightarrow> 'p wedb \<Rightarrow> 'p wedb" where
  "si_remove_all E kc key s =
     commit E (rm_meta (si_meta_key kc key) (clear_prefix_in_batch E PData s (si_prefix_stack kc key) [])) s"

definition si_rem_range_by_value ::
    "'p engine \<Rightarrow> key_composer \<Rightarrow> u64 \<Rightarrow> bytes \<Rightarrow> si_range_arg \<Rightarrow> 'p wedb \<Rightarrow> error + (nat \<times> 'p wedb)" where
  "si_rem_range_by_value E kc now_ms key ra s =
     (let spec = into_sortedint_range ra in
      if si_is_empty_range spec then Inr (0, s)
      else
        try_op (get_si_meta E kc s now_ms key)
          (\<lambda>m. case m of
             None \<Rightarrow> Inr (0, s)
           | Some meta \<Rightarrow>
               if si_full_range spec then Inr (unat (km_size meta), si_remove_all E kc key s)
               else
                 let (deleted, batch) =
                       foldl (\<lambda>(deleted, batch) k. (deleted + 1, rm_weak_data k batch)) (0, [])
                         (si_spec_range E s (si_prefix_stack kc key) spec)
                 in Inr (deleted, si_commit_deleted E (si_meta_key kc key) meta deleted batch s)))"

fun si_rank_loop :: "bytes \<Rightarrow> nat \<Rightarrow> nat \<Rightarrow> nat \<Rightarrow> nat \<Rightarrow> batch \<Rightarrow> bytes list \<Rightarrow> nat \<times> batch" where
  "si_rank_loop pfx s e rank deleted batch [] = (deleted, batch)"
| "si_rank_loop pfx s e rank deleted batch (k # ks) =
     (if \<not> prefix pfx k then (deleted, batch)
      else if rank > e then (deleted, batch)
      else if rank \<ge> s then si_rank_loop pfx s e (rank + 1) (deleted + 1) (rm_weak_data k batch) ks
      else si_rank_loop pfx s e (rank + 1) deleted batch ks)"

definition si_rem_range_by_rank ::
    "'p engine \<Rightarrow> key_composer \<Rightarrow> u64 \<Rightarrow> bytes \<Rightarrow> index_range \<Rightarrow> 'p wedb \<Rightarrow> error + (nat \<times> 'p wedb)" where
  "si_rem_range_by_rank E kc now_ms key ri st =
     (let (start, stop) = into_index_range ri in
        try_op (get_si_meta E kc st now_ms key)
          (\<lambda>m. case m of
             None \<Rightarrow> Inr (0, st)
           | Some meta \<Rightarrow>
               if km_size meta = 0 then Inr (0, st)
               else
                 let (s, e) = normalize_range start stop (sint (km_size meta)) in
                 if \<not> s \<le> e then Inr (0, st)
                 else if nat s = 0 \<and> nat e + 1 \<ge> unat (km_size meta)
                 then Inr (unat (km_size meta), si_remove_all E kc key st)
                 else
                   let (deleted, batch) = si_rank_loop (si_prefix_stack kc key) (nat s) (nat e) 0 0 []
                         (map fst (e_prefix E (w_data st) (si_prefix_stack kc key)))
                   in Inr (deleted, si_commit_deleted E (si_meta_key kc key) meta deleted batch st)))"

end
