(* ===== verification/Si_Parse.thy ===== *)
theory Si_Parse
  imports Si_Ops
begin

text \<open>
  The parser of range specifications of \<^verbatim>\<open>sortedint/opt.rs\<close>, with \<open>str::trim\<close>,
  \<open>str::strip_prefix\<close> and \<open>u64::from_str\<close> of the standard library. A character is a code point
  below 256.
\<close>

section \<open>The standard library\<close>

definition char_is_whitespace :: "char \<Rightarrow> bool" where
  "char_is_whitespace c \<longleftrightarrow> (let n = of_char c :: nat in 9 \<le> n \<and> n \<le> 13 \<or> n = 32 \<or> n = 133 \<or> n = 160)"

definition str_trim :: "string \<Rightarrow> string" where
  "str_trim s = rev (dropWhile char_is_whitespace (rev (dropWhile char_is_whitespace s)))"

definition strip_char :: "char \<Rightarrow> string \<Rightarrow> string option" where
  "strip_char c s = (case s of x # rest \<Rightarrow> if x = c then Some rest else None | [] \<Rightarrow> None)"

definition digit_value :: "char \<Rightarrow> nat option" where
  "digit_value c = (let n = of_char c in if 48 \<le> n \<and> n \<le> 57 then Some (n - 48) else None)"

text \<open>\<open>checked_mul\<close> and \<open>checked_add\<close> on each digit.\<close>

fun parse_digits :: "nat \<Rightarrow> string \<Rightarrow> nat option" where
  "parse_digits acc [] = Some acc"
| "parse_digits acc (c # cs) =
     (case digit_value c of
        None \<Rightarrow> None
      | Some d \<Rightarrow> if acc * 10 + d < 2 ^ 64 then parse_digits (acc * 10 + d) cs else None)"

definition parse_u64 :: "string \<Rightarrow> u64 option" where
  "parse_u64 s =
     (let digits = (case strip_char CHR ''+'' s of Some rest \<Rightarrow> rest | None \<Rightarrow> s)
      in if digits = [] then None else map_option word_of_nat (parse_digits 0 digits))"

section \<open>The parser\<close>

definition ERR_MIN_NOT_INT :: string where "ERR_MIN_NOT_INT = ''ERR the min isn't integer''"
definition ERR_MAX_NOT_INT :: string where "ERR_MAX_NOT_INT = ''ERR the max isn't integer''"
definition ERR_MIN_GT_MAX :: string where "ERR_MIN_GT_MAX = ''ERR min > max''"

definition parse_bound :: "string \<Rightarrow> bool \<Rightarrow> error + (u64 \<times> bool)" where
  "parse_bound s is_min =
     (let (num_str, ex) =
            (case strip_char CHR ''('' s of
               Some stripped \<Rightarrow> (stripped, True)
             | None \<Rightarrow> (case strip_char CHR ''['' s of Some stripped \<Rightarrow> (stripped, False) | None \<Rightarrow> (s, False)));
          num_str = (case strip_char CHR ''+'' num_str of Some rest \<Rightarrow> rest | None \<Rightarrow> num_str)
      in case parse_u64 num_str of
           None \<Rightarrow> Inl (Redis (if is_min then ERR_MIN_NOT_INT else ERR_MAX_NOT_INT))
         | Some val \<Rightarrow> Inr (val, ex))"

definition parse_range_spec :: "string \<Rightarrow> string \<Rightarrow> error + sortedint_range" where
  "parse_range_spec min_str max_str =
     (let min_str = str_trim min_str; max_str = str_trim max_str in
      if min_str = ''+inf'' \<or> max_str = ''-inf'' then Inl (Redis ERR_MIN_GT_MAX)
      else
        try_op (if min_str = ''-inf'' then Inr (0, False) else parse_bound min_str True)
          (\<lambda>(mn, minex). try_op (if max_str = ''+inf'' then Inr (U64_MAX, False) else parse_bound max_str False)
             (\<lambda>(mx, maxex). Inr (si_all\<lparr>si_min := mn, si_max := mx, si_minex := minex, si_maxex := maxex\<rparr>))))"

section \<open>Parsing what was printed\<close>

fun decimal :: "nat \<Rightarrow> string" where
  "decimal n = (if n < 10 then [] else decimal (n div 10)) @ [char_of (48 + n mod 10)]"

declare decimal.simps [simp del]

definition show_bound :: "u64 \<Rightarrow> bool \<Rightarrow> string" where
  "show_bound v ex = (if ex then CHR ''('' else CHR ''['') # decimal (unat v)"

lemma of_char_digit [simp]: "d < 10 \<Longrightarrow> (of_char (char_of (48 + d) :: char) :: nat) = 48 + d"
  by (simp add: of_char_of)

lemma decimal_chars: "c \<in> set (decimal n) \<Longrightarrow> 48 \<le> (of_char c :: nat) \<and> (of_char c :: nat) \<le> 57"
proof (induction n rule: decimal.induct)
  case (1 n)
  then show ?case by (subst (asm) (2) decimal.simps) (auto split: if_splits)
qed

lemma parse_digits_append:
  "parse_digits acc (xs @ ys) = (case parse_digits acc xs of None \<Rightarrow> None | Some a \<Rightarrow> parse_digits a ys)"
  by (induction xs arbitrary: acc) (simp_all split: option.split)

lemma parse_decimal: "n < 2 ^ 64 \<Longrightarrow> parse_digits 0 (decimal n) = Some n"
proof (induction n rule: decimal.induct)
  case (1 n)
  show ?case
  proof (cases "n < 10")
    case True
    then show ?thesis by (subst decimal.simps) (simp add: digit_value_def)
  next
    case False
    then have "parse_digits 0 (decimal (n div 10)) = Some (n div 10)" using 1 by simp
    then show ?thesis
      using False 1(2) by (subst decimal.simps) (simp add: parse_digits_append digit_value_def Let_def)
  qed
qed

lemma decimal_nonempty [simp]: "decimal n \<noteq> []"
  by (subst decimal.simps) simp

lemma strip_decimal:
  assumes "of_char c < (48 :: nat)"
  shows "strip_char c (decimal n) = None"
proof (cases "decimal n")
  case (Cons x xs)
  then have "48 \<le> (of_char x :: nat)" using decimal_chars [of x n] by simp
  then show ?thesis using Cons assms by (auto simp: strip_char_def)
qed (simp add: strip_char_def)

lemma parse_bound_show [simp]: "parse_bound (show_bound v ex) is_min = Inr (v, ex)"
proof -
  have "parse_u64 (decimal (unat v)) = Some v"
    using strip_decimal [of "CHR ''+''"] parse_decimal [of "unat v"] by (simp add: parse_u64_def)
  then show ?thesis
    using strip_decimal [of "CHR ''+''"] by (simp add: parse_bound_def show_bound_def strip_char_def [of _ "_ # _"])
qed

lemma trim_show [simp]: "str_trim (show_bound v ex) = show_bound v ex"
proof -
  have e: "last (decimal n) \<in> set (decimal n)" for n by (rule last_in_set) simp
  obtain xs x where d: "decimal (unat v) = xs @ [x]" using rev_exhaust [of "decimal (unat v)"] by auto
  have "\<not> char_is_whitespace x"
    using decimal_chars [of x "unat v"] d by (auto simp: char_is_whitespace_def Let_def)
  moreover have "\<not> char_is_whitespace (if ex then CHR ''('' else CHR ''['')"
    by (simp add: char_is_whitespace_def)
  ultimately show ?thesis by (simp add: str_trim_def show_bound_def d)
qed

text \<open>A specification that is printed parses back, and the infinities are the ends of the integers.\<close>

lemma parse_range_spec_show:
  "parse_range_spec (show_bound mn minex) (show_bound mx maxex)
     = Inr (si_all\<lparr>si_min := mn, si_max := mx, si_minex := minex, si_maxex := maxex\<rparr>)"
  "parse_range_spec ''-inf'' ''+inf'' = Inr si_all"
proof -
  have "show_bound mn minex \<noteq> ''+inf''" "show_bound mn minex \<noteq> ''-inf''"
    "show_bound mx maxex \<noteq> ''+inf''" "show_bound mx maxex \<noteq> ''-inf''"
    by (auto simp: show_bound_def)
  then show "parse_range_spec (show_bound mn minex) (show_bound mx maxex)
     = Inr (si_all\<lparr>si_min := mn, si_max := mx, si_minex := minex, si_maxex := maxex\<rparr>)"
    by (simp add: parse_range_spec_def)
  show "parse_range_spec ''-inf'' ''+inf'' = Inr si_all" by code_simp
qed

text \<open>The sign is stripped twice, once by the parser and once by the standard library.\<close>

lemma parse_double_sign: "parse_bound ''(++5'' True = Inr (5, True)"
  by (simp add: parse_bound_def strip_char_def parse_u64_def digit_value_def)

end
