(* ===== verification/Si_Rep.thy ===== *)
theory Si_Rep
  imports Si_Ops
begin

text \<open>
  The sorted integer operations against the set of integers a key stands for.
\<close>

section \<open>Keys and steps in closed form\<close>

abbreviation iq :: "key_composer \<Rightarrow> bytes \<Rightarrow> bytes" where
  "iq kc key \<equiv> subkey_prefix kc SortedIntData key"

abbreviation ik :: "key_composer \<Rightarrow> bytes \<Rightarrow> bytes" where
  "ik kc key \<equiv> meta_key kc SortedIntMeta key"

lemma si_keys [simp]:
  "si_meta_key kc key = ik kc key"
  "si_prefix_stack kc key = iq kc key"
  "si_item pfx n = pfx @ to_be64 n"
  "si_key kc key n = iq kc key @ to_be64 n"
  "si_key_for_id kc key n = iq kc key @ to_be64 n"
proof -
  show p: "si_prefix_stack kc key = iq kc key"
    by (simp add: si_prefix_stack_def subkey_prefix_def)
  show "si_key_for_id kc key n = iq kc key @ to_be64 n"
    unfolding si_key_for_id_def
    using sc_for_compose(2) [OF sc_for_from_slice [of "iq kc key"]] by (simp add: p)
qed (simp_all add: si_meta_key_def si_item_def si_key_def meta_key_def subkey_prefix_def)

lemma extract_id_item [simp]: "extract_id (pfx @ to_be64 n) (length pfx) = Some n"
  by (simp add: extract_id_def decode_be_u64_def)

lemma si_range_step_page:
  "si_range_step cursor offset limit (length pfx) a (pfx @ to_be64 n)
    = page_step (\<lambda>n. \<not> (cursor > 0 \<and> n = cursor)) offset (Some limit) a n"
  by (cases a) (simp add: si_range_step_def page_step_def)

lemma si_scan_step_page:
  "si_scan_step spec (length pfx) a (pfx @ to_be64 n) = page_step (\<lambda>_. True) (si_offset spec) (si_count spec) a n"
  by (cases a) (simp add: si_scan_step_def page_step_def Let_def)

text \<open>The test for an empty specification is exact.\<close>

lemma si_contains_iff:
  "si_contains spec n \<longleftrightarrow> (if si_minex spec then si_min spec < n else si_min spec \<le> n)
     \<and> (if si_maxex spec then n < si_max spec else n \<le> si_max spec)"
  by (auto simp: si_contains_def not_le not_less)

lemma si_is_empty_range_iff: "si_is_empty_range spec \<longleftrightarrow> (\<forall>n. \<not> si_contains spec n)"
proof -
  define lo hi where "lo = unat (si_min spec) + (if si_minex spec then 1 else 0)"
    and "hi = unat (si_max spec) + (if si_maxex spec then 0 else 1)"
  have c: "si_contains spec n \<longleftrightarrow> lo \<le> unat n \<and> unat n < hi" for n
    by (auto simp: si_contains_iff lo_def hi_def word_less_nat_alt word_le_nat_alt)
  have mx: "unat U64_MAX = 2 ^ 64 - 1" by (simp add: U64_MAX_def)
  have e: "si_is_empty_range spec \<longleftrightarrow> hi \<le> lo"
  proof -
    have s: "unat (si_min spec + 1) = unat (si_min spec) + 1" if "si_min spec \<noteq> U64_MAX"
    proof -
      have "unat (si_min spec) \<noteq> 18446744073709551615" using that by (simp add: word_unat_eq_iff mx)
      then have "Suc (unat (si_min spec)) < 18446744073709551616"
        using unat_u64_less [of "si_min spec"] by linarith
      then show ?thesis by (simp add: unat_word_ariths)
    qed
    have p: "unat (si_max spec - 1) = unat (si_max spec) - 1" if "si_max spec \<noteq> 0"
      using that by (simp add: unat_minus_one)
    have z: "si_max spec = 0 \<longleftrightarrow> unat (si_max spec) = 0" by (simp add: unat_eq_0)
    have m: "si_min spec = U64_MAX \<longleftrightarrow> unat (si_min spec) = 2 ^ 64 - 1" by (simp add: word_unat_eq_iff mx)
    have "unat (si_max spec) \<le> 18446744073709551615" "unat (si_min spec) \<le> 18446744073709551615"
      using unat_u64_less [of "si_min spec"] unat_u64_less [of "si_max spec"] by linarith+
    then show ?thesis
      using s p
      by (auto simp: si_is_empty_range_def lo_def hi_def word_less_nat_alt z m split: if_splits)
  qed
  show ?thesis
  proof
    assume "si_is_empty_range spec"
    then show "\<forall>n. \<not> si_contains spec n" using e by (auto simp: c)
  next
    assume none: "\<forall>n. \<not> si_contains spec n"
    show "si_is_empty_range spec"
    proof (rule ccontr)
      assume "\<not> si_is_empty_range spec"
      then have le: "lo < hi" using e by simp
      moreover have "hi \<le> unat (si_max spec) + 1" by (simp add: hi_def)
      ultimately have "lo < 18446744073709551616" using unat_u64_less [of "si_max spec"] by linarith
      then have "unat (word_of_nat lo :: u64) = lo" by (simp add: unat_of_nat)
      then have "si_contains spec (word_of_nat lo)" using le by (simp add: c)
      then show False using none by blast
    qed
  qed
qed

lemma si_full_range_iff: "si_full_range spec \<Longrightarrow> si_contains spec n"
  by (simp add: si_full_range_def si_contains_iff)

section \<open>The set a key stands for\<close>

definition si_rep :: "'p engine \<Rightarrow> 'p wedb \<Rightarrow> key_composer \<Rightarrow> u64 \<Rightarrow> bytes \<Rightarrow> u64 set \<Rightarrow> bool" where
  "si_rep E s kc now key S \<longleftrightarrow>
     (\<exists>M. dom M = to_be64 ` S \<and> coll_rep RSortedInt SortedIntMeta SortedIntData E s kc now key M)"

sublocale kv_engine \<subseteq> ints: simple_coll E RSortedInt SortedIntMeta SortedIntData
  by unfold_locales (simp_all add: composite_meta_tags_def whole_key_tags_def)

lemma card_be64 [simp]: "card (to_be64 ` S) = card S"
  by (rule card_image) (simp add: inj_on_def)

lemma finite_u64 [simp]: "finite (S :: u64 set)"
  by (rule finite_subset [OF subset_UNIV]) simp

lemma sorted_be64: "sorted_list_of_set (to_be64 ` S) = map to_be64 (sorted_list_of_set S)"
  by (rule sorted_list_unique [symmetric, of "map to_be64 (sorted_list_of_set S)", simplified])
    (simp add: sorted_wrt_map)

context kv_engine
begin

lemma si_get_eq:
  "get_si_meta E kc s now key = get_meta_checked E (simple_meta RSortedInt SortedIntMeta) kc s key (ik kc key) now"
  by (simp add: get_si_meta_def)

lemma si_rep_card: "si_rep E s kc now key S \<Longrightarrow> card S < 2 ^ 63"
  by (auto simp: si_rep_def coll_rep_def)

lemma si_cases:
  assumes "si_rep E s kc now key S"
  obtains (absent) "S = {}" "get_si_meta E kc s now key = Inr None"
  | (present) m where "S \<noteq> {}" "get_si_meta E kc s now key = Inr (Some m)"
      "nonempty (Some m) = Some m" "km_size m \<noteq> 0" "unat (km_size m) = card S" "sizable RSortedInt m now"
      "dom (sub_view (dat E s) (iq kc key)) = to_be64 ` S" "card S < 2 ^ 63"
proof -
  obtain M where M: "dom M = to_be64 ` S" "coll_rep RSortedInt SortedIntMeta SortedIntData E s kc now key M"
    using assms by (auto simp: si_rep_def)
  show ?thesis
    using M(2)
  proof (cases rule: ints.coll_cases)
    case absent
    then show ?thesis using that(1) M ints.coll_get [OF M(2)] by (simp add: si_get_eq)
  next
    case (present m)
    then have "nonempty (Some m) = Some m" by (simp add: nonempty_def word_neq_0_conv)
    moreover have "S \<noteq> {}" using present(1) M(1) by auto
    ultimately show ?thesis
      using that(2) [of m] present M(1) ints.coll_get [OF M(2)] by (simp add: si_get_eq)
  qed
qed

lemma si_member_iff:
  assumes "dom (sub_view (dat E s) (iq kc key)) = to_be64 ` S"
  shows "e_contains_key E (w_data s) (iq kc key @ to_be64 n) \<longleftrightarrow> n \<in> S"
  using assms by (auto simp: sub_view_def set_eq_iff image_iff dom_def)

section \<open>What the scans see\<close>

lemma si_iter_subs:
  assumes "dom (sub_view (dat E s) (iq kc key)) = to_be64 ` S"
  shows "iter_subs E (w_data s) (iq kc key) = map to_be64 (sorted_list_of_set S)"
  using sorted_list_unique [OF iter_subs_sorted [of "w_data s" "iq kc key"]]
    iter_subs_set [of "w_data s" "iq kc key"] assms by (simp add: sorted_be64)

lemma si_prefix_keys_rep:
  assumes "dom (sub_view (dat E s) (iq kc key)) = to_be64 ` S"
  shows "si_prefix_keys E s (iq kc key) = map (\<lambda>n. iq kc key @ to_be64 n) (sorted_list_of_set S)"
proof -
  let ?q = "iq kc key"
  have "k = ?q @ drop (length ?q) k" if "k \<in> set (si_prefix_keys E s ?q)" for k
    using set_takeWhileD [OF that [unfolded si_prefix_keys_def]] by (auto simp: prefix_def)
  then have "si_prefix_keys E s ?q = map (\<lambda>m. ?q @ m) (iter_subs E (w_data s) ?q)"
    unfolding iter_subs_def si_prefix_keys_def [symmetric] map_map by (intro map_idI [symmetric]) simp
  then show ?thesis by (simp add: si_iter_subs [OF assms])
qed

lemma si_scan_rep:
  assumes "dom (sub_view (dat E s) (iq kc key)) = to_be64 ` S"
    and "lo = Included (iq kc key @ to_be64 a) \<or> lo = Excluded (iq kc key @ to_be64 a)"
    and "hi = Included (iq kc key @ to_be64 b) \<or> hi = Excluded (iq kc key @ to_be64 b)"
  shows "map fst (e_range E (w_data s) lo hi)
    = map (\<lambda>n. iq kc key @ to_be64 n)
        (filter (\<lambda>n. in_lower lo (iq kc key @ to_be64 n) \<and> in_upper hi (iq kc key @ to_be64 n)) (sorted_list_of_set S))"
  unfolding scan_between [OF assms(2,3)] si_iter_subs [OF assms(1)] by (simp add: filter_map comp_def)

lemma si_spec_range_rep:
  assumes "dom (sub_view (dat E s) (iq kc key)) = to_be64 ` S"
  shows "si_spec_range E s (iq kc key) spec
    = map (\<lambda>n. iq kc key @ to_be64 n) (filter (si_contains spec) (sorted_list_of_set S))"
  unfolding si_spec_range_def Let_def si_keys
  by (subst si_scan_rep [OF assms, of _ "si_min spec" _ "si_max spec"])
    (auto simp: si_contains_iff list_less_append_same list_le_append_same intro!: filter_cong arg_cong [of _ _ "map _"])

end

section \<open>Reading\<close>

text \<open>The integers a cursor leaves, in the order of the scan.\<close>

definition si_after :: "u64 set \<Rightarrow> u64 \<Rightarrow> bool \<Rightarrow> u64 list" where
  "si_after S cursor reversed =
     (if reversed then rev (filter (\<lambda>n. cursor = 0 \<or> n < cursor) (sorted_list_of_set S))
      else filter (\<lambda>n. cursor = 0 \<or> cursor < n) (sorted_list_of_set S))"

text \<open>The integers of a specification, in its order and cut to its page.\<close>

definition si_selected :: "sortedint_range \<Rightarrow> u64 set \<Rightarrow> u64 list" where
  "si_selected spec S =
     (let xs = filter (si_contains spec) (sorted_list_of_set S)
      in at_most (si_count spec) (drop (si_offset spec) (if si_reversed spec then rev xs else xs)))"

lemma si_selected_empty [simp]: "si_selected spec {} = []"
  by (simp add: si_selected_def at_most_def split: option.split)

context kv_engine
begin

lemma si_card_rep:
  assumes "si_rep E s kc now key S"
  shows "si_card E kc s now key = Inr (word_of_nat (card S))"
  using assms
proof (cases rule: si_cases)
  case absent
  then show ?thesis by (simp add: si_card_def)
next
  case (present x)
  then have "km_size x = word_of_nat (card S)" by (metis of_nat_unat ucast_id)
  with present show ?thesis by (simp add: si_card_def)
qed

lemma si_exists_rep:
  assumes "si_rep E s kc now key S"
  shows "si_exists E kc s now key n = Inr (n \<in> S)"
  using assms
proof (cases rule: si_cases)
  case absent
  then show ?thesis by (simp add: si_exists_def)
next
  case (present x)
  then show ?thesis using si_member_iff [OF present(7)] by (simp add: si_exists_def)
qed

lemma si_mexist_rep:
  assumes "si_rep E s kc now key S"
  shows "si_mexist E kc s now key ns = Inr (map (\<lambda>n. n \<in> S) ns)"
  using assms
proof (cases rule: si_cases)
  case absent
  then show ?thesis by (simp add: si_mexist_def map_replicate_const)
next
  case (present x)
  then show ?thesis using si_member_iff [OF present(7)] by (simp add: si_mexist_def)
qed

lemma si_members_rep:
  assumes "si_rep E s kc now key S"
  shows "si_members E kc s now key = Inr (sorted_list_of_set S)"
  using assms
proof (cases rule: si_cases)
  case absent
  then show ?thesis by (simp add: si_members_def nonempty_def)
next
  case (present x)
  then show ?thesis
    by (simp add: si_members_def si_prefix_keys_rep map_filter_map map_filter_some comp_def Let_def)
qed

lemma si_iter_rep:
  assumes "si_rep E s kc now key S"
  shows "si_iter E kc s now key f a = Inr (visit f a (sorted_list_of_set S))"
  using assms
proof (cases rule: si_cases)
  case absent
  then show ?thesis by (simp add: si_iter_def)
next
  case (present x)
  then show ?thesis
    by (simp add: si_iter_def si_prefix_keys_rep visit_map si_iter_step_def)
qed

lemma si_range_rep:
  assumes "si_rep E s kc now key S"
  shows "si_range E kc s now key cursor offset limit reversed
    = Inr (take limit (drop offset (si_after S cursor reversed)))"
  using assms
proof (cases rule: si_cases)
  case absent
  then show ?thesis by (simp add: si_range_def si_after_def)
next
  case (present x)
  show ?thesis
  proof (cases "limit = 0")
    case False
    note scan = si_scan_rep [OF present(7)]
    have page: "snd (visit (si_range_step cursor offset limit (length (iq kc key))) (0, [])
        (map (\<lambda>n. iq kc key @ to_be64 n) xs))
      = take limit (drop offset (filter (\<lambda>n. \<not> (cursor > 0 \<and> n = cursor)) xs))" for xs
      unfolding visit_map si_range_step_page
      using visit_page_start [of "Some limit"] False by (simp add: at_most_def)
    have up: "filter (\<lambda>n. 0 < cursor \<longrightarrow> n \<noteq> cursor) (filter ((\<le>) cursor) xs)
      = filter (\<lambda>n. cursor = 0 \<or> cursor < n) xs" for xs
      unfolding filter_filter by (rule filter_cong) (auto simp flip: word_neq_0_conv)
    have down: "filter (\<lambda>n. 0 < cursor \<longrightarrow> n \<noteq> cursor) (filter (\<lambda>n. cursor = 0 \<or> n \<le> cursor) xs)
      = filter (\<lambda>n. cursor = 0 \<or> n < cursor) xs" for xs
      unfolding filter_filter by (rule filter_cong) (auto simp flip: word_neq_0_conv)
    have fwd: "map fst (e_range E (w_data s) (Included (iq kc key @ to_be64 cursor)) (Included (iq kc key @ to_be64 U64_MAX)))
      = map (\<lambda>n. iq kc key @ to_be64 n) (filter (\<lambda>n. cursor \<le> n) (sorted_list_of_set S))"
      unfolding scan [OF disjI1 [OF refl] disjI1 [OF refl]] by (simp add: list_le_append_same)
    have bwd: "rev (map fst (e_range E (w_data s) (Included (iq kc key @ to_be64 0))
        (Included (iq kc key @ to_be64 (if cursor = 0 then U64_MAX else cursor)))))
      = map (\<lambda>n. iq kc key @ to_be64 n) (filter (\<lambda>n. cursor = 0 \<or> n \<le> cursor) (rev (sorted_list_of_set S)))"
      unfolding scan [OF disjI1 [OF refl] disjI1 [OF refl]] by (simp add: list_le_append_same rev_map rev_filter)
    show ?thesis
    proof (cases reversed)
      case True
      then show ?thesis
        using present(2) False
        by (simp add: si_range_def Let_def bwd page rev_filter down si_after_def
            del: filter_filter split del: if_split)
    next
      case fw: False
      then show ?thesis
        using present(2) False
        by (simp add: si_range_def Let_def fwd page up si_after_def del: filter_filter split del: if_split)
    qed
  qed (simp add: si_range_def)
qed

lemma si_range_by_value_rep:
  assumes "si_rep E s kc now key S"
  shows "si_range_by_value E kc s now key ra = Inr (si_selected (into_sortedint_range ra) S)"
proof -
  define spec where "spec = into_sortedint_range ra"
  have none: "si_selected spec S = []" if "si_is_empty_range spec"
    using that by (simp add: si_is_empty_range_iff si_selected_def at_most_def split: option.split)
  have zero: "si_selected spec S = []" if "si_count spec = Some 0"
    using that by (simp add: si_selected_def at_most_def)
  from assms have "si_range_by_value E kc s now key ra = Inr (si_selected spec S)"
  proof (cases rule: si_cases)
    case absent
    then show ?thesis by (simp add: si_range_by_value_def spec_def [symmetric])
  next
    case (present x)
    have page: "snd (visit (si_scan_step spec (length (iq kc key))) (0, []) (map (\<lambda>n. iq kc key @ to_be64 n) xs))
      = at_most (si_count spec) (drop (si_offset spec) xs)" if "si_count spec \<noteq> Some 0" for xs
      unfolding visit_map si_scan_step_page using visit_page_start [OF that, of "\<lambda>_. True"] by simp
    show ?thesis
      using present(2) none zero page
      by (auto simp: si_range_by_value_def spec_def [symmetric] si_spec_range_rep [OF present(7)] si_selected_def
          Let_def rev_map)
  qed
  then show ?thesis by (simp add: spec_def)
qed

lemma si_count_rep:
  assumes "si_rep E s kc now key S"
  shows "si_count_range E kc s now key ra = Inr (card {n \<in> S. si_contains (into_sortedint_range ra) n})"
proof -
  define spec where "spec = into_sortedint_range ra"
  have none: "{n \<in> S. si_contains spec n} = {}" if "si_is_empty_range spec"
    using that by (simp add: si_is_empty_range_iff)
  have all: "{n \<in> S. si_contains spec n} = S" if "si_full_range spec"
    using si_full_range_iff [OF that] by auto
  have len: "length (filter (si_contains spec) (sorted_list_of_set S)) = card {n \<in> S. si_contains spec n}" by (simp add: length_filter_sorted)
  from assms have "si_count_range E kc s now key ra = Inr (card {n \<in> S. si_contains spec n})"
  proof (cases rule: si_cases)
    case absent
    then show ?thesis by (simp add: si_count_range_def spec_def [symmetric])
  next
    case (present x)
    then show ?thesis
      using none all by (simp add: si_count_range_def spec_def [symmetric] si_spec_range_rep len)
  qed
  then show ?thesis by (simp add: spec_def)
qed

lemma si_rank_rep:
  assumes "si_rep E s kc now key S"
  shows "si_rank E kc s now key n = Inr (if n \<in> S then Some (card {m \<in> S. m < n}) else None)"
  using assms
proof (cases rule: si_cases)
  case absent
  then show ?thesis by (simp add: si_rank_def)
next
  case (present x)
  have len: "length (filter (\<lambda>m. m < n) (sorted_list_of_set S)) = card {m \<in> S. m < n}" by (simp add: length_filter_sorted)
  have "length (e_range E (w_data s) (Included (iq kc key @ to_be64 0)) (Excluded (iq kc key @ to_be64 n)))
      = card {m \<in> S. m < n}"
    unfolding length_map [of fst, symmetric] si_scan_rep [OF present(7), of _ 0 _ n, OF disjI1 [OF refl] disjI2 [OF refl]]
    by (simp add: list_le_append_same list_less_append_same len)
  then show ?thesis
    using present(2) si_member_iff [OF present(7), of n] by (simp add: si_rank_def)
qed

lemma si_revrank_rep:
  assumes "si_rep E s kc now key S"
  shows "si_revrank E kc s now key n = Inr (if n \<in> S then Some (card {m \<in> S. n < m}) else None)"
  using assms
proof (cases rule: si_cases)
  case absent
  then show ?thesis by (simp add: si_revrank_def)
next
  case (present x)
  have "card S - 1 - card {m \<in> S. m < n} = card {m \<in> S. n < m}" if "n \<in> S"
  proof -
    have "S = insert n ({m \<in> S. m < n} \<union> {m \<in> S. n < m})" using that by auto
    then have "card S = Suc (card ({m \<in> S. m < n} \<union> {m \<in> S. n < m}))"
      by (metis (no_types, lifting) UnE card_insert_disjoint finite_u64 mem_Collect_eq order_less_irrefl)
    moreover have "card ({m \<in> S. m < n} \<union> {m \<in> S. n < m}) = card {m \<in> S. m < n} + card {m \<in> S. n < m}"
      by (rule card_Un_disjoint) auto
    ultimately show ?thesis by simp
  qed
  then show ?thesis
    using present(2,5) si_rank_rep [OF assms, of n] by (simp add: si_revrank_def)
qed

end

section \<open>Writing\<close>

definition ids_subs :: "u64 list \<Rightarrow> bytes list" where
  "ids_subs ids = map to_be64 ids"

lemma ids_subs_simps [simp]:
  "ids_subs [] = []" "ids_subs (n # ids) = to_be64 n # ids_subs ids" "ids_subs (a @ b) = ids_subs a @ ids_subs b"
  "set (ids_subs ids) = to_be64 ` set ids" "length (ids_subs ids) = length ids"
  by (simp_all add: ids_subs_def)

text \<open>The record after a loop that raises or lowers the cardinality \<open>k\<close> times.\<close>

definition raised :: "nat \<Rightarrow> key_meta \<Rightarrow> key_meta" where
  "raised k m = m\<lparr>km_size := ((\<lambda>n. saturating_add n 1) ^^ k) (km_size m)\<rparr>"

definition lowered :: "nat \<Rightarrow> key_meta \<Rightarrow> key_meta" where
  "lowered k m = m\<lparr>km_size := ((\<lambda>n. saturating_sub n 1) ^^ k) (km_size m)\<rparr>"

lemma raised_lowered_0 [simp]: "raised 0 m = m" "lowered 0 m = m"
  by (simp_all add: raised_def lowered_def)

lemma raised_lowered_Suc:
  "raised k (m\<lparr>km_size := saturating_add (km_size m) 1\<rparr>) = raised (Suc k) m"
  "lowered k (m\<lparr>km_size := saturating_sub (km_size m) 1\<rparr>) = lowered (Suc k) m"
  using funpow_swap1 [of "\<lambda>n. saturating_add n 1" k "km_size m"] funpow_swap1 [of "\<lambda>n. saturating_sub n 1" k "km_size m"]
  by (simp_all add: raised_def lowered_def)

lemma raised_size: "unat (km_size m) + k < 2 ^ 63 \<Longrightarrow> unat (km_size (raised k m)) = unat (km_size m) + k"
  by (induction k) (simp_all add: raised_def saturating_add_unat)

lemma lowered_size: "unat (km_size (lowered k m)) = unat (km_size m) - k"
  by (induction k) (simp_all add: lowered_def saturating_sub_unat)

lemma raised_sizable [simp]: "sizable rt (raised k m) now = sizable rt m now" "sizable rt (lowered k m) now = sizable rt m now"
  by (simp_all add: raised_def lowered_def)

context kv_engine
begin

lemma si_add_fold:
  assumes "\<And>n. (is_new \<or> \<not> e_contains_key E (w_data s) (q @ to_be64 n)) \<longleftrightarrow> n \<notin> P"
  shows "foldl (si_add_step E s q is_new) (seen, k, m, batch) ids
    = (seen \<union> set ids, k + length (fresh seen P ids), raised (length (fresh seen P ids)) m,
       batch @ ins_members q (ids_subs (fresh seen P ids)))"
proof (induction ids arbitrary: seen k m batch)
  case (Cons n ids)
  show ?case
    using assms [of n] Cons
    by (cases "n \<in> seen"; cases "n \<in> P") (auto simp: si_add_step_def insert_data_def raised_lowered_Suc)
qed simp

lemma si_rem_fold:
  assumes "\<And>n. e_contains_key E (w_data s) (q @ to_be64 n) \<longleftrightarrow> n \<in> S"
  shows "foldl (si_rem_step E s q) (seen, k, m, batch) ids
    = (seen \<union> set ids, k + length (fresh seen (- S) ids), lowered (length (fresh seen (- S) ids)) m,
       batch @ rm_members q (ids_subs (fresh seen (- S) ids)))"
proof (induction ids arbitrary: seen k m batch)
  case (Cons n ids)
  show ?case
    using assms [of n] Cons
    by (cases "n \<in> seen"; cases "n \<in> S") (auto simp: si_rem_step_def rm_weak_data_def raised_lowered_Suc)
qed simp

text \<open>The fast path for one integer is the general one.\<close>

lemma si_add_general:
  assumes "ids \<noteq> []"
  shows "si_add E kc now ts key ids s =
    try_op (prepare_si_meta_for_write E kc now ts key [] s)
      (\<lambda>((meta, is_fresh), batch, s).
         let (_, added, meta, batch) = foldl (si_add_step E s (si_prefix_stack kc key) is_fresh) ({}, 0, meta, batch) ids
         in if added > 0 \<or> is_fresh
            then Inr (added, commit E (insert_meta (si_meta_key kc key) (km_encode meta) batch) s)
            else Inr (added, s))"
proof (cases "length ids = 1")
  case True
  then obtain n where "ids = [n]" by (auto simp: length_Suc_conv)
  then show ?thesis
    by (auto simp: si_add_def si_add_step_def Let_def fun_eq_iff
        intro!: arg_cong [of _ _ "try_op (prepare_si_meta_for_write E kc now ts key [] s)"])
qed (use assms in \<open>simp add: si_add_def\<close>)

lemma si_rem_general:
  assumes "ids \<noteq> []"
  shows "si_rem E kc now key ids s =
    try_op (get_si_meta E kc s now key)
      (\<lambda>m. case m of
         None \<Rightarrow> Inr (0, s)
       | Some meta \<Rightarrow>
           let (_, deleted, meta, batch) = foldl (si_rem_step E s (si_prefix_stack kc key)) ({}, 0, meta, []) ids
           in if deleted > 0 then Inr (deleted, commit_simple_batch E (si_meta_key kc key) meta batch s)
              else Inr (deleted, s))"
proof (cases "length ids = 1")
  case True
  then obtain n where "ids = [n]" by (auto simp: length_Suc_conv)
  then show ?thesis
    by (auto simp: si_rem_def si_rem_step_def Let_def fun_eq_iff
        intro!: arg_cong [of _ _ "try_op (get_si_meta E kc s now key)"] split: option.splits)
next
  case False
  then show ?thesis
    using assms unfolding si_rem_def by (simp only: if_False)
qed

lemma si_add_rep:
  assumes rep: "si_rep E s kc now key S" and len: "card S + length ids < 2 ^ 63"
  shows "\<exists>s'. si_add E kc now ts key ids s = Inr (card (set ids - S), s')
    \<and> si_rep E s' kc now key (S \<union> set ids)
    \<and> (\<forall>x. \<not> owns kc key x \<longrightarrow> dat E s' x = dat E s x \<and> met E s' x = met E s x)"
proof (cases "ids = []")
  case True
  then show ?thesis using rep by (auto simp: si_add_def)
next
  case False
  obtain M where M: "dom M = to_be64 ` S" "coll_rep RSortedInt SortedIntMeta SortedIntData E s kc now key M"
    using rep by (auto simp: si_rep_def)
  have MS: "M = Map.empty \<longleftrightarrow> S = {}" using M(1) by (metis dom_eq_empty_conv image_is_empty)
  obtain m batch s1 where p:
    "prepare_simple_meta E RSortedInt SortedIntMeta kc now ts key (iq kc key) (ik kc key) [] s
       = Inr ((m, M = Map.empty), batch, s1)"
    and s1: "dat E s1 = dat E s" "met E s1 = met E s"
    and b: "touches (iq kc key) (ik kc key) batch" "\<forall>x. apply_ops PMeta batch x = x"
    and m: "sizable RSortedInt m now" "unat (km_size m) = card (dom M)"
    and view: "sub_view (apply_ops PData batch (dat E s)) (iq kc key) = M"
    and old: "M \<noteq> Map.empty \<longrightarrow> sub_view (dat E s) (iq kc key) = M \<and> batch = [] \<and> s1 = s \<and> met E s (ik kc key) \<noteq> None"
    by (rule ints.prepare_coll [OF M(2), where ts = ts])
  define ns where "ns = fresh {} S ids"
  have ns: "set ns = set ids - S" "length ns = card (set ids - S)"
    by (simp_all add: ns_def set_fresh length_fresh)
  have "(M = Map.empty \<or> \<not> e_contains_key E (w_data s1) (iq kc key @ to_be64 x)) \<longleftrightarrow> x \<notin> S" for x
  proof (cases "M = Map.empty")
    case False
    then show ?thesis using si_member_iff [of s kc key S x] old M(1) by auto
  qed (use MS in auto)
  note fold = si_add_fold [of "M = Map.empty" s1 "iq kc key" S, OF this, where seen = "{}" and k = 0 and ids = ids, folded ns_def]
  define m' where "m' = raised (length ns) m"
  let ?ops = "(batch @ ins_members (iq kc key) (ids_subs ns)) @ [BInsert PMeta (ik kc key) (km_encode m')]"
  have fr: "ns \<noteq> []" if "M = Map.empty" using that MS ns(1) False by (cases ids) auto
  then have run: "si_add E kc now ts key ids s = Inr (length ns, if ns = [] then s1 else commit E ?ops s1)"
    unfolding si_add_general [OF False] using p
    by (auto simp add: prepare_si_meta_for_write_def fold m'_def insert_meta_def)
  show ?thesis
  proof (cases "ns = []")
    case True
    then have "S \<union> set ids = S" "s1 = s" using ns fr old by auto
    then show ?thesis using rep run True ns by simp
  next
    case ne: False
    have le: "length ns \<le> length ids"
      using card_mono [of "set ids" "set ids - S"] card_length [of ids] by (simp add: ns(2))
    have c: "card (S \<union> set ids) = card S + length ns"
      using ns(2) card_Un_disjoint [of S "set ids - S"] by simp
    define M' where "M' = (\<lambda>k. if k \<in> set (ids_subs ns) then Some [] else M k)"
    have d: "dom M' = to_be64 ` (S \<union> set ids)" using ns(1) M(1) unfolding M'_def dom_if_Some by auto
    have t: "touches (iq kc key) (ik kc key) ?ops" using b(1) by simp
    have "coll_rep RSortedInt SortedIntMeta SortedIntData E (commit E ?ops s1) kc now key M'"
    proof (rule ints.coll_commit [OF M(2) s1 t])
      show "sub_view (apply_ops PData ?ops (dat E s)) (iq kc key) = M'"
        using members_view(1) [of "iq kc key" "ids_subs ns" "apply_ops PData batch (dat E s)"] unfolding view M'_def by simp
      show "unat (km_size m') = card (dom M')"
        using m(2) M(1) len le c raised_size [of m "length ns"] by (simp add: m'_def d)
      show "M' \<noteq> Map.empty"
      proof
        assume "M' = Map.empty"
        then have "to_be64 ` (S \<union> set ids) = {}" using d by simp
        then show False using False by (cases ids) simp_all
      qed
      show "card (dom M') < 2 ^ 63" "finite (dom M')" using c le len unfolding d by simp_all
    qed (use m(1) in \<open>simp_all add: m'_def\<close>)
    then have "si_rep E (commit E ?ops s1) kc now key (S \<union> set ids)"
      unfolding si_rep_def using d by blast
    then show ?thesis using run ne ns(2) ints.coll_frame [OF t _ s1] by auto
  qed
qed

end

context kv_engine
begin

lemma si_rem_ids:
  assumes rep: "si_rep E s kc now key S" and sz: "unat (km_size m) = card S" "sizable RSortedInt m now"
    and dom: "dom (sub_view (dat E s) (iq kc key)) = to_be64 ` S"
    and ns: "set ns \<subseteq> S" "distinct ns"
    and m': "sizable RSortedInt m' now" "unat (km_size m') = card S - length ns"
  defines "s' \<equiv> commit_simple_batch E (ik kc key) m' (rm_members (iq kc key) (ids_subs ns)) s"
  shows "si_rep E s' kc now key (S - set ns)
    \<and> (\<forall>x. \<not> owns kc key x \<longrightarrow> dat E s' x = dat E s x \<and> met E s' x = met E s x)"
proof -
  obtain M where M: "dom M = to_be64 ` S" "coll_rep RSortedInt SortedIntMeta SortedIntData E s kc now key M"
    using rep by (auto simp: si_rep_def)
  let ?M = "\<lambda>k. if k \<in> set (ids_subs ns) then None else sub_view (dat E s) (iq kc key) k"
  have d: "dom ?M = to_be64 ` (S - set ns)"
    using dom unfolding dom_if_None by (auto simp: image_set_diff inj_on_def)
  have l: "card (S - set ns) = card S - length ns"
    using ns card_Diff_subset [of "set ns" S] by (simp add: distinct_card)
  have "coll_rep RSortedInt SortedIntMeta SortedIntData E s' kc now key ?M
      \<and> (\<forall>x. \<not> owns kc key x \<longrightarrow> dat E s' x = dat E s x \<and> met E s' x = met E s x)"
    unfolding s'_def
  proof (rule ints.coll_commit_batch [OF M(2)])
    show "unat (km_size m') = card (dom ?M)" unfolding d using m'(2) l by simp
    show "card (dom ?M) < 2 ^ 63" using si_rep_card [OF rep] l unfolding d card_be64 by linarith
    show "finite (dom ?M)" unfolding d by simp
  qed (use m'(1) in \<open>simp_all add: members_view\<close>)
  then show ?thesis unfolding si_rep_def using d by blast
qed

lemma si_rem_rep:
  assumes rep: "si_rep E s kc now key S"
  shows "\<exists>s'. si_rem E kc now key ids s = Inr (card (S \<inter> set ids), s')
    \<and> si_rep E s' kc now key (S - set ids)
    \<and> (\<forall>x. \<not> owns kc key x \<longrightarrow> dat E s' x = dat E s x \<and> met E s' x = met E s x)"
proof (cases "ids = []")
  case True
  then show ?thesis using rep by (auto simp: si_rem_def)
next
  case ne: False
  from rep show ?thesis
  proof (cases rule: si_cases)
    case absent
    then show ?thesis using rep by (simp add: si_rem_general [OF ne])
  next
    case (present m)
    define ns where "ns = fresh {} (- S) ids"
    have ns: "set ns = S \<inter> set ids" "distinct ns" "length ns = card (S \<inter> set ids)"
      unfolding ns_def by (auto simp: set_fresh distinct_fresh length_fresh Int_commute Diff_Compl)
    note fold = si_rem_fold [of s "iq kc key" S, OF si_member_iff [OF present(7)], where seen = "{}" and k = 0
        and ids = ids and batch = "[]", folded ns_def]
    have run: "si_rem E kc now key ids s = Inr (length ns, if ns = [] then s
        else commit_simple_batch E (ik kc key) (lowered (length ns) m) (rm_members (iq kc key) (ids_subs ns)) s)"
      unfolding si_rem_general [OF ne] using present(2) by (simp add: fold)
    have e: "S - set ids = S - set ns" using ns(1) by auto
    show ?thesis
    proof (cases "ns = []")
      case True
      then show ?thesis using run rep e ns by auto
    next
      case False
      have "unat (km_size (lowered (length ns) m)) = card S - length ns"
        by (simp add: lowered_size present(5))
      then show ?thesis
        using si_rem_ids [OF rep present(5,6,7) _ ns(2), of "lowered (length ns) m"] present(6) run e ns False
        by auto
    qed
  qed
qed

lemma si_remove_all_rep:
  assumes rep: "si_rep E s kc now key S"
  shows "si_rep E (si_remove_all E kc key s) kc now key {}
    \<and> (\<forall>x. \<not> owns kc key x \<longrightarrow> dat E (si_remove_all E kc key s) x = dat E s x
         \<and> met E (si_remove_all E kc key s) x = met E s x)"
proof -
  obtain M where M: "coll_rep RSortedInt SortedIntMeta SortedIntData E s kc now key M"
    using rep by (auto simp: si_rep_def)
  let ?ops = "clear_prefix_in_batch E PData s (iq kc key) [] @ [BRm PMeta (ik kc key)]"
  have t: "touches (iq kc key) (ik kc key) ?ops" using clear_prefix_touches by simp
  have "coll_rep RSortedInt SortedIntMeta SortedIntData E (commit E ?ops s) kc now key Map.empty"
    by (rule ints.coll_commit_empty [OF M refl refl t]) simp
  then have "si_rep E (commit E ?ops s) kc now key {}" by (auto simp: si_rep_def)
  then show ?thesis
    using ints.coll_frame [OF t _ refl refl] by (simp add: si_remove_all_def rm_meta_def)
qed

lemma rm_fold:
  "foldl (\<lambda>(deleted, batch) k. (deleted + 1, rm_weak_data k batch)) (d, b) (map (\<lambda>n. q @ to_be64 n) ns)
    = (d + length ns, b @ rm_members q (ids_subs ns))"
  by (induction ns arbitrary: d b) (simp_all add: rm_weak_data_def)

text \<open>The tail the two range removals share.\<close>

lemma si_commit_deleted_rep:
  assumes rep: "si_rep E s kc now key S" and sz: "unat (km_size m) = card S" "sizable RSortedInt m now"
    and dom: "dom (sub_view (dat E s) (iq kc key)) = to_be64 ` S"
    and ns: "set ns \<subseteq> S" "distinct ns"
  defines "s' \<equiv> si_commit_deleted E (ik kc key) m (length ns) (rm_members (iq kc key) (ids_subs ns)) s"
  shows "si_rep E s' kc now key (S - set ns)
    \<and> (\<forall>x. \<not> owns kc key x \<longrightarrow> dat E s' x = dat E s x \<and> met E s' x = met E s x)"
proof (cases "ns = []")
  case True
  then show ?thesis using rep by (simp add: s'_def si_commit_deleted_def)
next
  case False
  let ?m = "m\<lparr>km_size := saturating_sub (km_size m) (word_of_nat (length ns))\<rparr>"
  have "length ns \<le> card S" using ns card_mono [of S "set ns"] by (simp add: distinct_card)
  then have "unat (km_size ?m) = card S - length ns"
    using sz(1) si_rep_card [OF rep] by (simp add: saturating_sub_unat unat_of_nat)
  then show ?thesis
    using si_rem_ids [OF rep sz dom ns, of ?m] sz(2) False by (simp add: s'_def si_commit_deleted_def)
qed

lemma si_rem_range_by_value_rep:
  fixes ra :: si_range_arg
  assumes rep: "si_rep E s kc now key S"
  defines "D \<equiv> {n \<in> S. si_contains (into_sortedint_range ra) n}"
  shows "\<exists>s'. si_rem_range_by_value E kc now key ra s = Inr (card D, s')
    \<and> si_rep E s' kc now key (S - D)
    \<and> (\<forall>x. \<not> owns kc key x \<longrightarrow> dat E s' x = dat E s x \<and> met E s' x = met E s x)"
proof -
  define spec where "spec = into_sortedint_range ra"
  have D: "D = {n \<in> S. si_contains spec n}" by (simp add: D_def spec_def)
  show ?thesis
  proof (cases "si_is_empty_range spec")
    case True
    then have "D = {}" by (simp add: D si_is_empty_range_iff)
    then show ?thesis using rep True by (simp add: si_rem_range_by_value_def spec_def [symmetric])
  next
    case ne: False
    from rep show ?thesis
    proof (cases rule: si_cases)
      case absent
      then show ?thesis using rep ne by (simp add: si_rem_range_by_value_def spec_def [symmetric] D)
    next
      case (present m)
      show ?thesis
      proof (cases "si_full_range spec")
        case True
        then have "D = S" using si_full_range_iff [OF True] by (auto simp: D)
        then show ?thesis
          using si_remove_all_rep [OF rep] True ne present(2,5)
          by (simp add: si_rem_range_by_value_def spec_def [symmetric])
      next
        case False
        define ns where "ns = filter (si_contains spec) (sorted_list_of_set S)"
        have ns: "set ns = D" "distinct ns" "length ns = card D"
          by (simp_all add: ns_def D length_filter_sorted)
        have "si_rem_range_by_value E kc now key ra s = Inr (length ns,
            si_commit_deleted E (ik kc key) m (length ns) (rm_members (iq kc key) (ids_subs ns)) s)"
          using ne False present(2)
          by (simp add: si_rem_range_by_value_def spec_def [symmetric] si_spec_range_rep [OF present(7)] rm_fold [simplified] ns_def [symmetric])
        then show ?thesis
          using si_commit_deleted_rep [OF rep present(5,6,7) _ ns(2)] ns(1,3) by (simp add: D)
      qed
    qed
  qed
qed

lemma si_rank_loop_eq:
  assumes "s \<le> e"
  shows "si_rank_loop q s e r d b (map (\<lambda>n. q @ to_be64 n) ns)
    = (let del = take (Suc e - max r s) (drop (s - r) ns)
       in (d + length del, b @ rm_members q (ids_subs del)))"
proof (induction ns arbitrary: r d b)
  case (Cons n ns)
  consider "r > e" | "r \<le> e" "r \<ge> s" | "r < s" using assms by linarith
  then show ?case
  proof cases
    case 1
    then show ?thesis using assms by simp
  next
    case 2
    then have "Suc e - r = Suc (Suc e - Suc r)" "s - r = 0" "max r s = r" "max (Suc r) s = Suc r" "s - Suc r = 0"
      by auto
    then show ?thesis using 2 Cons [of "Suc r"] by (simp add: rm_weak_data_def Let_def)
  next
    case 3
    then have "s - r = Suc (s - Suc r)" "max r s = s" "max (Suc r) s = s" by auto
    then show ?thesis using 3 assms Cons [of "Suc r"] by (simp add: Let_def)
  qed
qed simp

lemma set_slice_le: "set (take a (drop b xs)) \<subseteq> set xs"
  by (meson order_trans set_drop_subset set_take_subset)

lemma si_rem_range_by_rank_rep:
  assumes rep: "si_rep E s kc now key S" and r: "into_index_range ri = (a, b)"
  defines "D \<equiv> redis_slice a b (sorted_list_of_set S)"
  shows "\<exists>s'. si_rem_range_by_rank E kc now key ri s = Inr (length D, s')
    \<and> si_rep E s' kc now key (S - set D)
    \<and> (\<forall>x. \<not> owns kc key x \<longrightarrow> dat E s' x = dat E s x \<and> met E s' x = met E s x)"
  using rep
proof (cases rule: si_cases)
  case absent
  then show ?thesis using rep r by (simp add: si_rem_range_by_rank_def D_def redis_slice_def)
next
  case (present m)
  have sz: "sint (km_size m) = int (length (sorted_list_of_set S))"
    using sint_small [of "km_size m"] present(5,8) by simp
  obtain i j where n: "normalize_range a b (int (length (sorted_list_of_set S))) = (i, j)"
    by (cases "normalize_range a b (int (length (sorted_list_of_set S)))")
  note sl = redis_slice_normalize [OF n]
  have run: "si_rem_range_by_rank E kc now key ri s = (if \<not> i \<le> j then Inr (0, s)
      else if nat i = 0 \<and> nat j + 1 \<ge> card S then Inr (card S, si_remove_all E kc key s)
      else let (deleted, batch) = si_rank_loop (iq kc key) (nat i) (nat j) 0 0 []
             (map fst (e_prefix E (w_data s) (iq kc key)))
           in Inr (deleted, si_commit_deleted E (ik kc key) m deleted batch s))"
    using present(2,4,5) n by (simp add: si_rem_range_by_rank_def r sz)
  show ?thesis
  proof (cases "i \<le> j")
    case False
    then show ?thesis using run rep by (simp add: D_def sl)
  next
    case True
    have bd: "0 \<le> i" "j < int (card S)"
      using normalize_range_bounds [OF n] present(1) by (auto simp: card_gt_0_iff)
    define s' e' where "s' = nat i" and "e' = nat j"
    have ij: "i = int s'" "j = int e'" "s' \<le> e'" "e' < card S" using True bd by (auto simp: s'_def e'_def)
    have D: "D = take (Suc e' - s') (drop s' (sorted_list_of_set S))"
    proof -
      have "nat (j - i + 1) = Suc e' - s'" using ij by simp
      then show ?thesis using True ij by (simp add: D_def sl)
    qed
    have keys: "map fst (e_prefix E (w_data s) (iq kc key)) = map (\<lambda>n. iq kc key @ to_be64 n) (sorted_list_of_set S)"
      using si_prefix_keys_rep [OF present(7)] by (simp add: si_prefix_keys_def takeWhile_prefix_all)
    show ?thesis
    proof (cases "s' = 0 \<and> e' + 1 \<ge> card S")
      case all: True
      then have "D = sorted_list_of_set S" by (simp add: D)
      then show ?thesis using run True all si_remove_all_rep [OF rep] by (simp add: ij)
    next
      case part: False
      have np: "\<not> (nat i = 0 \<and> nat j + 1 \<ge> card S)" using part by (simp add: ij)
      have "si_rem_range_by_rank E kc now key ri s = Inr (length D,
          si_commit_deleted E (ik kc key) m (length D) (rm_members (iq kc key) (ids_subs D)) s)"
        using True unfolding run if_not_P [OF np] by (simp add: ij keys si_rank_loop_eq [OF ij(3)] D Let_def)
      moreover have "set D \<subseteq> S" "distinct D"
        using set_slice_le [of _ _ "sorted_list_of_set S"] by (auto simp: D intro!: distinct_take distinct_drop)
      ultimately show ?thesis
        using si_commit_deleted_rep [OF rep present(5,6,7)] by blast
    qed
  qed
qed

end

end
