(* ===== verification/Si_Api.thy ===== *)
theory Si_Api
  imports Si_Rep
begin

text \<open>
  The sorted integer commands together: an abstract machine whose state gives every key its set of
  64-bit integers, the same commands on the store, and the simulation between them.
\<close>

section \<open>Commands\<close>

datatype si_cmd =
    SiAdd bytes "u64 list"
  | SiRem bytes "u64 list"
  | SiCard bytes
  | SiExists bytes u64
  | SiMExist bytes "u64 list"
  | SiMembers bytes
  | SiScan bytes u64 nat nat bool
  | SiByValue bytes si_range_arg
  | SiRevByValue bytes si_range_arg
  | SiRank bytes u64
  | SiRevRank bytes u64
  | SiCount bytes si_range_arg
  | SiRemByValue bytes si_range_arg
  | SiRemByRank bytes index_range

datatype si_reply =
    INat nat | IBool bool | IBools "bool list" | IInts "u64 list" | IRank "nat option" | IFail error

definition si_write :: "'p wedb \<Rightarrow> error + (nat \<times> 'p wedb) \<Rightarrow> si_reply \<times> 'p wedb" where
  "si_write s r = (case r of Inl e \<Rightarrow> (IFail e, s) | Inr (a, s') \<Rightarrow> (INat a, s'))"

definition si_read :: "('a \<Rightarrow> si_reply) \<Rightarrow> 'p wedb \<Rightarrow> error + 'a \<Rightarrow> si_reply \<times> 'p wedb" where
  "si_read f s r = (case r of Inl e \<Rightarrow> (IFail e, s) | Inr a \<Rightarrow> (f a, s))"

lemma si_reply_simps [simp]:
  "si_write s (Inr (a, s')) = (INat a, s')" "si_write s (Inl e) = (IFail e, s)"
  "si_read f s (Inr x) = (f x, s)" "si_read f s (Inl e) = (IFail e, s)"
  by (simp_all add: si_write_def si_read_def)

fun si_call :: "'p engine \<Rightarrow> key_composer \<Rightarrow> u64 \<Rightarrow> u64 \<Rightarrow> si_cmd \<Rightarrow> 'p wedb \<Rightarrow> si_reply \<times> 'p wedb" where
  "si_call E kc now ts (SiAdd k ids) s = si_write s (si_add E kc now ts k ids s)"
| "si_call E kc now ts (SiRem k ids) s = si_write s (si_rem E kc now k ids s)"
| "si_call E kc now ts (SiCard k) s = si_read (\<lambda>n. INat (unat n)) s (si_card E kc s now k)"
| "si_call E kc now ts (SiExists k n) s = si_read IBool s (si_exists E kc s now k n)"
| "si_call E kc now ts (SiMExist k ids) s = si_read IBools s (si_mexist E kc s now k ids)"
| "si_call E kc now ts (SiMembers k) s = si_read IInts s (si_members E kc s now k)"
| "si_call E kc now ts (SiScan k c o' l r) s = si_read IInts s (si_range E kc s now k c o' l r)"
| "si_call E kc now ts (SiByValue k ra) s = si_read IInts s (si_range_by_value E kc s now k ra)"
| "si_call E kc now ts (SiRevByValue k ra) s = si_read IInts s (si_rev_range_by_value E kc s now k ra)"
| "si_call E kc now ts (SiRank k n) s = si_read IRank s (si_rank E kc s now k n)"
| "si_call E kc now ts (SiRevRank k n) s = si_read IRank s (si_revrank E kc s now k n)"
| "si_call E kc now ts (SiCount k ra) s = si_read INat s (si_count_range E kc s now k ra)"
| "si_call E kc now ts (SiRemByValue k ra) s = si_write s (si_rem_range_by_value E kc now k ra s)"
| "si_call E kc now ts (SiRemByRank k ri) s = si_write s (si_rem_range_by_rank E kc now k ri s)"

section \<open>The abstract machine\<close>

type_synonym int_sets = "bytes \<Rightarrow> u64 set"

fun si_spec :: "si_cmd \<Rightarrow> int_sets \<Rightarrow> si_reply \<times> int_sets" where
  "si_spec (SiAdd k ids) A = (INat (card (set ids - A k)), A(k := A k \<union> set ids))"
| "si_spec (SiRem k ids) A = (INat (card (A k \<inter> set ids)), A(k := A k - set ids))"
| "si_spec (SiCard k) A = (INat (card (A k)), A)"
| "si_spec (SiExists k n) A = (IBool (n \<in> A k), A)"
| "si_spec (SiMExist k ids) A = (IBools (map (\<lambda>n. n \<in> A k) ids), A)"
| "si_spec (SiMembers k) A = (IInts (sorted_list_of_set (A k)), A)"
| "si_spec (SiScan k c o' l r) A = (IInts (take l (drop o' (si_after (A k) c r))), A)"
| "si_spec (SiByValue k ra) A = (IInts (si_selected (into_sortedint_range ra) (A k)), A)"
| "si_spec (SiRevByValue k ra) A =
     (IInts (si_selected ((into_sortedint_range ra)\<lparr>si_reversed := True\<rparr>) (A k)), A)"
| "si_spec (SiRank k n) A = (IRank (if n \<in> A k then Some (card {m \<in> A k. m < n}) else None), A)"
| "si_spec (SiRevRank k n) A = (IRank (if n \<in> A k then Some (card {m \<in> A k. n < m}) else None), A)"
| "si_spec (SiCount k ra) A = (INat (card {n \<in> A k. si_contains (into_sortedint_range ra) n}), A)"
| "si_spec (SiRemByValue k ra) A =
     (let D = {n \<in> A k. si_contains (into_sortedint_range ra) n} in (INat (card D), A(k := A k - D)))"
| "si_spec (SiRemByRank k ri) A =
     (let D = (case into_index_range ri of (a, b) \<Rightarrow> redis_slice a b (sorted_list_of_set (A k)))
      in (INat (length D), A(k := A k - set D)))"

fun si_key_of :: "si_cmd \<Rightarrow> bytes" where
  "si_key_of (SiAdd k ids) = k"
| "si_key_of (SiRem k ids) = k"
| "si_key_of (SiCard k) = k"
| "si_key_of (SiExists k n) = k"
| "si_key_of (SiMExist k ids) = k"
| "si_key_of (SiMembers k) = k"
| "si_key_of (SiScan k c o' l r) = k"
| "si_key_of (SiByValue k ra) = k"
| "si_key_of (SiRevByValue k ra) = k"
| "si_key_of (SiRank k n) = k"
| "si_key_of (SiRevRank k n) = k"
| "si_key_of (SiCount k ra) = k"
| "si_key_of (SiRemByValue k ra) = k"
| "si_key_of (SiRemByRank k ri) = k"

text \<open>A command fits when its key does and the set it may grow keeps fewer than \<open>2^63\<close> members.\<close>

definition si_fits :: "si_cmd \<Rightarrow> int_sets \<Rightarrow> bool" where
  "si_fits c A \<longleftrightarrow> key_fits (si_key_of c)
     \<and> (case c of SiAdd k ids \<Rightarrow> card (A k) + length ids < 2 ^ 63 | _ \<Rightarrow> True)"

fun si_reads :: "si_cmd \<Rightarrow> bool" where
  "si_reads (SiAdd k ids) = False"
| "si_reads (SiRem k ids) = False"
| "si_reads (SiRemByValue k ra) = False"
| "si_reads (SiRemByRank k ri) = False"
| "si_reads c = True"

section \<open>The simulation\<close>

abbreviation ints_rep :: "'p engine \<Rightarrow> 'p wedb \<Rightarrow> key_composer \<Rightarrow> u64 \<Rightarrow> int_sets \<Rightarrow> bool" where
  "ints_rep E s kc now \<equiv> all_rep (\<lambda>s k S. si_rep E s kc now k S) s"

context kv_engine
begin

lemma si_cong: "si_rep E s kc now key S \<Longrightarrow> same_key E kc key s s' \<Longrightarrow> si_rep E s' kc now key S"
  unfolding si_rep_def using ints.coll_cong [of s kc now key _ s'] by blast

end

sublocale kv_engine \<subseteq> int_keys: key_rep E kc "\<lambda>s k S. si_rep E s kc now k S" for kc now
  by unfold_locales (rule si_cong)

context kv_engine
begin

lemma si_read_sim:
  assumes rep: "si_rep E s kc now k (A k)" and k: "k = si_key_of c" and read: "si_reads c"
  shows "si_call E kc now ts c s = (fst (si_spec c A), s) \<and> snd (si_spec c A) = A"
proof (cases c)
  case (SiCard k')
  then show ?thesis using k si_card_rep [OF rep] si_rep_card [OF rep] by (simp add: unat_of_nat)
next
  case (SiRevByValue k' ra)
  then show ?thesis using k si_range_by_value_rep [OF rep] by (simp add: si_rev_range_by_value_def)
qed (use rep k read in \<open>simp_all add: si_exists_rep si_mexist_rep si_members_rep si_range_rep
  si_range_by_value_rep si_rank_rep si_revrank_rep si_count_rep\<close>)

lemma si_call_sim:
  assumes rep: "ints_rep E s kc now A" and fit: "si_fits c A"
  shows "\<exists>s'. si_call E kc now ts c s = (fst (si_spec c A), s') \<and> ints_rep E s' kc now (snd (si_spec c A))"
proof -
  have k: "key_fits (si_key_of c)" using fit by (simp add: si_fits_def)
  note at = all_repD [OF rep k]
  note step = int_keys.all_rep_step [OF rep k]
  show ?thesis
  proof (cases c)
    case (SiAdd k ids)
    then show ?thesis
      using si_add_rep [of s kc now k "A k" ids ts] at step fit by (auto simp: si_fits_def)
  next
    case (SiRem k ids)
    then show ?thesis using si_rem_rep [of s kc now k "A k" ids] at step by auto
  next
    case (SiRemByValue k ra)
    then show ?thesis using si_rem_range_by_value_rep [of s kc now k "A k" ra] at step by (auto simp: Let_def)
  next
    case (SiRemByRank k ri)
    obtain a b where "into_index_range ri = (a, b)" by (cases "into_index_range ri")
    then show ?thesis
      using SiRemByRank si_rem_range_by_rank_rep [of s kc now k "A k" ri a b] at step by (auto simp: Let_def)
  qed (use si_read_sim [of s kc now _ A c ts, OF at refl] rep in \<open>simp_all\<close>)
qed

end

section \<open>Properties\<close>

text \<open>C5: Every sorted-integer command on a store where every key is a set of 64-bit integers
  replies as on plain sets and leaves a store where every key is the resulting set: additions,
  removals of members, of value ranges and of rank ranges, membership, cardinality, cursor scans and
  value ranges in both directions with offset and count, ranks from both ends, and counts. The order
  of the big-endian keys is the order of the integers.\<close>

theorem si_commands_refine:
  assumes "kv_engine E" and "ints_rep E s kc now A" and "si_fits c A"
  shows "\<exists>s'. si_call E kc now ts c s = (fst (si_spec c A), s') \<and> ints_rep E s' kc now (snd (si_spec c A))"
  using kv_engine.si_call_sim [OF assms] .

lemma empty_ints_rep: "ints_rep mem_engine mem_db kc0 5 (\<lambda>_. {})"
  by (auto simp: all_rep_def si_rep_def coll_rep_def live_string_def other_live_def live_meta_def live_own_def)

theorem si_commands_refine_witness:
  "\<exists>s'. si_call mem_engine kc0 5 1 (SiAdd [97] [300, 7, 300]) mem_db = (INat 2, s')
     \<and> ints_rep mem_engine s' kc0 5 ((\<lambda>_. {})([97] := {7, 300}))"
proof -
  have "si_fits (SiAdd [97] [300, 7, 300]) (\<lambda>_. {})" by (simp add: si_fits_def)
  moreover have "card ({7, 300} :: u64 set) = 2" "{300, 7, 300} = ({7, 300} :: u64 set)" by auto
  ultimately show ?thesis
    using si_commands_refine [OF kv_engine_mem empty_ints_rep, of "SiAdd [97] [300, 7, 300]" 1]
    by (simp add: numeral_2_eq_2 del: si_call.simps)
qed

end
