(* ===== verification/Hash_Meta.thy ===== *)
theory Hash_Meta
  imports Owned
begin

text \<open>
  \<^verbatim>\<open>embed/src/api/hash/meta.rs\<close> and \<^verbatim>\<open>opt.rs\<close>: the metadata record of a hash, the format of its
  fields, and the transitions that keep the counters of the record. A field value is stored behind
  the time at which the field expires, eight bytes that are zero for a field that does not; a hash in
  the legacy encoding has neither the prefix nor expiring fields. The record counts the fields
  (\<open>size\<close>), those that never expire (\<open>persist\<close>), and bounds the times of the others.
\<close>

section \<open>Types\<close>

datatype hash_mode = Legacy | FieldExpiration

datatype field_kind = FMissing | FPersistent | FLiveTTL | FExpired

record field_state =
  fs_kind :: field_kind
  fs_expire :: u64
  fs_value :: bytes

record cached_state =
  cs_kind :: field_kind
  cs_expire :: u64
  cs_raw :: "bytes option"

datatype hexpire_cond = HxNone | HxNx | HxXx | HxGt | HxLt

datatype set_condition = SetAny | SetFnx | SetFxx

datatype ttl_action = TtlDiscard | TtlKeep | TtlSet | TtlPersist

datatype hset_opt =
  HsEx u64 | HsPx u64 | HsExAt u64 | HsPxAt u64 | HsKeepTtl | HsFnx | HsFxx

datatype hgetex_opt = HgEx u64 | HgPx u64 | HgExAt u64 | HgPxAt u64 | HgPersist

datatype hash_length_mode = Accurate | Approximate

record hash_set_ex =
  hse_condition :: set_condition
  hse_ttl_action :: ttl_action
  hse_expire_at_ms :: u64

record hash_get_ex =
  hge_ttl_action :: ttl_action
  hge_expire_at_ms :: u64

record hash_meta =
  hh_base :: key_meta
  hh_mode :: hash_mode
  hh_persist :: u64
  hh_lower :: u64
  hh_upper :: u64

abbreviation hh_size :: "hash_meta \<Rightarrow> u64" where
  "hh_size m \<equiv> km_size (hh_base m)"

abbreviation hh_set_size :: "u64 \<Rightarrow> hash_meta \<Rightarrow> hash_meta" where
  "hh_set_size n m \<equiv> m\<lparr>hh_base := (hh_base m)\<lparr>km_size := n\<rparr>\<rparr>"

section \<open>Options\<close>

definition hse_default :: hash_set_ex where
  "hse_default = \<lparr>hse_condition = SetAny, hse_ttl_action = TtlDiscard, hse_expire_at_ms = 0\<rparr>"

fun hse_step :: "u64 \<Rightarrow> hash_set_ex \<Rightarrow> hset_opt \<Rightarrow> hash_set_ex" where
  "hse_step now_ms opts (HsEx sec) =
     opts\<lparr>hse_ttl_action := TtlSet, hse_expire_at_ms := saturating_add now_ms (saturating_mul_u64 sec 1000)\<rparr>"
| "hse_step now_ms opts (HsPx ms) = opts\<lparr>hse_ttl_action := TtlSet, hse_expire_at_ms := saturating_add now_ms ms\<rparr>"
| "hse_step now_ms opts (HsExAt sec) = opts\<lparr>hse_ttl_action := TtlSet, hse_expire_at_ms := saturating_mul_u64 sec 1000\<rparr>"
| "hse_step now_ms opts (HsPxAt ms) = opts\<lparr>hse_ttl_action := TtlSet, hse_expire_at_ms := ms\<rparr>"
| "hse_step now_ms opts HsKeepTtl = opts\<lparr>hse_ttl_action := TtlKeep\<rparr>"
| "hse_step now_ms opts HsFnx = opts\<lparr>hse_condition := SetFnx\<rparr>"
| "hse_step now_ms opts HsFxx = opts\<lparr>hse_condition := SetFxx\<rparr>"

definition hse_from_options :: "hset_opt list \<Rightarrow> u64 \<Rightarrow> hash_set_ex" where
  "hse_from_options options now_ms = foldl (hse_step now_ms) hse_default options"

fun hge_from_options :: "hgetex_opt list \<Rightarrow> u64 \<Rightarrow> hash_get_ex" where
  "hge_from_options [] now_ms = \<lparr>hge_ttl_action = TtlDiscard, hge_expire_at_ms = 0\<rparr>"
| "hge_from_options (HgEx sec # _) now_ms =
     \<lparr>hge_ttl_action = TtlSet, hge_expire_at_ms = saturating_add now_ms (saturating_mul_u64 sec 1000)\<rparr>"
| "hge_from_options (HgPx ms # _) now_ms = \<lparr>hge_ttl_action = TtlSet, hge_expire_at_ms = saturating_add now_ms ms\<rparr>"
| "hge_from_options (HgExAt sec # _) now_ms =
     \<lparr>hge_ttl_action = TtlSet, hge_expire_at_ms = saturating_mul_u64 sec 1000\<rparr>"
| "hge_from_options (HgPxAt ms # _) now_ms = \<lparr>hge_ttl_action = TtlSet, hge_expire_at_ms = ms\<rparr>"
| "hge_from_options (HgPersist # _) now_ms = \<lparr>hge_ttl_action = TtlPersist, hge_expire_at_ms = 0\<rparr>"

section \<open>Field values\<close>

definition is_field_expired :: "u64 \<Rightarrow> u64 \<Rightarrow> bool" where
  "is_field_expired expire_at now_ms \<longleftrightarrow> expire_at > 0 \<and> expire_at \<le> now_ms"

definition is_immediate_expire :: "u64 \<Rightarrow> u64 \<Rightarrow> bool" where
  "is_immediate_expire expire_at now_ms \<longleftrightarrow> expire_at \<le> now_ms"

definition encode_hash_value :: "bytes \<Rightarrow> u64 \<Rightarrow> bytes" where
  "encode_hash_value val expire_at_ms = to_be64 expire_at_ms @ val"

definition decode_hash_value :: "bytes \<Rightarrow> u64 \<times> bytes" where
  "decode_hash_value bs = (if 8 \<le> length bs then (from_be64 (take 8 bs), drop 8 bs) else (0, bs))"

definition decode_live_hash_value :: "bytes \<Rightarrow> u64 \<Rightarrow> bytes option" where
  "decode_live_hash_value bs now_ms =
     (let (expire_at, payload) = decode_hash_value bs
      in if is_field_expired expire_at now_ms then None else Some payload)"

definition is_legacy :: "hash_meta \<Rightarrow> bool" where
  "is_legacy m \<longleftrightarrow> hh_mode m = Legacy"

definition is_field_expiration :: "hash_meta \<Rightarrow> bool" where
  "is_field_expiration m \<longleftrightarrow> hh_mode m = FieldExpiration"

definition encode_subkey_value :: "hash_meta \<Rightarrow> bytes \<Rightarrow> u64 \<Rightarrow> bytes" where
  "encode_subkey_value m val expire_at_ms = (if is_legacy m then val else encode_hash_value val expire_at_ms)"

text \<open>The bytes \<open>with_encoded_subkey_value\<close> passes on: short values through a stack buffer of 64.\<close>

definition with_encoded_subkey_value :: "hash_meta \<Rightarrow> bytes \<Rightarrow> u64 \<Rightarrow> bytes" where
  "with_encoded_subkey_value m val expire_at_ms =
     (if is_legacy m then val
      else if length val \<le> 56 then
        (let buf = replicate 64 0;
             buf = put buf 0 (to_be64 expire_at_ms);
             buf = put buf 8 val
         in take (8 + length val) buf)
      else encode_hash_value val expire_at_ms)"

definition decode_subkey_value :: "hash_meta \<Rightarrow> bytes \<Rightarrow> (u64 \<times> bytes) option" where
  "decode_subkey_value m raw =
     (if is_legacy m then Some (0, raw) else if length raw < 8 then None else Some (decode_hash_value raw))"

definition decode_live_subkey_value :: "hash_meta \<Rightarrow> bytes \<Rightarrow> u64 \<Rightarrow> (u64 \<times> bytes) option" where
  "decode_live_subkey_value m raw now_ms =
     (case decode_subkey_value m raw of
        None \<Rightarrow> None
      | Some (ex, payload) \<Rightarrow> if is_field_expired ex now_ms then None else Some (ex, payload))"

definition decode_field_state :: "hash_meta \<Rightarrow> bytes \<Rightarrow> u64 \<Rightarrow> field_state option" where
  "decode_field_state m raw now_ms =
     (case decode_subkey_value m raw of
        None \<Rightarrow> None
      | Some (expire, val) \<Rightarrow>
          Some \<lparr>fs_kind = (if expire = 0 then FPersistent
                           else if is_field_expired expire now_ms then FExpired else FLiveTTL),
                fs_expire = expire, fs_value = val\<rparr>)"

definition hexpire_condition_passes :: "hexpire_cond \<Rightarrow> field_kind \<Rightarrow> u64 \<Rightarrow> u64 \<Rightarrow> bool" where
  "hexpire_condition_passes condition kind current_expire_at target_expire_at =
     (case kind of
        FMissing \<Rightarrow> False
      | FExpired \<Rightarrow> False
      | FPersistent \<Rightarrow> condition \<in> {HxNone, HxNx, HxLt}
      | FLiveTTL \<Rightarrow>
          (case condition of
             HxNone \<Rightarrow> True
           | HxXx \<Rightarrow> True
           | HxNx \<Rightarrow> False
           | HxGt \<Rightarrow> target_expire_at > current_expire_at
           | HxLt \<Rightarrow> target_expire_at < current_expire_at))"

section \<open>The record\<close>

definition hh_new_with_mode :: "hash_mode \<Rightarrow> u64 \<Rightarrow> u64 \<Rightarrow> u64 \<Rightarrow> hash_meta" where
  "hh_new_with_mode mode expire_at version sz =
     \<lparr>hh_base = km_new RHash expire_at version sz, hh_mode = mode, hh_persist = sz, hh_lower = 0, hh_upper = 0\<rparr>"

definition hh_new :: "u64 \<Rightarrow> u64 \<Rightarrow> u64 \<Rightarrow> hash_meta" where
  "hh_new expire_at version sz =
     \<lparr>hh_base = km_new RHash expire_at version sz, hh_mode = FieldExpiration, hh_persist = sz,
      hh_lower = 0, hh_upper = 0\<rparr>"

definition hh_new_with_version :: "u64 \<Rightarrow> u64 \<Rightarrow> u64 \<Rightarrow> version_state \<Rightarrow> hash_meta \<times> version_state" where
  "hh_new_with_version expire_at sz ts vs =
     (let (b, vs) = km_new_with_version RHash expire_at sz ts vs
      in (\<lparr>hh_base = b, hh_mode = FieldExpiration, hh_persist = sz, hh_lower = 0, hh_upper = 0\<rparr>, vs))"

definition validate_metadata :: "hash_meta \<Rightarrow> error + unit" where
  "validate_metadata m =
     (if hh_persist m > hh_size m
      then Inl (InvalidData ''invalid hash field expiration metadata: persist exceeds size'') else Inr ())"

definition validate_missing_field_transition :: "hash_meta \<Rightarrow> error + unit" where
  "validate_missing_field_transition m =
     try_op (validate_metadata m)
       (\<lambda>_. if hh_size m = U64_MAX
             then Inl (InvalidData ''invalid hash field expiration metadata: size overflow'') else Inr ())"

definition validate_persistent_field_transition :: "hash_meta \<Rightarrow> error + unit" where
  "validate_persistent_field_transition m =
     try_op (validate_metadata m)
       (\<lambda>_. if hh_size m = 0 \<or> hh_persist m = 0
             then Inl (InvalidData ''invalid hash field expiration metadata: no persistent field to update'')
             else Inr ())"

definition validate_ttl_field_transition :: "hash_meta \<Rightarrow> error + unit" where
  "validate_ttl_field_transition m =
     try_op (validate_metadata m)
       (\<lambda>_. if hh_size m = 0 \<or> hh_persist m = hh_size m
             then Inl (InvalidData ''invalid hash field expiration metadata: no TTL field to update'')
             else Inr ())"

fun mode_u8 :: "hash_mode \<Rightarrow> u8" where
  "mode_u8 Legacy = 0"
| "mode_u8 FieldExpiration = 1"

definition hh_encode_fixed :: "hash_meta \<Rightarrow> bytes \<times> nat" where
  "hh_encode_fixed m =
     (let buf = put (replicate 51 0) 0 (km_encode (hh_base m)) in
      if is_legacy m then (buf, 26)
      else
        let buf = put buf 26 [mode_u8 (hh_mode m)];
            buf = put buf 27 (to_be64 (hh_persist m));
            buf = put buf 35 (to_be64 (hh_lower m));
            buf = put buf 43 (to_be64 (hh_upper m))
        in (buf, 51))"

definition hh_encode :: "hash_meta \<Rightarrow> bytes" where
  "hh_encode m = (let (buf, n) = hh_encode_fixed m in as_bytes (sk_from_slice (take n buf)))"

definition hh_decode :: "bytes \<Rightarrow> hash_meta option" where
  "hh_decode bs =
     (if length bs < 25 then None
      else case km_decode bs of
          None \<Rightarrow> None
        | Some base \<Rightarrow>
            let base_len = (if length bs \<ge> 26 \<and> bs ! 0 \<le> 14 then 26 else 25);
                legacy = \<lparr>hh_base = base, hh_mode = Legacy, hh_persist = km_size base, hh_lower = 0, hh_upper = 0\<rparr>
            in if length bs \<le> base_len then Some legacy
               else
                 let remain = drop base_len bs in
                 if length remain < 1 + 8 + 8 + 8 then Some legacy
                 else Some \<lparr>hh_base = base, hh_mode = (if remain ! 0 = 1 then FieldExpiration else Legacy),
                            hh_persist = u64_at remain 1, hh_lower = u64_at remain 9, hh_upper = u64_at remain 17\<rparr>)"

definition hash_meta_ops :: "hash_meta meta_ops" where
  "hash_meta_ops = \<lparr>mo_tag = HashMeta, mo_decode = hh_decode, mo_encode = hh_encode, mo_base = hh_base\<rparr>"

section \<open>Transitions\<close>

definition clear_bounds_if_no_ttl_candidates :: "hash_meta \<Rightarrow> hash_meta" where
  "clear_bounds_if_no_ttl_candidates m =
     (if is_field_expiration m \<and> hh_size m = hh_persist m then m\<lparr>hh_lower := 0, hh_upper := 0\<rparr> else m)"

definition expand_expire_bounds :: "u64 \<Rightarrow> hash_meta \<Rightarrow> hash_meta" where
  "expand_expire_bounds expire_at m =
     (if \<not> is_field_expiration m \<or> expire_at = 0 then m
      else if hh_size m = hh_persist m then m\<lparr>hh_lower := expire_at, hh_upper := expire_at\<rparr>
      else
        let m = (if hh_lower m = 0 \<or> expire_at < hh_lower m then m\<lparr>hh_lower := expire_at\<rparr> else m)
        in m\<lparr>hh_upper := max (hh_upper m) expire_at\<rparr>)"

definition apply_missing_to_persistent :: "hash_meta \<Rightarrow> hash_meta" where
  "apply_missing_to_persistent m =
     (let m = hh_set_size (saturating_add (hh_size m) 1) m in
      if is_field_expiration m
      then clear_bounds_if_no_ttl_candidates (m\<lparr>hh_persist := saturating_add (hh_persist m) 1\<rparr>)
      else m)"

definition apply_missing_to_ttl :: "u64 \<Rightarrow> hash_meta \<Rightarrow> hash_meta" where
  "apply_missing_to_ttl expire_at m =
     (let m = expand_expire_bounds expire_at m in hh_set_size (saturating_add (hh_size m) 1) m)"

definition apply_persistent_to_ttl :: "u64 \<Rightarrow> hash_meta \<Rightarrow> hash_meta" where
  "apply_persistent_to_ttl expire_at m =
     (let m = expand_expire_bounds expire_at m in m\<lparr>hh_persist := saturating_sub (hh_persist m) 1\<rparr>)"

definition apply_ttl_to_ttl :: "u64 \<Rightarrow> hash_meta \<Rightarrow> hash_meta" where
  "apply_ttl_to_ttl expire_at m = expand_expire_bounds expire_at m"

definition apply_ttl_to_persistent :: "hash_meta \<Rightarrow> hash_meta" where
  "apply_ttl_to_persistent m =
     clear_bounds_if_no_ttl_candidates (m\<lparr>hh_persist := min (saturating_add (hh_persist m) 1) (hh_size m)\<rparr>)"

definition apply_persistent_to_deleted :: "hash_meta \<Rightarrow> hash_meta" where
  "apply_persistent_to_deleted m =
     (let m = hh_set_size (saturating_sub (hh_size m) 1) m;
          m = m\<lparr>hh_persist := saturating_sub (hh_persist m) 1\<rparr>
      in clear_bounds_if_no_ttl_candidates m)"

definition apply_ttl_to_deleted :: "hash_meta \<Rightarrow> hash_meta" where
  "apply_ttl_to_deleted m =
     (let m = hh_set_size (saturating_sub (hh_size m) 1) m;
          m = (if hh_persist m > hh_size m then m\<lparr>hh_persist := hh_size m\<rparr> else m)
      in clear_bounds_if_no_ttl_candidates m)"

section \<open>The formats\<close>

lemma with_encoded_eq [simp]: "with_encoded_subkey_value m val ex = encode_subkey_value m val ex"
  by (simp add: with_encoded_subkey_value_def encode_subkey_value_def encode_hash_value_def put_def Let_def)

lemma decode_encode_subkey:
  "\<not> (is_legacy m \<and> ex \<noteq> 0) \<Longrightarrow> decode_subkey_value m (encode_subkey_value m v ex) = Some (ex, v)"
  by (auto simp: decode_subkey_value_def encode_subkey_value_def encode_hash_value_def decode_hash_value_def)

text \<open>The bytes of a record, and what reading them back gives: a legacy record keeps its base only.\<close>

definition stored_form :: "hash_meta \<Rightarrow> hash_meta" where
  "stored_form m = (if is_legacy m then m\<lparr>hh_persist := hh_size m, hh_lower := 0, hh_upper := 0\<rparr> else m)"

lemma hh_encode_bytes:
  "hh_encode m = km_encode (hh_base m) @
     (if is_legacy m then [] else mode_u8 (hh_mode m) # to_be64 (hh_persist m) @ to_be64 (hh_lower m) @ to_be64 (hh_upper m))"
  by (simp add: hh_encode_def hh_encode_fixed_def Let_def put_simps drop_replicate)

lemma hh_decode_encode: "hh_decode (hh_encode m) = Some (stored_form m)"
proof -
  have h: "(km_encode (hh_base m) @ r) ! 0 \<le> 14" for r
    by (simp add: km_encode_def)
  have d: "drop 26 (km_encode b @ r) = r" for b r by simp
  show ?thesis
  proof (cases "hh_mode m")
    case Legacy
    then show ?thesis
      using h by (cases m) (simp add: hh_decode_def hh_encode_bytes stored_form_def is_legacy_def)
  next
    case FieldExpiration
    let ?r = "1 # to_be64 (hh_persist m) @ to_be64 (hh_lower m) @ to_be64 (hh_upper m)"
    have u: "u64_at ?r 1 = hh_persist m" "u64_at ?r 9 = hh_lower m" "u64_at ?r 17 = hh_upper m"
      by (simp_all add: u64_at_def)
    show ?thesis
      using FieldExpiration h [of ?r] u
      by (cases m) (simp add: hh_decode_def hh_encode_bytes stored_form_def is_legacy_def d Let_def)
  qed
qed

section \<open>What the record counts\<close>

text \<open>The fields of a hash, each with its expiry time and value. \<open>hash_counts m P d\<close>: the record
  \<open>m\<close> counts the fields \<open>P\<close>, with \<open>d\<close> too many.\<close>

type_synonym fields = "bytes \<rightharpoonup> u64 \<times> bytes"

definition persistents :: "fields \<Rightarrow> bytes set" where
  "persistents P = {f. \<exists>v. P f = Some (0, v)}"

definition ttl_bounds :: "u64 \<Rightarrow> u64 \<Rightarrow> fields \<Rightarrow> bool" where
  "ttl_bounds lo up P \<longleftrightarrow> (\<forall>f e v. P f = Some (e, v) \<longrightarrow> e \<noteq> 0 \<longrightarrow> lo \<noteq> 0 \<and> lo \<le> e \<and> e \<le> up)"

definition hash_counts :: "hash_meta \<Rightarrow> fields \<Rightarrow> nat \<Rightarrow> bool" where
  "hash_counts m P d \<longleftrightarrow> finite (dom P) \<and> unat (hh_size m) = card (dom P) + d
     \<and> (if is_legacy m then (\<forall>f e v. P f = Some (e, v) \<longrightarrow> e = 0) \<and> hh_upper m = 0
        else unat (hh_persist m) = card (persistents P) \<and> ttl_bounds (hh_lower m) (hh_upper m) P)"

lemma persistents_update:
  "persistents (P(f \<mapsto> (0, v))) = insert f (persistents P)"
  "e \<noteq> 0 \<Longrightarrow> persistents (P(f \<mapsto> (e, v))) = persistents P - {f}"
  "persistents (P(f := None)) = persistents P - {f}"
  by (auto simp: persistents_def)

lemma persistents_dom: "persistents P \<subseteq> dom P"
  by (auto simp: persistents_def)

lemma persistents_iff: "P f = Some (e, v) \<Longrightarrow> f \<in> persistents P \<longleftrightarrow> e = 0"
  by (auto simp: persistents_def)

lemma ttl_bounds_update:
  "ttl_bounds lo up P \<Longrightarrow> ttl_bounds lo up (P(f := None))"
  "ttl_bounds lo up P \<Longrightarrow> ttl_bounds lo up (P(f \<mapsto> (0, v)))"
  "ttl_bounds lo up P \<Longrightarrow> lo \<noteq> 0 \<Longrightarrow> lo \<le> e \<Longrightarrow> e \<le> up \<Longrightarrow> ttl_bounds lo up (P(f \<mapsto> (e, v)))"
  by (auto simp: ttl_bounds_def)

lemma mode_simps [simp]:
  "is_legacy (m\<lparr>hh_base := b\<rparr>) = is_legacy m" "is_legacy (m\<lparr>hh_persist := p\<rparr>) = is_legacy m"
  "is_legacy (m\<lparr>hh_lower := x\<rparr>) = is_legacy m" "is_legacy (m\<lparr>hh_upper := x\<rparr>) = is_legacy m"
  "is_field_expiration m \<longleftrightarrow> \<not> is_legacy m"
  by (simp_all add: is_legacy_def is_field_expiration_def) (metis hash_mode.exhaust hash_mode.distinct(1))

text \<open>When the record counts no expiring field there is none.\<close>

lemma no_ttl:
  assumes "hash_counts m P d" and "hh_size m = hh_persist m" and "\<not> is_legacy m"
  shows "P f = Some (e, v) \<Longrightarrow> e = 0"
proof -
  assume f: "P f = Some (e, v)"
  have fin: "finite (dom P)" and c: "card (dom P) + d = card (persistents P)"
    using assms by (auto simp: hash_counts_def)
  have "card (persistents P) \<le> card (dom P)" by (rule card_mono [OF fin persistents_dom])
  then have "persistents P = dom P" using c fin persistents_dom by (intro card_subset_eq) auto
  then show "e = 0" using f persistents_iff [of P f e v] by auto
qed

lemma counts_clear:
  assumes "hash_counts m P d"
  shows "hash_counts (clear_bounds_if_no_ttl_candidates m) P d"
proof (cases "\<not> is_legacy m \<and> hh_size m = hh_persist m")
  case True
  then have "ttl_bounds 0 0 P" using no_ttl [OF assms] by (auto simp: ttl_bounds_def)
  then show ?thesis using assms True by (simp add: clear_bounds_if_no_ttl_candidates_def hash_counts_def)
next
  case False
  then show ?thesis using assms by (auto simp: clear_bounds_if_no_ttl_candidates_def)
qed

lemma clear_simps [simp]:
  "hh_base (clear_bounds_if_no_ttl_candidates m) = hh_base m"
  "hh_persist (clear_bounds_if_no_ttl_candidates m) = hh_persist m"
  "hh_mode (clear_bounds_if_no_ttl_candidates m) = hh_mode m"
  "is_legacy (clear_bounds_if_no_ttl_candidates m) = is_legacy m"
  by (simp_all add: clear_bounds_if_no_ttl_candidates_def is_legacy_def)

lemma expand_simps [simp]:
  "hh_base (expand_expire_bounds e m) = hh_base m"
  "hh_persist (expand_expire_bounds e m) = hh_persist m"
  "hh_mode (expand_expire_bounds e m) = hh_mode m"
  "is_legacy (expand_expire_bounds e m) = is_legacy m"
  by (simp_all add: expand_expire_bounds_def is_legacy_def Let_def)

lemma expand_bounds:
  assumes "hash_counts m P d" and "\<not> is_legacy m" and e: "e \<noteq> 0"
  shows "ttl_bounds (hh_lower (expand_expire_bounds e m)) (hh_upper (expand_expire_bounds e m)) (P(f \<mapsto> (e, v)))"
proof (cases "hh_size m = hh_persist m")
  case True
  then show ?thesis
    using no_ttl [OF assms(1) True assms(2)] assms(2) e by (auto simp: expand_expire_bounds_def ttl_bounds_def)
next
  case False
  have "ttl_bounds (hh_lower m) (hh_upper m) P" using assms by (simp add: hash_counts_def)
  then have "ttl_bounds (hh_lower (expand_expire_bounds e m)) (hh_upper (expand_expire_bounds e m)) P"
    using False assms(2) e
    by (auto simp: expand_expire_bounds_def ttl_bounds_def Let_def max_def not_less) (meson order_trans order_less_imp_le)+
  moreover have "hh_lower (expand_expire_bounds e m) \<noteq> 0" "hh_lower (expand_expire_bounds e m) \<le> e"
    "e \<le> hh_upper (expand_expire_bounds e m)"
    using False assms(2) e by (auto simp: expand_expire_bounds_def Let_def)
  ultimately show ?thesis by (rule ttl_bounds_update(3))
qed

text \<open>The transitions.\<close>

lemma counts_facts:
  assumes "hash_counts m P d"
  shows "finite (dom P)" "finite (persistents P)" "unat (hh_size m) = card (dom P) + d"
    "\<not> is_legacy m \<Longrightarrow> unat (hh_persist m) = card (persistents P)"
    "\<not> is_legacy m \<Longrightarrow> ttl_bounds (hh_lower m) (hh_upper m) P"
    "is_legacy m \<Longrightarrow> hh_upper m = 0" "is_legacy m \<Longrightarrow> P f = Some (e, v) \<Longrightarrow> e = 0"
    "card (persistents P) \<le> card (dom P)"
  using assms finite_subset [OF persistents_dom, of P] card_mono [OF _ persistents_dom, of P]
  by (auto simp: hash_counts_def split: if_splits)

lemma card_dom_update:
  assumes "finite (dom P)"
  shows "P f = None \<Longrightarrow> card (dom (P(f \<mapsto> x))) = Suc (card (dom P))"
    and "P f \<noteq> None \<Longrightarrow> card (dom (P(f \<mapsto> x))) = card (dom P)"
    and "P f \<noteq> None \<Longrightarrow> Suc (card (dom (P(f := None)))) = card (dom P)"
proof -
  show "card (dom (P(f \<mapsto> x))) = Suc (card (dom P))" if "P f = None"
    using assms that by (simp add: domIff)
  show "card (dom (P(f \<mapsto> x))) = card (dom P)" if "P f \<noteq> None"
    using that by (simp add: insert_absorb domIff)
  show "Suc (card (dom (P(f := None)))) = card (dom P)" if "P f \<noteq> None"
    using assms that card_Suc_Diff1 [of "dom P" f] by (simp add: domIff)
qed

lemma counts_missing_persistent:
  assumes m: "hash_counts m P d" and f: "P f = None" and fit: "card (dom P) + d < 2 ^ 63"
  shows "hash_counts (apply_missing_to_persistent m) (P(f \<mapsto> (0, v))) d"
proof -
  note c = counts_facts [OF m]
  have nf: "f \<notin> persistents P" using f by (simp add: persistents_def)
  have s: "unat (saturating_add (hh_size m) 1) = Suc (card (dom P)) + d"
    using fit c(3) by (simp add: saturating_add_unat)
  have p: "unat (saturating_add (hh_persist m) 1) = Suc (card (persistents P))" if "\<not> is_legacy m"
    using fit c(4) [OF that] c(8) by (simp add: saturating_add_unat)
  let ?m = "hh_set_size (saturating_add (hh_size m) 1) m"
  have "hash_counts (if is_legacy m then ?m else ?m\<lparr>hh_persist := saturating_add (hh_persist m) 1\<rparr>) (P(f \<mapsto> (0, v))) d"
    using m c(1,2) s p nf f
    by (auto simp: hash_counts_def card_dom_update persistents_update ttl_bounds_update domIff split: if_splits)
  then show ?thesis using counts_clear by (auto simp: apply_missing_to_persistent_def Let_def split: if_splits)
qed

lemma counts_missing_ttl:
  assumes m: "hash_counts m P d" and f: "P f = None" and fit: "card (dom P) + d < 2 ^ 63"
    and nl: "\<not> is_legacy m" and e: "e \<noteq> 0"
  shows "hash_counts (apply_missing_to_ttl e m) (P(f \<mapsto> (e, v))) d"
proof -
  note c = counts_facts [OF m]
  have nf: "f \<notin> persistents P" using f by (simp add: persistents_def)
  have s: "unat (saturating_add (hh_size m) 1) = Suc (card (dom P)) + d"
    using fit c(3) by (simp add: saturating_add_unat)
  show ?thesis
    using expand_bounds [OF m nl e, of f v] c s nf f nl e
    by (simp add: apply_missing_to_ttl_def Let_def hash_counts_def card_dom_update persistents_update domIff)
qed

text \<open>A field whose time is over is written as if it were missing: the record counts it twice.\<close>

lemma counts_drift_persistent:
  assumes m: "hash_counts m P d" and f: "P f = Some (e0, v0)" "e0 \<noteq> 0" and fit: "card (dom P) + d < 2 ^ 63"
  shows "hash_counts (apply_missing_to_persistent m) (P(f \<mapsto> (0, v))) (Suc d)"
proof -
  note c = counts_facts [OF m]
  have nl: "\<not> is_legacy m" using c(7) [of f e0 v0] f by auto
  have nf: "f \<notin> persistents P" using f by (simp add: persistents_def)
  have s: "unat (saturating_add (hh_size m) 1) = card (dom P) + Suc d"
    using fit c(3) by (simp add: saturating_add_unat)
  have p: "unat (saturating_add (hh_persist m) 1) = Suc (card (persistents P))"
    using fit c(4) [OF nl] c(8) by (simp add: saturating_add_unat)
  let ?m = "(hh_set_size (saturating_add (hh_size m) 1) m)\<lparr>hh_persist := saturating_add (hh_persist m) 1\<rparr>"
  have "hash_counts ?m (P(f \<mapsto> (0, v))) (Suc d)"
    using c s p nf f nl
    by (simp add: hash_counts_def card_dom_update persistents_update ttl_bounds_update insert_absorb domIff)
  then show ?thesis using counts_clear [of ?m] nl by (simp add: apply_missing_to_persistent_def Let_def)
qed

lemma counts_drift_ttl:
  assumes m: "hash_counts m P d" and f: "P f = Some (e0, v0)" "e0 \<noteq> 0" and fit: "card (dom P) + d < 2 ^ 63" and e: "e \<noteq> 0"
  shows "hash_counts (apply_missing_to_ttl e m) (P(f \<mapsto> (e, v))) (Suc d)"
proof -
  note c = counts_facts [OF m]
  have nl: "\<not> is_legacy m" using c(7) [of f e0 v0] f by auto
  have nf: "f \<notin> persistents P" using f by (simp add: persistents_def)
  have s: "unat (saturating_add (hh_size m) 1) = card (dom P) + Suc d"
    using fit c(3) by (simp add: saturating_add_unat)
  show ?thesis
    using expand_bounds [OF m nl e, of f v] c s nf f nl e
    by (simp add: apply_missing_to_ttl_def Let_def hash_counts_def card_dom_update persistents_update insert_absorb domIff)
qed

lemma counts_overwrite:
  assumes m: "hash_counts m P d" and f: "P f = Some (e, v0)"
  shows "hash_counts m (P(f \<mapsto> (e, v))) d"
proof -
  have "persistents (P(f \<mapsto> (e, v))) = persistents P"
    using f by (cases "e = 0") (auto simp: persistents_def)
  moreover have "dom (P(f \<mapsto> (e, v))) = dom P" using f by auto
  moreover have "ttl_bounds lo up (P(f \<mapsto> (e, v)))" if "ttl_bounds lo up P" for lo up
    using that f by (auto simp: ttl_bounds_def)
  ultimately show ?thesis
    using m f by (simp add: hash_counts_def split: if_splits)
qed

lemma counts_persistent_ttl:
  assumes m: "hash_counts m P d" and f: "P f = Some (0, v0)" and nl: "\<not> is_legacy m" and e: "e \<noteq> 0"
  shows "hash_counts (apply_persistent_to_ttl e m) (P(f \<mapsto> (e, v))) d"
proof -
  note c = counts_facts [OF m]
  have nf: "f \<in> persistents P" using f by (simp add: persistents_def)
  then have "card (persistents P - {f}) = card (persistents P) - 1" using c(2) by simp
  then have p: "unat (saturating_sub (hh_persist m) 1) = card (persistents P - {f})"
    using c(4) [OF nl] by (simp add: saturating_sub_unat)
  show ?thesis
    using expand_bounds [OF m nl e, of f v] c p f nl e
    by (simp add: apply_persistent_to_ttl_def Let_def hash_counts_def card_dom_update persistents_update insert_absorb domIff)
qed

lemma counts_ttl_ttl:
  assumes m: "hash_counts m P d" and f: "P f = Some (e0, v0)" "e0 \<noteq> 0" and e: "e \<noteq> 0"
  shows "hash_counts (apply_ttl_to_ttl e m) (P(f \<mapsto> (e, v))) d"
proof -
  note c = counts_facts [OF m]
  have nl: "\<not> is_legacy m" using c(7) [of f e0 v0] f by auto
  have nf: "f \<notin> persistents P" using f by (simp add: persistents_def)
  show ?thesis
    using expand_bounds [OF m nl e, of f v] c nf f nl e
    by (simp add: apply_ttl_to_ttl_def hash_counts_def card_dom_update persistents_update insert_absorb domIff)
qed

lemma counts_ttl_persistent:
  assumes m: "hash_counts m P d" and f: "P f = Some (e0, v0)" "e0 \<noteq> 0" and fit: "card (dom P) + d < 2 ^ 63"
  shows "hash_counts (apply_ttl_to_persistent m) (P(f \<mapsto> (0, v))) d"
proof -
  note c = counts_facts [OF m]
  have nl: "\<not> is_legacy m" using c(7) [of f e0 v0] f by auto
  have nf: "f \<notin> persistents P" using f by (simp add: persistents_def)
  have "insert f (persistents P) \<subseteq> dom P" using f persistents_dom by auto
  then have le: "Suc (card (persistents P)) \<le> card (dom P)"
    using card_mono [OF c(1), of "insert f (persistents P)"] c(2) nf by simp
  have "unat (min (saturating_add (hh_persist m) 1) (hh_size m)) = min (unat (saturating_add (hh_persist m) 1)) (unat (hh_size m))"
    by (simp add: min_def word_le_nat_alt)
  also have "\<dots> = Suc (card (persistents P))"
    using c(3) c(4) [OF nl] le fit by (simp add: saturating_add_unat)
  finally have p: "unat (min (saturating_add (hh_persist m) 1) (hh_size m)) = Suc (card (persistents P))" .
  let ?m = "m\<lparr>hh_persist := min (saturating_add (hh_persist m) 1) (hh_size m)\<rparr>"
  have "hash_counts ?m (P(f \<mapsto> (0, v))) d"
    using c p nf f nl
    by (simp add: hash_counts_def card_dom_update persistents_update ttl_bounds_update insert_absorb domIff)
  then show ?thesis using counts_clear [of ?m] by (simp add: apply_ttl_to_persistent_def)
qed

lemma counts_persistent_deleted:
  assumes m: "hash_counts m P d" and f: "P f = Some (0, v0)"
  shows "hash_counts (apply_persistent_to_deleted m) (P(f := None)) d"
proof -
  note c = counts_facts [OF m]
  have s: "unat (saturating_sub (hh_size m) 1) = card (dom (P(f := None))) + d"
    using c(3) card_dom_update(3) [OF c(1), of f] f by (simp add: saturating_sub_unat)
  have nf: "f \<in> persistents P" using f by (simp add: persistents_def)
  then have "card (persistents P - {f}) = card (persistents P) - 1" using c(2) by simp
  then have p: "unat (saturating_sub (hh_persist m) 1) = card (persistents P - {f})" if "\<not> is_legacy m"
    using c(4) [OF that] by (simp add: saturating_sub_unat)
  let ?m = "(hh_set_size (saturating_sub (hh_size m) 1) m)\<lparr>hh_persist := saturating_sub (hh_persist m) 1\<rparr>"
  have "hash_counts ?m (P(f := None)) d"
    using m s p c(1) by (auto simp: hash_counts_def persistents_update ttl_bounds_update split: if_splits)
  then show ?thesis using counts_clear [of ?m] by (simp add: apply_persistent_to_deleted_def Let_def)
qed

lemma counts_ttl_deleted:
  assumes m: "hash_counts m P d" and f: "P f = Some (e0, v0)" "e0 \<noteq> 0"
  shows "hash_counts (apply_ttl_to_deleted m) (P(f := None)) d"
proof -
  note c = counts_facts [OF m]
  have nl: "\<not> is_legacy m" using c(7) [of f e0 v0] f by auto
  have s: "unat (saturating_sub (hh_size m) 1) = card (dom (P(f := None))) + d"
    using c(3) card_dom_update(3) [OF c(1), of f] f by (simp add: saturating_sub_unat)
  have nf: "f \<notin> persistents P" using f by (simp add: persistents_def)
  have fd: "f \<in> dom P" "finite (dom P - {f})" using f c(1) by auto
  then have "persistents P \<subseteq> dom P - {f}" using nf persistents_dom [of P] by auto
  then have "card (persistents P) \<le> card (dom P - {f})" using fd by (intro card_mono)
  then have "\<not> hh_persist m > saturating_sub (hh_size m) 1"
    using s c(4) [OF nl] by (simp add: word_less_nat_alt)
  then have e: "apply_ttl_to_deleted m = clear_bounds_if_no_ttl_candidates (hh_set_size (saturating_sub (hh_size m) 1) m)"
    by (simp add: apply_ttl_to_deleted_def Let_def)
  have "hash_counts (hh_set_size (saturating_sub (hh_size m) 1) m) (P(f := None)) d"
    using c s nf nl by (simp add: hash_counts_def persistents_update ttl_bounds_update)
  then show ?thesis unfolding e by (rule counts_clear)
qed

end
