(* ===== verification/Hash_Ops.thy ===== *)
theory Hash_Ops
  imports Hash_Meta Set_Rep Str_Ops
begin

text \<open>
  \<^verbatim>\<open>embed/src/api/hash\<close>: the commands of \<^verbatim>\<open>impl.rs\<close>, \<^verbatim>\<open>num.rs\<close>, \<^verbatim>\<open>query.rs\<close> and
  \<^verbatim>\<open>scan.rs\<close>. A command reads the clock once; the numbers of \<open>fastrand\<close>, and the reading and
  printing of numbers, are arguments as for sets and strings.
\<close>

section \<open>Keys and metadata\<close>

definition hash_meta_key :: "key_composer \<Rightarrow> bytes \<Rightarrow> bytes" where
  "hash_meta_key kc key = as_bytes (compose_meta_key_stack kc (tag_slice HashMeta) key)"

definition hash_field_key :: "key_composer \<Rightarrow> bytes \<Rightarrow> bytes \<Rightarrow> bytes" where
  "hash_field_key kc key f = as_bytes (compose_subkey_stack kc (tag_slice HashData) key f)"

definition hash_prefix_stack :: "key_composer \<Rightarrow> bytes \<Rightarrow> bytes" where
  "hash_prefix_stack kc key = as_bytes (compose_prefix_stack kc (tag_slice HashData) key)"

definition key_for_field :: "key_composer \<Rightarrow> bytes \<Rightarrow> bytes \<Rightarrow> bytes" where
  "key_for_field kc key f = snd (compose_sub (sc_from_slice (hash_prefix_stack kc key)) f)"

definition get_hash_meta :: "'p engine \<Rightarrow> key_composer \<Rightarrow> 'p wedb \<Rightarrow> u64 \<Rightarrow> bytes \<Rightarrow> error + hash_meta option" where
  "get_hash_meta E kc s now_ms key = get_meta_checked E hash_meta_ops kc s key (hash_meta_key kc key) now_ms"

text \<open>The pattern \<open>Some(m) if m.base.size > 0\<close>, and the test that every field is over.\<close>

definition hash_nonempty :: "hash_meta option \<Rightarrow> hash_meta option" where
  "hash_nonempty m = (case m of Some x \<Rightarrow> if hh_size x > 0 then Some x else None | None \<Rightarrow> None)"

definition all_over :: "hash_meta \<Rightarrow> u64 \<Rightarrow> bool" where
  "all_over m now_ms \<longleftrightarrow> hh_upper m \<noteq> 0 \<and> now_ms > hh_upper m \<and> hh_persist m = 0"

definition readable :: "hash_meta option \<Rightarrow> u64 \<Rightarrow> hash_meta option" where
  "readable m now_ms = (case hash_nonempty m of Some x \<Rightarrow> if all_over x now_ms then None else Some x | None \<Rightarrow> None)"

definition prepare_hash_meta_for_write ::
    "'p engine \<Rightarrow> key_composer \<Rightarrow> u64 \<Rightarrow> u64 \<Rightarrow> bytes \<Rightarrow> batch \<Rightarrow> 'p wedb
       \<Rightarrow> error + ((hash_meta \<times> bool) \<times> batch \<times> 'p wedb)" where
  "prepare_hash_meta_for_write E kc now_ms ts key batch s =
     try_op (get_hash_meta E kc s now_ms key)
       (\<lambda>m. case m of
          Some meta \<Rightarrow> Inr ((meta, True), batch, s)
        | None \<Rightarrow>
            (let batch = clear_prefix_in_batch E PData s (hash_prefix_stack kc key) batch;
                 (meta, vs) = hh_new_with_version 0 0 ts (w_ver s)
             in Inr ((meta, False), batch, s\<lparr>w_ver := vs\<rparr>)))"

definition commit_hash_meta_or_rm :: "bytes \<Rightarrow> hash_meta \<Rightarrow> batch \<Rightarrow> batch" where
  "commit_hash_meta_or_rm meta_k meta batch =
     (if hh_size meta = 0 then rm_meta meta_k batch
      else insert_meta meta_k (hh_encode (clear_bounds_if_no_ttl_candidates meta)) batch)"

definition commit_hash_batch :: "'p engine \<Rightarrow> bytes \<Rightarrow> hash_meta \<Rightarrow> batch \<Rightarrow> 'p wedb \<Rightarrow> 'p wedb" where
  "commit_hash_batch E meta_k meta batch s = commit E (commit_hash_meta_or_rm meta_k meta batch) s"

section \<open>Setting fields\<close>

definition apply_field_state_to_meta :: "hash_meta \<Rightarrow> field_kind \<Rightarrow> hash_meta \<times> bool" where
  "apply_field_state_to_meta meta state =
     (case state of
        FMissing \<Rightarrow> (apply_missing_to_persistent meta, True)
      | FExpired \<Rightarrow> (apply_ttl_to_persistent meta, True)
      | FLiveTTL \<Rightarrow> (apply_ttl_to_persistent meta, False)
      | FPersistent \<Rightarrow> (meta, False))"

definition stored_kind :: "'p engine \<Rightarrow> 'p wedb \<Rightarrow> hash_meta \<Rightarrow> bytes \<Rightarrow> u64 \<Rightarrow> field_kind" where
  "stored_kind E s meta item_k now_ms =
     (case e_get E (w_data s) item_k of
        Some raw \<Rightarrow> (case decode_field_state meta raw now_ms of Some st \<Rightarrow> fs_kind st | None \<Rightarrow> FMissing)
      | None \<Rightarrow> FMissing)"

definition put_field :: "key_composer \<Rightarrow> bytes \<Rightarrow> hash_meta \<Rightarrow> bytes \<Rightarrow> bytes \<Rightarrow> u64 \<Rightarrow> batch \<Rightarrow> batch" where
  "put_field kc key meta f v expire batch =
     insert_data (key_for_field kc key f) (with_encoded_subkey_value meta v expire) batch"

definition hset_one_internal ::
    "'p engine \<Rightarrow> key_composer \<Rightarrow> u64 \<Rightarrow> u64 \<Rightarrow> bytes \<Rightarrow> bytes \<Rightarrow> bytes \<Rightarrow> 'p wedb \<Rightarrow> error + (nat \<times> 'p wedb)" where
  "hset_one_internal E kc now_ms ts key f v s =
     try_op (prepare_hash_meta_for_write E kc now_ms ts key [] s)
       (\<lambda>((meta, metadata_existed), batch, s).
          let (meta, inserted) =
                (if metadata_existed
                 then apply_field_state_to_meta meta (stored_kind E s meta (key_for_field kc key f) now_ms)
                 else (apply_missing_to_persistent meta, True));
              batch = put_field kc key meta f v 0 batch;
              batch = insert_meta (hash_meta_key kc key) (hh_encode meta) batch
          in Inr (if inserted then 1 else 0, commit E batch s))"

text \<open>On a new hash the first value of a repeated field is kept, on an existing one the last.\<close>

definition hset_new_step ::
    "key_composer \<Rightarrow> bytes \<Rightarrow> bytes set \<times> nat \<times> hash_meta \<times> batch \<Rightarrow> bytes \<times> bytes \<Rightarrow> bytes set \<times> nat \<times> hash_meta \<times> batch" where
  "hset_new_step kc key = (\<lambda>(seen, n, meta, batch) (f, v).
     if f \<in> seen then (seen, n, meta, batch)
     else (insert f seen, n + 1, apply_missing_to_persistent meta, put_field kc key meta f v 0 batch))"

definition unique_fields :: "(bytes \<times> 'v) list \<Rightarrow> (bytes \<times> 'v) list" where
  "unique_fields fvs =
     rev (snd (foldl (\<lambda>(seen, us) (f, v). if f \<in> seen then (seen, us) else (insert f seen, us @ [(f, v)]))
       ({}, []) (rev fvs)))"

definition hset_step ::
    "'p engine \<Rightarrow> 'p wedb \<Rightarrow> key_composer \<Rightarrow> bytes \<Rightarrow> u64 \<Rightarrow> nat \<times> hash_meta \<times> batch \<Rightarrow> bytes \<times> bytes \<Rightarrow> nat \<times> hash_meta \<times> batch" where
  "hset_step E s kc key now_ms = (\<lambda>(n, meta, batch) (f, v).
     let (meta, inserted) = apply_field_state_to_meta meta (stored_kind E s meta (key_for_field kc key f) now_ms)
     in (if inserted then n + 1 else n, meta, put_field kc key meta f v 0 batch))"

definition hset ::
    "'p engine \<Rightarrow> key_composer \<Rightarrow> u64 \<Rightarrow> u64 \<Rightarrow> bytes \<Rightarrow> (bytes \<times> bytes) list \<Rightarrow> 'p wedb \<Rightarrow> error + (nat \<times> 'p wedb)" where
  "hset E kc now_ms ts key fvs s =
     (if fvs = [] then Inr (0, s)
      else
        try_op (prepare_hash_meta_for_write E kc now_ms ts key [] s)
          (\<lambda>((meta, metadata_existed), batch, s).
             if length fvs = 1 then hset_one_internal E kc now_ms ts key (fst (fvs ! 0)) (snd (fvs ! 0)) s
             else if \<not> metadata_existed then
               let (_, n, meta, batch) = foldl (hset_new_step kc key) ({}, 0, meta, batch) fvs
               in Inr (n, commit E (insert_meta (hash_meta_key kc key) (hh_encode meta) batch) s)
             else
               let (n, meta, batch) = foldl (hset_step E s kc key now_ms) (0, meta, batch) (unique_fields fvs)
               in Inr (n, commit_hash_batch E (hash_meta_key kc key) meta batch s)))"

definition hmset where "hmset E kc now_ms ts key fvs s = hset E kc now_ms ts key fvs s"

definition hset_one where "hset_one E kc now_ms ts key f v s = hset_one_internal E kc now_ms ts key f v s"

definition hsetnx ::
    "'p engine \<Rightarrow> key_composer \<Rightarrow> u64 \<Rightarrow> u64 \<Rightarrow> bytes \<Rightarrow> bytes \<Rightarrow> bytes \<Rightarrow> 'p wedb \<Rightarrow> error + (bool \<times> 'p wedb)" where
  "hsetnx E kc now_ms ts key f v s =
     try_op (prepare_hash_meta_for_write E kc now_ms ts key [] s)
       (\<lambda>((meta, metadata_existed), batch, s).
          let write = (\<lambda>meta. Inr (True, commit E (insert_meta (hash_meta_key kc key) (hh_encode meta)
                (put_field kc key meta f v 0 batch)) s))
          in if metadata_existed then
               (case stored_kind E s meta (key_for_field kc key f) now_ms of
                  FPersistent \<Rightarrow> Inr (False, s)
                | FLiveTTL \<Rightarrow> Inr (False, s)
                | FExpired \<Rightarrow> write (apply_ttl_to_persistent meta)
                | FMissing \<Rightarrow> write (apply_missing_to_persistent meta))
             else write (apply_missing_to_persistent meta))"

section \<open>Deleting fields\<close>

text \<open>The stored field, if its bytes can be decoded.\<close>

definition stored_field :: "'p engine \<Rightarrow> 'p wedb \<Rightarrow> hash_meta \<Rightarrow> bytes \<Rightarrow> (u64 \<times> bytes) option" where
  "stored_field E s meta item_k =
     (case e_get E (w_data s) item_k of Some raw \<Rightarrow> decode_subkey_value meta raw | None \<Rightarrow> None)"

definition hdel_one_internal ::
    "'p engine \<Rightarrow> key_composer \<Rightarrow> u64 \<Rightarrow> bytes \<Rightarrow> bytes \<Rightarrow> 'p wedb \<Rightarrow> error + (nat \<times> 'p wedb)" where
  "hdel_one_internal E kc now_ms key f s =
     try_op (get_hash_meta E kc s now_ms key)
       (\<lambda>m. case hash_nonempty m of
          None \<Rightarrow> Inr (0, s)
        | Some meta \<Rightarrow>
            let item_k = key_for_field kc key f in
            (case stored_field E s meta item_k of
               None \<Rightarrow> Inr (0, s)
             | Some (ex, _) \<Rightarrow>
                 let batch = rm_weak_data item_k [];
                     deleted = (if \<not> is_field_expired ex now_ms then 1 else 0);
                     meta = (if ex = 0 then apply_persistent_to_deleted meta else apply_ttl_to_deleted meta)
                 in Inr (deleted, commit_hash_batch E (hash_meta_key kc key) meta batch s)))"

definition hdel_step ::
    "'p engine \<Rightarrow> 'p wedb \<Rightarrow> key_composer \<Rightarrow> bytes \<Rightarrow> u64
       \<Rightarrow> bytes set \<times> nat \<times> nat \<times> hash_meta \<times> batch \<Rightarrow> bytes \<Rightarrow> bytes set \<times> nat \<times> nat \<times> hash_meta \<times> batch" where
  "hdel_step E s kc key now_ms = (\<lambda>(seen, deleted, removed, meta, batch) f.
     if f \<in> seen then (seen, deleted, removed, meta, batch)
     else
       let item_k = key_for_field kc key f in
       (case stored_field E s meta item_k of
          None \<Rightarrow> (insert f seen, deleted, removed, meta, batch)
        | Some (ex, _) \<Rightarrow>
            (insert f seen, if \<not> is_field_expired ex now_ms then deleted + 1 else deleted, removed + 1,
             if ex = 0 then apply_persistent_to_deleted meta else apply_ttl_to_deleted meta,
             rm_weak_data item_k batch)))"

definition hdel ::
    "'p engine \<Rightarrow> key_composer \<Rightarrow> u64 \<Rightarrow> bytes \<Rightarrow> bytes list \<Rightarrow> 'p wedb \<Rightarrow> error + (nat \<times> 'p wedb)" where
  "hdel E kc now_ms key fvs s =
     (if fvs = [] then Inr (0, s)
      else if length fvs = 1 then hdel_one_internal E kc now_ms key (fvs ! 0) s
      else
        try_op (get_hash_meta E kc s now_ms key)
          (\<lambda>m. case hash_nonempty m of
             None \<Rightarrow> Inr (0, s)
           | Some meta \<Rightarrow>
               let (_, deleted, removed, meta, batch) =
                     foldl (hdel_step E s kc key now_ms) ({}, 0, 0, meta, []) fvs
               in if removed > 0 then Inr (deleted, commit_hash_batch E (hash_meta_key kc key) meta batch s)
                  else Inr (deleted, s)))"

definition hdel_one where "hdel_one E kc now_ms key f s = hdel_one_internal E kc now_ms key f s"

section \<open>Numbers\<close>

definition ERR_HASH_VALUE_NOT_INTEGER :: string where
  "ERR_HASH_VALUE_NOT_INTEGER = ''ERR hash value is not an integer''"

definition ERR_HASH_VALUE_NOT_FLOAT :: string where
  "ERR_HASH_VALUE_NOT_FLOAT = ''ERR hash value is not a valid float''"

definition parse_hash_integer :: "str_env \<Rightarrow> bytes \<Rightarrow> error + int" where
  "parse_hash_integer V v = parse_redis_integer (parse_i64_fast V) v ERR_HASH_VALUE_NOT_INTEGER"

definition parse_hash_float :: "str_env \<Rightarrow> bytes \<Rightarrow> error + u64" where
  "parse_hash_float V v = parse_redis_float V v ERR_HASH_VALUE_NOT_FLOAT"

text \<open>The number a field holds, whether it is missing, whether it is over, and its expiry.\<close>

definition hash_number ::
    "(bytes \<Rightarrow> error + 'n) \<Rightarrow> 'n \<Rightarrow> 'p engine \<Rightarrow> 'p wedb \<Rightarrow> hash_meta \<Rightarrow> bool \<Rightarrow> bytes \<Rightarrow> u64
       \<Rightarrow> error + ('n \<times> bool \<times> bool \<times> u64)" where
  "hash_number parse zero E s meta metadata_existed item_k now_ms =
     (if metadata_existed then
        (case stored_field E s meta item_k of
           Some (ex, payload) \<Rightarrow>
             if is_field_expired ex now_ms then Inr (zero, False, True, 0)
             else try_op (parse payload) (\<lambda>n. Inr (n, False, False, ex))
         | None \<Rightarrow> Inr (zero, True, False, 0))
      else Inr (zero, True, False, 0))"

definition counted_meta :: "bool \<Rightarrow> bool \<Rightarrow> hash_meta \<Rightarrow> hash_meta" where
  "counted_meta is_missing is_expired_ttl meta =
     (if is_missing then apply_missing_to_persistent meta
      else if is_expired_ttl then apply_ttl_to_persistent meta else meta)"

definition hincrby ::
    "'p engine \<Rightarrow> str_env \<Rightarrow> key_composer \<Rightarrow> u64 \<Rightarrow> u64 \<Rightarrow> bytes \<Rightarrow> bytes \<Rightarrow> int \<Rightarrow> 'p wedb \<Rightarrow> error + (int \<times> 'p wedb)" where
  "hincrby E V kc now_ms ts key f n s =
     try_op (prepare_hash_meta_for_write E kc now_ms ts key [] s)
       (\<lambda>((meta, metadata_existed), batch, s).
          try_op (hash_number (parse_hash_integer V) 0 E s meta metadata_existed (key_for_field kc key f) now_ms)
            (\<lambda>(cur_val, is_missing, is_expired_ttl, target_expire).
               let new_val = cur_val + n in
               if new_val < I64_MIN \<or> I64_MAX < new_val then Inl (InvalidData ERR_INCREMENT_OVERFLOW)
               else
                 let meta = counted_meta is_missing is_expired_ttl meta;
                     batch = put_field kc key meta f (itoa_format V new_val) target_expire batch;
                     batch = insert_meta (hash_meta_key kc key) (hh_encode meta) batch
                 in Inr (new_val, commit E batch s)))"

definition hincrbyfloat ::
    "'p engine \<Rightarrow> str_env \<Rightarrow> key_composer \<Rightarrow> u64 \<Rightarrow> u64 \<Rightarrow> bytes \<Rightarrow> bytes \<Rightarrow> u64 \<Rightarrow> 'p wedb \<Rightarrow> error + (u64 \<times> 'p wedb)" where
  "hincrbyfloat E V kc now_ms ts key f x s =
     try_op (prepare_hash_meta_for_write E kc now_ms ts key [] s)
       (\<lambda>((meta, metadata_existed), batch, s).
          try_op (hash_number (parse_hash_float V) 0 E s meta metadata_existed (key_for_field kc key f) now_ms)
            (\<lambda>(cur_val, is_missing, is_expired_ttl, target_expire).
               let new_val = add_f64 V cur_val x in
               if is_nan new_val \<or> is_infinite new_val then Inl (InvalidData ERR_INCREMENT_NAN_OR_INFINITY)
               else
                 let meta = counted_meta is_missing is_expired_ttl meta;
                     batch = put_field kc key meta f (format_float_bytes V new_val) target_expire batch;
                     batch = insert_meta (hash_meta_key kc key) (hh_encode meta) batch
                 in Inr (new_val, commit E batch s)))"

section \<open>Queries\<close>

definition live_payload :: "'p engine \<Rightarrow> 'p wedb \<Rightarrow> hash_meta \<Rightarrow> bytes \<Rightarrow> u64 \<Rightarrow> bytes option" where
  "live_payload E s meta item_k now_ms =
     (case e_get E (w_data s) item_k of
        Some raw \<Rightarrow> map_option snd (decode_live_subkey_value meta raw now_ms)
      | None \<Rightarrow> None)"

definition with_hget ::
    "'p engine \<Rightarrow> key_composer \<Rightarrow> 'p wedb \<Rightarrow> u64 \<Rightarrow> bytes \<Rightarrow> bytes \<Rightarrow> (bytes \<Rightarrow> 'r) \<Rightarrow> error + 'r option" where
  "with_hget E kc s now_ms key f g =
     try_op (get_hash_meta E kc s now_ms key)
       (\<lambda>m. case readable m now_ms of
          None \<Rightarrow> Inr None
        | Some meta \<Rightarrow> Inr (map_option g (live_payload E s meta (key_for_field kc key f) now_ms)))"

definition hget where "hget E kc s now_ms key f = with_hget E kc s now_ms key f (\<lambda>v. v)"

definition hexists :: "'p engine \<Rightarrow> key_composer \<Rightarrow> 'p wedb \<Rightarrow> u64 \<Rightarrow> bytes \<Rightarrow> bytes \<Rightarrow> error + bool" where
  "hexists E kc s now_ms key f =
     try_op (with_hget E kc s now_ms key f (\<lambda>_. ())) (\<lambda>r. Inr (r \<noteq> None))"

definition hstrlen :: "'p engine \<Rightarrow> key_composer \<Rightarrow> 'p wedb \<Rightarrow> u64 \<Rightarrow> bytes \<Rightarrow> bytes \<Rightarrow> error + nat" where
  "hstrlen E kc s now_ms key f =
     try_op (with_hget E kc s now_ms key f length) (\<lambda>r. Inr (case r of Some n \<Rightarrow> n | None \<Rightarrow> 0))"

definition hmget ::
    "'p engine \<Rightarrow> key_composer \<Rightarrow> 'p wedb \<Rightarrow> u64 \<Rightarrow> bytes \<Rightarrow> bytes list \<Rightarrow> error + bytes option list" where
  "hmget E kc s now_ms key fvs =
     (if fvs = [] then Inr []
      else
        try_op (get_hash_meta E kc s now_ms key)
          (\<lambda>m. case readable m now_ms of
             None \<Rightarrow> Inr (replicate (length fvs) None)
           | Some meta \<Rightarrow> Inr (map (\<lambda>f. live_payload E s meta (key_for_field kc key f) now_ms) fvs)))"

text \<open>The entries that the loops over the prefix see.\<close>

definition hash_entries :: "'p engine \<Rightarrow> 'p wedb \<Rightarrow> bytes \<Rightarrow> (bytes \<times> bytes) list" where
  "hash_entries E s pfx = takeWhile (\<lambda>(k, _). prefix pfx k) (e_prefix E (w_data s) pfx)"

definition repair_step ::
    "hash_meta \<Rightarrow> u64 \<Rightarrow> hash_meta \<times> batch \<Rightarrow> bytes \<times> bytes \<Rightarrow> hash_meta \<times> batch" where
  "repair_step meta now_ms = (\<lambda>(repaired, batch) (k, v).
     case decode_field_state meta v now_ms of
       None \<Rightarrow> (repaired, batch)
     | Some st \<Rightarrow>
         (case fs_kind st of
            FExpired \<Rightarrow> (repaired, rm_data k batch)
          | FPersistent \<Rightarrow>
              ((hh_set_size (hh_size repaired + 1) repaired)\<lparr>hh_persist := hh_persist repaired + 1\<rparr>, batch)
          | FLiveTTL \<Rightarrow>
              (let repaired = hh_set_size (hh_size repaired + 1) repaired;
                   repaired = (if hh_lower repaired = 0 \<or> fs_expire st < hh_lower repaired
                               then repaired\<lparr>hh_lower := fs_expire st\<rparr> else repaired)
               in (repaired\<lparr>hh_upper := max (hh_upper repaired) (fs_expire st)\<rparr>, batch))
          | FMissing \<Rightarrow> (repaired, batch)))"

definition scan_and_repair_hash ::
    "'p engine \<Rightarrow> key_composer \<Rightarrow> u64 \<Rightarrow> bytes \<Rightarrow> hash_meta \<Rightarrow> 'p wedb \<Rightarrow> nat \<times> 'p wedb" where
  "scan_and_repair_hash E kc now_ms key meta s =
     (let repaired = (hh_set_size 0 meta)\<lparr>hh_persist := 0, hh_lower := 0, hh_upper := 0\<rparr>;
          (repaired, batch) = foldl (repair_step meta now_ms) (repaired, []) (hash_entries E s (hash_prefix_stack kc key));
          meta_k = hash_meta_key kc key;
          batch = (if hh_size repaired = 0 then rm_meta meta_k batch
                   else insert_meta meta_k (hh_encode (clear_bounds_if_no_ttl_candidates repaired)) batch)
      in (unat (hh_size repaired), commit E batch s))"

definition hlen_with_mode ::
    "'p engine \<Rightarrow> key_composer \<Rightarrow> u64 \<Rightarrow> bytes \<Rightarrow> hash_length_mode \<Rightarrow> 'p wedb \<Rightarrow> error + (nat \<times> 'p wedb)" where
  "hlen_with_mode E kc now_ms key mode s =
     try_op (get_hash_meta E kc s now_ms key)
       (\<lambda>m. case m of
          None \<Rightarrow> Inr (0, s)
        | Some meta \<Rightarrow>
            if is_legacy meta \<or> mode = Approximate then Inr (unat (hh_size meta), s)
            else if hh_persist meta > hh_size meta then Inr (scan_and_repair_hash E kc now_ms key meta s)
            else if saturating_sub (hh_size meta) (hh_persist meta) = 0 then Inr (unat (hh_size meta), s)
            else if hh_lower meta \<noteq> 0 \<and> now_ms < hh_lower meta then Inr (unat (hh_size meta), s)
            else if all_over meta now_ms then Inr (0, commit E (rm_meta (hash_meta_key kc key) []) s)
            else Inr (scan_and_repair_hash E kc now_ms key meta s))"

definition hlen where "hlen E kc now_ms key s = hlen_with_mode E kc now_ms key Accurate s"

section \<open>Iteration\<close>

text \<open>The closure gets the fields that are not over; its answer says whether to go on.\<close>

definition hiter_step ::
    "hash_meta \<Rightarrow> nat \<Rightarrow> u64 \<Rightarrow> ('a \<Rightarrow> bytes \<times> bytes \<Rightarrow> 'a \<times> bool) \<Rightarrow> 'a \<Rightarrow> bytes \<times> bytes \<Rightarrow> 'a \<times> bool" where
  "hiter_step meta prefix_len now_ms f a = (\<lambda>(k, v).
     case decode_live_subkey_value meta v now_ms of
       Some (_, payload) \<Rightarrow> f a (drop prefix_len k, payload)
     | None \<Rightarrow> (a, True))"

definition hiter_with_meta ::
    "'p engine \<Rightarrow> key_composer \<Rightarrow> 'p wedb \<Rightarrow> u64 \<Rightarrow> bytes \<Rightarrow> hash_meta \<Rightarrow> ('a \<Rightarrow> bytes \<times> bytes \<Rightarrow> 'a \<times> bool) \<Rightarrow> 'a \<Rightarrow> 'a" where
  "hiter_with_meta E kc s now_ms key meta f a =
     (let pfx = hash_prefix_stack kc key
      in visit (hiter_step meta (length pfx) now_ms f) a (hash_entries E s pfx))"

definition hiter ::
    "'p engine \<Rightarrow> key_composer \<Rightarrow> 'p wedb \<Rightarrow> u64 \<Rightarrow> bytes \<Rightarrow> ('a \<Rightarrow> bytes \<times> bytes \<Rightarrow> 'a \<times> bool) \<Rightarrow> 'a \<Rightarrow> error + 'a" where
  "hiter E kc s now_ms key f a =
     try_op (get_hash_meta E kc s now_ms key)
       (\<lambda>m. case readable m now_ms of
          None \<Rightarrow> Inr a | Some meta \<Rightarrow> Inr (hiter_with_meta E kc s now_ms key meta f a))"

definition fetch_hash_items ::
    "'p engine \<Rightarrow> key_composer \<Rightarrow> 'p wedb \<Rightarrow> u64 \<Rightarrow> bytes \<Rightarrow> (bytes \<times> bytes \<Rightarrow> 't) \<Rightarrow> error + 't list" where
  "fetch_hash_items E kc s now_ms key transform =
     try_op (get_hash_meta E kc s now_ms key)
       (\<lambda>m. case readable m now_ms of
          None \<Rightarrow> Inr []
        | Some meta \<Rightarrow> Inr (hiter_with_meta E kc s now_ms key meta (\<lambda>rs fv. (rs @ [transform fv], True)) []))"

definition hgetall where "hgetall E kc s now_ms key = fetch_hash_items E kc s now_ms key (\<lambda>fv. fv)"
definition hkeys where "hkeys E kc s now_ms key = fetch_hash_items E kc s now_ms key fst"
definition hvals where "hvals E kc s now_ms key = fetch_hash_items E kc s now_ms key snd"

definition sample_list :: "rng \<Rightarrow> int \<Rightarrow> 'x list \<Rightarrow> 'x list" where
  "sample_list R count all =
     (let total = length all in
      if total = 0 then []
      else if count > 0 then
        (let sample_cnt = min (nat count) total
         in take sample_cnt (foldl (\<lambda>all i. swap i (usize R i i total) all) all [0..<sample_cnt]))
      else map (\<lambda>i. all ! usize R i 0 total) [0..<nat (- count)])"

definition hrandfield ::
    "'p engine \<Rightarrow> rng \<Rightarrow> key_composer \<Rightarrow> 'p wedb \<Rightarrow> u64 \<Rightarrow> bytes \<Rightarrow> int \<Rightarrow> bool \<Rightarrow> error + (bytes \<times> bytes option) list" where
  "hrandfield E R kc s now_ms key count with_values =
     (if count = 0 then Inr []
      else if with_values then
        try_op (hgetall E kc s now_ms key) (\<lambda>all. Inr (map (\<lambda>(f, v). (f, Some v)) (sample_list R count all)))
      else
        try_op (hkeys E kc s now_ms key) (\<lambda>all. Inr (map (\<lambda>f. (f, None)) (sample_list R count all))))"

definition hrandfield_one :: "'p engine \<Rightarrow> rng \<Rightarrow> key_composer \<Rightarrow> 'p wedb \<Rightarrow> u64 \<Rightarrow> bytes \<Rightarrow> error + bytes option" where
  "hrandfield_one E R kc s now_ms key =
     try_op (hrandfield E R kc s now_ms key 1 False)
       (\<lambda>res. Inr (case res of (f, _) # _ \<Rightarrow> Some f | [] \<Rightarrow> None))"

definition hscan_step ::
    "bytes option \<Rightarrow> nat \<Rightarrow> nat \<Rightarrow> nat \<times> (bytes \<times> bytes) list \<times> bool \<Rightarrow> bytes \<times> bytes
       \<Rightarrow> (nat \<times> (bytes \<times> bytes) list \<times> bool) \<times> bool" where
  "hscan_step pattern cursor limit = (\<lambda>(skipped, matched, has_more) (f, v).
     if member_matches pattern f then
       if skipped < cursor then ((skipped + 1, matched, has_more), True)
       else if length matched < limit then ((skipped, matched @ [(f, v)], has_more), True)
       else ((skipped, matched, True), False)
     else ((skipped, matched, has_more), True))"

definition hscan ::
    "'p engine \<Rightarrow> key_composer \<Rightarrow> 'p wedb \<Rightarrow> u64 \<Rightarrow> bytes \<Rightarrow> nat \<Rightarrow> nat \<Rightarrow> bytes option \<Rightarrow> error + (nat \<times> (bytes \<times> bytes) list)" where
  "hscan E kc s now_ms key cursor limit pattern =
     try_op (hiter E kc s now_ms key (hscan_step pattern cursor limit) (0, [], False))
       (\<lambda>(_, matched, has_more). Inr (if has_more then cursor + length matched else 0, matched))"

definition hscan_field_step ::
    "hash_meta \<Rightarrow> bytes \<Rightarrow> u64 \<Rightarrow> bytes option \<Rightarrow> nat \<Rightarrow> (bytes \<times> bytes) list \<Rightarrow> bytes \<times> bytes \<Rightarrow> (bytes \<times> bytes) list \<times> bool" where
  "hscan_field_step meta pfx now_ms pattern limit matched = (\<lambda>(k, v).
     if \<not> prefix pfx k then (matched, False)
     else
       let f = drop (length pfx) k in
       (case decode_live_subkey_value meta v now_ms of
          Some (_, payload) \<Rightarrow>
            if member_matches pattern f
            then (let matched = matched @ [(f, payload)] in (matched, \<not> length matched \<ge> limit))
            else (matched, True)
        | None \<Rightarrow> (matched, True)))"

definition hscan_by_field ::
    "'p engine \<Rightarrow> key_composer \<Rightarrow> 'p wedb \<Rightarrow> u64 \<Rightarrow> bytes \<Rightarrow> bytes \<Rightarrow> nat \<Rightarrow> bytes option
       \<Rightarrow> error + (bytes option \<times> (bytes \<times> bytes) list)" where
  "hscan_by_field E kc s now_ms key cursor_field limit pattern =
     (if limit = 0 then Inr (None, [])
      else
        try_op (get_hash_meta E kc s now_ms key)
          (\<lambda>m. case readable m now_ms of
             None \<Rightarrow> Inr (None, [])
           | Some meta \<Rightarrow>
               let pfx = hash_prefix_stack kc key;
                   end_ref = (case prefix_upper_bound pfx of Excluded b \<Rightarrow> Excluded b | _ \<Rightarrow> Unbounded);
                   start_ref = (if cursor_field = [] then Included pfx else Excluded (key_for_field kc key cursor_field));
                   matched = visit (hscan_field_step meta pfx now_ms pattern limit) []
                     (e_range E (w_data s) start_ref end_ref)
               in Inr (if length matched = limit then Some (fst (last matched)) else None, matched)))"

record range_lex =
  lx_min :: bytes
  lx_max :: bytes
  lx_minex :: bool
  lx_maxex :: bool
  lx_min_infinite :: bool
  lx_max_infinite :: bool
  lx_offset :: nat
  lx_count :: "nat option"
  lx_reversed :: bool

definition lx_check :: "range_lex \<Rightarrow> bytes \<Rightarrow> bool" where
  "lx_check spec m \<longleftrightarrow>
     (if lx_min_infinite spec then True else if lx_minex spec then m > lx_min spec else m \<ge> lx_min spec)
   \<and> (if lx_max_infinite spec then True else if lx_maxex spec then m < lx_max spec else m \<le> lx_max spec)"

definition hash_lex_range_bounds :: "bytes \<Rightarrow> range_lex \<Rightarrow> bytes bound \<times> bytes bound" where
  "hash_lex_range_bounds pfx spec =
     ((if lx_min_infinite spec then Included pfx
       else if lx_minex spec then Included (pfx @ lx_min spec @ [0])
       else Included (pfx @ lx_min spec)),
      (if lx_max_infinite spec then prefix_upper_bound pfx
       else if lx_maxex spec then Excluded (pfx @ lx_max spec)
       else prefix_upper_bound (pfx @ lx_max spec)))"

definition hlex_step ::
    "hash_meta \<Rightarrow> bytes \<Rightarrow> u64 \<Rightarrow> nat \<Rightarrow> nat option \<Rightarrow> nat \<times> (bytes \<times> bytes) list \<Rightarrow> bytes \<times> bytes
       \<Rightarrow> (nat \<times> (bytes \<times> bytes) list) \<times> bool" where
  "hlex_step meta pfx now_ms offset limit = (\<lambda>(skipped, matching) (k, v).
     if \<not> prefix pfx k then ((skipped, matching), False)
     else
       (case decode_live_subkey_value meta v now_ms of
          Some (_, payload) \<Rightarrow>
            if skipped < offset then ((skipped + 1, matching), True)
            else
              (let matching = matching @ [(drop (length pfx) k, payload)]
               in ((skipped, matching), \<not> (case limit of Some l \<Rightarrow> length matching \<ge> l | None \<Rightarrow> False)))
        | None \<Rightarrow> ((skipped, matching), True)))"

definition hrange_by_lex ::
    "'p engine \<Rightarrow> key_composer \<Rightarrow> 'p wedb \<Rightarrow> u64 \<Rightarrow> bytes \<Rightarrow> range_lex \<Rightarrow> error + (bytes \<times> bytes) list" where
  "hrange_by_lex E kc s now_ms key spec =
     try_op (get_hash_meta E kc s now_ms key)
       (\<lambda>m. case readable m now_ms of
          None \<Rightarrow> Inr []
        | Some meta \<Rightarrow>
            let pfx = hash_prefix_stack kc key;
                (start_ref, end_ref) = hash_lex_range_bounds pfx spec;
                scan = e_range E (w_data s) start_ref end_ref
            in if lx_count spec = Some 0 then Inr []
               else Inr (snd (visit (hlex_step meta pfx now_ms (lx_offset spec) (lx_count spec)) (0, [])
                      (if \<not> lx_reversed spec then scan else rev scan))))"

definition hrangebylex where "hrangebylex E kc s now_ms key spec = hrange_by_lex E kc s now_ms key spec"

end
