(* ===== verification/Hash_Hfe.thy ===== *)
theory Hash_Hfe
  imports Hash_Ops
begin

text \<open>
  \<^verbatim>\<open>embed/src/api/hash/hfe\<close>: the commands on fields that expire. The loops over several fields keep
  the state each field has got so far in a cache, a map from fields. A hash in the legacy encoding
  refuses these commands.
\<close>

section \<open>Shared steps\<close>

definition HASH_FIELD_NOT_FOUND :: int where "HASH_FIELD_NOT_FOUND = -2"
definition HASH_FIELD_PERSISTENT :: int where "HASH_FIELD_PERSISTENT = -1"
definition HASH_EXPIRE_COND_FAILED :: int where "HASH_EXPIRE_COND_FAILED = 0"
definition HASH_EXPIRE_SET_OK :: int where "HASH_EXPIRE_SET_OK = 1"
definition HASH_EXPIRE_DELETED :: int where "HASH_EXPIRE_DELETED = 2"

definition ERR_HASH_FIELD_EXPIRATION_LEGACY_ENCODING :: string where
  "ERR_HASH_FIELD_EXPIRATION_LEGACY_ENCODING =
     ''ERR hash field expiration is not supported by legacy hash encoding''"

definition ceil_div_1000 :: "u64 \<Rightarrow> u64" where
  "ceil_div_1000 val = (if val mod 1000 = 0 then val div 1000 else val div 1000 + 1)"

definition get_hfe_meta :: "'p engine \<Rightarrow> key_composer \<Rightarrow> 'p wedb \<Rightarrow> u64 \<Rightarrow> bytes \<Rightarrow> error + hash_meta option" where
  "get_hfe_meta E kc s now_ms key =
     try_op (get_meta_checked E hash_meta_ops kc s key (hash_meta_key kc key) now_ms)
       (\<lambda>m. case m of
          None \<Rightarrow> Inr None
        | Some meta \<Rightarrow>
            if is_legacy meta then Inl (InvalidData ERR_HASH_FIELD_EXPIRATION_LEGACY_ENCODING) else Inr (Some meta))"

definition get_live_hfe_meta :: "'p engine \<Rightarrow> key_composer \<Rightarrow> 'p wedb \<Rightarrow> u64 \<Rightarrow> bytes \<Rightarrow> error + hash_meta option" where
  "get_live_hfe_meta E kc s now_ms key =
     try_op (get_hfe_meta E kc s now_ms key)
       (\<lambda>m. case m of
          Some meta \<Rightarrow> if hh_upper meta \<noteq> 0 \<and> now_ms > hh_upper meta \<and> hh_persist meta = 0 then Inr None else Inr (Some meta)
        | None \<Rightarrow> Inr None)"

definition purge_expired_physical_field ::
    "'p engine \<Rightarrow> bytes \<Rightarrow> hash_meta \<Rightarrow> bytes \<Rightarrow> batch \<Rightarrow> 'p wedb \<Rightarrow> 'p wedb" where
  "purge_expired_physical_field E meta_k meta item_k batch s =
     commit_hash_batch E meta_k (apply_ttl_to_deleted meta) (rm_data item_k batch) s"

definition missing_entry :: cached_state where
  "missing_entry = \<lparr>cs_kind = FMissing, cs_expire = 0, cs_raw = None\<rparr>"

definition load_field_state :: "'p engine \<Rightarrow> 'p wedb \<Rightarrow> hash_meta \<Rightarrow> bytes \<Rightarrow> u64 \<Rightarrow> cached_state" where
  "load_field_state E s meta item_k now_ms =
     (case e_get E (w_data s) item_k of
        Some raw \<Rightarrow>
          (case decode_field_state meta raw now_ms of
             Some st \<Rightarrow> \<lparr>cs_kind = fs_kind st, cs_expire = fs_expire st, cs_raw = Some raw\<rparr>
           | None \<Rightarrow> missing_entry)
      | None \<Rightarrow> missing_entry)"

definition remove_field_in_batch :: "hash_meta \<Rightarrow> bytes \<Rightarrow> field_kind \<Rightarrow> batch \<Rightarrow> hash_meta \<times> batch" where
  "remove_field_in_batch meta item_k entry_kind batch =
     (if entry_kind = FPersistent then apply_persistent_to_deleted meta else apply_ttl_to_deleted meta,
      rm_data item_k batch)"

definition subkey_payload :: "hash_meta \<Rightarrow> bytes option \<Rightarrow> bytes option" where
  "subkey_payload meta raw = (case raw of Some r \<Rightarrow> map_option snd (decode_subkey_value meta r) | None \<Rightarrow> None)"

definition extract_subkey_payload :: "hash_meta \<Rightarrow> bytes option \<Rightarrow> bytes" where
  "extract_subkey_payload meta raw = (case subkey_payload meta raw of Some p \<Rightarrow> p | None \<Rightarrow> [])"

definition apply_persist_in_batch :: "hash_meta \<Rightarrow> bytes \<Rightarrow> bytes option \<Rightarrow> batch \<Rightarrow> hash_meta \<times> batch" where
  "apply_persist_in_batch meta item_k raw batch =
     (let meta = apply_ttl_to_persistent meta;
          payload = extract_subkey_payload meta raw
      in (meta, insert_data item_k (with_encoded_subkey_value meta payload 0) batch))"

definition apply_expire_in_batch ::
    "hash_meta \<Rightarrow> bytes \<Rightarrow> field_kind \<Rightarrow> bytes option \<Rightarrow> u64 \<Rightarrow> batch \<Rightarrow> hash_meta \<times> batch" where
  "apply_expire_in_batch meta item_k entry_kind raw expire_at_ms batch =
     (let meta = (if entry_kind = FPersistent then apply_persistent_to_ttl expire_at_ms meta
                  else apply_ttl_to_ttl expire_at_ms meta);
          payload = extract_subkey_payload meta raw
      in (meta, insert_data item_k (with_encoded_subkey_value meta payload expire_at_ms) batch))"

definition resolve_target_expire :: "ttl_action \<Rightarrow> u64 \<Rightarrow> field_kind \<Rightarrow> u64 \<Rightarrow> u64" where
  "resolve_target_expire ttl_action options_expire entry_kind entry_expire =
     (case ttl_action of
        TtlDiscard \<Rightarrow> 0
      | TtlPersist \<Rightarrow> 0
      | TtlKeep \<Rightarrow> if entry_kind = FLiveTTL \<or> entry_kind = FExpired then entry_expire else 0
      | TtlSet \<Rightarrow> options_expire)"

definition apply_setex_field_in_batch ::
    "hash_meta \<Rightarrow> bytes \<Rightarrow> bytes \<Rightarrow> field_kind \<Rightarrow> u64 \<Rightarrow> batch \<Rightarrow> hash_meta \<times> batch" where
  "apply_setex_field_in_batch meta item_k v_bytes entry_kind target_expire batch =
     (let new = (if target_expire = 0 then apply_missing_to_persistent meta else apply_missing_to_ttl target_expire meta);
          meta =
            (case entry_kind of
               FMissing \<Rightarrow> new
             | FExpired \<Rightarrow> new
             | FPersistent \<Rightarrow> if target_expire \<noteq> 0 then apply_persistent_to_ttl target_expire meta else meta
             | FLiveTTL \<Rightarrow>
                 if target_expire = 0 then apply_ttl_to_persistent meta else apply_ttl_to_ttl target_expire meta)
      in (meta, insert_data item_k (with_encoded_subkey_value meta v_bytes target_expire) batch))"

text \<open>The entry a loop sees: the cached one, or the one in the store.\<close>

definition cached_entry ::
    "'p engine \<Rightarrow> 'p wedb \<Rightarrow> hash_meta \<Rightarrow> bytes \<Rightarrow> u64 \<Rightarrow> (bytes \<rightharpoonup> cached_state) \<Rightarrow> bytes
       \<Rightarrow> cached_state \<times> (bytes \<rightharpoonup> cached_state)" where
  "cached_entry E s meta item_k now_ms cache f =
     (case cache f of
        Some entry \<Rightarrow> (entry, cache)
      | None \<Rightarrow> let entry = load_field_state E s meta item_k now_ms in (entry, cache(f \<mapsto> entry)))"

text \<open>A loop carries the cache, the batch, the record, whether it changed, and the results.\<close>

type_synonym 'r hfe_loop = "(bytes \<rightharpoonup> cached_state) \<times> batch \<times> hash_meta \<times> bool \<times> 'r list"

definition finish_loop :: "'p engine \<Rightarrow> bytes \<Rightarrow> 'p wedb \<Rightarrow> 'r hfe_loop \<Rightarrow> 'r list \<times> 'p wedb" where
  "finish_loop E meta_k s = (\<lambda>(_, batch, meta, meta_changed, results).
     (results, if meta_changed then commit_hash_batch E meta_k meta batch s else s))"

section \<open>Expiry times of fields\<close>

definition expire_field_one ::
    "'p engine \<Rightarrow> key_composer \<Rightarrow> bytes \<Rightarrow> bytes \<Rightarrow> u64 \<Rightarrow> hexpire_cond \<Rightarrow> u64 \<Rightarrow> 'p wedb \<Rightarrow> error + (int \<times> 'p wedb)" where
  "expire_field_one E kc key f expire_at_ms condition now_ms s =
     try_op (get_live_hfe_meta E kc s now_ms key)
       (\<lambda>m. case m of
          None \<Rightarrow> Inr (HASH_FIELD_NOT_FOUND, s)
        | Some meta \<Rightarrow>
            let meta_k = hash_meta_key kc key;
                is_immediate = is_immediate_expire expire_at_ms now_ms;
                item_k = key_for_field kc key f;
                entry = load_field_state E s meta item_k now_ms
            in (if cs_kind entry = FMissing then Inr (HASH_FIELD_NOT_FOUND, s)
                else if cs_kind entry = FExpired
                then Inr (HASH_FIELD_NOT_FOUND, purge_expired_physical_field E meta_k meta item_k [] s)
                else if \<not> hexpire_condition_passes condition (cs_kind entry) (cs_expire entry) expire_at_ms
                then Inr (HASH_EXPIRE_COND_FAILED, s)
                else if is_immediate
                then (let (meta, batch) = remove_field_in_batch meta item_k (cs_kind entry) []
                      in Inr (HASH_EXPIRE_DELETED, commit_hash_batch E meta_k meta batch s))
                else (let (meta, batch) = apply_expire_in_batch meta item_k (cs_kind entry) (cs_raw entry) expire_at_ms []
                      in Inr (HASH_EXPIRE_SET_OK, commit_hash_batch E meta_k meta batch s))))"

definition expire_step ::
    "'p engine \<Rightarrow> 'p wedb \<Rightarrow> key_composer \<Rightarrow> bytes \<Rightarrow> u64 \<Rightarrow> hexpire_cond \<Rightarrow> u64 \<Rightarrow> int hfe_loop \<Rightarrow> bytes \<Rightarrow> int hfe_loop" where
  "expire_step E s kc key expire_at_ms condition now_ms = (\<lambda>(cache, batch, meta, changed, results) f.
     let item_k = key_for_field kc key f;
         (entry, cache) = cached_entry E s meta item_k now_ms cache f
     in (if cs_kind entry = FMissing then (cache, batch, meta, changed, results @ [HASH_FIELD_NOT_FOUND])
         else if cs_kind entry = FExpired
         then (cache(f \<mapsto> missing_entry), rm_data item_k batch, apply_ttl_to_deleted meta, True,
               results @ [HASH_FIELD_NOT_FOUND])
         else if \<not> hexpire_condition_passes condition (cs_kind entry) (cs_expire entry) expire_at_ms
         then (cache, batch, meta, changed, results @ [HASH_EXPIRE_COND_FAILED])
         else if is_immediate_expire expire_at_ms now_ms
         then (let (meta, batch) = remove_field_in_batch meta item_k (cs_kind entry) batch
               in (cache(f \<mapsto> missing_entry), batch, meta, True, results @ [HASH_EXPIRE_DELETED]))
         else (let (meta, batch) = apply_expire_in_batch meta item_k (cs_kind entry) (cs_raw entry) expire_at_ms batch
               in (cache(f \<mapsto> \<lparr>cs_kind = FLiveTTL, cs_expire = expire_at_ms, cs_raw = cs_raw entry\<rparr>), batch, meta, True,
                   results @ [HASH_EXPIRE_SET_OK]))))"

definition expire_fields ::
    "'p engine \<Rightarrow> key_composer \<Rightarrow> bytes \<Rightarrow> bytes list \<Rightarrow> u64 \<Rightarrow> hexpire_cond \<Rightarrow> u64 \<Rightarrow> 'p wedb \<Rightarrow> error + (int list \<times> 'p wedb)" where
  "expire_fields E kc key fvs expire_at_ms condition now_ms s =
     (if fvs = [] then Inr ([], s)
      else if length fvs = 1 then
        try_op (expire_field_one E kc key (fvs ! 0) expire_at_ms condition now_ms s) (\<lambda>(r, s). Inr ([r], s))
      else
        try_op (get_live_hfe_meta E kc s now_ms key)
          (\<lambda>m. case m of
             None \<Rightarrow> Inr (replicate (length fvs) HASH_FIELD_NOT_FOUND, s)
           | Some meta \<Rightarrow>
               Inr (finish_loop E (hash_meta_key kc key) s
                 (foldl (expire_step E s kc key expire_at_ms condition now_ms) (Map.empty, [], meta, False, []) fvs))))"

definition first_hexpire :: "hexpire_cond list \<Rightarrow> hexpire_cond" where
  "first_hexpire opt_li = (case opt_li of [] \<Rightarrow> HxNone | c # _ \<Rightarrow> c)"

text \<open>The command takes a signed 64-bit count of seconds or milliseconds.\<close>

definition seconds_target :: "u64 \<Rightarrow> int \<Rightarrow> u64" where
  "seconds_target now_ms seconds =
     (if seconds \<le> 0 then 0 else saturating_add now_ms (saturating_mul_u64 (word_of_int seconds) 1000))"

definition millis_target :: "u64 \<Rightarrow> int \<Rightarrow> u64" where
  "millis_target now_ms milliseconds =
     (if milliseconds \<le> 0 then 0 else saturating_add now_ms (word_of_int milliseconds))"

definition hexpire where
  "hexpire E kc now_ms key fvs seconds opt_li s =
     expire_fields E kc key fvs (seconds_target now_ms seconds) (first_hexpire opt_li) now_ms s"

definition hexpire_one where
  "hexpire_one E kc now_ms key f seconds opt_li s =
     expire_field_one E kc key f (seconds_target now_ms seconds) (first_hexpire opt_li) now_ms s"

definition hpexpire where
  "hpexpire E kc now_ms key fvs milliseconds opt_li s =
     expire_fields E kc key fvs (millis_target now_ms milliseconds) (first_hexpire opt_li) now_ms s"

definition hpexpire_one where
  "hpexpire_one E kc now_ms key f milliseconds opt_li s =
     expire_field_one E kc key f (millis_target now_ms milliseconds) (first_hexpire opt_li) now_ms s"

definition hexpireat where
  "hexpireat E kc now_ms key fvs unix_time_sec opt_li s =
     expire_fields E kc key fvs (saturating_mul_u64 unix_time_sec 1000) (first_hexpire opt_li) now_ms s"

definition hexpireat_one where
  "hexpireat_one E kc now_ms key f unix_time_sec opt_li s =
     expire_field_one E kc key f (saturating_mul_u64 unix_time_sec 1000) (first_hexpire opt_li) now_ms s"

definition hpexpireat where
  "hpexpireat E kc now_ms key fvs unix_time_ms opt_li s =
     expire_fields E kc key fvs unix_time_ms (first_hexpire opt_li) now_ms s"

definition hpexpireat_one where
  "hpexpireat_one E kc now_ms key f unix_time_ms opt_li s =
     expire_field_one E kc key f unix_time_ms (first_hexpire opt_li) now_ms s"

section \<open>Remaining times\<close>

definition evaluate_field_ttl :: "hash_meta \<Rightarrow> bytes option \<Rightarrow> u64 \<Rightarrow> (u64 \<Rightarrow> u64 \<Rightarrow> int) \<Rightarrow> int" where
  "evaluate_field_ttl meta raw_opt now_ms map_live_ttl =
     (case raw_opt of
        None \<Rightarrow> HASH_FIELD_NOT_FOUND
      | Some raw \<Rightarrow>
          (case decode_field_state meta raw now_ms of
             None \<Rightarrow> HASH_FIELD_NOT_FOUND
           | Some st \<Rightarrow>
               (case fs_kind st of
                  FMissing \<Rightarrow> HASH_FIELD_NOT_FOUND
                | FExpired \<Rightarrow> HASH_FIELD_NOT_FOUND
                | FPersistent \<Rightarrow> HASH_FIELD_PERSISTENT
                | FLiveTTL \<Rightarrow> map_live_ttl (fs_expire st) now_ms)))"

definition query_field_expire_info_one ::
    "'p engine \<Rightarrow> key_composer \<Rightarrow> 'p wedb \<Rightarrow> u64 \<Rightarrow> bytes \<Rightarrow> bytes \<Rightarrow> (u64 \<Rightarrow> u64 \<Rightarrow> int) \<Rightarrow> error + int" where
  "query_field_expire_info_one E kc s now_ms key f map_live_ttl =
     try_op (get_live_hfe_meta E kc s now_ms key)
       (\<lambda>m. case m of
          None \<Rightarrow> Inr HASH_FIELD_NOT_FOUND
        | Some meta \<Rightarrow> Inr (evaluate_field_ttl meta (e_get E (w_data s) (key_for_field kc key f)) now_ms map_live_ttl))"

definition query_step ::
    "'p engine \<Rightarrow> 'p wedb \<Rightarrow> key_composer \<Rightarrow> bytes \<Rightarrow> hash_meta \<Rightarrow> u64 \<Rightarrow> (u64 \<Rightarrow> u64 \<Rightarrow> int)
       \<Rightarrow> (bytes \<rightharpoonup> int) \<times> int list \<Rightarrow> bytes \<Rightarrow> (bytes \<rightharpoonup> int) \<times> int list" where
  "query_step E s kc key meta now_ms map_live_ttl = (\<lambda>(cache, results) f.
     case cache f of
       Some r \<Rightarrow> (cache, results @ [r])
     | None \<Rightarrow>
         let res = evaluate_field_ttl meta (e_get E (w_data s) (key_for_field kc key f)) now_ms map_live_ttl
         in (cache(f \<mapsto> res), results @ [res]))"

definition query_field_expire_info ::
    "'p engine \<Rightarrow> key_composer \<Rightarrow> 'p wedb \<Rightarrow> u64 \<Rightarrow> bytes \<Rightarrow> bytes list \<Rightarrow> (u64 \<Rightarrow> u64 \<Rightarrow> int) \<Rightarrow> error + int list" where
  "query_field_expire_info E kc s now_ms key fvs map_live_ttl =
     (if length fvs = 1 then
        try_op (query_field_expire_info_one E kc s now_ms key (fvs ! 0) map_live_ttl) (\<lambda>r. Inr [r])
      else
        try_op (get_live_hfe_meta E kc s now_ms key)
          (\<lambda>m. case m of
             None \<Rightarrow> Inr (replicate (length fvs) HASH_FIELD_NOT_FOUND)
           | Some meta \<Rightarrow> Inr (snd (foldl (query_step E s kc key meta now_ms map_live_ttl) (Map.empty, []) fvs))))"

text \<open>\<open>as i64\<close> of a time.\<close>

definition httl where
  "httl E kc s now_ms key fvs = query_field_expire_info E kc s now_ms key fvs
     (\<lambda>expire now_ms. sint (ceil_div_1000 (saturating_sub expire now_ms)))"

definition httl_one where
  "httl_one E kc s now_ms key f = query_field_expire_info_one E kc s now_ms key f
     (\<lambda>expire now_ms. sint (ceil_div_1000 (saturating_sub expire now_ms)))"

definition hpttl where
  "hpttl E kc s now_ms key fvs = query_field_expire_info E kc s now_ms key fvs
     (\<lambda>expire now_ms. sint (saturating_sub expire now_ms))"

definition hpttl_one where
  "hpttl_one E kc s now_ms key f = query_field_expire_info_one E kc s now_ms key f
     (\<lambda>expire now_ms. sint (saturating_sub expire now_ms))"

definition hexpiretime where
  "hexpiretime E kc s now_ms key fvs = query_field_expire_info E kc s now_ms key fvs (\<lambda>expire _. sint (expire div 1000))"

definition hexpiretime_one where
  "hexpiretime_one E kc s now_ms key f = query_field_expire_info_one E kc s now_ms key f (\<lambda>expire _. sint (expire div 1000))"

definition hpexpiretime where
  "hpexpiretime E kc s now_ms key fvs = query_field_expire_info E kc s now_ms key fvs (\<lambda>expire _. sint expire)"

definition hpexpiretime_one where
  "hpexpiretime_one E kc s now_ms key f = query_field_expire_info_one E kc s now_ms key f (\<lambda>expire _. sint expire)"

section \<open>Removing expiry times\<close>

definition hpersist_one ::
    "'p engine \<Rightarrow> key_composer \<Rightarrow> u64 \<Rightarrow> bytes \<Rightarrow> bytes \<Rightarrow> 'p wedb \<Rightarrow> error + (int \<times> 'p wedb)" where
  "hpersist_one E kc now_ms key f s =
     try_op (get_live_hfe_meta E kc s now_ms key)
       (\<lambda>m. case m of
          None \<Rightarrow> Inr (HASH_FIELD_NOT_FOUND, s)
        | Some meta \<Rightarrow>
            let meta_k = hash_meta_key kc key;
                item_k = key_for_field kc key f;
                entry = load_field_state E s meta item_k now_ms
            in (case cs_kind entry of
                  FMissing \<Rightarrow> Inr (HASH_FIELD_NOT_FOUND, s)
                | FExpired \<Rightarrow> Inr (HASH_FIELD_NOT_FOUND, purge_expired_physical_field E meta_k meta item_k [] s)
                | FPersistent \<Rightarrow> Inr (HASH_FIELD_PERSISTENT, s)
                | FLiveTTL \<Rightarrow>
                    (let (meta, batch) = apply_persist_in_batch meta item_k (cs_raw entry) []
                     in Inr (HASH_EXPIRE_SET_OK, commit_hash_batch E meta_k meta batch s))))"

definition persist_step ::
    "'p engine \<Rightarrow> 'p wedb \<Rightarrow> key_composer \<Rightarrow> bytes \<Rightarrow> u64 \<Rightarrow> int hfe_loop \<Rightarrow> bytes \<Rightarrow> int hfe_loop" where
  "persist_step E s kc key now_ms = (\<lambda>(cache, batch, meta, changed, results) f.
     let item_k = key_for_field kc key f;
         (entry, cache) = cached_entry E s meta item_k now_ms cache f
     in (case cs_kind entry of
           FMissing \<Rightarrow> (cache, batch, meta, changed, results @ [HASH_FIELD_NOT_FOUND])
         | FExpired \<Rightarrow>
             (cache(f \<mapsto> missing_entry), rm_data item_k batch, apply_ttl_to_deleted meta, True,
              results @ [HASH_FIELD_NOT_FOUND])
         | FPersistent \<Rightarrow> (cache, batch, meta, changed, results @ [HASH_FIELD_PERSISTENT])
         | FLiveTTL \<Rightarrow>
             (let (meta, batch) = apply_persist_in_batch meta item_k (cs_raw entry) batch
              in (cache(f \<mapsto> \<lparr>cs_kind = FPersistent, cs_expire = 0, cs_raw = cs_raw entry\<rparr>), batch, meta, True,
                  results @ [HASH_EXPIRE_SET_OK]))))"

definition hpersist ::
    "'p engine \<Rightarrow> key_composer \<Rightarrow> u64 \<Rightarrow> bytes \<Rightarrow> bytes list \<Rightarrow> 'p wedb \<Rightarrow> error + (int list \<times> 'p wedb)" where
  "hpersist E kc now_ms key fvs s =
     (if fvs = [] then Inr ([], s)
      else if length fvs = 1 then
        try_op (hpersist_one E kc now_ms key (fvs ! 0) s) (\<lambda>(r, s). Inr ([r], s))
      else
        try_op (get_live_hfe_meta E kc s now_ms key)
          (\<lambda>m. case m of
             None \<Rightarrow> Inr (replicate (length fvs) HASH_FIELD_NOT_FOUND, s)
           | Some meta \<Rightarrow>
               Inr (finish_loop E (hash_meta_key kc key) s
                 (foldl (persist_step E s kc key now_ms) (Map.empty, [], meta, False, []) fvs))))"

section \<open>Reading and removing\<close>

definition hgetdel_one ::
    "'p engine \<Rightarrow> key_composer \<Rightarrow> u64 \<Rightarrow> bytes \<Rightarrow> bytes \<Rightarrow> 'p wedb \<Rightarrow> error + (bytes option \<times> 'p wedb)" where
  "hgetdel_one E kc now_ms key f s =
     try_op (get_live_hfe_meta E kc s now_ms key)
       (\<lambda>m. case m of
          None \<Rightarrow> Inr (None, s)
        | Some meta \<Rightarrow>
            let meta_k = hash_meta_key kc key;
                item_k = key_for_field kc key f;
                entry = load_field_state E s meta item_k now_ms
            in (if cs_kind entry = FMissing then Inr (None, s)
                else if cs_kind entry = FExpired
                then Inr (None, purge_expired_physical_field E meta_k meta item_k [] s)
                else
                  let payload = extract_subkey_payload meta (cs_raw entry);
                      (meta, batch) = remove_field_in_batch meta item_k (cs_kind entry) []
                  in Inr (Some payload, commit_hash_batch E meta_k meta batch s)))"

definition getdel_step ::
    "'p engine \<Rightarrow> 'p wedb \<Rightarrow> key_composer \<Rightarrow> bytes \<Rightarrow> u64 \<Rightarrow> bytes option hfe_loop \<Rightarrow> bytes \<Rightarrow> bytes option hfe_loop" where
  "getdel_step E s kc key now_ms = (\<lambda>(cache, batch, meta, changed, results) f.
     let item_k = key_for_field kc key f;
         (entry, cache) = cached_entry E s meta item_k now_ms cache f
     in (if cs_kind entry = FMissing then (cache, batch, meta, changed, results @ [None])
         else if cs_kind entry = FExpired
         then (cache(f \<mapsto> missing_entry), rm_data item_k batch, apply_ttl_to_deleted meta, True, results @ [None])
         else
           let payload = extract_subkey_payload meta (cs_raw entry);
               (meta, batch) = remove_field_in_batch meta item_k (cs_kind entry) batch
           in (cache(f \<mapsto> missing_entry), batch, meta, True, results @ [Some payload])))"

definition hgetdel ::
    "'p engine \<Rightarrow> key_composer \<Rightarrow> u64 \<Rightarrow> bytes \<Rightarrow> bytes list \<Rightarrow> 'p wedb \<Rightarrow> error + (bytes option list \<times> 'p wedb)" where
  "hgetdel E kc now_ms key fvs s =
     (if fvs = [] then Inr ([], s)
      else if length fvs = 1 then
        try_op (hgetdel_one E kc now_ms key (fvs ! 0) s) (\<lambda>(r, s). Inr ([r], s))
      else
        try_op (get_live_hfe_meta E kc s now_ms key)
          (\<lambda>m. case m of
             None \<Rightarrow> Inr (replicate (length fvs) None, s)
           | Some meta \<Rightarrow>
               Inr (finish_loop E (hash_meta_key kc key) s
                 (foldl (getdel_step E s kc key now_ms) (Map.empty, [], meta, False, []) fvs))))"

section \<open>Reading with a new expiry time\<close>

definition get_field_with_expire_one ::
    "'p engine \<Rightarrow> key_composer \<Rightarrow> bytes \<Rightarrow> bytes \<Rightarrow> hash_get_ex \<Rightarrow> u64 \<Rightarrow> 'p wedb \<Rightarrow> error + (bytes option \<times> 'p wedb)" where
  "get_field_with_expire_one E kc key f opts now_ms s =
     try_op (get_live_hfe_meta E kc s now_ms key)
       (\<lambda>m. case m of
          None \<Rightarrow> Inr (None, s)
        | Some meta \<Rightarrow>
            let meta_k = hash_meta_key kc key;
                item_k = key_for_field kc key f;
                entry = load_field_state E s meta item_k now_ms
            in (if cs_kind entry = FMissing then Inr (None, s)
                else if cs_kind entry = FExpired
                then Inr (None, purge_expired_physical_field E meta_k meta item_k [] s)
                else
                  let payload = subkey_payload meta (cs_raw entry) in
                  if hge_ttl_action opts = TtlDiscard \<or> (hge_ttl_action opts = TtlPersist \<and> cs_kind entry = FPersistent)
                  then Inr (payload, s)
                  else if hge_ttl_action opts = TtlSet \<and> is_immediate_expire (hge_expire_at_ms opts) now_ms
                  then
                    Inr (None, commit_hash_batch E meta_k
                      (if cs_kind entry = FPersistent then apply_persistent_to_deleted meta else apply_ttl_to_deleted meta)
                      (rm_data item_k []) s)
                  else
                    let target_expire = (if hge_ttl_action opts = TtlPersist then 0 else hge_expire_at_ms opts);
                        meta = (if hge_ttl_action opts = TtlPersist
                                then if cs_kind entry = FLiveTTL then apply_ttl_to_persistent meta else meta
                                else if cs_kind entry = FPersistent then apply_persistent_to_ttl target_expire meta
                                else apply_ttl_to_ttl target_expire meta);
                        batch = (case payload of
                                   Some p \<Rightarrow> insert_data item_k (with_encoded_subkey_value meta p target_expire) []
                                 | None \<Rightarrow> [])
                    in Inr (payload, commit_hash_batch E meta_k meta batch s)))"

definition getex_step ::
    "'p engine \<Rightarrow> 'p wedb \<Rightarrow> key_composer \<Rightarrow> bytes \<Rightarrow> hash_get_ex \<Rightarrow> u64 \<Rightarrow> bytes option hfe_loop \<Rightarrow> bytes \<Rightarrow> bytes option hfe_loop" where
  "getex_step E s kc key opts now_ms = (\<lambda>(cache, batch, meta, changed, results) f.
     let item_k = key_for_field kc key f;
         is_immediate = (hge_ttl_action opts = TtlSet \<and> is_immediate_expire (hge_expire_at_ms opts) now_ms);
         expire_at = hge_expire_at_ms opts;
         (entry, cache) = cached_entry E s meta item_k now_ms cache f;
         payload = extract_subkey_payload meta (cs_raw entry)
     in (case cs_kind entry of
           FMissing \<Rightarrow> (cache, batch, meta, changed, results @ [None])
         | FExpired \<Rightarrow>
             (cache(f \<mapsto> missing_entry), rm_data item_k batch, apply_ttl_to_deleted meta, True, results @ [None])
         | FPersistent \<Rightarrow>
             if is_immediate
             then (cache(f \<mapsto> missing_entry), rm_data item_k batch, apply_persistent_to_deleted meta, True, results @ [Some payload])
             else if hge_ttl_action opts = TtlSet \<and> expire_at \<noteq> 0
             then (let meta = apply_persistent_to_ttl expire_at meta
                   in (cache(f \<mapsto> \<lparr>cs_kind = FLiveTTL, cs_expire = expire_at, cs_raw = cs_raw entry\<rparr>),
                       insert_data item_k (with_encoded_subkey_value meta payload expire_at) batch, meta, True,
                       results @ [Some payload]))
             else (cache, batch, meta, changed, results @ [Some payload])
         | FLiveTTL \<Rightarrow>
             if is_immediate
             then (cache(f \<mapsto> missing_entry), rm_data item_k batch, apply_ttl_to_deleted meta, True, results @ [Some payload])
             else
               (case hge_ttl_action opts of
                  TtlPersist \<Rightarrow>
                    (let meta = apply_ttl_to_persistent meta
                     in (cache(f \<mapsto> \<lparr>cs_kind = FPersistent, cs_expire = 0, cs_raw = cs_raw entry\<rparr>),
                         insert_data item_k (with_encoded_subkey_value meta payload 0) batch, meta, True,
                         results @ [Some payload]))
                | TtlSet \<Rightarrow>
                    (let meta = apply_ttl_to_ttl expire_at meta
                     in (cache(f \<mapsto> \<lparr>cs_kind = FLiveTTL, cs_expire = expire_at, cs_raw = cs_raw entry\<rparr>),
                         insert_data item_k (with_encoded_subkey_value meta payload expire_at) batch, meta, True,
                         results @ [Some payload]))
                | TtlKeep \<Rightarrow> (cache, batch, meta, changed, results @ [Some payload])
                | TtlDiscard \<Rightarrow> (cache, batch, meta, changed, results @ [Some payload]))))"

definition get_fields_with_expire ::
    "'p engine \<Rightarrow> key_composer \<Rightarrow> bytes \<Rightarrow> bytes list \<Rightarrow> hash_get_ex \<Rightarrow> u64 \<Rightarrow> 'p wedb \<Rightarrow> error + (bytes option list \<times> 'p wedb)" where
  "get_fields_with_expire E kc key fvs opts now_ms s =
     (if fvs = [] then Inr ([], s)
      else if length fvs = 1 then
        try_op (get_field_with_expire_one E kc key (fvs ! 0) opts now_ms s) (\<lambda>(r, s). Inr ([r], s))
      else
        try_op (get_live_hfe_meta E kc s now_ms key)
          (\<lambda>m. case m of
             None \<Rightarrow> Inr (replicate (length fvs) None, s)
           | Some meta \<Rightarrow>
               Inr (finish_loop E (hash_meta_key kc key) s
                 (foldl (getex_step E s kc key opts now_ms) (Map.empty, [], meta, False, []) fvs))))"

definition hgetex where
  "hgetex E kc now_ms key f opt_li s = get_field_with_expire_one E kc key f (hge_from_options opt_li now_ms) now_ms s"

text \<open>The clock is read once for the options and once more for the fields.\<close>

definition hmget_ex where
  "hmget_ex E kc opt_ms now_ms key fvs opt_li s =
     get_fields_with_expire E kc key fvs (hge_from_options opt_li opt_ms) now_ms s"

section \<open>Setting with an expiry time\<close>

definition set_condition_met :: "set_condition \<Rightarrow> field_kind \<Rightarrow> bool" where
  "set_condition_met condition kind =
     (case condition of
        SetAny \<Rightarrow> True
      | SetFnx \<Rightarrow> kind = FMissing \<or> kind = FExpired
      | SetFxx \<Rightarrow> kind = FPersistent \<or> kind = FLiveTTL)"

definition stored_entry :: "'p engine \<Rightarrow> 'p wedb \<Rightarrow> bool \<Rightarrow> hash_meta \<Rightarrow> bytes \<Rightarrow> u64 \<Rightarrow> cached_state" where
  "stored_entry E s metadata_existed meta item_k now_ms =
     (if metadata_existed then load_field_state E s meta item_k now_ms else missing_entry)"

definition set_field_with_expire_one ::
    "'p engine \<Rightarrow> key_composer \<Rightarrow> u64 \<Rightarrow> bytes \<Rightarrow> bytes \<Rightarrow> bytes \<Rightarrow> hash_set_ex \<Rightarrow> u64 \<Rightarrow> 'p wedb \<Rightarrow> error + (bool \<times> 'p wedb)" where
  "set_field_with_expire_one E kc ts key f v opts now_ms s =
     try_op (prepare_hash_meta_for_write E kc now_ms ts key [] s)
       (\<lambda>((meta, metadata_existed), batch, s).
          if metadata_existed \<and> is_legacy meta then Inl (InvalidData ERR_HASH_FIELD_EXPIRATION_LEGACY_ENCODING)
          else
            let meta_k = hash_meta_key kc key;
                item_k = key_for_field kc key f;
                entry = stored_entry E s metadata_existed meta item_k now_ms
            in if \<not> set_condition_met (hse_condition opts) (cs_kind entry) then Inr (False, s)
               else if hse_ttl_action opts = TtlSet \<and> is_immediate_expire (hse_expire_at_ms opts) now_ms then
                 (if cs_kind entry \<noteq> FMissing then
                    let (meta, batch) = remove_field_in_batch meta item_k (cs_kind entry) batch
                    in Inr (True, commit_hash_batch E meta_k meta batch s)
                  else Inr (True, s))
               else
                 let target_expire = resolve_target_expire (hse_ttl_action opts) (hse_expire_at_ms opts)
                       (cs_kind entry) (cs_expire entry);
                     (meta, batch) = apply_setex_field_in_batch meta item_k v (cs_kind entry) target_expire batch
                 in Inr (True, commit_hash_batch E meta_k meta batch s))"

text \<open>The first loop, which checks the condition: the cache, or \<open>None\<close> when a field fails.\<close>

fun setex_check ::
    "'p engine \<Rightarrow> 'p wedb \<Rightarrow> key_composer \<Rightarrow> bytes \<Rightarrow> set_condition \<Rightarrow> bool \<Rightarrow> hash_meta \<Rightarrow> u64
       \<Rightarrow> (bytes \<rightharpoonup> cached_state) \<Rightarrow> (bytes \<times> bytes) list \<Rightarrow> (bytes \<rightharpoonup> cached_state) option" where
  "setex_check E s kc key condition existed meta now_ms cache [] = Some cache"
| "setex_check E s kc key condition existed meta now_ms cache ((f, v) # fvs) =
     (let state_entry = stored_entry E s existed meta (key_for_field kc key f) now_ms in
      if \<not> set_condition_met condition (cs_kind state_entry) then None
      else setex_check E s kc key condition existed meta now_ms (cache(f \<mapsto> state_entry)) fvs)"

definition setex_step ::
    "'p engine \<Rightarrow> 'p wedb \<Rightarrow> key_composer \<Rightarrow> bytes \<Rightarrow> hash_set_ex \<Rightarrow> bool \<Rightarrow> u64
       \<Rightarrow> (bytes \<rightharpoonup> cached_state) \<times> batch \<times> hash_meta \<Rightarrow> bytes \<times> bytes \<Rightarrow> (bytes \<rightharpoonup> cached_state) \<times> batch \<times> hash_meta" where
  "setex_step E s kc key opts existed now_ms = (\<lambda>(cache, batch, meta) (f, v).
     let item_k = key_for_field kc key f;
         (entry, cache) =
           (case cache f of
              Some entry \<Rightarrow> (entry, cache)
            | None \<Rightarrow>
                if existed then let entry = load_field_state E s meta item_k now_ms in (entry, cache(f \<mapsto> entry))
                else (missing_entry, cache))
     in if hse_ttl_action opts = TtlSet \<and> is_immediate_expire (hse_expire_at_ms opts) now_ms then
          let (meta, batch) =
                (if cs_kind entry \<noteq> FMissing then remove_field_in_batch meta item_k (cs_kind entry) batch else (meta, batch))
          in (cache(f \<mapsto> missing_entry), batch, meta)
        else
          let target_expire = resolve_target_expire (hse_ttl_action opts) (hse_expire_at_ms opts)
                (cs_kind entry) (cs_expire entry);
              (meta, batch) = apply_setex_field_in_batch meta item_k v (cs_kind entry) target_expire batch
          in (cache(f \<mapsto> \<lparr>cs_kind = (if target_expire = 0 then FPersistent else FLiveTTL), cs_expire = target_expire,
                          cs_raw = None\<rparr>), batch, meta))"

text \<open>The clock is read once for a single field and again for several.\<close>

definition set_fields_with_expire ::
    "'p engine \<Rightarrow> key_composer \<Rightarrow> u64 \<Rightarrow> bytes \<Rightarrow> (bytes \<times> bytes) list \<Rightarrow> hash_set_ex \<Rightarrow> u64 \<Rightarrow> u64 \<Rightarrow> 'p wedb
       \<Rightarrow> error + (bool \<times> 'p wedb)" where
  "set_fields_with_expire E kc ts key fvs opts one_ms now_ms s =
     (if fvs = [] then Inr (False, s)
      else if length fvs = 1 then
        set_field_with_expire_one E kc ts key (fst (fvs ! 0)) (snd (fvs ! 0)) opts one_ms s
      else
        try_op (prepare_hash_meta_for_write E kc now_ms ts key [] s)
          (\<lambda>((meta, existed), batch, s).
             if existed \<and> is_legacy meta then Inl (InvalidData ERR_HASH_FIELD_EXPIRATION_LEGACY_ENCODING)
             else
               (case (if hse_condition opts \<noteq> SetAny
                      then setex_check E s kc key (hse_condition opts) existed meta now_ms Map.empty fvs
                      else Some Map.empty) of
                  None \<Rightarrow> Inr (False, s)
                | Some cache \<Rightarrow>
                    let (_, batch, meta) =
                          foldl (setex_step E s kc key opts existed now_ms) (cache, batch, meta) (unique_fields fvs)
                    in Inr (True, commit_hash_batch E (hash_meta_key kc key) meta batch s))))"

definition hsetex_one where
  "hsetex_one E kc now_ms ts key f v opt_li s =
     set_field_with_expire_one E kc ts key f v (hse_from_options opt_li now_ms) now_ms s"

definition hsetex where
  "hsetex E kc opt_ms one_ms now_ms ts key fvs opt_li s =
     set_fields_with_expire E kc ts key fvs (hse_from_options opt_li opt_ms) one_ms now_ms s"

end
