(* ===== verification/Hash_Rep.thy ===== *)
theory Hash_Rep
  imports Hash_Hfe
begin

text \<open>
  The hash commands against the fields a key stands for. The store may hold fields whose time is
  over, and its record may count a field more than once; the fields a reader sees are the ones whose
  time is not over.
\<close>

section \<open>Keys and bytes in closed form\<close>

abbreviation hq :: "key_composer \<Rightarrow> bytes \<Rightarrow> bytes" where
  "hq kc key \<equiv> subkey_prefix kc HashData key"

abbreviation hk :: "key_composer \<Rightarrow> bytes \<Rightarrow> bytes" where
  "hk kc key \<equiv> meta_key kc HashMeta key"

lemma hash_keys [simp]:
  "hash_meta_key kc key = hk kc key"
  "hash_prefix_stack kc key = hq kc key"
  "hash_field_key kc key f = hq kc key @ f"
  "key_for_field kc key f = hq kc key @ f"
proof -
  show p: "hash_prefix_stack kc key = hq kc key"
    by (simp add: hash_prefix_stack_def subkey_prefix_def)
  show "key_for_field kc key f = hq kc key @ f"
    unfolding key_for_field_def
    using sc_for_compose(1) [OF sc_for_from_slice [of "hq kc key"]] by (simp add: p)
qed (simp_all add: hash_meta_key_def hash_field_key_def meta_key_def subkey_prefix_def)

text \<open>The fields a reader sees, the bytes of the stored ones, and the kind the code gives a field.\<close>

definition live :: "fields \<Rightarrow> u64 \<Rightarrow> fields" where
  "live P now f = (case P f of Some (e, v) \<Rightarrow> if is_field_expired e now then None else Some (e, v) | None \<Rightarrow> None)"

definition enc :: "bool \<Rightarrow> fields \<Rightarrow> kv_map" where
  "enc l P = (\<lambda>f. map_option (\<lambda>(e, v). if l then v else to_be64 e @ v) (P f))"

definition kind_of :: "u64 \<Rightarrow> (u64 \<times> bytes) option \<Rightarrow> field_kind" where
  "kind_of now x =
     (case x of
        None \<Rightarrow> FMissing
      | Some (e, _) \<Rightarrow> if e = 0 then FPersistent else if is_field_expired e now then FExpired else FLiveTTL)"

lemma live_update [simp]:
  "live (P(f := None)) now = (live P now)(f := None)"
  "\<not> is_field_expired e now \<Longrightarrow> live (P(f \<mapsto> (e, v))) now = (live P now)(f \<mapsto> (e, v))"
  "live Map.empty now = Map.empty"
  by (auto simp: live_def fun_eq_iff)

lemma field_never_over [simp]: "\<not> is_field_expired 0 now"
  by (simp add: is_field_expired_def)

lemma live_Some: "live P now f = Some (e, v) \<longleftrightarrow> P f = Some (e, v) \<and> \<not> is_field_expired e now"
  by (auto simp: live_def split: option.splits if_splits)

lemma live_None: "live P now f = None \<longleftrightarrow> (\<forall>e v. P f = Some (e, v) \<longrightarrow> is_field_expired e now)"
  by (auto simp: live_def split: option.splits if_splits)

lemma kind_of_simps [simp]:
  "kind_of now None = FMissing"
  "kind_of now (Some (0, v)) = FPersistent"
  by (simp_all add: kind_of_def)

lemma kind_of_live:
  "live P now f = Some (e, v) \<Longrightarrow> kind_of now (P f) = (if e = 0 then FPersistent else FLiveTTL)"
  "live P now f = None \<Longrightarrow> kind_of now (P f) = (if P f = None then FMissing else FExpired)"
  by (auto simp: live_def kind_of_def split: option.splits if_splits)

lemma enc_update [simp]:
  "(enc l P)(f := None) = enc l (P(f := None))"
  "(enc l P)(f \<mapsto> (if l then v else to_be64 e @ v)) = enc l (P(f \<mapsto> (e, v)))"
  "enc l Map.empty = Map.empty"
  by (auto simp: enc_def fun_eq_iff)

lemma encode_subkey_eq: "encode_subkey_value m v e = (if is_legacy m then v else to_be64 e @ v)"
  by (simp add: encode_subkey_value_def encode_hash_value_def)

section \<open>Records and stored fields\<close>

text \<open>A record may count too much only when the time of some field was over already.\<close>

definition hash_ok :: "hash_meta \<Rightarrow> fields \<Rightarrow> nat \<Rightarrow> u64 \<Rightarrow> bool" where
  "hash_ok m P d now \<longleftrightarrow> hash_counts m P d
     \<and> (d > 0 \<longrightarrow> \<not> is_legacy m \<and> hh_lower m \<noteq> 0 \<and> hh_lower m \<le> now)"

text \<open>The counters differ when a field has a time or the record counts too much.\<close>

lemma size_not_persist:
  assumes "hash_counts m P d" and "\<not> is_legacy m" and "d > 0 \<or> (\<exists>f e v. P f = Some (e, v) \<and> e \<noteq> 0)"
  shows "hh_size m \<noteq> hh_persist m"
proof
  assume e: "hh_size m = hh_persist m"
  then have "card (dom P) + d = card (persistents P)" using counts_facts(3,4) [OF assms(1)] assms(2) by simp
  then have "\<not> d > 0" using counts_facts(8) [OF assms(1)] by linarith
  then show False using no_ttl [OF assms(1) e assms(2)] assms(3) by blast
qed

lemma clear_kept:
  assumes "hash_counts (clear_bounds_if_no_ttl_candidates m) P d" and "\<not> is_legacy m" and "d > 0"
  shows "clear_bounds_if_no_ttl_candidates m = m"
proof -
  have "hh_size m \<noteq> hh_persist m" using size_not_persist [OF assms(1)] assms(2,3) by simp
  then show ?thesis by (simp add: clear_bounds_if_no_ttl_candidates_def)
qed

lemma expand_lower:
  assumes "hh_size m \<noteq> hh_persist m" and "hh_lower m \<noteq> 0" and "hh_lower m \<le> now" and "e \<noteq> 0"
  shows "hh_lower (expand_expire_bounds e m) \<noteq> 0 \<and> hh_lower (expand_expire_bounds e m) \<le> now"
  using assms by (auto simp: expand_expire_bounds_def Let_def)

lemma apply_legacy [simp]:
  "is_legacy (apply_missing_to_persistent m) = is_legacy m"
  "is_legacy (apply_missing_to_ttl e m) = is_legacy m"
  "is_legacy (apply_persistent_to_ttl e m) = is_legacy m"
  "is_legacy (apply_ttl_to_ttl e m) = is_legacy m"
  "is_legacy (apply_ttl_to_persistent m) = is_legacy m"
  "is_legacy (apply_persistent_to_deleted m) = is_legacy m"
  "is_legacy (apply_ttl_to_deleted m) = is_legacy m"
  by (simp_all add: apply_missing_to_persistent_def apply_missing_to_ttl_def apply_persistent_to_ttl_def
      apply_ttl_to_ttl_def apply_ttl_to_persistent_def apply_persistent_to_deleted_def apply_ttl_to_deleted_def Let_def)

lemma apply_sizable [simp]:
  "sizable rt (hh_base (apply_missing_to_persistent m)) now = sizable rt (hh_base m) now"
  "sizable rt (hh_base (apply_missing_to_ttl e m)) now = sizable rt (hh_base m) now"
  "sizable rt (hh_base (apply_persistent_to_ttl e m)) now = sizable rt (hh_base m) now"
  "sizable rt (hh_base (apply_ttl_to_ttl e m)) now = sizable rt (hh_base m) now"
  "sizable rt (hh_base (apply_ttl_to_persistent m)) now = sizable rt (hh_base m) now"
  "sizable rt (hh_base (apply_persistent_to_deleted m)) now = sizable rt (hh_base m) now"
  "sizable rt (hh_base (apply_ttl_to_deleted m)) now = sizable rt (hh_base m) now"
  by (simp_all add: apply_missing_to_persistent_def apply_missing_to_ttl_def apply_persistent_to_ttl_def
      apply_ttl_to_ttl_def apply_ttl_to_persistent_def apply_persistent_to_deleted_def apply_ttl_to_deleted_def Let_def)

text \<open>The bounds after a transition that ends with the clearing of unused bounds.\<close>

lemma lower_after_clear:
  assumes "hash_counts (clear_bounds_if_no_ttl_candidates m') P' d'" and "\<not> is_legacy m'" and "d' > 0"
    and "hh_lower m' = hh_lower m"
  shows "hh_lower (clear_bounds_if_no_ttl_candidates m') = hh_lower m"
  using clear_kept [OF assms(1-3)] assms(4) by simp

lemma ok_missing_persistent:
  assumes "hash_ok m P d now" and "P f = None" and "card (dom P) + d < 2 ^ 63"
  shows "hash_ok (apply_missing_to_persistent m) (P(f \<mapsto> (0, v))) d now"
proof -
  note c = counts_missing_persistent [of m P d f v]
  have "hash_counts (apply_missing_to_persistent m) (P(f \<mapsto> (0, v))) d" using c assms by (simp add: hash_ok_def)
  then show ?thesis
    using assms(1) lower_after_clear [of _ "P(f \<mapsto> (0, v))" d m]
    by (auto simp: hash_ok_def apply_missing_to_persistent_def Let_def)
qed

lemma ok_missing_ttl:
  assumes "hash_ok m P d now" and "P f = None" and "card (dom P) + d < 2 ^ 63" and "\<not> is_legacy m" and "e \<noteq> 0"
  shows "hash_ok (apply_missing_to_ttl e m) (P(f \<mapsto> (e, v))) d now"
proof -
  have "d > 0 \<Longrightarrow> hh_size m \<noteq> hh_persist m" using size_not_persist [of m P d] assms by (simp add: hash_ok_def)
  then show ?thesis
    using assms counts_missing_ttl [of m P d f e v] expand_lower [of m now e]
    by (auto simp: hash_ok_def apply_missing_to_ttl_def Let_def)
qed

lemma expired_bound:
  assumes "hash_counts m P d" and "P f = Some (e0, v0)" and "is_field_expired e0 now"
  shows "e0 \<noteq> 0" "\<not> is_legacy m" "hh_lower m \<noteq> 0" "hh_lower m \<le> now" "hh_size m \<noteq> hh_persist m"
proof -
  show e: "e0 \<noteq> 0" using assms(3) by (auto simp: is_field_expired_def)
  then show l: "\<not> is_legacy m" using counts_facts(7) [OF assms(1) _ assms(2)] by auto
  have "hh_lower m \<noteq> 0 \<and> hh_lower m \<le> e0"
    using counts_facts(5) [OF assms(1) l] assms(2) e by (auto simp: ttl_bounds_def)
  then show "hh_lower m \<noteq> 0" "hh_lower m \<le> now" using assms(3) by (auto simp: is_field_expired_def)
  show "hh_size m \<noteq> hh_persist m" using size_not_persist [OF assms(1) l] assms(2) e by blast
qed

lemma ok_drift_persistent:
  assumes "hash_ok m P d now" and f: "P f = Some (e0, v0)" "is_field_expired e0 now" and "card (dom P) + d < 2 ^ 63"
  shows "hash_ok (apply_missing_to_persistent m) (P(f \<mapsto> (0, v))) (Suc d) now"
proof -
  have m: "hash_counts m P d" using assms(1) by (simp add: hash_ok_def)
  note x = expired_bound [OF m f]
  have c: "hash_counts (apply_missing_to_persistent m) (P(f \<mapsto> (0, v))) (Suc d)"
    by (rule counts_drift_persistent [OF m f(1) x(1) assms(4)])
  then show ?thesis
    using x lower_after_clear [of _ "P(f \<mapsto> (0, v))" "Suc d" m]
    by (auto simp: hash_ok_def apply_missing_to_persistent_def Let_def)
qed

lemma ok_drift_ttl:
  assumes "hash_ok m P d now" and f: "P f = Some (e0, v0)" "is_field_expired e0 now" and "card (dom P) + d < 2 ^ 63"
    and e: "e \<noteq> 0"
  shows "hash_ok (apply_missing_to_ttl e m) (P(f \<mapsto> (e, v))) (Suc d) now"
proof -
  have m: "hash_counts m P d" using assms(1) by (simp add: hash_ok_def)
  note x = expired_bound [OF m f]
  have c: "hash_counts (apply_missing_to_ttl e m) (P(f \<mapsto> (e, v))) (Suc d)"
    by (rule counts_drift_ttl [OF m f(1) x(1) assms(4) e])
  then show ?thesis
    using x expand_lower [OF x(5,3,4) e] by (simp add: hash_ok_def apply_missing_to_ttl_def Let_def)
qed

lemma ok_overwrite:
  "hash_ok m P d now \<Longrightarrow> P f = Some (e, v0) \<Longrightarrow> hash_ok m (P(f \<mapsto> (e, v))) d now"
  using counts_overwrite [of m P d f e v0 v] by (auto simp: hash_ok_def)

lemma ok_persistent_ttl:
  assumes "hash_ok m P d now" and "P f = Some (0, v0)" and "\<not> is_legacy m" and "e \<noteq> 0"
  shows "hash_ok (apply_persistent_to_ttl e m) (P(f \<mapsto> (e, v))) d now"
proof -
  have "d > 0 \<Longrightarrow> hh_size m \<noteq> hh_persist m" using size_not_persist [of m P d] assms by (simp add: hash_ok_def)
  then show ?thesis
    using assms counts_persistent_ttl [of m P d f v0 e v] expand_lower [of m now e]
    by (auto simp: hash_ok_def apply_persistent_to_ttl_def Let_def)
qed

lemma ok_ttl_ttl:
  assumes "hash_ok m P d now" and "P f = Some (e0, v0)" "e0 \<noteq> 0" and "e \<noteq> 0"
  shows "hash_ok (apply_ttl_to_ttl e m) (P(f \<mapsto> (e, v))) d now"
proof -
  have "\<not> is_legacy m" using counts_facts(7) [of m P d f e0 v0] assms by (auto simp: hash_ok_def)
  then have "d > 0 \<Longrightarrow> hh_size m \<noteq> hh_persist m" using size_not_persist [of m P d] assms by (simp add: hash_ok_def)
  then show ?thesis
    using assms counts_ttl_ttl [of m P d f e0 v0 e v] expand_lower [of m now e]
    by (auto simp: hash_ok_def apply_ttl_to_ttl_def)
qed

lemma ok_ttl_persistent:
  assumes "hash_ok m P d now" and "P f = Some (e0, v0)" "e0 \<noteq> 0" and "card (dom P) + d < 2 ^ 63"
  shows "hash_ok (apply_ttl_to_persistent m) (P(f \<mapsto> (0, v))) d now"
proof -
  have "hash_counts (apply_ttl_to_persistent m) (P(f \<mapsto> (0, v))) d"
    using counts_ttl_persistent [of m P d f e0 v0 v] assms by (simp add: hash_ok_def)
  then show ?thesis
    using assms(1) lower_after_clear [of _ "P(f \<mapsto> (0, v))" d m]
    by (auto simp: hash_ok_def apply_ttl_to_persistent_def)
qed

lemma ok_deleted:
  assumes "hash_ok m P d now" and "P f = Some (e, v)"
  shows "hash_ok (if e = 0 then apply_persistent_to_deleted m else apply_ttl_to_deleted m) (P(f := None)) d now"
proof -
  have "hash_counts (if e = 0 then apply_persistent_to_deleted m else apply_ttl_to_deleted m) (P(f := None)) d"
    using counts_persistent_deleted [of m P d f v] counts_ttl_deleted [of m P d f e v] assms by (auto simp: hash_ok_def)
  then show ?thesis
    using assms(1) lower_after_clear [of _ "P(f := None)" d m]
    by (auto simp: hash_ok_def apply_persistent_to_deleted_def apply_ttl_to_deleted_def Let_def split: if_splits)
qed

lemma ok_clear:
  assumes "hash_ok m P d now"
  shows "hash_ok (clear_bounds_if_no_ttl_candidates m) P d now"
  using assms counts_clear [of m P d] clear_kept [of m P d] by (auto simp: hash_ok_def)

lemma ok_stored:
  assumes "hash_ok m P d now"
  shows "hash_ok (stored_form m) P d now" "is_legacy (stored_form m) = is_legacy m"
    "hh_base (stored_form m) = hh_base m"
proof -
  show "is_legacy (stored_form m) = is_legacy m" "hh_base (stored_form m) = hh_base m"
    by (simp_all add: stored_form_def)
  show "hash_ok (stored_form m) P d now"
    using assms by (cases "is_legacy m") (simp_all add: hash_ok_def hash_counts_def stored_form_def)
qed

section \<open>A command half way\<close>

text \<open>A command has queued \<open>batch\<close> and changed the record to \<open>m\<close>; once committed the prefix holds
  the fields \<open>P\<close>, which \<open>m\<close> counts, and no more than \<open>N\<close> fields were ever written.\<close>

definition hash_part ::
    "bytes \<Rightarrow> bytes \<Rightarrow> kv_map \<Rightarrow> u64 \<Rightarrow> hash_meta \<Rightarrow> batch \<Rightarrow> fields \<Rightarrow> nat \<Rightarrow> nat \<Rightarrow> bool" where
  "hash_part q mk dt now m batch P d N \<longleftrightarrow>
     hash_ok m P d now \<and> card (dom P) + d \<le> N \<and> sizable RHash (hh_base m) now
   \<and> sub_view (apply_ops PData batch dt) q = enc (is_legacy m) P
   \<and> touches q mk batch \<and> (\<forall>x. apply_ops PMeta batch x = x)"

lemma part_mono: "hash_part q mk dt now m batch P d N \<Longrightarrow> N \<le> N' \<Longrightarrow> hash_part q mk dt now m batch P d N'"
  by (auto simp: hash_part_def)

lemma part_legacy:
  "hash_part q mk dt now m batch P d N \<Longrightarrow> is_legacy m \<Longrightarrow> P f = Some (e, v) \<Longrightarrow> e = 0"
  using counts_facts(7) [of m P d f e v] by (auto simp: hash_part_def hash_ok_def)

lemma part_finite: "hash_part q mk dt now m batch P d N \<Longrightarrow> finite (dom P)"
  by (auto simp: hash_part_def hash_ok_def hash_counts_def)

text \<open>Queuing the removal or the writing of one field.\<close>

lemma part_remove:
  assumes "hash_part q mk dt now m batch P d N" and f: "P f = Some (e, v)"
  defines "m' \<equiv> if e = 0 then apply_persistent_to_deleted m else apply_ttl_to_deleted m"
  shows "hash_part q mk dt now m' (rm_data (q @ f) batch) (P(f := None)) d N"
    and "hash_part q mk dt now m' (rm_weak_data (q @ f) batch) (P(f := None)) d N"
proof -
  have c: "card (dom (P(f := None))) + d \<le> N"
    using assms(1) card_dom_update(3) [OF part_finite [OF assms(1)], of f] f by (auto simp: hash_part_def)
  have "hash_ok m' (P(f := None)) d now"
    unfolding m'_def using assms(1) f by (intro ok_deleted) (auto simp: hash_part_def)
  moreover have "is_legacy m' = is_legacy m" "sizable RHash (hh_base m') now = sizable RHash (hh_base m) now"
    by (simp_all add: m'_def)
  ultimately show "hash_part q mk dt now m' (rm_data (q @ f) batch) (P(f := None)) d N"
    "hash_part q mk dt now m' (rm_weak_data (q @ f) batch) (P(f := None)) d N"
    using assms(1) c by (simp_all add: hash_part_def rm_data_def rm_weak_data_def)
qed

lemma part_write:
  assumes "hash_part q mk dt now m batch P d N" and "hash_ok m' (P(f \<mapsto> (e, v))) d' now"
    and "is_legacy m' = is_legacy m" and "sizable RHash (hh_base m') now = sizable RHash (hh_base m) now"
    and "card (dom (P(f \<mapsto> (e, v)))) + d' \<le> N'" and "is_legacy m'' = is_legacy m"
  shows "hash_part q mk dt now m' (insert_data (q @ f) (encode_subkey_value m'' v e) batch) (P(f \<mapsto> (e, v))) d' N'"
  using assms by (simp add: hash_part_def insert_data_def encode_subkey_eq)

lemma card_dom_present: "P f = Some y \<Longrightarrow> card (dom (P(f \<mapsto> x))) = card (dom P)"
  by (simp add: insert_absorb domI)

lemma field_known:
  assumes "hash_part q mk dt now m batch P d N"
  obtains (missing) "P f = None" "kind_of now (P f) = FMissing"
  | (persistent) v0 where "P f = Some (0, v0)" "kind_of now (P f) = FPersistent"
  | (expired) e0 v0 where "P f = Some (e0, v0)" "e0 \<noteq> 0" "is_field_expired e0 now" "kind_of now (P f) = FExpired"
      "\<not> is_legacy m"
  | (ttl) e0 v0 where "P f = Some (e0, v0)" "e0 \<noteq> 0" "\<not> is_field_expired e0 now" "kind_of now (P f) = FLiveTTL"
      "\<not> is_legacy m"
proof (cases "P f")
  case (Some y)
  obtain e0 v0 where y: "P f = Some (e0, v0)" using Some by (cases y) auto
  have nl: "\<not> is_legacy m" if "e0 \<noteq> 0" using part_legacy [OF assms _ y] that by auto
  show ?thesis
    using y nl persistent [of v0] expired [OF y] ttl [OF y] by (cases "e0 = 0") (auto simp: kind_of_def)
qed (use missing in simp)

text \<open>HSET and its kin write a field without a time.\<close>

lemma part_set:
  assumes part: "hash_part q mk dt now m batch P d N" and N: "N + 1 < 2 ^ 63"
    and run: "apply_field_state_to_meta m (kind_of now (P f)) = (m', ins)" and m'': "is_legacy m'' = is_legacy m"
  shows "hash_part q mk dt now m' (insert_data (q @ f) (encode_subkey_value m'' v 0) batch) (P(f \<mapsto> (0, v))) d (N + 1)
    \<and> ins = (live P now f = None) \<and> is_legacy m' = is_legacy m"
proof -
  have ok: "hash_ok m P d now" and c: "card (dom P) + d \<le> N" using part by (simp_all add: hash_part_def)
  have fit: "card (dom P) + d < 2 ^ 63" using c N by simp
  have ins: "ins = (live P now f = None)"
    using part run by (cases rule: field_known [where f = f]) (auto simp: apply_field_state_to_meta_def live_def)
  have "hash_ok m' (P(f \<mapsto> (0, v))) d now \<and> card (dom (P(f \<mapsto> (0, v)))) + d \<le> N + 1
      \<and> is_legacy m' = is_legacy m \<and> sizable RHash (hh_base m') now = sizable RHash (hh_base m) now"
    using part
  proof (cases rule: field_known [where f = f])
    case missing
    then show ?thesis
      using run ok_missing_persistent [OF ok missing(1) fit, of v] c card_dom_update(1) [OF part_finite [OF part]]
      by (auto simp: apply_field_state_to_meta_def)
  next
    case (persistent v0)
    then show ?thesis
      using run ok_overwrite [OF ok persistent(1), of v] c card_dom_present [of P f, OF persistent(1)]
      by (auto simp: apply_field_state_to_meta_def)
  next
    case (expired e0 v0)
    then show ?thesis
      using run ok_ttl_persistent [OF ok expired(1,2) fit, of v] c card_dom_present [of P f, OF expired(1)]
      by (auto simp: apply_field_state_to_meta_def)
  next
    case (ttl e0 v0)
    then show ?thesis
      using run ok_ttl_persistent [OF ok ttl(1,2) fit, of v] c card_dom_present [of P f, OF ttl(1)]
      by (auto simp: apply_field_state_to_meta_def)
  qed
  then show ?thesis using part_write [OF part, of m' f 0 v d "N + 1" m''] ins m'' by blast
qed

text \<open>The commands on times write a field with one; a field whose time is over is counted again.\<close>

lemma part_setex:
  assumes part: "hash_part q mk dt now m batch P d N" and N: "N + 1 < 2 ^ 63" and nl: "\<not> is_legacy m"
    and run: "apply_setex_field_in_batch m (q @ f) v (kind_of now (P f)) t batch = (m', batch')"
  shows "\<exists>d'. hash_part q mk dt now m' batch' (P(f \<mapsto> (t, v))) d' (N + 1) \<and> \<not> is_legacy m'"
proof -
  have ok: "hash_ok m P d now" and c: "card (dom P) + d \<le> N" using part by (simp_all add: hash_part_def)
  have fit: "card (dom P) + d < 2 ^ 63" using c N by simp
  have b: "batch' = insert_data (q @ f) (encode_subkey_value m' v t) batch"
    using run by (auto simp: apply_setex_field_in_batch_def Let_def)
  have "\<exists>d'. hash_ok m' (P(f \<mapsto> (t, v))) d' now \<and> card (dom (P(f \<mapsto> (t, v)))) + d' \<le> N + 1
      \<and> is_legacy m' = is_legacy m \<and> sizable RHash (hh_base m') now = sizable RHash (hh_base m) now"
    using part
  proof (cases rule: field_known [where f = f])
    case missing
    have "hash_ok m' (P(f \<mapsto> (t, v))) d now" "is_legacy m' = is_legacy m"
      "sizable RHash (hh_base m') now = sizable RHash (hh_base m) now"
      using run ok_missing_persistent [OF ok missing(1) fit, of v] ok_missing_ttl [OF ok missing(1) fit nl, of t v] missing(2)
      by (auto simp: apply_setex_field_in_batch_def Let_def split: if_splits)
    then show ?thesis using c card_dom_update(1) [OF part_finite [OF part] missing(1)] by auto
  next
    case (persistent v0)
    have "hash_ok m' (P(f \<mapsto> (t, v))) d now" "is_legacy m' = is_legacy m"
      "sizable RHash (hh_base m') now = sizable RHash (hh_base m) now"
      using run ok_overwrite [OF ok persistent(1), of v] ok_persistent_ttl [OF ok persistent(1) nl, of t v] persistent(2)
      by (auto simp: apply_setex_field_in_batch_def Let_def split: if_splits)
    then show ?thesis using c card_dom_present [of P f, OF persistent(1)] by auto
  next
    case (expired e0 v0)
    have "hash_ok m' (P(f \<mapsto> (t, v))) (Suc d) now" "is_legacy m' = is_legacy m"
      "sizable RHash (hh_base m') now = sizable RHash (hh_base m) now"
      using run ok_drift_persistent [OF ok expired(1,3) fit, of v] ok_drift_ttl [OF ok expired(1,3) fit, of t v] expired(4)
      by (auto simp: apply_setex_field_in_batch_def Let_def split: if_splits)
    then show ?thesis using c card_dom_present [of P f, OF expired(1)] by (intro exI [of _ "Suc d"]) simp
  next
    case (ttl e0 v0)
    have "hash_ok m' (P(f \<mapsto> (t, v))) d now" "is_legacy m' = is_legacy m"
      "sizable RHash (hh_base m') now = sizable RHash (hh_base m) now"
      using run ok_ttl_persistent [OF ok ttl(1,2) fit, of v] ok_ttl_ttl [OF ok ttl(1,2), of t v] ttl(4)
      by (auto simp: apply_setex_field_in_batch_def Let_def split: if_splits)
    then show ?thesis using c card_dom_present [of P f, OF ttl(1)] by auto
  qed
  then show ?thesis using part_write [OF part, of m' f t v _ "N + 1" m'] nl unfolding b by blast
qed

text \<open>A field a reader sees gets a time, or loses it.\<close>

lemma part_expire:
  assumes part: "hash_part q mk dt now m batch P d N" and f: "live P now f = Some (e, v)"
    and t: "t \<noteq> 0" and nl: "\<not> is_legacy m" and m'': "is_legacy m'' = is_legacy m"
  defines "m' \<equiv> if e = 0 then apply_persistent_to_ttl t m else apply_ttl_to_ttl t m"
  shows "hash_part q mk dt now m' (insert_data (q @ f) (encode_subkey_value m'' v t) batch) (P(f \<mapsto> (t, v))) d N"
    and "\<not> is_legacy m'"
proof -
  have ok: "hash_ok m P d now" and c: "card (dom P) + d \<le> N" using part by (simp_all add: hash_part_def)
  have P: "P f = Some (e, v)" using f by (simp add: live_Some)
  have "hash_ok m' (P(f \<mapsto> (t, v))) d now"
    using ok_persistent_ttl [OF ok _ nl t, of f v v] ok_ttl_ttl [OF ok P _ t, of v] P by (simp add: m'_def)
  moreover have l: "is_legacy m' = is_legacy m" "sizable RHash (hh_base m') now = sizable RHash (hh_base m) now"
    by (simp_all add: m'_def)
  moreover have "card (dom (P(f \<mapsto> (t, v)))) + d \<le> N" using c card_dom_present [of P f, OF P] by simp
  ultimately show "hash_part q mk dt now m' (insert_data (q @ f) (encode_subkey_value m'' v t) batch) (P(f \<mapsto> (t, v))) d N"
    "\<not> is_legacy m'"
    using part_write [OF part] m'' nl by simp_all
qed

lemma part_persist:
  assumes part: "hash_part q mk dt now m batch P d N" and N: "N < 2 ^ 63"
    and f: "live P now f = Some (e, v)" "e \<noteq> 0" and m'': "is_legacy m'' = is_legacy m"
  shows "hash_part q mk dt now (apply_ttl_to_persistent m) (insert_data (q @ f) (encode_subkey_value m'' v 0) batch)
    (P(f \<mapsto> (0, v))) d N"
proof -
  have ok: "hash_ok m P d now" and c: "card (dom P) + d \<le> N" using part by (simp_all add: hash_part_def)
  have P: "P f = Some (e, v)" using f by (simp add: live_Some)
  have "card (dom P) + d < 2 ^ 63" using c N by simp
  from ok_ttl_persistent [OF ok P f(2) this, of v] show ?thesis
    using part_write [OF part, of "apply_ttl_to_persistent m" f 0 v d N m''] c card_dom_present [of P f, OF P] m'' by simp
qed

end
