(* ===== verification/Hash_Store.thy ===== *)
theory Hash_Store
  imports Hash_Rep
begin

text \<open>
  What a key of the hash type stands for, what the commands read from it, and what they leave.
\<close>

section \<open>The hash of a key\<close>

text \<open>The value of a key: whether the hash is in the legacy encoding, a bound on the number of
  fields ever written, and the fields a reader sees, each with its time (zero for none).\<close>

type_synonym hval = "bool \<times> nat \<times> fields"

definition hash_rep :: "'p engine \<Rightarrow> 'p wedb \<Rightarrow> key_composer \<Rightarrow> u64 \<Rightarrow> bytes \<Rightarrow> hval \<Rightarrow> bool" where
  "hash_rep E s kc now key H \<longleftrightarrow> (case H of (l, N, F) \<Rightarrow>
     live_string (dat E s) kc key now = None \<and> \<not> other_live (met E s) kc key now HashMeta \<and> N < 2 ^ 63
   \<and> (case live_own hash_meta_ops (met E s) kc key now of
        None \<Rightarrow> \<not> l \<and> F = Map.empty
      | Some m \<Rightarrow> is_legacy m = l
          \<and> (\<exists>P d. hash_part (hq kc key) (hk kc key) (dat E s) now m [] P d N \<and> F = live P now)))"

lemma live_own_hash:
  assumes "m (hk kc key) = Some (hh_encode x)" and "sizable RHash (hh_base x) now" and "hh_size x \<noteq> 0"
  shows "live_own hash_meta_ops m kc key now = Some (stored_form x)"
  using assms
  by (auto simp: live_own_def hash_meta_ops_def hh_decode_encode sizable_def mo_is_expired_def km_is_expired_def
      stored_form_def)

lemma live_own_hash_size: "live_own hash_meta_ops m kc key now = Some x \<Longrightarrow> km_rtype (hh_base x) = RHash \<Longrightarrow> hh_size x \<noteq> 0"
  by (auto simp: live_own_def hash_meta_ops_def mo_is_expired_def km_is_expired_def rtype_is_emptyable_def
      split: option.splits if_splits)

lemma hash_tags [simp]:
  "HashMeta \<in> set composite_meta_tags" "HashMeta \<in> set whole_key_tags" "HashData \<notin> set whole_key_tags"
  by (simp_all add: whole_key_tags_def composite_meta_tags_def)

lemma part_stored:
  "hash_part q mk dt now m batch P d N \<Longrightarrow> hash_part q mk dt now (stored_form m) batch P d N"
  using ok_stored [of m P d now] by (simp add: hash_part_def)

text \<open>What a query for the remaining time answers.\<close>

definition ttl_reply :: "(u64 \<Rightarrow> u64 \<Rightarrow> int) \<Rightarrow> u64 \<Rightarrow> (u64 \<times> bytes) option \<Rightarrow> int" where
  "ttl_reply g now x =
     (case x of None \<Rightarrow> HASH_FIELD_NOT_FOUND | Some (e, _) \<Rightarrow> if e = 0 then HASH_FIELD_PERSISTENT else g e now)"

lemma part_view:
  "sub_view dt q = sub_view dt' q \<Longrightarrow> hash_part q mk dt now m [] P d N = hash_part q mk dt' now m [] P d N"
  by (simp add: hash_part_def)

lemma part_empty: "hash_part q mk dt now m batch P d N \<Longrightarrow> hh_size m = 0 \<Longrightarrow> P = Map.empty"
  using counts_facts(1,3) [of m P d] by (auto simp: hash_part_def hash_ok_def)

text \<open>A legacy hash that loses its last field is gone.\<close>

lemma legacy_live:
  assumes "hash_part q mk dt now m batch P d N" and "hh_size m \<noteq> 0" and "is_legacy m"
  shows "live P now \<noteq> Map.empty"
proof -
  have "d = 0" using assms by (auto simp: hash_part_def hash_ok_def)
  then have "card (dom P) \<noteq> 0" using counts_facts(3) [of m P d] assms by (auto simp: hash_part_def hash_ok_def simp flip: unat_eq_0)
  then obtain f where "f \<in> dom P" by fastforce
  then obtain e v where "P f = Some (e, v)" by auto
  then have "live P now f = Some (0, v)" using part_legacy [OF assms(1,3)] by (auto simp: live_Some)
  then show ?thesis by auto
qed

context kv_engine
begin

lemma hash_get:
  assumes "hash_rep E s kc now key H"
  shows "get_hash_meta E kc s now key = Inr (live_own hash_meta_ops (met E s) kc key now)"
    "get_meta_checked E hash_meta_ops kc s key (hk kc key) now = Inr (live_own hash_meta_ops (met E s) kc key now)"
  using assms get_meta_checked_spec [of hash_meta_ops kc s key now]
  by (auto simp: get_hash_meta_def hash_rep_def hash_meta_ops_def split: option.splits prod.splits)

lemma hash_cases:
  assumes "hash_rep E s kc now key (l, N, F)"
  obtains (absent) "F = Map.empty" "\<not> l" "live_own hash_meta_ops (met E s) kc key now = None"
  | (present) m P d where "live_own hash_meta_ops (met E s) kc key now = Some m" "is_legacy m = l"
      "hash_part (hq kc key) (hk kc key) (dat E s) now m [] P d N" "F = live P now" "hh_size m \<noteq> 0" "N < 2 ^ 63"
proof (cases "live_own hash_meta_ops (met E s) kc key now")
  case None
  then show ?thesis using assms absent by (simp add: hash_rep_def)
next
  case (Some m)
  then obtain P d where m: "is_legacy m = l" "hash_part (hq kc key) (hk kc key) (dat E s) now m [] P d N" "F = live P now" "N < 2 ^ 63"
    using assms by (auto simp: hash_rep_def)
  moreover from m have "hh_size m \<noteq> 0"
    using live_own_hash_size [OF Some] by (simp add: hash_part_def sizable_def)
  ultimately show ?thesis using present [OF Some] by blast
qed

section \<open>Reading\<close>

lemma decode_enc:
  assumes "enc l P f = Some raw" and "is_legacy m = l" and "\<And>e v. l \<Longrightarrow> P f = Some (e, v) \<Longrightarrow> e = 0"
  shows "decode_subkey_value m raw = P f"
proof -
  obtain e v where P: "P f = Some (e, v)" and raw: "raw = (if l then v else to_be64 e @ v)"
    using assms(1) by (auto simp: enc_def)
  have "raw = encode_subkey_value m v e" using raw assms(2) by (simp add: encode_subkey_eq)
  then show ?thesis using decode_encode_subkey [of m e v] assms(2,3) P by auto
qed

lemma part_read:
  assumes part: "hash_part (hq kc key) (hk kc key) (dat E s) now m [] P d N" and m': "is_legacy m' = is_legacy m"
  shows "dat E s (hq kc key @ f) = None \<longleftrightarrow> P f = None"
    and "dat E s (hq kc key @ f) = Some raw \<Longrightarrow> decode_subkey_value m' raw = P f"
proof -
  have "sub_view (dat E s) (hq kc key) f = enc (is_legacy m) P f" using part by (simp add: hash_part_def)
  then have g: "dat E s (hq kc key @ f) = enc (is_legacy m) P f" by (simp add: sub_view_def)
  show "dat E s (hq kc key @ f) = None \<longleftrightarrow> P f = None" unfolding g by (simp add: enc_def)
  assume "dat E s (hq kc key @ f) = Some raw"
  then show "decode_subkey_value m' raw = P f"
    unfolding g by (rule decode_enc) (use m' part_legacy [OF part] in auto)
qed

lemma read_none:
  assumes "dat E s k = None"
  shows "stored_field E s m' k = None" "stored_kind E s m' k now = FMissing" "live_payload E s m' k now = None"
    "load_field_state E s m' k now = missing_entry" "evaluate_field_ttl m' (dat E s k) now g = HASH_FIELD_NOT_FOUND"
  using assms
  by (simp_all add: stored_field_def stored_kind_def live_payload_def load_field_state_def evaluate_field_ttl_def e_get_dat)

lemma part_reads:
  assumes part: "hash_part (hq kc key) (hk kc key) (dat E s) now m [] P d N" and m': "is_legacy m' = is_legacy m"
  shows "stored_field E s m' (hq kc key @ f) = P f"
    and "stored_kind E s m' (hq kc key @ f) now = kind_of now (P f)"
    and "live_payload E s m' (hq kc key @ f) now = map_option snd (live P now f)"
    and "cs_kind (load_field_state E s m' (hq kc key @ f) now) = kind_of now (P f)"
    and "P f = Some (e, v) \<Longrightarrow> cs_expire (load_field_state E s m' (hq kc key @ f) now) = e"
    and "P f = Some (e, v) \<Longrightarrow> is_legacy m'' = is_legacy m \<Longrightarrow>
      subkey_payload m'' (cs_raw (load_field_state E s m' (hq kc key @ f) now)) = Some v"
    and "evaluate_field_ttl m' (dat E s (hq kc key @ f)) now g = ttl_reply g now (live P now f)"
proof -
  note r = part_read [OF part m']
  have all: "stored_field E s m' (hq kc key @ f) = P f
      \<and> stored_kind E s m' (hq kc key @ f) now = kind_of now (P f)
      \<and> live_payload E s m' (hq kc key @ f) now = map_option snd (live P now f)
      \<and> cs_kind (load_field_state E s m' (hq kc key @ f) now) = kind_of now (P f)
      \<and> (P f = Some (e, v) \<longrightarrow> cs_expire (load_field_state E s m' (hq kc key @ f) now) = e)
      \<and> evaluate_field_ttl m' (dat E s (hq kc key @ f)) now g = ttl_reply g now (live P now f)"
  proof (cases "P f")
    case None
    then show ?thesis
      using r(1) [of f] by (simp add: read_none evaluate_field_ttl_def live_def missing_entry_def ttl_reply_def)
  next
    case (Some y)
    obtain e0 v0 where y: "y = (e0, v0)" by (cases y)
    obtain raw where raw: "dat E s (hq kc key @ f) = Some raw" using r(1) [of f] Some by auto
    have d: "decode_subkey_value m' raw = Some (e0, v0)" using r(2) [OF raw] Some y by simp
    show ?thesis
      using raw d Some y
      by (simp add: stored_field_def stored_kind_def live_payload_def load_field_state_def evaluate_field_ttl_def
          decode_field_state_def decode_live_subkey_value_def kind_of_def live_def ttl_reply_def e_get_dat)
  qed
  show "stored_field E s m' (hq kc key @ f) = P f"
    "stored_kind E s m' (hq kc key @ f) now = kind_of now (P f)"
    "live_payload E s m' (hq kc key @ f) now = map_option snd (live P now f)"
    "cs_kind (load_field_state E s m' (hq kc key @ f) now) = kind_of now (P f)"
    "P f = Some (e, v) \<Longrightarrow> cs_expire (load_field_state E s m' (hq kc key @ f) now) = e"
    "evaluate_field_ttl m' (dat E s (hq kc key @ f)) now g = ttl_reply g now (live P now f)"
    using all by blast+
  show "P f = Some (e, v) \<Longrightarrow> is_legacy m'' = is_legacy m \<Longrightarrow>
      subkey_payload m'' (cs_raw (load_field_state E s m' (hq kc key @ f) now)) = Some v"
    using r(1) [of f] r(2) [of f] part_read(2) [OF part, of m'' f]
    by (cases "dat E s (hq kc key @ f)")
      (auto simp: load_field_state_def decode_field_state_def subkey_payload_def e_get_dat)
qed

text \<open>When every time is over, no field is seen.\<close>

lemma all_over_live:
  assumes "hash_part q mk dt now m batch P d N" and "all_over m now"
  shows "live P now = Map.empty"
proof
  fix f
  have c: "hash_counts m P d" using assms(1) by (simp add: hash_part_def hash_ok_def)
  have nl: "\<not> is_legacy m" using counts_facts(6) [OF c] assms(2) by (auto simp: all_over_def)
  have "card (persistents P) = 0" using counts_facts(4) [OF c nl] assms(2) by (simp add: all_over_def)
  then have none: "persistents P = {}" using counts_facts(2) [OF c] by simp
  have "is_field_expired e now" if "P f = Some (e, v)" for e v
  proof -
    have "e \<noteq> 0" using persistents_iff [of P f e v, OF that] none by auto
    then have "e \<le> hh_upper m" using counts_facts(5) [OF c nl] that by (auto simp: ttl_bounds_def)
    also have "hh_upper m \<le> now" using assms(2) by (intro less_imp_le) (simp add: all_over_def)
    finally show ?thesis using \<open>e \<noteq> 0\<close> by (simp add: is_field_expired_def word_neq_0_conv)
  qed
  then show "live P now f = Map.empty f" by (simp add: live_None)
qed

lemma readable_cases:
  assumes rep: "hash_rep E s kc now key (l, N, F)"
  obtains (none) m0 where "get_hash_meta E kc s now key = Inr m0" "readable m0 now = None" "F = Map.empty"
  | (some) m0 m P d where "get_hash_meta E kc s now key = Inr m0" "readable m0 now = Some m"
      "hash_part (hq kc key) (hk kc key) (dat E s) now m [] P d N" "F = live P now"
  using rep
proof (cases rule: hash_cases)
  case absent
  then show ?thesis using none [of None] hash_get(1) [OF rep] by (simp add: readable_def hash_nonempty_def)
next
  case (present m P d)
  have n: "hash_nonempty (Some m) = Some m" using present(5) by (simp add: hash_nonempty_def word_neq_0_conv)
  show ?thesis
  proof (cases "all_over m now")
    case True
    then show ?thesis
      using none [of "Some m"] hash_get(1) [OF rep] present n all_over_live [OF present(3)] by (simp add: readable_def)
  next
    case False
    then show ?thesis
      using some [of "Some m" m P d] hash_get(1) [OF rep] present n by (simp add: readable_def)
  qed
qed

section \<open>Leaving a new state\<close>

lemma hash_frame:
  assumes "touches (hq kc key) (hk kc key) ops" and "\<not> owns kc key x" and s1: "dat E s1 = dat E s" "met E s1 = met E s"
  shows "dat E (commit E ops s1) x = dat E s x \<and> met E (commit E ops s1) x = met E s x"
  using touches_frame [OF assms(1) _ _ assms(2)] by (simp add: s1)

lemma hash_commit:
  assumes rep: "hash_rep E s kc now key H" and s1: "dat E s1 = dat E s" "met E s1 = met E s"
    and part: "hash_part (hq kc key) (hk kc key) (dat E s) now m batch P d N" and N: "N < 2 ^ 63" and sz: "hh_size m \<noteq> 0"
  defines "s' \<equiv> commit E (insert_meta (hk kc key) (hh_encode m) batch) s1"
  shows "hash_rep E s' kc now key (is_legacy m, N, live P now)
    \<and> (\<forall>x. \<not> owns kc key x \<longrightarrow> dat E s' x = dat E s x \<and> met E s' x = met E s x)"
proof -
  let ?ops = "batch @ [BInsert PMeta (hk kc key) (hh_encode m)]"
  have t: "touches (hq kc key) (hk kc key) ?ops" using part by (simp add: hash_part_def)
  have d: "dat E s' = apply_ops PData batch (dat E s)" by (simp add: s'_def s1 insert_meta_def)
  have "live_own hash_meta_ops (met E s') kc key now = Some (stored_form m)"
    by (rule live_own_hash) (use part sz in \<open>simp_all add: s'_def s1 insert_meta_def hash_part_def\<close>)
  moreover have "hash_part (hq kc key) (hk kc key) (dat E s') now (stored_form m) [] P d N"
    using part_stored [OF part] by (simp add: hash_part_def d)
  ultimately have x: "\<exists>P' d. hash_part (hq kc key) (hk kc key) (dat E s') now (stored_form m) [] P' d N \<and> live P now = live P' now"
    and o: "live_own hash_meta_ops (met E s') kc key now = Some (stored_form m)" by blast+
  have "live_string (dat E s) kc key now = None" "\<not> other_live (met E s) kc key now HashMeta"
    using rep by (auto simp: hash_rep_def split: prod.splits)
  then have "live_string (dat E s') kc key now = None" "\<not> other_live (met E s') kc key now HashMeta"
    using touches_types [OF t] by (simp_all add: s'_def s1 insert_meta_def)
  then have "hash_rep E s' kc now key (is_legacy m, N, live P now)"
    using x N unfolding hash_rep_def o by (simp add: stored_form_def)
  then show ?thesis using hash_frame [OF t _ s1] by (simp add: s'_def insert_meta_def)
qed

lemma hash_commit_empty:
  assumes rep: "hash_rep E s kc now key H" and s1: "dat E s1 = dat E s" "met E s1 = met E s"
    and t: "touches (hq kc key) (hk kc key) ops" and m: "apply_ops PMeta ops (met E s) (hk kc key) = None" and N: "N < 2 ^ 63"
  shows "hash_rep E (commit E ops s1) kc now key (False, N, Map.empty)
    \<and> (\<forall>x. \<not> owns kc key x \<longrightarrow> dat E (commit E ops s1) x = dat E s x \<and> met E (commit E ops s1) x = met E s x)"
proof -
  have "live_own hash_meta_ops (met E (commit E ops s1)) kc key now = None"
    using m by (simp add: live_own_def s1 hash_meta_ops_def)
  then show ?thesis
    using rep touches_types [OF t] N hash_frame [OF t _ s1] by (auto simp: hash_rep_def s1 split: prod.splits)
qed

lemma hash_commit_batch:
  assumes rep: "hash_rep E s kc now key H" and s1: "dat E s1 = dat E s" "met E s1 = met E s"
    and part: "hash_part (hq kc key) (hk kc key) (dat E s) now m batch P d N" and N: "N < 2 ^ 63"
  defines "s' \<equiv> commit_hash_batch E (hk kc key) m batch s1"
  shows "hash_rep E s' kc now key (is_legacy m \<and> live P now \<noteq> Map.empty, N, live P now)
    \<and> (\<forall>x. \<not> owns kc key x \<longrightarrow> dat E s' x = dat E s x \<and> met E s' x = met E s x)"
proof (cases "hh_size m = 0")
  case True
  have "touches (hq kc key) (hk kc key) (batch @ [BRm PMeta (hk kc key)])" using part by (simp add: hash_part_def)
  from hash_commit_empty [OF rep s1 this _ N] show ?thesis
    using True part_empty [OF part] by (simp add: s'_def commit_hash_batch_def commit_hash_meta_or_rm_def rm_meta_def)
next
  case False
  let ?m = "clear_bounds_if_no_ttl_candidates m"
  have "hash_part (hq kc key) (hk kc key) (dat E s) now ?m batch P d N"
    using part ok_clear [of m P d now] by (simp add: hash_part_def)
  from hash_commit [OF rep s1 this N] show ?thesis
    using False legacy_live [OF part False]
    by (cases "is_legacy m") (simp_all add: s'_def commit_hash_batch_def commit_hash_meta_or_rm_def)
qed

section \<open>Preparing a write\<close>

lemma prepare_hash:
  assumes rep: "hash_rep E s kc now key (l, N, F)"
  obtains (fresh) m batch s1 where
      "prepare_hash_meta_for_write E kc now ts key [] s = Inr ((m, False), batch, s1)"
      "dat E s1 = dat E s" "met E s1 = met E s" "\<not> is_legacy m" "\<not> l" "F = Map.empty"
      "hash_part (hq kc key) (hk kc key) (dat E s) now m batch Map.empty 0 N"
  | (stored) m P d where
      "prepare_hash_meta_for_write E kc now ts key [] s = Inr ((m, True), [], s)"
      "is_legacy m = l" "F = live P now" "hash_part (hq kc key) (hk kc key) (dat E s) now m [] P d N" "hh_size m \<noteq> 0"
  using rep
proof (cases rule: hash_cases)
  case (present m P d)
  then show ?thesis using stored [of m P d] by (simp add: prepare_hash_meta_for_write_def hash_get(1) [OF rep])
next
  case absent
  let ?b = "clear_prefix_in_batch E PData s (hq kc key) []"
  obtain v vs where g: "generate_version ts (w_ver s) = (v, vs)" by (cases "generate_version ts (w_ver s)")
  define m where "m = hh_new 0 v 0"
  define s1 where "s1 = s\<lparr>w_ver := vs\<rparr>"
  have run: "prepare_hash_meta_for_write E kc now ts key [] s = Inr ((m, False), ?b, s1)"
    using absent
    by (simp add: prepare_hash_meta_for_write_def hash_get(1) [OF rep] hh_new_with_version_def km_new_with_version_def
        hh_new_def g m_def s1_def)
  have s1: "dat E s1 = dat E s" "met E s1 = met E s"
    unfolding s1_def dat_def met_def by simp_all
  have nl: "\<not> is_legacy m" by (simp add: m_def hh_new_def is_legacy_def)
  have "hash_counts m Map.empty 0"
    using nl by (simp add: hash_counts_def m_def hh_new_def km_new_def persistents_def ttl_bounds_def)
  then have "hash_part (hq kc key) (hk kc key) (dat E s) now m ?b Map.empty 0 N"
    using clear_prefix_touches clear_prefix_view
    by (simp add: hash_part_def hash_ok_def apply_clear_prefix m_def hh_new_def km_new_def sizable_def)
  from fresh [OF run s1 nl absent(2,1) this] show ?thesis .
qed

text \<open>The version counter is no part of what a key stands for.\<close>

lemma hash_cong:
  assumes "hash_rep E s kc now key H" and same: "same_key E kc key s s'"
  shows "hash_rep E s' kc now key H"
proof -
  have "sub_view (dat E s') (hq kc key) = sub_view (dat E s) (hq kc key)"
    using same_keyD(1) [OF same, of HashData] by (simp add: sub_view_def)
  moreover have "live_own hash_meta_ops (met E s') kc key now = live_own hash_meta_ops (met E s) kc key now"
    by (rule same_keyD(5) [OF same]) (simp add: hash_meta_ops_def)
  ultimately show ?thesis
    using assms(1) part_view [of "dat E s'" "hq kc key" "dat E s"] unfolding hash_rep_def same_keyD(3,4) [OF same]
    by (auto split: option.splits prod.splits)
qed

end

end
