(* ===== verification/Hash_Read.thy ===== *)
theory Hash_Read
  imports Hash_Store
begin

text \<open>
  The reading commands of hashes: lookups, iteration in the order of the fields, pages of scans,
  lexical ranges, and the length, which a scan may have to repair.
\<close>

section \<open>The fields in order\<close>

definition hash_items :: "fields \<Rightarrow> (bytes \<times> bytes) list" where
  "hash_items F = map (\<lambda>f. (f, snd (the (F f)))) (sorted_list_of_set (dom F))"

lemma hash_items_empty [simp]: "hash_items Map.empty = []"
  by (simp add: hash_items_def)

lemma dom_live: "dom (live P now) = {f \<in> dom P. live P now f \<noteq> None}"
  by (auto simp: live_def dom_def split: option.splits if_splits)

lemma sorted_live:
  assumes "finite (dom P)"
  shows "sorted_list_of_set (dom (live P now)) = filter (\<lambda>f. live P now f \<noteq> None) (sorted_list_of_set (dom P))"
proof -
  have "set (filter (\<lambda>f. live P now f \<noteq> None) (sorted_list_of_set (dom P))) = dom (live P now)"
    using assms by (auto simp: dom_live)
  moreover have "sorted_wrt (<) (filter (\<lambda>f. live P now f \<noteq> None) (sorted_list_of_set (dom P)))"
    by (rule sorted_wrt_filter) simp
  ultimately show ?thesis using sorted_list_unique by metis
qed

lemma visit_skip:
  "visit (\<lambda>a x. if Q x then g a x else (a, True)) a xs = visit g a (filter Q xs)"
  by (induction xs arbitrary: a) (simp_all split: prod.split)

lemma visit_cut:
  "visit (\<lambda>a x. if Q x then g a x else (a, False)) a xs = visit g a (takeWhile Q xs)"
  by (induction xs arbitrary: a) (simp_all split: prod.split)

lemma visit_cong:
  "(\<And>a x. x \<in> set xs \<Longrightarrow> f a x = g a x) \<Longrightarrow> visit f a xs = visit g a xs"
  by (induction xs arbitrary: a) (simp_all add: split_beta)

text \<open>A step that looks at the fields that are seen only.\<close>

definition on_live :: "fields \<Rightarrow> u64 \<Rightarrow> ('a \<Rightarrow> bytes \<times> bytes \<Rightarrow> 'a \<times> bool) \<Rightarrow> 'a \<Rightarrow> bytes \<Rightarrow> 'a \<times> bool" where
  "on_live P now g a f = (case live P now f of Some (_, v) \<Rightarrow> g a (f, v) | None \<Rightarrow> (a, True))"

lemma visit_on_live:
  assumes "finite (dom P)"
  shows "visit (on_live P now g) a (filter Q (sorted_list_of_set (dom P)))
    = visit g a (filter (\<lambda>(f, _). Q f) (hash_items (live P now)))"
proof -
  have o: "on_live P now g = (\<lambda>a f. if live P now f \<noteq> None then g a (f, snd (the (live P now f))) else (a, True))"
    by (auto simp: on_live_def fun_eq_iff split: option.splits)
  show ?thesis
    unfolding o visit_skip hash_items_def sorted_live [OF assms]
    by (simp add: filter_map comp_def visit_map filter_filter conj_commute)
qed

lemma visit_on_live_rev:
  assumes "finite (dom P)"
  shows "visit (on_live P now g) a (rev (filter Q (sorted_list_of_set (dom P))))
    = visit g a (rev (filter (\<lambda>(f, _). Q f) (hash_items (live P now))))"
proof -
  have o: "on_live P now g = (\<lambda>a f. if live P now f \<noteq> None then g a (f, snd (the (live P now f))) else (a, True))"
    by (auto simp: on_live_def fun_eq_iff split: option.splits)
  show ?thesis
    unfolding o visit_skip hash_items_def sorted_live [OF assms]
    by (simp add: filter_map comp_def visit_map filter_filter conj_commute rev_map rev_filter)
qed

context kv_engine
begin

section \<open>Lookups\<close>

lemma with_hget_rep:
  assumes "hash_rep E s kc now key (l, N, F)"
  shows "with_hget E kc s now key f g = Inr (map_option (g \<circ> snd) (F f))"
  using assms
proof (cases rule: readable_cases)
  case (none m0)
  then show ?thesis by (simp add: with_hget_def)
next
  case (some m0 m P d)
  then show ?thesis by (simp add: with_hget_def part_reads(3) [OF some(3) refl] option.map_comp)
qed

lemma hget_rep:
  assumes "hash_rep E s kc now key (l, N, F)"
  shows "hget E kc s now key f = Inr (map_option snd (F f))"
    and "hexists E kc s now key f = Inr (F f \<noteq> None)"
    and "hstrlen E kc s now key f = Inr (case F f of Some (_, v) \<Rightarrow> length v | None \<Rightarrow> 0)"
  by (auto simp: hget_def hexists_def hstrlen_def with_hget_rep [OF assms] comp_def split: option.splits)

lemma hmget_rep:
  assumes "hash_rep E s kc now key (l, N, F)"
  shows "hmget E kc s now key fs = Inr (map (\<lambda>f. map_option snd (F f)) fs)"
  using assms
proof (cases rule: readable_cases)
  case (none m0)
  then show ?thesis by (simp add: hmget_def map_replicate_const)
next
  case (some m0 m P d)
  then show ?thesis by (simp add: hmget_def part_reads(3) [OF some(3) refl])
qed

section \<open>Iteration\<close>

text \<open>A step over stored entries is a step over the fields that are seen.\<close>

lemma decode_live_rep:
  assumes part: "hash_part (hq kc key) (hk kc key) (dat E s) now m [] P d N" and f: "f \<in> dom P"
  shows "map_option snd (decode_live_subkey_value m (the (dat E s (hq kc key @ f))) now) = map_option snd (live P now f)"
proof -
  obtain raw where "dat E s (hq kc key @ f) = Some raw" using part_read(1) [OF part refl, of f] f by auto
  then show ?thesis using part_reads(3) [OF part refl, of f] by (simp add: live_payload_def e_get_dat)
qed

lemma iter_subs_rep:
  assumes part: "hash_part (hq kc key) (hk kc key) (dat E s) now m [] P d N"
  shows "iter_subs E (w_data s) (hq kc key) = sorted_list_of_set (dom P)"
proof -
  have "sub_view (dat E s) (hq kc key) = enc (is_legacy m) P" using part by (simp add: hash_part_def)
  then have "dom (sub_view (dat E s) (hq kc key)) = dom P" by (auto simp: enc_def dom_def)
  then show ?thesis
    using sorted_list_unique [OF iter_subs_sorted [of "w_data s" "hq kc key"]] iter_subs_set [of "w_data s" "hq kc key"]
    by (simp add: e_get_dat)
qed

lemma hash_entries_rep:
  assumes part: "hash_part (hq kc key) (hk kc key) (dat E s) now m [] P d N"
  shows "hash_entries E s (hq kc key) = map (\<lambda>f. (hq kc key @ f, the (dat E s (hq kc key @ f)))) (sorted_list_of_set (dom P))"
proof -
  have "takeWhile (\<lambda>(k, _). prefix (hq kc key) k) (e_prefix E (w_data s) (hq kc key)) = e_prefix E (w_data s) (hq kc key)"
    by (rule takeWhile_eq_all_conv [THEN iffD2]) (auto dest: prefix_keysD)
  then show ?thesis
    unfolding hash_entries_def prefix_by_keys [of "w_data s" "hq kc key"] iter_subs_rep [OF part] by (simp add: e_get_dat)
qed

lemma step_on_live:
  assumes part: "hash_part (hq kc key) (hk kc key) (dat E s) now m [] P d N" and f: "f \<in> dom P"
  shows "(case decode_live_subkey_value m (the (dat E s (hq kc key @ f))) now of
       Some (_, payload) \<Rightarrow> g a (f, payload) | None \<Rightarrow> (a, True)) = on_live P now g a f"
  using decode_live_rep [OF part f] by (auto simp: on_live_def split: option.splits)

lemma hiter_with_meta_rep:
  assumes part: "hash_part (hq kc key) (hk kc key) (dat E s) now m [] P d N"
  shows "hiter_with_meta E kc s now key m g a = visit g a (hash_items (live P now))"
proof -
  have "hiter_with_meta E kc s now key m g a = visit (on_live P now g) a (sorted_list_of_set (dom P))"
    unfolding hiter_with_meta_def Let_def hash_keys hash_entries_rep [OF part] visit_map
  proof (rule visit_cong)
    fix a f
    assume "f \<in> set (sorted_list_of_set (dom P))"
    then have f: "f \<in> dom P" using part_finite [OF part] by simp
    show "hiter_step m (length (hq kc key)) now g a (hq kc key @ f, the (dat E s (hq kc key @ f))) = on_live P now g a f"
      unfolding step_on_live [OF part f, symmetric] by (auto simp: hiter_step_def split: option.splits)
  qed
  also have "\<dots> = visit g a (hash_items (live P now))"
    using visit_on_live [OF part_finite [OF part], of now g a "\<lambda>_. True"] by simp
  finally show ?thesis .
qed

lemma hiter_rep:
  assumes "hash_rep E s kc now key (l, N, F)"
  shows "hiter E kc s now key g a = Inr (visit g a (hash_items F))"
  using assms
proof (cases rule: readable_cases)
  case (none m0)
  then show ?thesis by (simp add: hiter_def)
next
  case (some m0 m P d)
  then show ?thesis by (simp add: hiter_def hiter_with_meta_rep [OF some(3)])
qed

lemma visit_collect: "visit (\<lambda>rs fv. (rs @ [t fv], True)) rs xs = rs @ map t xs"
  by (induction xs arbitrary: rs) simp_all

lemma fetch_rep:
  assumes "hash_rep E s kc now key (l, N, F)"
  shows "fetch_hash_items E kc s now key t = Inr (map t (hash_items F))"
  using assms
proof (cases rule: readable_cases)
  case (none m0)
  then show ?thesis by (simp add: fetch_hash_items_def)
next
  case (some m0 m P d)
  then show ?thesis by (simp add: fetch_hash_items_def hiter_with_meta_rep [OF some(3)] visit_collect)
qed

lemma hgetall_rep:
  assumes "hash_rep E s kc now key (l, N, F)"
  shows "hgetall E kc s now key = Inr (hash_items F)"
    and "hkeys E kc s now key = Inr (map fst (hash_items F))"
    and "hvals E kc s now key = Inr (map snd (hash_items F))"
  by (simp_all add: hgetall_def hkeys_def hvals_def fetch_rep [OF assms])

lemma hrandfield_rep:
  assumes "hash_rep E s kc now key (l, N, F)"
  shows "hrandfield E R kc s now key count with_values
    = Inr (if count = 0 then []
           else if with_values then map (\<lambda>(f, v). (f, Some v)) (sample_list R count (hash_items F))
           else map (\<lambda>f. (f, None)) (sample_list R count (map fst (hash_items F))))"
  by (simp add: hrandfield_def hgetall_rep [OF assms])

section \<open>Pages\<close>

lemma hscan_rep:
  assumes "hash_rep E s kc now key (l, N, F)"
  shows "hscan E kc s now key cursor limit p =
    (let hits = filter (\<lambda>(f, _). member_matches p f) (hash_items F)
     in Inr (if cursor + limit < length hits then cursor + limit else 0, take limit (drop cursor hits)))"
proof -
  have step: "hscan_step p cursor limit = (\<lambda>(skipped, matched, has_more) x.
      if member_matches p (fst x) then
        if skipped < cursor then ((skipped + 1, matched, has_more), True)
        else if length matched < limit then ((skipped, matched @ [x], has_more), True)
        else ((skipped, matched, True), False)
      else ((skipped, matched, has_more), True))"
    by (auto simp: hscan_step_def fun_eq_iff)
  from visit_count_page [of 0 cursor "[]" limit "\<lambda>x. member_matches p (fst x)" "hash_items F"]
  show ?thesis by (auto simp: hscan_def hiter_rep [OF assms] Let_def step case_prod_beta')
qed

text \<open>Scans over a range of the prefix.\<close>

lemma range_rep:
  assumes part: "hash_part (hq kc key) (hk kc key) (dat E s) now m [] P d N"
    and pre: "\<And>k. in_lower lo k \<Longrightarrow> in_upper hi k \<Longrightarrow> prefix (hq kc key) k"
  shows "e_range E (w_data s) lo hi
    = map (\<lambda>f. (hq kc key @ f, the (dat E s (hq kc key @ f))))
        (filter (\<lambda>f. in_lower lo (hq kc key @ f) \<and> in_upper hi (hq kc key @ f)) (sorted_list_of_set (dom P)))"
proof -
  have "map fst (e_range E (w_data s) lo hi) = map (\<lambda>f. hq kc key @ f)
      (filter (\<lambda>f. in_lower lo (hq kc key @ f) \<and> in_upper hi (hq kc key @ f)) (sorted_list_of_set (dom P)))"
    using scan_within [of lo hi "hq kc key" "w_data s"] pre by (simp add: iter_subs_rep [OF part])
  then show ?thesis
    by (subst range_by_keys) (simp add: comp_def e_get_dat)
qed

end

lemma visit_match_page:
  assumes "length matched < limit"
  shows "visit (\<lambda>matched x. if Q x then (matched @ [x], \<not> length (matched @ [x]) \<ge> limit) else (matched, True)) matched xs
    = matched @ take (limit - length matched) (filter Q xs)"
  using assms
proof (induction xs arbitrary: matched)
  case (Cons x xs)
  show ?case
  proof (cases "Q x \<and> length (matched @ [x]) < limit")
    case True
    then have "limit - length matched = Suc (limit - length (matched @ [x]))" by (simp add: Suc_diff_Suc)
    then show ?thesis using True Cons.IH [of "matched @ [x]"] by simp
  next
    case False
    then have "Q x \<Longrightarrow> limit - length matched = 1" using Cons.prems by auto
    then show ?thesis using False Cons by auto
  qed
qed simp

lemma upper_bound_forms: "prefix_upper_bound q = Unbounded \<or> (\<exists>b. prefix_upper_bound q = Excluded b)"
proof -
  have "prefix_upper_loop bs = Unbounded \<or> (\<exists>b. prefix_upper_loop bs = Excluded b)" for bs
    by (induction bs) auto
  then show ?thesis by (simp add: prefix_upper_bound_def)
qed

context kv_engine
begin

lemma hscan_by_field_rep:
  assumes rep: "hash_rep E s kc now key (l, N, F)"
  shows "hscan_by_field E kc s now key cursor limit p =
    (let hits = filter (\<lambda>(f, _). (cursor = [] \<or> cursor < f) \<and> member_matches p f) (hash_items F);
         page = take limit hits
     in Inr (if limit \<noteq> 0 \<and> length page = limit then Some (fst (last page)) else None, page))"
  using rep
proof (cases rule: readable_cases)
  case (none m0)
  then show ?thesis by (simp add: hscan_by_field_def)
next
  case (some m0 m P d)
  let ?q = "hq kc key"
  let ?lo = "if cursor = [] then Included ?q else Excluded (?q @ cursor)"
  have up: "(case prefix_upper_bound ?q of Excluded b \<Rightarrow> Excluded b | _ \<Rightarrow> Unbounded) = prefix_upper_bound ?q"
    using upper_bound_forms [of ?q] by auto
  have lo: "in_lower ?lo (?q @ f) \<longleftrightarrow> cursor = [] \<or> cursor < f" for f
    using list_le_append_same [of ?q "[]" f] by (simp add: list_less_append_same)
  have pre: "prefix ?q k" if "in_lower ?lo k" "in_upper (prefix_upper_bound ?q) k" for k
  proof -
    have "?q \<le> ?q @ cursor" by (rule prefix_imp_le) simp
    then have "?q \<le> k" using that(1) by (auto split: if_splits)
    then show ?thesis using that(2) by (auto simp: upper_bound_iff)
  qed
  have hi: "in_upper (prefix_upper_bound ?q) (?q @ f)" for f by (simp add: upper_bound_iff)
  show ?thesis
  proof (cases "limit = 0")
    case False
    let ?step = "\<lambda>matched x. if member_matches p (fst x) then (matched @ [x], \<not> length (matched @ [x]) \<ge> limit) else (matched, True)"
    have scan: "e_range E (w_data s) ?lo (prefix_upper_bound ?q) = map (\<lambda>f. (?q @ f, the (dat E s (?q @ f))))
        (filter (\<lambda>f. cursor = [] \<or> cursor < f) (sorted_list_of_set (dom P)))"
      by (subst range_rep [OF some(3) pre]) (simp_all only: lo hi simp_thms)
    have "visit (hscan_field_step m ?q now p limit) [] (e_range E (w_data s) ?lo (prefix_upper_bound ?q))
        = visit (on_live P now ?step) [] (filter (\<lambda>f. cursor = [] \<or> cursor < f) (sorted_list_of_set (dom P)))"
      unfolding scan visit_map
    proof (rule visit_cong)
      fix a f
      assume "f \<in> set (filter (\<lambda>f. cursor = [] \<or> cursor < f) (sorted_list_of_set (dom P)))"
      then have f: "f \<in> dom P" using part_finite [OF some(3)] by auto
      show "hscan_field_step m ?q now p limit a (?q @ f, the (dat E s (?q @ f))) = on_live P now ?step a f"
        unfolding step_on_live [OF some(3) f, symmetric]
        by (auto simp: hscan_field_step_def Let_def split: option.splits)
    qed
    also have "\<dots> = take limit (filter (\<lambda>(f, _). (cursor = [] \<or> cursor < f) \<and> member_matches p f) (hash_items F))"
      unfolding visit_on_live [OF part_finite [OF some(3)]] some(4)
      using visit_match_page [of "[]" limit "\<lambda>x :: bytes \<times> bytes. member_matches p (fst x)"] False
      by (simp add: filter_filter case_prod_beta' conj_commute)
    finally show ?thesis
      using some(1,2) False up by (cases "cursor = []") (simp_all add: hscan_by_field_def Let_def cong: if_cong split del: if_split)
  qed (simp add: hscan_by_field_def)
qed

end

section \<open>Lexical ranges\<close>

text \<open>The fields of a lexical range: an inclusive upper end takes every field it is a prefix of.\<close>

definition lex_selects :: "range_lex \<Rightarrow> bytes \<Rightarrow> bool" where
  "lex_selects spec f \<longleftrightarrow>
     (lx_min_infinite spec \<or> (if lx_minex spec then lx_min spec < f else lx_min spec \<le> f))
   \<and> (lx_max_infinite spec \<or> (if lx_maxex spec then f < lx_max spec else prefix (lx_max spec) f \<or> f < lx_max spec))"

lemma append_zero_le: "m @ [0] \<le> f \<longleftrightarrow> m < (f :: bytes)"
proof (induction m arbitrary: f)
  case Nil
  have "[0] \<le> a # g" for a :: u8 and g
    by (cases g; cases "a = 0") (simp_all add: list_le_def list_less_Cons word_neq_0_conv)
  then show ?case by (cases f) (simp_all add: list_le_def)
next
  case (Cons x m)
  then show ?case by (cases f) (auto simp: list_le_def list_less_Cons)
qed

definition lex_page :: "range_lex \<Rightarrow> fields \<Rightarrow> (bytes \<times> bytes) list" where
  "lex_page spec F =
     (let xs = filter (\<lambda>(f, _). lex_selects spec f) (hash_items F)
      in at_most (lx_count spec) (drop (lx_offset spec) (if lx_reversed spec then rev xs else xs)))"

context kv_engine
begin

lemma lex_bounds:
  assumes "hash_lex_range_bounds q spec = (lo, hi)"
  shows "in_lower lo (q @ f) \<and> in_upper hi (q @ f) \<longleftrightarrow> lex_selects spec f"
    and "in_lower lo k \<Longrightarrow> in_upper hi k \<Longrightarrow> prefix q k"
proof -
  have qq: "prefix (q @ x) (q @ f) = prefix x f" for x by simp
  show "in_lower lo (q @ f) \<and> in_upper hi (q @ f) \<longleftrightarrow> lex_selects spec f"
    using assms list_le_append_same [of q "[]" f] append_zero_le [of "lx_min spec" f]
    by (auto simp: hash_lex_range_bounds_def lex_selects_def upper_bound_iff list_le_append_same list_less_append_same
        split: if_splits)
  assume k: "in_lower lo k" "in_upper hi k"
  have "q \<le> q @ x" for x by (rule prefix_imp_le) simp
  then have up: "q @ x \<le> k \<Longrightarrow> q \<le> k" for x by (rule order_trans)
  have ge: "q @ [] \<le> k"
    using k(1) assms up [of "lx_min spec"] up [of "lx_min spec @ [0]"] by (auto simp: hash_lex_range_bounds_def split: if_splits)
  have "k < q @ x \<Longrightarrow> prefix q k" for x using between_prefix [OF ge, of x] by simp
  moreover have "prefix (q @ x) k \<Longrightarrow> prefix q k" for x by (auto simp: prefix_def)
  moreover have "prefix q k \<or> k < q \<Longrightarrow> prefix q k" using ge by auto
  ultimately show "prefix q k"
    using k(2) assms by (auto simp: hash_lex_range_bounds_def upper_bound_iff split: if_splits)
qed

lemma hrange_by_lex_rep:
  assumes rep: "hash_rep E s kc now key (l, N, F)"
  shows "hrange_by_lex E kc s now key spec = Inr (lex_page spec F)"
  using rep
proof (cases rule: readable_cases)
  case (none m0)
  then show ?thesis by (simp add: hrange_by_lex_def lex_page_def at_most_def split: option.split)
next
  case (some m0 m P d)
  let ?q = "hq kc key"
  let ?step = "page_step (\<lambda>_. True) (lx_offset spec) (lx_count spec)"
  obtain lo hi where b: "hash_lex_range_bounds ?q spec = (lo, hi)" by (cases "hash_lex_range_bounds ?q spec")
  have scan: "e_range E (w_data s) lo hi = map (\<lambda>f. (?q @ f, the (dat E s (?q @ f))))
      (filter (lex_selects spec) (sorted_list_of_set (dom P)))"
    using range_rep [OF some(3) lex_bounds(2) [OF b]] by (simp add: lex_bounds(1) [OF b])
  have step: "visit (\<lambda>a f. hlex_step m ?q now (lx_offset spec) (lx_count spec) a (?q @ f, the (dat E s (?q @ f)))) a fs
      = visit (on_live P now ?step) a fs" if "set fs \<subseteq> dom P" for a fs
  proof (rule visit_cong)
    fix a f
    assume "f \<in> set fs"
    then have f: "f \<in> dom P" using that by auto
    show "hlex_step m ?q now (lx_offset spec) (lx_count spec) a (?q @ f, the (dat E s (?q @ f))) = on_live P now ?step a f"
      unfolding step_on_live [OF some(3) f, symmetric]
      by (cases a) (auto simp: hlex_step_def page_step_def Let_def split: option.splits)
  qed
  have sub: "set (filter (lex_selects spec) (sorted_list_of_set (dom P))) \<subseteq> dom P"
    using part_finite [OF some(3)] by auto
  show ?thesis
  proof (cases "lx_count spec = Some 0")
    case True
    then show ?thesis using some(1,2) b by (simp add: hrange_by_lex_def lex_page_def at_most_def)
  next
    case False
    have p: "snd (visit ?step (0, []) xs) = at_most (lx_count spec) (drop (lx_offset spec) xs)" for xs
      using visit_page_start [OF False, of "\<lambda>_. True"] by simp
    have fwd: "visit (hlex_step m ?q now (lx_offset spec) (lx_count spec)) (0, []) (e_range E (w_data s) lo hi)
        = visit ?step (0, []) (filter (\<lambda>(f, _). lex_selects spec f) (hash_items F))"
      unfolding scan visit_map step [OF sub] visit_on_live [OF part_finite [OF some(3)]] some(4) ..
    have "set (rev (filter (lex_selects spec) (sorted_list_of_set (dom P)))) \<subseteq> dom P" using sub by simp
    from step [OF this]
    have bwd: "visit (hlex_step m ?q now (lx_offset spec) (lx_count spec)) (0, []) (rev (e_range E (w_data s) lo hi))
        = visit ?step (0, []) (rev (filter (\<lambda>(f, _). lex_selects spec f) (hash_items F)))"
      unfolding scan rev_map visit_map visit_on_live_rev [OF part_finite [OF some(3)]] some(4) by simp
    show ?thesis
      using some(1,2) b False by (simp add: hrange_by_lex_def lex_page_def Let_def fwd bwd p)
  qed
qed

end

end
