(* ===== verification/Hash_Write.thy ===== *)
theory Hash_Write
  imports Hash_Read
begin

text \<open>
  The commands that set, count and delete fields without a time, and the length of a hash.
\<close>

section \<open>Writing one field\<close>

lemma put_field_eq [simp]:
  "put_field kc key m f v e batch = insert_data (hq kc key @ f) (encode_subkey_value m v e) batch"
  by (simp add: put_field_def)

text \<open>A record that counts a field is not empty.\<close>

lemma part_size:
  assumes "hash_part q mk dt now m batch P d N" and "P f = Some x"
  shows "hh_size m \<noteq> 0"
proof
  assume "hh_size m = 0"
  then have "P = Map.empty" by (rule part_empty [OF assms(1)])
  then show False using assms(2) by simp
qed

lemma part_legacy_live:
  assumes "hash_part q mk dt now m batch P d N" and "P f = Some x"
  shows "(is_legacy m \<and> live P now \<noteq> Map.empty) = is_legacy m"
  using legacy_live [OF assms(1) part_size [OF assms]] by auto

context kv_engine
begin

lemma hset_one_rep:
  assumes rep: "hash_rep E s kc now key (l, N, F)" and N: "N + 1 < 2 ^ 63"
  shows "\<exists>s'. hset_one_internal E kc now ts key f v s = Inr (if F f = None then 1 else 0, s')
    \<and> hash_rep E s' kc now key (l, N + 1, F(f \<mapsto> (0, v)))
    \<and> (\<forall>x. \<not> owns kc key x \<longrightarrow> dat E s' x = dat E s x \<and> met E s' x = met E s x)"
  using rep
proof (cases rule: prepare_hash [where ts = ts])
  case (fresh m batch s1)
  let ?m = "apply_missing_to_persistent m"
  let ?b = "insert_data (hq kc key @ f) (encode_subkey_value ?m v 0) batch"
  have p: "hash_part (hq kc key) (hk kc key) (dat E s) now ?m ?b (Map.empty(f \<mapsto> (0, v))) 0 (N + 1)"
    using part_set [OF fresh(7) N, where f = f and m' = ?m and ins = True and m'' = ?m and v = v] by (simp add: apply_field_state_to_meta_def)
  have sz: "hh_size ?m \<noteq> 0" by (rule part_size [OF p, of f "(0, v)"]) simp
  from hash_commit [OF rep fresh(2,3) p N this] show ?thesis
    using fresh by (simp add: hset_one_internal_def del: fun_upd_apply)
next
  case (stored m P d)
  obtain m' ins where r: "apply_field_state_to_meta m (kind_of now (P f)) = (m', ins)"
    by (cases "apply_field_state_to_meta m (kind_of now (P f))")
  have p: "hash_part (hq kc key) (hk kc key) (dat E s) now m'
      (insert_data (hq kc key @ f) (encode_subkey_value m' v 0) []) (P(f \<mapsto> (0, v))) d (N + 1)"
    and i: "ins = (F f = None)" "is_legacy m' = is_legacy m"
    using part_set [OF stored(4) N r, where m'' = m' and v = v] part_set [OF stored(4) N r refl] stored(3) by simp_all
  have sz: "hh_size m' \<noteq> 0" by (rule part_size [OF p, of f "(0, v)"]) simp
  from hash_commit [OF rep refl refl p N this] show ?thesis
    using stored(1,2,3) i part_reads(2) [OF stored(4) refl, of f] r
    by (simp add: hset_one_internal_def del: fun_upd_apply)
qed

lemma hsetnx_rep:
  assumes rep: "hash_rep E s kc now key (l, N, F)" and N: "N + 1 < 2 ^ 63"
  shows "\<exists>s'. hsetnx E kc now ts key f v s = Inr (F f = None, s')
    \<and> hash_rep E s' kc now key (if F f = None then (l, N + 1, F(f \<mapsto> (0, v))) else (l, N, F))
    \<and> (\<forall>x. \<not> owns kc key x \<longrightarrow> dat E s' x = dat E s x \<and> met E s' x = met E s x)"
  using rep
proof (cases rule: prepare_hash [where ts = ts])
  case (fresh m batch s1)
  let ?m = "apply_missing_to_persistent m"
  let ?b = "insert_data (hq kc key @ f) (encode_subkey_value ?m v 0) batch"
  have p: "hash_part (hq kc key) (hk kc key) (dat E s) now ?m ?b (Map.empty(f \<mapsto> (0, v))) 0 (N + 1)"
    using part_set [OF fresh(7) N, where f = f and m' = ?m and ins = True and m'' = ?m and v = v] by (simp add: apply_field_state_to_meta_def)
  have sz: "hh_size ?m \<noteq> 0" by (rule part_size [OF p, of f "(0, v)"]) simp
  from hash_commit [OF rep fresh(2,3) p N this] show ?thesis
    using fresh by (simp add: hsetnx_def del: fun_upd_apply)
next
  case (stored m P d)
  note k = part_reads(2) [OF stored(4) refl, of f]
  show ?thesis
  proof (cases "F f")
    case (Some y)
    obtain e v0 where "live P now f = Some (e, v0)" using Some stored(3) by (cases y) auto
    then have "stored_kind E s m (hq kc key @ f) now \<in> {FPersistent, FLiveTTL}"
      using k kind_of_live(1) [of P now f e v0] by simp
    then have "hsetnx E kc now ts key f v s = Inr (False, s)" using stored(1) by (auto simp: hsetnx_def)
    then show ?thesis using rep Some by simp
  next
    case None
    define m' where "m' = (if P f = None then apply_missing_to_persistent m else apply_ttl_to_persistent m)"
    have kd: "kind_of now (P f) = (if P f = None then FMissing else FExpired)"
      using None stored(3) kind_of_live(2) [of P now f] by simp
    then have r: "apply_field_state_to_meta m (kind_of now (P f)) = (m', True)"
      by (simp add: apply_field_state_to_meta_def m'_def)
    have p: "hash_part (hq kc key) (hk kc key) (dat E s) now m'
        (insert_data (hq kc key @ f) (encode_subkey_value m' v 0) []) (P(f \<mapsto> (0, v))) d (N + 1)"
      and i: "is_legacy m' = is_legacy m"
      using part_set [OF stored(4) N r, where m'' = m' and v = v] part_set [OF stored(4) N r refl] by simp_all
    have sz: "hh_size m' \<noteq> 0" by (rule part_size [OF p, of f "(0, v)"]) simp
    have "hsetnx E kc now ts key f v s = Inr (True, commit E (insert_meta (hk kc key) (hh_encode m')
        (insert_data (hq kc key @ f) (encode_subkey_value m' v 0) [])) s)"
      using stored(1) k kd by (simp add: hsetnx_def m'_def)
    then show ?thesis
      using hash_commit [OF rep refl refl p N sz] None i stored(2,3) by (simp del: fun_upd_apply)
  qed
qed

end

section \<open>Writing several fields\<close>

definition set_fields :: "fields \<Rightarrow> (bytes \<times> bytes) list \<Rightarrow> fields" where
  "set_fields F fvs = foldl (\<lambda>F (f, v). F(f \<mapsto> (0, v))) F fvs"

lemma set_fields_simps [simp]:
  "set_fields F [] = F"
  "set_fields F ((f, v) # fvs) = set_fields (F(f \<mapsto> (0, v))) fvs"
  by (simp_all add: set_fields_def)

lemma live_set_fields [simp]: "live (set_fields P fvs) now = set_fields (live P now) fvs"
  by (induction fvs arbitrary: P) auto

lemma dom_set_fields: "dom (set_fields F fvs) = dom F \<union> set (map fst fvs)"
proof (induction fvs arbitrary: F)
  case (Cons fv fvs)
  then show ?case by (cases fv) (simp del: fun_upd_apply)
qed simp

lemma set_fields_nonempty: "fvs \<noteq> [] \<Longrightarrow> \<exists>f x. set_fields F fvs f = Some x"
  using dom_set_fields [of F fvs] by (cases fvs) (auto simp: dom_def set_eq_iff)

text \<open>The fields that are new to a reader.\<close>

definition new_fields :: "fields \<Rightarrow> (bytes \<times> bytes) list \<Rightarrow> nat" where
  "new_fields F fvs = length (filter (\<lambda>(f, _). F f = None) fvs)"

lemma unique_fields_distinct: "distinct (map fst fvs) \<Longrightarrow> unique_fields (fvs :: (bytes \<times> 'v) list) = fvs"
proof -
  have "foldl (\<lambda>(seen, us) (f, v). if f \<in> seen then (seen, us) else (insert f seen, us @ [(f, v)])) (seen, us) xs
      = (seen \<union> set (map fst xs), us @ xs)" if "distinct (map fst xs)" "set (map fst xs) \<inter> seen = {}"
    for seen and us xs :: "(bytes \<times> 'v) list"
    using that by (induction xs arbitrary: seen us) auto
  from this [of "rev fvs" "{}" "[]"] show "distinct (map fst fvs) \<Longrightarrow> unique_fields fvs = fvs"
    by (simp add: unique_fields_def rev_map [symmetric])
qed

lemma hset_new_fold:
  assumes "hash_part (hq kc key) mk dt now m batch P d N" and "distinct (map fst fvs)"
    and "\<forall>f\<in>set (map fst fvs). P f = None \<and> f \<notin> seen" and "N + length fvs < 2 ^ 63"
  shows "\<exists>sn m' batch'. foldl (hset_new_step kc key) (seen, n, m, batch) fvs = (sn, n + length fvs, m', batch')
    \<and> hash_part (hq kc key) mk dt now m' batch' (set_fields P fvs) d (N + length fvs) \<and> is_legacy m' = is_legacy m"
  using assms
proof (induction fvs arbitrary: seen n m batch P N)
  case (Cons fv fvs)
  obtain f v where fv: "fv = (f, v)" by (cases fv)
  have f: "P f = None" "f \<notin> seen" using Cons.prems(3) fv by auto
  let ?m = "apply_missing_to_persistent m"
  let ?b = "insert_data (hq kc key @ f) (encode_subkey_value m v 0) batch"
  have p: "hash_part (hq kc key) mk dt now ?m ?b (P(f \<mapsto> (0, v))) d (N + 1)"
    using part_set [OF Cons.prems(1), where f = f and m' = ?m and ins = True and m'' = m and v = v] f Cons.prems(4)
    by (simp add: apply_field_state_to_meta_def)
  have "\<forall>g\<in>set (map fst fvs). (P(f \<mapsto> (0, v))) g = None \<and> g \<notin> insert f seen"
    using Cons.prems(2,3) fv by auto
  from Cons.IH [where P = "P(f \<mapsto> (0, v))", OF p _ this, of "n + 1"] show ?case
    using Cons.prems(2,4) f fv by (simp add: hset_new_step_def del: fun_upd_apply)
qed simp

context kv_engine
begin

lemma hset_fold:
  assumes part0: "hash_part (hq kc key) (hk kc key) (dat E s) now m0 [] P0 d0 N0"
    and "hash_part (hq kc key) (hk kc key) (dat E s) now m batch P d N" and "is_legacy m = is_legacy m0"
    and "distinct (map fst fvs)" and "\<forall>f\<in>set (map fst fvs). P f = P0 f" and "N + length fvs < 2 ^ 63"
  shows "\<exists>m' batch'. foldl (hset_step E s kc key now) (n, m, batch) fvs = (n + new_fields (live P0 now) fvs, m', batch')
    \<and> hash_part (hq kc key) (hk kc key) (dat E s) now m' batch' (set_fields P fvs) d (N + length fvs)
    \<and> is_legacy m' = is_legacy m0"
  using assms(2-)
proof (induction fvs arbitrary: n m batch P N)
  case (Cons fv fvs)
  obtain f v where fv: "fv = (f, v)" by (cases fv)
  have f: "P f = P0 f" using Cons.prems(4) fv by auto
  obtain m' ins where r: "apply_field_state_to_meta m (kind_of now (P f)) = (m', ins)"
    by (cases "apply_field_state_to_meta m (kind_of now (P f))")
  have N: "N + 1 < 2 ^ 63" using Cons.prems(5) by simp
  have p: "hash_part (hq kc key) (hk kc key) (dat E s) now m'
      (insert_data (hq kc key @ f) (encode_subkey_value m' v 0) batch) (P(f \<mapsto> (0, v))) d (N + 1)"
    and i: "ins = (live P now f = None)" "is_legacy m' = is_legacy m0"
    using part_set [OF Cons.prems(1) N r, where m'' = m' and v = v] part_set [OF Cons.prems(1) N r refl] Cons.prems(2)
    by simp_all
  have o: "\<forall>g\<in>set (map fst fvs). (P(f \<mapsto> (0, v))) g = P0 g" using Cons.prems(3,4) fv by auto
  have "live P now f = live P0 now f" using f by (simp add: live_def)
  then show ?case
    using Cons.IH [where P = "P(f \<mapsto> (0, v))", OF p i(2) _ o, of "if ins then n + 1 else n"] Cons.prems(3,5) fv i r f
      part_reads(2) [OF part0 Cons.prems(2), of f]
    by (cases "live P0 now f") (simp_all add: hset_step_def new_fields_def del: fun_upd_apply)
qed (simp add: new_fields_def)

lemma hset_rep:
  assumes rep: "hash_rep E s kc now key (l, N, F)" and N: "N + length fvs < 2 ^ 63" and dist: "distinct (map fst fvs)"
  shows "\<exists>s'. hset E kc now ts key fvs s = Inr (new_fields F fvs, s')
    \<and> hash_rep E s' kc now key (l, N + length fvs, set_fields F fvs)
    \<and> (\<forall>x. \<not> owns kc key x \<longrightarrow> dat E s' x = dat E s x \<and> met E s' x = met E s x)"
proof (cases "fvs = []")
  case True
  then show ?thesis using rep by (simp add: hset_def new_fields_def)
next
  case ne: False
  show ?thesis
    using rep
  proof (cases rule: prepare_hash [where ts = ts])
    case (fresh m batch s1)
    show ?thesis
    proof (cases "length fvs = 1")
      case True
      then obtain f v where fv: "fvs = [(f, v)]" by (auto simp: length_Suc_conv)
      have "hash_rep E s1 kc now key (l, N, F)"
        using hash_cong [OF rep] fresh(2,3) by (simp add: same_key_def)
      from hset_one_rep [OF this, of ts f v] N show ?thesis
        using fresh(1,2,3) by (auto simp: hset_def fv new_fields_def)
    next
      case False
      obtain sn m' batch' where r: "foldl (hset_new_step kc key) ({}, 0, m, batch) fvs = (sn, length fvs, m', batch')"
        and p: "hash_part (hq kc key) (hk kc key) (dat E s) now m' batch' (set_fields Map.empty fvs) 0 (N + length fvs)"
        and l: "is_legacy m' = is_legacy m"
        using hset_new_fold [OF fresh(7) dist _ N, of "{}" 0] by auto
      obtain f x where "set_fields Map.empty fvs f = Some x" using set_fields_nonempty [OF ne] by blast
      then have sz: "hh_size m' \<noteq> 0" by (rule part_size [OF p])
      have nf: "new_fields F fvs = length fvs" by (simp add: new_fields_def fresh(6) case_prod_unfold)
      have run: "hset E kc now ts key fvs s
          = Inr (length fvs, commit E (insert_meta (hk kc key) (hh_encode m') batch') s1)"
        using fresh(1) ne False r by (simp add: hset_def)
      from hash_commit [OF rep fresh(2,3) p N sz] show ?thesis
        using l fresh(4,5,6) nf unfolding run by auto
    qed
  next
    case (stored m P d)
    show ?thesis
    proof (cases "length fvs = 1")
      case True
      then obtain f v where fv: "fvs = [(f, v)]" by (auto simp: length_Suc_conv)
      from hset_one_rep [OF rep, of ts f v] N show ?thesis
        using stored(1) by (auto simp: hset_def fv new_fields_def)
    next
      case False
      obtain m' batch' where r: "foldl (hset_step E s kc key now) (0, m, []) fvs = (new_fields (live P now) fvs, m', batch')"
        and p: "hash_part (hq kc key) (hk kc key) (dat E s) now m' batch' (set_fields P fvs) d (N + length fvs)"
        and l: "is_legacy m' = is_legacy m"
        using hset_fold [OF stored(4) stored(4) refl dist _ N, of 0] by auto
      obtain f x where x: "set_fields P fvs f = Some x" using set_fields_nonempty [OF ne] by blast
      have run: "hset E kc now ts key fvs s
          = Inr (new_fields F fvs, commit_hash_batch E (hk kc key) m' batch' s)"
        using stored(1,3) ne False r unique_fields_distinct [OF dist] by (simp add: hset_def)
      from hash_commit_batch [OF rep refl refl p N] show ?thesis
        using l stored(2,3) part_legacy_live [OF p x] unfolding run by auto
    qed
  qed
qed

section \<open>Deleting\<close>

lemma hdel_fold:
  assumes part0: "hash_part (hq kc key) (hk kc key) (dat E s) now m0 [] P0 d0 N0"
    and "hash_part (hq kc key) (hk kc key) (dat E s) now m batch P d N" and "is_legacy m = is_legacy m0"
    and "P = P0 |` (- seen)" and "r = 0 \<longrightarrow> P = P0"
  shows "\<exists>r' m' batch'. foldl (hdel_step E s kc key now) (seen, n, r, m, batch) fs
      = (seen \<union> set fs, n + card (dom (live P now) \<inter> set fs), r', m', batch')
    \<and> hash_part (hq kc key) (hk kc key) (dat E s) now m' batch' (P0 |` (- (seen \<union> set fs))) d N
    \<and> is_legacy m' = is_legacy m0 \<and> (r' = 0 \<longrightarrow> P0 |` (- (seen \<union> set fs)) = P0)"
  using assms(2-)
proof (induction fs arbitrary: seen n r m batch P)
  case Nil
  then show ?case by simp
next
  case (Cons f fs)
  have fin: "finite (dom (live P now))" using part_finite [OF Cons.prems(1)] by (simp add: dom_live)
  show ?case
  proof (cases "f \<in> seen")
    case True
    then have "f \<notin> dom (live P now)" using Cons.prems(3) by (auto simp: live_def)
    then have "dom (live P now) \<inter> insert f (set fs) = dom (live P now) \<inter> set fs" by auto
    then show ?thesis
      using True Cons.IH [OF Cons.prems, of n] by (simp add: hdel_step_def insert_absorb)
  next
    case new: False
    have P: "P f = P0 f" using new Cons.prems(3) by simp
    have st: "stored_field E s m (hq kc key @ f) = P f"
      using part_reads(1) [OF part0 Cons.prems(2)] P by simp
    have res: "(P0 |` (- seen))(f := None) = P0 |` (- insert f seen)" by (auto simp: restrict_map_def fun_eq_iff)
    show ?thesis
    proof (cases "P f")
      case None
      then have "f \<notin> dom (live P now)" by (auto simp: live_def)
      then have c: "dom (live P now) \<inter> insert f (set fs) = dom (live P now) \<inter> set fs" by auto
      have "P = P0 |` (- insert f seen)" using Cons.prems(3) None res by (metis fun_upd_triv)
      from Cons.IH [OF Cons.prems(1,2) this Cons.prems(4), of n] show ?thesis
        using new None st c by (simp add: hdel_step_def)
    next
      case (Some y)
      obtain e v where y: "P f = Some (e, v)" using Some by (cases y) auto
      let ?m = "if e = 0 then apply_persistent_to_deleted m else apply_ttl_to_deleted m"
      have p: "hash_part (hq kc key) (hk kc key) (dat E s) now ?m (rm_weak_data (hq kc key @ f) batch) (P(f := None)) d N"
        by (rule part_remove(2) [OF Cons.prems(1) y])
      have l: "is_legacy ?m = is_legacy m0" using Cons.prems(2) by simp
      have q: "P(f := None) = P0 |` (- insert f seen)" using Cons.prems(3) res by simp
      have c: "card (dom (live P now) \<inter> insert f (set fs))
          = (if is_field_expired e now then 0 else 1) + card (dom (live (P(f := None)) now) \<inter> set fs)"
      proof (cases "is_field_expired e now")
        case True
        then have "live P now f = None" using y by (simp add: live_def)
        then have "dom (live P now) \<inter> insert f (set fs) = dom (live (P(f := None)) now) \<inter> set fs" by auto
        then show ?thesis using True by simp
      next
        case False
        then have "f \<in> dom (live P now)" using y by (auto simp: live_def)
        then have "dom (live P now) \<inter> insert f (set fs) = insert f ((dom (live P now) - {f}) \<inter> set fs)" by auto
        then show ?thesis using fin False by simp
      qed
      show ?thesis
        using Cons.IH [where P = "P(f := None)", OF p l q, of "Suc r" "if is_field_expired e now then n else n + 1"] new y st c
        by (cases "is_field_expired e now") (simp_all add: hdel_step_def del: fun_upd_apply)
    qed
  qed
qed

text \<open>The path for one field is the general one.\<close>

lemma hdel_general:
  assumes "fs \<noteq> []"
  shows "hdel E kc now key fs s =
    try_op (get_hash_meta E kc s now key)
      (\<lambda>m. case hash_nonempty m of
         None \<Rightarrow> Inr (0, s)
       | Some meta \<Rightarrow>
           let (_, deleted, removed, meta, batch) = foldl (hdel_step E s kc key now) ({}, 0, 0, meta, []) fs
           in if removed > 0 then Inr (deleted, commit_hash_batch E (hash_meta_key kc key) meta batch s)
              else Inr (deleted, s))"
proof (cases "length fs = 1")
  case True
  then obtain f where f: "fs = [f]" by (auto simp: length_Suc_conv)
  show ?thesis
    unfolding hdel_def f
    by (auto simp: hdel_one_internal_def hdel_step_def Let_def fun_eq_iff
        intro!: arg_cong [of _ _ "try_op (get_hash_meta E kc s now key)"] split: option.splits)
next
  case False
  then show ?thesis using assms unfolding hdel_def by (simp only: if_False)
qed

lemma live_restrict: "live (P |` A) now = live P now |` A"
  by (auto simp: live_def restrict_map_def fun_eq_iff)

lemma hdel_rep:
  assumes rep: "hash_rep E s kc now key (l, N, F)"
  shows "\<exists>s'. hdel E kc now key fs s = Inr (card (dom F \<inter> set fs), s')
    \<and> hash_rep E s' kc now key (l \<and> F |` (- set fs) \<noteq> Map.empty, N, F |` (- set fs))
    \<and> (\<forall>x. \<not> owns kc key x \<longrightarrow> dat E s' x = dat E s x \<and> met E s' x = met E s x)"
proof -
  have keep: "(l \<and> F \<noteq> Map.empty) = l"
    using rep by (cases rule: hash_cases) (auto simp: legacy_live)
  show ?thesis
  proof (cases "fs = []")
    case True
    then show ?thesis using rep keep by (auto simp: hdel_def restrict_map_def)
  next
    case ne: False
    from rep show ?thesis
    proof (cases rule: hash_cases)
      case absent
      then show ?thesis using rep by (simp add: hdel_general [OF ne] hash_get(1) [OF rep] hash_nonempty_def restrict_map_def)
    next
      case (present m P d)
      have n: "hash_nonempty (Some m) = Some m" using present(5) by (simp add: hash_nonempty_def word_neq_0_conv)
      obtain r' m' batch' where r: "foldl (hdel_step E s kc key now) ({}, 0, 0, m, []) fs
          = (set fs, card (dom F \<inter> set fs), r', m', batch')"
        and p: "hash_part (hq kc key) (hk kc key) (dat E s) now m' batch' (P |` (- set fs)) d N"
        and l: "is_legacy m' = is_legacy m" and u: "r' = 0 \<longrightarrow> P |` (- set fs) = P"
        using hdel_fold [OF present(3) present(3) refl, of "{}" 0 0 fs] present(4) by (auto simp: restrict_map_def)
      have lv: "live (P |` (- set fs)) now = F |` (- set fs)" by (simp add: live_restrict present(4))
      show ?thesis
      proof (cases "r' = 0")
        case True
        then have "F |` (- set fs) = F" using u lv present(4) by simp
        then show ?thesis
          using True rep keep r n by (auto simp: hdel_general [OF ne] hash_get(1) [OF rep] present(1))
      next
        case False
        then have "hdel E kc now key fs s = Inr (card (dom F \<inter> set fs), commit_hash_batch E (hk kc key) m' batch' s)"
          using r n by (simp add: hdel_general [OF ne] hash_get(1) [OF rep] present(1))
        then show ?thesis using hash_commit_batch [OF rep refl refl p present(6)] l lv present(2) by simp
      qed
    qed
  qed
qed

end

section \<open>Numbers\<close>

text \<open>A counter keeps the time of its field.\<close>

definition field_time :: "fields \<Rightarrow> bytes \<Rightarrow> u64" where
  "field_time F f = (case F f of Some (e, _) \<Rightarrow> e | None \<Rightarrow> 0)"

lemma part_counted:
  fixes f :: bytes
  assumes part: "hash_part q mk dt now m batch P d N" and N: "N + 1 < 2 ^ 63"
    and m'': "is_legacy m'' = is_legacy m"
  defines "e \<equiv> field_time (live P now) f" and "m' \<equiv> counted_meta (P f = None) (live P now f = None) m"
  shows "hash_part q mk dt now m' (insert_data (q @ f) (encode_subkey_value m'' v e) batch) (P(f \<mapsto> (e, v))) d (N + 1)"
    and "is_legacy m' = is_legacy m"
proof -
  have "hash_part q mk dt now m' (insert_data (q @ f) (encode_subkey_value m'' v e) batch) (P(f \<mapsto> (e, v))) d (N + 1)
      \<and> is_legacy m' = is_legacy m"
  proof (cases "live P now f")
    case None
    then have r: "apply_field_state_to_meta m (kind_of now (P f)) = (m', True)"
      using kind_of_live(2) [OF None] by (simp add: apply_field_state_to_meta_def m'_def counted_meta_def)
    then show ?thesis using part_set [OF part N r m''] None by (simp add: e_def field_time_def)
  next
    case (Some y)
    obtain v0 where y: "live P now f = Some (e, v0)" using Some by (cases y) (simp add: e_def field_time_def)
    then have P: "P f = Some (e, v0)" by (simp add: live_Some)
    have "hash_ok m' (P(f \<mapsto> (e, v))) d now" "m' = m"
      using ok_overwrite [of m P d now f e v0 v] part P y by (simp_all add: hash_part_def m'_def counted_meta_def)
    then show ?thesis
      using part_write [OF part, of m' f e v d "N + 1" m''] card_dom_present [of P f, OF P] part m'' by (simp add: hash_part_def)
  qed
  then show "hash_part q mk dt now m' (insert_data (q @ f) (encode_subkey_value m'' v e) batch) (P(f \<mapsto> (e, v))) d (N + 1)"
    "is_legacy m' = is_legacy m" by blast+
qed

lemma live_field_time: "\<not> is_field_expired (field_time (live P now) f) now"
  by (auto simp: field_time_def live_def split: option.splits)

text \<open>The shape the two counters share.\<close>

definition counter ::
    "(bytes \<Rightarrow> error + 'n) \<Rightarrow> 'n \<Rightarrow> ('n \<Rightarrow> error + 'n) \<Rightarrow> ('n \<Rightarrow> bytes) \<Rightarrow> 'p engine \<Rightarrow> key_composer \<Rightarrow> u64 \<Rightarrow> u64
       \<Rightarrow> bytes \<Rightarrow> bytes \<Rightarrow> 'p wedb \<Rightarrow> error + ('n \<times> 'p wedb)" where
  "counter parse zero step print E kc now_ms ts key f s =
     try_op (prepare_hash_meta_for_write E kc now_ms ts key [] s)
       (\<lambda>((meta, metadata_existed), batch, s).
          try_op (hash_number parse zero E s meta metadata_existed (key_for_field kc key f) now_ms)
            (\<lambda>(cur_val, is_missing, is_expired_ttl, target_expire).
               try_op (step cur_val)
                 (\<lambda>new_val.
                    let meta = counted_meta is_missing is_expired_ttl meta;
                        batch = put_field kc key meta f (print new_val) target_expire batch
                    in Inr (new_val, commit E (insert_meta (hash_meta_key kc key) (hh_encode meta) batch) s))))"

definition add_int :: "int \<Rightarrow> int \<Rightarrow> error + int" where
  "add_int n cur_val = (if cur_val + n < I64_MIN \<or> I64_MAX < cur_val + n then Inl (InvalidData ERR_INCREMENT_OVERFLOW)
     else Inr (cur_val + n))"

definition add_float :: "str_env \<Rightarrow> u64 \<Rightarrow> u64 \<Rightarrow> error + u64" where
  "add_float V x cur_val = (let new_val = add_f64 V cur_val x in
     if is_nan new_val \<or> is_infinite new_val then Inl (InvalidData ERR_INCREMENT_NAN_OR_INFINITY) else Inr new_val)"

context kv_engine
begin

lemma hash_number_rep:
  assumes part: "hash_part (hq kc key) (hk kc key) (dat E s) now m [] P d N"
  shows "hash_number parse zero E s m True (hq kc key @ f) now =
    try_op (case live P now f of Some (_, v) \<Rightarrow> parse v | None \<Rightarrow> Inr zero)
      (\<lambda>n. Inr (n, P f = None, P f \<noteq> None \<and> live P now f = None, field_time (live P now) f))"
  using part_reads(1) [OF part refl, of f]
  by (cases "P f") (auto simp: hash_number_def field_time_def live_def try_op_def split: sum.splits if_splits)

lemma counted_both: "counted_meta (x = None) ((\<exists>a c. x = Some (a, c)) \<and> b) m = counted_meta (x = None) b m"
  by (cases x) (simp_all add: counted_meta_def)

lemma counter_rep:
  fixes f :: bytes and parse :: "bytes \<Rightarrow> error + 'n" and zero :: 'n and step :: "'n \<Rightarrow> error + 'n"
  assumes rep: "hash_rep E s kc now key (l, N, F)" and N: "N + 1 < 2 ^ 63"
  defines "r \<equiv> try_op (case F f of Some (_, v) \<Rightarrow> parse v | None \<Rightarrow> Inr zero) step"
  shows "case r of
      Inl e \<Rightarrow> counter parse zero step print E kc now ts key f s = Inl e
    | Inr n \<Rightarrow> \<exists>s'. counter parse zero step print E kc now ts key f s = Inr (n, s')
        \<and> hash_rep E s' kc now key (l, N + 1, F(f \<mapsto> (field_time F f, print n)))
        \<and> (\<forall>x. \<not> owns kc key x \<longrightarrow> dat E s' x = dat E s x \<and> met E s' x = met E s x)"
  using rep
proof (cases rule: prepare_hash [where ts = ts])
  case (fresh m batch s1)
  let ?m = "counted_meta True True m"
  have r: "r = step zero" by (simp add: r_def fresh(6) try_op_def)
  have run: "counter parse zero step print E kc now ts key f s = try_op (step zero)
      (\<lambda>n. Inr (n, commit E (insert_meta (hk kc key) (hh_encode ?m)
        (insert_data (hq kc key @ f) (encode_subkey_value ?m (print n) 0) batch)) s1))"
    using fresh(1) by (simp add: counter_def hash_number_def counted_meta_def Let_def)
  show ?thesis
  proof (cases "step zero")
    case (Inl e)
    then show ?thesis using run r by simp
  next
    case (Inr n)
    have p: "hash_part (hq kc key) (hk kc key) (dat E s) now ?m
        (insert_data (hq kc key @ f) (encode_subkey_value ?m (print n) 0) batch) (Map.empty(f \<mapsto> (0, print n))) 0 (N + 1)"
      using part_counted(1) [OF fresh(7) N, where f = f and m'' = ?m and v = "print n"]
        part_counted(2) [OF fresh(7) N refl, where f = f] by (simp add: field_time_def)
    have sz: "hh_size ?m \<noteq> 0" by (rule part_size [OF p, of f "(0, print n)"]) simp
    from hash_commit [OF rep fresh(2,3) p N sz] show ?thesis
      using run r Inr fresh(4,5,6) part_counted(2) [OF fresh(7) N refl, where f = f]
      by (simp add: field_time_def del: fun_upd_apply)
  qed
next
  case (stored m P d)
  let ?m = "counted_meta (P f = None) (live P now f = None) m"
  let ?e = "field_time F f"
  have r: "r = try_op (case live P now f of Some (_, v) \<Rightarrow> parse v | None \<Rightarrow> Inr zero) step" by (simp add: r_def stored(3))
  have run: "counter parse zero step print E kc now ts key f s = try_op r
      (\<lambda>n. Inr (n, commit E (insert_meta (hk kc key) (hh_encode ?m)
        (insert_data (hq kc key @ f) (encode_subkey_value ?m (print n) ?e) [])) s))"
    using stored(1,3) unfolding r
    by (auto simp: counter_def hash_number_rep [OF stored(4)] counted_both Let_def try_op_def split: sum.splits)
  show ?thesis
  proof (cases r)
    case (Inl e)
    then show ?thesis using run by simp
  next
    case (Inr n)
    note l = part_counted(2) [OF stored(4) N refl, where f = f]
    have p: "hash_part (hq kc key) (hk kc key) (dat E s) now ?m
        (insert_data (hq kc key @ f) (encode_subkey_value ?m (print n) ?e) []) (P(f \<mapsto> (?e, print n))) d (N + 1)"
      using part_counted(1) [OF stored(4) N l, where v = "print n"] stored(3) by simp
    have sz: "hh_size ?m \<noteq> 0" by (rule part_size [OF p, of f "(?e, print n)"]) simp
    have lv: "live (P(f \<mapsto> (?e, print n))) now = F(f \<mapsto> (?e, print n))"
      using live_field_time [of P now f] stored(3) by simp
    from hash_commit [OF rep refl refl p N sz] show ?thesis
      unfolding lv using run Inr stored(2) l by (simp del: fun_upd_apply)
  qed
qed

lemma hincrby_counter:
  "hincrby E V kc now ts key f n s = counter (parse_hash_integer V) 0 (add_int n) (itoa_format V) E kc now ts key f s"
  by (auto simp: hincrby_def counter_def add_int_def Let_def try_op_def fun_eq_iff split: sum.splits prod.splits)

lemma hincrbyfloat_counter:
  "hincrbyfloat E V kc now ts key f x s
    = counter (parse_hash_float V) 0 (add_float V x) (format_float_bytes V) E kc now ts key f s"
  by (auto simp: hincrbyfloat_def counter_def add_float_def Let_def try_op_def fun_eq_iff split: sum.splits prod.splits)

end

end
