(* ===== verification/Hash_Length.thy ===== *)
theory Hash_Length
  imports Hash_Write
begin

text \<open>
  \<open>HLEN\<close>: the length is the number of fields a reader sees, read from the record where it can be
  trusted and found by a scan, which repairs the record, where it cannot.
\<close>

section \<open>Counting again\<close>

lemma word_Suc: "unat (n :: u64) < 2 ^ 63 \<Longrightarrow> unat (n + 1) = Suc (unat n)"
  by (simp add: unat_word_ariths)

lemma recount_persistent:
  assumes "hash_counts r Q 0" and nl: "\<not> is_legacy r" and f: "Q f = None" and fit: "card (dom Q) < 2 ^ 63"
  shows "hash_counts ((hh_set_size (hh_size r + 1) r)\<lparr>hh_persist := hh_persist r + 1\<rparr>) (Q(f \<mapsto> (0, v))) 0"
proof -
  note c = counts_facts [OF assms(1)]
  have "f \<notin> persistents Q" using f by (simp add: persistents_def)
  moreover have "unat (hh_size r + 1) = Suc (card (dom Q))" using c(3) fit by (simp add: word_Suc)
  moreover have "unat (hh_persist r + 1) = Suc (card (persistents Q))" using c(4) [OF nl] c(8) fit by (simp add: word_Suc)
  ultimately show ?thesis
    using c nl f by (simp add: hash_counts_def card_dom_update persistents_update ttl_bounds_update domIff)
qed

lemma recount_ttl:
  assumes "hash_counts r Q 0" and nl: "\<not> is_legacy r" and f: "Q f = None" and fit: "card (dom Q) < 2 ^ 63" and e: "e \<noteq> 0"
  shows "hash_counts ((hh_set_size (hh_size r + 1) r)\<lparr>hh_lower := if hh_lower r = 0 \<or> e < hh_lower r then e else hh_lower r,
      hh_upper := max (hh_upper r) e\<rparr>) (Q(f \<mapsto> (e, v))) 0"
proof -
  note c = counts_facts [OF assms(1)]
  let ?lo = "if hh_lower r = 0 \<or> e < hh_lower r then e else hh_lower r" and ?up = "max (hh_upper r) e"
  have b: "ttl_bounds (hh_lower r) (hh_upper r) Q" by (rule c(5) [OF nl])
  have "?lo \<noteq> 0 \<and> ?lo \<le> e' \<and> e' \<le> ?up" if "Q g = Some (e', v')" "e' \<noteq> 0" for g e' v'
  proof -
    have "hh_lower r \<noteq> 0" "hh_lower r \<le> e'" "e' \<le> hh_upper r" using b that by (auto simp: ttl_bounds_def)
    then show ?thesis using e by (auto simp: le_max_iff_disj)
  qed
  then have "ttl_bounds ?lo ?up Q" unfolding ttl_bounds_def by blast
  then have "ttl_bounds ?lo ?up (Q(f \<mapsto> (e, v)))" by (rule ttl_bounds_update(3)) (use e in auto)
  moreover have "f \<notin> persistents Q" using f by (simp add: persistents_def)
  moreover have "unat (hh_size r + 1) = Suc (card (dom Q))" using c(3) fit by (simp add: word_Suc)
  ultimately show ?thesis
    using c nl f e by (simp add: hash_counts_def card_dom_update persistents_update domIff)
qed

text \<open>The step of the scan, on a stored field.\<close>

lemma repair_step_eq:
  assumes "decode_subkey_value m raw = Some (e, v)"
  shows "repair_step m now (r, batch) (k, raw) =
    (if e = 0 then ((hh_set_size (hh_size r + 1) r)\<lparr>hh_persist := hh_persist r + 1\<rparr>, batch)
     else if is_field_expired e now then (r, rm_data k batch)
     else ((hh_set_size (hh_size r + 1) r)\<lparr>hh_lower := if hh_lower r = 0 \<or> e < hh_lower r then e else hh_lower r,
        hh_upper := max (hh_upper r) e\<rparr>, batch))"
  using assms by (auto simp: repair_step_def decode_field_state_def Let_def)

text \<open>What the scan has seen: \<open>Q\<close> is counted, and the store will hold \<open>R\<close>.\<close>

definition repairing :: "bytes \<Rightarrow> bytes \<Rightarrow> kv_map \<Rightarrow> u64 \<Rightarrow> hash_meta \<Rightarrow> batch \<Rightarrow> fields \<Rightarrow> fields \<Rightarrow> bool" where
  "repairing q mk dt now r batch Q R \<longleftrightarrow>
     hash_counts r Q 0 \<and> \<not> is_legacy r \<and> sizable RHash (hh_base r) now
   \<and> sub_view (apply_ops PData batch dt) q = enc False R \<and> touches q mk batch \<and> (\<forall>x. apply_ops PMeta batch x = x)"

definition seen_part :: "fields \<Rightarrow> u64 \<Rightarrow> bytes list \<Rightarrow> fields \<Rightarrow> fields" where
  "seen_part P now fs Q = (\<lambda>f. if f \<in> set fs then live P now f else Q f)"

lemma seen_part_simps [simp]:
  "seen_part P now [] Q = Q"
  "seen_part P now (f # fs) Q = seen_part P now fs (Q(f := live P now f))"
  by (auto simp: seen_part_def fun_eq_iff)

context kv_engine
begin

lemma repair_fold:
  assumes part: "hash_part (hq kc key) (hk kc key) (dat E s) now m [] P d N" and nl: "\<not> is_legacy m"
    and "repairing (hq kc key) mk (dat E s) now r batch Q R"
    and "distinct fs" and "set fs \<subseteq> dom P" and "\<forall>f\<in>set fs. Q f = None \<and> R f = P f" and "card (dom Q) + length fs < 2 ^ 63"
  shows "\<exists>r' batch'. foldl (repair_step m now) (r, batch) (map (\<lambda>f. (hq kc key @ f, the (dat E s (hq kc key @ f)))) fs) = (r', batch')
    \<and> repairing (hq kc key) mk (dat E s) now r' batch' (seen_part P now fs Q) (seen_part P now fs R)"
  using assms(3-)
proof (induction fs arbitrary: r batch Q R)
  case Nil
  then show ?case by simp
next
  case (Cons f fs)
  obtain e v where P: "P f = Some (e, v)" using Cons.prems(3) by (auto simp: dom_def)
  have Q: "Q f = None" "R f = Some (e, v)" using Cons.prems(4) P by auto
  have fit: "card (dom Q) < 2 ^ 63" using Cons.prems(5) by simp
  have c: "hash_counts r Q 0" "\<not> is_legacy r" using Cons.prems(1) by (simp_all add: repairing_def)
  obtain raw where raw: "dat E s (hq kc key @ f) = Some raw" using part_read(1) [OF part refl, of f] P by auto
  note st = repair_step_eq [OF part_read(2) [OF part refl raw, unfolded P], of now r batch "hq kc key @ f"]
  obtain r1 batch1 where step: "repair_step m now (r, batch) (hq kc key @ f, raw) = (r1, batch1)"
    and one: "repairing (hq kc key) mk (dat E s) now r1 batch1 (Q(f := live P now f)) (R(f := live P now f))"
  proof (cases "is_field_expired e now")
    case True
    then have l: "live P now f = None" "e \<noteq> 0" using P by (auto simp: live_def is_field_expired_def)
    have "Q(f := None) = Q" using Q(1) by auto
    then show ?thesis
      using that [of r "rm_data (hq kc key @ f) batch"] st True l Cons.prems(1) by (simp add: repairing_def rm_data_def)
  next
    case False
    then have l: "live P now f = Some (e, v)" using P by (simp add: live_def)
    have R: "R(f \<mapsto> (e, v)) = R" using Q(2) by auto
    show ?thesis
    proof (cases "e = 0")
      case True
      then show ?thesis
        using that st Cons.prems(1) recount_persistent [OF c Q(1) fit, of v] R unfolding l by (simp add: repairing_def)
    next
      case ttl: False
      then show ?thesis
        using that st False Cons.prems(1) recount_ttl [OF c Q(1) fit ttl, of v] R unfolding l by (simp add: repairing_def)
    qed
  qed
  have "card (dom (Q(f := live P now f))) \<le> Suc (card (dom Q))"
    using counts_facts(1) [OF c(1)] Q(1) card_dom_update(1) [of Q f] by (cases "live P now f") (simp_all add: le_SucI card_Diff1_le)
  then have fit': "card (dom (Q(f := live P now f))) + length fs < 2 ^ 63" using Cons.prems(5) by simp
  have "\<forall>g\<in>set fs. (Q(f := live P now f)) g = None \<and> (R(f := live P now f)) g = P g"
    using Cons.prems(2,4) by auto
  from Cons.IH [OF one _ _ this fit'] show ?case
    using Cons.prems(2,3) raw step by (simp del: fun_upd_apply)
qed

lemma scan_and_repair_rep:
  assumes rep: "hash_rep E s kc now key (l, N, F)"
    and part: "hash_part (hq kc key) (hk kc key) (dat E s) now m [] P d N" and F: "F = live P now"
    and nl: "\<not> is_legacy m" and N: "N < 2 ^ 63"
  shows "\<exists>s'. scan_and_repair_hash E kc now key m s = (card (dom F), s')
    \<and> hash_rep E s' kc now key (False, N, F)
    \<and> (\<forall>x. \<not> owns kc key x \<longrightarrow> dat E s' x = dat E s x \<and> met E s' x = met E s x)"
proof -
  let ?r = "(hh_set_size 0 m)\<lparr>hh_persist := 0, hh_lower := 0, hh_upper := 0\<rparr>"
  let ?fs = "sorted_list_of_set (dom P)"
  have fin: "finite (dom P)" by (rule part_finite [OF part])
  have "hash_counts ?r Map.empty 0" using nl by (simp add: hash_counts_def persistents_def ttl_bounds_def)
  then have "repairing (hq kc key) (hk kc key) (dat E s) now ?r [] Map.empty P"
    using part nl by (simp add: repairing_def hash_part_def)
  moreover have le: "length ?fs \<le> N" using part fin by (simp add: hash_part_def)
  ultimately obtain r' batch' where r: "foldl (repair_step m now) (?r, [])
        (map (\<lambda>f. (hq kc key @ f, the (dat E s (hq kc key @ f)))) ?fs) = (r', batch')"
    and R: "repairing (hq kc key) (hk kc key) (dat E s) now r' batch' (seen_part P now ?fs Map.empty) (seen_part P now ?fs P)"
    using repair_fold [OF part nl, of "hk kc key" ?r "[]" Map.empty P ?fs] N fin by auto
  have none: "live P now f = None" "P f = None" if "f \<notin> dom P" for f
    using that by (auto simp: live_def split: option.split)
  then have e: "seen_part P now ?fs Map.empty = F" "seen_part P now ?fs P = F"
    using none by (simp_all add: seen_part_def fun_eq_iff fin F)
  have "card (dom F) \<le> card (dom P)" unfolding F by (rule card_mono [OF fin]) (auto simp: dom_live)
  then have "card (dom F) + 0 \<le> N" using le fin by simp
  moreover have lv: "live F now = F" unfolding F by (auto simp: live_def fun_eq_iff split: option.splits)
  ultimately have p: "hash_part (hq kc key) (hk kc key) (dat E s) now r' batch' F 0 N"
    using R unfolding e by (simp add: repairing_def hash_part_def hash_ok_def)
  have sz: "unat (hh_size r') = card (dom F)" "\<not> is_legacy r'"
    using R counts_facts(3) [of r' F 0] unfolding e by (simp_all add: repairing_def)
  have run: "scan_and_repair_hash E kc now key m s = (card (dom F), commit_hash_batch E (hk kc key) r' batch' s)"
    using sz(1) by (simp add: scan_and_repair_hash_def hash_entries_rep [OF part] r commit_hash_batch_def commit_hash_meta_or_rm_def)
  from hash_commit_batch [OF rep refl refl p N] show ?thesis
    unfolding run lv using sz(2) by simp
qed

section \<open>The length\<close>

text \<open>Where the record is trusted no time is over and nothing is counted twice.\<close>

lemma live_all: "(\<And>g e v. P g = Some (e, v) \<Longrightarrow> \<not> is_field_expired e now) \<Longrightarrow> live P now = P"
  by (auto simp: live_def fun_eq_iff split: option.splits)

lemma all_live:
  assumes part: "hash_part q mk dt now m batch P d N"
    and c: "is_legacy m \<or> saturating_sub (hh_size m) (hh_persist m) = 0 \<or> hh_lower m \<noteq> 0 \<and> now < hh_lower m"
  shows "live P now = P" and "unat (hh_size m) = card (dom P)"
proof -
  have ok: "hash_ok m P d now" and h: "hash_counts m P d" using part by (simp_all add: hash_part_def hash_ok_def)
  note f = counts_facts [OF h]
  have eq: "hh_size m = hh_persist m" if "\<not> is_legacy m" "saturating_sub (hh_size m) (hh_persist m) = 0"
  proof -
    have "unat (saturating_sub (hh_size m) (hh_persist m)) = 0" using that(2) by simp
    then have "unat (hh_size m) \<le> unat (hh_persist m)" by (simp add: saturating_sub_unat)
    then show ?thesis using f(3,4,8) that(1) by (simp add: word_unat_eq_iff)
  qed
  have "d = 0 \<and> live P now = P"
  proof (cases "is_legacy m")
    case True
    have "\<not> is_field_expired e now" if "P g = Some (e, v)" for g e v using f(7) [OF True that] by simp
    then show ?thesis using ok True live_all [of P now] by (auto simp: hash_ok_def)
  next
    case nl: False
    show ?thesis
    proof (cases "saturating_sub (hh_size m) (hh_persist m) = 0")
      case True
      note e = eq [OF nl True]
      have "\<not> is_field_expired e now" if "P g = Some (e, v)" for g e v using no_ttl [OF h e nl that] by simp
      moreover have "\<not> d > 0" using size_not_persist [OF h nl disjI1] e by blast
      ultimately show ?thesis using live_all [of P now] by auto
    next
      case False
      then have lo: "hh_lower m \<noteq> 0" "now < hh_lower m" using c nl by auto
      have "\<not> is_field_expired e now" if "P g = Some (e, v)" for g e v
      proof
        assume "is_field_expired e now"
        then have "e \<noteq> 0" "e \<le> now" by (auto simp: is_field_expired_def)
        moreover from this have "hh_lower m \<le> e" using f(5) [OF nl] that by (auto simp: ttl_bounds_def)
        ultimately show False using lo(2) by (meson leD order_trans)
      qed
      then show ?thesis using ok lo live_all [of P now] by (auto simp: hash_ok_def)
    qed
  qed
  then show "live P now = P" "unat (hh_size m) = card (dom P)" using f(3) by simp_all
qed

lemma hlen_rep:
  assumes rep: "hash_rep E s kc now key (l, N, F)"
  shows "\<exists>s'. hlen E kc now key s = Inr (card (dom F), s') \<and> hash_rep E s' kc now key (l, N, F)
    \<and> (\<forall>x. \<not> owns kc key x \<longrightarrow> dat E s' x = dat E s x \<and> met E s' x = met E s x)"
  using rep
proof (cases rule: hash_cases)
  case absent
  then show ?thesis using rep by (simp add: hlen_def hlen_with_mode_def hash_get(1) [OF rep])
next
  case (present m P d)
  have h: "hash_counts m P d" using present(3) by (simp add: hash_part_def hash_ok_def)
  have np: "\<not> hh_persist m > hh_size m" if "\<not> is_legacy m"
    using counts_facts(3,4,8) [OF h] that by (simp add: word_less_nat_alt)
  let ?trust = "is_legacy m \<or> saturating_sub (hh_size m) (hh_persist m) = 0 \<or> hh_lower m \<noteq> 0 \<and> now < hh_lower m"
  have run: "hlen E kc now key s = (if ?trust then Inr (unat (hh_size m), s)
      else if all_over m now then Inr (0, commit E (rm_meta (hk kc key) []) s)
      else Inr (scan_and_repair_hash E kc now key m s))"
    using np by (auto simp: hlen_def hlen_with_mode_def hash_get(1) [OF rep] present(1))
  show ?thesis
  proof (cases ?trust)
    case True
    then show ?thesis using run all_live [OF present(3) True] rep present(4) by simp
  next
    case False
    then have nl: "\<not> l" "\<not> is_legacy m" using present(2) by auto
    show ?thesis
    proof (cases "all_over m now")
      case True
      have t: "touches (hq kc key) (hk kc key) [BRm PMeta (hk kc key)]" by simp
      have e: "F = Map.empty" using all_over_live [OF present(3) True] present(4) by simp
      have "hlen E kc now key s = Inr (0, commit E [BRm PMeta (hk kc key)] s)"
        unfolding run if_not_P [OF False] using True by (simp add: rm_meta_def)
      then show ?thesis using hash_commit_empty [OF rep refl refl t _ present(6)] e nl by simp
    next
      case no: False
      show ?thesis
        unfolding run if_not_P [OF False] if_not_P [OF no]
        using scan_and_repair_rep [OF rep present(3,4) nl(2) present(6)] nl by auto
    qed
  qed
qed

end

end
