(* ===== verification/Hash_Times.thy ===== *)
theory Hash_Times
  imports Hash_Length
begin

text \<open>
  The commands on fields that expire, as loops over fields that change the fields a reader sees one
  at a time. What a loop caches about a field is what the batch queued so far makes of it.
\<close>

section \<open>What a loop knows of a field\<close>

definition sees :: "u64 \<Rightarrow> (u64 \<times> bytes) option \<Rightarrow> cached_state \<Rightarrow> bool" where
  "sees now x entry \<longleftrightarrow> cs_kind entry = kind_of now x
     \<and> (\<forall>e v. x = Some (e, v) \<longrightarrow> cs_expire entry = e
          \<and> (\<forall>m. \<not> is_legacy m \<longrightarrow> subkey_payload m (cs_raw entry) = Some v))"

lemma sees_missing: "sees now None missing_entry"
  by (simp add: sees_def missing_entry_def)

lemma sees_ttl:
  "sees now (Some (e, v)) entry \<Longrightarrow> t \<noteq> 0 \<Longrightarrow> \<not> is_field_expired t now
     \<Longrightarrow> sees now (Some (t, v)) \<lparr>cs_kind = FLiveTTL, cs_expire = t, cs_raw = cs_raw entry\<rparr>"
  by (simp add: sees_def kind_of_def)

lemma sees_persistent:
  "sees now (Some (e, v)) entry \<Longrightarrow> sees now (Some (0, v)) \<lparr>cs_kind = FPersistent, cs_expire = 0, cs_raw = cs_raw entry\<rparr>"
  by (simp add: sees_def kind_of_def)

lemma load_legacy:
  assumes "is_legacy m = is_legacy m'"
  shows "load_field_state E s m k now = load_field_state E s m' k now"
proof -
  have "decode_field_state m = decode_field_state m'"
    using assms by (simp add: decode_field_state_def decode_subkey_value_def fun_eq_iff)
  then show ?thesis by (simp add: load_field_state_def cong: option.case_cong)
qed

text \<open>The loop: the cache sees the fields \<open>P\<close>, and as long as nothing changed they are the
  stored ones.\<close>

definition entry_at :: "'p engine \<Rightarrow> 'p wedb \<Rightarrow> hash_meta \<Rightarrow> bytes \<Rightarrow> u64 \<Rightarrow> (bytes \<rightharpoonup> cached_state) \<Rightarrow> bytes \<Rightarrow> cached_state" where
  "entry_at E s m q now cache f = (case cache f of Some en \<Rightarrow> en | None \<Rightarrow> load_field_state E s m (q @ f) now)"

definition hash_loop ::
    "'p engine \<Rightarrow> 'p wedb \<Rightarrow> key_composer \<Rightarrow> bytes \<Rightarrow> u64 \<Rightarrow> nat \<Rightarrow> fields
       \<Rightarrow> (bytes \<rightharpoonup> cached_state) \<Rightarrow> batch \<Rightarrow> hash_meta \<Rightarrow> bool \<Rightarrow> fields \<Rightarrow> nat \<Rightarrow> bool" where
  "hash_loop E s kc key now N P0 cache batch m changed P d \<longleftrightarrow>
     hash_part (hq kc key) (hk kc key) (dat E s) now m batch P d N \<and> \<not> is_legacy m \<and> N < 2 ^ 63
   \<and> (\<forall>f. sees now (P f) (entry_at E s m (hq kc key) now cache f)) \<and> (changed \<or> P = P0)"

lemma cached_entry_eq:
  "\<exists>cache'. cached_entry E s m (q @ f) now cache f = (entry_at E s m q now cache f, cache')
     \<and> (\<forall>g. entry_at E s m q now cache' g = entry_at E s m q now cache g)
     \<and> (\<forall>g. g \<noteq> f \<longrightarrow> cache' g = cache g)"
  by (auto simp: cached_entry_def entry_at_def Let_def split: option.split)

lemma loop_update:
  assumes loop: "hash_loop E s kc key now N P0 cache batch m changed P d"
    and part: "hash_part (hq kc key) (hk kc key) (dat E s) now m' batch' (P(f := x)) d' N" and "\<not> is_legacy m'"
    and "sees now x en" and c: "\<forall>g. g \<noteq> f \<longrightarrow> cache' g = cache g"
  shows "hash_loop E s kc key now N P0 (cache'(f \<mapsto> en)) batch' m' True (P(f := x)) d'"
proof -
  have "sees now ((P(f := x)) g) (entry_at E s m' (hq kc key) now (cache'(f \<mapsto> en)) g)" for g
  proof (cases "g = f")
    case True
    then show ?thesis using assms(4) by (simp add: entry_at_def)
  next
    case False
    have "entry_at E s m' (hq kc key) now (cache'(f \<mapsto> en)) g = entry_at E s m (hq kc key) now cache g"
      using False c assms(3) loop load_legacy [of m' m] by (auto simp: entry_at_def hash_loop_def split: option.split)
    then show ?thesis using False loop by (simp add: hash_loop_def)
  qed
  then show ?thesis using loop part assms(3) by (simp add: hash_loop_def del: fun_upd_apply)
qed

lemma loop_cache:
  assumes "hash_loop E s kc key now N P0 cache batch m changed P d"
    and "\<forall>g. entry_at E s m (hq kc key) now cache' g = entry_at E s m (hq kc key) now cache g"
  shows "hash_loop E s kc key now N P0 cache' batch m changed P d"
  using assms by (simp add: hash_loop_def)

text \<open>The step for a field whose time is over is the same in every loop.\<close>

lemma loop_purge:
  assumes loop: "hash_loop E s kc key now N P0 cache batch m changed P d" and c: "\<forall>g. g \<noteq> f \<longrightarrow> cache' g = cache g"
    and f: "P f = Some (e, v)" "e \<noteq> 0"
  shows "hash_loop E s kc key now N P0 (cache'(f \<mapsto> missing_entry)) (rm_data (hq kc key @ f) batch)
    (apply_ttl_to_deleted m) True (P(f := None)) d"
proof (rule loop_update [OF loop _ _ sees_missing c])
  show "hash_part (hq kc key) (hk kc key) (dat E s) now (apply_ttl_to_deleted m) (rm_data (hq kc key @ f) batch) (P(f := None)) d N"
    using part_remove(1) [of "hq kc key" "hk kc key" "dat E s" now m batch P d N f e v] loop f by (simp add: hash_loop_def)
qed (use loop in \<open>simp add: hash_loop_def\<close>)

lemma loop_remove:
  assumes loop: "hash_loop E s kc key now N P0 cache batch m changed P d" and c: "\<forall>g. g \<noteq> f \<longrightarrow> cache' g = cache g"
    and f: "live P now f = Some (e, v)"
  shows "hash_loop E s kc key now N P0 (cache'(f \<mapsto> missing_entry)) (rm_data (hq kc key @ f) batch)
    (if e = 0 then apply_persistent_to_deleted m else apply_ttl_to_deleted m) True (P(f := None)) d"
proof (rule loop_update [OF loop _ _ sees_missing c])
  show "hash_part (hq kc key) (hk kc key) (dat E s) now (if e = 0 then apply_persistent_to_deleted m else apply_ttl_to_deleted m)
      (rm_data (hq kc key @ f) batch) (P(f := None)) d N"
    by (rule part_remove(1)) (use loop f in \<open>auto simp: hash_loop_def live_Some\<close>)
qed (use loop in \<open>simp add: hash_loop_def\<close>)

lemma loop_expire:
  assumes loop: "hash_loop E s kc key now N P0 cache batch m changed P d" and c: "\<forall>g. g \<noteq> f \<longrightarrow> cache' g = cache g"
    and f: "live P now f = Some (e, v)" and t: "t \<noteq> 0" "\<not> is_field_expired t now" and en: "sees now (P f) en"
  defines "m' \<equiv> if e = 0 then apply_persistent_to_ttl t m else apply_ttl_to_ttl t m"
  shows "hash_loop E s kc key now N P0 (cache'(f \<mapsto> \<lparr>cs_kind = FLiveTTL, cs_expire = t, cs_raw = cs_raw en\<rparr>))
    (insert_data (hq kc key @ f) (encode_subkey_value m' v t) batch) m' True (P(f \<mapsto> (t, v))) d"
proof (rule loop_update [OF loop _ _ _ c])
  have P: "P f = Some (e, v)" using f by (simp add: live_Some)
  show "sees now (Some (t, v)) \<lparr>cs_kind = FLiveTTL, cs_expire = t, cs_raw = cs_raw en\<rparr>"
    by (rule sees_ttl [of now e]) (use en P t in simp_all)
  have nl: "\<not> is_legacy m" and part: "hash_part (hq kc key) (hk kc key) (dat E s) now m batch P d N"
    using loop by (simp_all add: hash_loop_def)
  show l: "\<not> is_legacy m'" using nl by (simp add: m'_def)
  show "hash_part (hq kc key) (hk kc key) (dat E s) now m'
      (insert_data (hq kc key @ f) (encode_subkey_value m' v t) batch) (P(f \<mapsto> (t, v))) d N"
    unfolding m'_def by (rule part_expire(1) [OF part f t(1) nl]) simp
qed

lemma loop_persist:
  assumes loop: "hash_loop E s kc key now N P0 cache batch m changed P d" and c: "\<forall>g. g \<noteq> f \<longrightarrow> cache' g = cache g"
    and f: "live P now f = Some (e, v)" "e \<noteq> 0" and en: "sees now (P f) en"
  defines "m' \<equiv> apply_ttl_to_persistent m"
  shows "hash_loop E s kc key now N P0 (cache'(f \<mapsto> \<lparr>cs_kind = FPersistent, cs_expire = 0, cs_raw = cs_raw en\<rparr>))
    (insert_data (hq kc key @ f) (encode_subkey_value m' v 0) batch) m' True (P(f \<mapsto> (0, v))) d"
proof (rule loop_update [OF loop _ _ _ c])
  have P: "P f = Some (e, v)" using f by (simp add: live_Some)
  show "sees now (Some (0, v)) \<lparr>cs_kind = FPersistent, cs_expire = 0, cs_raw = cs_raw en\<rparr>"
    by (rule sees_persistent [of now e]) (use en P in simp_all)
  show "\<not> is_legacy m'" using loop by (simp add: m'_def hash_loop_def)
  show "hash_part (hq kc key) (hk kc key) (dat E s) now m'
      (insert_data (hq kc key @ f) (encode_subkey_value m' v 0) batch) (P(f \<mapsto> (0, v))) d N"
    unfolding m'_def by (rule part_persist [OF _ _ f]) (use loop in \<open>simp_all add: hash_loop_def\<close>)
qed

section \<open>Loops over fields\<close>

fun each_field :: "(bytes \<Rightarrow> fields \<Rightarrow> 'r \<times> fields) \<Rightarrow> bytes list \<Rightarrow> fields \<Rightarrow> 'r list \<times> fields" where
  "each_field spec [] F = ([], F)"
| "each_field spec (f # fs) F =
     (let (r, F) = spec f F; (rs, F) = each_field spec fs F in (r # rs, F))"

lemma each_field_none:
  "(\<And>f. spec f Map.empty = (none, Map.empty)) \<Longrightarrow> each_field spec fs Map.empty = (replicate (length fs) none, Map.empty)"
  by (induction fs) simp_all

text \<open>A step of a loop answers \<open>r\<close> and leaves the fields \<open>F\<close>; it does so as a specification says.\<close>

definition loop_does ::
    "'p engine \<Rightarrow> 'p wedb \<Rightarrow> key_composer \<Rightarrow> bytes \<Rightarrow> u64 \<Rightarrow> nat \<Rightarrow> fields
       \<Rightarrow> 'r hfe_loop \<Rightarrow> 'r list \<Rightarrow> 'r \<times> fields \<Rightarrow> bool" where
  "loop_does E s kc key now N P0 st results rF \<longleftrightarrow>
     (\<exists>cache batch m changed P d. st = (cache, batch, m, changed, results @ [fst rF])
        \<and> hash_loop E s kc key now N P0 cache batch m changed P d \<and> live P now = snd rF)"

lemma loop_doesI:
  "st = (cache, batch, m, changed, results @ [r]) \<Longrightarrow> rF = (r, F) \<Longrightarrow>
     hash_loop E s kc key now N P0 cache batch m changed P d \<Longrightarrow> live P now = F \<Longrightarrow>
     loop_does E s kc key now N P0 st results rF"
  unfolding loop_does_def by auto

definition implements ::
    "'p engine \<Rightarrow> 'p wedb \<Rightarrow> key_composer \<Rightarrow> bytes \<Rightarrow> u64 \<Rightarrow> nat
       \<Rightarrow> ('r hfe_loop \<Rightarrow> bytes \<Rightarrow> 'r hfe_loop) \<Rightarrow> (bytes \<Rightarrow> fields \<Rightarrow> 'r \<times> fields) \<Rightarrow> bool" where
  "implements E s kc key now N step spec \<longleftrightarrow>
     (\<forall>P0 cache batch m changed results P d f. hash_loop E s kc key now N P0 cache batch m changed P d \<longrightarrow>
        loop_does E s kc key now N P0 (step (cache, batch, m, changed, results) f) results (spec f (live P now)))"

lemma loop_fold:
  assumes imp: "implements E s kc key now N step spec" and "hash_loop E s kc key now N P0 cache batch m changed P d"
  shows "\<exists>cache' batch' m' changed' P' d'.
      foldl step (cache, batch, m, changed, results) fs
        = (cache', batch', m', changed', results @ fst (each_field spec fs (live P now)))
    \<and> hash_loop E s kc key now N P0 cache' batch' m' changed' P' d' \<and> live P' now = snd (each_field spec fs (live P now))"
  using assms(2)
proof (induction fs arbitrary: cache batch m changed P d results)
  case Nil
  then show ?case by auto
next
  case (Cons f fs)
  have "loop_does E s kc key now N P0 (step (cache, batch, m, changed, results) f) results (spec f (live P now))"
    using imp Cons.prems unfolding implements_def by blast
  then obtain cache' batch' m' changed' P' d' where one:
    "step (cache, batch, m, changed, results) f = (cache', batch', m', changed', results @ [fst (spec f (live P now))])"
    "hash_loop E s kc key now N P0 cache' batch' m' changed' P' d'" "live P' now = snd (spec f (live P now))"
    unfolding loop_does_def by auto
  from Cons.IH [OF one(2), of "results @ [fst (spec f (live P now))]"] show ?case
    using one(1,3) by (simp add: case_prod_beta' Let_def)
qed

context kv_engine
begin

lemma hfe_cases:
  assumes rep: "hash_rep E s kc now key (l, N, F)"
  obtains (legacy) "l" "get_live_hfe_meta E kc s now key = Inl (InvalidData ERR_HASH_FIELD_EXPIRATION_LEGACY_ENCODING)"
  | (none) "\<not> l" "get_live_hfe_meta E kc s now key = Inr None" "F = Map.empty"
  | (some) m P d where "\<not> l" "get_live_hfe_meta E kc s now key = Inr (Some m)" "\<not> is_legacy m"
      "hash_part (hq kc key) (hk kc key) (dat E s) now m [] P d N" "F = live P now" "N < 2 ^ 63"
  using rep
proof (cases rule: hash_cases)
  case absent
  then show ?thesis using none hash_get(2) [OF rep] by (simp add: get_live_hfe_meta_def get_hfe_meta_def)
next
  case (present m P d)
  show ?thesis
  proof (cases "is_legacy m")
    case True
    then show ?thesis using legacy present hash_get(2) [OF rep] by (simp add: get_live_hfe_meta_def get_hfe_meta_def)
  next
    case nl: False
    have run: "get_live_hfe_meta E kc s now key = Inr (if all_over m now then None else Some m)"
      using nl present(1) hash_get(2) [OF rep] by (simp add: get_live_hfe_meta_def get_hfe_meta_def all_over_def)
    show ?thesis
    proof (cases "all_over m now")
      case True
      then show ?thesis using none run nl present(2,4) all_over_live [OF present(3) True] by simp
    next
      case False
      then show ?thesis using some [of m P d] run nl present by simp
    qed
  qed
qed

lemma loop_start:
  assumes "hash_part (hq kc key) (hk kc key) (dat E s) now m [] P d N" and "\<not> is_legacy m" and "N < 2 ^ 63"
  shows "hash_loop E s kc key now N P Map.empty [] m False P d"
  using assms part_reads(4-6) [OF assms(1) refl] by (auto simp: hash_loop_def entry_at_def sees_def)

lemma hfe_command:
  fixes fs :: "bytes list"
  assumes rep: "hash_rep E s kc now key (l, N, F)" and imp: "implements E s kc key now N step spec"
    and none: "\<And>f. spec f Map.empty = (none, Map.empty)"
  defines "r \<equiv> try_op (get_live_hfe_meta E kc s now key)
      (\<lambda>m. case m of
         None \<Rightarrow> Inr (replicate (length fs) none, s)
       | Some meta \<Rightarrow> Inr (finish_loop E (hk kc key) s (foldl step (Map.empty, [], meta, False, []) fs)))"
  shows "if l then r = Inl (InvalidData ERR_HASH_FIELD_EXPIRATION_LEGACY_ENCODING)
    else \<exists>s'. r = Inr (fst (each_field spec fs F), s') \<and> hash_rep E s' kc now key (False, N, snd (each_field spec fs F))
      \<and> (\<forall>x. \<not> owns kc key x \<longrightarrow> dat E s' x = dat E s x \<and> met E s' x = met E s x)"
  using rep
proof (cases rule: hfe_cases)
  case legacy
  then show ?thesis by (simp add: r_def)
next
  case none': none
  then show ?thesis using rep by (simp add: r_def each_field_none [of spec, OF none])
next
  case (some m P d)
  obtain cache' batch' m' changed' P' d' where f:
      "foldl step (Map.empty, [], m, False, []) fs = (cache', batch', m', changed', fst (each_field spec fs F))"
    and loop: "hash_loop E s kc key now N P cache' batch' m' changed' P' d'"
    and lv: "live P' now = snd (each_field spec fs F)"
    using loop_fold [OF imp loop_start [OF some(4,3,6)], of "[]" fs] some(5) by auto
  have run: "r = Inr (fst (each_field spec fs F), if changed' then commit_hash_batch E (hk kc key) m' batch' s else s)"
    by (simp add: r_def some(2) f finish_loop_def)
  show ?thesis
  proof (cases changed')
    case True
    have p: "hash_part (hq kc key) (hk kc key) (dat E s) now m' batch' P' d' N" "\<not> is_legacy m'"
      using loop by (simp_all add: hash_loop_def)
    from hash_commit_batch [OF rep refl refl p(1) some(6)] show ?thesis
      using run True some(1) p(2) lv by simp
  next
    case False
    then have "snd (each_field spec fs F) = F" using loop lv some(5) by (simp add: hash_loop_def)
    then show ?thesis using run False some(1) rep by simp
  qed
qed

end

section \<open>The commands\<close>

text \<open>What the commands do to the fields a reader sees.\<close>

definition expire_spec :: "u64 \<Rightarrow> hexpire_cond \<Rightarrow> u64 \<Rightarrow> bytes \<Rightarrow> fields \<Rightarrow> int \<times> fields" where
  "expire_spec t condition now f F =
     (case F f of
        None \<Rightarrow> (HASH_FIELD_NOT_FOUND, F)
      | Some (e, v) \<Rightarrow>
          if \<not> hexpire_condition_passes condition (if e = 0 then FPersistent else FLiveTTL) e t
          then (HASH_EXPIRE_COND_FAILED, F)
          else if t \<le> now then (HASH_EXPIRE_DELETED, F(f := None))
          else (HASH_EXPIRE_SET_OK, F(f \<mapsto> (t, v))))"

definition persist_spec :: "bytes \<Rightarrow> fields \<Rightarrow> int \<times> fields" where
  "persist_spec f F =
     (case F f of
        None \<Rightarrow> (HASH_FIELD_NOT_FOUND, F)
      | Some (e, v) \<Rightarrow> if e = 0 then (HASH_FIELD_PERSISTENT, F) else (HASH_EXPIRE_SET_OK, F(f \<mapsto> (0, v))))"

definition getdel_spec :: "bytes \<Rightarrow> fields \<Rightarrow> bytes option \<times> fields" where
  "getdel_spec f F = (map_option snd (F f), F(f := None))"

definition getex_spec :: "hash_get_ex \<Rightarrow> u64 \<Rightarrow> bytes \<Rightarrow> fields \<Rightarrow> bytes option \<times> fields" where
  "getex_spec opts now f F =
     (case F f of
        None \<Rightarrow> (None, F)
      | Some (e, v) \<Rightarrow>
          (Some v,
           case hge_ttl_action opts of
             TtlSet \<Rightarrow> if hge_expire_at_ms opts \<le> now then F(f := None) else F(f \<mapsto> (hge_expire_at_ms opts, v))
           | TtlPersist \<Rightarrow> F(f \<mapsto> (0, v))
           | _ \<Rightarrow> F))"

lemma not_expired_later: "now < t \<Longrightarrow> t \<noteq> 0 \<and> \<not> is_field_expired t now"
  by (auto simp: is_field_expired_def)

lemma entry_facts:
  assumes sn: "sees now (P f) en" and nl: "\<not> is_legacy m"
  shows "live P now f = Some (e, v) \<Longrightarrow> cs_kind en = (if e = 0 then FPersistent else FLiveTTL) \<and> cs_expire en = e
      \<and> subkey_payload m (cs_raw en) = Some v \<and> extract_subkey_payload m (cs_raw en) = v"
    and "live P now f = None \<Longrightarrow> P f = None \<Longrightarrow> cs_kind en = FMissing"
    and "live P now f = None \<Longrightarrow> P f = Some (e, v) \<Longrightarrow> cs_kind en = FExpired \<and> e \<noteq> 0"
proof -
  assume y: "live P now f = Some (e, v)"
  then have "P f = Some (e, v)" by (simp add: live_Some)
  then show "cs_kind en = (if e = 0 then FPersistent else FLiveTTL) \<and> cs_expire en = e
      \<and> subkey_payload m (cs_raw en) = Some v \<and> extract_subkey_payload m (cs_raw en) = v"
    using sn nl kind_of_live(1) [OF y] by (simp add: sees_def extract_subkey_payload_def)
next
  assume n: "live P now f = None"
  show "P f = None \<Longrightarrow> cs_kind en = FMissing" using sn by (simp add: sees_def)
  assume "P f = Some (e, v)"
  moreover from this n have "e \<noteq> 0" by (auto simp: live_None is_field_expired_def)
  ultimately show "cs_kind en = FExpired \<and> e \<noteq> 0" using sn kind_of_live(2) [OF n] by (simp add: sees_def)
qed

text \<open>A step by cases on the field: seen, missing, or stored with its time over.\<close>

lemma implementsI:
  assumes seen: "\<And>P0 cache batch m changed results P d f e v cache' en.
      hash_loop E s kc key now N P0 cache batch m changed P d \<Longrightarrow> live P now f = Some (e, v) \<Longrightarrow>
      cached_entry E s m (hq kc key @ f) now cache f = (en, cache') \<Longrightarrow> hash_loop E s kc key now N P0 cache' batch m changed P d \<Longrightarrow>
      sees now (P f) en \<Longrightarrow> \<forall>g. g \<noteq> f \<longrightarrow> cache' g = cache g \<Longrightarrow> \<not> is_legacy m \<Longrightarrow>
      cs_kind en = (if e = 0 then FPersistent else FLiveTTL) \<Longrightarrow> cs_expire en = e \<Longrightarrow>
      (\<And>m'. \<not> is_legacy m' \<Longrightarrow> extract_subkey_payload m' (cs_raw en) = v) \<Longrightarrow>
      loop_does E s kc key now N P0 (step (cache, batch, m, changed, results) f) results (spec f (live P now))"
    and missing: "\<And>cache batch m changed results f en cache'.
      cached_entry E s m (hq kc key @ f) now cache f = (en, cache') \<Longrightarrow> cs_kind en = FMissing \<Longrightarrow>
      step (cache, batch, m, changed, results) f = (cache', batch, m, changed, results @ [none])"
    and over: "\<And>cache batch m changed results f en cache'.
      cached_entry E s m (hq kc key @ f) now cache f = (en, cache') \<Longrightarrow> cs_kind en = FExpired \<Longrightarrow>
      step (cache, batch, m, changed, results) f
        = (cache'(f \<mapsto> missing_entry), rm_data (hq kc key @ f) batch, apply_ttl_to_deleted m, True, results @ [none])"
    and none: "\<And>f F. F f = None \<Longrightarrow> spec f F = (none, F)"
  shows "implements E s kc key now N step spec"
  unfolding implements_def
proof (intro allI impI)
  fix P0 cache batch m changed results P d f
  assume loop: "hash_loop E s kc key now N P0 cache batch m changed P d"
  have nl: "\<not> is_legacy m" using loop by (simp add: hash_loop_def)
  obtain cache' where c: "cached_entry E s m (hq kc key @ f) now cache f = (entry_at E s m (hq kc key) now cache f, cache')"
    and same: "\<forall>g. entry_at E s m (hq kc key) now cache' g = entry_at E s m (hq kc key) now cache g"
    and oth: "\<forall>g. g \<noteq> f \<longrightarrow> cache' g = cache g"
    using cached_entry_eq [of E s m "hq kc key" f now cache] by blast
  let ?en = "entry_at E s m (hq kc key) now cache f"
  have sn: "sees now (P f) ?en" using loop by (simp add: hash_loop_def)
  have loop': "hash_loop E s kc key now N P0 cache' batch m changed P d" by (rule loop_cache [OF loop same])
  show "loop_does E s kc key now N P0 (step (cache, batch, m, changed, results) f) results (spec f (live P now))"
  proof (cases "live P now f")
    case (Some y)
    obtain e v where y: "live P now f = Some (e, v)" using Some by (cases y) auto
    note en = entry_facts(1) [where P = P and m = m, OF sn nl y]
    have "extract_subkey_payload m' (cs_raw ?en) = v" if "\<not> is_legacy m'" for m'
      using entry_facts(1) [where P = P and m = m', OF sn that y] by simp
    then show ?thesis using seen [OF loop y c loop' sn oth nl] en by blast
  next
    case n: None
    show ?thesis
    proof (cases "P f")
      case None
      have "step (cache, batch, m, changed, results) f = (cache', batch, m, changed, results @ [none])"
        by (rule missing [OF c]) (rule entry_facts(2) [OF sn nl n None])
      then show ?thesis by (rule loop_doesI [OF _ none [of "live P now" f, OF n] loop' refl])
    next
      case (Some y)
      obtain e v where y: "P f = Some (e, v)" using Some by (cases y) auto
      have k: "cs_kind ?en = FExpired" "e \<noteq> 0" using entry_facts(3) [OF sn nl n y] by simp_all
      have "live (P(f := None)) now = live P now" using n by auto
      then show ?thesis
        by (rule loop_doesI [OF over [OF c k(1)] none [of "live P now" f, OF n] loop_purge [OF loop oth y k(2)]])
    qed
  qed
qed

lemma expire_implements:
  "implements E s kc key now N (expire_step E s kc key t condition now) (expire_spec t condition now)"
proof (rule implementsI [where none = HASH_FIELD_NOT_FOUND])
  fix P0 cache batch m changed results P d f e v cache' en
  assume loop: "hash_loop E s kc key now N P0 cache batch m changed P d" and y: "live P now f = Some (e, v)"
    and c: "cached_entry E s m (hq kc key @ f) now cache f = (en, cache')" "hash_loop E s kc key now N P0 cache' batch m changed P d"
    and sn: "sees now (P f) en" and oth: "\<forall>g. g \<noteq> f \<longrightarrow> cache' g = cache g" and nl: "\<not> is_legacy m"
    and k: "cs_kind en = (if e = 0 then FPersistent else FLiveTTL)" "cs_expire en = e"
    and pl: "\<And>m'. \<not> is_legacy m' \<Longrightarrow> extract_subkey_payload m' (cs_raw en) = v"
  let ?step = "expire_step E s kc key t condition now (cache, batch, m, changed, results) f"
  have kn: "cs_kind en \<noteq> FMissing" "cs_kind en \<noteq> FExpired" "(cs_kind en = FPersistent) = (e = 0)" using k(1) by simp_all
  consider "\<not> hexpire_condition_passes condition (cs_kind en) e t"
    | "hexpire_condition_passes condition (cs_kind en) e t" "t \<le> now"
    | "hexpire_condition_passes condition (cs_kind en) e t" "now < t" by fastforce
  then show "loop_does E s kc key now N P0 ?step results (expire_spec t condition now f (live P now))"
  proof cases
    case 1
    have "?step = (cache', batch, m, changed, results @ [HASH_EXPIRE_COND_FAILED])"
      using 1 c(1) k(2) kn by (simp add: expire_step_def)
    moreover have "expire_spec t condition now f (live P now) = (HASH_EXPIRE_COND_FAILED, live P now)"
      using 1 k(1) y by (simp add: expire_spec_def)
    ultimately show ?thesis by (rule loop_doesI) (rule c(2), simp)
  next
    case 2
    have "?step = (cache'(f \<mapsto> missing_entry), rm_data (hq kc key @ f) batch,
        if e = 0 then apply_persistent_to_deleted m else apply_ttl_to_deleted m, True, results @ [HASH_EXPIRE_DELETED])"
      using 2 c(1) k(2) kn by (simp add: expire_step_def is_immediate_expire_def remove_field_in_batch_def)
    moreover have "expire_spec t condition now f (live P now) = (HASH_EXPIRE_DELETED, (live P now)(f := None))"
      using 2 k(1) y by (simp add: expire_spec_def)
    ultimately show ?thesis by (rule loop_doesI) (rule loop_remove [OF loop oth y], simp)
  next
    case 3
    note t = not_expired_later [OF 3(2)]
    let ?m = "if e = 0 then apply_persistent_to_ttl t m else apply_ttl_to_ttl t m"
    have "\<not> is_legacy ?m" using nl by simp
    then have "?step = (cache'(f \<mapsto> \<lparr>cs_kind = FLiveTTL, cs_expire = t, cs_raw = cs_raw en\<rparr>),
           insert_data (hq kc key @ f) (encode_subkey_value ?m v t) batch, ?m, True, results @ [HASH_EXPIRE_SET_OK])"
      using 3 c(1) k(2) kn pl [of ?m]
      by (simp add: expire_step_def is_immediate_expire_def apply_expire_in_batch_def not_le [symmetric] Let_def split del: if_split)
    moreover have "expire_spec t condition now f (live P now) = (HASH_EXPIRE_SET_OK, (live P now)(f \<mapsto> (t, v)))"
      using 3 k(1) y by (simp add: expire_spec_def not_le [symmetric])
    ultimately show ?thesis by (rule loop_doesI) (rule loop_expire [OF loop oth y _ _ sn], use t in simp_all)
  qed
qed (auto simp: expire_step_def expire_spec_def)

lemma persist_implements: "implements E s kc key now N (persist_step E s kc key now) persist_spec"
proof (rule implementsI [where none = HASH_FIELD_NOT_FOUND])
  fix P0 cache batch m changed results P d f e v cache' en
  assume loop: "hash_loop E s kc key now N P0 cache batch m changed P d" and y: "live P now f = Some (e, v)"
    and c: "cached_entry E s m (hq kc key @ f) now cache f = (en, cache')" "hash_loop E s kc key now N P0 cache' batch m changed P d"
    and sn: "sees now (P f) en" and oth: "\<forall>g. g \<noteq> f \<longrightarrow> cache' g = cache g" and nl: "\<not> is_legacy m"
    and k: "cs_kind en = (if e = 0 then FPersistent else FLiveTTL)" "cs_expire en = e"
    and pl: "\<And>m'. \<not> is_legacy m' \<Longrightarrow> extract_subkey_payload m' (cs_raw en) = v"
  let ?step = "persist_step E s kc key now (cache, batch, m, changed, results) f"
  show "loop_does E s kc key now N P0 ?step results (persist_spec f (live P now))"
  proof (cases "e = 0")
    case True
    then have "?step = (cache', batch, m, changed, results @ [HASH_FIELD_PERSISTENT])"
      using c(1) k by (simp add: persist_step_def)
    moreover have "persist_spec f (live P now) = (HASH_FIELD_PERSISTENT, live P now)"
      using True y by (simp add: persist_spec_def)
    ultimately show ?thesis by (rule loop_doesI) (rule c(2), simp)
  next
    case False
    then have "?step = (cache'(f \<mapsto> \<lparr>cs_kind = FPersistent, cs_expire = 0, cs_raw = cs_raw en\<rparr>),
        insert_data (hq kc key @ f) (encode_subkey_value (apply_ttl_to_persistent m) v 0) batch, apply_ttl_to_persistent m, True,
        results @ [HASH_EXPIRE_SET_OK])"
      using c(1) k pl [of "apply_ttl_to_persistent m"] nl by (simp add: persist_step_def apply_persist_in_batch_def Let_def)
    moreover have "persist_spec f (live P now) = (HASH_EXPIRE_SET_OK, (live P now)(f \<mapsto> (0, v)))"
      using False y by (simp add: persist_spec_def)
    ultimately show ?thesis by (rule loop_doesI) (rule loop_persist [OF loop oth y False sn], simp)
  qed
qed (auto simp: persist_step_def persist_spec_def)

lemma getdel_implements: "implements E s kc key now N (getdel_step E s kc key now) getdel_spec"
proof (rule implementsI [where none = None])
  fix P0 cache batch m changed results P d f e v cache' en
  assume loop: "hash_loop E s kc key now N P0 cache batch m changed P d" and y: "live P now f = Some (e, v)"
    and c: "cached_entry E s m (hq kc key @ f) now cache f = (en, cache')"
    and oth: "\<forall>g. g \<noteq> f \<longrightarrow> cache' g = cache g" and nl: "\<not> is_legacy m"
    and k: "cs_kind en = (if e = 0 then FPersistent else FLiveTTL)"
    and pl: "\<And>m'. \<not> is_legacy m' \<Longrightarrow> extract_subkey_payload m' (cs_raw en) = v"
  let ?step = "getdel_step E s kc key now (cache, batch, m, changed, results) f"
  have "?step = (cache'(f \<mapsto> missing_entry), rm_data (hq kc key @ f) batch,
        if e = 0 then apply_persistent_to_deleted m else apply_ttl_to_deleted m, True, results @ [Some v])"
    using c k pl [OF nl] by (simp add: getdel_step_def remove_field_in_batch_def)
  moreover have "getdel_spec f (live P now) = (Some v, (live P now)(f := None))" using y by (simp add: getdel_spec_def)
  ultimately show "loop_does E s kc key now N P0 ?step results (getdel_spec f (live P now))"
    by (rule loop_doesI) (rule loop_remove [OF loop oth y], simp)
qed (auto simp: getdel_step_def getdel_spec_def fun_upd_idem)

lemma getex_implements: "implements E s kc key now N (getex_step E s kc key opts now) (getex_spec opts now)"
proof (rule implementsI [where none = None])
  fix P0 cache batch m changed results P d f e v cache' en
  assume loop: "hash_loop E s kc key now N P0 cache batch m changed P d" and y: "live P now f = Some (e, v)"
    and c: "cached_entry E s m (hq kc key @ f) now cache f = (en, cache')" "hash_loop E s kc key now N P0 cache' batch m changed P d"
    and sn: "sees now (P f) en" and oth: "\<forall>g. g \<noteq> f \<longrightarrow> cache' g = cache g" and nl: "\<not> is_legacy m"
    and k: "cs_kind en = (if e = 0 then FPersistent else FLiveTTL)" "cs_expire en = e"
    and pl: "\<And>m'. \<not> is_legacy m' \<Longrightarrow> extract_subkey_payload m' (cs_raw en) = v"
  let ?step = "getex_step E s kc key opts now (cache, batch, m, changed, results) f" and ?t = "hge_expire_at_ms opts"
  note c1 = c(1) and pl = pl [OF nl]
  consider (now) "hge_ttl_action opts = TtlSet" "?t \<le> now" | (later) "hge_ttl_action opts = TtlSet" "now < ?t"
    | (persist) "hge_ttl_action opts = TtlPersist" "e \<noteq> 0"
    | (keep) "hge_ttl_action opts = TtlPersist \<and> e = 0 \<or> hge_ttl_action opts = TtlKeep \<or> hge_ttl_action opts = TtlDiscard"
    by (cases "hge_ttl_action opts"; cases "?t \<le> now") (auto simp: not_le)
  then show "loop_does E s kc key now N P0 ?step results (getex_spec opts now f (live P now))"
  proof cases
    case now
    have "?step = (cache'(f \<mapsto> missing_entry), rm_data (hq kc key @ f) batch,
        if e = 0 then apply_persistent_to_deleted m else apply_ttl_to_deleted m, True, results @ [Some v])"
      using c1 k pl now by (simp add: getex_step_def is_immediate_expire_def)
    moreover have "getex_spec opts now f (live P now) = (Some v, (live P now)(f := None))"
      using y now by (simp add: getex_spec_def)
    ultimately show ?thesis by (rule loop_doesI) (rule loop_remove [OF loop oth y], simp)
  next
    case later
    note t = not_expired_later [OF later(2)]
    let ?m = "if e = 0 then apply_persistent_to_ttl ?t m else apply_ttl_to_ttl ?t m"
    have "?step = (cache'(f \<mapsto> \<lparr>cs_kind = FLiveTTL, cs_expire = ?t, cs_raw = cs_raw en\<rparr>),
           insert_data (hq kc key @ f) (encode_subkey_value ?m v ?t) batch, ?m, True, results @ [Some v])"
      using c1 k pl later t by (simp add: getex_step_def is_immediate_expire_def not_le [symmetric] Let_def)
    moreover have "getex_spec opts now f (live P now) = (Some v, (live P now)(f \<mapsto> (?t, v)))"
      using y later by (simp add: getex_spec_def not_le [symmetric])
    ultimately show ?thesis by (rule loop_doesI) (rule loop_expire [OF loop oth y _ _ sn], use t in simp_all)
  next
    case persist
    have "?step = (cache'(f \<mapsto> \<lparr>cs_kind = FPersistent, cs_expire = 0, cs_raw = cs_raw en\<rparr>),
        insert_data (hq kc key @ f) (encode_subkey_value (apply_ttl_to_persistent m) v 0) batch, apply_ttl_to_persistent m, True,
        results @ [Some v])"
      using c1 k pl persist by (simp add: getex_step_def Let_def)
    moreover have "getex_spec opts now f (live P now) = (Some v, (live P now)(f \<mapsto> (0, v)))"
      using y persist by (simp add: getex_spec_def)
    ultimately show ?thesis by (rule loop_doesI) (rule loop_persist [OF loop oth y persist(2) sn], simp)
  next
    case keep
    have "?step = (cache', batch, m, changed, results @ [Some v])"
      using c1 k pl keep by (cases "hge_ttl_action opts"; cases "e = 0") (simp_all add: getex_step_def Let_def)
    moreover have "getex_spec opts now f (live P now) = (Some v, live P now)"
      using y keep by (cases "hge_ttl_action opts") (auto simp: getex_spec_def fun_upd_idem)
    ultimately show ?thesis by (rule loop_doesI) (rule c(2), simp)
  qed
qed (auto simp: getex_step_def getex_spec_def)

end
