(* ===== verification/Hash_Fields.thy ===== *)
theory Hash_Fields
  imports Hash_Times
begin

text \<open>
  The commands on fields that expire, against the fields a reader sees: \<open>HEXPIRE\<close> and its kin,
  \<open>HTTL\<close> and its kin, \<open>HPERSIST\<close>, \<open>HGETDEL\<close>, \<open>HGETEX\<close> and \<open>HSETEX\<close>.
\<close>

section \<open>The loop behind the commands\<close>

definition field_loop ::
    "'p engine \<Rightarrow> key_composer \<Rightarrow> u64 \<Rightarrow> bytes \<Rightarrow> ('r hfe_loop \<Rightarrow> bytes \<Rightarrow> 'r hfe_loop) \<Rightarrow> 'r \<Rightarrow> bytes list \<Rightarrow> 'p wedb
       \<Rightarrow> error + ('r list \<times> 'p wedb)" where
  "field_loop E kc now key step none fs s =
     try_op (get_live_hfe_meta E kc s now key)
       (\<lambda>m. case m of
          None \<Rightarrow> Inr (replicate (length fs) none, s)
        | Some meta \<Rightarrow> Inr (finish_loop E (hk kc key) s (foldl step (Map.empty, [], meta, False, []) fs)))"

lemma empty_cache: "cached_entry E s m k now Map.empty f = (load_field_state E s m k now, [f \<mapsto> load_field_state E s m k now])"
  by (simp add: cached_entry_def Let_def)

text \<open>The paths for one field are loops over one field.\<close>

lemma expire_general:
  assumes "fs \<noteq> []"
  shows "expire_fields E kc key fs t condition now s
    = field_loop E kc now key (expire_step E s kc key t condition now) HASH_FIELD_NOT_FOUND fs s"
proof (cases "length fs = 1")
  case True
  then obtain f where f: "fs = [f]" by (auto simp: length_Suc_conv)
  show ?thesis
    unfolding expire_fields_def field_loop_def f expire_field_one_def
    by (auto simp: expire_step_def empty_cache finish_loop_def purge_expired_physical_field_def Let_def
        try_op_def split: sum.splits option.splits prod.splits)
next
  case False
  then show ?thesis using assms by (simp add: expire_fields_def field_loop_def)
qed

lemma persist_general:
  assumes "fs \<noteq> []"
  shows "hpersist E kc now key fs s = field_loop E kc now key (persist_step E s kc key now) HASH_FIELD_NOT_FOUND fs s"
proof (cases "length fs = 1")
  case True
  then obtain f where f: "fs = [f]" by (auto simp: length_Suc_conv)
  show ?thesis
    unfolding hpersist_def field_loop_def f hpersist_one_def
    by (auto simp: persist_step_def empty_cache finish_loop_def purge_expired_physical_field_def Let_def
        try_op_def split: sum.splits option.splits prod.splits field_kind.splits)
next
  case False
  then show ?thesis using assms by (simp add: hpersist_def field_loop_def)
qed

lemma getdel_general:
  assumes "fs \<noteq> []"
  shows "hgetdel E kc now key fs s = field_loop E kc now key (getdel_step E s kc key now) None fs s"
proof (cases "length fs = 1")
  case True
  then obtain f where f: "fs = [f]" by (auto simp: length_Suc_conv)
  show ?thesis
    unfolding hgetdel_def field_loop_def f hgetdel_one_def
    by (auto simp: getdel_step_def empty_cache finish_loop_def purge_expired_physical_field_def Let_def
        try_op_def split: sum.splits option.splits prod.splits)
next
  case False
  then show ?thesis using assms by (simp add: hgetdel_def field_loop_def)
qed

text \<open>\<open>HGETEX\<close> on one field answers nothing when the new time is over already; the loop answers the
  value it removes.\<close>

definition getex_now :: "hash_get_ex \<Rightarrow> u64 \<Rightarrow> bool" where
  "getex_now opts now \<longleftrightarrow> hge_ttl_action opts = TtlSet \<and> hge_expire_at_ms opts \<le> now"

lemma load_payload:
  assumes "cs_kind (load_field_state E s m k now) \<noteq> FMissing"
  shows "subkey_payload m (cs_raw (load_field_state E s m k now)) = Some (extract_subkey_payload m (cs_raw (load_field_state E s m k now)))"
  using assms
  by (auto simp: load_field_state_def missing_entry_def decode_field_state_def subkey_payload_def extract_subkey_payload_def
      split: option.splits)

lemma getex_one_general:
  assumes "hge_ttl_action opts \<noteq> TtlKeep"
  shows "get_field_with_expire_one E kc key f opts now s
    = try_op (field_loop E kc now key (getex_step E s kc key opts now) None [f] s)
        (\<lambda>(rs, s). Inr (if getex_now opts now then None else hd rs, s))"
proof (cases "get_live_hfe_meta E kc s now key")
  case (Inl e)
  then show ?thesis by (simp add: get_field_with_expire_one_def field_loop_def)
next
  case (Inr m)
  note defs = get_field_with_expire_one_def field_loop_def getex_step_def empty_cache finish_loop_def
    purge_expired_physical_field_def getex_now_def is_immediate_expire_def Let_def
  show ?thesis
  proof (cases m)
    case None
    then show ?thesis using Inr by (simp add: defs)
  next
    case (Some meta)
    note p = load_payload [of E s meta "hq kc key @ f" now]
    show ?thesis
    proof (cases "cs_kind (load_field_state E s meta (hq kc key @ f) now)")
      case FMissing
      then show ?thesis using Inr Some by (simp add: defs)
    next
      case FExpired
      then show ?thesis using Inr Some by (simp add: defs)
    next
      case FPersistent
      then show ?thesis
        using p assms Inr Some
        by (cases "hge_ttl_action opts"; cases "hge_expire_at_ms opts \<le> now"; cases "hge_expire_at_ms opts = 0")
          (simp_all add: defs)
    next
      case FLiveTTL
      then show ?thesis
        using p assms Inr Some
        by (cases "hge_ttl_action opts"; cases "hge_expire_at_ms opts \<le> now") (simp_all add: defs)
    qed
  qed
qed

context kv_engine
begin

section \<open>Times of fields\<close>

lemma field_loop_rep:
  assumes rep: "hash_rep E s kc now key (l, N, F)" and imp: "implements E s kc key now N step spec"
    and none: "\<And>f. spec f Map.empty = (none, Map.empty)"
  shows "if l then field_loop E kc now key step none fs s = Inl (InvalidData ERR_HASH_FIELD_EXPIRATION_LEGACY_ENCODING)
    else \<exists>s'. field_loop E kc now key step none fs s = Inr (fst (each_field spec fs F), s')
      \<and> hash_rep E s' kc now key (False, N, snd (each_field spec fs F))
      \<and> (\<forall>x. \<not> owns kc key x \<longrightarrow> dat E s' x = dat E s x \<and> met E s' x = met E s x)"
  using hfe_command [OF rep imp, of none fs] none unfolding field_loop_def by blast

lemma expire_rep:
  fixes t :: u64 and condition :: hexpire_cond and fs :: "bytes list"
  assumes "hash_rep E s kc now key (l, N, F)" and "fs \<noteq> []"
  defines "F' \<equiv> each_field (expire_spec t condition now) fs F"
  shows "if l then expire_fields E kc key fs t condition now s = Inl (InvalidData ERR_HASH_FIELD_EXPIRATION_LEGACY_ENCODING)
    else \<exists>s'. expire_fields E kc key fs t condition now s = Inr (fst F', s') \<and> hash_rep E s' kc now key (False, N, snd F')
      \<and> (\<forall>x. \<not> owns kc key x \<longrightarrow> dat E s' x = dat E s x \<and> met E s' x = met E s x)"
  unfolding expire_general [OF assms(2)] F'_def
  by (rule field_loop_rep [OF assms(1) expire_implements]) (simp add: expire_spec_def)

lemma persist_rep:
  fixes fs :: "bytes list"
  assumes "hash_rep E s kc now key (l, N, F)" and "fs \<noteq> []"
  defines "F' \<equiv> each_field persist_spec fs F"
  shows "if l then hpersist E kc now key fs s = Inl (InvalidData ERR_HASH_FIELD_EXPIRATION_LEGACY_ENCODING)
    else \<exists>s'. hpersist E kc now key fs s = Inr (fst F', s') \<and> hash_rep E s' kc now key (False, N, snd F')
      \<and> (\<forall>x. \<not> owns kc key x \<longrightarrow> dat E s' x = dat E s x \<and> met E s' x = met E s x)"
  unfolding persist_general [OF assms(2)] F'_def
  by (rule field_loop_rep [OF assms(1) persist_implements]) (simp add: persist_spec_def)

lemma getdel_rep:
  fixes fs :: "bytes list"
  assumes "hash_rep E s kc now key (l, N, F)" and "fs \<noteq> []"
  defines "F' \<equiv> each_field getdel_spec fs F"
  shows "if l then hgetdel E kc now key fs s = Inl (InvalidData ERR_HASH_FIELD_EXPIRATION_LEGACY_ENCODING)
    else \<exists>s'. hgetdel E kc now key fs s = Inr (fst F', s') \<and> hash_rep E s' kc now key (False, N, snd F')
      \<and> (\<forall>x. \<not> owns kc key x \<longrightarrow> dat E s' x = dat E s x \<and> met E s' x = met E s x)"
  unfolding getdel_general [OF assms(2)] F'_def
  by (rule field_loop_rep [OF assms(1) getdel_implements]) (simp add: getdel_spec_def)

lemma getex_rep:
  fixes opts :: hash_get_ex and fs :: "bytes list"
  assumes "hash_rep E s kc now key (l, N, F)"
  defines "F' \<equiv> each_field (getex_spec opts now) fs F"
  shows "if l then field_loop E kc now key (getex_step E s kc key opts now) None fs s
      = Inl (InvalidData ERR_HASH_FIELD_EXPIRATION_LEGACY_ENCODING)
    else \<exists>s'. field_loop E kc now key (getex_step E s kc key opts now) None fs s = Inr (fst F', s')
      \<and> hash_rep E s' kc now key (False, N, snd F')
      \<and> (\<forall>x. \<not> owns kc key x \<longrightarrow> dat E s' x = dat E s x \<and> met E s' x = met E s x)"
  unfolding F'_def by (rule field_loop_rep [OF assms(1) getex_implements]) (simp add: getex_spec_def)

text \<open>The queries for times; the cache of answers changes nothing.\<close>

lemma query_fold:
  assumes "\<forall>f r. cache f = Some r \<longrightarrow> r = g f"
    and "\<And>f. evaluate_field_ttl m (e_get E (w_data s) (hq kc key @ f)) now h = g f"
  shows "snd (foldl (query_step E s kc key m now h) (cache, results) fs) = results @ map g fs"
  using assms(1)
proof (induction fs arbitrary: cache results)
  case (Cons f fs)
  show ?case
  proof (cases "cache f")
    case None
    have "\<forall>f' r. (cache(f \<mapsto> g f)) f' = Some r \<longrightarrow> r = g f'" using Cons.prems by simp
    from Cons.IH [OF this, of "results @ [g f]"] show ?thesis
      using None assms(2) by (simp add: query_step_def Let_def del: fun_upd_apply)
  next
    case (Some r)
    then show ?thesis using Cons.IH [OF Cons.prems, of "results @ [g f]"] Cons.prems by (simp add: query_step_def)
  qed
qed simp

lemma query_rep:
  assumes rep: "hash_rep E s kc now key (l, N, F)"
  shows "query_field_expire_info E kc s now key fs h =
    (if l then Inl (InvalidData ERR_HASH_FIELD_EXPIRATION_LEGACY_ENCODING)
     else Inr (map (\<lambda>f. ttl_reply h now (F f)) fs))"
    and "query_field_expire_info_one E kc s now key f h =
    (if l then Inl (InvalidData ERR_HASH_FIELD_EXPIRATION_LEGACY_ENCODING) else Inr (ttl_reply h now (F f)))"
proof -
  show one: "query_field_expire_info_one E kc s now key f h =
    (if l then Inl (InvalidData ERR_HASH_FIELD_EXPIRATION_LEGACY_ENCODING) else Inr (ttl_reply h now (F f)))" for f
    using rep
  proof (cases rule: hfe_cases)
    case legacy
    then show ?thesis by (simp add: query_field_expire_info_one_def)
  next
    case none
    then show ?thesis by (simp add: query_field_expire_info_one_def ttl_reply_def)
  next
    case (some m P d)
    then show ?thesis
      using part_reads(7) [OF some(4) refl, of f h] by (simp add: query_field_expire_info_one_def e_get_dat)
  qed
  show "query_field_expire_info E kc s now key fs h =
    (if l then Inl (InvalidData ERR_HASH_FIELD_EXPIRATION_LEGACY_ENCODING)
     else Inr (map (\<lambda>f. ttl_reply h now (F f)) fs))"
  proof (cases "length fs = 1")
    case True
    then obtain f where "fs = [f]" by (auto simp: length_Suc_conv)
    then show ?thesis using one [of f] by (simp add: query_field_expire_info_def)
  next
    case False
    from rep show ?thesis
    proof (cases rule: hfe_cases)
      case legacy
      then show ?thesis using False by (simp add: query_field_expire_info_def)
    next
      case none
      then show ?thesis using False by (simp add: query_field_expire_info_def ttl_reply_def map_replicate_const)
    next
      case (some m P d)
      have "evaluate_field_ttl m (e_get E (w_data s) (hq kc key @ f)) now h = ttl_reply h now (F f)" for f
        using part_reads(7) [OF some(4) refl, of f h] some(5) by (simp add: e_get_dat)
      from query_fold [where cache = Map.empty and g = "\<lambda>f. ttl_reply h now (F f)", OF _ this] show ?thesis
        using some(1,2) False by (simp add: query_field_expire_info_def)
    qed
  qed
qed

end

end
