(* ===== verification/Hash_Setex.thy ===== *)
theory Hash_Setex
  imports Hash_Fields
begin

text \<open>
  \<open>HSETEX\<close>: the condition is checked for every field first, then each field is written or, when its
  new time is over already, removed.
\<close>

section \<open>The effect on the fields\<close>

definition setex_over :: "hash_set_ex \<Rightarrow> u64 \<Rightarrow> bool" where
  "setex_over opts now \<longleftrightarrow> hse_ttl_action opts = TtlSet \<and> is_immediate_expire (hse_expire_at_ms opts) now"

definition setex_put :: "hash_set_ex \<Rightarrow> u64 \<Rightarrow> fields \<Rightarrow> bytes \<times> bytes \<Rightarrow> fields" where
  "setex_put opts now F fv = (case fv of (f, v) \<Rightarrow>
     if setex_over opts now then F(f := None)
     else F(f \<mapsto> (case hse_ttl_action opts of
                    TtlKeep \<Rightarrow> field_time F f
                  | TtlSet \<Rightarrow> hse_expire_at_ms opts
                  | _ \<Rightarrow> 0, v)))"

definition setex_allowed :: "set_condition \<Rightarrow> fields \<Rightarrow> bytes \<Rightarrow> bool" where
  "setex_allowed condition F f =
     (case condition of SetAny \<Rightarrow> True | SetFnx \<Rightarrow> F f = None | SetFxx \<Rightarrow> F f \<noteq> None)"

definition setex_spec :: "hash_set_ex \<Rightarrow> u64 \<Rightarrow> (bytes \<times> bytes) list \<Rightarrow> fields \<Rightarrow> bool \<times> fields" where
  "setex_spec opts now fvs F =
     (if fvs \<noteq> [] \<and> (\<forall>f\<in>set (map fst fvs). setex_allowed (hse_condition opts) F f)
      then (True, foldl (setex_put opts now) F fvs) else (False, F))"

text \<open>\<open>KEEPTTL\<close> needs the fields it keeps the time of.\<close>

definition setex_keeps :: "hash_set_ex \<Rightarrow> (bytes \<times> bytes) list \<Rightarrow> fields \<Rightarrow> bool" where
  "setex_keeps opts fvs F \<longleftrightarrow>
     (hse_ttl_action opts = TtlKeep \<longrightarrow> (\<forall>f\<in>set (map fst fvs). F f \<noteq> None))"

section \<open>One field\<close>

definition knows :: "u64 \<Rightarrow> (u64 \<times> bytes) option \<Rightarrow> cached_state \<Rightarrow> bool" where
  "knows now x en \<longleftrightarrow> cs_kind en = kind_of now x \<and> (\<forall>e v. x = Some (e, v) \<longrightarrow> cs_expire en = e)"

definition setex_field ::
    "hash_set_ex \<Rightarrow> u64 \<Rightarrow> hash_meta \<Rightarrow> bytes \<Rightarrow> bytes \<Rightarrow> cached_state \<Rightarrow> batch \<Rightarrow> hash_meta \<times> batch" where
  "setex_field opts now m k v en batch =
     (if setex_over opts now
      then if cs_kind en \<noteq> FMissing then remove_field_in_batch m k (cs_kind en) batch else (m, batch)
      else apply_setex_field_in_batch m k v (cs_kind en)
        (resolve_target_expire (hse_ttl_action opts) (hse_expire_at_ms opts) (cs_kind en) (cs_expire en)) batch)"

lemma knows_condition: "knows now (P f) en \<Longrightarrow> set_condition_met c (cs_kind en) = setex_allowed c (live P now) f"
  by (cases "live P now f")
    (auto simp: knows_def set_condition_met_def setex_allowed_def kind_of_live split: set_condition.split if_splits)

lemma knows_target:
  assumes kn: "knows now (P f) en" and keep: "hse_ttl_action opts = TtlKeep \<longrightarrow> live P now f \<noteq> None"
  defines "t \<equiv> resolve_target_expire (hse_ttl_action opts) (hse_expire_at_ms opts) (cs_kind en) (cs_expire en)"
  assumes over: "\<not> setex_over opts now"
  shows "t = (case hse_ttl_action opts of
      TtlKeep \<Rightarrow> field_time (live P now) f | TtlSet \<Rightarrow> hse_expire_at_ms opts | _ \<Rightarrow> 0)"
    and "\<not> is_field_expired t now"
proof -
  have t: "t = (case hse_ttl_action opts of
      TtlKeep \<Rightarrow> field_time (live P now) f | TtlSet \<Rightarrow> hse_expire_at_ms opts | _ \<Rightarrow> 0) \<and> \<not> is_field_expired t now"
  proof (cases "hse_ttl_action opts")
    case TtlKeep
    then obtain e v where y: "live P now f = Some (e, v)" using keep by auto
    then have "P f = Some (e, v)" "\<not> is_field_expired e now" by (simp_all add: live_Some)
    then show ?thesis
      using TtlKeep kn kind_of_live(1) [OF y] y
      by (auto simp: t_def resolve_target_expire_def knows_def field_time_def)
  next
    case TtlSet
    then show ?thesis
      using over by (auto simp: t_def resolve_target_expire_def setex_over_def is_immediate_expire_def is_field_expired_def)
  qed (auto simp: t_def resolve_target_expire_def)
  then show "t = (case hse_ttl_action opts of
      TtlKeep \<Rightarrow> field_time (live P now) f | TtlSet \<Rightarrow> hse_expire_at_ms opts | _ \<Rightarrow> 0)"
    by (rule conjunct1)
  from t show "\<not> is_field_expired t now" by (rule conjunct2)
qed

lemma setex_field_part:
  assumes part: "hash_part q mk dt now m batch P d N" and N: "N + 1 < 2 ^ 63" and nl: "\<not> is_legacy m"
    and kn: "knows now (P f) en" and keep: "hse_ttl_action opts = TtlKeep \<longrightarrow> live P now f \<noteq> None"
    and run: "setex_field opts now m (q @ f) v en batch = (m', batch')"
  shows "\<exists>P' d'. hash_part q mk dt now m' batch' P' d' (N + 1) \<and> live P' now = setex_put opts now (live P now) (f, v)
    \<and> (\<forall>g. g \<noteq> f \<longrightarrow> P' g = P g) \<and> \<not> is_legacy m'"
proof (cases "setex_over opts now")
  case over: True
  show ?thesis
  proof (cases "P f")
    case None
    then have "live P now f = None" by (simp add: live_def)
    then show ?thesis
      using None run over kn part_mono [OF part, of "N + 1"] nl
      by (intro exI [of _ P]) (auto simp: setex_field_def knows_def setex_put_def fun_upd_idem)
  next
    case (Some y)
    obtain e v0 where y: "P f = Some (e, v0)" using Some by (cases y) auto
    let ?m = "if e = 0 then apply_persistent_to_deleted m else apply_ttl_to_deleted m"
    have "m' = ?m" "batch' = rm_data (q @ f) batch"
      using run over kn y by (auto simp: setex_field_def knows_def kind_of_def remove_field_in_batch_def split: if_splits)
    moreover have "hash_part q mk dt now ?m (rm_data (q @ f) batch) (P(f := None)) d (N + 1)"
      by (rule part_mono [OF part_remove(1) [OF part y]]) simp
    ultimately show ?thesis using nl over by (intro exI [of _ "P(f := None)"]) (auto simp: setex_put_def)
  qed
next
  case False
  let ?t = "resolve_target_expire (hse_ttl_action opts) (hse_expire_at_ms opts) (cs_kind en) (cs_expire en)"
  have r: "apply_setex_field_in_batch m (q @ f) v (kind_of now (P f)) ?t batch = (m', batch')"
    using run False kn by (simp add: setex_field_def knows_def)
  obtain d' where "hash_part q mk dt now m' batch' (P(f \<mapsto> (?t, v))) d' (N + 1)" "\<not> is_legacy m'"
    using part_setex [OF part N nl r] by blast
  moreover note t = knows_target [OF kn keep False]
  have "live (P(f \<mapsto> (?t, v))) now = setex_put opts now (live P now) (f, v)"
    using False t(2) live_update(2) [OF t(2), of P f v] unfolding setex_put_def t(1) by simp
  ultimately show ?thesis by (intro exI [of _ "P(f \<mapsto> (?t, v))"]) auto
qed

section \<open>The loop over the fields\<close>

definition setex_entry ::
    "'p engine \<Rightarrow> 'p wedb \<Rightarrow> bool \<Rightarrow> hash_meta \<Rightarrow> bytes \<Rightarrow> u64 \<Rightarrow> (bytes \<rightharpoonup> cached_state) \<Rightarrow> bytes \<Rightarrow> cached_state" where
  "setex_entry E s existed m q now cache f =
     (case cache f of Some en \<Rightarrow> en | None \<Rightarrow> stored_entry E s existed m (q @ f) now)"

lemma setex_step_eq:
  fixes E :: "'p engine" and s :: "'p wedb" and kc :: key_composer and key f v :: bytes and opts :: hash_set_ex
    and existed :: bool and now :: u64 and cache :: "bytes \<rightharpoonup> cached_state" and batch :: batch and m :: hash_meta
  defines "en \<equiv> setex_entry E s existed m (hq kc key) now cache f"
  defines "mb \<equiv> setex_field opts now m (hq kc key @ f) v en batch"
  shows "\<exists>cache'. setex_step E s kc key opts existed now (cache, batch, m) (f, v) = (cache', snd mb, fst mb)
     \<and> (\<forall>g. g \<noteq> f \<longrightarrow> cache' g = cache g)"
proof -
  note defs = setex_step_def en_def setex_entry_def stored_entry_def mb_def setex_field_def case_prod_unfold Let_def
  show ?thesis
  proof (cases "setex_over opts now")
    case True
    then have over: "hse_ttl_action opts = TtlSet" "is_immediate_expire (hse_expire_at_ms opts) now" "setex_over opts now"
      by (simp_all add: setex_over_def)
    show ?thesis by (cases "cache f"; cases existed) (simp_all add: defs over)
  next
    case False
    then show ?thesis by (cases "cache f"; cases existed) (simp_all add: defs setex_over_def [symmetric])
  qed
qed

lemma setex_entry_cong:
  assumes "cache' g = cache g" and "is_legacy m' = is_legacy m"
  shows "setex_entry E s existed m' q now cache' g = setex_entry E s existed m q now cache g"
  using assms load_legacy [OF assms(2)] by (auto simp: setex_entry_def stored_entry_def split: option.split)

lemma setex_put_keeps: "setex_keeps opts fvs F \<Longrightarrow> setex_keeps opts fvs (setex_put opts now F fv)"
  by (cases fv) (auto simp: setex_keeps_def setex_put_def setex_over_def)

lemma setex_fold:
  assumes "hash_part (hq kc key) (hk kc key) (dat E s) now m batch P d N" and "\<not> is_legacy m"
    and "distinct (map fst fvs)" and "N + length fvs < 2 ^ 63"
    and "\<forall>f\<in>set (map fst fvs). knows now (P f) (setex_entry E s existed m (hq kc key) now cache f)"
    and "setex_keeps opts fvs (live P now)"
  shows "\<exists>cache' batch' m' P' d'. foldl (setex_step E s kc key opts existed now) (cache, batch, m) fvs = (cache', batch', m')
    \<and> hash_part (hq kc key) (hk kc key) (dat E s) now m' batch' P' d' (N + length fvs) \<and> \<not> is_legacy m'
    \<and> live P' now = foldl (setex_put opts now) (live P now) fvs"
  using assms
proof (induction fvs arbitrary: cache batch m P d N)
  case (Cons fv fvs)
  obtain f v where fv: "fv = (f, v)" by (cases fv)
  let ?en = "setex_entry E s existed m (hq kc key) now cache f"
  obtain m' batch' where run: "setex_field opts now m (hq kc key @ f) v ?en batch = (m', batch')"
    by (cases "setex_field opts now m (hq kc key @ f) v ?en batch")
  obtain cache' where st: "setex_step E s kc key opts existed now (cache, batch, m) (f, v) = (cache', batch', m')"
    and oth: "\<forall>g. g \<noteq> f \<longrightarrow> cache' g = cache g"
    using setex_step_eq [of E s kc key opts existed now cache batch m f v] run by auto
  have N: "N + 1 < 2 ^ 63" and kn: "knows now (P f) ?en"
    and keep: "hse_ttl_action opts = TtlKeep \<longrightarrow> live P now f \<noteq> None"
    using Cons.prems(4-6) fv by (auto simp: setex_keeps_def)
  obtain P' d' where p: "hash_part (hq kc key) (hk kc key) (dat E s) now m' batch' P' d' (N + 1)"
    and lv: "live P' now = setex_put opts now (live P now) (f, v)" and same: "\<forall>g. g \<noteq> f \<longrightarrow> P' g = P g"
    and nl: "\<not> is_legacy m'"
    using setex_field_part [OF Cons.prems(1) N Cons.prems(2) kn keep run] by blast
  have nf: "f \<notin> set (map fst fvs)" "distinct (map fst fvs)" using Cons.prems(3) fv by simp_all
  have kn': "\<forall>g\<in>set (map fst fvs). knows now (P' g) (setex_entry E s existed m' (hq kc key) now cache' g)"
  proof
    fix g
    assume g: "g \<in> set (map fst fvs)"
    then have "g \<noteq> f" using nf by auto
    then have c: "cache' g = cache g" and P: "P' g = P g" using oth same by blast+
    have "is_legacy m' = is_legacy m" using Cons.prems(2) nl by simp
    with c have e: "setex_entry E s existed m' (hq kc key) now cache' g = setex_entry E s existed m (hq kc key) now cache g"
      by (rule setex_entry_cong)
    have "knows now (P g) (setex_entry E s existed m (hq kc key) now cache g)"
      using Cons.prems(5) g by auto
    then show "knows now (P' g) (setex_entry E s existed m' (hq kc key) now cache' g)" unfolding e P .
  qed
  have "setex_keeps opts fvs (live P' now)"
    unfolding lv by (rule setex_put_keeps) (use Cons.prems(6) in \<open>simp add: setex_keeps_def\<close>)
  from Cons.IH [OF p nl nf(2) _ kn' this] Cons.prems(4) show ?case by (simp add: fv st lv)
qed auto

lemma setex_check_eq:
  assumes "\<forall>f\<in>set (map fst fvs). knows now (P f) (stored_entry E s existed m (hq kc key @ f) now)"
  shows "setex_check E s kc key c existed m now cache fvs
    = (if \<forall>f\<in>set (map fst fvs). setex_allowed c (live P now) f
       then Some (foldl (\<lambda>cache (f, v). cache(f \<mapsto> stored_entry E s existed m (hq kc key @ f) now)) cache fvs) else None)"
  using assms
proof (induction fvs arbitrary: cache)
  case (Cons fv fvs)
  obtain f v where fv: "fv = (f, v)" by (cases fv)
  have "set_condition_met c (cs_kind (stored_entry E s existed m (hq kc key @ f) now)) = setex_allowed c (live P now) f"
    by (rule knows_condition) (use Cons.prems fv in simp)
  then show ?case
    using Cons.IH Cons.prems fv by (cases "setex_allowed c (live P now) f") (simp_all add: Let_def del: fun_upd_apply)
qed simp

lemma check_cache:
  assumes "\<forall>g en. cache g = Some en \<longrightarrow> en = h g"
  shows "\<forall>g en. foldl (\<lambda>cache (f, v). cache(f \<mapsto> h f)) cache fvs g = Some en \<longrightarrow> en = h g"
  using assms
proof (induction fvs arbitrary: cache)
  case (Cons fv fvs)
  obtain f v where fv: "fv = (f, v)" by (cases fv)
  have "\<forall>g en. (cache(f \<mapsto> h f)) g = Some en \<longrightarrow> en = h g"
    using Cons.prems unfolding fun_upd_def by (metis option.inject)
  from Cons.IH [OF this] show ?case unfolding fv foldl.simps prod.case .
qed simp

section \<open>The command\<close>

context kv_engine
begin

lemma setex_known:
  assumes "hash_part (hq kc key) (hk kc key) (dat E s) now m [] P d N"
  shows "knows now (P f) (stored_entry E s True m (hq kc key @ f) now)"
  using part_reads(4,5) [OF assms refl, of f] by (simp add: knows_def stored_entry_def)

lemma setex_unknown: "knows now None (stored_entry E s False m (hq kc key @ f) now)"
  by (simp add: knows_def stored_entry_def missing_entry_def)

lemma setex_one_general:
  fixes s1 :: "'p wedb"
  assumes part: "hash_part (hq kc key) (hk kc key) (dat E s) now m batch P d N" and nl: "\<not> is_legacy m"
    and rep: "hash_rep E s kc now key (l, N0, live P now)" "dat E s1 = dat E s" "met E s1 = met E s" "N + 1 < 2 ^ 63"
    and kn: "knows now (P f) en" and keep: "setex_keeps opts [(f, v)] (live P now)"
    and idle: "P f = None \<Longrightarrow> hash_rep E s1 kc now key (False, N + 1, live P now)"
  defines "r \<equiv>
      if \<not> set_condition_met (hse_condition opts) (cs_kind en) then Inr (False, s1)
      else if hse_ttl_action opts = TtlSet \<and> is_immediate_expire (hse_expire_at_ms opts) now then
        (if cs_kind en \<noteq> FMissing then
           let (meta, batch) = remove_field_in_batch m (hq kc key @ f) (cs_kind en) batch
           in Inr (True, commit_hash_batch E (hk kc key) meta batch s1)
         else Inr (True, s1))
      else
        let target_expire = resolve_target_expire (hse_ttl_action opts) (hse_expire_at_ms opts) (cs_kind en) (cs_expire en);
            (meta, batch) = apply_setex_field_in_batch m (hq kc key @ f) v (cs_kind en) target_expire batch
        in Inr (True, commit_hash_batch E (hk kc key) meta batch s1)"
  shows "if setex_allowed (hse_condition opts) (live P now) f
    then \<exists>s'. r = (Inr (True, s') :: error + (bool \<times> 'p wedb))
      \<and> hash_rep E s' kc now key (False, N + 1, setex_put opts now (live P now) (f, v))
      \<and> (\<forall>x. \<not> owns kc key x \<longrightarrow> dat E s' x = dat E s x \<and> met E s' x = met E s x)
    else r = Inr (False, s1)"
proof (cases "setex_allowed (hse_condition opts) (live P now) f")
  case False
  then show ?thesis using knows_condition [of now P f en "hse_condition opts", OF kn] by (simp add: r_def)
next
  case allowed: True
  note c = knows_condition [of now P f en "hse_condition opts", OF kn]
  obtain m' batch' where run: "setex_field opts now m (hq kc key @ f) v en batch = (m', batch')"
    by (cases "setex_field opts now m (hq kc key @ f) v en batch")
  show ?thesis
  proof (cases "setex_over opts now \<and> cs_kind en = FMissing")
    case True
    then have "P f = None" using kn by (auto simp: knows_def kind_of_def split: option.splits if_splits)
    moreover from this have "setex_put opts now (live P now) (f, v) = live P now"
      using True by (simp add: setex_put_def live_def fun_upd_idem)
    moreover have "r = Inr (True, s1)" using True c allowed by (simp add: r_def setex_over_def)
    ultimately show ?thesis using idle allowed rep(2,3) by simp
  next
    case False
    then have r: "r = Inr (True, commit_hash_batch E (hk kc key) m' batch' s1)"
      using run c allowed by (auto simp: r_def setex_over_def setex_field_def Let_def split: prod.splits if_splits)
    obtain P' d' where p: "hash_part (hq kc key) (hk kc key) (dat E s) now m' batch' P' d' (N + 1)"
      and lv: "live P' now = setex_put opts now (live P now) (f, v)" and nl': "\<not> is_legacy m'"
      using setex_field_part [OF part rep(4) nl kn _ run] keep by (auto simp: setex_keeps_def)
    from hash_commit_batch [OF rep(1-3) p rep(4)] show ?thesis using r lv nl' allowed by simp
  qed
qed

lemma hash_rep_mono:
  assumes "hash_rep E s kc now key (l, N, F)" and "N \<le> N'" "N' < 2 ^ 63"
  shows "hash_rep E s kc now key (l, N', F)"
proof (cases "live_own hash_meta_ops (met E s) kc key now")
  case None
  then show ?thesis using assms by (simp add: hash_rep_def)
next
  case (Some m)
  then obtain P d where "is_legacy m = l" "hash_part (hq kc key) (hk kc key) (dat E s) now m [] P d N" "F = live P now"
    using assms(1) by (auto simp: hash_rep_def)
  then have "\<exists>P d. hash_part (hq kc key) (hk kc key) (dat E s) now m [] P d N' \<and> F = live P now"
    using part_mono [OF _ assms(2)] by blast
  then show ?thesis using assms Some by (simp add: hash_rep_def)
qed

end

context kv_engine
begin

lemma setex_prepared:
  assumes run: "prepare_hash_meta_for_write E kc now ts key [] s = Inr ((m, existed), batch, s1)"
    and rep: "hash_rep E s1 kc now key (False, N, F)" and F: "F = live P now"
    and part: "hash_part (hq kc key) (hk kc key) (dat E s1) now m batch P d N" and nl: "\<not> is_legacy m"
    and kn: "\<forall>f. knows now (P f) (stored_entry E s1 existed m (hq kc key @ f) now)"
    and N: "N + length fvs < 2 ^ 63" and dist: "distinct (map fst fvs)" and keep: "setex_keeps opts fvs F" and ne: "fvs \<noteq> []"
  shows "\<exists>s'. set_fields_with_expire E kc ts key fvs opts now now s = Inr (fst (setex_spec opts now fvs F), s')
      \<and> hash_rep E s' kc now key (False, N + length fvs, snd (setex_spec opts now fvs F))
      \<and> (\<forall>x. \<not> owns kc key x \<longrightarrow> dat E s' x = dat E s1 x \<and> met E s' x = met E s1 x)"
proof -
  note more = hash_rep_mono [OF rep _ N]
  show ?thesis
  proof (cases "length fvs = 1")
    case True
    then obtain f v where fv: "fvs = [(f, v)]" by (auto simp: length_Suc_conv)
    have one: "hash_rep E s1 kc now key (False, N, live P now)" "N + 1 < 2 ^ 63" "setex_keeps opts [(f, v)] (live P now)"
      using rep F N keep fv by simp_all
    have "hash_rep E s1 kc now key (False, N + 1, live P now)" using more F fv by simp
    from setex_one_general [OF part nl one(1) refl refl one(2) kn [rule_format] one(3) this] show ?thesis
      using more run nl F fv
      by (auto simp: set_fields_with_expire_def set_field_with_expire_one_def setex_spec_def Let_def split: if_splits)
  next
    case False
    let ?ok = "\<forall>f\<in>set (map fst fvs). setex_allowed (hse_condition opts) F f"
    let ?chk = "if hse_condition opts \<noteq> SetAny
        then setex_check E s1 kc key (hse_condition opts) existed m now Map.empty fvs else Some Map.empty"
    let ?h = "\<lambda>f. stored_entry E s1 existed m (hq kc key @ f) now"
    have any: "hse_condition opts = SetAny \<Longrightarrow> ?ok" by (simp add: setex_allowed_def)
    have "\<exists>cache. ?chk = (if ?ok then Some cache else None) \<and> (\<forall>g en. cache g = Some en \<longrightarrow> en = ?h g)"
    proof (cases "hse_condition opts = SetAny")
      case True
      then show ?thesis using any by (intro exI [of _ Map.empty]) simp
    next
      case False
      have "\<forall>f\<in>set (map fst fvs). knows now (P f) (?h f)" using kn by blast
      note chk = setex_check_eq [OF this, of "hse_condition opts" Map.empty]
      have "\<forall>g en. foldl (\<lambda>cache (f, v). cache(f \<mapsto> ?h f)) Map.empty fvs g = Some en \<longrightarrow> en = ?h g"
        by (rule check_cache) simp
      moreover have "?chk = (if ?ok then Some (foldl (\<lambda>cache (f, v). cache(f \<mapsto> ?h f)) Map.empty fvs) else None)"
        unfolding chk using False F by simp
      ultimately show ?thesis by blast
    qed
    then obtain cache where chk: "?chk = (if ?ok then Some cache else None)" and c: "\<forall>g en. cache g = Some en \<longrightarrow> en = ?h g"
      by blast
    show ?thesis
    proof (cases ?ok)
      case bad: False
      then have "?chk = None" using chk by argo
      then have "set_fields_with_expire E kc ts key fvs opts now now s = Inr (False, s1)"
        using run nl ne False by (simp add: set_fields_with_expire_def)
      then show ?thesis using bad more by (auto simp: setex_spec_def)
    next
      case ok: True
      have "\<forall>f\<in>set (map fst fvs). knows now (P f) (setex_entry E s1 existed m (hq kc key) now cache f)"
        using kn c by (auto simp: setex_entry_def split: option.split)
      from setex_fold [OF part nl dist N this] keep F obtain cache' batch' m' P' d' where
        f: "foldl (setex_step E s1 kc key opts existed now) (cache, batch, m) fvs = (cache', batch', m')"
        and p: "hash_part (hq kc key) (hk kc key) (dat E s1) now m' batch' P' d' (N + length fvs)" and nl': "\<not> is_legacy m'"
        and lv: "live P' now = foldl (setex_put opts now) F fvs" by blast
      have "?chk = Some cache" using chk ok by argo
      then have r: "set_fields_with_expire E kc ts key fvs opts now now s = Inr (True, commit_hash_batch E (hk kc key) m' batch' s1)"
        using run nl ne False f unique_fields_distinct [OF dist] by (simp add: set_fields_with_expire_def)
      show ?thesis
        using hash_commit_batch [OF rep refl refl p N] r nl' lv ok ne by (simp add: setex_spec_def)
    qed
  qed
qed

lemma setex_rep:
  assumes rep: "hash_rep E s kc now key (l, N, F)" and N: "N + length fvs < 2 ^ 63" and dist: "distinct (map fst fvs)"
    and keep: "setex_keeps opts fvs F"
  defines "bF \<equiv> setex_spec opts now fvs F"
  shows "if l \<and> fvs \<noteq> []
    then set_fields_with_expire E kc ts key fvs opts now now s = Inl (InvalidData ERR_HASH_FIELD_EXPIRATION_LEGACY_ENCODING)
    else \<exists>s'. set_fields_with_expire E kc ts key fvs opts now now s = Inr (fst bF, s')
      \<and> hash_rep E s' kc now key (l, N + length fvs, snd bF)
      \<and> (\<forall>x. \<not> owns kc key x \<longrightarrow> dat E s' x = dat E s x \<and> met E s' x = met E s x)"
proof (cases "fvs = []")
  case True
  then show ?thesis using rep by (simp add: set_fields_with_expire_def bF_def setex_spec_def)
next
  case ne: False
  show ?thesis
    using rep
  proof (cases rule: prepare_hash [where ts = ts])
    case (fresh m batch s1)
    have rep1: "hash_rep E s1 kc now key (False, N, F)"
      using hash_cong [OF rep] fresh(2,3,5) by (simp add: same_key_def)
    have part: "hash_part (hq kc key) (hk kc key) (dat E s1) now m batch Map.empty 0 N" using fresh(2,7) by simp
    have kn: "\<forall>f. knows now (Map.empty f) (stored_entry E s1 False m (hq kc key @ f) now)" by (simp add: setex_unknown)
    from setex_prepared [OF fresh(1) rep1 _ part fresh(4) kn N dist keep ne] show ?thesis
      using fresh(2,3,5,6) by (simp add: bF_def)
  next
    case (stored m P d)
    show ?thesis
    proof (cases l)
      case True
      then show ?thesis using stored(1,2) ne by (auto simp: set_fields_with_expire_def set_field_with_expire_one_def)
    next
      case False
      then have nl: "\<not> is_legacy m" and rep': "hash_rep E s kc now key (False, N, F)" using rep stored(2) by simp_all
      from setex_prepared [OF stored(1) rep' stored(3,4) nl _ N dist keep ne] show ?thesis
        using setex_known [OF stored(4)] False by (simp add: bF_def)
    qed
  qed
qed

end

end
