(* ===== verification/Hash_Api.thy ===== *)
theory Hash_Api
  imports Hash_Setex
begin

text \<open>
  The hash commands together: an abstract machine whose state gives every key its fields, each with
  the time it expires and its value, the same commands on the store, and the simulation between them.
\<close>

section \<open>Commands\<close>



datatype hash_reply =
    VNat nat | VBool bool | VInt int | VFloat u64 | VInts "int list" | VVal "bytes option" | VVals "bytes option list"
  | VItems "(bytes \<times> bytes) list" | VFields "bytes list" | VSample "(bytes \<times> bytes option) list"
  | VPage nat "(bytes \<times> bytes) list" | VFieldPage "bytes option" "(bytes \<times> bytes) list" | VFail error

definition hash_write :: "('a \<Rightarrow> hash_reply) \<Rightarrow> 'p wedb \<Rightarrow> error + ('a \<times> 'p wedb) \<Rightarrow> hash_reply \<times> 'p wedb" where
  "hash_write f s r = (case r of Inl e \<Rightarrow> (VFail e, s) | Inr (a, s') \<Rightarrow> (f a, s'))"

definition hash_read :: "('a \<Rightarrow> hash_reply) \<Rightarrow> 'p wedb \<Rightarrow> error + 'a \<Rightarrow> hash_reply \<times> 'p wedb" where
  "hash_read f s r = (case r of Inl e \<Rightarrow> (VFail e, s) | Inr a \<Rightarrow> (f a, s))"

lemma hash_reply_simps [simp]:
  "hash_write f s (Inr (a, s')) = (f a, s')" "hash_write f s (Inl e) = (VFail e, s)"
  "hash_read f s (Inr a) = (f a, s)" "hash_read f s (Inl e) = (VFail e, s)"
  by (simp_all add: hash_write_def hash_read_def)






section \<open>The abstract machine\<close>

























section \<open>The simulation\<close>















section \<open>Properties\<close>






end
