(* ===== verification/Spec2Isabelle.thy ===== *)
theory Spec2Isabelle
  imports Version_Gen Slot Wedb_Core List_Api Set_Api Str_Api Lcs Hll_Api Si_Parse Si_Api Hash_Api
begin

text \<open>
  A verification development for \<^verbatim>\<open>wedb_embed\<close>.
\<close>

end
